(* ===== verification/Prelude.thy ===== *)
theory Prelude
  imports Main "HOL-Library.Word" "HOL-Library.AList"
begin

text \<open>
  Shared vocabulary of the development.

  \<^item> \<open>byte\<close> and \<open>bytes\<close> model a JavaScript \<open>Uint8Array\<close>; \<open>Long\<close> models the 64-bit
    identifiers of the protocol (message ids, salts, session ids).
  \<^item> Hexadecimal text of a byte string, as the stores use it for their keys, with its
    inverse and injectivity.
  \<^item> Decimal text of a natural number (JavaScript's \<open>toString()\<close>), with injectivity.
  \<^item> Generic facts on lists that several components use.
\<close>

named_theorems jsmap_simps "equations of insertion-ordered maps"
named_theorems store_defs "operations of the stores, unfolded together"

type_synonym byte = "8 word"
type_synonym bytes = "byte list"
type_synonym Long = "64 word"

text \<open>\<open>Number.isSafeInteger\<close> on the integers: fractions and NaN, which it also refuses, are no values here.\<close>

definition isSafeInteger :: "int \<Rightarrow> bool" where
  "isSafeInteger n \<longleftrightarrow> \<bar>n\<bar> \<le> 2 ^ 53 - 1"

section \<open>Lists\<close>

lemma distinct_map_filter_fst:
  "distinct (map fst m) \<Longrightarrow> distinct (map fst (filter P m))"
  by (induction m) auto

lemma split_at_separator:
  "x \<notin> set xs \<Longrightarrow> x \<notin> set xs' \<Longrightarrow> xs @ x # ys = xs' @ x # ys' \<Longrightarrow> xs = xs' \<and> ys = ys'"
proof (induction xs arbitrary: xs')
  case Nil
  then show ?case by (cases xs') auto
next
  case (Cons a xs)
  then obtain b zs where "xs' = b # zs" by (cases xs') auto
  with Cons show ?case by auto
qed

lemma map_of_drop_subset:
  assumes "distinct (map fst m)" and "map_of (drop n m) k = Some v"
  shows "map_of m k = Some v"
proof -
  from assms(2) have "(k, v) \<in> set (drop n m)" by (rule map_of_SomeD)
  then have "(k, v) \<in> set m" by (rule in_set_dropD)
  with assms(1) show ?thesis by simp
qed

lemma sum_list_filter_split:
  "sum_list (map f xs) = sum_list (map f (filter P xs)) + sum_list (map f (filter (\<lambda>x. \<not> P x) xs))"
  for f :: "'a \<Rightarrow> nat"
  by (induction xs) auto

section \<open>Hexadecimal text\<close>

text \<open>\<open>byte.toString(16).padStart(2, '0')\<close>: two lower-case digits, high nibble first.\<close>

definition hex_digit :: "nat \<Rightarrow> char" where
  "hex_digit n = (if n < 10 then char_of (48 + n) else char_of (87 + n))"

definition hex_value :: "char \<Rightarrow> nat" where
  "hex_value c = (let n = of_char c in if n < 58 then n - 48 else n - 87)"

definition byteHex :: "byte \<Rightarrow> string" where
  "byteHex b = [hex_digit (unat b div 16), hex_digit (unat b mod 16)]"

lemma hex_value_digit: "n < 16 \<Longrightarrow> hex_value (hex_digit n) = n"
  by (simp add: hex_value_def hex_digit_def Let_def)

lemma hex_digit_inj: "m < 16 \<Longrightarrow> n < 16 \<Longrightarrow> hex_digit m = hex_digit n \<longleftrightarrow> m = n"
  by (metis hex_value_digit)

lemma unat_byte_bound: "unat (b :: byte) < 256"
  using unsigned_less [of b, where 'a = nat] by simp

lemma byteHex_inj: "byteHex a = byteHex b \<longleftrightarrow> a = b"
proof
  assume "byteHex a = byteHex b"
  then have "unat a div 16 = unat b div 16" and "unat a mod 16 = unat b mod 16"
    using unat_byte_bound [of a] unat_byte_bound [of b]
    by (auto simp: byteHex_def hex_digit_inj)
  then have "unat a = unat b" by (metis div_mult_mod_eq)
  then show "a = b" by (simp add: word_unat_eq_iff)
qed simp

lemma length_byteHex [simp]: "length (byteHex b) = 2"
  by (simp add: byteHex_def)

lemma hex_digit_neq_colon: "n < 16 \<Longrightarrow> hex_digit n \<noteq> CHR '':''"
  by (auto simp: hex_digit_def char_of_eq_iff take_bit_eq_mod)

lemma colon_notin_byteHex: "CHR '':'' \<notin> set (byteHex b)"
proof -
  have "unat b div 16 < 16" and "unat b mod 16 < 16"
    using unat_byte_bound [of b] by auto
  then show ?thesis
    using hex_digit_neq_colon [of "unat b div 16"] hex_digit_neq_colon [of "unat b mod 16"]
    by (auto simp: byteHex_def)
qed

text \<open>The hexadecimal text of a byte string; \<open>setAdd\<close> is \<open>Set.add\<close> on an insertion-ordered set.\<close>

definition toHex :: "bytes \<Rightarrow> string" where
  "toHex u = concat (map byteHex u)"

lemma toHex_simps [simp]: "toHex [] = []" "toHex (b # u) = byteHex b @ toHex u"
  by (simp_all add: toHex_def)

lemma toHex_inj: "toHex a = toHex b \<longleftrightarrow> a = b"
proof (induction a arbitrary: b)
  case Nil
  then show ?case by (cases b) (auto simp: byteHex_def)
next
  case (Cons x a)
  show ?case
  proof (cases b)
    case Nil
    then show ?thesis by (simp add: byteHex_def)
  next
    case b: (Cons y b')
    then have "toHex (x # a) = toHex b \<longleftrightarrow> byteHex x = byteHex y \<and> toHex a = toHex b'" by simp
    with Cons b show ?thesis by (simp add: byteHex_inj)
  qed
qed

fun fromHex :: "string \<Rightarrow> bytes" where
  "fromHex (a # b # s) = word_of_nat (hex_value a * 16 + hex_value b) # fromHex s"
| "fromHex _ = []"

lemma fromHex_toHex: "fromHex (toHex u) = u"
proof (induction u)
  case (Cons b u)
  have "unat b div 16 < 16" and "unat b mod 16 < 16" using unat_byte_bound [of b] by auto
  then have "hex_value (hex_digit (unat b div 16)) * 16 + hex_value (hex_digit (unat b mod 16)) = unat b"
    by (simp add: hex_value_digit)
  with Cons show ?case by (simp add: byteHex_def)
qed simp

definition setAdd :: "'a \<Rightarrow> 'a list \<Rightarrow> 'a list" where
  "setAdd x xs = (if x \<in> set xs then xs else xs @ [x])"

lemma set_setAdd [simp]: "set (setAdd x xs) = insert x (set xs)"
  by (auto simp: setAdd_def)

section \<open>Decimal text\<close>

fun decString :: "nat \<Rightarrow> string" where
  "decString n = (if n < 10 then [char_of (48 + n)] else decString (n div 10) @ [char_of (48 + n mod 10)])"

declare decString.simps [simp del]

lemma decString_inj: "decString m = decString n \<Longrightarrow> m = n"
proof (induction m arbitrary: n rule: decString.induct)
  case (1 m)
  have digit: "a = b" if "a < 10" "b < 10" "char_of (48 + a) = (char_of (48 + b) :: char)" for a b :: nat
    using that by (simp add: char_of_eq_iff take_bit_eq_mod)
  have nonempty: "decString k \<noteq> []" for k by (subst decString.simps) simp
  show ?case
  proof (cases "m < 10")
    case True
    then show ?thesis
      using "1.prems" nonempty [of "n div 10"] digit
      by (auto simp: decString.simps [of m] decString.simps [of n] split: if_splits)
  next
    case False
    then have big: "\<not> n < 10" using "1.prems" nonempty [of "m div 10"]
      by (auto simp: decString.simps [of m] decString.simps [of n])
    with False "1.prems" have "decString (m div 10) = decString (n div 10)"
      and "m mod 10 = n mod 10"
      using digit by (auto simp: decString.simps [of m] decString.simps [of n])
    with "1.IH" [OF False, of "n div 10"] show ?thesis by (metis div_mult_mod_eq)
  qed
qed

text \<open>\<open>Long.toString()\<close> of an unsigned 64-bit identifier.\<close>

definition longString :: "Long \<Rightarrow> string" where
  "longString m = decString (unat m)"

lemma longString_inj: "longString a = longString b \<longleftrightarrow> a = b"
  by (auto simp: longString_def word_unat_eq_iff dest: decString_inj)

end
