(* ===== verification/Js_Map.thy ===== *)
theory Js_Map
  imports Prelude
begin

text \<open>
  The JavaScript \<open>Map\<close>: lookup by key, \<open>set\<close> that overwrites in place or appends at the
  end, \<open>delete\<close>, iteration in insertion order. It is an association list with distinct
  keys, and the library's \<open>AList.update\<close> and \<open>AList.delete\<close> are exactly \<open>set\<close> and
  \<open>delete\<close>.

  The locale \<open>ordered_map\<close> is the contract the components rely on; what \<open>delete\<close> followed
  by \<open>set\<close> (the idiom the code uses to move a key to the end) does is proved once inside it.
  \<open>evictOldest\<close> is the loop \<open>while (map.size > n) map.delete(map.keys().next().value)\<close>
  that four components share.
\<close>

type_synonym ('k, 'v) jsmap = "('k \<times> 'v) list"

abbreviation js_get :: "('k, 'v) jsmap \<Rightarrow> 'k \<Rightarrow> 'v option" where
  "js_get \<equiv> map_of"

abbreviation js_set :: "'k \<Rightarrow> 'v \<Rightarrow> ('k, 'v) jsmap \<Rightarrow> ('k, 'v) jsmap" where
  "js_set \<equiv> AList.update"

abbreviation js_delete :: "'k \<Rightarrow> ('k, 'v) jsmap \<Rightarrow> ('k, 'v) jsmap" where
  "js_delete \<equiv> AList.delete"

abbreviation js_keys :: "('k, 'v) jsmap \<Rightarrow> 'k list" where
  "js_keys m \<equiv> map fst m"

abbreviation js_has :: "('k, 'v) jsmap \<Rightarrow> 'k \<Rightarrow> bool" where
  "js_has m k \<equiv> map_of m k \<noteq> None"

definition js_inv :: "('k, 'v) jsmap \<Rightarrow> bool" where
  "js_inv m \<longleftrightarrow> distinct (js_keys m)"

section \<open>The contract\<close>

lemma length_filter_remove_one:
  "distinct xs \<Longrightarrow> k \<in> set xs \<Longrightarrow> length (filter (\<lambda>x. x \<noteq> k) xs) = length xs - 1"
proof (induction xs)
  case (Cons x xs)
  show ?case
  proof (cases "x = k")
    case True
    with Cons.prems have "filter (\<lambda>x. x \<noteq> k) xs = xs" by (auto simp: filter_id_conv)
    with True show ?thesis by simp
  next
    case False
    with Cons have "length (filter (\<lambda>x. x \<noteq> k) xs) = length xs - 1" and "0 < length xs" by auto
    with False show ?thesis by simp
  qed
qed simp

locale ordered_map =
  fixes get :: "'m \<Rightarrow> 'k \<Rightarrow> 'v option"
    and put :: "'k \<Rightarrow> 'v \<Rightarrow> 'm \<Rightarrow> 'm"
    and del :: "'k \<Rightarrow> 'm \<Rightarrow> 'm"
    and keys :: "'m \<Rightarrow> 'k list"
    and inv :: "'m \<Rightarrow> bool"
  assumes get_put: "inv m \<Longrightarrow> get (put k v m) = (get m)(k \<mapsto> v)"
    and get_del: "inv m \<Longrightarrow> get (del k m) = (get m)(k := None)"
    and keys_put: "inv m \<Longrightarrow> keys (put k v m) = (if k \<in> set (keys m) then keys m else keys m @ [k])"
    and keys_del: "inv m \<Longrightarrow> keys (del k m) = filter (\<lambda>x. x \<noteq> k) (keys m)"
    and keys_get: "inv m \<Longrightarrow> k \<in> set (keys m) \<longleftrightarrow> get m k \<noteq> None"
    and inv_put: "inv m \<Longrightarrow> inv (put k v m)"
    and inv_del: "inv m \<Longrightarrow> inv (del k m)"
    and keys_distinct: "inv m \<Longrightarrow> distinct (keys m)"
begin

lemma keys_touch: "inv m \<Longrightarrow> keys (put k v (del k m)) = filter (\<lambda>x. x \<noteq> k) (keys m) @ [k]"
  by (simp add: keys_put keys_del inv_del)

lemma get_touch: "inv m \<Longrightarrow> get (put k v (del k m)) = (get m)(k \<mapsto> v)"
  by (simp add: get_put get_del inv_del)

lemma inv_touch: "inv m \<Longrightarrow> inv (put k v (del k m))"
  by (simp add: inv_put inv_del)

lemma size_touch: "inv m \<Longrightarrow> length (keys (put k v (del k m))) \<le> Suc (length (keys m))"
  by (simp add: keys_touch le_imp_less_Suc [OF length_filter_le, THEN Suc_leI])

lemma size_touch_present:
  assumes "inv m" and "get m k \<noteq> None"
  shows "length (keys (put k v (del k m))) = length (keys m)"
proof -
  from assms have "k \<in> set (keys m)" and "distinct (keys m)"
    by (simp_all add: keys_get keys_distinct)
  then have "length (filter (\<lambda>x. x \<noteq> k) (keys m)) = length (keys m) - 1"
    using length_filter_remove_one by fastforce
  moreover from \<open>k \<in> set (keys m)\<close> have "0 < length (keys m)" by auto
  ultimately show ?thesis using assms(1) by (simp add: keys_touch)
qed

end

section \<open>Association lists implement it\<close>

lemma js_keys_set: "js_keys (js_set k v m) = (if k \<in> set (js_keys m) then js_keys m else js_keys m @ [k])"
  by (simp add: update_keys)

lemma js_keys_delete: "js_keys (js_delete k m) = filter (\<lambda>x. x \<noteq> k) (js_keys m)"
  by (simp add: delete_keys removeAll_filter_not_eq eq_commute)

interpretation jsm: ordered_map map_of AList.update AList.delete "map fst" js_inv
proof unfold_locales
  fix m :: "('a \<times> 'b) list" and k :: 'a and v :: 'b
  assume "js_inv m"
  show "map_of (AList.update k v m) = (map_of m)(k \<mapsto> v)" by (rule update_conv')
  show "map_of (AList.delete k m) = (map_of m)(k := None)" by (simp add: delete_conv')
  show "map fst (AList.update k v m) = (if k \<in> set (map fst m) then map fst m else map fst m @ [k])"
    by (rule js_keys_set)
  show "map fst (AList.delete k m) = filter (\<lambda>x. x \<noteq> k) (map fst m)" by (rule js_keys_delete)
  show "(k \<in> set (map fst m)) = (map_of m k \<noteq> None)" by (simp add: map_of_eq_None_iff)
  show "js_inv (AList.update k v m)" using \<open>js_inv m\<close> by (simp add: js_inv_def distinct_update)
  show "js_inv (AList.delete k m)" using \<open>js_inv m\<close> by (simp add: js_inv_def distinct_delete)
  show "distinct (map fst m)" using \<open>js_inv m\<close> by (simp add: js_inv_def)
qed

lemma js_inv_Nil [simp]: "js_inv []"
  by (simp add: js_inv_def)

lemma js_inv_Cons: "js_inv (e # m) \<longleftrightarrow> fst e \<notin> set (js_keys m) \<and> js_inv m"
  by (auto simp: js_inv_def)

lemma js_inv_set [simp, intro]: "js_inv m \<Longrightarrow> js_inv (js_set k v m)"
  by (rule jsm.inv_put)

lemma js_inv_delete [simp, intro]: "js_inv m \<Longrightarrow> js_inv (js_delete k m)"
  by (rule jsm.inv_del)

lemma js_inv_filter [simp, intro]: "js_inv m \<Longrightarrow> js_inv (filter P m)"
  by (simp add: js_inv_def distinct_map_filter_fst)

lemma js_inv_drop [simp, intro]: "js_inv m \<Longrightarrow> js_inv (drop n m)"
  by (simp add: js_inv_def drop_map [symmetric])

lemma js_set_new: "k \<notin> set (js_keys m) \<Longrightarrow> js_set k v m = m @ [(k, v)]"
  by (induction m) auto

lemma delete_eq_filter: "js_delete k m = filter (\<lambda>e. fst e \<noteq> k) m"
  by (simp add: AList.delete_eq case_prod_unfold eq_commute)

lemma js_touch_eq: "js_set k v (js_delete k m) = filter (\<lambda>e. fst e \<noteq> k) m @ [(k, v)]"
  by (subst js_set_new) (auto simp: delete_eq_filter)

lemmas js_touch [jsmap_simps] = jsm.keys_touch jsm.get_touch jsm.inv_touch

lemma js_delete_hd: "js_inv ((k, v) # m) \<Longrightarrow> js_delete k ((k, v) # m) = m"
  by (simp add: js_inv_Cons)

section \<open>Evicting the oldest entries\<close>

function evictOldest :: "nat \<Rightarrow> ('k, 'v) jsmap \<Rightarrow> ('k, 'v) jsmap" where
  "evictOldest limit m =
     (if length m > limit
      then (case js_keys m of [] \<Rightarrow> m | oldest # _ \<Rightarrow> evictOldest limit (js_delete oldest m))
      else m)"
  by pat_completeness auto
termination
  by (relation "measure (\<lambda>(n, m). length m)")
    (auto simp: delete_eq_filter intro: le_imp_less_Suc [OF length_filter_le])

declare evictOldest.simps [simp del]

lemma evictOldest_drop: "js_inv m \<Longrightarrow> evictOldest limit m = drop (length m - limit) m"
proof (induction "length m - limit" arbitrary: m)
  case 0
  then show ?case by (simp add: evictOldest.simps [of limit m])
next
  case (Suc n)
  then obtain k v m' where m: "m = (k, v) # m'" by (cases m) auto
  with Suc.prems have "js_delete k m = m'" by (metis js_delete_hd)
  moreover from Suc.hyps(2) have "length m > limit" by linarith
  ultimately have "evictOldest limit m = evictOldest limit m'"
    using m by (subst evictOldest.simps) simp
  also have "\<dots> = drop (length m' - limit) m'"
    using Suc m by (simp add: js_inv_Cons)
  finally have "evictOldest limit m = drop (length m' - limit) m'" .
  with m Suc.hyps(2) show ?case by (simp add: drop_Cons')
qed

lemma length_evictOldest: "js_inv m \<Longrightarrow> length (evictOldest limit m) = min (length m) limit"
  by (simp add: evictOldest_drop)

lemma js_inv_evictOldest: "js_inv m \<Longrightarrow> js_inv (evictOldest limit m)"
  by (simp add: evictOldest_drop)

end
