(* ===== verification/Message_Id.thy ===== *)
theory Message_Id
  imports Prelude Complex_Main
begin

unbundle bit_operations_syntax

text \<open>
  \<open>packages/mtproto/src/session/message-id.ts\<close>: the server's generator of message ids and
  sequence numbers. The clock reading \<open>Date.now() / 1000\<close> is a parameter of
  \<open>getMessageId\<close>; it is a rational, and the additions and products of the code are exact on
  it (the code computes them on doubles). Ids are 64-bit words compared as unsigned
  numbers; the signed and unsigned readings of the code's \<open>Long\<close> objects agree below
  \<open>2 ^ 63\<close>, which is the range the ordering theorems are stated for.
\<close>

section \<open>State and operations\<close>

record msgIdGen =
  mg_timeOffset :: int
  mg_lastMsgId :: Long
  mg_contentCount :: nat

definition newMsgIdGen :: msgIdGen where
  "newMsgIdGen = \<lparr>mg_timeOffset = 0, mg_lastMsgId = 0, mg_contentCount = 0\<rparr>"

definition updateTimeOffset :: "int \<Rightarrow> msgIdGen \<Rightarrow> msgIdGen" where
  "updateTimeOffset off g = g\<lparr>mg_timeOffset := off\<rparr>"

definition observeClientMsgId :: "Long \<Rightarrow> msgIdGen \<Rightarrow> msgIdGen" where
  "observeClientMsgId m g = (if m > mg_lastMsgId g then g\<lparr>mg_lastMsgId := m\<rparr> else g)"

definition longOfParts :: "32 word \<Rightarrow> 32 word \<Rightarrow> Long" where
  "longOfParts low high = push_bit 32 (ucast high) OR ucast low"

definition clockMsgId :: "rat \<Rightarrow> Long" where
  "clockMsgId now =
     (let secs = \<lfloor>now\<rfloor>;
          frac = \<lfloor>(now - of_int secs) * 0x100000000\<rfloor>;
          low = ((word_of_int frac :: 32 word) AND NOT 3) OR 1
      in longOfParts low (word_of_int secs))"

definition nextServerDelta :: "Long \<Rightarrow> int" where
  "nextServerDelta lst =
     (let remainder = uint (lst AND 3);
          delta = (1 - remainder) AND 3
      in if delta \<noteq> 0 then delta else 4)"

definition getMessageId :: "rat \<Rightarrow> msgIdGen \<Rightarrow> Long \<times> msgIdGen" where
  "getMessageId dateNow g =
     (let now = dateNow + of_int (mg_timeOffset g);
          msgId = clockMsgId now;
          msgId' = (if msgId \<le> mg_lastMsgId g
                    then mg_lastMsgId g + word_of_int (nextServerDelta (mg_lastMsgId g))
                    else msgId)
      in (msgId', g\<lparr>mg_lastMsgId := msgId'\<rparr>))"

definition getSeqNo :: "bool \<Rightarrow> msgIdGen \<Rightarrow> nat \<times> msgIdGen" where
  "getSeqNo isContentRelated g =
     (if isContentRelated
      then (mg_contentCount g * 2 + 1, g\<lparr>mg_contentCount := mg_contentCount g + 1\<rparr>)
      else (mg_contentCount g * 2, g))"

section \<open>Low bits of a server id\<close>

lemma word_and3_eq: "(w :: Long) AND 3 = w mod 4"
proof -
  have "w AND 3 = take_bit 2 w" by (simp add: take_bit_eq_mask mask_eq_exp_minus_1)
  then show ?thesis by (simp add: take_bit_eq_mod)
qed

lemma unat_and3: "unat ((w :: Long) AND 3) = unat w mod 4"
  by (simp add: word_and3_eq unat_mod)

lemma word_and3_take_bit: "(w :: 'a::len word) AND 3 = take_bit 2 w"
  by (simp add: take_bit_eq_mask mask_eq_exp_minus_1)

lemma low_bits_of_frac: "((w :: 32 word) AND NOT 3) OR 1 = (w AND NOT (mask 2)) OR 1"
  by (simp add: mask_eq_exp_minus_1)

lemma longOfParts_and3: "longOfParts ((w AND NOT 3) OR 1) h AND 3 = 1"
  unfolding low_bits_of_frac word_and3_take_bit longOfParts_def
  by (rule bit_word_eqI) (auto simp: bit_simps)

lemma clockMsgId_and3: "clockMsgId now AND 3 = 1"
  by (simp only: clockMsgId_def Let_def longOfParts_and3)

lemma int_and3: "(i :: int) AND 3 = i mod 4"
proof -
  have "i AND 3 = take_bit 2 i" by (simp add: take_bit_eq_mask mask_eq_exp_minus_1)
  then show ?thesis by (simp add: take_bit_eq_mod)
qed

lemma nextServerDelta_range: "nextServerDelta lst \<in> {1, 2, 3, 4}"
proof -
  have "(1 - uint (lst AND 3)) AND 3 \<in> {0, 1, 2, 3}"
    unfolding int_and3 by auto
  then show ?thesis by (auto simp: nextServerDelta_def Let_def)
qed

lemma nextServerDelta_mod: "(uint lst + nextServerDelta lst) mod 4 = 1"
proof -
  have r: "uint (lst AND 3) = uint lst mod 4"
    by (simp add: word_and3_eq uint_mod)
  have "nextServerDelta lst mod 4 = (1 - uint lst) mod 4"
    by (simp add: nextServerDelta_def Let_def int_and3 r mod_diff_right_eq)
  then show ?thesis by presburger
qed

lemma next_after_last:
  fixes lst :: Long
  defines "n \<equiv> lst + word_of_int (nextServerDelta lst)"
  shows "n AND 3 = 1"
proof -
  have "uint n = (uint lst + nextServerDelta lst) mod 2 ^ 64"
    by (simp add: n_def uint_word_ariths uint_word_of_int mod_add_right_eq)
  moreover have "((uint lst + nextServerDelta lst) mod 2 ^ 64) mod 4 = 1"
    using nextServerDelta_mod [of lst] mod_mod_cancel [of "4 :: int" "2 ^ 64"] by simp
  ultimately have "uint n mod 4 = 1" by metis
  then have "uint (n AND 3) = uint (1 :: Long)" by (simp add: word_and3_eq uint_mod)
  then show ?thesis by (simp only: word_uint_eq_iff)
qed

section \<open>Ordering\<close>

lemma uint_longOfParts: "uint (longOfParts low high) = uint high * 2 ^ 32 + uint low"
proof -
  have disj: "push_bit 32 (ucast high) AND (ucast low :: Long) = 0"
    by (rule bit_word_eqI) (auto simp: bit_simps dest: bit_imp_le_length)
  have "longOfParts low high = push_bit 32 (ucast high) + ucast low"
    unfolding longOfParts_def using word_plus_and_or [of "push_bit 32 (ucast high)" "ucast low :: Long"]
    by (simp add: disj)
  moreover have "uint (push_bit 32 (ucast high :: Long)) = uint high * 2 ^ 32"
    using uint_lt2p [of high]
    by (simp add: push_bit_eq_mult uint_word_ariths unsigned_ucast_eq take_bit_eq_mod)
  moreover have "uint (ucast low :: Long) = uint low"
    using uint_lt2p [of low] by (simp add: unsigned_ucast_eq take_bit_int_eq_self_iff)
  ultimately show ?thesis
    using uint_lt2p [of low] uint_lt2p [of high] by (simp add: uint_word_ariths)
qed

lemma clockMsgId_bound:
  assumes "0 \<le> now" and "now < 2 ^ 31"
  shows "clockMsgId now < 2 ^ 63"
proof -
  have secs: "0 \<le> \<lfloor>now\<rfloor>" "\<lfloor>now\<rfloor> < 2 ^ 31"
    using assms by (simp_all add: floor_less_iff)
  then have "uint (word_of_int \<lfloor>now\<rfloor> :: 32 word) = \<lfloor>now\<rfloor>"
    by (simp add: uint_word_of_int)
  moreover have "uint l < 2 ^ 32" for l :: "32 word"
    using uint_lt2p [of l] by simp
  ultimately have "uint (clockMsgId now) \<le> \<lfloor>now\<rfloor> * 2 ^ 32 + (2 ^ 32 - 1)"
    by (simp only: clockMsgId_def Let_def uint_longOfParts zle_diff1_eq add_le_cancel_left)
  also have "\<dots> < 2 ^ 63"
  proof -
    have "s * 2 ^ 32 + (2 ^ 32 - 1) < 2 ^ 63" if "s < 2 ^ 31" for s :: int using that by simp
    then show ?thesis using secs(2) .
  qed
  finally show ?thesis by (simp add: word_less_def)
qed

text \<open>An id issued below the wrap-around point is above every id seen before.\<close>

lemma next_after_greater:
  assumes "uint lst < 2 ^ 64 - 4"
  shows "uint (lst + word_of_int (nextServerDelta lst)) = uint lst + nextServerDelta lst"
  using assms nextServerDelta_range [of lst]
  by (simp add: uint_word_ariths uint_word_of_int mod_add_right_eq) auto

lemma getMessageId_increases:
  assumes "uint (mg_lastMsgId g) < 2 ^ 64 - 4"
  shows "mg_lastMsgId g < fst (getMessageId clk g)"
proof (cases "clockMsgId (clk + of_int (mg_timeOffset g)) \<le> mg_lastMsgId g")
  case True
  then show ?thesis
    using next_after_greater [OF assms] nextServerDelta_range [of "mg_lastMsgId g"]
    by (auto simp: getMessageId_def Let_def word_less_def)
next
  case False
  then show ?thesis by (auto simp: getMessageId_def Let_def not_le)
qed

lemma getMessageId_bounded:
  assumes "uint (mg_lastMsgId g) < 2 ^ 63 + k" and "0 \<le> k" and "k < 2 ^ 62"
    and "0 \<le> clk + of_int (mg_timeOffset g)" and "clk + of_int (mg_timeOffset g) < 2 ^ 31"
  shows "uint (fst (getMessageId clk g)) < 2 ^ 63 + (k + 4)"
proof (cases "clockMsgId (clk + of_int (mg_timeOffset g)) \<le> mg_lastMsgId g")
  case True
  have "uint (mg_lastMsgId g) < 2 ^ 64 - 4" using assms by simp
  with True show ?thesis
    using next_after_greater nextServerDelta_range [of "mg_lastMsgId g"] assms
    by (auto simp: getMessageId_def Let_def)
next
  case False
  then show ?thesis
    using clockMsgId_bound [OF assms(4,5)] assms(2)
    by (simp add: getMessageId_def Let_def word_less_def)
qed

lemma getMessageId_last: "mg_lastMsgId (snd (getMessageId clk g)) = fst (getMessageId clk g)"
  by (simp add: getMessageId_def Let_def)

lemma getMessageId_offset [simp]: "mg_timeOffset (snd (getMessageId clk g)) = mg_timeOffset g"
  by (simp add: getMessageId_def Let_def)

lemma getMessageId_and3: "fst (getMessageId clk g) AND 3 = 1"
  by (simp add: getMessageId_def Let_def clockMsgId_and3 next_after_last)

section \<open>Runs of a session\<close>

text \<open>
  What a session does to the generator: the offset found by the handshake, the client ids it
  observes and the ids it asks for, in any order. \<open>idRun\<close> lists the ids issued.
\<close>

datatype idEvent = SetOffset int | Observe Long | Issue rat

fun idStep :: "idEvent \<Rightarrow> msgIdGen \<Rightarrow> Long list \<times> msgIdGen" where
  "idStep (SetOffset off) g = ([], updateTimeOffset off g)"
| "idStep (Observe m) g = ([], observeClientMsgId m g)"
| "idStep (Issue clk) g = (let (m, g') = getMessageId clk g in ([m], g'))"

fun idRun :: "idEvent list \<Rightarrow> msgIdGen \<Rightarrow> Long list" where
  "idRun [] g = []"
| "idRun (e # es) g = (let (ms, g') = idStep e g in ms @ idRun es g')"

text \<open>Clock readings until 2033, offsets of at most three years, client ids below \<open>2 ^ 63\<close>.\<close>

fun idEventOk :: "idEvent \<Rightarrow> bool" where
  "idEventOk (SetOffset off) \<longleftrightarrow> \<bar>off\<bar> \<le> 100000000"
| "idEventOk (Observe m) \<longleftrightarrow> m < 2 ^ 63"
| "idEventOk (Issue clk) \<longleftrightarrow> 100000000 \<le> clk \<and> clk \<le> 2000000000"

lemma idRun_greater:
  assumes "\<forall>e \<in> set es. idEventOk e" and "\<bar>mg_timeOffset g\<bar> \<le> 100000000"
    and "uint (mg_lastMsgId g) < 2 ^ 63 + k" and "0 \<le> k" and "k + 4 * int (length es) < 2 ^ 62"
  shows "sorted_wrt (<) (idRun es g) \<and> (\<forall>m \<in> set (idRun es g). mg_lastMsgId g < m)"
  using assms
proof (induction es arbitrary: g k)
  case Nil
  then show ?case by simp
next
  case (Cons e es)
  show ?case
  proof (cases e)
    case (SetOffset off)
    with Cons.prems Cons.IH [of "updateTimeOffset off g" k] show ?thesis
      by (simp add: updateTimeOffset_def)
  next
    case (Observe m)
    with Cons.prems have "m < 2 ^ 63" by simp
    then have "uint (mg_lastMsgId (observeClientMsgId m g)) < 2 ^ 63 + k"
      using Cons.prems(3,4) by (simp add: observeClientMsgId_def word_less_def)
    with Observe Cons.prems Cons.IH [of "observeClientMsgId m g" k] show ?thesis
      by (auto simp: observeClientMsgId_def split: if_splits)
  next
    case (Issue clk)
    let ?g = "snd (getMessageId clk g)" and ?m = "fst (getMessageId clk g)"
    have "rat_of_int \<bar>mg_timeOffset g\<bar> \<le> 100000000" using Cons.prems(2) by simp
    then have now: "0 \<le> clk + of_int (mg_timeOffset g)" "clk + of_int (mg_timeOffset g) < 2 ^ 31"
      using Cons.prems(1) Issue by auto
    have "uint ?m < 2 ^ 63 + (k + 4)"
      using getMessageId_bounded [OF Cons.prems(3,4) _ now] Cons.prems(5) by simp
    then have IH: "sorted_wrt (<) (idRun es ?g) \<and> (\<forall>m \<in> set (idRun es ?g). ?m < m)"
      using Cons.IH [of ?g "k + 4"] Cons.prems by (simp add: getMessageId_last)
    moreover have "mg_lastMsgId g < ?m"
      using getMessageId_increases [of g clk] Cons.prems(3-5) by simp
    ultimately show ?thesis using Issue by (auto simp: case_prod_unfold Let_def)
  qed
qed

section \<open>Properties\<close>



end
