(* ===== verification/Server_Auth_Key.thy ===== *)
theory Server_Auth_Key
  imports Prelude
begin

unbundle bit_operations_syntax

text \<open>
  Message encryption of the server: \<open>packages/mtproto/src/session/server-auth-key.ts\<close>.

  The digests, the random source and AES-IGE with the key derivation of the protocol
  (\<open>createAesIgeForMessage\<close> of the mtcute package) are the parameter \<open>msgCrypto\<close>;
  \<open>ige_laws\<close> is what the code relies on. \<open>subarray(a, b)\<close> is \<open>take (b - a) (drop a _)\<close>,
  which clamps at the end of the array as the code's does. A frame's plaintext is
  \<open>server_salt(8) + session_id(8) + msg_id(8) + seq_no(4) + length(4) + body + padding\<close>.
  The reader that the callback gets is the rest of the plaintext behind this header.
\<close>

section \<open>Numbers in little-endian order\<close>

definition le32 :: "32 word \<Rightarrow> bytes" where
  "le32 w = [ucast w, ucast (drop_bit 8 w), ucast (drop_bit 16 w), ucast (drop_bit 24 w)]"

definition longLow :: "Long \<Rightarrow> 32 word" where
  "longLow v = ucast v"

definition longHigh :: "Long \<Rightarrow> 32 word" where
  "longHigh v = ucast (drop_bit 32 v)"

definition longToBytesLE :: "Long \<Rightarrow> bytes" where
  "longToBytesLE v = le32 (longLow v) @ le32 (longHigh v)"

text \<open>The readers of \<open>DataView\<close> and \<open>TlBinaryReader\<close>: \<open>uintAt off bs\<close> reads four bytes,
  \<open>longAt off bs\<close> eight.\<close>

definition uintAt :: "nat \<Rightarrow> bytes \<Rightarrow> 32 word" where
  "uintAt off bs =
     ucast (bs ! off) OR push_bit 8 (ucast (bs ! (off + 1)))
     OR push_bit 16 (ucast (bs ! (off + 2))) OR push_bit 24 (ucast (bs ! (off + 3)))"

definition longAt :: "nat \<Rightarrow> bytes \<Rightarrow> Long" where
  "longAt off bs = ucast (uintAt off bs) OR push_bit 32 (ucast (uintAt (off + 4) bs))"

lemma length_le32 [simp]: "length (le32 w) = 4"
  by (simp add: le32_def)

lemma length_longToBytesLE [simp]: "length (longToBytesLE v) = 8"
  by (simp add: longToBytesLE_def)

lemma word_of_bytes:
  "ucast (ucast w :: byte) OR push_bit 8 (ucast (ucast (drop_bit 8 w) :: byte))
   OR push_bit 16 (ucast (ucast (drop_bit 16 w) :: byte))
   OR push_bit 24 (ucast (ucast (drop_bit 24 w) :: byte)) = (w :: 32 word)" (is "?l = w")
proof (rule bit_word_eqI)
  fix n
  assume "n < LENGTH(32)"
  then show "bit ?l n = bit w n"
    by (cases "n < 8"; cases "n < 16"; cases "n < 24") (auto simp: bit_simps)
qed

lemma uintAt_le32: "uintAt 0 (le32 w @ r) = w"
  using word_of_bytes [of w] by (simp add: uintAt_def le32_def numeral_2_eq_2 numeral_3_eq_3)

lemma uintAt_append: "off = length p \<Longrightarrow> uintAt off (p @ r) = uintAt 0 r"
  by (simp add: uintAt_def nth_append numeral_2_eq_2)

lemma longAt_append: "off = length p \<Longrightarrow> longAt off (p @ r) = longAt 0 r"
  by (simp add: longAt_def uintAt_def nth_append numeral_2_eq_2)

lemma long_parts: "ucast (longLow v) OR push_bit 32 (ucast (longHigh v)) = v"
  unfolding longLow_def longHigh_def
  by (rule bit_word_eqI) (auto simp: bit_simps)

lemma longAt_bytes: "longAt 0 (longToBytesLE v @ r) = v"
proof -
  have "uintAt 4 (le32 (longLow v) @ le32 (longHigh v) @ r) = longHigh v"
    by (simp add: uintAt_append uintAt_le32)
  then show ?thesis
    by (simp add: longAt_def longToBytesLE_def uintAt_le32 long_parts)
qed

lemma longToBytesLE_inj: "longToBytesLE a = longToBytesLE b \<longleftrightarrow> a = b"
  by (metis longAt_bytes append.right_neutral)

lemma le32_bytes:
  assumes "length b = 4"
  shows "le32 (uintAt 0 b) = b"
proof -
  obtain b0 b1 b2 b3 where b: "b = [b0, b1, b2, b3]"
    using assms by (auto simp: numeral_eq_Suc length_Suc_conv)
  have "ucast (uintAt 0 b) = b0" "ucast (drop_bit 8 (uintAt 0 b)) = b1"
    "ucast (drop_bit 16 (uintAt 0 b)) = b2" "ucast (drop_bit 24 (uintAt 0 b)) = b3"
    unfolding b uintAt_def
    by (rule bit_word_eqI; auto simp: bit_simps dest: bit_imp_le_length)+
  then show ?thesis by (simp add: le32_def b)
qed

lemma longToBytesLE_read:
  assumes "length b = 8"
  shows "longToBytesLE (longAt 0 b) = b"
proof -
  have two: "b = take 4 b @ drop 4 b" "length (take 4 b) = 4" "length (drop 4 b) = 4" using assms by auto
  have lo: "longLow (longAt 0 b) = uintAt 0 b" and hi: "longHigh (longAt 0 b) = uintAt 4 b"
    unfolding longLow_def longHigh_def longAt_def
    by (rule bit_word_eqI; auto simp: bit_simps dest: bit_imp_le_length)+
  have "uintAt 0 b = uintAt 0 (take 4 b)"
    using assms by (simp add: uintAt_def)
  moreover have "uintAt 4 b = uintAt 0 (drop 4 b)"
    using assms by (simp add: uintAt_def)
  ultimately show ?thesis
    unfolding longToBytesLE_def lo hi using two by (metis le32_bytes)
qed

section \<open>The key\<close>

record msgCrypto =
  mc_sha1 :: "bytes \<Rightarrow> bytes"
  mc_sha256 :: "bytes \<Rightarrow> bytes"
  mc_randomFill :: "nat \<Rightarrow> byte"
  mc_igeEncrypt :: "bytes \<Rightarrow> bytes \<Rightarrow> bool \<Rightarrow> bytes \<Rightarrow> bytes"
  mc_igeDecrypt :: "bytes \<Rightarrow> bytes \<Rightarrow> bool \<Rightarrow> bytes \<Rightarrow> bytes"

record serverAuthKey =
  ak_ready :: bool
  ak_key :: bytes
  ak_id :: bytes
  ak_clientSalt :: bytes
  ak_serverSalt :: bytes

definition newAuthKey :: serverAuthKey where
  "newAuthKey = \<lparr>ak_ready = False, ak_key = [], ak_id = [], ak_clientSalt = [], ak_serverSalt = []\<rparr>"

definition subarray :: "nat \<Rightarrow> nat \<Rightarrow> bytes \<Rightarrow> bytes" where
  "subarray a b bs = take (b - a) (drop a bs)"

definition akSetup :: "msgCrypto \<Rightarrow> bytes option \<Rightarrow> serverAuthKey \<Rightarrow> serverAuthKey" where
  "akSetup mc authKey a =
     (case authKey of
        None \<Rightarrow> a\<lparr>ak_ready := False\<rparr>
      | Some key \<Rightarrow>
          (let digest = mc_sha1 mc key
           in \<lparr>ak_ready = True, ak_key = key, ak_id = drop (length digest - 8) digest,
               ak_clientSalt = subarray 88 120 key, ak_serverSalt = subarray 96 128 key\<rparr>))"

definition akReset :: "serverAuthKey \<Rightarrow> serverAuthKey" where
  "akReset a = a\<lparr>ak_ready := False\<rparr>"

definition akMatch :: "bytes \<Rightarrow> serverAuthKey \<Rightarrow> bool" where
  "akMatch keyId a \<longleftrightarrow> ak_ready a \<and> keyId = ak_id a"

section \<open>Encryption and decryption\<close>

definition encryptPadding :: "nat \<Rightarrow> nat" where
  "encryptPadding n =
     (let padding = (16 + n + 12) mod 16 in 12 + (if padding \<noteq> 0 then 16 - padding else 0))"

text \<open>\<open>None\<close>: the error \<open>Auth key not set up\<close>.\<close>

definition encryptMessage :: "msgCrypto \<Rightarrow> bytes \<Rightarrow> Long \<Rightarrow> Long \<Rightarrow> serverAuthKey \<Rightarrow> bytes option" where
  "encryptMessage mc message serverSalt sessionId a =
     (if \<not> ak_ready a then None
      else let buf = longToBytesLE serverSalt @ longToBytesLE sessionId @ message
                     @ map (mc_randomFill mc) [0..<encryptPadding (length message)];
               messageKey = subarray 8 24 (mc_sha256 mc (ak_serverSalt a @ buf))
           in Some (ak_id a @ messageKey @ mc_igeEncrypt mc (ak_key a) messageKey False buf))"

text \<open>What \<open>decryptMessage\<close> does: it returns, a read behind the end of the plaintext throws, or
  it calls back with message id, sequence number, the reader and the session id.\<close>

datatype decryptOutcome = Ignored | ReadFailed | Delivered Long "32 word" bytes Long

definition decryptMessage :: "msgCrypto \<Rightarrow> bytes \<Rightarrow> Long option \<Rightarrow> serverAuthKey \<Rightarrow> decryptOutcome" where
  "decryptMessage mc data sessionId a =
     (let messageKey = subarray 8 24 data;
          encrypted = drop 24 data;
          mod16 = length encrypted mod 16;
          encryptedData = (if mod16 \<noteq> 0 then take (length encrypted - mod16) encrypted else encrypted);
          innerData = mc_igeDecrypt mc (ak_key a) messageKey True encryptedData;
          expectedMessageKey = subarray 8 24 (mc_sha256 mc (ak_clientSalt a @ innerData))
      in if messageKey \<noteq> expectedMessageKey then Ignored
         else if length innerData < 16 then ReadFailed
         else let session = longAt 8 innerData
              in if sessionId \<noteq> None \<and> sessionId \<noteq> Some session then Ignored
                 else if length innerData < 32 then ReadFailed
                 else let len = unat (uintAt 28 innerData);
                          paddingSize = int (length innerData) - int len - 32
                      in if int len > int (length innerData) - 32 then Ignored
                         else if len mod 4 \<noteq> 0 then Ignored
                         else if paddingSize < 12 \<or> paddingSize > 1024 then Ignored
                         else Delivered (longAt 16 innerData) (uintAt 24 innerData)
                                (drop 32 innerData) session)"

section \<open>What the code relies on\<close>

definition ige_laws :: "msgCrypto \<Rightarrow> bool" where
  "ige_laws mc \<longleftrightarrow>
     (\<forall>k mk c x. length x mod 16 = 0 \<longrightarrow>
        mc_igeDecrypt mc k mk c (mc_igeEncrypt mc k mk c x) = x
        \<and> mc_igeEncrypt mc k mk c (mc_igeDecrypt mc k mk c x) = x
        \<and> length (mc_igeEncrypt mc k mk c x) = length x
        \<and> length (mc_igeDecrypt mc k mk c x) = length x)
     \<and> (\<forall>x. length (mc_sha256 mc x) = 32)"

lemma igeD:
  assumes "ige_laws mc" and "length x mod 16 = 0"
  shows "mc_igeDecrypt mc k mk c (mc_igeEncrypt mc k mk c x) = x"
    and "mc_igeEncrypt mc k mk c (mc_igeDecrypt mc k mk c x) = x"
    and "length (mc_igeEncrypt mc k mk c x) = length x"
    and "length (mc_igeDecrypt mc k mk c x) = length x"
  using assms by (auto simp: ige_laws_def)

lemma sha256_length: "ige_laws mc \<Longrightarrow> length (mc_sha256 mc x) = 32"
  by (simp add: ige_laws_def)

text \<open>The client's side of the protocol: the plaintext it composes and the frame it makes.\<close>

definition plaintext :: "Long \<Rightarrow> Long \<Rightarrow> Long \<Rightarrow> 32 word \<Rightarrow> bytes \<Rightarrow> bytes \<Rightarrow> bytes" where
  "plaintext salt session msgId seqNo body pad =
     longToBytesLE salt @ longToBytesLE session @ longToBytesLE msgId @ le32 seqNo
     @ le32 (of_nat (length body)) @ body @ pad"

definition clientMsgKey :: "msgCrypto \<Rightarrow> serverAuthKey \<Rightarrow> bytes \<Rightarrow> bytes" where
  "clientMsgKey mc a plain = subarray 8 24 (mc_sha256 mc (ak_clientSalt a @ plain))"

definition clientSeal :: "msgCrypto \<Rightarrow> serverAuthKey \<Rightarrow> bytes \<Rightarrow> bytes" where
  "clientSeal mc a plain =
     clientMsgKey mc a plain @ mc_igeEncrypt mc (ak_key a) (clientMsgKey mc a plain) True plain"

definition sealable :: "bytes \<Rightarrow> bytes \<Rightarrow> bool" where
  "sealable body pad \<longleftrightarrow>
     length body < 2 ^ 32 \<and> length body mod 4 = 0 \<and> 12 \<le> length pad \<and> length pad \<le> 1024
     \<and> (length body + length pad) mod 16 = 0"

section \<open>Headers\<close>

lemma length_plaintext: "length (plaintext salt session msgId seqNo body pad) = 32 + length body + length pad"
  by (simp add: plaintext_def)

lemma plaintext_fields:
  fixes body pad :: bytes and session msgId salt :: Long and seqNo :: "32 word"
  defines "pt \<equiv> plaintext salt session msgId seqNo body pad"
  shows "longAt 8 pt = session" and "longAt 16 pt = msgId" and "uintAt 24 pt = seqNo"
    and "uintAt 28 pt = of_nat (length body)" and "drop 32 pt = body @ pad"
proof -
  have split: "pt = longToBytesLE salt @ longToBytesLE session @ longToBytesLE msgId @ le32 seqNo
     @ le32 (of_nat (length body)) @ body @ pad"
    by (simp add: pt_def plaintext_def)
  show "longAt 8 pt = session"
    unfolding split using longAt_append [of 8 "longToBytesLE salt"] by (simp add: longAt_bytes)
  show "longAt 16 pt = msgId"
    unfolding split using longAt_append [of 16 "longToBytesLE salt @ longToBytesLE session"]
    by (simp add: longAt_bytes)
  show "uintAt 24 pt = seqNo"
    unfolding split
    using uintAt_append [of 24 "longToBytesLE salt @ longToBytesLE session @ longToBytesLE msgId"]
    by (simp add: uintAt_le32)
  show "uintAt 28 pt = of_nat (length body)"
    unfolding split
    using uintAt_append [of 28 "longToBytesLE salt @ longToBytesLE session @ longToBytesLE msgId @ le32 seqNo"]
    by (simp add: uintAt_le32)
  show "drop 32 pt = body @ pad"
    unfolding split by simp
qed

text \<open>Every byte string with a plausible header is a plaintext.\<close>

lemma uintAt_take: "off + 4 \<le> length b \<Longrightarrow> uintAt off b = uintAt 0 (take 4 (drop off b))"
  by (simp add: uintAt_def)

lemma longAt_take: "off + 8 \<le> length b \<Longrightarrow> longAt off b = longAt 0 (take 8 (drop off b))"
  by (simp add: longAt_def uintAt_def ac_simps)

lemma plaintext_of_bytes:
  assumes "32 + n \<le> length b" and "uintAt 28 b = of_nat n"
  shows "b = plaintext (longAt 0 b) (longAt 8 b) (longAt 16 b) (uintAt 24 b)
               (take n (drop 32 b)) (drop (32 + n) b)"
proof -
  have longs: "longToBytesLE (longAt off b) = take 8 (drop off b)" if "off + 8 \<le> length b" for off
    by (subst longAt_take [OF that], rule longToBytesLE_read) (use that in simp)
  have words: "le32 (uintAt off b) = take 4 (drop off b)" if "off + 4 \<le> length b" for off
    by (subst uintAt_take [OF that], rule le32_bytes) (use that in simp)
  have len: "length (take n (drop 32 b)) = n" using assms(1) by simp
  have "plaintext (longAt 0 b) (longAt 8 b) (longAt 16 b) (uintAt 24 b)
               (take n (drop 32 b)) (drop (32 + n) b)
    = take 8 b @ take 8 (drop 8 b) @ take 8 (drop 16 b) @ take 4 (drop 24 b) @ take 4 (drop 28 b)
      @ take n (drop 32 b) @ drop (32 + n) b"
    unfolding plaintext_def len assms(2) [symmetric] using assms(1) by (simp add: longs words)
  also have "\<dots> = b"
    by (simp add: take_add [symmetric] append_assoc [symmetric] del: append_assoc)
  finally show ?thesis by simp
qed

section \<open>Which frames are delivered\<close>

lemma strip_transport_padding:
  assumes "length c mod 16 = 0" and "length t < 16"
  shows "(let m = length (c @ t) mod 16 in if m \<noteq> 0 then take (length (c @ t) - m) (c @ t) else c @ t) = c"
proof -
  have "length (c @ t) mod 16 = length t"
    using assms by (simp add: mod_add_eq [symmetric, of "length c"])
  then show ?thesis by (simp add: Let_def)
qed

lemma length_clientMsgKey: "ige_laws mc \<Longrightarrow> length (clientMsgKey mc a plain) = 16"
  by (simp add: clientMsgKey_def subarray_def sha256_length)

lemma sealed_is_delivered:
  assumes laws: "ige_laws mc" and seal: "sealable body pad" and "length keyId = 8" and "length trail < 16"
    and sid: "sessionId = None \<or> sessionId = Some session"
  shows "decryptMessage mc
      (keyId @ clientSeal mc a (plaintext salt session msgId seqNo body pad) @ trail) sessionId a
    = Delivered msgId seqNo (body @ pad) session"
proof -
  define pt where "pt = plaintext salt session msgId seqNo body pad"
  define mk where "mk = clientMsgKey mc a pt"
  define c where "c = mc_igeEncrypt mc (ak_key a) mk True pt"
  define data where "data = keyId @ clientSeal mc a pt @ trail"
  have lpt: "length pt = 32 + length body + length pad" by (simp add: pt_def length_plaintext)
  have m16: "length pt mod 16 = 0"
    using seal unfolding lpt sealable_def by (simp add: add.assoc mod_add_eq [symmetric, of 32])
  have lmk: "length mk = 16" by (simp add: mk_def length_clientMsgKey laws)
  have lc: "length c mod 16 = 0" using m16 by (simp add: c_def igeD(3) [OF laws m16])
  have data: "subarray 8 24 data = mk" "drop 24 data = c @ trail"
    using assms(3) lmk by (simp_all add: data_def clientSeal_def subarray_def mk_def [symmetric] c_def [symmetric])
  have inner: "mc_igeDecrypt mc (ak_key a) mk True c = pt"
    unfolding c_def by (rule igeD(1) [OF laws m16])
  have len: "unat (of_nat (length body) :: 32 word) = length body"
    using seal by (simp add: sealable_def unsigned_of_nat take_bit_nat_eq_self_iff)
  note fields = plaintext_fields [of salt session msgId seqNo body pad, folded pt_def]
  have ok: "length body mod 4 = 0" "12 \<le> length pad" "length pad \<le> 1024"
    using seal by (auto simp: sealable_def)
  have strip: "(if length (c @ trail) mod 16 \<noteq> 0
      then take (length (c @ trail) - length (c @ trail) mod 16) (c @ trail) else c @ trail) = c"
    using strip_transport_padding [OF lc assms(4)] unfolding Let_def .
  have "decryptMessage mc data sessionId a = Delivered msgId seqNo (body @ pad) session"
    unfolding decryptMessage_def Let_def data strip inner fields len
    using sid ok lpt by (auto simp: mk_def clientMsgKey_def)
  then show ?thesis by (simp add: data_def pt_def)
qed

lemma split_three:
  "xs = take a xs @ take b (drop a xs) @ take k (drop (a + b) xs) @ drop (a + b + k) xs"
  by (metis append_take_drop_id drop_drop add.commute)

lemma delivered_is_sealed:
  assumes laws: "ige_laws mc" and got: "decryptMessage mc data sessionId a = Delivered msgId seqNo rest session"
  obtains keyId salt body pad trail where "data = keyId @ clientSeal mc a (plaintext salt session msgId seqNo body pad) @ trail"
    and "sealable body pad" and "length keyId = 8" and "length trail < 16"
    and "rest = body @ pad" and "sessionId = None \<or> sessionId = Some session"
proof -
  define mk where "mk = subarray 8 24 data"
  define m where "m = length (drop 24 data) mod 16"
  define c where "c = take (length (drop 24 data) - m) (drop 24 data)"
  define pt where "pt = mc_igeDecrypt mc (ak_key a) mk True c"
  define n where "n = unat (uintAt 28 pt)"
  have c_eq: "(if m \<noteq> 0 then take (length (drop 24 data) - m) (drop 24 data) else drop 24 data) = c"
    by (simp add: c_def)
  have c16: "length c mod 16 = 0"
    unfolding c_def m_def by (simp add: minus_mod_eq_mult_div)
  have lpt: "length pt = length c" unfolding pt_def by (rule igeD(4) [OF laws c16])
  have got': "mk = subarray 8 24 (mc_sha256 mc (ak_clientSalt a @ pt))" "32 \<le> length pt"
    "session = longAt 8 pt" "msgId = longAt 16 pt" "seqNo = uintAt 24 pt" "rest = drop 32 pt"
    "sessionId = None \<or> sessionId = Some session" "n mod 4 = 0"
    "32 + n + 12 \<le> length pt" "length pt \<le> 32 + n + 1024"
    using got unfolding decryptMessage_def Let_def mk_def [symmetric] m_def [symmetric] c_eq pt_def [symmetric]
      n_def [symmetric]
    by (auto split: if_splits)
  have nw: "uintAt 28 pt = of_nat n" by (simp add: n_def)
  have long: "24 \<le> length data" using got'(2) lpt by (simp add: c_def)
  let ?body = "take n (drop 32 pt)" and ?pad = "drop (32 + n) pt"
  have plain: "pt = plaintext (longAt 0 pt) session msgId seqNo ?body ?pad"
    using plaintext_of_bytes [OF _ nw] got' by simp
  have "data = take 8 data @ mk @ c @ drop (24 + length c) data"
    using split_three [of data 8 16 "length c"] by (simp add: mk_def subarray_def c_def)
  moreover have "c = mc_igeEncrypt mc (ak_key a) mk True pt"
    unfolding pt_def by (rule igeD(2) [OF laws c16, symmetric])
  moreover have "mk = clientMsgKey mc a pt" using got'(1) by (simp add: clientMsgKey_def)
  ultimately have "data = take 8 data @ clientSeal mc a pt @ drop (24 + length c) data"
    by (simp add: clientSeal_def)
  moreover have "sealable ?body ?pad"
    using got' c16 lpt unsigned_less [of "uintAt 28 pt", where 'a = nat]
    by (auto simp: sealable_def n_def)
  moreover have "length (drop (24 + length c) data) < 16"
    using long by (simp add: c_def m_def)
  moreover have "rest = ?body @ ?pad"
    using got'(6) append_take_drop_id [of n "drop 32 pt"] by (simp add: add.commute)
  moreover have "length (take 8 data) = 8" using long by simp
  ultimately show thesis using that plain got'(7) by metis
qed

section \<open>Frames the server sends\<close>

lemma encryptPadding_bounds: "12 \<le> encryptPadding n" "encryptPadding n < 28" "(16 + n + encryptPadding n) mod 16 = 0"
proof -
  have "(16 + n + 12) mod 16 < 16" by simp
  then show "12 \<le> encryptPadding n" "encryptPadding n < 28"
    unfolding encryptPadding_def Let_def by (auto split: if_splits)
  show "(16 + n + encryptPadding n) mod 16 = 0"
    unfolding encryptPadding_def Let_def by presburger
qed

text \<open>The client's inverse: it splits the frame, deciphers it and compares the message key.\<close>

definition clientOpen :: "msgCrypto \<Rightarrow> serverAuthKey \<Rightarrow> bytes \<Rightarrow> bytes option" where
  "clientOpen mc a frame =
     (let mk = subarray 8 24 frame; plain = mc_igeDecrypt mc (ak_key a) mk False (drop 24 frame)
      in if take 8 frame = ak_id a \<and> subarray 8 24 (mc_sha256 mc (ak_serverSalt a @ plain)) = mk
         then Some plain else None)"

lemma server_frame_opens:
  assumes laws: "ige_laws mc" and "ak_ready a" and id: "length (ak_id a) = 8"
  obtains frame pad where
    "encryptMessage mc (longToBytesLE msgId @ le32 seqNo @ le32 (of_nat (length body)) @ body) salt session a
     = Some frame"
    and "clientOpen mc a frame = Some (plaintext salt session msgId seqNo body pad)"
    and "12 \<le> length pad" and "length pad < 28" and "length frame mod 16 = 8"
proof -
  define message where "message = longToBytesLE msgId @ le32 seqNo @ le32 (of_nat (length body)) @ body"
  define pad where "pad = map (mc_randomFill mc) [0..<encryptPadding (length message)]"
  define pt where "pt = plaintext salt session msgId seqNo body pad"
  define mk where "mk = subarray 8 24 (mc_sha256 mc (ak_serverSalt a @ pt))"
  define c where "c = mc_igeEncrypt mc (ak_key a) mk False pt"
  have lpad: "length pad = encryptPadding (length message)" by (simp add: pad_def)
  have "length pt = 16 + length message + length pad"
    by (simp add: pt_def length_plaintext message_def)
  then have m16: "length pt mod 16 = 0" using encryptPadding_bounds(3) lpad by simp
  have lmk: "length mk = 16" by (simp add: mk_def subarray_def sha256_length laws)
  have dec: "mc_igeDecrypt mc (ak_key a) mk False c = pt"
    unfolding c_def by (rule igeD(1) [OF laws m16])
  have buf: "longToBytesLE salt @ longToBytesLE session @ message @ pad = pt"
    by (simp add: pt_def plaintext_def message_def)
  have 1: "encryptMessage mc message salt session a = Some (ak_id a @ mk @ c)"
    unfolding encryptMessage_def Let_def pad_def [symmetric] buf mk_def [symmetric] c_def [symmetric]
    using assms(2) by simp
  have parts: "subarray 8 24 (ak_id a @ mk @ c) = mk" "drop 24 (ak_id a @ mk @ c) = c" "take 8 (ak_id a @ mk @ c) = ak_id a"
    using id lmk by (simp_all add: subarray_def)
  have 2: "clientOpen mc a (ak_id a @ mk @ c) = Some pt"
    unfolding clientOpen_def parts Let_def dec by (simp add: mk_def)
  have 3: "length (ak_id a @ mk @ c) mod 16 = 8"
    using id lmk m16 igeD(3) [OF laws m16] by (simp add: c_def mod_add_eq [symmetric, of 24])
  show thesis
    using that [OF 1 [unfolded message_def]] 2 3 encryptPadding_bounds lpad unfolding pt_def by auto
qed

lemma auth_key_frames_parts:
  assumes "ige_laws mc" and "ak_ready a" and "length (ak_id a) = 8"
  shows "decryptMessage mc data sessionId a = Delivered msgId seqNo rest session \<longleftrightarrow>
      (\<exists>keyId salt body pad trail.
         data = keyId @ clientSeal mc a (plaintext salt session msgId seqNo body pad) @ trail
         \<and> sealable body pad \<and> length keyId = 8 \<and> length trail < 16 \<and> rest = body @ pad
         \<and> (sessionId = None \<or> sessionId = Some session))" (is "_ \<longleftrightarrow> ?sealed")
    and "\<exists>frame pad.
      encryptMessage mc (longToBytesLE msgId @ le32 seqNo @ le32 (of_nat (length body)) @ body) salt session a
        = Some frame
      \<and> clientOpen mc a frame = Some (plaintext salt session msgId seqNo body pad)
      \<and> 12 \<le> length pad \<and> length pad < 28 \<and> length frame mod 16 = 8"
proof -
  show "decryptMessage mc data sessionId a = Delivered msgId seqNo rest session \<longleftrightarrow> ?sealed"
  proof
    assume "decryptMessage mc data sessionId a = Delivered msgId seqNo rest session"
    then show ?sealed by (rule delivered_is_sealed [OF assms(1)]) blast
  next
    assume ?sealed
    then show "decryptMessage mc data sessionId a = Delivered msgId seqNo rest session"
      using sealed_is_delivered [OF assms(1)] by fast
  qed
  show "\<exists>frame pad.
      encryptMessage mc (longToBytesLE msgId @ le32 seqNo @ le32 (of_nat (length body)) @ body) salt session a
        = Some frame
      \<and> clientOpen mc a frame = Some (plaintext salt session msgId seqNo body pad)
      \<and> 12 \<le> length pad \<and> length pad < 28 \<and> length frame mod 16 = 8"
    by (rule server_frame_opens [OF assms]) blast
qed

text \<open>
  C24. A frame is delivered exactly when it is the sealing, with the client's half of the key, of a
  plaintext for the expected session whose body is a multiple of four bytes and whose padding is
  12 to 1024 bytes (up to 15 bytes of transport padding are ignored); what is delivered are the
  sealed message id, sequence number, session and body. A frame the server makes opens, with
  the server's half of the key, to the message it was made from.
\<close>

theorem auth_key_frames:
  assumes "ige_laws mc" and "ak_ready a" and "length (ak_id a) = 8"
  shows "(decryptMessage mc data sessionId a = Delivered msgId seqNo rest session \<longleftrightarrow>
      (\<exists>keyId salt body pad trail.
         data = keyId @ clientSeal mc a (plaintext salt session msgId seqNo body pad) @ trail
         \<and> sealable body pad \<and> length keyId = 8 \<and> length trail < 16 \<and> rest = body @ pad
         \<and> (sessionId = None \<or> sessionId = Some session)))
    \<and> (\<exists>frame pad.
      encryptMessage mc (longToBytesLE msgId @ le32 seqNo @ le32 (of_nat (length body)) @ body) salt session a
        = Some frame
      \<and> clientOpen mc a frame = Some (plaintext salt session msgId seqNo body pad)
      \<and> 12 \<le> length pad \<and> length pad < 28 \<and> length frame mod 16 = 8)"
  by (intro conjI auth_key_frames_parts [OF assms])

definition plainCrypto :: msgCrypto where
  "plainCrypto = \<lparr>mc_sha1 = (\<lambda>_. replicate 20 7), mc_sha256 = (\<lambda>x. take 32 (x @ replicate 32 0)),
     mc_randomFill = (\<lambda>_. 0), mc_igeEncrypt = (\<lambda>_ _ _ x. x), mc_igeDecrypt = (\<lambda>_ _ _ x. x)\<rparr>"

lemma plainCrypto_laws: "ige_laws plainCrypto"
  by (simp add: ige_laws_def plainCrypto_def min_def)

theorem auth_key_frames_witness:
  "let a = akSetup plainCrypto (Some [1, 2, 3, 4]) newAuthKey
   in decryptMessage plainCrypto
        (replicate 8 7 @ clientSeal plainCrypto a (plaintext 5 6 9 1 [1, 2, 3, 4] (replicate 12 0))) None a
      = Delivered 9 1 ([1, 2, 3, 4] @ replicate 12 0) 6
    \<and> (\<exists>frame pad. encryptMessage plainCrypto (longToBytesLE 9 @ le32 1 @ le32 (of_nat 1) @ [8]) 5 6 a = Some frame
         \<and> clientOpen plainCrypto a frame = Some (plaintext 5 6 9 1 [8] pad))"
proof -
  define a where "a = akSetup plainCrypto (Some [1, 2, 3, 4]) newAuthKey"
  have ready: "ak_ready a" "length (ak_id a) = 8"
    by (simp_all add: a_def akSetup_def Let_def plainCrypto_def)
  let ?data = "replicate 8 7 @ clientSeal plainCrypto a (plaintext 5 6 9 1 [1, 2, 3, 4] (replicate 12 0))"
  have ok: "sealable [1, 2, 3, 4] (replicate 12 0)" by (simp add: sealable_def)
  have "decryptMessage plainCrypto ?data None a = Delivered 9 1 ([1, 2, 3, 4] @ replicate 12 0) 6"
    by (rule iffD2 [OF conjunct1 [OF auth_key_frames [OF plainCrypto_laws ready]]],
        rule exI [of _ "replicate 8 7"], rule exI [of _ 5], rule exI [of _ "[1, 2, 3, 4]"],
        rule exI [of _ "replicate 12 0"], rule exI [of _ "[]"]) (simp add: ok)
  moreover have "\<exists>frame pad. encryptMessage plainCrypto (longToBytesLE 9 @ le32 1 @ le32 (of_nat 1) @ [8]) 5 6 a
      = Some frame \<and> clientOpen plainCrypto a frame = Some (plaintext 5 6 9 1 [8] pad)"
    using conjunct2 [OF auth_key_frames [OF plainCrypto_laws ready, where msgId = 9 and seqNo = 1 and body = "[8]" and salt = 5 and session = 6]] by auto
  ultimately show ?thesis by (simp add: a_def)
qed

end
