(* ===== verification/Rpc_Request.thy ===== *)
theory Rpc_Request
  imports Prelude "HOL-Library.List_Lexorder" "HOL-Library.Char_ord"
begin

text \<open>
  An RPC request on its way into the session: \<open>unwrapRpcRequest\<close> of
  \<open>packages/mtproto/src/rpc/protocol.ts\<close>, which strips the wrapper methods, and
  \<open>_rpcFingerprint\<close> of \<open>packages/mtproto/src/session/server-session.ts\<close>, the digest by which
  a repeated request is recognised.

  A TL object is the JavaScript value \<open>jsVal\<close> that the TL reader makes. A string is the list of
  its UTF-8 bytes as characters; the names of fields are ASCII. A number is given by the text
  \<open>String(value)\<close>. The text that is hashed, \<open>fingerprintText\<close>, is the concatenation of the calls
  of \<open>hash.update\<close>; SHA-256 is a parameter.
\<close>

section \<open>Unwrapping\<close>

record clientInfo =
  ci_apiId :: int
  ci_deviceModel :: string
  ci_systemVersion :: string
  ci_appVersion :: string
  ci_systemLangCode :: string
  ci_langPack :: string
  ci_langCode :: string

datatype 'a rpcMethod =
    InvokeWithLayer int "'a rpcMethod"
  | InitConnection clientInfo "'a rpcMethod"
  | InvokeWithoutUpdates "'a rpcMethod"
  | InvokeAfterMsg Long "'a rpcMethod"
  | InvokeAfterMsgs "Long list" "'a rpcMethod"
  | InvokeWithMessagesRange "'a rpcMethod"
  | InvokeWithTakeout "'a rpcMethod"
  | Method string 'a

record 'a unwrappedRpc =
  ur_method :: string
  ur_request :: 'a
  ur_apiLayer :: "int option"
  ur_clientInfo :: "clientInfo option"
  ur_afterMessageIds :: "Long list"

definition RPC_WRAPPER_METHODS :: "string list" where
  "RPC_WRAPPER_METHODS = [''initConnection'', ''invokeAfterMsg'', ''invokeAfterMsgs'',
     ''invokeWithLayer'', ''invokeWithMessagesRange'', ''invokeWithTakeout'', ''invokeWithoutUpdates'']"

definition isRpcRequestObject :: "string \<Rightarrow> bool" where
  "isRpcRequestObject method \<longleftrightarrow> CHR ''.'' \<in> set method \<or> method \<in> set RPC_WRAPPER_METHODS"

fun unwrapLoop :: "'a rpcMethod \<Rightarrow> int option \<Rightarrow> clientInfo option \<Rightarrow> Long list \<Rightarrow> 'a unwrappedRpc" where
  "unwrapLoop (InvokeWithLayer layer query) apiLayer info after =
     unwrapLoop query (if 0 < layer then Some layer else apiLayer) info after"
| "unwrapLoop (InitConnection i query) apiLayer info after = unwrapLoop query apiLayer (Some i) after"
| "unwrapLoop (InvokeWithoutUpdates query) apiLayer info after = unwrapLoop query apiLayer info after"
| "unwrapLoop (InvokeAfterMsg msgId query) apiLayer info after = unwrapLoop query apiLayer info (after @ [msgId])"
| "unwrapLoop (InvokeAfterMsgs msgIds query) apiLayer info after = unwrapLoop query apiLayer info (after @ msgIds)"
| "unwrapLoop (InvokeWithMessagesRange query) apiLayer info after = unwrapLoop query apiLayer info after"
| "unwrapLoop (InvokeWithTakeout query) apiLayer info after = unwrapLoop query apiLayer info after"
| "unwrapLoop (Method name req) apiLayer info after =
     \<lparr>ur_method = name, ur_request = req, ur_apiLayer = apiLayer, ur_clientInfo = info, ur_afterMessageIds = after\<rparr>"

definition unwrapRpcRequest :: "'a rpcMethod \<Rightarrow> 'a unwrappedRpc" where
  "unwrapRpcRequest req = unwrapLoop req None None []"

text \<open>The reference reading: the wrappers a request carries, outermost first.\<close>

fun layersOf :: "'a rpcMethod \<Rightarrow> int list" where
  "layersOf (InvokeWithLayer layer query) = layer # layersOf query"
| "layersOf (InitConnection _ query) = layersOf query"
| "layersOf (InvokeWithoutUpdates query) = layersOf query"
| "layersOf (InvokeAfterMsg _ query) = layersOf query"
| "layersOf (InvokeAfterMsgs _ query) = layersOf query"
| "layersOf (InvokeWithMessagesRange query) = layersOf query"
| "layersOf (InvokeWithTakeout query) = layersOf query"
| "layersOf (Method _ _) = []"

fun dependenciesOf :: "'a rpcMethod \<Rightarrow> Long list" where
  "dependenciesOf (InvokeAfterMsg msgId query) = msgId # dependenciesOf query"
| "dependenciesOf (InvokeAfterMsgs msgIds query) = msgIds @ dependenciesOf query"
| "dependenciesOf (InvokeWithLayer _ query) = dependenciesOf query"
| "dependenciesOf (InitConnection _ query) = dependenciesOf query"
| "dependenciesOf (InvokeWithoutUpdates query) = dependenciesOf query"
| "dependenciesOf (InvokeWithMessagesRange query) = dependenciesOf query"
| "dependenciesOf (InvokeWithTakeout query) = dependenciesOf query"
| "dependenciesOf (Method _ _) = []"

definition lastPositive :: "int list \<Rightarrow> int option \<Rightarrow> int option" where
  "lastPositive layers start = foldl (\<lambda>l n. if 0 < n then Some n else l) start layers"

lemma unwrapLoop_fields:
  "ur_apiLayer (unwrapLoop req l i a) = lastPositive (layersOf req) l"
  "ur_afterMessageIds (unwrapLoop req l i a) = a @ dependenciesOf req"
  by (induction req l i a rule: unwrapLoop.induct) (simp_all add: lastPositive_def)

lemma lastPositive_None: "lastPositive layers l = None \<longleftrightarrow> l = None \<and> (\<forall>n\<in>set layers. n \<le> 0)"
  by (induction layers arbitrary: l) (auto simp: lastPositive_def)

lemma unwrap_layer:
  "ur_apiLayer (unwrapRpcRequest req) = lastPositive (layersOf req) None"
  "ur_afterMessageIds (unwrapRpcRequest req) = dependenciesOf req"
  by (simp_all add: unwrapRpcRequest_def unwrapLoop_fields)

section \<open>The text of a request\<close>

datatype jsVal =
    JNull
  | JUndefined
  | JLong "32 word" "32 word" bool
  | JBytes bytes
  | JArray "jsVal list"
  | JObject "(string \<times> jsVal) list"
  | JNumber string
  | JBoolean bool
  | JString string

definition intString :: "int \<Rightarrow> string" where
  "intString i = (if i < 0 then ''-'' @ decString (nat (- i)) else decString (nat i))"

definition boolString :: "bool \<Rightarrow> string" where
  "boolString b = (if b then ''true'' else ''false'')"

definition rawText :: "bytes \<Rightarrow> string" where
  "rawText b = map (\<lambda>x. char_of (unat x)) b"

fun visit :: "jsVal \<Rightarrow> string" where
  "visit JNull = ''null;''"
| "visit JUndefined = ''undefined;''"
| "visit (JLong low high isUnsigned) =
     ''long:'' @ intString (sint low) @ '':'' @ intString (sint high) @ '':'' @ boolString isUnsigned @ '';''"
| "visit (JBytes b) = ''bytes:'' @ decString (length b) @ '':'' @ rawText b @ '';''"
| "visit (JArray items) = ''array:'' @ decString (length items) @ '':['' @ concat (map visit items) @ ''];''"
| "visit (JObject props) =
     ''object:'' @ decString (length props) @ '':{''
     @ concat (map (\<lambda>(key, text). decString (length key) @ '':'' @ key @ ''='' @ text)
         (sort_key fst (map (\<lambda>(key, v). (key, visit v)) props))) @ ''};''"
| "visit (JNumber text) = ''number:'' @ text @ '';''"
| "visit (JBoolean b) = ''boolean:'' @ boolString b @ '';''"
| "visit (JString text) = ''string:'' @ text @ '';''"

definition rpcFingerprint :: "(string \<Rightarrow> string) \<Rightarrow> jsVal \<Rightarrow> string" where
  "rpcFingerprint sha256hex request = take 32 (sha256hex (visit request))"

section \<open>What the text determines\<close>

text \<open>Objects with the same fields in another order are the same request.\<close>

fun canon :: "jsVal \<Rightarrow> jsVal" where
  "canon (JArray items) = JArray (map canon items)"
| "canon (JObject props) = JObject (sort_key fst (map (\<lambda>(key, v). (key, canon v)) props))"
| "canon v = v"

text \<open>Texts of strings are not preceded by their length, so a semicolon inside one can hide where
  it ends.\<close>

fun plainTexts :: "jsVal \<Rightarrow> bool" where
  "plainTexts (JArray items) \<longleftrightarrow> (\<forall>v\<in>set items. plainTexts v)"
| "plainTexts (JObject props) \<longleftrightarrow> (\<forall>(key, v)\<in>set props. plainTexts v)"
| "plainTexts (JNumber text) \<longleftrightarrow> CHR '';'' \<notin> set text"
| "plainTexts (JString text) \<longleftrightarrow> CHR '';'' \<notin> set text"
| "plainTexts _ \<longleftrightarrow> True"

lemma sort_key_map_snd:
  fixes xs :: "('k :: linorder \<times> 'a) list"
  shows "sort_key fst (map (\<lambda>(key, v). (key, f v)) xs) = map (\<lambda>(key, v). (key, f v)) (sort_key fst xs)"
proof -
  have "insort_key fst (case e of (key, v) \<Rightarrow> (key, f v)) (map (\<lambda>(key, v). (key, f v)) ys)
      = map (\<lambda>(key, v). (key, f v)) (insort_key fst e ys)"
    for e and ys :: "('k \<times> 'a) list"
    by (induction ys) (auto split: prod.splits)
  then show ?thesis by (induction xs) (auto simp: sort_key_def)
qed

definition fieldText :: "string \<times> jsVal \<Rightarrow> string" where
  "fieldText e = decString (length (fst e)) @ '':'' @ fst e @ ''='' @ visit (snd e)"

lemma visit_object:
  "visit (JObject props) = ''object:'' @ decString (length props) @ '':{''
     @ concat (map fieldText (sort_key fst props)) @ ''};''"
proof -
  have "map (\<lambda>(key, text). decString (length key) @ '':'' @ key @ ''='' @ text)
         (map (\<lambda>(key, v). (key, visit v)) xs) = map fieldText xs" for xs
    by (induction xs) (auto simp: fieldText_def)
  then show ?thesis by (simp only: visit.simps sort_key_map_snd)
qed

lemma visit_canon: "visit (canon v) = visit v"
proof (induction v)
  case (JObject props)
  have "visit (canon (snd e)) = visit (snd e)" if "e \<in> set props" for e
    using JObject [of e "snd e"] that by (cases e) auto
  then have texts: "map fieldText (map (\<lambda>(key, v). (key, canon v)) (sort_key fst props))
      = map fieldText (sort_key fst props)"
    by (auto simp: fieldText_def)
  have again: "sort_key fst (sort_key fst xs) = sort_key fst xs" for xs :: "(string \<times> jsVal) list"
    by (intro sort_key_id_if_sorted) simp
  show ?case
    by (simp only: canon.simps visit_object again length_sort length_map)
      (simp only: sort_key_map_snd texts)
qed (auto simp: comp_def cong: map_cong)

lemma digits_of_decString: "c \<in> set (decString n) \<Longrightarrow> of_char c \<in> {48..57 :: nat}"
proof (induction n rule: decString.induct)
  case (1 n)
  then show ?case by (subst (asm) (2) decString.simps) (auto split: if_splits)
qed

lemma not_in_decString:
  "CHR '':'' \<notin> set (decString n)" "CHR '';'' \<notin> set (decString n)" "CHR ''-'' \<notin> set (decString n)"
  by (auto dest!: digits_of_decString)

lemma intString_inj: "intString i = intString j \<longleftrightarrow> i = j"
proof -
  have "decString m \<noteq> ''-'' @ s" "''-'' @ s \<noteq> decString m" for m s
    using not_in_decString(3) [of m] by (metis append_Cons list.set_intros(1))+
  then show ?thesis
    using decString_inj [of "nat (- i)" "nat (- j)"] decString_inj [of "nat i" "nat j"]
    by (auto simp: intString_def)
qed

lemma not_in_intString: "CHR '':'' \<notin> set (intString i)"
  using not_in_decString(1) by (simp add: intString_def)

lemma boolString_inj: "boolString a = boolString b \<longleftrightarrow> a = b"
  by (simp add: boolString_def)

lemma not_in_boolString: "CHR '';'' \<notin> set (boolString b)"
  by (simp add: boolString_def)

lemma rawText_inj: "rawText a = rawText b \<longleftrightarrow> a = b"
proof -
  have "inj (\<lambda>x :: byte. char_of (unat x) :: char)"
    by (rule injI) (metis of_char_of mod_less unat_byte_bound word_unat_eq_iff)
  then show ?thesis by (simp add: rawText_def inj_map_eq_map)
qed

lemma length_rawText: "length (rawText b) = length b"
  by (simp add: rawText_def)

text \<open>Decoding a counted sequence whose elements can be decoded.\<close>

definition decodes :: "('a \<Rightarrow> string) \<Rightarrow> ('a \<Rightarrow> 'b) \<Rightarrow> 'a \<Rightarrow> 'a \<Rightarrow> bool" where
  "decodes enc val x y \<longleftrightarrow> (\<forall>r s. enc x @ r = enc y @ s \<longrightarrow> val x = val y \<and> r = s)"

lemma decodesD: "decodes enc val x y \<Longrightarrow> enc x @ r = enc y @ s \<Longrightarrow> val x = val y \<and> r = s"
  by (simp add: decodes_def)

lemma concat_decodes:
  assumes "length xs = length ys" and "\<forall>x\<in>set xs. \<forall>y\<in>set ys. decodes enc val x y"
    and "concat (map enc xs) @ r = concat (map enc ys) @ s"
  shows "map val xs = map val ys \<and> r = s"
  using assms
proof (induction xs ys arbitrary: r s rule: list_induct2)
  case (Cons x xs y ys)
  then have "val x = val y \<and> concat (map enc xs) @ r = concat (map enc ys) @ s"
    by (intro decodesD [of enc val x y]) auto
  with Cons show ?case by auto
qed simp

lemma separated: "c \<notin> set a \<Longrightarrow> c \<notin> set b \<Longrightarrow> a @ c # r = b @ c # s \<Longrightarrow> a = b \<and> r = s"
  using split_at_separator [of c a b r s] by simp

lemma decode_long:
  assumes "visit (JLong a b u) @ r = visit (JLong a' b' u') @ s"
  shows "JLong a b u = JLong a' b' u' \<and> r = s"
proof -
  have "intString (sint a) @ CHR '':'' # intString (sint b) @ CHR '':'' # boolString u @ CHR '';'' # r
      = intString (sint a') @ CHR '':'' # intString (sint b') @ CHR '':'' # boolString u' @ CHR '';'' # s"
    using assms by simp
  then have a: "sint a = sint a'"
    and "intString (sint b) @ CHR '':'' # boolString u @ CHR '';'' # r
      = intString (sint b') @ CHR '':'' # boolString u' @ CHR '';'' # s"
    by (auto dest: separated [OF not_in_intString not_in_intString] simp: intString_inj)
  then have b: "sint b = sint b'" and "boolString u @ CHR '';'' # r = boolString u' @ CHR '';'' # s"
    by (auto dest: separated [OF not_in_intString not_in_intString] simp: intString_inj)
  then have "u = u'" "r = s"
    by (auto dest: separated [OF not_in_boolString not_in_boolString] simp: boolString_inj)
  with a b show ?thesis by (simp add: signed_word_eqI)
qed

lemma decode_counted:
  assumes "decString m @ CHR '':'' # x @ r = decString n @ CHR '':'' # y @ s"
  shows "m = n \<and> x @ r = y @ s"
  using separated [OF not_in_decString(1) not_in_decString(1) assms] by (auto dest: decString_inj)

lemma decode_bytes:
  assumes "visit (JBytes a) @ r = visit (JBytes b) @ s"
  shows "a = b \<and> r = s"
proof -
  have "decString (length a) @ CHR '':'' # rawText a @ CHR '';'' # r
      = decString (length b) @ CHR '':'' # rawText b @ CHR '';'' # s"
    using assms by simp
  then have "length a = length b" "rawText a @ CHR '';'' # r = rawText b @ CHR '';'' # s"
    using decode_counted [of "length a" "rawText a" _ "length b" "rawText b"] by blast+
  then show ?thesis by (simp add: length_rawText rawText_inj)
qed

lemma decode_array:
  assumes "visit (JArray xs) @ r = visit (JArray ys) @ s"
    and "\<forall>x\<in>set xs. \<forall>y\<in>set ys. decodes visit canon x y"
  shows "map canon xs = map canon ys \<and> r = s"
proof -
  have "decString (length xs) @ CHR '':'' # [] @ CHR ''['' # concat (map visit xs) @ '']'' @ '';'' @ r
      = decString (length ys) @ CHR '':'' # [] @ CHR ''['' # concat (map visit ys) @ '']'' @ '';'' @ s"
    using assms(1) by simp
  then have "length xs = length ys" "concat (map visit xs) @ ''];'' @ r = concat (map visit ys) @ ''];'' @ s"
    using decode_counted [of "length xs" "[]" _ "length ys" "[]"] by auto
  with concat_decodes [OF this(1) assms(2) this(2)] show ?thesis by simp
qed

lemma decode_field:
  assumes "decodes visit canon (snd e) (snd f)"
  shows "decodes fieldText (\<lambda>(key, v). (key, canon v)) e f"
  unfolding decodes_def
proof (intro allI impI)
  fix r s
  assume "fieldText e @ r = fieldText f @ s"
  then have "decString (length (fst e)) @ CHR '':'' # fst e @ CHR ''='' # visit (snd e) @ r
      = decString (length (fst f)) @ CHR '':'' # fst f @ CHR ''='' # visit (snd f) @ s"
    by (simp add: fieldText_def)
  from decode_counted [OF this] have "fst e = fst f" "visit (snd e) @ r = visit (snd f) @ s" by auto
  with decodesD [OF assms this(2)]
  show "(case e of (key, v) \<Rightarrow> (key, canon v)) = (case f of (key, v) \<Rightarrow> (key, canon v)) \<and> r = s"
    by (simp add: split_def)
qed

lemma decode_object:
  assumes "visit (JObject xs) @ r = visit (JObject ys) @ s"
    and "\<forall>e\<in>set xs. \<forall>f\<in>set ys. decodes visit canon (snd e) (snd f)"
  shows "canon (JObject xs) = canon (JObject ys) \<and> r = s"
proof -
  have "decString (length xs) @ CHR '':'' # [] @ CHR ''{'' # concat (map fieldText (sort_key fst xs)) @ ''};'' @ r
      = decString (length ys) @ CHR '':'' # [] @ CHR ''{'' # concat (map fieldText (sort_key fst ys)) @ ''};'' @ s"
    using assms(1) by (simp add: visit_object del: visit.simps)
  then have "length (sort_key fst xs) = length (sort_key fst ys)"
    "concat (map fieldText (sort_key fst xs)) @ ''};'' @ r = concat (map fieldText (sort_key fst ys)) @ ''};'' @ s"
    using decode_counted [of "length xs" "[]" _ "length ys" "[]"] by auto
  note texts = this
  have "\<forall>e\<in>set (sort_key fst xs). \<forall>f\<in>set (sort_key fst ys).
      decodes fieldText (\<lambda>(key, v). (key, canon v)) e f"
    using assms(2) decode_field by simp
  from concat_decodes [OF texts(1) this texts(2)] show ?thesis
    by (simp add: sort_key_map_snd)
qed

lemma visit_decodes: "plainTexts v \<Longrightarrow> plainTexts w \<Longrightarrow> visit v @ r = visit w @ s \<Longrightarrow> canon v = canon w \<and> r = s"
proof (induction v arbitrary: w r s)
  case (JLong a b u)
  then obtain a' b' u' where w: "w = JLong a' b' u'" by (cases w) auto
  show ?case using decode_long [OF JLong.prems(3) [unfolded w]] w by simp
next
  case (JBytes b)
  then obtain b' where w: "w = JBytes b'" by (cases w) auto
  show ?case using decode_bytes [OF JBytes.prems(3) [unfolded w]] w by simp
next
  case (JArray xs)
  then obtain ys where w: "w = JArray ys" by (cases w) auto
  have "\<forall>x\<in>set xs. \<forall>y\<in>set ys. decodes visit canon x y"
    using JArray.IH JArray.prems(1,2) by (auto simp: decodes_def w)
  with decode_array [OF JArray.prems(3) [unfolded w]] w show ?case by simp
next
  case (JObject xs)
  then obtain ys where w: "w = JObject ys" by (cases w) auto
  have "decodes visit canon (snd e) (snd f)" if "e \<in> set xs" "f \<in> set ys" for e f
  proof -
    have "plainTexts (snd e)" "plainTexts (snd f)"
      using JObject.prems(1,2) that by (auto simp: w)
    with JObject.IH [OF that(1) snds.intros] show ?thesis
      unfolding decodes_def by blast
  qed
  with decode_object [OF JObject.prems(3) [unfolded w]] w show ?case by blast
next
  case (JNumber str)
  then obtain str' where w: "w = JNumber str'" by (cases w) auto
  then show ?case using JNumber separated [of "CHR '';''" str str' r s] by simp
next
  case (JBoolean b)
  then obtain b' where w: "w = JBoolean b'" by (cases w) auto
  then show ?case
    using JBoolean separated [OF not_in_boolString not_in_boolString, of b r b' s] by (simp add: boolString_inj)
next
  case (JString str)
  then obtain str' where w: "w = JString str'" by (cases w) auto
  then show ?case using JString separated [of "CHR '';''" str str' r s] by simp
next
  case JNull
  then show ?case by (cases w) auto
next
  case JUndefined
  then show ?case by (cases w) auto
qed

lemma fingerprint_identifies_request_parts:
  assumes "plainTexts v" and "plainTexts w"
  shows "visit v = visit w \<longleftrightarrow> canon v = canon w"
    and "canon v = canon w \<longrightarrow> rpcFingerprint sha256hex v = rpcFingerprint sha256hex w"
proof -
  show same: "visit v = visit w \<longleftrightarrow> canon v = canon w"
    using visit_decodes [OF assms, of "[]" "[]"] by (metis visit_canon)
  then show "canon v = canon w \<longrightarrow> rpcFingerprint sha256hex v = rpcFingerprint sha256hex w"
    unfolding rpcFingerprint_def by metis
qed

text \<open>
  C25. Of requests whose strings contain no semicolon, the text that is hashed determines the
  request up to the order of fields in an object: two requests have the same text exactly when
  they are the same, and then they have the same fingerprint.
\<close>

theorem fingerprint_identifies_request:
  assumes "plainTexts v" and "plainTexts w"
  shows "(visit v = visit w \<longleftrightarrow> canon v = canon w)
    \<and> (canon v = canon w \<longrightarrow> rpcFingerprint sha256hex v = rpcFingerprint sha256hex w)"
  by (intro conjI fingerprint_identifies_request_parts [OF assms])

theorem fingerprint_identifies_request_witness:
  "visit (JObject [(''b'', JString ''x''), (''a'', JNumber ''7'')])
     = visit (JObject [(''a'', JNumber ''7''), (''b'', JString ''x'')])
   \<and> visit (JArray [JString ''x'', JString ''y'']) \<noteq> visit (JArray [JString ''xy''])"
proof
  show "visit (JObject [(''b'', JString ''x''), (''a'', JNumber ''7'')])
     = visit (JObject [(''a'', JNumber ''7''), (''b'', JString ''x'')])"
    by (rule iffD2 [OF conjunct1 [OF fingerprint_identifies_request]]) (simp_all add: sort_key_def)
  show "visit (JArray [JString ''x'', JString ''y'']) \<noteq> visit (JArray [JString ''xy''])"
    by (subst conjunct1 [OF fingerprint_identifies_request]) simp_all
qed

text \<open>Without that restriction two different requests have the same text: the first string of one
  contains what separates the fields.\<close>

lemma fingerprint_collision:
  "visit (JObject [(''a'', JString ''x;1:b=string:y''), (''b'', JString ''z'')])
   = visit (JObject [(''a'', JString ''x''), (''b'', JString ''y;1:b=string:z'')])"
  by (simp add: sort_key_def decString.simps char_of_def bit_Suc_0_iff)

end
