(* ===== verification/Rpc_Registry.thy ===== *)
theory Rpc_Registry
  imports Js_Map
begin

text \<open>
  \<open>RpcDependencyRegistry\<close> of \<open>packages/mtproto/src/session/server-session.ts\<close>: the
  registry that all connections of one permanent auth key share. It tracks which messages
  are being processed or have completed (for \<open>invokeAfterMsg\<close>) and replays the answers of
  requests that a client sends again after a reconnect.

  A promise is a number. The callbacks that \<open>execute\<close> attaches to the promise it starts
  (fulfilled, rejected, finally) are operations of their own, applied to the call record that
  the code's closure captures; the system at the end of the theory interleaves them with every
  other operation in any order.
\<close>

section \<open>Constants and data\<close>

definition MAX_SHARED_COMPLETED_MESSAGE_IDS :: nat where "MAX_SHARED_COMPLETED_MESSAGE_IDS = 16384"
definition MAX_RPC_REPLAY_ENTRIES :: nat where "MAX_RPC_REPLAY_ENTRIES = 4096"
definition MAX_RPC_REPLAY_BYTES :: int where "MAX_RPC_REPLAY_BYTES = 32 * 1024 * 1024"
definition RPC_REPLAY_TTL_MS :: int where "RPC_REPLAY_TTL_MS = 2 * 60 * 1000"
definition MAX_SHARED_RPC_INFLIGHT :: int where "MAX_SHARED_RPC_INFLIGHT = 512"
definition MAX_SHARED_RPC_INFLIGHT_PER_AUTH_KEY :: int where "MAX_SHARED_RPC_INFLIGHT_PER_AUTH_KEY = 64"

lemmas registry_limits = MAX_SHARED_COMPLETED_MESSAGE_IDS_def MAX_RPC_REPLAY_ENTRIES_def
  MAX_RPC_REPLAY_BYTES_def RPC_REPLAY_TTL_MS_def MAX_SHARED_RPC_INFLIGHT_def
  MAX_SHARED_RPC_INFLIGHT_PER_AUTH_KEY_def

record rpcReply =
  rp_reqMsgId :: Long
  rp_body :: bytes
  rp_method :: "string option"
  rp_resultKind :: string
  rp_errorCode :: "int option"
  rp_errorMessage :: "string option"

record replayEntry =
  re_promise :: nat
  re_completedAt :: "int option"
  re_bytes :: nat

text \<open>\<open>_nextReplayExpiry\<close> is \<open>None\<close> for \<open>Infinity\<close>.\<close>

record registry =
  rg_processing :: "(string, nat) jsmap"
  rg_completed :: "(string, bool) jsmap"
  rg_replays :: "(string, replayEntry) jsmap"
  rg_inFlightByAuth :: "(string, int) jsmap"
  rg_startedAtSeconds :: int
  rg_nextReplayExpiry :: "int option"
  rg_replayBytes :: int
  rg_inFlight :: int
  rg_generation :: nat

definition newRegistry :: "int \<Rightarrow> registry" where
  "newRegistry dateNow = \<lparr>rg_processing = [], rg_completed = [], rg_replays = [],
     rg_inFlightByAuth = [], rg_startedAtSeconds = dateNow div 1000, rg_nextReplayExpiry = None,
     rg_replayBytes = 0, rg_inFlight = 0, rg_generation = 0\<rparr>"

section \<open>Keys\<close>

definition authScope :: "bytes \<Rightarrow> string" where
  "authScope authKeyId = concat (map byteHex authKeyId)"

definition regKey :: "bytes \<Rightarrow> Long \<Rightarrow> string" where
  "regKey authKeyId msgId = authScope authKeyId @ '':'' @ longString msgId"

section \<open>Dependencies\<close>

definition regRegister :: "bytes \<Rightarrow> Long \<Rightarrow> nat \<Rightarrow> registry \<Rightarrow> registry" where
  "regRegister authKeyId msgId processing r =
     r\<lparr>rg_processing := js_set (regKey authKeyId msgId) processing (rg_processing r)\<rparr>"

definition regComplete :: "bytes \<Rightarrow> Long \<Rightarrow> nat \<Rightarrow> registry \<Rightarrow> registry" where
  "regComplete authKeyId msgId processing r =
     (let key = regKey authKeyId msgId;
          proc = (if js_get (rg_processing r) key = Some processing
                  then js_delete key (rg_processing r) else rg_processing r);
          compl = js_set key True (js_delete key (rg_completed r))
      in r\<lparr>rg_processing := proc,
           rg_completed := evictOldest MAX_SHARED_COMPLETED_MESSAGE_IDS compl\<rparr>)"

definition regProcessing :: "bytes \<Rightarrow> Long \<Rightarrow> registry \<Rightarrow> nat option" where
  "regProcessing authKeyId msgId r = js_get (rg_processing r) (regKey authKeyId msgId)"

definition regCompleted :: "bytes \<Rightarrow> Long \<Rightarrow> registry \<Rightarrow> bool" where
  "regCompleted authKeyId msgId r \<longleftrightarrow>
     js_has (rg_completed r) (regKey authKeyId msgId)
     \<or> uint (drop_bit 32 msgId) < rg_startedAtSeconds r"

definition regClear :: "registry \<Rightarrow> registry" where
  "regClear r = r\<lparr>rg_generation := rg_generation r + 1, rg_processing := [], rg_completed := [],
     rg_replays := [], rg_inFlightByAuth := [], rg_nextReplayExpiry := None,
     rg_replayBytes := 0, rg_inFlight := 0\<rparr>"

section \<open>Replays\<close>

definition deleteReplay :: "string \<Rightarrow> replayEntry \<Rightarrow> registry \<Rightarrow> registry" where
  "deleteReplay key entry r =
     (if map_option re_promise (js_get (rg_replays r) key) \<noteq> Some (re_promise entry) then r
      else r\<lparr>rg_replays := js_delete key (rg_replays r),
             rg_replayBytes := rg_replayBytes r
               - (if re_completedAt entry \<noteq> None then int (re_bytes entry) else 0)\<rparr>)"

definition minExpiry :: "int option \<Rightarrow> int \<Rightarrow> int option" where
  "minExpiry expiry t = (case expiry of None \<Rightarrow> Some t | Some u \<Rightarrow> Some (min u t))"

definition withinReplayCaps :: "registry \<Rightarrow> bool" where
  "withinReplayCaps r \<longleftrightarrow>
     length (rg_replays r) \<le> MAX_RPC_REPLAY_ENTRIES \<and> rg_replayBytes r \<le> MAX_RPC_REPLAY_BYTES"

definition pruneEntry :: "int \<Rightarrow> string \<times> replayEntry \<Rightarrow> registry \<Rightarrow> registry" where
  "pruneEntry now ke r =
     (case re_completedAt (snd ke) of
        None \<Rightarrow> r
      | Some completedAt \<Rightarrow>
          if now - completedAt \<le> RPC_REPLAY_TTL_MS \<and> withinReplayCaps r
          then r\<lparr>rg_nextReplayExpiry :=
                   minExpiry (rg_nextReplayExpiry r) (completedAt + RPC_REPLAY_TTL_MS + 1)\<rparr>
          else deleteReplay (fst ke) (snd ke) r)"

definition beforeExpiry :: "int \<Rightarrow> int option \<Rightarrow> bool" where
  "beforeExpiry now expiry = (case expiry of None \<Rightarrow> True | Some t \<Rightarrow> now < t)"

definition regPrune :: "int \<Rightarrow> registry \<Rightarrow> registry" where
  "regPrune now r =
     (if beforeExpiry now (rg_nextReplayExpiry r) \<and> withinReplayCaps r then r
      else fold (pruneEntry now) (rg_replays r) (r\<lparr>rg_nextReplayExpiry := None\<rparr>))"

text \<open>What the callbacks of a started call capture: the key, the entry (named by its promise),
  the generation and the auth scope.\<close>

record rpcCall =
  cl_key :: string
  cl_promise :: nat
  cl_generation :: nat
  cl_scope :: string

datatype execOutcome = ReplayLimit | Joined nat | Started rpcCall

definition regExecute :: "int \<Rightarrow> bytes \<Rightarrow> Long \<Rightarrow> string \<Rightarrow> nat \<Rightarrow> registry \<Rightarrow> execOutcome \<times> registry" where
  "regExecute now authKeyId msgId fingerprint promise r0 =
     (let r = regPrune now r0;
          key = regKey authKeyId msgId @ '':'' @ fingerprint
      in case js_get (rg_replays r) key of
           Some existing \<Rightarrow>
             (Joined (re_promise existing),
              if re_completedAt existing \<noteq> None
              then r\<lparr>rg_replays := js_set key existing (js_delete key (rg_replays r))\<rparr> else r)
         | None \<Rightarrow>
             (let scope = authScope authKeyId;
                  mine = (case js_get (rg_inFlightByAuth r) scope of None \<Rightarrow> 0 | Some n \<Rightarrow> n)
              in if rg_inFlight r \<ge> MAX_SHARED_RPC_INFLIGHT
                    \<or> mine \<ge> MAX_SHARED_RPC_INFLIGHT_PER_AUTH_KEY
                 then (ReplayLimit, r)
                 else (Started \<lparr>cl_key = key, cl_promise = promise,
                                 cl_generation = rg_generation r, cl_scope = scope\<rparr>,
                       r\<lparr>rg_inFlight := rg_inFlight r + 1,
                         rg_inFlightByAuth := js_set scope (mine + 1) (rg_inFlightByAuth r),
                         rg_replays := js_set key
                           \<lparr>re_promise = promise, re_completedAt = None, re_bytes = 0\<rparr>
                           (rg_replays r)\<rparr>)))"

definition onFulfilled :: "int \<Rightarrow> rpcReply \<Rightarrow> rpcCall \<Rightarrow> registry \<Rightarrow> registry" where
  "onFulfilled now reply c r =
     (if cl_generation c \<noteq> rg_generation r then r
      else let n = length (rp_body reply);
               entry = \<lparr>re_promise = cl_promise c, re_completedAt = Some now, re_bytes = n\<rparr>
           in regPrune now
                (r\<lparr>rg_nextReplayExpiry := minExpiry (rg_nextReplayExpiry r) (now + RPC_REPLAY_TTL_MS + 1),
                   rg_replayBytes := rg_replayBytes r + int n,
                   rg_replays := js_set (cl_key c) entry (js_delete (cl_key c) (rg_replays r))\<rparr>))"

definition onRejected :: "rpcCall \<Rightarrow> registry \<Rightarrow> registry" where
  "onRejected c r =
     (if cl_generation c \<noteq> rg_generation r then r
      else deleteReplay (cl_key c)
             \<lparr>re_promise = cl_promise c, re_completedAt = None, re_bytes = 0\<rparr> r)"

definition onFinally :: "rpcCall \<Rightarrow> registry \<Rightarrow> registry" where
  "onFinally c r =
     (if cl_generation c \<noteq> rg_generation r then r
      else let remaining = (case js_get (rg_inFlightByAuth r) (cl_scope c) of None \<Rightarrow> 1 | Some n \<Rightarrow> n) - 1
           in r\<lparr>rg_inFlight := rg_inFlight r - 1,
                rg_inFlightByAuth :=
                  (if remaining > 0 then js_set (cl_scope c) remaining (rg_inFlightByAuth r)
                   else js_delete (cl_scope c) (rg_inFlightByAuth r))\<rparr>)"

definition inFlightAuthKeyIds :: "registry \<Rightarrow> string list" where
  "inFlightAuthKeyIds r = js_keys (rg_inFlightByAuth r)"

end
