(* ===== verification/Session_Messages.thy ===== *)
theory Session_Messages
  imports Message_Id Rpc_Registry Rpc_Request Server_Auth_Key
begin

text \<open>
  The messages of a session (\<open>packages/mtproto/src/session/server-session.ts\<close>):
  acknowledgements, the tables of running and completed messages, the service messages, the
  negotiation of the API layer with the updates that wait for it, and the login token shown on
  this session.

  An outgoing message is recorded as the object it carries, with the id, the sequence number,
  the session and the salt it is encrypted with; the TL serializer is not part of the model.
  \<open>sm_sent\<close> is what was handed to the connection, in order. A method that may throw returns
  whether it returned: sending throws when no authorization key is set up, and what was changed
  before stays changed. \<open>queueMicrotask\<close> appends to \<open>sm_microtasks\<close>, and running the first of
  them is an operation of its own. A promise is a number. The clock is the argument \<open>now\<close>, in
  seconds. The fields \<open>sm_ackRequests\<close> and \<open>sm_offered\<close> only record the calls of \<open>_queueAck\<close> and
  of \<open>sendUpdate\<close>.
\<close>

section \<open>State\<close>

definition MAX_PENDING_UPDATES :: nat where "MAX_PENDING_UPDATES = 256"
definition MAX_COMPLETED_MESSAGE_IDS :: nat where "MAX_COMPLETED_MESSAGE_IDS = 4096"

definition AUTHORIZATION_TRANSITION_METHODS :: "string list" where
  "AUTHORIZATION_TRANSITION_METHODS = [''auth.bindTempAuthKey'', ''auth.signIn'', ''auth.checkPassword'',
     ''auth.importAuthorization'', ''auth.logOut'', ''auth.exportLoginToken'', ''auth.importLoginToken'']"

record futureSalt =
  fs_validSince :: int
  fs_validUntil :: int
  fs_salt :: Long

record ackQueue =
  aq_sessionId :: Long
  aq_msgIds :: "Long list"
  aq_ids :: "string list"

datatype 'u payload =
    Pong Long Long
  | FutureSalts Long int "futureSalt list"
  | MsgsStateInfo Long bytes
  | DestroySessionOk Long
  | DestroyAuthKeyOk
  | NewSessionCreated Long Long
  | MsgsAck "Long list"
  | Update 'u int
  | LoginTokenUpdate int
  | RpcAnswer rpcReply

record 'u outMsg =
  om_msgId :: Long
  om_seqNo :: nat
  om_payload :: "'u payload"
  om_salt :: Long
  om_session :: Long

record 'u msgSession =
  sm_permKey :: serverAuthKey
  sm_tempKey :: "serverAuthKey option"
  sm_gen :: msgIdGen
  sm_sessionId :: Long
  sm_sessionIdSet :: bool
  sm_serverSalt :: Long
  sm_authorized :: bool
  sm_loginTokenPending :: bool
  sm_loginToken :: "bytes option"
  sm_loginTokenExpiresAt :: "int option"
  sm_apiLayer :: "int option"
  sm_pendingUpdates :: "('u \<times> Long option) list"
  sm_acceptsUpdates :: bool
  sm_updateSessionId :: "Long option"
  sm_queuedAcks :: "(string, ackQueue) jsmap"
  sm_scheduledAckFlushes :: "string list"
  sm_microtasks :: "Long list"
  sm_futureSalts :: "futureSalt list"
  sm_processing :: "(string, nat) jsmap"
  sm_completed :: "(string, bool) jsmap"
  sm_transition :: nat
  sm_clientInfo :: "clientInfo option"
  sm_lastActiveAt :: int
  sm_disposed :: bool
  sm_closed :: bool
  sm_sent :: "'u outMsg list"
  sm_published :: "(bytes \<times> int) list"
  sm_ackRequests :: "(Long \<times> Long) list"
  sm_offered :: "'u list"

definition newMsgSession :: "'u msgSession" where
  "newMsgSession = \<lparr>sm_permKey = newAuthKey, sm_tempKey = None, sm_gen = newMsgIdGen, sm_sessionId = 0,
     sm_sessionIdSet = False, sm_serverSalt = 0, sm_authorized = False, sm_loginTokenPending = False,
     sm_loginToken = None, sm_loginTokenExpiresAt = None, sm_apiLayer = None, sm_pendingUpdates = [],
     sm_acceptsUpdates = False, sm_updateSessionId = None, sm_queuedAcks = [],
     sm_scheduledAckFlushes = [], sm_microtasks = [], sm_futureSalts = [], sm_processing = [],
     sm_completed = [], sm_transition = 0, sm_clientInfo = None, sm_lastActiveAt = 0, sm_disposed = False, sm_closed = False, sm_sent = [], sm_published = [],
     sm_ackRequests = [], sm_offered = []\<rparr>"

text \<open>A method: it returns (\<open>True\<close>) or throws (\<open>False\<close>).\<close>

type_synonym 'u act = "'u msgSession \<Rightarrow> bool \<times> 'u msgSession"

definition andThen :: "'u act \<Rightarrow> 'u act \<Rightarrow> 'u act" where
  "andThen f g s = (case f s of (True, s') \<Rightarrow> g s' | (False, s') \<Rightarrow> (False, s'))"

definition pureAct :: "('u msgSession \<Rightarrow> 'u msgSession) \<Rightarrow> 'u act" where
  "pureAct f s = (True, f s)"

section \<open>Sending\<close>

definition sendKey :: "'u msgSession \<Rightarrow> serverAuthKey" where
  "sendKey s = (case sm_tempKey s of
                  Some t \<Rightarrow> if ak_ready t then t else sm_permKey s
                | None \<Rightarrow> sm_permKey s)"

definition permKeyId :: "'u msgSession \<Rightarrow> bytes option" where
  "permKeyId s = (if ak_ready (sm_permKey s) then Some (ak_id (sm_permKey s)) else None)"

definition sendEncryptedMessage :: "rat \<Rightarrow> 'u payload \<Rightarrow> bool \<Rightarrow> Long \<Rightarrow> 'u act" where
  "sendEncryptedMessage now body isContentRelated clientSessionId s =
     (let (msgId, g1) = getMessageId now (sm_gen s);
          (seqNo, g2) = getSeqNo isContentRelated g1;
          s1 = s\<lparr>sm_gen := g2\<rparr>
      in if \<not> ak_ready (sendKey s1) then (False, s1)
         else (True, s1\<lparr>sm_sent := sm_sent s1 @
                [\<lparr>om_msgId = msgId, om_seqNo = seqNo, om_payload = body,
                  om_salt = sm_serverSalt s1, om_session = clientSessionId\<rparr>]\<rparr>))"

definition sendNewSessionCreated :: "rat \<Rightarrow> 'u act" where
  "sendNewSessionCreated now s =
     sendEncryptedMessage now (NewSessionCreated (sm_sessionId s) (sm_serverSalt s)) False (sm_sessionId s) s"

section \<open>Acknowledgements\<close>

definition flushAcks :: "rat \<Rightarrow> Long \<Rightarrow> 'u act" where
  "flushAcks now clientSessionId s =
     (let key = longString clientSessionId
      in case js_get (sm_queuedAcks s) key of
           None \<Rightarrow> (True, s)
         | Some queued \<Rightarrow>
             if aq_msgIds queued = [] then (True, s)
             else sendEncryptedMessage now (MsgsAck (aq_msgIds queued)) False (aq_sessionId queued)
                    (s\<lparr>sm_queuedAcks := js_delete key (sm_queuedAcks s),
                       sm_scheduledAckFlushes := removeAll key (sm_scheduledAckFlushes s)\<rparr>))"

definition queueAck :: "rat \<Rightarrow> Long \<Rightarrow> Long \<Rightarrow> 'u act" where
  "queueAck now msgId clientSessionId s0 =
     (let s = s0\<lparr>sm_ackRequests := sm_ackRequests s0 @ [(clientSessionId, msgId)]\<rparr>;
          key = longString clientSessionId;
          queued = (case js_get (sm_queuedAcks s) key of
                      Some q \<Rightarrow> q
                    | None \<Rightarrow> \<lparr>aq_sessionId = clientSessionId, aq_msgIds = [], aq_ids = []\<rparr>);
          messageKey = longString msgId
      in if messageKey \<in> set (aq_ids queued)
         then (True, s\<lparr>sm_queuedAcks := js_set key queued (sm_queuedAcks s)\<rparr>)
         else let queued' = queued\<lparr>aq_ids := aq_ids queued @ [messageKey],
                                   aq_msgIds := aq_msgIds queued @ [msgId]\<rparr>;
                  s1 = s\<lparr>sm_queuedAcks := js_set key queued' (sm_queuedAcks s)\<rparr>
              in if length (aq_msgIds queued') \<ge> 10 then flushAcks now clientSessionId s1
                 else if key \<in> set (sm_scheduledAckFlushes s1) then (True, s1)
                 else (True, s1\<lparr>sm_scheduledAckFlushes := sm_scheduledAckFlushes s1 @ [key],
                                sm_microtasks := sm_microtasks s1 @ [clientSessionId]\<rparr>))"

text \<open>The first queued microtask runs.\<close>

definition runAckMicrotask :: "rat \<Rightarrow> 'u act" where
  "runAckMicrotask now s =
     (case sm_microtasks s of
        [] \<Rightarrow> (True, s)
      | clientSessionId # rest \<Rightarrow>
          (let s1 = s\<lparr>sm_microtasks := rest,
                      sm_scheduledAckFlushes := removeAll (longString clientSessionId) (sm_scheduledAckFlushes s)\<rparr>
           in if \<not> sm_disposed s1 \<and> \<not> sm_closed s1 then flushAcks now clientSessionId s1 else (True, s1)))"

text \<open>The context of the session is disposed: what \<open>start\<close> registered.\<close>

definition disposeMessages :: "'u msgSession \<Rightarrow> 'u msgSession" where
  "disposeMessages s = s\<lparr>sm_disposed := True, sm_queuedAcks := [], sm_scheduledAckFlushes := []\<rparr>"

section \<open>Login token and updates\<close>

definition clearLoginToken :: "'u msgSession \<Rightarrow> 'u msgSession" where
  "clearLoginToken s = s\<lparr>sm_loginTokenPending := False, sm_loginToken := None, sm_loginTokenExpiresAt := None\<rparr>"

definition clearExpiredLoginToken :: "rat \<Rightarrow> 'u msgSession \<Rightarrow> 'u msgSession" where
  "clearExpiredLoginToken now s =
     (case sm_loginTokenExpiresAt s of
        Some t \<Rightarrow> if t \<le> \<lfloor>now\<rfloor> then clearLoginToken s else s
      | None \<Rightarrow> s)"

definition supersedeLoginToken :: "bytes \<Rightarrow> 'u msgSession \<Rightarrow> 'u msgSession" where
  "supersedeLoginToken token s =
     (case sm_loginToken s of
        Some t \<Rightarrow> if t \<noteq> token then clearLoginToken s else s
      | None \<Rightarrow> s)"

text \<open>The boolean result is the first component of the answer; \<open>None\<close> stands for a throw.\<close>

definition sendLoginTokenUpdate :: "rat \<Rightarrow> bytes \<Rightarrow> 'u msgSession \<Rightarrow> bool option \<times> 'u msgSession" where
  "sendLoginTokenUpdate now token s0 =
     (let s = clearExpiredLoginToken now s0
      in if \<not> sm_authorized s \<or> \<not> sm_loginTokenPending s \<or> sm_loginToken s \<noteq> Some token
            \<or> sm_apiLayer s = None \<or> \<not> sm_sessionIdSet s \<or> sm_closed s
         then (Some False, s)
         else case sendEncryptedMessage now (LoginTokenUpdate \<lfloor>now\<rfloor>) True (sm_sessionId s) s of
                (True, s1) \<Rightarrow> (Some True, s1)
              | (False, s1) \<Rightarrow> (None, s1))"

definition updateTarget :: "Long option \<Rightarrow> 'u msgSession \<Rightarrow> Long option" where
  "updateTarget clientSessionId s =
     (case clientSessionId of
        Some c \<Rightarrow> Some c
      | None \<Rightarrow> (case sm_updateSessionId s of
                   Some u \<Rightarrow> Some u
                 | None \<Rightarrow> if sm_sessionIdSet s then Some (sm_sessionId s) else None))"

definition sendUpdate :: "rat \<Rightarrow> 'u \<Rightarrow> Long option \<Rightarrow> 'u act" where
  "sendUpdate now update clientSessionId s0 =
     (let s = clearExpiredLoginToken now s0
      in if \<not> sm_authorized s \<or> sm_loginTokenPending s then (True, s)
         else let target = updateTarget clientSessionId s
              in case sm_apiLayer s of
                   None \<Rightarrow>
                     if length (sm_pendingUpdates s) \<ge> MAX_PENDING_UPDATES
                     then (True, s\<lparr>sm_pendingUpdates := [], sm_closed := True\<rparr>)
                     else (True, s\<lparr>sm_pendingUpdates := sm_pendingUpdates s @ [(update, target)]\<rparr>)
                 | Some layer \<Rightarrow>
                     (case target of
                        None \<Rightarrow> (True, s)
                      | Some session \<Rightarrow> sendEncryptedMessage now (Update update layer) True session s))"

fun sendUpdates :: "rat \<Rightarrow> ('u \<times> Long option) list \<Rightarrow> 'u act" where
  "sendUpdates now [] s = (True, s)"
| "sendUpdates now ((update, clientSessionId) # rest) s =
     andThen (sendUpdate now update clientSessionId) (sendUpdates now rest) s"

definition setApiLayer :: "rat \<Rightarrow> int option \<Rightarrow> bool \<Rightarrow> 'u act" where
  "setApiLayer now layer publish s =
     (if layer = sm_apiLayer s then (True, s)
      else let s1 = s\<lparr>sm_apiLayer := layer\<rparr>;
               s2 = (case (layer, permKeyId s1) of
                       (Some l, Some keyId) \<Rightarrow>
                         if publish then s1\<lparr>sm_published := sm_published s1 @ [(keyId, l)]\<rparr> else s1
                     | _ \<Rightarrow> s1)
           in sendUpdates now (sm_pendingUpdates s2) (s2\<lparr>sm_pendingUpdates := []\<rparr>))"

section \<open>Answers of RPCs\<close>

definition RPC_RESULT_ID :: "32 word" where "RPC_RESULT_ID = 0xF35C6D01"
definition BOOL_TRUE_ID :: "32 word" where "BOOL_TRUE_ID = 0x997275B5"
definition BOOL_FALSE_ID :: "32 word" where "BOOL_FALSE_ID = 0xBC799737"
definition VECTOR_ID :: "32 word" where "VECTOR_ID = 0x1CB5C415"

text \<open>What a handler answers, and the serialization of objects and the response adapter of an
  API layer, which come from the tables of the TL packages.\<close>

datatype 'o rpcResult =
    BareBool bool
  | BareVector "'o list"
  | RpcErrorResult int string
  | DropAnswerResult bool
  | ObjectResult string 'o

record 'o tlWriter =
  tw_adapt :: "int option \<Rightarrow> 'o rpcResult \<Rightarrow> 'o rpcResult"
  tw_item :: "int option \<Rightarrow> 'o \<Rightarrow> bytes"
  tw_result :: "int option \<Rightarrow> 'o rpcResult \<Rightarrow> bytes"

definition boolBytes :: "bool \<Rightarrow> bytes" where
  "boolBytes value = le32 (if value then BOOL_TRUE_ID else BOOL_FALSE_ID)"

definition serializeBareVector :: "'o tlWriter \<Rightarrow> int option \<Rightarrow> 'o list \<Rightarrow> bytes" where
  "serializeBareVector w layer items =
     le32 VECTOR_ID @ le32 (of_nat (length items)) @ concat (map (tw_item w layer) items)"

definition resultKind :: "'o rpcResult \<Rightarrow> string" where
  "resultKind r = (case r of
       BareBool b \<Rightarrow> if b then ''boolTrue'' else ''boolFalse''
     | BareVector _ \<Rightarrow> ''vector''
     | RpcErrorResult _ _ \<Rightarrow> ''mt_rpc_error''
     | DropAnswerResult running \<Rightarrow>
         if running then ''mt_rpc_answer_dropped_running'' else ''mt_rpc_answer_unknown''
     | ObjectResult kind _ \<Rightarrow> kind)"

definition buildRpcReply :: "'o tlWriter \<Rightarrow> Long \<Rightarrow> 'o rpcResult \<Rightarrow> string option \<Rightarrow> 'u msgSession \<Rightarrow> rpcReply" where
  "buildRpcReply w reqMsgId rawResult method s =
     (let layer = sm_apiLayer s;
          result = tw_adapt w layer rawResult;
          resultBytes = (case result of
              BareBool b \<Rightarrow> boolBytes b
            | BareVector items \<Rightarrow> serializeBareVector w layer items
            | _ \<Rightarrow> tw_result w layer result)
      in \<lparr>rp_reqMsgId = reqMsgId,
          rp_body = le32 RPC_RESULT_ID @ longToBytesLE reqMsgId @ resultBytes,
          rp_method = method, rp_resultKind = resultKind result,
          rp_errorCode = (case result of RpcErrorResult code _ \<Rightarrow> Some code | _ \<Rightarrow> None),
          rp_errorMessage = (case result of RpcErrorResult _ message \<Rightarrow> Some message | _ \<Rightarrow> None)\<rparr>)"

definition sendRpcReply :: "rat \<Rightarrow> rpcReply \<Rightarrow> Long \<Rightarrow> 'u act" where
  "sendRpcReply now reply clientSessionId = sendEncryptedMessage now (RpcAnswer reply) True clientSessionId"

definition sendRpcResult :: "rat \<Rightarrow> 'o tlWriter \<Rightarrow> Long \<Rightarrow> 'o rpcResult \<Rightarrow> string option \<Rightarrow> Long \<Rightarrow> 'u act" where
  "sendRpcResult now w reqMsgId result method clientSessionId s =
     sendRpcReply now (buildRpcReply w reqMsgId result method s) clientSessionId s"

section \<open>Service messages\<close>

definition handlePing :: "rat \<Rightarrow> Long \<Rightarrow> Long \<Rightarrow> Long \<Rightarrow> 'u act" where
  "handlePing now msgId pingId clientSessionId = sendEncryptedMessage now (Pong msgId pingId) True clientSessionId"

definition handlePingDelayDisconnect :: "rat \<Rightarrow> Long \<Rightarrow> Long \<Rightarrow> Long \<Rightarrow> 'u act" where
  "handlePingDelayDisconnect now msgId pingId clientSessionId =
     sendEncryptedMessage now (Pong msgId pingId) True clientSessionId"

text \<open>\<open>rnd i\<close>: the eight random bytes of the \<open>i\<close>-th salt.\<close>

definition futureSaltAt :: "rat \<Rightarrow> (nat \<Rightarrow> bytes) \<Rightarrow> nat \<Rightarrow> futureSalt" where
  "futureSaltAt now rnd i =
     (let validSince = \<lfloor>now\<rfloor> + int i * 1800
      in \<lparr>fs_validSince = validSince, fs_validUntil = validSince + 1800, fs_salt = longAt 0 (rnd i)\<rparr>)"

definition generateFutureSalts :: "rat \<Rightarrow> (nat \<Rightarrow> bytes) \<Rightarrow> 'u msgSession \<Rightarrow> 'u msgSession" where
  "generateFutureSalts now rnd s =
     (let salts = map (futureSaltAt now rnd) [0..<64]
      in s\<lparr>sm_futureSalts := salts, sm_serverSalt := fs_salt (hd salts)\<rparr>)"

definition handleGetFutureSalts :: "rat \<Rightarrow> (nat \<Rightarrow> bytes) \<Rightarrow> Long \<Rightarrow> int option \<Rightarrow> Long \<Rightarrow> 'u act" where
  "handleGetFutureSalts now rnd msgId reqNum clientSessionId s0 =
     (let s = (if sm_futureSalts s0 = [] then generateFutureSalts now rnd s0 else s0);
          num = (case reqNum of Some n \<Rightarrow> n | None \<Rightarrow> 64);
          salts = take (nat num) (sm_futureSalts s)
      in (True, snd (sendEncryptedMessage now (FutureSalts msgId \<lfloor>now\<rfloor> salts) False clientSessionId s)))"

definition handleMsgsStateReq :: "rat \<Rightarrow> Long \<Rightarrow> Long list \<Rightarrow> Long \<Rightarrow> 'u act" where
  "handleMsgsStateReq now msgId msgIds clientSessionId =
     sendEncryptedMessage now (MsgsStateInfo msgId (replicate (length msgIds) 1)) False clientSessionId"

definition handleDestroySession :: "rat \<Rightarrow> Long \<Rightarrow> Long \<Rightarrow> 'u act" where
  "handleDestroySession now sessionId clientSessionId =
     sendEncryptedMessage now (DestroySessionOk sessionId) False clientSessionId"

definition handleDestroyAuthKey :: "rat \<Rightarrow> Long \<Rightarrow> 'u act" where
  "handleDestroyAuthKey now clientSessionId = sendEncryptedMessage now DestroyAuthKeyOk False clientSessionId"

definition handleRpcDropAnswer :: "rat \<Rightarrow> 'o tlWriter \<Rightarrow> Long \<Rightarrow> Long \<Rightarrow> 'u act" where
  "handleRpcDropAnswer now w msgId reqMsgId s =
     sendRpcResult now w msgId (DropAnswerResult (js_has (sm_processing s) (longString reqMsgId)))
       (Some ''mt_rpc_drop_answer'') (sm_sessionId s) s"

section \<open>Received messages\<close>

datatype 'q inMsg =
    MtPing Long
  | MtPingDelayDisconnect Long
  | MtMsgsAck
  | MtGetFutureSalts "int option"
  | MtRpcDropAnswer Long
  | MtMsgsStateReq "Long list"
  | MtDestroySession Long
  | MtDestroyAuthKey
  | TlObject "'q rpcMethod"

fun methodName :: "'q rpcMethod \<Rightarrow> string" where
  "methodName (InvokeWithLayer _ _) = ''invokeWithLayer''"
| "methodName (InitConnection _ _) = ''initConnection''"
| "methodName (InvokeWithoutUpdates _) = ''invokeWithoutUpdates''"
| "methodName (InvokeAfterMsg _ _) = ''invokeAfterMsg''"
| "methodName (InvokeAfterMsgs _ _) = ''invokeAfterMsgs''"
| "methodName (InvokeWithMessagesRange _) = ''invokeWithMessagesRange''"
| "methodName (InvokeWithTakeout _) = ''invokeWithTakeout''"
| "methodName (Method name _) = name"

fun inMsgName :: "'q inMsg \<Rightarrow> string" where
  "inMsgName (MtPing _) = ''mt_ping''"
| "inMsgName (MtPingDelayDisconnect _) = ''mt_ping_delay_disconnect''"
| "inMsgName MtMsgsAck = ''mt_msgs_ack''"
| "inMsgName (MtGetFutureSalts _) = ''mt_get_future_salts''"
| "inMsgName (MtRpcDropAnswer _) = ''mt_rpc_drop_answer''"
| "inMsgName (MtMsgsStateReq _) = ''mt_msgs_state_req''"
| "inMsgName (MtDestroySession _) = ''mt_destroy_session''"
| "inMsgName MtDestroyAuthKey = ''mt_destroy_auth_key''"
| "inMsgName (TlObject m) = methodName m"

definition isNoAckMessage :: "string \<Rightarrow> bool" where
  "isNoAckMessage objId \<longleftrightarrow>
     objId \<in> {''mt_msgs_ack'', ''mt_http_wait'', ''mt_bad_msg_notification'', ''mt_bad_server_salt'',
              ''mt_msgs_all_info'', ''mt_msgs_state_info'', ''mt_msg_detailed_info'', ''mt_msg_new_detailed_info''}"

text \<open>What a message asks for: \<open>None\<close> is an RPC.\<close>

definition serviceHandler ::
  "rat \<Rightarrow> (nat \<Rightarrow> bytes) \<Rightarrow> 'o tlWriter \<Rightarrow> Long \<Rightarrow> nat \<Rightarrow> 'q inMsg \<Rightarrow> Long \<Rightarrow> 'u act option" where
  "serviceHandler now rnd w msgId seqNo obj clientSessionId =
     (case obj of
        MtPing pingId \<Rightarrow> Some (handlePing now msgId pingId clientSessionId)
      | MtPingDelayDisconnect pingId \<Rightarrow> Some (handlePingDelayDisconnect now msgId pingId clientSessionId)
      | MtMsgsAck \<Rightarrow> Some (pureAct id)
      | MtGetFutureSalts num \<Rightarrow> Some (handleGetFutureSalts now rnd msgId num clientSessionId)
      | MtRpcDropAnswer reqMsgId \<Rightarrow> Some (handleRpcDropAnswer now w msgId reqMsgId)
      | MtMsgsStateReq msgIds \<Rightarrow> Some (handleMsgsStateReq now msgId msgIds clientSessionId)
      | MtDestroySession sessionId \<Rightarrow> Some (handleDestroySession now sessionId clientSessionId)
      | MtDestroyAuthKey \<Rightarrow> Some (handleDestroyAuthKey now clientSessionId)
      | TlObject m \<Rightarrow>
          if methodName m = ''auth.bindTempAuthKey'' \<or> isRpcRequestObject (methodName m) then None
          else if odd seqNo
               then Some (sendRpcResult now w msgId
                            (RpcErrorResult 500 (''METHOD_NOT_IMPLEMENTED: '' @ methodName m))
                            (Some (methodName m)) clientSessionId)
               else Some (pureAct id))"

datatype 'q recvOutcome = Handled | AwaitRpc "'q rpcMethod" | Threw

definition outcomeOf :: "bool \<Rightarrow> 'q recvOutcome" where
  "outcomeOf ok = (if ok then Handled else Threw)"

text \<open>\<open>_processDecryptedMessage\<close> of one object behind the envelopes, up to the \<open>await\<close> of its
  RPC; \<open>finishRpcMessage\<close> is what follows that.\<close>

definition processDecryptedMessage ::
  "rat \<Rightarrow> (nat \<Rightarrow> bytes) \<Rightarrow> 'o tlWriter \<Rightarrow> Long \<Rightarrow> nat \<Rightarrow> 'q inMsg \<Rightarrow> Long \<Rightarrow> 'u msgSession
   \<Rightarrow> 'q recvOutcome \<times> 'u msgSession" where
  "processDecryptedMessage now rnd w msgId seqNo obj clientSessionId s0 =
     (let s = s0\<lparr>sm_gen := observeClientMsgId msgId (sm_gen s0)\<rparr>;
          ack = (if \<not> isNoAckMessage (inMsgName obj) then queueAck now msgId clientSessionId else pureAct id)
      in case serviceHandler now rnd w msgId seqNo obj clientSessionId of
           Some handler \<Rightarrow>
             (case andThen ack (andThen handler (flushAcks now clientSessionId)) s of
                (ok, s1) \<Rightarrow> (outcomeOf ok, s1))
         | None \<Rightarrow>
             (case ack s of
                (True, s1) \<Rightarrow> ((case obj of TlObject m \<Rightarrow> AwaitRpc m | _ \<Rightarrow> Handled), s1)
              | (False, s1) \<Rightarrow> (Threw, s1)))"

definition finishRpcMessage :: "rat \<Rightarrow> Long \<Rightarrow> 'u act" where
  "finishRpcMessage now clientSessionId = flushAcks now clientSessionId"

text \<open>The registration of a message before it is processed and what \<open>finally\<close> does after.\<close>

definition beginMessage :: "Long \<Rightarrow> nat \<Rightarrow> registry option \<Rightarrow> 'u msgSession
    \<Rightarrow> bytes option \<times> registry option \<times> 'u msgSession" where
  "beginMessage msgId completion reg s =
     (let s1 = s\<lparr>sm_processing := js_set (longString msgId) completion (sm_processing s)\<rparr>;
          keyId = permKeyId s1
      in (keyId, (case keyId of Some k \<Rightarrow> map_option (regRegister k msgId completion) reg | None \<Rightarrow> reg), s1))"

definition rememberCompletedMessage :: "string \<Rightarrow> 'u msgSession \<Rightarrow> 'u msgSession" where
  "rememberCompletedMessage key s =
     s\<lparr>sm_completed := evictOldest MAX_COMPLETED_MESSAGE_IDS (js_set key True (js_delete key (sm_completed s)))\<rparr>"

definition endMessage :: "Long \<Rightarrow> nat \<Rightarrow> bytes option \<Rightarrow> registry option \<Rightarrow> 'u msgSession
    \<Rightarrow> registry option \<times> 'u msgSession" where
  "endMessage msgId completion keyId reg s =
     (let key = longString msgId;
          s1 = (if js_get (sm_processing s) key = Some completion
                then s\<lparr>sm_processing := js_delete key (sm_processing s)\<rparr> else s)
      in ((case keyId of Some k \<Rightarrow> map_option (regComplete k msgId completion) reg | None \<Rightarrow> reg),
          rememberCompletedMessage key s1))"

definition constructorText :: "bytes \<Rightarrow> string" where
  "constructorText body =
     (if length body \<ge> 4 then ''0x'' @ concat (map byteHex (rev (take 4 body))) else ''truncated'')"

definition handleContainerMessageError :: "rat \<Rightarrow> 'o tlWriter \<Rightarrow> Long \<Rightarrow> nat \<Rightarrow> bytes \<Rightarrow> Long \<Rightarrow> 'u act" where
  "handleContainerMessageError now w msgId seqNo body clientSessionId s =
     (if even seqNo then (True, s)
      else andThen (queueAck now msgId clientSessionId)
             (\<lambda>s1. (True, snd (sendRpcResult now w msgId (RpcErrorResult 400 ''METHOD_INVALID'')
                                 (Some (constructorText body)) clientSessionId s1))) s)"

section \<open>RPC calls\<close>

text \<open>\<open>_enqueueRpcCall\<close>: the promise the call waits for; a method that changes the identity becomes
  the one that later calls wait for.\<close>

definition enqueueRpcCall :: "nat \<Rightarrow> 'q rpcMethod \<Rightarrow> 'u msgSession \<Rightarrow> nat \<times> 'u msgSession" where
  "enqueueRpcCall promise request s =
     (if ur_method (unwrapRpcRequest request) \<in> set AUTHORIZATION_TRANSITION_METHODS
      then (sm_transition s, s\<lparr>sm_transition := promise\<rparr>)
      else (sm_transition s, s))"

text \<open>The beginning of \<open>_handleRpcCall\<close>, before the call is executed.\<close>

definition rpcPrologue :: "rat \<Rightarrow> (bytes \<Rightarrow> int option) \<Rightarrow> 'q unwrappedRpc \<Rightarrow> Long \<Rightarrow> 'u act" where
  "rpcPrologue now getLayer unwrapped clientSessionId s =
     (if sm_closed s then (True, s)
      else let method = ur_method unwrapped;
               s1 = s\<lparr>sm_clientInfo := (case ur_clientInfo unwrapped of Some i \<Rightarrow> Some i | None \<Rightarrow> sm_clientInfo s),
                      sm_lastActiveAt := \<lfloor>now * 1000\<rfloor>\<rparr>
           in if method = ''auth.bindTempAuthKey'' then (True, s1)
              else let s2 = (if method \<in> {''updates.getState'', ''updates.getDifference'', ''updates.getChannelDifference''}
                             then s1\<lparr>sm_acceptsUpdates := True, sm_updateSessionId := Some clientSessionId\<rparr>
                             else s1)
                   in case ur_apiLayer unwrapped of
                        Some l \<Rightarrow> setApiLayer now (Some l) True s2
                      | None \<Rightarrow>
                          (case (sm_apiLayer s2, permKeyId s2) of
                             (None, Some keyId) \<Rightarrow>
                               (case getLayer keyId of
                                  Some l \<Rightarrow> setApiLayer now (Some l) False s2
                                | None \<Rightarrow> (True, s2))
                           | _ \<Rightarrow> (True, s2)))"

datatype depState = Missing | Satisfied | Running nat

definition dependencyState :: "Long \<Rightarrow> registry option \<Rightarrow> 'u msgSession \<Rightarrow> Long \<Rightarrow> depState" where
  "dependencyState msgId reg s dependency =
     (let key = longString dependency;
          shared = (case (permKeyId s, reg) of (Some k, Some r) \<Rightarrow> Some (k, r) | _ \<Rightarrow> None)
      in if key = longString msgId then Missing
         else if js_has (sm_completed s) key then Satisfied
         else if (case shared of Some (k, r) \<Rightarrow> regCompleted k dependency r | None \<Rightarrow> False) then Satisfied
         else case js_get (sm_processing s) key of
                Some p \<Rightarrow> Running p
              | None \<Rightarrow>
                  (case shared of
                     Some (k, r) \<Rightarrow> (case regProcessing k dependency r of Some p \<Rightarrow> Running p | None \<Rightarrow> Missing)
                   | None \<Rightarrow> Missing))"

fun runningOf :: "depState list \<Rightarrow> nat list" where
  "runningOf [] = []"
| "runningOf (Running p # ds) = p # runningOf ds"
| "runningOf (_ # ds) = runningOf ds"

text \<open>\<open>None\<close>: the answer is \<open>MSG_WAIT_FAILED\<close>; otherwise the promises to wait for.\<close>

definition waitForRpcDependencies :: "Long \<Rightarrow> Long list \<Rightarrow> registry option \<Rightarrow> 'u msgSession \<Rightarrow> nat list option" where
  "waitForRpcDependencies msgId dependencies reg s =
     (let states = map (dependencyState msgId reg s) dependencies
      in if Missing \<in> set states then None else Some (runningOf states))"

datatype rpcStep = BindTempAuthKey | AnswerError int string | AwaitDependencies "nat list"

definition executeRpcCall :: "Long \<Rightarrow> 'q unwrappedRpc \<Rightarrow> registry option \<Rightarrow> 'u msgSession \<Rightarrow> rpcStep" where
  "executeRpcCall msgId unwrapped reg s =
     (if ur_method unwrapped = ''auth.bindTempAuthKey'' then BindTempAuthKey
      else if sm_apiLayer s = None then AnswerError 400 ''CONNECTION_NOT_INITED''
      else case waitForRpcDependencies msgId (ur_afterMessageIds unwrapped) reg s of
             None \<Rightarrow> AnswerError 500 ''MSG_WAIT_FAILED''
           | Some waits \<Rightarrow> AwaitDependencies waits)"

text \<open>What \<open>_handleRpcCall\<close> notes of a result: a login token shown to the client is pending until
  the client is logged in. \<open>tokenOf\<close> reads \<open>token\<close> and \<open>expires\<close>.\<close>

definition noteRpcResult :: "string \<Rightarrow> ('o \<Rightarrow> bytes \<times> int) \<Rightarrow> 'o rpcResult \<Rightarrow> 'u msgSession \<Rightarrow> 'u msgSession" where
  "noteRpcResult method tokenOf result s =
     (case result of
        ObjectResult kind o' \<Rightarrow>
          if method = ''auth.exportLoginToken'' \<and> kind = ''auth.loginToken''
          then s\<lparr>sm_loginTokenPending := True, sm_loginToken := Some (fst (tokenOf o')),
                 sm_loginTokenExpiresAt := Some (snd (tokenOf o'))\<rparr>
          else if kind = ''auth.authorization'' \<or> kind = ''auth.loginTokenSuccess'' then clearLoginToken s
          else s
      | _ \<Rightarrow> s)"

end
