(* ===== verification/Session_Messages_Safety.thy ===== *)
theory Session_Messages_Safety
  imports Session_Messages "HOL-Library.Multiset" "HOL-Library.Sublist"
begin

text \<open>
  What the messages of a session guarantee, over every interleaving of its operations: the step
  relation \<open>msgStep\<close> has one rule per operation and per microtask, and \<open>msgReach\<close> are the states
  of a session with an authorization key. An operation touches the acknowledgements, or the
  updates, or neither; \<open>ackSame\<close> and \<open>updSame\<close> say that it leaves the one or the other alone.
\<close>

section \<open>Reachable states\<close>

inductive msgStep :: "'u msgSession \<Rightarrow> 'u msgSession \<Rightarrow> bool" where
  receive: "msgStep s (snd (processDecryptedMessage now rnd (w :: jsVal tlWriter) msgId seqNo (obj :: jsVal inMsg) c s))"
| finish: "msgStep s (snd (finishRpcMessage now c s))"
| containerError: "msgStep s (snd (handleContainerMessageError now (w :: jsVal tlWriter) msgId seqNo body c s))"
| microtask: "msgStep s (snd (runAckMicrotask now s))"
| start: "msgStep s (snd (snd (beginMessage msgId completion reg s)))"
| ended: "msgStep s (snd (endMessage msgId completion keyId reg s))"
| update: "msgStep s (snd (sendUpdate now u cs (s\<lparr>sm_offered := sm_offered s @ [u]\<rparr>)))"
| setLayer: "msgStep s (snd (setApiLayer now layer publish s))"
| prologue: "msgStep s (snd (rpcPrologue now getLayer (unwrapped :: jsVal unwrappedRpc) c s))"
| enqueue: "msgStep s (snd (enqueueRpcCall promise (request :: jsVal rpcMethod) s))"
| noted: "msgStep s (noteRpcResult method tokenOf (result :: jsVal rpcResult) s)"
| reply: "msgStep s (snd (sendRpcReply now answer c s))"
| sessionCreated: "msgStep s (snd (sendNewSessionCreated now s))"
| loginUpdate: "msgStep s (snd (sendLoginTokenUpdate now token s))"
| supersede: "msgStep s (supersedeLoginToken token s)"
| frame: "msgStep s (s\<lparr>sm_sessionIdSet := True, sm_sessionId := c\<rparr>)"
| handshake: "ak_ready key \<Longrightarrow> msgStep s (s\<lparr>sm_permKey := key, sm_serverSalt := salt, sm_authorized := True\<rparr>)"
| tempHandshake: "ak_ready key \<Longrightarrow> msgStep s (s\<lparr>sm_tempKey := Some key, sm_serverSalt := salt, sm_authorized := True\<rparr>)"
| closed: "msgStep s (s\<lparr>sm_closed := True\<rparr>)"
| dispose: "msgStep s (disposeMessages s)"

inductive msgReach :: "'u msgSession \<Rightarrow> bool" where
  init: "s0 = newMsgSession\<lparr>sm_permKey := p, sm_tempKey := t, sm_authorized := True\<rparr>
    \<Longrightarrow> ak_ready (sendKey s0) \<Longrightarrow> msgReach s0"
| step: "msgReach s \<Longrightarrow> msgStep s s' \<Longrightarrow> msgReach s'"

section \<open>What was sent\<close>

definition ackOf :: "'u outMsg \<Rightarrow> (Long \<times> Long list) list" where
  "ackOf m = (case om_payload m of MsgsAck ids \<Rightarrow> [(om_session m, ids)] | _ \<Rightarrow> [])"

definition updateOf :: "'u outMsg \<Rightarrow> 'u list" where
  "updateOf m = (case om_payload m of Update u _ \<Rightarrow> [u] | _ \<Rightarrow> [])"

definition acksSent :: "'u msgSession \<Rightarrow> (Long \<times> Long list) list" where
  "acksSent s = concat (map ackOf (sm_sent s))"

definition updatesSent :: "'u msgSession \<Rightarrow> 'u list" where
  "updatesSent s = concat (map updateOf (sm_sent s))"

definition ackSame :: "'u msgSession \<Rightarrow> 'u msgSession \<Rightarrow> bool" where
  "ackSame s s' \<longleftrightarrow>
     sm_queuedAcks s' = sm_queuedAcks s \<and> sm_scheduledAckFlushes s' = sm_scheduledAckFlushes s
     \<and> sm_microtasks s' = sm_microtasks s \<and> sm_ackRequests s' = sm_ackRequests s
     \<and> sm_disposed s' = sm_disposed s \<and> (sm_closed s \<longrightarrow> sm_closed s') \<and> acksSent s' = acksSent s"

definition updSame :: "'u msgSession \<Rightarrow> 'u msgSession \<Rightarrow> bool" where
  "updSame s s' \<longleftrightarrow>
     sm_apiLayer s' = sm_apiLayer s \<and> sm_pendingUpdates s' = sm_pendingUpdates s
     \<and> sm_offered s' = sm_offered s \<and> updatesSent s' = updatesSent s"

definition keySame :: "'u msgSession \<Rightarrow> 'u msgSession \<Rightarrow> bool" where
  "keySame s s' \<longleftrightarrow> sm_permKey s' = sm_permKey s \<and> sm_tempKey s' = sm_tempKey s"

definition canSend :: "'u msgSession \<Rightarrow> bool" where
  "canSend s \<longleftrightarrow> ak_ready (sendKey s)"

lemmas same_defs = ackSame_def updSame_def keySame_def acksSent_def updatesSent_def

lemma same_refl [simp]: "ackSame s s" "updSame s s" "keySame s s"
  by (simp_all add: same_defs)

lemma same_trans:
  "ackSame a b \<Longrightarrow> ackSame b c \<Longrightarrow> ackSame a c" "updSame a b \<Longrightarrow> updSame b c \<Longrightarrow> updSame a c"
  "keySame a b \<Longrightarrow> keySame b c \<Longrightarrow> keySame a c"
  by (simp_all add: same_defs)

lemma canSend_same: "keySame s s' \<Longrightarrow> canSend s' = canSend s"
  by (simp add: canSend_def keySame_def sendKey_def split: option.splits)

lemma sendE:
  assumes "canSend s"
  obtains g m where "sendEncryptedMessage now body content c s = (True, s\<lparr>sm_gen := g, sm_sent := sm_sent s @ [m]\<rparr>)"
    and "om_payload m = body" and "om_session m = c"
proof -
  have "ak_ready (sendKey (s\<lparr>sm_gen := g\<rparr>))" for g
    using assms canSend_same [of s "s\<lparr>sm_gen := g\<rparr>"] by (simp add: canSend_def keySame_def)
  moreover obtain msgId g1 where "getMessageId now (sm_gen s) = (msgId, g1)" by fastforce
  moreover obtain seqNo g2 where "getSeqNo content g1 = (seqNo, g2)" by fastforce
  ultimately have "sendEncryptedMessage now body content c s = (True, s\<lparr>sm_gen := g2, sm_sent := sm_sent s @
      [\<lparr>om_msgId = msgId, om_seqNo = seqNo, om_payload = body, om_salt = sm_serverSalt s, om_session = c\<rparr>]\<rparr>)"
    by (simp add: sendEncryptedMessage_def)
  then show thesis by (rule that) simp_all
qed

lemma send_same:
  assumes "canSend s"
  shows "keySame s (snd (sendEncryptedMessage now body content c s))"
    and "(\<forall>ids. body \<noteq> MsgsAck ids) \<Longrightarrow> ackSame s (snd (sendEncryptedMessage now body content c s))"
    and "(\<forall>u l. body \<noteq> Update u l) \<Longrightarrow> updSame s (snd (sendEncryptedMessage now body content c s))"
    and "fst (sendEncryptedMessage now body content c s)"
proof -
  obtain g m where eq: "sendEncryptedMessage now body content c s = (True, s\<lparr>sm_gen := g, sm_sent := sm_sent s @ [m]\<rparr>)"
    and m: "om_payload m = body" by (rule sendE [OF assms, where now = now and body = body and content = content and c = c])
  show "keySame s (snd (sendEncryptedMessage now body content c s))"
    "fst (sendEncryptedMessage now body content c s)"
    by (simp_all add: eq keySame_def)
  show "ackSame s (snd (sendEncryptedMessage now body content c s))" if "\<forall>ids. body \<noteq> MsgsAck ids"
    using that m by (simp add: eq same_defs ackOf_def split: payload.splits)
  show "updSame s (snd (sendEncryptedMessage now body content c s))" if "\<forall>u l. body \<noteq> Update u l"
    using that m by (simp add: eq same_defs updateOf_def split: payload.splits)
qed

section \<open>Acknowledgements\<close>

definition queueShape :: "string \<Rightarrow> ackQueue \<Rightarrow> bool" where
  "queueShape k q \<longleftrightarrow>
     k = longString (aq_sessionId q) \<and> aq_ids q = map longString (aq_msgIds q) \<and> distinct (aq_msgIds q)
     \<and> aq_msgIds q \<noteq> [] \<and> length (aq_msgIds q) \<le> 10"

text \<open>A queue is below the limit and, while the session lives, will be flushed.\<close>

definition queueWaits :: "'u msgSession \<Rightarrow> string \<Rightarrow> ackQueue \<Rightarrow> bool" where
  "queueWaits s k q \<longleftrightarrow>
     length (aq_msgIds q) < 10 \<and> (sm_disposed s \<or> sm_closed s \<or> k \<in> set (sm_scheduledAckFlushes s))"

definition queuedFor :: "Long \<Rightarrow> 'u msgSession \<Rightarrow> Long list" where
  "queuedFor c s = (case js_get (sm_queuedAcks s) (longString c) of Some q \<Rightarrow> aq_msgIds q | None \<Rightarrow> [])"

definition ackedFor :: "Long \<Rightarrow> 'u msgSession \<Rightarrow> Long list" where
  "ackedFor c s = concat (map snd (filter (\<lambda>e. fst e = c) (acksSent s)))"

definition requestedFor :: "Long \<Rightarrow> 'u msgSession \<Rightarrow> Long list" where
  "requestedFor c s = map snd (filter (\<lambda>e. fst e = c) (sm_ackRequests s))"

definition accounted :: "Long \<Rightarrow> 'u msgSession \<Rightarrow> bool" where
  "accounted c s \<longleftrightarrow>
     mset (ackedFor c s) + mset (queuedFor c s) \<subseteq># mset (requestedFor c s)
     \<and> (\<not> sm_disposed s \<longrightarrow> set (ackedFor c s) \<union> set (queuedFor c s) = set (requestedFor c s))"

text \<open>The invariant, except perhaps for the waiting of the queues in \<open>K\<close>.\<close>

definition ack_except :: "string set \<Rightarrow> 'u msgSession \<Rightarrow> bool" where
  "ack_except K s \<longleftrightarrow>
     js_inv (sm_queuedAcks s)
     \<and> (\<forall>k q. js_get (sm_queuedAcks s) k = Some q \<longrightarrow> queueShape k q \<and> (k \<in> K \<or> queueWaits s k q))
     \<and> set (sm_scheduledAckFlushes s) \<subseteq> longString ` set (sm_microtasks s)
     \<and> (\<forall>c. accounted c s)
     \<and> (\<forall>(c, ids)\<in>set (acksSent s). ids \<noteq> [] \<and> distinct ids \<and> length ids \<le> 10)"

abbreviation ack_inv :: "'u msgSession \<Rightarrow> bool" where
  "ack_inv \<equiv> ack_except {}"

lemma ack_exceptI:
  assumes "js_inv (sm_queuedAcks s)"
    and "\<And>k q. js_get (sm_queuedAcks s) k = Some q \<Longrightarrow> queueShape k q \<and> (k \<in> K \<or> queueWaits s k q)"
    and "set (sm_scheduledAckFlushes s) \<subseteq> longString ` set (sm_microtasks s)"
    and "\<And>c. accounted c s" and "\<And>c ids. (c, ids) \<in> set (acksSent s) \<Longrightarrow> ids \<noteq> [] \<and> distinct ids \<and> length ids \<le> 10"
  shows "ack_except K s"
  unfolding ack_except_def using assms by blast

lemma ack_exceptD:
  assumes "ack_except K s"
  shows "js_inv (sm_queuedAcks s)"
    and "js_get (sm_queuedAcks s) k = Some q \<Longrightarrow> queueShape k q"
    and "js_get (sm_queuedAcks s) k = Some q \<Longrightarrow> k \<in> K \<or> queueWaits s k q"
    and "set (sm_scheduledAckFlushes s) \<subseteq> longString ` set (sm_microtasks s)"
    and "accounted c s" and "(c, ids) \<in> set (acksSent s) \<Longrightarrow> ids \<noteq> [] \<and> distinct ids \<and> length ids \<le> 10"
  using assms unfolding ack_except_def by blast+

lemma ack_except_mono: "ack_except K s \<Longrightarrow> K \<subseteq> L \<Longrightarrow> ack_except L s"
  unfolding ack_except_def by blast

lemma ack_except_none:
  assumes "ack_except {k} s" and "js_get (sm_queuedAcks s) k = None"
  shows "ack_inv s"
proof -
  have "queueWaits s k' q" if "js_get (sm_queuedAcks s) k' = Some q" for k' q
    using ack_exceptD(3) [OF assms(1) that] assms(2) that by auto
  then show ?thesis using assms(1) unfolding ack_except_def by blast
qed

lemma ackSame_inv: "ackSame s s' \<Longrightarrow> ack_except K s \<Longrightarrow> ack_except K s'"
  by (auto simp: ackSame_def ack_except_def queueWaits_def accounted_def ackedFor_def queuedFor_def requestedFor_def)

lemma ackedFor_push:
  "acksSent s' = acksSent s @ [(c, ids)]
   \<Longrightarrow> ackedFor d s' = ackedFor d s @ (if d = c then ids else [])"
  by (simp add: ackedFor_def)

text \<open>One step of the queue of a session \<open>c\<close>: a message is added to it, or it is sent.\<close>

lemma flush_inv:
  assumes inv: "ack_except {longString c} s" and ready: "canSend s"
  shows "ack_inv (snd (flushAcks now c s)) \<and> keySame s (snd (flushAcks now c s))
    \<and> updSame s (snd (flushAcks now c s)) \<and> fst (flushAcks now c s)"
proof (cases "js_get (sm_queuedAcks s) (longString c)")
  case None
  then show ?thesis using ack_except_none [OF inv] by (simp add: flushAcks_def)
next
  case (Some q)
  note old = ack_exceptD [OF inv]
  have q: "queueShape (longString c) q" using old(2) Some by blast
  then have sid: "aq_sessionId q = c" and "aq_msgIds q \<noteq> []" "distinct (aq_msgIds q)" "length (aq_msgIds q) \<le> 10"
    by (auto simp: queueShape_def longString_inj)
  define s1 where "s1 = s\<lparr>sm_queuedAcks := js_delete (longString c) (sm_queuedAcks s),
      sm_scheduledAckFlushes := removeAll (longString c) (sm_scheduledAckFlushes s)\<rparr>"
  have r1: "canSend s1" using ready canSend_same [of s s1] by (simp add: s1_def keySame_def)
  obtain g m where send: "sendEncryptedMessage now (MsgsAck (aq_msgIds q)) False c s1
      = (True, s1\<lparr>sm_gen := g, sm_sent := sm_sent s1 @ [m]\<rparr>)"
    and m: "om_payload m = MsgsAck (aq_msgIds q)" "om_session m = c"
    by (rule sendE [OF r1, where now = now and body = "MsgsAck (aq_msgIds q)" and content = False and c = c])
  define s2 where "s2 = s1\<lparr>sm_gen := g, sm_sent := sm_sent s1 @ [m]\<rparr>"
  have flush: "flushAcks now c s = (True, s2)"
    using Some \<open>aq_msgIds q \<noteq> []\<close> send by (simp add: flushAcks_def Let_def sid s1_def [symmetric] s2_def)
  have sent: "acksSent s2 = acksSent s @ [(c, aq_msgIds q)]"
    by (simp add: s2_def s1_def acksSent_def ackOf_def m)
  have "ack_inv s2"
  proof (rule ack_exceptI)
    show "js_inv (sm_queuedAcks s2)" using old(1) by (simp add: s2_def s1_def)
    show "set (sm_scheduledAckFlushes s2) \<subseteq> longString ` set (sm_microtasks s2)"
      using old(4) by (auto simp: s2_def s1_def)
    show "queueShape k p \<and> (k \<in> {} \<or> queueWaits s2 k p)" if "js_get (sm_queuedAcks s2) k = Some p" for k p
    proof -
      have "k \<noteq> longString c" "js_get (sm_queuedAcks s) k = Some p"
        using that by (auto simp: s2_def s1_def delete_conv' split: if_splits)
      with old(2,3) [of k p] show ?thesis by (auto simp: queueWaits_def s2_def s1_def)
    qed
    show "accounted d s2" for d
    proof -
      have "queuedFor d s2 = (if d = c then [] else queuedFor d s)"
        by (simp add: queuedFor_def s2_def s1_def delete_conv' longString_inj)
      moreover have "queuedFor c s = aq_msgIds q" by (simp add: queuedFor_def Some)
      moreover have "accounted d s" by (rule old(5))
      ultimately show ?thesis
        using ackedFor_push [OF sent, of d]
        by (auto simp: accounted_def requestedFor_def s2_def s1_def)
    qed
    show "ids \<noteq> [] \<and> distinct ids \<and> length ids \<le> 10" if "(d, ids) \<in> set (acksSent s2)" for d ids
      using that old(6) \<open>aq_msgIds q \<noteq> []\<close> \<open>distinct (aq_msgIds q)\<close> \<open>length (aq_msgIds q) \<le> 10\<close>
      by (auto simp: sent)
  qed
  moreover have "keySame s s2" "updSame s s2"
    by (simp_all add: s2_def s1_def same_defs updateOf_def m)
  ultimately show ?thesis by (simp add: flush)
qed


lemma add_to_queue:
  assumes inv: "ack_inv s"
    and q: "q = (case js_get (sm_queuedAcks s) (longString c) of
                   Some q \<Rightarrow> q | None \<Rightarrow> \<lparr>aq_sessionId = c, aq_msgIds = [], aq_ids = []\<rparr>)"
    and fresh: "longString m \<notin> set (aq_ids q)"
    and s': "s' = s\<lparr>sm_ackRequests := sm_ackRequests s @ [(c, m)],
      sm_queuedAcks := js_set (longString c) (q\<lparr>aq_ids := aq_ids q @ [longString m], aq_msgIds := aq_msgIds q @ [m]\<rparr>)
        (sm_queuedAcks s)\<rparr>"
  shows "ack_except {longString c} s'"
proof -
  note old = ack_exceptD [OF inv]
  have shape: "aq_sessionId q = c" "aq_ids q = map longString (aq_msgIds q)" "distinct (aq_msgIds q)"
    "length (aq_msgIds q) < 10"
    using old(2,3) [of "longString c" q]
    by (auto simp: q queueShape_def queueWaits_def longString_inj split: option.splits)
  have queued: "aq_msgIds q = queuedFor c s" by (simp add: q queuedFor_def split: option.splits)
  show ?thesis
  proof (rule ack_exceptI)
    show "js_inv (sm_queuedAcks s')" using old(1) by (simp add: s')
    show "set (sm_scheduledAckFlushes s') \<subseteq> longString ` set (sm_microtasks s')" using old(4) by (simp add: s')
    show "queueShape k p \<and> (k \<in> {longString c} \<or> queueWaits s' k p)"
      if "js_get (sm_queuedAcks s') k = Some p" for k p
      using that old(2,3) [of k p] shape fresh
      by (auto simp: s' update_conv' queueShape_def queueWaits_def longString_inj split: if_splits)
    show "accounted d s'" for d
    proof -
      have "queuedFor d s' = (if d = c then queuedFor c s @ [m] else queuedFor d s)"
        by (simp add: queuedFor_def s' update_conv' longString_inj queued [unfolded queuedFor_def])
      moreover have "requestedFor d s' = requestedFor d s @ (if d = c then [m] else [])"
        by (simp add: requestedFor_def s')
      moreover have "ackedFor d s' = ackedFor d s" by (simp add: ackedFor_def acksSent_def s')
      ultimately show ?thesis using old(5) [of d] by (auto simp: accounted_def s')
    qed
    show "ids \<noteq> [] \<and> distinct ids \<and> length ids \<le> 10" if "(d, ids) \<in> set (acksSent s')" for d ids
      using that old(6) by (simp add: s' acksSent_def)
  qed
qed


lemma request_again:
  assumes inv: "ack_inv s" and some: "js_get (sm_queuedAcks s) (longString c) = Some q"
    and again: "longString m \<in> set (aq_ids q)"
    and s2: "s2 = s\<lparr>sm_ackRequests := sm_ackRequests s @ [(c, m)],
      sm_queuedAcks := js_set (longString c) q (sm_queuedAcks s)\<rparr>"
  shows "ack_inv s2"
proof -
  note old = ack_exceptD [OF inv]
  have dup: "m \<in> set (queuedFor c s)"
    using again some old(2) [OF some] by (auto simp: queuedFor_def queueShape_def longString_inj)
  have gets: "js_get (sm_queuedAcks s2) = js_get (sm_queuedAcks s)"
    using some by (auto simp: s2 update_conv' fun_upd_idem)
  show ?thesis
  proof (rule ack_exceptI)
    show "js_inv (sm_queuedAcks s2)" using old(1) by (simp add: s2)
    show "set (sm_scheduledAckFlushes s2) \<subseteq> longString ` set (sm_microtasks s2)"
      using old(4) by (simp add: s2)
    show "queueShape k p \<and> (k \<in> {} \<or> queueWaits s2 k p)" if "js_get (sm_queuedAcks s2) k = Some p" for k p
      using that old(2,3) [of k p] by (simp add: gets queueWaits_def) (simp add: s2)
    show "accounted d s2" for d
    proof -
      have "requestedFor d s2 = requestedFor d s @ (if d = c then [m] else [])"
        by (simp add: requestedFor_def s2)
      moreover have "queuedFor d s2 = queuedFor d s" by (simp add: queuedFor_def gets)
      moreover have "ackedFor d s2 = ackedFor d s" "sm_disposed s2 = sm_disposed s"
        by (simp_all add: ackedFor_def acksSent_def s2)
      ultimately show ?thesis
        using old(5) [of d] dup by (auto simp: accounted_def intro: subset_mset.trans)
    qed
    show "ids \<noteq> [] \<and> distinct ids \<and> length ids \<le> 10" if "(d, ids) \<in> set (acksSent s2)" for d ids
      using that old(6) by (simp add: s2 acksSent_def)
  qed
qed

lemma schedule_flush:
  assumes mid: "ack_except {longString c} s1"
    and len: "\<And>q. js_get (sm_queuedAcks s1) (longString c) = Some q \<Longrightarrow> length (aq_msgIds q) < 10"
    and s2: "s2 = (if longString c \<in> set (sm_scheduledAckFlushes s1) then s1
         else s1\<lparr>sm_scheduledAckFlushes := sm_scheduledAckFlushes s1 @ [longString c],
                 sm_microtasks := sm_microtasks s1 @ [c]\<rparr>)"
  shows "ack_inv s2"
proof (rule ack_exceptI)
  note old = ack_exceptD [OF mid]
  show "js_inv (sm_queuedAcks s2)" using old(1) by (simp add: s2)
  show "set (sm_scheduledAckFlushes s2) \<subseteq> longString ` set (sm_microtasks s2)"
    using old(4) by (auto simp: s2)
  show "queueShape k p \<and> (k \<in> {} \<or> queueWaits s2 k p)" if "js_get (sm_queuedAcks s2) k = Some p" for k p
  proof -
    have get1: "js_get (sm_queuedAcks s1) k = Some p" using that by (simp add: s2 split: if_splits)
    with old(2,3) [OF get1] len show ?thesis by (auto simp: queueWaits_def s2)
  qed
  show "accounted d s2" for d
    using old(5) [of d] by (simp add: accounted_def ackedFor_def acksSent_def queuedFor_def requestedFor_def s2)
  show "ids \<noteq> [] \<and> distinct ids \<and> length ids \<le> 10" if "(d, ids) \<in> set (acksSent s2)" for d ids
    using that old(6) by (simp add: s2 acksSent_def split: if_splits)
qed

lemma queueAck_inv:
  assumes inv: "ack_inv s" and ready: "canSend s"
  shows "ack_inv (snd (queueAck now m c s)) \<and> keySame s (snd (queueAck now m c s))
    \<and> updSame s (snd (queueAck now m c s)) \<and> fst (queueAck now m c s)"
proof -
  define r where "r = s\<lparr>sm_ackRequests := sm_ackRequests s @ [(c, m)]\<rparr>"
  define q where "q = (case js_get (sm_queuedAcks s) (longString c) of
     Some q \<Rightarrow> q | None \<Rightarrow> \<lparr>aq_sessionId = c, aq_msgIds = [], aq_ids = []\<rparr>)"
  define q' where "q' = q\<lparr>aq_ids := aq_ids q @ [longString m], aq_msgIds := aq_msgIds q @ [m]\<rparr>"
  define s1 where "s1 = r\<lparr>sm_queuedAcks := js_set (longString c) q' (sm_queuedAcks s)\<rparr>"
  have rq: "sm_queuedAcks r = sm_queuedAcks s" by (simp add: r_def)
  note unfolds = Let_def r_def [symmetric] rq q_def [symmetric] q'_def [symmetric] s1_def [symmetric]
  show ?thesis
  proof (cases "longString m \<in> set (aq_ids q)")
    case True
    define s2 where "s2 = r\<lparr>sm_queuedAcks := js_set (longString c) q (sm_queuedAcks s)\<rparr>"
    have eq: "queueAck now m c s = (True, s2)"
      using True by (simp add: queueAck_def unfolds s2_def)
    have some: "js_get (sm_queuedAcks s) (longString c) = Some q"
      using True by (auto simp: q_def split: option.splits)
    have "ack_inv s2" by (rule request_again [OF inv some True]) (simp add: s2_def r_def)
    then show ?thesis by (simp add: eq) (simp add: s2_def r_def same_defs)
  next
    case False
    have mid: "ack_except {longString c} s1"
      by (rule add_to_queue [OF inv q_def False]) (simp add: s1_def r_def q'_def)
    have ready1: "canSend s1" using ready canSend_same [of s s1] by (simp add: s1_def r_def keySame_def)
    have same1: "keySame s s1" "updSame s s1" by (simp_all add: s1_def r_def same_defs)
    show ?thesis
    proof (cases "length (aq_msgIds q') \<ge> 10")
      case True
      then have eq: "queueAck now m c s = flushAcks now c s1" using False by (simp add: queueAck_def unfolds)
      show ?thesis unfolding eq using flush_inv [OF mid ready1] same1 same_trans by blast
    next
      case small: False
      define s2 where "s2 = (if longString c \<in> set (sm_scheduledAckFlushes s1) then s1
         else s1\<lparr>sm_scheduledAckFlushes := sm_scheduledAckFlushes s1 @ [longString c],
                 sm_microtasks := sm_microtasks s1 @ [c]\<rparr>)"
      have eq: "queueAck now m c s = (True, s2)"
        using False small by (simp add: queueAck_def unfolds s2_def)
      have "ack_inv s2"
        by (rule schedule_flush [OF mid _ s2_def]) (use small in \<open>simp add: s1_def update_conv'\<close>)
      moreover have "keySame s s2" "updSame s s2"
        using same1 by (simp_all add: s2_def same_defs)
      ultimately show ?thesis by (simp add: eq)
    qed
  qed
qed

section \<open>Login token and updates\<close>

lemma clearExpired_same:
  "keySame s (clearExpiredLoginToken now s)" "ackSame s (clearExpiredLoginToken now s)"
  "updSame s (clearExpiredLoginToken now s)"
  by (simp_all add: clearExpiredLoginToken_def clearLoginToken_def same_defs split: option.splits)

definition upd_inv :: "'u msgSession \<Rightarrow> bool" where
  "upd_inv s \<longleftrightarrow>
     length (sm_pendingUpdates s) \<le> MAX_PENDING_UPDATES
     \<and> (sm_apiLayer s \<noteq> None \<longrightarrow> sm_pendingUpdates s = [])
     \<and> subseq (updatesSent s @ map fst (sm_pendingUpdates s)) (sm_offered s)"

lemma updSame_inv: "updSame s s' \<Longrightarrow> upd_inv s \<Longrightarrow> upd_inv s'"
  by (auto simp: updSame_def upd_inv_def)

text \<open>What one call of \<open>sendUpdate\<close> does to the updates: nothing, drop what waits (only when the
  queue is full), append to what waits, or send.\<close>

lemma sendUpdate_cases:
  fixes s :: "'u msgSession" and now :: rat and cs :: "Long option" and u :: 'u
  assumes "canSend s"
  defines "s' \<equiv> snd (sendUpdate now u cs s)"
  obtains
    (unchanged) "updSame s s'"
  | (overflow) "length (sm_pendingUpdates s) \<ge> MAX_PENDING_UPDATES" "sm_apiLayer s = None" "sm_apiLayer s' = None"
      "sm_pendingUpdates s' = []" "sm_offered s' = sm_offered s" "updatesSent s' = updatesSent s"
  | (waits) target where "length (sm_pendingUpdates s) < MAX_PENDING_UPDATES" "sm_apiLayer s = None"
      "sm_apiLayer s' = None" "sm_pendingUpdates s' = sm_pendingUpdates s @ [(u, target)]"
      "sm_offered s' = sm_offered s" "updatesSent s' = updatesSent s"
  | (sent) "sm_apiLayer s \<noteq> None" "sm_apiLayer s' = sm_apiLayer s" "sm_pendingUpdates s' = sm_pendingUpdates s"
      "sm_offered s' = sm_offered s" "updatesSent s' = updatesSent s @ [u]"
proof -
  define s1 where "s1 = clearExpiredLoginToken now s"
  have same: "updSame s s1" "keySame s s1" by (simp_all add: s1_def clearExpired_same)
  have ready: "canSend s1" using assms(1) same by (simp add: canSend_same)
  note def = s'_def sendUpdate_def Let_def s1_def [symmetric]
  show thesis
  proof (cases "\<not> sm_authorized s1 \<or> sm_loginTokenPending s1")
    case True
    then have "s' = s1" by (auto simp: def)
    then show ?thesis using unchanged same by simp
  next
    case active: False
    show ?thesis
    proof (cases "sm_apiLayer s1")
      case None
      then show ?thesis
        using active same overflow waits [of "updateTarget cs s1"]
        by (cases "length (sm_pendingUpdates s1) \<ge> MAX_PENDING_UPDATES") (auto simp: def updSame_def updatesSent_def)
    next
      case (Some layer)
      show ?thesis
      proof (cases "updateTarget cs s1")
        case None
        then have "s' = s1" using active Some by (simp add: def)
        then show ?thesis using unchanged same by simp
      next
        case (Some target)
        obtain g m where send: "sendEncryptedMessage now (Update u layer) True target s1
            = (True, s1\<lparr>sm_gen := g, sm_sent := sm_sent s1 @ [m]\<rparr>)" and m: "om_payload m = Update u layer"
          by (rule sendE [OF ready, where now = now and body = "Update u layer" and content = True and c = target])
        have "s' = s1\<lparr>sm_gen := g, sm_sent := sm_sent s1 @ [m]\<rparr>"
          using active Some \<open>sm_apiLayer s1 = Some layer\<close> send by (simp add: def)
        moreover have "sm_apiLayer s = Some layer"
          using \<open>sm_apiLayer s1 = Some layer\<close> same(1) by (simp add: updSame_def)
        ultimately show ?thesis
          using \<open>sm_apiLayer s1 = Some layer\<close> same(1) m
          by (intro sent) (auto simp: updSame_def updatesSent_def updateOf_def)
      qed
    qed
  qed
qed

lemma sendUpdate_ack:
  assumes "canSend s"
  shows "ackSame s (snd (sendUpdate now u cs s))" and "keySame s (snd (sendUpdate now u cs s))"
    and "fst (sendUpdate now u cs s)"
proof -
  define s1 where "s1 = clearExpiredLoginToken now s"
  have same: "ackSame s s1" "keySame s s1" by (simp_all add: s1_def clearExpired_same)
  have ready: "canSend s1" using assms(1) same by (simp add: canSend_same)
  have sent: "ackSame s (snd (sendEncryptedMessage now (Update u l) True c s1))"
    "keySame s (snd (sendEncryptedMessage now (Update u l) True c s1))"
    "fst (sendEncryptedMessage now (Update u l) True c s1)" for l c
    by (rule same_trans(1) [OF same(1) send_same(2) [OF ready]], simp)
      (rule same_trans(3) [OF same(2) send_same(1) [OF ready]], rule send_same(4) [OF ready])
  have "ackSame s (snd (sendUpdate now u cs s)) \<and> keySame s (snd (sendUpdate now u cs s)) \<and> fst (sendUpdate now u cs s)"
  proof (cases "\<not> sm_authorized s1 \<or> sm_loginTokenPending s1")
    case True
    then have "sendUpdate now u cs s = (True, s1)" by (auto simp: sendUpdate_def Let_def s1_def [symmetric])
    then show ?thesis using same by simp
  next
    case active: False
    show ?thesis
    proof (cases "sm_apiLayer s1")
      case None
      then show ?thesis
        using active same
        by (cases "length (sm_pendingUpdates s1) \<ge> MAX_PENDING_UPDATES")
          (simp_all add: sendUpdate_def Let_def s1_def [symmetric], simp_all add: same_defs)
    next
      case (Some layer)
      then show ?thesis
        using active same sent
        by (cases "updateTarget cs s1") (simp_all add: sendUpdate_def Let_def s1_def [symmetric])
    qed
  qed
  then show "ackSame s (snd (sendUpdate now u cs s))" "keySame s (snd (sendUpdate now u cs s))"
    "fst (sendUpdate now u cs s)" by blast+
qed


text \<open>The updates invariant while the updates \<open>us\<close> are still to be handed to \<open>sendUpdate\<close>.\<close>

definition upd_before :: "'u list \<Rightarrow> 'u msgSession \<Rightarrow> bool" where
  "upd_before us s \<longleftrightarrow>
     length (sm_pendingUpdates s) \<le> MAX_PENDING_UPDATES
     \<and> (sm_apiLayer s \<noteq> None \<longrightarrow> sm_pendingUpdates s = [])
     \<and> subseq (updatesSent s @ map fst (sm_pendingUpdates s) @ us) (sm_offered s)"

lemma upd_before_Nil: "upd_before [] s = upd_inv s"
  by (simp add: upd_before_def upd_inv_def)

lemma subseq_without: "subseq (a @ b @ c) d \<Longrightarrow> subseq (a @ c) d"
  by (rule subseq_order.trans [of _ "a @ b @ c"]) (auto intro: list_emb_append_mono list_emb_append2)

lemma sendUpdate_upd:
  assumes "canSend s" and "upd_before (u # us) s"
  shows "upd_before us (snd (sendUpdate now u cs s))"
proof -
  have sub: "subseq (updatesSent s @ map fst (sm_pendingUpdates s) @ [u] @ us) (sm_offered s)"
    using assms(2) by (simp add: upd_before_def)
  have skip: "subseq (updatesSent s @ map fst (sm_pendingUpdates s) @ us) (sm_offered s)"
    using subseq_without [of "updatesSent s @ map fst (sm_pendingUpdates s)" "[u]" us] sub by simp
  have drop: "subseq (updatesSent s @ us) (sm_offered s)"
    using subseq_without [OF skip] by simp
  show ?thesis
    by (rule sendUpdate_cases [OF assms(1), of now u cs])
      (use assms(2) sub skip drop in \<open>simp_all add: upd_before_def updSame_def\<close>)
qed

lemma sendUpdates_inv:
  assumes "canSend s" and "upd_before (map fst pending @ us) s"
  shows "upd_before us (snd (sendUpdates now pending s)) \<and> ackSame s (snd (sendUpdates now pending s))
    \<and> keySame s (snd (sendUpdates now pending s)) \<and> fst (sendUpdates now pending s)"
  using assms
proof (induction pending arbitrary: s)
  case (Cons e rest)
  obtain u cs where e: "e = (u, cs)" by fastforce
  define s1 where "s1 = snd (sendUpdate now u cs s)"
  have s1: "sendUpdate now u cs s = (True, s1)"
    using sendUpdate_ack(3) [OF Cons.prems(1), of now u cs] by (simp add: s1_def prod_eq_iff)
  have same: "ackSame s s1" "keySame s s1" unfolding s1_def by (rule sendUpdate_ack [OF Cons.prems(1)])+
  have "upd_before (map fst rest @ us) s1"
    unfolding s1_def by (rule sendUpdate_upd) (use Cons.prems e in simp_all)
  moreover have "canSend s1" using same Cons.prems(1) by (simp add: canSend_same)
  ultimately show ?case
    using Cons.IH [of s1] same same_trans by (simp add: e andThen_def s1) blast
qed simp

lemma setApiLayer_inv:
  assumes "canSend s" and "upd_inv s"
  shows "upd_inv (snd (setApiLayer now layer publish s)) \<and> ackSame s (snd (setApiLayer now layer publish s))
    \<and> keySame s (snd (setApiLayer now layer publish s)) \<and> fst (setApiLayer now layer publish s)"
proof (cases "layer = sm_apiLayer s")
  case True
  then show ?thesis using assms by (simp add: setApiLayer_def)
next
  case False
  define s1 where "s1 = s\<lparr>sm_apiLayer := layer\<rparr>"
  define s2 where "s2 = (case (layer, permKeyId s1) of
      (Some l, Some keyId) \<Rightarrow> if publish then s1\<lparr>sm_published := sm_published s1 @ [(keyId, l)]\<rparr> else s1
    | _ \<Rightarrow> s1)"
  define s3 where "s3 = s2\<lparr>sm_pendingUpdates := []\<rparr>"
  define published where "published = (if publish \<and> layer \<noteq> None \<and> permKeyId s1 \<noteq> None
      then sm_published s1 @ [(the (permKeyId s1), the layer)] else sm_published s1)"
  have s2: "s2 = s1\<lparr>sm_published := published\<rparr>"
    unfolding s2_def published_def by (cases layer; cases "permKeyId s1"; cases publish) simp_all
  have eq: "setApiLayer now layer publish s = sendUpdates now (sm_pendingUpdates s) s3"
    using False unfolding setApiLayer_def Let_def s1_def [symmetric] s2_def [symmetric] s3_def
    by (simp only: s2) (simp add: s1_def)
  have before: "upd_before (map fst (sm_pendingUpdates s) @ []) s3"
    using assms(2) by (simp add: upd_before_def upd_inv_def s3_def s2 s1_def updatesSent_def)
  have same: "ackSame s s3" "keySame s s3" by (simp_all add: s3_def s2 s1_def same_defs)
  have "canSend s3" using same assms(1) by (simp add: canSend_same)
  note sent = sendUpdates_inv [OF this before, of now]
  show ?thesis
    unfolding eq using sent same_trans(1) [OF same(1)] same_trans(3) [OF same(2)]
    by (simp add: upd_before_Nil)
qed


section \<open>Every operation\<close>

definition sess_inv :: "'u msgSession \<Rightarrow> bool" where
  "sess_inv s \<longleftrightarrow> ack_inv s \<and> upd_inv s \<and> canSend s"

definition safeAct :: "'u act \<Rightarrow> bool" where
  "safeAct f \<longleftrightarrow> (\<forall>s. sess_inv s \<longrightarrow> sess_inv (snd (f s)) \<and> fst (f s))"

lemma safeActI: "(\<And>s. sess_inv s \<Longrightarrow> sess_inv (snd (f s)) \<and> fst (f s)) \<Longrightarrow> safeAct f"
  by (simp add: safeAct_def)

lemma safeD: "safeAct f \<Longrightarrow> sess_inv s \<Longrightarrow> sess_inv (snd (f s))"
  and safe_returns: "safeAct f \<Longrightarrow> sess_inv s \<Longrightarrow> fst (f s)"
  by (simp_all add: safeAct_def)

lemma same_sess_inv: "ackSame s s' \<Longrightarrow> updSame s s' \<Longrightarrow> keySame s s' \<Longrightarrow> sess_inv s \<Longrightarrow> sess_inv s'"
  using ackSame_inv [of s s'] updSame_inv [of s s'] canSend_same [of s s'] by (simp add: sess_inv_def)

lemma safe_andThen: "safeAct f \<Longrightarrow> safeAct g \<Longrightarrow> safeAct (andThen f g)"
  unfolding safeAct_def andThen_def by (auto split: prod.splits bool.splits)

lemma safe_id: "safeAct (pureAct id)"
  by (simp add: safeAct_def pureAct_def)

lemma safe_send:
  "(\<forall>ids. body \<noteq> MsgsAck ids) \<Longrightarrow> (\<forall>u l. body \<noteq> Update u l) \<Longrightarrow> safeAct (sendEncryptedMessage now body content c)"
  by (rule safeActI) (metis send_same sess_inv_def same_sess_inv)

lemma safe_flushAcks: "safeAct (flushAcks now c)"
proof (rule safeActI)
  fix s :: "'a msgSession"
  assume inv: "sess_inv s"
  then have "ack_except {longString c} s" "canSend s" by (auto simp: sess_inv_def elim: ack_except_mono)
  from flush_inv [OF this, of now] inv canSend_same updSame_inv
  show "sess_inv (snd (flushAcks now c s)) \<and> fst (flushAcks now c s)" unfolding sess_inv_def by blast
qed

lemma safe_queueAck: "safeAct (queueAck now m c)"
proof (rule safeActI)
  fix s :: "'a msgSession"
  assume inv: "sess_inv s"
  then have "ack_inv s" "canSend s" by (auto simp: sess_inv_def)
  from queueAck_inv [OF this, of now m c] inv canSend_same updSame_inv
  show "sess_inv (snd (queueAck now m c s)) \<and> fst (queueAck now m c s)" unfolding sess_inv_def by blast
qed

lemma safe_setApiLayer: "safeAct (setApiLayer now layer publish)"
proof (rule safeActI)
  fix s :: "'a msgSession"
  assume inv: "sess_inv s"
  then have "canSend s" "upd_inv s" by (auto simp: sess_inv_def)
  from setApiLayer_inv [OF this, of now layer publish] inv canSend_same ackSame_inv
  show "sess_inv (snd (setApiLayer now layer publish s)) \<and> fst (setApiLayer now layer publish s)"
    unfolding sess_inv_def by blast
qed

lemma drop_microtask:
  assumes "ack_inv s" and "sm_microtasks s = c # rest"
    and s1: "s1 = s\<lparr>sm_microtasks := rest,
        sm_scheduledAckFlushes := removeAll (longString c) (sm_scheduledAckFlushes s)\<rparr>"
  shows "ack_except {longString c} s1"
    and "js_get (sm_queuedAcks s1) k = Some q \<Longrightarrow> length (aq_msgIds q) < 10"
proof -
  note old = ack_exceptD [OF assms(1)]
  show "ack_except {longString c} s1"
  proof (rule ack_exceptI)
    show "js_inv (sm_queuedAcks s1)" using old(1) by (simp add: s1)
    show "queueShape k q \<and> (k \<in> {longString c} \<or> queueWaits s1 k q)" if "js_get (sm_queuedAcks s1) k = Some q" for k q
      using that old(2,3) [of k q] by (auto simp: s1 queueWaits_def)
    show "set (sm_scheduledAckFlushes s1) \<subseteq> longString ` set (sm_microtasks s1)"
      using old(4) assms(2) by (auto simp: s1)
    show "accounted d s1" for d
      using old(5) [of d] by (simp add: s1 accounted_def ackedFor_def acksSent_def queuedFor_def requestedFor_def)
    show "ids \<noteq> [] \<and> distinct ids \<and> length ids \<le> 10" if "(d, ids) \<in> set (acksSent s1)" for d ids
      using that old(6) by (simp add: s1 acksSent_def)
  qed
  show "js_get (sm_queuedAcks s1) k = Some q \<Longrightarrow> length (aq_msgIds q) < 10"
    using old(3) [of k q] by (simp add: s1 queueWaits_def)
qed

lemma safe_runAckMicrotask: "safeAct (runAckMicrotask now)"
proof (rule safeActI)
  fix s :: "'a msgSession"
  assume inv: "sess_inv s"
  show "sess_inv (snd (runAckMicrotask now s)) \<and> fst (runAckMicrotask now s)"
  proof (cases "sm_microtasks s")
    case Nil
    then show ?thesis using inv by (simp add: runAckMicrotask_def)
  next
    case (Cons c rest)
    define s1 where "s1 = s\<lparr>sm_microtasks := rest,
        sm_scheduledAckFlushes := removeAll (longString c) (sm_scheduledAckFlushes s)\<rparr>"
    have ack: "ack_inv s" and "upd_inv s" "canSend s" using inv by (auto simp: sess_inv_def)
    then have others: "upd_inv s1" "canSend s1"
      using updSame_inv [of s s1] canSend_same [of s s1] by (simp_all add: s1_def same_defs)
    note mid = drop_microtask [OF ack Cons s1_def]
    have eq: "runAckMicrotask now s = (if \<not> sm_disposed s1 \<and> \<not> sm_closed s1 then flushAcks now c s1 else (True, s1))"
      unfolding runAckMicrotask_def Cons list.case s1_def [symmetric] Let_def by (rule refl)
    show ?thesis
    proof (cases "\<not> sm_disposed s1 \<and> \<not> sm_closed s1")
      case True
      from flush_inv [OF mid(1) others(2), of now] others canSend_same updSame_inv True show ?thesis
        unfolding eq sess_inv_def by auto
    next
      case False
      have "ack_inv s1"
        by (rule ack_exceptI) (use ack_exceptD [OF mid(1)] mid(2) False in \<open>auto simp: queueWaits_def\<close>)
      then show ?thesis using False others by (auto simp: eq sess_inv_def)
    qed
  qed
qed

lemma safe_handlers:
  "safeAct (handlePing now m p c)" "safeAct (handlePingDelayDisconnect now m p c)"
  "safeAct (handleMsgsStateReq now m ids c)" "safeAct (handleDestroySession now sid c)"
  "safeAct (handleDestroyAuthKey now c)" "safeAct (sendRpcReply now answer c)"
  by (simp_all add: handlePing_def handlePingDelayDisconnect_def handleMsgsStateReq_def handleDestroySession_def
      handleDestroyAuthKey_def sendRpcReply_def safe_send)

lemma safe_sendRpcResult: "safeAct (sendRpcResult now w m result method c)"
  by (rule safeActI) (simp add: sendRpcResult_def safeD [OF safe_handlers(6)] safe_returns [OF safe_handlers(6)])

lemma safe_handleRpcDropAnswer: "safeAct (handleRpcDropAnswer now w m r)"
  by (rule safeActI)
    (simp add: handleRpcDropAnswer_def safeD [OF safe_sendRpcResult] safe_returns [OF safe_sendRpcResult])

lemma salts_same:
  "ackSame s (generateFutureSalts now rnd s)" "updSame s (generateFutureSalts now rnd s)"
  "keySame s (generateFutureSalts now rnd s)"
  by (simp_all add: generateFutureSalts_def Let_def same_defs)

lemma safe_handleGetFutureSalts: "safeAct (handleGetFutureSalts now rnd m num c)"
proof (rule safeActI)
  fix s :: "'a msgSession"
  assume inv: "sess_inv s"
  define s1 where "s1 = (if sm_futureSalts s = [] then generateFutureSalts now rnd s else s)"
  have "sess_inv s1" using inv by (simp add: s1_def same_sess_inv [OF salts_same])
  then have "sess_inv (snd (sendEncryptedMessage now (FutureSalts m t salts) False c s1))" for t salts
    by (rule safeD [OF safe_send, rotated 2]) simp_all
  then show "sess_inv (snd (handleGetFutureSalts now rnd m num c s)) \<and> fst (handleGetFutureSalts now rnd m num c s)"
    unfolding handleGetFutureSalts_def Let_def s1_def [symmetric] by simp
qed

lemma safe_serviceHandler:
  "serviceHandler now rnd w m n obj c = Some handler \<Longrightarrow> safeAct handler"
  by (auto simp: serviceHandler_def safe_handlers safe_sendRpcResult safe_handleRpcDropAnswer
      safe_handleGetFutureSalts safe_id split: inMsg.splits if_splits)

lemma processDecrypted_inv:
  assumes "sess_inv s"
  shows "sess_inv (snd (processDecryptedMessage now rnd w m n obj c s))"
    and "fst (processDecryptedMessage now rnd w m n obj c s) \<noteq> Threw"
proof -
  define s1 where "s1 = s\<lparr>sm_gen := observeClientMsgId m (sm_gen s)\<rparr>"
  define ack :: "'a act" where "ack = (if \<not> isNoAckMessage (inMsgName obj) then queueAck now m c else pureAct id)"
  have inv: "sess_inv s1" by (rule same_sess_inv [OF _ _ _ assms]) (simp_all add: s1_def same_defs)
  have ack: "safeAct ack" by (simp add: ack_def safe_queueAck safe_id)
  note unfolds = processDecryptedMessage_def Let_def s1_def [symmetric] ack_def [symmetric]
  have "sess_inv (snd (processDecryptedMessage now rnd w m n obj c s))
    \<and> fst (processDecryptedMessage now rnd w m n obj c s) \<noteq> Threw"
  proof (cases "serviceHandler now rnd w m n obj c :: 'a act option")
    case None
    then show ?thesis
      using safeD [OF ack inv] safe_returns [OF ack inv]
      by (auto simp: unfolds split: prod.splits bool.splits inMsg.splits)
  next
    case (Some handler)
    have all: "safeAct (andThen ack (andThen handler (flushAcks now c)))"
      by (intro safe_andThen ack safe_flushAcks safe_serviceHandler [OF Some])
    show ?thesis
      using Some safeD [OF all inv] safe_returns [OF all inv]
      by (auto simp: unfolds outcomeOf_def split: prod.splits)
  qed
  then show "sess_inv (snd (processDecryptedMessage now rnd w m n obj c s))"
    "fst (processDecryptedMessage now rnd w m n obj c s) \<noteq> Threw" by blast+
qed


lemma safe_containerError: "safeAct (handleContainerMessageError now w m n body c)"
proof (rule safeActI)
  fix s :: "'a msgSession"
  assume inv: "sess_inv s"
  have "safeAct (\<lambda>s1. (True, snd (sendRpcResult now w m (RpcErrorResult 400 ''METHOD_INVALID'')
                                 (Some (constructorText body)) c s1)) :: bool \<times> 'a msgSession)"
    by (rule safeActI) (simp add: safeD [OF safe_sendRpcResult])
  from safe_andThen [OF safe_queueAck this] inv
  show "sess_inv (snd (handleContainerMessageError now w m n body c s))
      \<and> fst (handleContainerMessageError now w m n body c s)"
    unfolding handleContainerMessageError_def safeAct_def by auto
qed

lemma safe_rpcPrologue: "safeAct (rpcPrologue now getLayer unwrapped c)"
proof (rule safeActI)
  fix s :: "'a msgSession"
  assume inv: "sess_inv s"
  define s1 where "s1 = s\<lparr>sm_clientInfo := (case ur_clientInfo unwrapped of Some i \<Rightarrow> Some i | None \<Rightarrow> sm_clientInfo s),
      sm_lastActiveAt := \<lfloor>now * 1000\<rfloor>\<rparr>"
  define s2 where "s2 = (if ur_method unwrapped \<in> {''updates.getState'', ''updates.getDifference'', ''updates.getChannelDifference''}
     then s1\<lparr>sm_acceptsUpdates := True, sm_updateSessionId := Some c\<rparr> else s1)"
  have inv1: "sess_inv s1" by (rule same_sess_inv [OF _ _ _ inv]) (simp_all add: s1_def same_defs)
  have inv2: "sess_inv s2" by (rule same_sess_inv [OF _ _ _ inv1]) (simp_all add: s2_def same_defs)
  show "sess_inv (snd (rpcPrologue now getLayer unwrapped c s)) \<and> fst (rpcPrologue now getLayer unwrapped c s)"
    unfolding rpcPrologue_def Let_def s1_def [symmetric] s2_def [symmetric]
    using inv inv1 inv2 safeD [OF safe_setApiLayer inv2] safe_returns [OF safe_setApiLayer inv2]
    by (simp split: option.splits)
qed

lemma noteRpcResult_same:
  "ackSame s (noteRpcResult method tokenOf result s)" "updSame s (noteRpcResult method tokenOf result s)"
  "keySame s (noteRpcResult method tokenOf result s)"
  by (simp_all add: noteRpcResult_def clearLoginToken_def same_defs split: rpcResult.splits)

lemma sendLoginTokenUpdate_inv: "sess_inv s \<Longrightarrow> sess_inv (snd (sendLoginTokenUpdate now token s))"
proof -
  assume inv: "sess_inv s"
  define s1 where "s1 = clearExpiredLoginToken now s"
  have inv1: "sess_inv s1" unfolding s1_def by (rule same_sess_inv [OF clearExpired_same(2,3,1) inv])
  have "sess_inv (snd (sendEncryptedMessage now (LoginTokenUpdate \<lfloor>now\<rfloor>) True (sm_sessionId s1) s1))"
    by (rule safeD [OF safe_send inv1]) simp_all
  then show ?thesis
    unfolding sendLoginTokenUpdate_def Let_def s1_def [symmetric] using inv1
    by (auto split: prod.splits bool.splits)
qed

lemma sendUpdate_inv:
  assumes "sess_inv s"
  shows "sess_inv (snd (sendUpdate now u cs (s\<lparr>sm_offered := sm_offered s @ [u]\<rparr>)))"
proof -
  define s1 where "s1 = s\<lparr>sm_offered := sm_offered s @ [u]\<rparr>"
  have parts: "ack_inv s" "upd_inv s" "canSend s" using assms by (auto simp: sess_inv_def)
  have same: "ackSame s s1" "keySame s s1" by (simp_all add: s1_def same_defs)
  have ready: "canSend s1" using same parts by (simp add: canSend_same)
  have "upd_before [u] s1"
    using parts(2) by (auto simp: upd_before_def upd_inv_def s1_def updatesSent_def append_assoc [symmetric]
        simp del: append_assoc intro: list_emb_append_mono)
  from sendUpdate_upd [OF ready this, of now cs] sendUpdate_ack(1,2) [OF ready, of now u cs]
  show ?thesis
    unfolding s1_def [symmetric] using parts(1) same canSend_same ready ackSame_inv
    by (simp add: sess_inv_def upd_before_Nil) blast
qed

lemma dispose_inv: "sess_inv s \<Longrightarrow> sess_inv (disposeMessages s)"
proof -
  assume inv: "sess_inv s"
  then have parts: "ack_inv s" "upd_inv s" "canSend s" by (auto simp: sess_inv_def)
  have "ack_inv (disposeMessages s)"
  proof (rule ack_exceptI)
    show "accounted c (disposeMessages s)" for c
    proof -
      have "ackedFor c (disposeMessages s) = ackedFor c s" "requestedFor c (disposeMessages s) = requestedFor c s"
        "queuedFor c (disposeMessages s) = []" "sm_disposed (disposeMessages s)"
        by (simp_all add: disposeMessages_def ackedFor_def acksSent_def requestedFor_def queuedFor_def)
      moreover have "mset (ackedFor c s) \<subseteq># mset (requestedFor c s)"
        using ack_exceptD(5) [OF parts(1), of c] mset_subset_eq_add_left subset_mset.trans
        unfolding accounted_def by blast
      ultimately show ?thesis by (simp add: accounted_def)
    qed
  qed (use ack_exceptD [OF parts(1)] in \<open>simp_all add: disposeMessages_def acksSent_def\<close>)
  moreover have "updSame s (disposeMessages s)" "keySame s (disposeMessages s)"
    by (simp_all add: disposeMessages_def same_defs)
  ultimately show ?thesis using parts updSame_inv canSend_same by (auto simp: sess_inv_def)
qed

lemma key_inv:
  assumes "sess_inv s" and "ackSame s s'" and "updSame s s'" and "canSend s'"
  shows "sess_inv s'"
  using assms ackSame_inv updSame_inv unfolding sess_inv_def by blast

lemma canSend_perm: "ak_ready k \<Longrightarrow> canSend (s\<lparr>sm_permKey := k, sm_serverSalt := salt, sm_authorized := True\<rparr>)"
  by (cases "sm_tempKey s") (simp_all add: canSend_def sendKey_def)

lemma canSend_temp: "ak_ready k \<Longrightarrow> canSend (s\<lparr>sm_tempKey := Some k, sm_serverSalt := salt, sm_authorized := True\<rparr>)"
  by (simp add: canSend_def sendKey_def)

lemma msgStep_inv: "msgStep s s' \<Longrightarrow> sess_inv s \<Longrightarrow> sess_inv s'"
proof (induction rule: msgStep.induct)
  case (start s msgId completion reg)
  then show ?case
    by (intro same_sess_inv [OF _ _ _ start]) (simp_all add: beginMessage_def Let_def same_defs)
next
  case (ended s msgId completion keyId reg)
  then show ?case
    by (intro same_sess_inv [OF _ _ _ ended])
      (simp_all add: endMessage_def rememberCompletedMessage_def Let_def same_defs)
next
  case (enqueue s promise request)
  then show ?case
    by (intro same_sess_inv [OF _ _ _ enqueue]) (simp_all add: enqueueRpcCall_def same_defs)
next
  case (supersede s token)
  then show ?case
    by (intro same_sess_inv [OF _ _ _ supersede])
      (simp_all add: supersedeLoginToken_def clearLoginToken_def same_defs split: option.splits)
next
  case (sessionCreated s now)
  show ?case
    unfolding sendNewSessionCreated_def by (rule safeD [OF safe_send sessionCreated]) simp_all
next
  case (handshake key s salt)
  then show ?case by (intro key_inv [OF handshake(2)]) (simp_all add: same_defs canSend_perm)
next
  case (tempHandshake key s salt)
  then show ?case by (intro key_inv [OF tempHandshake(2)]) (simp_all add: same_defs canSend_temp)
next
  case (closed s)
  then show ?case by (intro same_sess_inv [OF _ _ _ closed]) (simp_all add: same_defs)
next
  case (frame s c)
  then show ?case by (intro same_sess_inv [OF _ _ _ frame]) (simp_all add: same_defs)
qed (auto intro: processDecrypted_inv safeD [OF safe_flushAcks] safeD [OF safe_containerError]
    safeD [OF safe_runAckMicrotask] sendUpdate_inv safeD [OF safe_setApiLayer] safeD [OF safe_rpcPrologue]
    same_sess_inv [OF noteRpcResult_same] safeD [OF safe_handlers(6)] sendLoginTokenUpdate_inv dispose_inv
    simp: finishRpcMessage_def)

lemma msgReach_inv: "msgReach s \<Longrightarrow> sess_inv s"
proof (induction rule: msgReach.induct)
  case (init s0 p t)
  then show ?case
    by (auto simp: sess_inv_def ack_except_def upd_inv_def canSend_def newMsgSession_def accounted_def
        ackedFor_def queuedFor_def requestedFor_def acksSent_def updatesSent_def MAX_PENDING_UPDATES_def)
qed (rule msgStep_inv)


section \<open>Nothing is left when the microtasks have run\<close>

lemma flush_keeps:
  "sm_microtasks (snd (flushAcks now c s)) = sm_microtasks s"
  "sm_disposed (snd (flushAcks now c s)) = sm_disposed s" "sm_closed (snd (flushAcks now c s)) = sm_closed s"
  by (simp_all add: flushAcks_def sendEncryptedMessage_def Let_def split: option.splits prod.splits)

lemma microtask_keeps:
  "sm_microtasks (snd (runAckMicrotask now s)) = tl (sm_microtasks s)"
  "sm_disposed (snd (runAckMicrotask now s)) = sm_disposed s" "sm_closed (snd (runAckMicrotask now s)) = sm_closed s"
  by (simp_all add: runAckMicrotask_def Let_def flush_keeps split: list.splits)

definition runAckMicrotasks :: "rat \<Rightarrow> 'u msgSession \<Rightarrow> 'u msgSession" where
  "runAckMicrotasks now s = ((\<lambda>s. snd (runAckMicrotask now s)) ^^ length (sm_microtasks s)) s"

lemma microtasks_iterate:
  fixes s :: "'u msgSession" and now :: rat
  assumes "sess_inv s"
  defines "t n \<equiv> ((\<lambda>s. snd (runAckMicrotask now s)) ^^ n) s"
  shows "sess_inv (t n) \<and> sm_microtasks (t n) = drop n (sm_microtasks s)
    \<and> sm_disposed (t n) = sm_disposed s \<and> sm_closed (t n) = sm_closed s"
  by (induction n) (simp_all add: t_def assms(1) safeD [OF safe_runAckMicrotask] microtask_keeps drop_Suc tl_drop)

lemma queues_flushed:
  assumes "sess_inv s" and "\<not> sm_disposed s" and "\<not> sm_closed s"
  shows "queuedFor c (runAckMicrotasks now s) = []"
proof -
  define t where "t = runAckMicrotasks now s"
  have t: "sess_inv t" "sm_microtasks t = []" "\<not> sm_disposed t" "\<not> sm_closed t"
    using microtasks_iterate [OF assms(1), where now = now and n = "length (sm_microtasks s)"] assms(2,3)
    by (simp_all add: t_def runAckMicrotasks_def)
  then have "ack_inv t" by (simp add: sess_inv_def)
  then have "js_get (sm_queuedAcks t) k \<noteq> Some q" for k q
    using ack_exceptD(3,4) [of "{}" t] t by (auto simp: queueWaits_def)
  then show ?thesis by (auto simp: t_def queuedFor_def split: option.splits)
qed

lemma acknowledgements_complete_parts:
  assumes "msgReach s"
  shows "mset (ackedFor c s) + mset (queuedFor c s) \<subseteq># mset (requestedFor c s)"
    and "sm_disposed s \<or> set (ackedFor c s) \<union> set (queuedFor c s) = set (requestedFor c s)"
    and "(c, ids) \<notin> set (acksSent s) \<or> ids \<noteq> [] \<and> distinct ids \<and> length ids \<le> 10"
    and "length (queuedFor c s) < 10 \<and> distinct (queuedFor c s)"
    and "sm_disposed s \<or> sm_closed s \<or> queuedFor c (runAckMicrotasks now s) = []"
proof -
  have inv: "sess_inv s" using assms by (rule msgReach_inv)
  then have ack: "ack_inv s" by (simp add: sess_inv_def)
  note old = ack_exceptD [OF ack]
  show "mset (ackedFor c s) + mset (queuedFor c s) \<subseteq># mset (requestedFor c s)"
    "sm_disposed s \<or> set (ackedFor c s) \<union> set (queuedFor c s) = set (requestedFor c s)"
    using old(5) [of c] by (auto simp: accounted_def)
  show "(c, ids) \<notin> set (acksSent s) \<or> ids \<noteq> [] \<and> distinct ids \<and> length ids \<le> 10"
    using old(6) by blast
  show "length (queuedFor c s) < 10 \<and> distinct (queuedFor c s)"
    using old(2,3) [of "longString c"]
    by (auto simp: queuedFor_def queueShape_def queueWaits_def split: option.splits)
  show "sm_disposed s \<or> sm_closed s \<or> queuedFor c (runAckMicrotasks now s) = []"
    using queues_flushed [OF inv] by blast
qed


definition readySession :: "nat msgSession" where
  "readySession = newMsgSession\<lparr>sm_permKey := newAuthKey\<lparr>ak_ready := True\<rparr>, sm_tempKey := None, sm_authorized := True\<rparr>"

lemma readySession_reachable: "msgReach readySession"
  by (rule msgReach.init [OF readySession_def]) (simp add: readySession_def newMsgSession_def sendKey_def)

definition plainWriter :: "jsVal tlWriter" where
  "plainWriter = \<lparr>tw_adapt = (\<lambda>_ r. r), tw_item = (\<lambda>_ _. []), tw_result = (\<lambda>_ _. [])\<rparr>"


section \<open>Updates reach the client in order\<close>

definition updatesReady :: "'u msgSession \<Rightarrow> bool" where
  "updatesReady s \<longleftrightarrow> sm_authorized s \<and> \<not> sm_loginTokenPending s"

lemma clearExpired_ready:
  assumes "updatesReady s"
  shows "updatesReady (clearExpiredLoginToken now s)"
    and "updateTarget cs (clearExpiredLoginToken now s) = updateTarget cs s"
  using assms
  by (simp_all add: updatesReady_def clearExpiredLoginToken_def clearLoginToken_def updateTarget_def
      split: option.splits)

lemma sendUpdate_ready:
  fixes s :: "'u msgSession" and now :: rat and cs :: "Long option" and u :: 'u
  assumes "canSend s" and "updatesReady s" and "sm_apiLayer s \<noteq> None" and "updateTarget cs s \<noteq> None"
  defines "s' \<equiv> snd (sendUpdate now u cs s)"
  shows "updatesSent s' = updatesSent s @ [u] \<and> canSend s' \<and> updatesReady s' \<and> sm_apiLayer s' = sm_apiLayer s
    \<and> (\<forall>cs. updateTarget cs s' = updateTarget cs s)"
proof -
  define s1 where "s1 = clearExpiredLoginToken now s"
  obtain layer where layer: "sm_apiLayer s = Some layer" using assms(3) by auto
  obtain target where target: "updateTarget cs s = Some target" using assms(4) by auto
  have same: "keySame s s1" "updSame s s1" by (simp_all add: s1_def clearExpired_same)
  have ready1: "updatesReady s1" "updateTarget ds s1 = updateTarget ds s" for ds
    unfolding s1_def by (rule clearExpired_ready [OF assms(2)])+
  have can: "canSend s1" using assms(1) same by (simp add: canSend_same)
  have layer1: "sm_apiLayer s1 = Some layer" using layer same by (simp add: updSame_def)
  obtain g m where send: "sendEncryptedMessage now (Update u layer) True target s1
      = (True, s1\<lparr>sm_gen := g, sm_sent := sm_sent s1 @ [m]\<rparr>)" and m: "om_payload m = Update u layer"
    by (rule sendE [OF can, where now = now and body = "Update u layer" and content = True and c = target])
  have s': "s' = s1\<lparr>sm_gen := g, sm_sent := sm_sent s1 @ [m]\<rparr>"
    using ready1 layer1 target send
    unfolding s'_def sendUpdate_def Let_def s1_def [symmetric] updatesReady_def by simp
  have "canSend s'" using can canSend_same [of s1 s'] by (simp add: s' keySame_def)
  moreover have "updateTarget ds s' = updateTarget ds s" for ds
  proof -
    have "updateTarget ds s' = updateTarget ds s1" by (simp add: s' updateTarget_def split: option.splits)
    then show ?thesis using ready1(2) by simp
  qed
  ultimately show ?thesis
    using ready1(1) layer1 layer same m by (simp add: s' updatesReady_def updSame_def updatesSent_def updateOf_def)
qed

lemma sendUpdates_ready:
  assumes "canSend s" and "updatesReady s" and "sm_apiLayer s \<noteq> None"
    and "\<forall>(u, cs)\<in>set pending. updateTarget cs s \<noteq> None"
  shows "updatesSent (snd (sendUpdates now pending s)) = updatesSent s @ map fst pending"
  using assms
proof (induction pending arbitrary: s)
  case (Cons e rest)
  obtain u cs where e: "e = (u, cs)" by fastforce
  define s1 where "s1 = snd (sendUpdate now u cs s)"
  have s1: "sendUpdate now u cs s = (True, s1)"
    using sendUpdate_ack(3) [OF Cons.prems(1), of now u cs] by (simp add: s1_def prod_eq_iff)
  have "updatesSent s1 = updatesSent s @ [u] \<and> canSend s1 \<and> updatesReady s1 \<and> sm_apiLayer s1 = sm_apiLayer s
    \<and> (\<forall>cs. updateTarget cs s1 = updateTarget cs s)"
    unfolding s1_def by (rule sendUpdate_ready) (use Cons.prems e in auto)
  with Cons.IH [of s1] Cons.prems show ?case by (simp add: e andThen_def s1)
qed simp


lemma updates_in_order_parts:
  assumes "msgReach s"
  shows "subseq (updatesSent s @ map fst (sm_pendingUpdates s)) (sm_offered s)"
    and "length (sm_pendingUpdates s) \<le> 256 \<and> (sm_apiLayer s = None \<or> sm_pendingUpdates s = [])"
    and "updatesReady s \<longrightarrow> (\<forall>(u, cs)\<in>set (sm_pendingUpdates s). updateTarget cs s \<noteq> None)
      \<longrightarrow> updatesSent (snd (setApiLayer now (Some layer) publish s)) = updatesSent s @ map fst (sm_pendingUpdates s)"
proof -
  have inv: "upd_inv s" and can: "canSend s" using msgReach_inv [OF assms(1)] by (auto simp: sess_inv_def)
  show "subseq (updatesSent s @ map fst (sm_pendingUpdates s)) (sm_offered s)"
    "length (sm_pendingUpdates s) \<le> 256 \<and> (sm_apiLayer s = None \<or> sm_pendingUpdates s = [])"
    using inv by (auto simp: upd_inv_def MAX_PENDING_UPDATES_def)
  have "updatesSent (snd (setApiLayer now (Some layer) publish s)) = updatesSent s @ map fst (sm_pendingUpdates s)"
    if ready: "updatesReady s" and target: "\<forall>(u, cs)\<in>set (sm_pendingUpdates s). updateTarget cs s \<noteq> None"
  proof (cases "Some layer = sm_apiLayer s")
    case True
    then show ?thesis using inv by (auto simp: setApiLayer_def upd_inv_def)
  next
    case False
    define published where "published = (if publish \<and> permKeyId s \<noteq> None
        then sm_published s @ [(the (permKeyId s), layer)] else sm_published s)"
    define s3 where "s3 = s\<lparr>sm_apiLayer := Some layer, sm_published := published, sm_pendingUpdates := []\<rparr>"
    have "setApiLayer now (Some layer) publish s = sendUpdates now (sm_pendingUpdates s) s3"
      using False
      by (cases "permKeyId s"; cases publish)
        (simp_all add: setApiLayer_def Let_def permKeyId_def s3_def published_def split: if_splits)
    moreover have "updatesSent (snd (sendUpdates now (sm_pendingUpdates s) s3)) = updatesSent s3 @ map fst (sm_pendingUpdates s)"
    proof (rule sendUpdates_ready)
      show "canSend s3" using can canSend_same [of s s3] by (simp add: s3_def keySame_def)
      show "updatesReady s3" "sm_apiLayer s3 \<noteq> None" using ready by (simp_all add: s3_def updatesReady_def)
      have "updateTarget cs s3 = updateTarget cs s" for cs by (simp add: s3_def updateTarget_def split: option.splits)
      then show "\<forall>(u, cs)\<in>set (sm_pendingUpdates s). updateTarget cs s3 \<noteq> None" using target by simp
    qed
    ultimately show ?thesis by (simp add: s3_def updatesSent_def)
  qed
  then show "updatesReady s \<longrightarrow> (\<forall>(u, cs)\<in>set (sm_pendingUpdates s). updateTarget cs s \<noteq> None)
      \<longrightarrow> updatesSent (snd (setApiLayer now (Some layer) publish s)) = updatesSent s @ map fst (sm_pendingUpdates s)"
    by blast
qed




section \<open>Dependencies\<close>

lemma runningOf_set: "set (runningOf states) = {p. Running p \<in> set states}"
  by (induction states rule: runningOf.induct) auto

text \<open>The call waits for the promises of exactly the running dependencies; it fails exactly when a
  dependency is the call itself or is neither completed nor running.\<close>

lemma wait_for_dependencies:
  "waitForRpcDependencies msgId deps reg s = None \<longleftrightarrow> (\<exists>d\<in>set deps. dependencyState msgId reg s d = Missing)"
  "waitForRpcDependencies msgId deps reg s = Some waits
   \<Longrightarrow> set waits = {p. \<exists>d\<in>set deps. dependencyState msgId reg s d = Running p}"
  by (auto simp: waitForRpcDependencies_def Let_def runningOf_set image_iff split: if_splits) (metis)+

text \<open>Two messages of one container that name each other are both running when either looks, so
  each waits for the other.\<close>

lemma invoke_after_cycle:
  fixes s :: "'u msgSession" and p q :: nat
  assumes "a \<noteq> b" and "\<not> js_has (sm_completed s) (longString a)" and "\<not> js_has (sm_completed s) (longString b)"
  defines "t \<equiv> snd (snd (beginMessage b q None (snd (snd (beginMessage a p None s)))))"
  shows "waitForRpcDependencies a [b] None t = Some [q]" and "waitForRpcDependencies b [a] None t = Some [p]"
  using assms(1-3)
  by (simp_all add: t_def beginMessage_def Let_def waitForRpcDependencies_def dependencyState_def longString_inj
      update_conv' split: option.splits)

end
