(* ===== verification/Auth_Key_Store.thy ===== *)
theory Auth_Key_Store
  imports Js_Map
begin

text \<open>
  The stores of authorization keys (\<open>packages/mtproto/src/session/auth-key-store.ts\<close>):
  \<open>MemoryAuthKeyStore\<close> and \<open>FileAuthKeyStore\<close>, with its snapshot file, the rename that
  publishes a snapshot, and the revocation journal used on Windows.

  Time is \<open>Date.now()\<close> in milliseconds, so \<open>expiresAt <= Date.now() / 1000\<close> is
  \<open>expiresAt * 1000 \<le> now\<close>. A snapshot file is its parsed content (\<open>JSON.parse\<close> undoes
  \<open>JSON.stringify\<close>). Each file-system call can fail: an operation takes the step at which it
  fails, if any, and returns the new state with the error or the result. The sets of revoked
  ids are lists in insertion order.
\<close>

section \<open>Records and hexadecimal ids\<close>

record storedAuthKey =
  sk_key :: bytes
  sk_permanentKeyId :: "bytes option"
  sk_expiresAt :: "int option"
  sk_apiLayer :: "int option"

definition expired :: "int \<Rightarrow> int option \<Rightarrow> bool" where
  "expired now expiresAt = (case expiresAt of None \<Rightarrow> False | Some t \<Rightarrow> t * 1000 \<le> now)"

datatype storeError = ERevoking | EFileSystem | EPublishedPostRename | EPublishedWindowsJournal | EJournal

section \<open>MemoryAuthKeyStore\<close>

record memStore =
  ms_keys :: "(string, storedAuthKey) jsmap"
  ms_revoked :: "string list"

definition newMemStore :: memStore where
  "newMemStore = \<lparr>ms_keys = [], ms_revoked = []\<rparr>"

definition memGet :: "int \<Rightarrow> bytes \<Rightarrow> memStore \<Rightarrow> storedAuthKey option \<times> memStore" where
  "memGet now i s =
     (let idHex = toHex i; rec = js_get (ms_keys s) idHex
      in if idHex \<in> set (ms_revoked s) \<or>
            (case rec of None \<Rightarrow> False
             | Some r \<Rightarrow> (case sk_permanentKeyId r of None \<Rightarrow> False | Some p \<Rightarrow> toHex p \<in> set (ms_revoked s)))
         then (None, s)
         else case rec of
                None \<Rightarrow> (None, s)
              | Some r \<Rightarrow> if expired now (sk_expiresAt r)
                          then (None, s\<lparr>ms_keys := js_delete idHex (ms_keys s)\<rparr>) else (Some r, s))"

definition memSave :: "bytes \<Rightarrow> storedAuthKey \<Rightarrow> memStore \<Rightarrow> memStore \<times> (storeError + unit)" where
  "memSave i r s =
     (let idHex = toHex i;
          existing = js_get (ms_keys s) idHex;
          permanentId =
            (case sk_permanentKeyId r of
               Some p \<Rightarrow> toHex p
             | None \<Rightarrow> (case existing of None \<Rightarrow> idHex
                 | Some e \<Rightarrow> (case sk_permanentKeyId e of None \<Rightarrow> idHex | Some p \<Rightarrow> toHex p)))
      in if permanentId \<in> set (ms_revoked s) then (s, Inl ERevoking)
         else (s\<lparr>ms_keys := js_set idHex r (ms_keys s)\<rparr>, Inr ()))"

definition memBeginRevocation :: "bytes \<Rightarrow> memStore \<Rightarrow> memStore" where
  "memBeginRevocation i s = s\<lparr>ms_revoked := setAdd (toHex i) (ms_revoked s)\<rparr>"

definition memBound :: "string \<Rightarrow> storedAuthKey \<Rightarrow> bool" where
  "memBound idHex r = (case sk_permanentKeyId r of None \<Rightarrow> False | Some p \<Rightarrow> toHex p = idHex)"

definition memFinishRevocation :: "bytes \<Rightarrow> memStore \<Rightarrow> memStore \<times> bool" where
  "memFinishRevocation i s =
     (let idHex = toHex i;
          deleted = js_has (ms_keys s) idHex;
          keys = js_delete idHex (ms_keys s);
          deleted' = (deleted \<or> (\<exists>(k, r) \<in> set keys. memBound idHex r));
          keys' = filter (\<lambda>(k, r). \<not> memBound idHex r) keys
      in (s\<lparr>ms_keys := keys', ms_revoked := removeAll idHex (ms_revoked s)\<rparr>, deleted'))"

definition memRecoverPendingRevocations :: "memStore \<Rightarrow> memStore" where
  "memRecoverPendingRevocations s =
     fold (\<lambda>idHex s. fst (memFinishRevocation (fromHex idHex) s)) (ms_revoked s) s"

definition memDelete :: "bytes \<Rightarrow> memStore \<Rightarrow> memStore \<times> bool" where
  "memDelete i s = memFinishRevocation i (memBeginRevocation i s)"

section \<open>FileAuthKeyStore\<close>

record serializedAuthKey =
  za_key :: string
  za_permanentKeyId :: "string option"
  za_expiresAt :: "int option"
  za_apiLayer :: "int option"

text \<open>The snapshot file: absent, unreadable, the old format (a plain object), or an envelope. A
  value is an object or, in old files, the key as a bare string.\<close>

type_synonym fileKeys = "(string \<times> (string + serializedAuthKey)) list"

datatype snapshotFile = Absent | Corrupt | OldFormat fileKeys | Envelope fileKeys "string list"

datatype fsFault = FMkdir | FWriteTmp | FSyncTmp | FRename | FSyncDir
datatype journalFault = JOpen | JWrite nat | JSync
datatype journalAction = JBegin | JDone

record fileStore =
  fk_keys :: "(string, serializedAuthKey) jsmap"
  fk_revoked :: "string list"
  fk_pendingRevocations :: "string list"
  fk_win32 :: bool
  fk_path :: snapshotFile
  fk_tmp :: snapshotFile
  fk_journal :: string

definition serializeKey :: "storedAuthKey \<Rightarrow> serializedAuthKey" where
  "serializeKey r = \<lparr>za_key = toHex (sk_key r), za_permanentKeyId = map_option toHex (sk_permanentKeyId r),
     za_expiresAt = sk_expiresAt r, za_apiLayer = sk_apiLayer r\<rparr>"

text \<open>An empty string is falsy.\<close>

definition boundTo :: "serializedAuthKey \<Rightarrow> string option" where
  "boundTo v = (case za_permanentKeyId v of None \<Rightarrow> None | Some p \<Rightarrow> if p = [] then None else Some p)"

definition deserializeKey :: "serializedAuthKey \<Rightarrow> storedAuthKey" where
  "deserializeKey v = \<lparr>sk_key = fromHex (za_key v), sk_permanentKeyId = map_option fromHex (boundTo v),
     sk_expiresAt = za_expiresAt v, sk_apiLayer = za_apiLayer v\<rparr>"

definition fileGet :: "int \<Rightarrow> bytes \<Rightarrow> fileStore \<Rightarrow> storedAuthKey option" where
  "fileGet now i s =
     (let idHex = toHex i
      in case js_get (fk_keys s) idHex of
           None \<Rightarrow> None
         | Some v \<Rightarrow>
             if idHex \<in> set (fk_revoked s) \<or>
                (case boundTo v of None \<Rightarrow> False | Some p \<Rightarrow> p \<in> set (fk_revoked s)) then None
             else if expired now (za_expiresAt v) then None
             else Some (deserializeKey v))"

text \<open>\<open>_flush\<close>, with \<open>onPublished\<close> of \<open>_commit\<close> run right after the rename.\<close>

definition fileCommit ::
  "fsFault option \<Rightarrow> (string, serializedAuthKey) jsmap \<Rightarrow> string list \<Rightarrow> fileStore \<Rightarrow>
   fileStore \<times> (storeError + unit)" where
  "fileCommit fault keys revoked s =
     (if fault = Some FMkdir then (s, Inl EFileSystem)
      else if fault = Some FWriteTmp then (s\<lparr>fk_tmp := Corrupt\<rparr>, Inl EFileSystem)
      else
        let s1 = s\<lparr>fk_tmp := Envelope (map (\<lambda>(k, v). (k, Inr v)) keys) revoked\<rparr>
        in if fault = Some FSyncTmp \<or> fault = Some FRename then (s1, Inl EFileSystem)
           else
             let s2 = s1\<lparr>fk_path := fk_tmp s1, fk_tmp := Absent, fk_keys := keys, fk_revoked := revoked\<rparr>
             in if fk_win32 s2 then (s2, Inr ())
                else if fault = Some FSyncDir then (s2, Inl EPublishedPostRename)
                else (s2, Inr ()))"

definition fileSave ::
  "fsFault option \<Rightarrow> bytes \<Rightarrow> storedAuthKey \<Rightarrow> fileStore \<Rightarrow> fileStore \<times> (storeError + unit)" where
  "fileSave fault i r s =
     (let idHex = toHex i;
          existing = js_get (fk_keys s) idHex;
          permanentId =
            (case sk_permanentKeyId r of
               Some p \<Rightarrow> toHex p
             | None \<Rightarrow> (case existing of None \<Rightarrow> idHex
                 | Some e \<Rightarrow> (case za_permanentKeyId e of None \<Rightarrow> idHex | Some p \<Rightarrow> p)))
      in if permanentId \<in> set (fk_revoked s) then (s, Inl ERevoking)
         else fileCommit fault (js_set idHex (serializeKey r) (fk_keys s)) (fk_revoked s) s)"

definition journalLine :: "journalAction \<Rightarrow> string \<Rightarrow> string" where
  "journalLine action i =
     ''v1 '' @ (case action of JBegin \<Rightarrow> ''begin'' | JDone \<Rightarrow> ''done'') @ '' '' @ i @ [CHR 0x0A]"

definition appendWindowsJournal ::
  "journalFault option \<Rightarrow> journalAction \<Rightarrow> string \<Rightarrow> fileStore \<Rightarrow> fileStore \<times> (storeError + unit)" where
  "appendWindowsJournal fault action i s =
     (case fault of
        Some JOpen \<Rightarrow> (s, Inl EFileSystem)
      | Some (JWrite n) \<Rightarrow>
          (s\<lparr>fk_journal := fk_journal s @ take (min n (length (journalLine action i) - 1)) (journalLine action i)\<rparr>,
           Inl EJournal)
      | Some JSync \<Rightarrow> (s\<lparr>fk_journal := fk_journal s @ journalLine action i\<rparr>, Inl EFileSystem)
      | None \<Rightarrow> (s\<lparr>fk_journal := fk_journal s @ journalLine action i\<rparr>, Inr ()))"

definition fileBeginRevocation ::
  "journalFault option \<Rightarrow> fsFault option \<Rightarrow> bytes \<Rightarrow> fileStore \<Rightarrow> fileStore \<times> (storeError + unit)" where
  "fileBeginRevocation jfault fault i s =
     (let idHex = toHex i
      in if fk_win32 s
         then case appendWindowsJournal jfault JBegin idHex s of
                (s1, Inl e) \<Rightarrow> (s1, Inl e)
              | (s1, Inr _) \<Rightarrow>
                  let s2 = s1\<lparr>fk_revoked := setAdd idHex (fk_revoked s1),
                              fk_pendingRevocations := setAdd idHex (fk_pendingRevocations s1)\<rparr>
                  in (case fileCommit fault (fk_keys s2) (fk_revoked s2) s2 of
                        (s3, Inl _) \<Rightarrow> (s3, Inl EPublishedWindowsJournal)
                      | (s3, Inr _) \<Rightarrow> (s3, Inr ()))
         else fileCommit fault (fk_keys s) (setAdd idHex (fk_revoked s)) s)"

definition fileFinishRevocation ::
  "fsFault option \<Rightarrow> journalFault option \<Rightarrow> fsFault option \<Rightarrow> bytes \<Rightarrow> fileStore \<Rightarrow>
   fileStore \<times> (storeError + bool)" where
  "fileFinishRevocation fault1 jfault fault2 i s =
     (let idHex = toHex i;
          deleted = js_has (fk_keys s) idHex;
          keys = js_delete idHex (fk_keys s);
          deleted' = (deleted \<or> (\<exists>(k, v) \<in> set keys. za_permanentKeyId v = Some idHex));
          keys' = filter (\<lambda>(k, v). za_permanentKeyId v \<noteq> Some idHex) keys
      in case fileCommit fault1 keys' (fk_revoked s) s of
           (s1, Inl e) \<Rightarrow> (s1, Inl e)
         | (s1, Inr _) \<Rightarrow>
             if fk_win32 s1
             then case appendWindowsJournal jfault JDone idHex s1 of
                    (s2, Inl e) \<Rightarrow> (s2, Inl e)
                  | (s2, Inr _) \<Rightarrow>
                      (s2\<lparr>fk_pendingRevocations := removeAll idHex (fk_pendingRevocations s2)\<rparr>, Inr deleted')
             else case fileCommit fault2 (fk_keys s1) (removeAll idHex (fk_revoked s1)) s1 of
                    (s2, Inl e) \<Rightarrow> (s2, Inl e)
                  | (s2, Inr _) \<Rightarrow> (s2, Inr deleted'))"

definition fileDelete where
  "fileDelete jfault1 fault0 fault1 jfault fault2 i s =
     (case fileBeginRevocation jfault1 fault0 i s of
        (s1, Inl e) \<Rightarrow> (s1, Inl e)
      | (s1, Inr _) \<Rightarrow> fileFinishRevocation fault1 jfault fault2 i s1)"

section \<open>Opening the file store\<close>

definition isHexDigit :: "char \<Rightarrow> bool" where
  "isHexDigit c \<longleftrightarrow> c \<in> set ''0123456789abcdef''"

text \<open>The expression \<open>/^v1 (begin|done) ([0-9a-f]{16})$/\<close>.\<close>

definition matchJournalLine :: "string \<Rightarrow> (journalAction \<times> string) option" where
  "matchJournalLine line =
     (if take 9 line = ''v1 begin '' \<and> length (drop 9 line) = 16 \<and> list_all isHexDigit (drop 9 line)
      then Some (JBegin, drop 9 line)
      else if take 8 line = ''v1 done '' \<and> length (drop 8 line) = 16 \<and> list_all isHexDigit (drop 8 line)
      then Some (JDone, drop 8 line)
      else None)"

fun jsSplit :: "char \<Rightarrow> string \<Rightarrow> string list" where
  "jsSplit d [] = [[]]"
| "jsSplit d (c # cs) = (if c = d then [] # jsSplit d cs else (c # hd (jsSplit d cs)) # tl (jsSplit d cs))"

definition completePart :: "string \<Rightarrow> string" where
  "completePart j = rev (dropWhile (\<lambda>c. c \<noteq> CHR 0x0A) (rev j))"

fun readJournalLines :: "string list \<Rightarrow> fileStore \<Rightarrow> fileStore option" where
  "readJournalLines [] s = Some s"
| "readJournalLines (line # lines) s =
     (if line = [] then readJournalLines lines s
      else case matchJournalLine line of
             None \<Rightarrow> None
           | Some (action, i) \<Rightarrow>
               readJournalLines lines
                 (s\<lparr>fk_revoked := setAdd i (fk_revoked s),
                    fk_pendingRevocations :=
                      (case action of JBegin \<Rightarrow> setAdd i (fk_pendingRevocations s)
                       | JDone \<Rightarrow> removeAll i (fk_pendingRevocations s))\<rparr>))"

definition loadWindowsJournal :: "fileStore \<Rightarrow> fileStore option" where
  "loadWindowsJournal s =
     (let complete = completePart (fk_journal s)
      in readJournalLines (jsSplit (CHR 0x0A) complete) (s\<lparr>fk_journal := complete\<rparr>))"

definition loadKeys :: "fileKeys \<Rightarrow> (string, serializedAuthKey) jsmap" where
  "loadKeys entries =
     fold (\<lambda>(i, value) keys. js_set i
       (case value of Inl k \<Rightarrow> \<lparr>za_key = k, za_permanentKeyId = None, za_expiresAt = None, za_apiLayer = None\<rparr>
        | Inr v \<Rightarrow> v) keys) entries []"

text \<open>The constructor, on the files an earlier process left; \<open>None\<close>: it throws.\<close>

definition openFileStore :: "bool \<Rightarrow> snapshotFile \<Rightarrow> snapshotFile \<Rightarrow> string \<Rightarrow> fileStore option" where
  "openFileStore win32 path tmp journal =
     (let s = \<lparr>fk_keys = [], fk_revoked = [], fk_pendingRevocations = [], fk_win32 = win32,
               fk_path = path, fk_tmp = tmp, fk_journal = journal\<rparr>;
          s1 = (case path of
                  Absent \<Rightarrow> s
                | Corrupt \<Rightarrow> s
                | OldFormat entries \<Rightarrow> s\<lparr>fk_keys := loadKeys entries\<rparr>
                | Envelope entries revoked \<Rightarrow> s\<lparr>fk_keys := loadKeys entries, fk_revoked := fold setAdd revoked []\<rparr>)
      in if win32 then loadWindowsJournal s1 else Some s1)"

text \<open>\<open>recoverPendingRevocations\<close>; it stops at the first \<open>finishRevocation\<close> that throws.\<close>

fun finishAll ::
  "string list \<Rightarrow> (string \<Rightarrow> fsFault option \<times> journalFault option \<times> fsFault option) \<Rightarrow> fileStore \<Rightarrow>
   fileStore \<times> (storeError + unit)" where
  "finishAll [] faults s = (s, Inr ())"
| "finishAll (i # is) faults s =
     (let (f1, j, f2) = faults i
      in case fileFinishRevocation f1 j f2 (fromHex i) s of
           (s1, Inl e) \<Rightarrow> (s1, Inl e)
         | (s1, Inr _) \<Rightarrow> finishAll is faults s1)"

definition fileRecoverPendingRevocations where
  "fileRecoverPendingRevocations faults s =
     finishAll (if fk_win32 s then fk_pendingRevocations s else fk_revoked s) faults s"

end
