(* ===== verification/Temp_Key_Binding.thy ===== *)
theory Temp_Key_Binding
  imports Session_Messages_Safety Auth_Key_Store
begin

text \<open>
  \<open>auth.bindTempAuthKey\<close> (\<open>_handleBindTempAuthKey\<close> and \<open>_verifyBindInner\<close> of
  \<open>packages/mtproto/src/session/server-session.ts\<close>): a client proves with its permanent key that
  the temporary key of this connection is its own; only then does the session take the permanent
  identity.

  The parameters are those of \<open>Server_Auth_Key\<close>, the older AES-IGE key derivation
  (\<open>igeOld key msgKey data\<close>, \<open>None\<close> when it throws) and the TL reader of the inner message. The
  three calls of the key store are answered by \<open>bindEnv\<close>: what the store returns may change
  between them, and each can throw (\<open>Inl\<close>). Calls that change the identity run one after another,
  so the keys of the session do not change during the call.
\<close>

section \<open>The inner message\<close>

record bindRequest =
  br_permAuthKeyId :: Long
  br_nonce :: Long
  br_expiresAt :: int
  br_encryptedMessage :: bytes

record bindInner =
  bi_nonce :: Long
  bi_tempAuthKeyId :: Long
  bi_permAuthKeyId :: Long
  bi_expiresAt :: int

datatype tlInner = BindAuthKeyInner bindInner | OtherInner string

record bindCrypto =
  bc_crypto :: msgCrypto
  bc_igeOld :: "bytes \<Rightarrow> bytes \<Rightarrow> bytes \<Rightarrow> bytes option"
  bc_readObject :: "bytes \<Rightarrow> tlInner option"

text \<open>The reader throws on malformed input; every exception makes the verification fail.\<close>

definition verifyBindInner :: "bindCrypto \<Rightarrow> int \<Rightarrow> bindRequest \<Rightarrow> serverAuthKey option \<Rightarrow> serverAuthKey \<Rightarrow> bool" where
  "verifyBindInner bc nowSeconds req tempKey permanent =
     (case tempKey of
        None \<Rightarrow> False
      | Some temp \<Rightarrow>
          if \<not> ak_ready permanent \<or> \<not> ak_ready temp then False
          else let enc = br_encryptedMessage req
               in if length enc < 24 + 16 then False
                  else if subarray 0 8 enc \<noteq> ak_id permanent then False
                  else let msgKey = subarray 8 24 enc
                       in case bc_igeOld bc (ak_key permanent) msgKey (drop 24 enc) of
                            None \<Rightarrow> False
                          | Some dec \<Rightarrow>
                              if length dec < 32 then False
                              else let msgEnd = 32 + unat (uintAt 28 dec)
                                   in if msgEnd > length dec then False
                                      else if msgKey \<noteq> subarray 4 20 (mc_sha1 (bc_crypto bc) (subarray 0 msgEnd dec)) then False
                                      else case bc_readObject bc (drop 32 dec) of
                                             Some (BindAuthKeyInner bind) \<Rightarrow>
                                               longToBytesLE (bi_tempAuthKeyId bind) = ak_id temp
                                               \<and> longToBytesLE (bi_permAuthKeyId bind) = ak_id permanent
                                               \<and> bi_nonce bind = br_nonce req
                                               \<and> bi_expiresAt bind = br_expiresAt req \<and> br_expiresAt req > nowSeconds
                                           | _ \<Rightarrow> False)"

section \<open>The call\<close>

datatype storeAnswer = StoreThrows | StoreHas "storedAuthKey option"

record bindEnv =
  be_loaded :: storeAnswer
  be_saveThrows :: bool
  be_revalidated :: storeAnswer

datatype bindResult = BindTrue | BindError int string | BindThrows

text \<open>The result, the session, and what was saved in the store.\<close>

type_synonym 'u bindOutcome = "bindResult \<times> 'u msgSession \<times> (bytes \<times> storedAuthKey) list"

text \<open>The key that the request has to be verified with, or the answer when the store fails.\<close>

definition bindCandidate :: "bindCrypto \<Rightarrow> bindEnv \<Rightarrow> bindRequest \<Rightarrow> 'u msgSession \<Rightarrow> bindResult + serverAuthKey option" where
  "bindCandidate bc env req s =
     (let permanentId = longToBytesLE (br_permAuthKeyId req)
      in if akMatch permanentId (sm_permKey s) then Inr (Some (sm_permKey s))
         else case be_loaded env of
                StoreThrows \<Rightarrow> Inl (BindError 500 ''INTERNAL'')
              | StoreHas (Some stored) \<Rightarrow>
                  if sk_permanentKeyId stored = None
                  then let storedCandidate = akSetup (bc_crypto bc) (Some (sk_key stored)) newAuthKey
                       in Inr (if akMatch permanentId storedCandidate then Some storedCandidate else None)
                  else Inr None
              | StoreHas None \<Rightarrow> Inr None)"

text \<open>The end of a successful call: the layer declared with it is published.\<close>

definition bindFinish :: "rat \<Rightarrow> int option \<Rightarrow> 'u msgSession \<Rightarrow> bindResult \<times> 'u msgSession" where
  "bindFinish now apiLayer s =
     (case apiLayer of
        None \<Rightarrow> (BindTrue, s)
      | Some l \<Rightarrow> (case setApiLayer now (Some l) True s of
                     (True, s1) \<Rightarrow> (BindTrue, s1)
                   | (False, s1) \<Rightarrow> (BindThrows, s1)))"

text \<open>A candidate from the store is installed when the store still has it. The session's own key
  is the candidate exactly when it matches the request.\<close>

definition bindInstall :: "rat \<Rightarrow> bindCrypto \<Rightarrow> bindEnv \<Rightarrow> serverAuthKey \<Rightarrow> int option \<Rightarrow> 'u msgSession
    \<Rightarrow> bindResult \<times> 'u msgSession" where
  "bindInstall now bc env candidate apiLayer s =
     (case be_revalidated env of
        StoreThrows \<Rightarrow> (BindThrows, s)
      | StoreHas (Some r) \<Rightarrow>
          if sk_permanentKeyId r \<noteq> None \<or> sk_key r \<noteq> ak_key candidate
          then (BindError 401 ''AUTH_KEY_UNREGISTERED'', s\<lparr>sm_closed := True\<rparr>)
          else let s1 = s\<lparr>sm_permKey := akSetup (bc_crypto bc) (Some (sk_key r)) (sm_permKey s)\<rparr>
               in (case sk_apiLayer r of
                     None \<Rightarrow> bindFinish now apiLayer s1
                   | Some l \<Rightarrow> (case setApiLayer now (Some l) False s1 of
                                  (True, s2) \<Rightarrow> bindFinish now apiLayer s2
                                | (False, s2) \<Rightarrow> (BindThrows, s2)))
      | StoreHas None \<Rightarrow> (BindError 401 ''AUTH_KEY_UNREGISTERED'', s\<lparr>sm_closed := True\<rparr>))"

definition handleBindTempAuthKey ::
  "rat \<Rightarrow> bindCrypto \<Rightarrow> bindEnv \<Rightarrow> bindRequest \<Rightarrow> int option \<Rightarrow> 'u msgSession \<Rightarrow> 'u bindOutcome" where
  "handleBindTempAuthKey now bc env req apiLayer s =
     (case bindCandidate bc env req s of
        Inl answer \<Rightarrow> (answer, s, [])
      | Inr None \<Rightarrow> (BindError 400 ''ENCRYPTED_MESSAGE_INVALID'', s, [])
      | Inr (Some candidate) \<Rightarrow>
          if \<not> verifyBindInner bc \<lfloor>now\<rfloor> req (sm_tempKey s) candidate
          then (BindError 400 ''ENCRYPTED_MESSAGE_INVALID'', s, [])
          else let temp = (case sm_tempKey s of Some t \<Rightarrow> t | None \<Rightarrow> newAuthKey)
               in if be_saveThrows env then (BindError 500 ''INTERNAL'', s, [])
                  else let saved = [(ak_id temp, \<lparr>sk_key = ak_key temp, sk_permanentKeyId = Some (ak_id candidate),
                                                 sk_expiresAt = Some (br_expiresAt req), sk_apiLayer = None\<rparr>)];
                           (answer, s1) =
                             (if akMatch (longToBytesLE (br_permAuthKeyId req)) (sm_permKey s)
                              then bindFinish now apiLayer s
                              else bindInstall now bc env candidate apiLayer s)
                       in (answer, s1, saved))"

section \<open>What a successful verification means\<close>

text \<open>The request carries a message sealed with the permanent key \<open>perm\<close> that names the temporary
  key \<open>temp\<close>, the permanent key, the nonce and an expiry in the future.\<close>

definition bindProof :: "bindCrypto \<Rightarrow> int \<Rightarrow> bindRequest \<Rightarrow> serverAuthKey \<Rightarrow> serverAuthKey \<Rightarrow> bool" where
  "bindProof bc nowSeconds req temp perm \<longleftrightarrow>
     (\<exists>dec bind.
        take 8 (br_encryptedMessage req) = ak_id perm
        \<and> bc_igeOld bc (ak_key perm) (subarray 8 24 (br_encryptedMessage req)) (drop 24 (br_encryptedMessage req)) = Some dec
        \<and> 32 + unat (uintAt 28 dec) \<le> length dec
        \<and> subarray 8 24 (br_encryptedMessage req)
            = subarray 4 20 (mc_sha1 (bc_crypto bc) (take (32 + unat (uintAt 28 dec)) dec))
        \<and> bc_readObject bc (drop 32 dec) = Some (BindAuthKeyInner bind)
        \<and> longToBytesLE (bi_tempAuthKeyId bind) = ak_id temp
        \<and> longToBytesLE (bi_permAuthKeyId bind) = ak_id perm
        \<and> bi_nonce bind = br_nonce req \<and> bi_expiresAt bind = br_expiresAt req
        \<and> nowSeconds < br_expiresAt req)"

lemma verifyBindInner_proof:
  assumes "verifyBindInner bc nowSeconds req tempKey perm"
  obtains temp where "tempKey = Some temp" and "ak_ready temp" and "ak_ready perm" and "bindProof bc nowSeconds req temp perm"
proof -
  obtain temp where temp: "tempKey = Some temp"
    using assms by (cases tempKey) (auto simp: verifyBindInner_def)
  let ?enc = "br_encryptedMessage req"
  obtain dec where dec: "bc_igeOld bc (ak_key perm) (subarray 8 24 ?enc) (drop 24 ?enc) = Some dec"
    using assms by (auto simp: verifyBindInner_def Let_def temp split: if_splits option.splits)
  obtain bind where bind: "bc_readObject bc (drop 32 dec) = Some (BindAuthKeyInner bind)"
    using assms by (auto simp: verifyBindInner_def Let_def temp dec split: if_splits option.splits tlInner.splits)
  note checks = assms [unfolded verifyBindInner_def Let_def temp option.case dec bind tlInner.case]
  have "ak_ready temp" "ak_ready perm" using checks by (auto split: if_splits)
  moreover have "bindProof bc nowSeconds req temp perm"
    unfolding bindProof_def
    by (rule exI [of _ dec], rule exI [of _ bind])
      (use checks dec bind in \<open>simp add: subarray_def split: if_splits\<close>)
  ultimately show thesis using temp that by blast
qed

lemma setApiLayer_returns:
  assumes "canSend s" and "upd_inv s"
  obtains s1 where "setApiLayer now layer publish s = (True, s1)" and "keySame s s1"
  using setApiLayer_inv [OF assms, of now layer publish] by (metis prod.collapse)

lemma bindFinish_true:
  assumes "canSend s" and "upd_inv s"
  shows "fst (bindFinish now apiLayer s) = BindTrue" and "keySame s (snd (bindFinish now apiLayer s))"
proof -
  have "fst (bindFinish now apiLayer s) = BindTrue \<and> keySame s (snd (bindFinish now apiLayer s))"
  proof (cases apiLayer)
    case (Some l)
    obtain s1 where "setApiLayer now (Some l) True s = (True, s1)" "keySame s s1"
      by (rule setApiLayer_returns [OF assms, where now = now and layer = "Some l" and publish = True])
    then show ?thesis by (simp add: bindFinish_def Some)
  qed (simp add: bindFinish_def)
  then show "fst (bindFinish now apiLayer s) = BindTrue" "keySame s (snd (bindFinish now apiLayer s))" by auto
qed

lemma akSetup_id: "ak_id (akSetup mc (Some key) a) = ak_id (akSetup mc (Some key) b)"
  by (simp add: akSetup_def Let_def)

lemma akSetup_key: "ak_key (akSetup mc (Some key) a) = key" "ak_ready (akSetup mc (Some key) a)"
  by (simp_all add: akSetup_def Let_def)

text \<open>Installing succeeds with the candidate's key, or leaves identity and layer as they were.\<close>

lemma bindInstall_cases:
  assumes "canSend s" and "upd_inv s"
  obtains (installed) k s1 where "bindInstall now bc env candidate apiLayer s = (BindTrue, s1)"
      and "be_revalidated env = StoreHas (Some k)" and "sk_permanentKeyId k = None" and "sk_key k = ak_key candidate"
      and "sm_permKey s1 = akSetup (bc_crypto bc) (Some (ak_key candidate)) (sm_permKey s)"
      and "sm_tempKey s1 = sm_tempKey s"
  | (refused) answer s1 where "bindInstall now bc env candidate apiLayer s = (answer, s1)" and "answer \<noteq> BindTrue"
      and "s1 = s \<or> s1 = s\<lparr>sm_closed := True\<rparr>"
proof (cases "\<exists>k. be_revalidated env = StoreHas (Some k) \<and> sk_permanentKeyId k = None \<and> sk_key k = ak_key candidate")
  case False
  have "\<exists>answer s1. bindInstall now bc env candidate apiLayer s = (answer, s1) \<and> answer \<noteq> BindTrue
      \<and> (s1 = s \<or> s1 = s\<lparr>sm_closed := True\<rparr>)"
  proof (cases "be_revalidated env")
    case StoreThrows
    then show ?thesis by (simp add: bindInstall_def)
  next
    case (StoreHas found)
    show ?thesis
    proof (cases found)
      case None
      then show ?thesis by (simp add: bindInstall_def StoreHas)
    next
      case (Some k)
      have "sk_permanentKeyId k \<noteq> None \<or> sk_key k \<noteq> ak_key candidate"
        using False StoreHas Some by auto
      then show ?thesis by (simp add: bindInstall_def StoreHas Some)
    qed
  qed
  then show ?thesis using refused by blast
next
  case True
  then obtain k where k: "be_revalidated env = StoreHas (Some k)" "sk_permanentKeyId k = None" "sk_key k = ak_key candidate"
    by blast
  define s1 where "s1 = s\<lparr>sm_permKey := akSetup (bc_crypto bc) (Some (ak_key candidate)) (sm_permKey s)\<rparr>"
  have s1: "canSend s1" "upd_inv s1"
  proof -
    show "canSend s1" by (cases "sm_tempKey s") (simp_all add: s1_def canSend_def sendKey_def akSetup_key)
    show "upd_inv s1" using assms(2) by (simp add: s1_def upd_inv_def updatesSent_def)
  qed
  define s2 where "s2 = (case sk_apiLayer k of None \<Rightarrow> s1 | Some l \<Rightarrow> snd (setApiLayer now (Some l) False s1))"
  have s2: "canSend s2" "upd_inv s2" "keySame s1 s2"
    using s1 setApiLayer_inv [OF s1, of now _ False] canSend_same
    by (auto simp: s2_def split: option.splits)
  have "bindInstall now bc env candidate apiLayer s = bindFinish now apiLayer s2"
  proof (cases "sk_apiLayer k")
    case None
    then show ?thesis using k by (simp add: bindInstall_def s1_def [symmetric] s2_def Let_def)
  next
    case (Some l)
    obtain t where "setApiLayer now (Some l) False s1 = (True, t)"
      by (rule setApiLayer_returns [OF s1, where now = now and layer = "Some l" and publish = False])
    then show ?thesis using k Some by (simp add: bindInstall_def s1_def [symmetric] s2_def Let_def)
  qed
  moreover have "fst (bindFinish now apiLayer s2) = BindTrue" "keySame s2 (snd (bindFinish now apiLayer s2))"
    by (rule bindFinish_true [OF s2(1,2)])+
  ultimately show ?thesis
    using installed [of "snd (bindFinish now apiLayer s2)" k] k s2(3) by (simp add: prod_eq_iff keySame_def s1_def)
qed

section \<open>Who gets the identity\<close>

lemma bindCandidate_matches:
  assumes "bindCandidate bc env req s = Inr (Some candidate)"
  shows "ak_ready candidate \<and> ak_id candidate = longToBytesLE (br_permAuthKeyId req)"
  using assms
  by (auto simp: bindCandidate_def Let_def akMatch_def split: if_splits storeAnswer.splits option.splits)

lemma bindCandidate_stored:
  assumes "bindCandidate bc env req s = Inr (Some candidate)"
    and "\<not> akMatch (longToBytesLE (br_permAuthKeyId req)) (sm_permKey s)"
  obtains key where "candidate = akSetup (bc_crypto bc) (Some key) newAuthKey"
  using assms
  by (auto simp: bindCandidate_def Let_def split: if_splits storeAnswer.splits option.splits)

definition bindRecord :: "bindRequest \<Rightarrow> serverAuthKey \<Rightarrow> serverAuthKey \<Rightarrow> bytes \<times> storedAuthKey" where
  "bindRecord req temp perm =
     (ak_id temp, \<lparr>sk_key = ak_key temp, sk_permanentKeyId = Some (ak_id perm),
                   sk_expiresAt = Some (br_expiresAt req), sk_apiLayer = None\<rparr>)"

lemma bind_outcomes:
  assumes run: "handleBindTempAuthKey now bc env req apiLayer s = (answer, s', saved)"
    and ready: "canSend s" "upd_inv s"
  obtains (failed) "answer \<noteq> BindTrue" and "s' = s \<or> s' = s\<lparr>sm_closed := True\<rparr>"
  | (bound) temp perm where "answer = BindTrue" and "sm_tempKey s = Some temp" and "bindProof bc \<lfloor>now\<rfloor> req temp perm"
      and "ak_id perm = longToBytesLE (br_permAuthKeyId req)" and "sm_tempKey s' = Some temp"
      and "ak_ready (sm_permKey s')" and "ak_id (sm_permKey s') = ak_id perm" and "ak_key (sm_permKey s') = ak_key perm"
      and "saved = [bindRecord req temp perm]"
proof (cases "\<exists>candidate. bindCandidate bc env req s = Inr (Some candidate)
    \<and> verifyBindInner bc \<lfloor>now\<rfloor> req (sm_tempKey s) candidate \<and> \<not> be_saveThrows env")
  case False
  have "answer \<noteq> BindTrue \<and> s' = s"
  proof (cases "bindCandidate bc env req s")
    case (Inl a)
    then have "a \<noteq> BindTrue"
      by (auto simp: bindCandidate_def Let_def split: if_splits storeAnswer.splits option.splits)
    then show ?thesis using run Inl by (auto simp: handleBindTempAuthKey_def)
  next
    case (Inr found)
    then show ?thesis
      using run False by (cases found) (auto simp: handleBindTempAuthKey_def Let_def split: if_splits)
  qed
  then show ?thesis using failed by blast
next
  case True
  then obtain perm where perm: "bindCandidate bc env req s = Inr (Some perm)"
    "verifyBindInner bc \<lfloor>now\<rfloor> req (sm_tempKey s) perm" "\<not> be_saveThrows env" by blast
  obtain temp where temp: "sm_tempKey s = Some temp" and proof': "bindProof bc \<lfloor>now\<rfloor> req temp perm"
    by (rule verifyBindInner_proof [OF perm(2)])
  have id: "ak_ready perm" "ak_id perm = longToBytesLE (br_permAuthKeyId req)"
    using bindCandidate_matches [OF perm(1)] by auto
  define outcome where "outcome = (if akMatch (longToBytesLE (br_permAuthKeyId req)) (sm_permKey s)
      then bindFinish now apiLayer s else bindInstall now bc env perm apiLayer s)"
  have run': "outcome = (answer, s')" "saved = [bindRecord req temp perm]"
    using run perm temp
    by (simp_all add: handleBindTempAuthKey_def Let_def outcome_def [symmetric] bindRecord_def split: prod.splits)
  show ?thesis
  proof (cases "akMatch (longToBytesLE (br_permAuthKeyId req)) (sm_permKey s)")
    case True
    then have own: "perm = sm_permKey s" using perm(1) by (simp add: bindCandidate_def)
    have "answer = BindTrue" "keySame s s'"
      using bindFinish_true [OF ready, of now apiLayer] run' True by (simp_all add: outcome_def)
    then show ?thesis
      using bound [OF _ temp proof' id(2)] temp id own run'(2) by (simp add: keySame_def)
  next
    case False
    then obtain key where key: "perm = akSetup (bc_crypto bc) (Some key) newAuthKey"
      using bindCandidate_stored [OF perm(1)] by blast
    have install: "bindInstall now bc env perm apiLayer s = (answer, s')" using False run' by (simp add: outcome_def)
    show ?thesis
    proof (rule bindInstall_cases [OF ready, of now bc env perm apiLayer])
      fix k s1
      assume "bindInstall now bc env perm apiLayer s = (BindTrue, s1)"
        and "sm_permKey s1 = akSetup (bc_crypto bc) (Some (ak_key perm)) (sm_permKey s)" "sm_tempKey s1 = sm_tempKey s"
      then show thesis
        using bound [OF _ temp proof' id(2)] install temp run'(2) key
        by (simp add: akSetup_key akSetup_id [of _ _ "sm_permKey s" newAuthKey])
    next
      fix a s1
      assume "bindInstall now bc env perm apiLayer s = (a, s1)" "a \<noteq> BindTrue" "s1 = s \<or> s1 = s\<lparr>sm_closed := True\<rparr>"
      then show thesis using failed install by simp
    qed
  qed
qed

lemma bind_is_verified_parts:
  assumes "msgReach s" and "handleBindTempAuthKey now bc env req apiLayer s = (answer, s', saved)"
  shows "answer \<noteq> BindTrue \<or>
      (\<exists>temp perm. sm_tempKey s = Some temp \<and> bindProof bc \<lfloor>now\<rfloor> req temp perm
         \<and> ak_id perm = longToBytesLE (br_permAuthKeyId req) \<and> sm_tempKey s' = Some temp
         \<and> ak_ready (sm_permKey s') \<and> ak_id (sm_permKey s') = ak_id perm \<and> ak_key (sm_permKey s') = ak_key perm
         \<and> saved = [bindRecord req temp perm])"
    and "answer = BindTrue \<or> s' = s \<or> s' = s\<lparr>sm_closed := True\<rparr>"
proof -
  have ready: "canSend s" "upd_inv s" using msgReach_inv [OF assms(1)] by (auto simp: sess_inv_def)
  show "answer \<noteq> BindTrue \<or>
      (\<exists>temp perm. sm_tempKey s = Some temp \<and> bindProof bc \<lfloor>now\<rfloor> req temp perm
         \<and> ak_id perm = longToBytesLE (br_permAuthKeyId req) \<and> sm_tempKey s' = Some temp
         \<and> ak_ready (sm_permKey s') \<and> ak_id (sm_permKey s') = ak_id perm \<and> ak_key (sm_permKey s') = ak_key perm
         \<and> saved = [bindRecord req temp perm])"
    by (rule bind_outcomes [OF assms(2) ready]) blast+
  show "answer = BindTrue \<or> s' = s \<or> s' = s\<lparr>sm_closed := True\<rparr>"
    by (rule bind_outcomes [OF assms(2) ready]) blast+
qed


definition demoKey :: serverAuthKey where
  "demoKey = akSetup plainCrypto (Some [1, 2, 3]) newAuthKey"

definition demoSession :: "nat msgSession" where
  "demoSession = newMsgSession\<lparr>sm_permKey := demoKey, sm_tempKey := Some demoKey, sm_authorized := True\<rparr>"

definition demoId :: Long where
  "demoId = longAt 0 (replicate 8 7)"

definition demoCrypto :: bindCrypto where
  "demoCrypto = \<lparr>bc_crypto = plainCrypto, bc_igeOld = (\<lambda>_ _ d. Some d),
     bc_readObject = (\<lambda>_. Some (BindAuthKeyInner \<lparr>bi_nonce = 1, bi_tempAuthKeyId = demoId,
        bi_permAuthKeyId = demoId, bi_expiresAt = 200\<rparr>))\<rparr>"

definition demoRequest :: bindRequest where
  "demoRequest = \<lparr>br_permAuthKeyId = demoId, br_nonce = 1, br_expiresAt = 200,
     br_encryptedMessage = replicate 24 7 @ replicate 32 0\<rparr>"

lemma demo_run:
  "handleBindTempAuthKey 100 demoCrypto \<lparr>be_loaded = StoreThrows, be_saveThrows = False, be_revalidated = StoreThrows\<rparr>
     demoRequest None demoSession
   = (BindTrue, demoSession, [bindRecord demoRequest demoKey demoKey])"
proof -
  have key: "ak_ready demoKey" "ak_id demoKey = replicate 8 7" "longToBytesLE demoId = replicate 8 7"
    by (simp_all add: demoKey_def akSetup_def Let_def plainCrypto_def demoId_def longToBytesLE_read)
  have match: "akMatch (longToBytesLE (br_permAuthKeyId demoRequest)) (sm_permKey demoSession)"
    by (simp add: akMatch_def demoSession_def demoRequest_def key)
  have enc: "take 8 (replicate 24 (7 :: byte) @ replicate 32 0) = replicate 8 7"
    "drop 24 (replicate 24 (7 :: byte) @ replicate 32 0) = replicate 32 0" by simp_all
  have "verifyBindInner demoCrypto 100 demoRequest (Some demoKey) demoKey"
    unfolding verifyBindInner_def
    by (simp add: demoRequest_def demoCrypto_def key subarray_def enc uintAt_def plainCrypto_def Let_def)
  then show ?thesis
    using match
    by (simp add: handleBindTempAuthKey_def bindCandidate_def bindFinish_def bindRecord_def Let_def)
      (simp add: demoSession_def)
qed


text \<open>A store that fails while the candidate is checked again makes the call throw after the binding
  was saved: the client gets no answer, where every other failure of the store is answered.\<close>

lemma revalidation_failure_throws:
  assumes "bindCandidate bc env req s = Inr (Some candidate)" and "verifyBindInner bc \<lfloor>now\<rfloor> req (sm_tempKey s) candidate"
    and "\<not> be_saveThrows env" and "\<not> akMatch (longToBytesLE (br_permAuthKeyId req)) (sm_permKey s)"
    and "be_revalidated env = StoreThrows"
  shows "\<exists>saved. handleBindTempAuthKey now bc env req apiLayer s = (BindThrows, s, saved) \<and> saved \<noteq> []"
  using assms by (simp add: handleBindTempAuthKey_def bindInstall_def Let_def)

end
