(* ===== verification/Rpc_Registry_Safety.thy ===== *)
theory Rpc_Registry_Safety
  imports Rpc_Registry "HOL-Library.Multiset"
begin

text \<open>
  The registry under every interleaving of its operations and of the callbacks of the calls it
  started. The invariant \<open>registry_ok\<close> ties the counters to the set of outstanding calls and
  the byte counter to the cached answers; it is proved part by part, first for the replay
  cache (\<open>cache_ok\<close>), then for the calls.
\<close>

section \<open>The replay cache\<close>

definition entryBytes :: "replayEntry \<Rightarrow> nat" where
  "entryBytes e = (if re_completedAt e \<noteq> None then re_bytes e else 0)"

definition cachedBytes :: "(string, replayEntry) jsmap \<Rightarrow> nat" where
  "cachedBytes m = sum_list (map (entryBytes \<circ> snd) m)"

lemma cachedBytes_simps [simp]:
  "cachedBytes [] = 0" "cachedBytes (ke # m) = entryBytes (snd ke) + cachedBytes m"
  "cachedBytes (m @ m') = cachedBytes m + cachedBytes m'"
  by (simp_all add: cachedBytes_def)

lemma cachedBytes_delete:
  "js_inv m \<Longrightarrow> js_get m k = Some e \<Longrightarrow> cachedBytes m = entryBytes e + cachedBytes (js_delete k m)"
proof (induction m)
  case (Cons ke m)
  then show ?case
    by (cases ke) (auto simp: js_inv_Cons split: if_splits)
qed simp

lemma cachedBytes_delete_pending:
  "js_inv m \<Longrightarrow> js_get m k = Some e \<Longrightarrow> re_completedAt e = None \<Longrightarrow>
   cachedBytes (js_delete k m) = cachedBytes m"
  by (simp add: cachedBytes_delete entryBytes_def)

lemma cachedBytes_touch:
  "js_inv m \<Longrightarrow> js_get m k = Some e \<Longrightarrow> cachedBytes (js_set k e' (js_delete k m)) + entryBytes e
     = cachedBytes m + entryBytes e'"
  by (simp add: cachedBytes_delete js_touch_eq flip: delete_eq_filter)

definition bytes_ok :: "registry \<Rightarrow> bool" where
  "bytes_ok r \<longleftrightarrow> js_inv (rg_replays r) \<and> rg_replayBytes r = int (cachedBytes (rg_replays r))"

text \<open>\<open>covers_expiry t c\<close>: the stored expiry is early enough for an entry completed at \<open>c\<close>.\<close>

definition covers_expiry :: "int option \<Rightarrow> int \<Rightarrow> bool" where
  "covers_expiry expiry c \<longleftrightarrow> (\<exists>t. expiry = Some t \<and> t \<le> c + RPC_REPLAY_TTL_MS + 1)"

definition expiry_ok :: "registry \<Rightarrow> bool" where
  "expiry_ok r \<longleftrightarrow> (\<forall>ke \<in> set (rg_replays r). \<forall>c. re_completedAt (snd ke) = Some c \<longrightarrow>
     covers_expiry (rg_nextReplayExpiry r) c)"

lemma covers_expiry_min [simp, intro]:
  "covers_expiry (minExpiry x (c + RPC_REPLAY_TTL_MS + 1)) c"
  "covers_expiry x c \<Longrightarrow> covers_expiry (minExpiry x t) c"
  by (auto simp: covers_expiry_def minExpiry_def split: option.splits)

text \<open>Entries still being computed, which no pruning may drop.\<close>

definition pendingOf :: "registry \<Rightarrow> (string \<times> replayEntry) list" where
  "pendingOf r = filter (\<lambda>ke. re_completedAt (snd ke) = None) (rg_replays r)"

lemma deleteReplay_present:
  assumes "bytes_ok r" and "(k, e) \<in> set (rg_replays r)"
  shows "rg_replays (deleteReplay k e r) = js_delete k (rg_replays r)"
    and "bytes_ok (deleteReplay k e r)"
proof -
  from assms have get: "js_get (rg_replays r) k = Some e"
    by (simp add: bytes_ok_def js_inv_def)
  then show *: "rg_replays (deleteReplay k e r) = js_delete k (rg_replays r)"
    by (simp add: deleteReplay_def)
  have "rg_replayBytes (deleteReplay k e r) = rg_replayBytes r - int (entryBytes e)"
    using get by (simp add: deleteReplay_def entryBytes_def)
  with * get assms(1) show "bytes_ok (deleteReplay k e r)"
    using cachedBytes_delete [of "rg_replays r" k e] by (auto simp: bytes_ok_def)
qed

lemma deleteReplay_frame [simp]:
  "rg_processing (deleteReplay k e r) = rg_processing r"
  "rg_completed (deleteReplay k e r) = rg_completed r"
  "rg_inFlightByAuth (deleteReplay k e r) = rg_inFlightByAuth r"
  "rg_inFlight (deleteReplay k e r) = rg_inFlight r"
  "rg_generation (deleteReplay k e r) = rg_generation r"
  "rg_nextReplayExpiry (deleteReplay k e r) = rg_nextReplayExpiry r"
  "rg_startedAtSeconds (deleteReplay k e r) = rg_startedAtSeconds r"
  by (simp_all add: deleteReplay_def)

lemma pruneEntry_frame [simp]:
  "rg_processing (pruneEntry now ke r) = rg_processing r"
  "rg_completed (pruneEntry now ke r) = rg_completed r"
  "rg_inFlightByAuth (pruneEntry now ke r) = rg_inFlightByAuth r"
  "rg_inFlight (pruneEntry now ke r) = rg_inFlight r"
  "rg_generation (pruneEntry now ke r) = rg_generation r"
  by (simp_all add: pruneEntry_def split: option.splits)

lemma fold_pruneEntry_frame:
  "rg_completed (fold (pruneEntry now) xs r) = rg_completed r"
  "rg_inFlightByAuth (fold (pruneEntry now) xs r) = rg_inFlightByAuth r"
  "rg_inFlight (fold (pruneEntry now) xs r) = rg_inFlight r"
  "rg_generation (fold (pruneEntry now) xs r) = rg_generation r"
  by (induction xs arbitrary: r) simp_all

lemma regPrune_frame [simp]:
  "rg_completed (regPrune now r) = rg_completed r"
  "rg_inFlightByAuth (regPrune now r) = rg_inFlightByAuth r"
  "rg_inFlight (regPrune now r) = rg_inFlight r"
  "rg_generation (regPrune now r) = rg_generation r"
  by (simp_all add: regPrune_def fold_pruneEntry_frame)

text \<open>One visit of the pruning loop: the entry \<open>ke\<close> is still in the map.\<close>

lemma pruneEntry_step:
  assumes "bytes_ok r" and "ke \<in> set (rg_replays r)"
  shows "bytes_ok (pruneEntry now ke r)"
    and "pendingOf (pruneEntry now ke r) = pendingOf r"
    and "set (rg_replays (pruneEntry now ke r)) \<subseteq> set (rg_replays r)"
    and "set (rg_replays r) - {ke} \<subseteq> set (rg_replays (pruneEntry now ke r))"
proof -
  obtain k e where ke: "ke = (k, e)" by (cases ke)
  have present: "(k, e) \<in> set (rg_replays r)" and inv: "js_inv (rg_replays r)"
    using assms ke by (simp_all add: bytes_ok_def)
  note del = deleteReplay_present [OF assms(1) present]
  have uniq: "x = ke" if "x \<in> set (rg_replays r)" "fst x = k" for x
    using that present inv ke eq_key_imp_eq_value [of "rg_replays r" k e "snd x"]
    by (cases x) (auto simp: js_inv_def)
  show "bytes_ok (pruneEntry now ke r)"
    using assms(1) del(2) ke by (auto simp: pruneEntry_def bytes_ok_def split: option.splits)
  show "set (rg_replays (pruneEntry now ke r)) \<subseteq> set (rg_replays r)"
    using del(1) ke by (auto simp: pruneEntry_def delete_eq_filter split: option.splits)
  show "set (rg_replays r) - {ke} \<subseteq> set (rg_replays (pruneEntry now ke r))"
    using del(1) ke uniq by (auto simp: pruneEntry_def delete_eq_filter split: option.splits)
  show "pendingOf (pruneEntry now ke r) = pendingOf r"
  proof (cases "re_completedAt e")
    case None
    with ke show ?thesis by (simp add: pruneEntry_def)
  next
    case (Some c)
    have "filter (\<lambda>x. re_completedAt (snd x) = None) (js_delete k (rg_replays r)) = pendingOf r"
      unfolding delete_eq_filter filter_filter pendingOf_def
      using uniq ke Some by (intro filter_cong) auto
    with Some ke del(1) show ?thesis by (simp add: pruneEntry_def pendingOf_def)
  qed
qed

lemma pruneEntry_shrinks:
  "length (rg_replays (pruneEntry now ke r)) \<le> length (rg_replays r)
   \<and> rg_replayBytes (pruneEntry now ke r) \<le> rg_replayBytes r"
  by (auto simp: pruneEntry_def deleteReplay_def length_delete_le split: option.splits)

lemma fold_pruneEntry_caps: "withinReplayCaps r \<Longrightarrow> withinReplayCaps (fold (pruneEntry now) xs r)"
proof (induction xs arbitrary: r)
  case (Cons x xs)
  have "withinReplayCaps (pruneEntry now x r)"
    using Cons.prems pruneEntry_shrinks [of now x r] by (auto simp: withinReplayCaps_def)
  then show ?case by (simp add: Cons.IH)
qed simp

text \<open>
  The whole loop. Of an entry that survives, either it is pending, or it is young enough and the
  stored expiry covers it; if the caps still do not hold at the end, only pending entries are left.
\<close>

definition kept_ok :: "int \<Rightarrow> registry \<Rightarrow> string \<times> replayEntry \<Rightarrow> bool" where
  "kept_ok now r ke \<longleftrightarrow> (\<forall>c. re_completedAt (snd ke) = Some c \<longrightarrow>
     now - c \<le> RPC_REPLAY_TTL_MS \<and> covers_expiry (rg_nextReplayExpiry r) c)"

lemma pruneEntry_kept_mono: "kept_ok now r x \<Longrightarrow> kept_ok now (pruneEntry now ke r) x"
  by (auto simp: kept_ok_def pruneEntry_def split: option.splits)

lemma pruneEntry_visited:
  assumes "bytes_ok r" and "ke \<in> set (rg_replays r)" and "x = ke"
    and "x \<in> set (rg_replays (pruneEntry now ke r))"
  shows "kept_ok now (pruneEntry now ke r) x
         \<and> (\<not> withinReplayCaps r \<longrightarrow> re_completedAt (snd x) = None)"
proof (cases "re_completedAt (snd ke)")
  case None
  with assms(3) show ?thesis by (simp add: kept_ok_def)
next
  case (Some c)
  have "now - c \<le> RPC_REPLAY_TTL_MS \<and> withinReplayCaps r"
  proof (rule ccontr)
    assume "\<not> ?thesis"
    then have "rg_replays (pruneEntry now ke r) = js_delete (fst ke) (rg_replays r)"
      using Some deleteReplay_present(1) [OF assms(1), of "fst ke" "snd ke"] assms(2)
      by (auto simp: pruneEntry_def)
    with assms(3,4) show False by (auto simp: delete_eq_filter)
  qed
  with Some assms(3) show ?thesis by (auto simp: kept_ok_def pruneEntry_def)
qed

lemma fold_pruneEntry:
  assumes "bytes_ok r" and "set xs \<subseteq> set (rg_replays r)" and "distinct xs"
    and "\<forall>x \<in> set (rg_replays r) - set xs. kept_ok now r x
           \<and> (\<not> withinReplayCaps r \<longrightarrow> re_completedAt (snd x) = None)"
  defines "r' \<equiv> fold (pruneEntry now) xs r"
  shows "bytes_ok r' \<and> pendingOf r' = pendingOf r \<and> set (rg_replays r') \<subseteq> set (rg_replays r)
    \<and> (\<forall>x \<in> set (rg_replays r'). kept_ok now r' x
         \<and> (\<not> withinReplayCaps r' \<longrightarrow> re_completedAt (snd x) = None))"
  using assms(1-4) unfolding r'_def
proof (induction xs arbitrary: r)
  case Nil
  then show ?case by simp
next
  case (Cons ke xs)
  let ?r = "pruneEntry now ke r"
  have ke: "ke \<in> set (rg_replays r)" using Cons.prems(2) by simp
  note step = pruneEntry_step [OF Cons.prems(1) ke, of now]
  have mono: "\<not> withinReplayCaps ?r \<Longrightarrow> \<not> withinReplayCaps r"
    using fold_pruneEntry_caps [of r now "[ke]"] by auto
  have "\<forall>x \<in> set (rg_replays ?r) - set xs. kept_ok now ?r x
           \<and> (\<not> withinReplayCaps ?r \<longrightarrow> re_completedAt (snd x) = None)"
  proof
    fix x assume x: "x \<in> set (rg_replays ?r) - set xs"
    show "kept_ok now ?r x \<and> (\<not> withinReplayCaps ?r \<longrightarrow> re_completedAt (snd x) = None)"
    proof (cases "x = ke")
      case True
      have "x \<in> set (rg_replays ?r)" using x by simp
      from pruneEntry_visited [OF Cons.prems(1) ke True this] mono show ?thesis by blast
    next
      case False
      have "x \<in> set (rg_replays r)" using x step(3) by auto
      then have "x \<in> set (rg_replays r) - set (ke # xs)" using x False by simp
      from bspec [OF Cons.prems(4) this]
      have kept: "kept_ok now r x"
        and "\<not> withinReplayCaps r \<longrightarrow> re_completedAt (snd x) = None" by (rule conjunct1, rule conjunct2)
      with mono show ?thesis using pruneEntry_kept_mono [OF kept] by blast
    qed
  qed
  moreover have "set xs \<subseteq> set (rg_replays ?r)" using Cons.prems(2,3) step(4) by auto
  ultimately show ?case using Cons.IH [of ?r] Cons.prems(3) step by auto
qed

lemma regPrune_ok:
  assumes "bytes_ok r" and "expiry_ok r"
  shows "bytes_ok (regPrune now r)" and "expiry_ok (regPrune now r)"
    and "pendingOf (regPrune now r) = pendingOf r"
    and "set (rg_replays (regPrune now r)) \<subseteq> set (rg_replays r)"
    and "\<forall>ke \<in> set (rg_replays (regPrune now r)). \<forall>c. re_completedAt (snd ke) = Some c \<longrightarrow>
           now - c \<le> RPC_REPLAY_TTL_MS"
    and "withinReplayCaps (regPrune now r)
           \<or> (\<forall>ke \<in> set (rg_replays (regPrune now r)). re_completedAt (snd ke) = None)"
proof -
  let ?keep = "beforeExpiry now (rg_nextReplayExpiry r) \<and> withinReplayCaps r"
  let ?r = "r\<lparr>rg_nextReplayExpiry := None\<rparr>"
  have full: "bytes_ok (regPrune now r) \<and> pendingOf (regPrune now r) = pendingOf r
    \<and> set (rg_replays (regPrune now r)) \<subseteq> set (rg_replays r)
    \<and> (\<forall>x \<in> set (rg_replays (regPrune now r)). kept_ok now (regPrune now r) x
         \<and> (\<not> withinReplayCaps (regPrune now r) \<longrightarrow> re_completedAt (snd x) = None))"
  proof (cases ?keep)
    case True
    have "kept_ok now r x" if "x \<in> set (rg_replays r)" for x
      using that assms(2) True
      by (fastforce simp: kept_ok_def expiry_ok_def covers_expiry_def beforeExpiry_def)
    with True assms(1) show ?thesis by (simp add: regPrune_def)
  next
    case False
    have "distinct (rg_replays r)"
      using assms(1) by (simp add: bytes_ok_def js_inv_def distinct_map)
    moreover have "bytes_ok ?r" and "pendingOf ?r = pendingOf r" and "rg_replays ?r = rg_replays r"
      using assms(1) by (simp_all add: bytes_ok_def pendingOf_def)
    moreover have "regPrune now r = fold (pruneEntry now) (rg_replays r) ?r"
      using False by (simp only: regPrune_def if_False)
    ultimately show ?thesis using fold_pruneEntry [of ?r "rg_replays r" now] by simp
  qed
  then show "bytes_ok (regPrune now r)" "pendingOf (regPrune now r) = pendingOf r"
    "set (rg_replays (regPrune now r)) \<subseteq> set (rg_replays r)" by blast+
  from full show "expiry_ok (regPrune now r)" by (simp add: expiry_ok_def kept_ok_def)
  from full show "\<forall>ke \<in> set (rg_replays (regPrune now r)). \<forall>c. re_completedAt (snd ke) = Some c \<longrightarrow>
           now - c \<le> RPC_REPLAY_TTL_MS" by (simp add: kept_ok_def)
  from full show "withinReplayCaps (regPrune now r)
           \<or> (\<forall>ke \<in> set (rg_replays (regPrune now r)). re_completedAt (snd ke) = None)" by blast
qed

text \<open>With at most \<open>MAX_SHARED_RPC_INFLIGHT\<close> pending entries both caps hold after every pruning.\<close>

lemma regPrune_caps:
  assumes "bytes_ok r" and "expiry_ok r" and "length (pendingOf r) \<le> 512"
  shows "withinReplayCaps (regPrune now r)"
proof (rule ccontr)
  assume "\<not> ?thesis"
  with regPrune_ok [OF assms(1,2), of now]
  have all: "\<forall>ke \<in> set (rg_replays (regPrune now r)). re_completedAt (snd ke) = None" by blast
  then have "rg_replays (regPrune now r) = pendingOf (regPrune now r)"
    by (simp add: pendingOf_def)
  then have "length (rg_replays (regPrune now r)) \<le> 512"
    using regPrune_ok(3) [OF assms(1,2)] assms(3) by simp
  moreover have "cachedBytes (rg_replays (regPrune now r)) = 0"
    using all by (simp add: cachedBytes_def entryBytes_def)
  ultimately have "withinReplayCaps (regPrune now r)"
    using regPrune_ok(1) [OF assms(1,2), of now]
    by (simp add: withinReplayCaps_def bytes_ok_def registry_limits)
  with \<open>\<not> ?thesis\<close> show False ..
qed


definition cache_ok :: "registry \<Rightarrow> bool" where
  "cache_ok r \<longleftrightarrow> bytes_ok r \<and> expiry_ok r"

lemma cache_ok_prune: "cache_ok r \<Longrightarrow> cache_ok (regPrune now r)"
  by (simp add: cache_ok_def regPrune_ok)

lemma pendingOf_touch:
  assumes "js_inv (rg_replays r)"
  shows "filter (\<lambda>ke. re_completedAt (snd ke) = None) (js_set k e (js_delete k (rg_replays r))) =
    filter (\<lambda>ke. fst ke \<noteq> k) (pendingOf r) @ (if re_completedAt e = None then [(k, e)] else [])"
  by (simp add: js_touch_eq pendingOf_def conj_commute)

lemma cache_ok_fulfil_body:
  fixes now :: int and n p :: nat
  assumes ok: "cache_ok r" and get: "js_get (rg_replays r) k = Some e" and pend: "re_completedAt e = None"
  defines "r' \<equiv> r\<lparr>rg_nextReplayExpiry := minExpiry (rg_nextReplayExpiry r) (now + RPC_REPLAY_TTL_MS + 1),
     rg_replayBytes := rg_replayBytes r + int n,
     rg_replays := js_set k \<lparr>re_promise = p, re_completedAt = Some now, re_bytes = n\<rparr> (js_delete k (rg_replays r))\<rparr>"
  shows "cache_ok r'" and "pendingOf r' = filter (\<lambda>ke. fst ke \<noteq> k) (pendingOf r)"
proof -
  let ?e = "\<lparr>re_promise = p, re_completedAt = Some now, re_bytes = n\<rparr>"
  have inv: "js_inv (rg_replays r)" using ok by (simp add: cache_ok_def bytes_ok_def)
  show "pendingOf r' = filter (\<lambda>ke. fst ke \<noteq> k) (pendingOf r)"
    using pendingOf_touch [OF inv, of k ?e] by (simp add: r'_def pendingOf_def)
  have "cachedBytes (js_set k ?e (js_delete k (rg_replays r))) = cachedBytes (rg_replays r) + n"
    using cachedBytes_touch [OF inv get, of ?e] pend by (simp add: entryBytes_def)
  moreover have "set (rg_replays r') \<subseteq> insert (k, ?e) (set (rg_replays r))"
    by (auto simp: r'_def js_touch_eq)
  ultimately show "cache_ok r'"
    using ok by (force simp: cache_ok_def bytes_ok_def expiry_ok_def r'_def)
qed

lemma cache_ok_touch:
  assumes ok: "cache_ok r" and get: "js_get (rg_replays r) k = Some e" and compl: "re_completedAt e \<noteq> None"
  defines "r' \<equiv> r\<lparr>rg_replays := js_set k e (js_delete k (rg_replays r))\<rparr>"
  shows "cache_ok r'" and "pendingOf r' = pendingOf r"
proof -
  have inv: "js_inv (rg_replays r)" using ok by (simp add: cache_ok_def bytes_ok_def)
  have mem: "(k, e) \<in> set (rg_replays r)" using get by (rule map_of_SomeD)
  have uniq: "x = (k, e)" if "x \<in> set (rg_replays r)" "fst x = k" for x
    using that mem inv eq_key_imp_eq_value [of "rg_replays r" k e "snd x"]
    by (cases x) (auto simp: js_inv_def)
  show "pendingOf r' = pendingOf r"
    using pendingOf_touch [OF inv, of k e] compl uniq
    by (auto simp: r'_def pendingOf_def intro!: filter_cong)
  have "set (rg_replays r') \<subseteq> set (rg_replays r)" using mem by (auto simp: r'_def js_touch_eq)
  then show "cache_ok r'"
    using ok cachedBytes_touch [OF inv get, of e]
    by (auto simp: cache_ok_def bytes_ok_def expiry_ok_def r'_def)
qed

lemma cache_ok_start:
  fixes i :: int and b :: "(string, int) jsmap"
  assumes ok: "cache_ok r" and get: "js_get (rg_replays r) k = None" and pend: "re_completedAt e = None"
  defines "r' \<equiv> r\<lparr>rg_inFlight := i, rg_inFlightByAuth := b, rg_replays := js_set k e (rg_replays r)\<rparr>"
  shows "cache_ok r'" and "pendingOf r' = pendingOf r @ [(k, e)]"
proof -
  have new: "js_set k e (rg_replays r) = rg_replays r @ [(k, e)]"
    using get by (intro js_set_new) (simp add: map_of_eq_None_iff)
  then show "pendingOf r' = pendingOf r @ [(k, e)]" using pend by (simp add: r'_def pendingOf_def)
  have "js_inv (js_set k e (rg_replays r))" using ok by (auto simp: cache_ok_def bytes_ok_def)
  with new show "cache_ok r'"
    using ok pend by (auto simp: cache_ok_def bytes_ok_def expiry_ok_def r'_def entryBytes_def)
qed

lemma cache_ok_reject_body:
  assumes ok: "cache_ok r" and get: "js_get (rg_replays r) k = Some e" and pend: "re_completedAt e = None"
  shows "cache_ok (deleteReplay k e r)"
    and "pendingOf (deleteReplay k e r) = filter (\<lambda>ke. fst ke \<noteq> k) (pendingOf r)"
proof -
  have bytes: "bytes_ok r" and mem: "(k, e) \<in> set (rg_replays r)"
    using ok get by (simp_all add: cache_ok_def map_of_SomeD)
  note del = deleteReplay_present [OF bytes mem]
  show "pendingOf (deleteReplay k e r) = filter (\<lambda>ke. fst ke \<noteq> k) (pendingOf r)"
    using del(1) by (simp add: pendingOf_def delete_eq_filter conj_commute)
  show "cache_ok (deleteReplay k e r)"
    using del ok by (auto simp: cache_ok_def expiry_ok_def delete_eq_filter)
qed


section \<open>The registry and its outstanding calls\<close>

text \<open>
  \<open>sys_running\<close>: calls whose promise is still pending; \<open>sys_settled\<close>: calls whose
  fulfilment or rejection callback has run and whose \<open>finally\<close> callback has not.
\<close>

record regSys =
  sys_reg :: registry
  sys_running :: "rpcCall list"
  sys_settled :: "rpcCall list"
  sys_next :: nat

inductive regStep :: "regSys \<Rightarrow> regSys \<Rightarrow> bool" where
  RegRegister: "regStep s (s\<lparr>sys_reg := regRegister a m p (sys_reg s)\<rparr>)"
| RegComplete: "regStep s (s\<lparr>sys_reg := regComplete a m p (sys_reg s)\<rparr>)"
| RegClear: "regStep s (s\<lparr>sys_reg := regClear (sys_reg s)\<rparr>)"
| RegPrune: "regStep s (s\<lparr>sys_reg := regPrune now (sys_reg s)\<rparr>)"
| RegAnswer: "regExecute now a m fp (sys_next s) (sys_reg s) = (out, r) \<Longrightarrow> \<forall>c. out \<noteq> Started c \<Longrightarrow>
    regStep s (s\<lparr>sys_reg := r\<rparr>)"
| RegStart: "regExecute now a m fp (sys_next s) (sys_reg s) = (Started c, r) \<Longrightarrow>
    regStep s (s\<lparr>sys_reg := r, sys_running := c # sys_running s, sys_next := Suc (sys_next s)\<rparr>)"
| RegFulfil: "c \<in> set (sys_running s) \<Longrightarrow>
    regStep s (s\<lparr>sys_reg := onFulfilled now reply c (sys_reg s),
      sys_running := remove1 c (sys_running s), sys_settled := c # sys_settled s\<rparr>)"
| RegReject: "c \<in> set (sys_running s) \<Longrightarrow>
    regStep s (s\<lparr>sys_reg := onRejected c (sys_reg s),
      sys_running := remove1 c (sys_running s), sys_settled := c # sys_settled s\<rparr>)"
| RegFinally: "c \<in> set (sys_settled s) \<Longrightarrow>
    regStep s (s\<lparr>sys_reg := onFinally c (sys_reg s), sys_settled := remove1 c (sys_settled s)\<rparr>)"

definition regInit :: "int \<Rightarrow> regSys" where
  "regInit dateNow = \<lparr>sys_reg = newRegistry dateNow, sys_running = [], sys_settled = [], sys_next = 0\<rparr>"

inductive regReach :: "regSys \<Rightarrow> bool" where
  RegInit: "regReach (regInit dateNow)"
| RegNext: "regReach s \<Longrightarrow> regStep s t \<Longrightarrow> regReach t"

definition liveCalls :: "registry \<Rightarrow> rpcCall list \<Rightarrow> rpcCall list" where
  "liveCalls r cs = filter (\<lambda>c. cl_generation c = rg_generation r) cs"

definition scopeCount :: "registry \<Rightarrow> rpcCall list \<Rightarrow> string \<Rightarrow> nat" where
  "scopeCount r cs scope = length (filter (\<lambda>c. cl_scope c = scope) (liveCalls r cs))"

definition pendingEntry :: "rpcCall \<Rightarrow> string \<times> replayEntry" where
  "pendingEntry c = (cl_key c, \<lparr>re_promise = cl_promise c, re_completedAt = None, re_bytes = 0\<rparr>)"

definition counters_ok :: "registry \<Rightarrow> rpcCall list \<Rightarrow> bool" where
  "counters_ok r cs \<longleftrightarrow> rg_inFlight r = int (length (liveCalls r cs)) \<and> js_inv (rg_inFlightByAuth r)
     \<and> (\<forall>scope. js_get (rg_inFlightByAuth r) scope =
           (if scopeCount r cs scope = 0 then None else Some (int (scopeCount r cs scope))))
     \<and> length (liveCalls r cs) \<le> 512 \<and> (\<forall>scope. scopeCount r cs scope \<le> 64)"

definition calls_ok :: "regSys \<Rightarrow> bool" where
  "calls_ok s \<longleftrightarrow> (let cs = sys_running s @ sys_settled s in
     distinct (map cl_promise cs)
     \<and> (\<forall>c \<in> set cs. cl_promise c < sys_next s \<and> cl_generation c \<le> rg_generation (sys_reg s))
     \<and> counters_ok (sys_reg s) cs
     \<and> set (pendingOf (sys_reg s)) = pendingEntry ` set (liveCalls (sys_reg s) (sys_running s)))"

definition registry_ok :: "regSys \<Rightarrow> bool" where
  "registry_ok s \<longleftrightarrow> cache_ok (sys_reg s) \<and> calls_ok s
     \<and> js_inv (rg_completed (sys_reg s))
     \<and> length (rg_completed (sys_reg s)) \<le> MAX_SHARED_COMPLETED_MESSAGE_IDS
     \<and> length (rg_replays (sys_reg s)) \<le> MAX_RPC_REPLAY_ENTRIES + 1
     \<and> rg_replayBytes (sys_reg s) \<le> MAX_RPC_REPLAY_BYTES"

lemma counters_ok_perm:
  assumes "mset (liveCalls r cs) = mset (liveCalls r cs')" and "counters_ok r cs"
  shows "counters_ok r cs'"
proof -
  have "length (liveCalls r cs) = length (liveCalls r cs')" using assms(1) by (rule mset_eq_length)
  moreover have "scopeCount r cs = scopeCount r cs'"
    using assms(1) by (auto simp: scopeCount_def fun_eq_iff mset_filter intro: mset_eq_length)
  ultimately show ?thesis using assms(2) by (simp add: counters_ok_def)
qed


lemma counters_ok_cong:
  assumes "rg_inFlight r' = rg_inFlight r" and "rg_inFlightByAuth r' = rg_inFlightByAuth r"
    and "rg_generation r' = rg_generation r"
  shows "counters_ok r' cs = counters_ok r cs"
  using assms by (simp add: counters_ok_def scopeCount_def liveCalls_def)

lemma mset_liveCalls: "mset (liveCalls r cs) = filter_mset (\<lambda>c. cl_generation c = rg_generation r) (mset cs)"
  by (simp add: liveCalls_def)

text \<open>Consequences of the invariant for one running call.\<close>

lemma running_entry:
  assumes "cache_ok (sys_reg s)" and "calls_ok s" and "c \<in> set (sys_running s)"
    and "cl_generation c = rg_generation (sys_reg s)"
  shows "js_get (rg_replays (sys_reg s)) (cl_key c) = Some (snd (pendingEntry c))"
proof -
  from assms have "pendingEntry c \<in> set (pendingOf (sys_reg s))"
    by (auto simp: calls_ok_def Let_def liveCalls_def)
  then have "(cl_key c, snd (pendingEntry c)) \<in> set (rg_replays (sys_reg s))"
    by (simp add: pendingOf_def pendingEntry_def)
  with assms(1) show ?thesis by (simp add: cache_ok_def bytes_ok_def js_inv_def)
qed

lemma running_key_unique:
  assumes "cache_ok (sys_reg s)" and "calls_ok s"
    and "c \<in> set (liveCalls (sys_reg s) (sys_running s))" and "c' \<in> set (liveCalls (sys_reg s) (sys_running s))"
    and "cl_key c = cl_key c'"
  shows "c = c'"
proof -
  have run: "c \<in> set (sys_running s)" "c' \<in> set (sys_running s)" using assms(3,4) by (auto simp: liveCalls_def)
  have "cl_promise c = cl_promise c'"
    using running_entry [OF assms(1,2), of c] running_entry [OF assms(1,2), of c'] assms(3-5)
    by (simp add: liveCalls_def pendingEntry_def)
  moreover have "inj_on cl_promise (set (sys_running s))"
    using assms(2) by (auto simp: calls_ok_def Let_def distinct_map intro: inj_on_subset)
  ultimately show ?thesis using run by (auto dest: inj_onD)
qed

lemma pending_le:
  assumes "cache_ok (sys_reg s)" and "calls_ok s"
  shows "length (pendingOf (sys_reg s)) \<le> 512"
proof -
  have "distinct (pendingOf (sys_reg s))"
    using assms(1) by (simp add: pendingOf_def cache_ok_def bytes_ok_def js_inv_def distinct_map)
  then have "length (pendingOf (sys_reg s)) = card (set (pendingOf (sys_reg s)))"
    by (rule distinct_card [symmetric])
  also have "\<dots> \<le> card (set (liveCalls (sys_reg s) (sys_running s)))"
    using assms(2) by (simp add: calls_ok_def Let_def card_image_le)
  also have "\<dots> \<le> length (liveCalls (sys_reg s) (sys_running s))" by (rule card_length)
  also have "\<dots> \<le> 512"
    using assms(2) by (simp add: calls_ok_def Let_def counters_ok_def liveCalls_def)
  finally show ?thesis .
qed

lemma registry_ok_prune_caps:
  "cache_ok (sys_reg s) \<Longrightarrow> calls_ok s \<Longrightarrow> withinReplayCaps (regPrune now (sys_reg s))"
  using pending_le [of s] by (simp add: cache_ok_def regPrune_caps)

text \<open>An operation that leaves the calls alone and the pending entries too keeps \<open>calls_ok\<close>.\<close>

lemma calls_ok_frame:
  assumes "calls_ok s" and "pendingOf r = pendingOf (sys_reg s)"
    and "rg_inFlight r = rg_inFlight (sys_reg s)" and "rg_inFlightByAuth r = rg_inFlightByAuth (sys_reg s)"
    and "rg_generation r = rg_generation (sys_reg s)"
  shows "calls_ok (s\<lparr>sys_reg := r\<rparr>)"
  using assms counters_ok_cong [OF assms(3-5)] by (simp add: calls_ok_def Let_def liveCalls_def)

lemma registry_ok_prune: "registry_ok s \<Longrightarrow> registry_ok (s\<lparr>sys_reg := regPrune now (sys_reg s)\<rparr>)"
  using registry_ok_prune_caps [of s now] calls_ok_frame [of s "regPrune now (sys_reg s)"]
    cache_ok_prune [of "sys_reg s" now]
  by (auto simp: registry_ok_def withinReplayCaps_def cache_ok_def regPrune_ok)

lemma registry_ok_dependencies:
  assumes "registry_ok s"
  shows "registry_ok (s\<lparr>sys_reg := regRegister a m p (sys_reg s)\<rparr>)"
    and "registry_ok (s\<lparr>sys_reg := regComplete a m p (sys_reg s)\<rparr>)"
proof -
  have frame: "pendingOf (sys_reg s\<lparr>rg_processing := x, rg_completed := y\<rparr>) = pendingOf (sys_reg s)"
    "cache_ok (sys_reg s\<lparr>rg_processing := x, rg_completed := y\<rparr>) = cache_ok (sys_reg s)" for x y
    by (simp_all add: pendingOf_def cache_ok_def bytes_ok_def expiry_ok_def)
  have calls: "calls_ok (s\<lparr>sys_reg := sys_reg s\<lparr>rg_processing := x, rg_completed := y\<rparr>\<rparr>)" for x y
    using assms by (intro calls_ok_frame) (simp_all add: registry_ok_def frame)
  show "registry_ok (s\<lparr>sys_reg := regRegister a m p (sys_reg s)\<rparr>)"
    using assms frame(2) [where y = "rg_completed (sys_reg s)"] calls [where y = "rg_completed (sys_reg s)"]
    by (simp add: registry_ok_def regRegister_def)
  show "registry_ok (s\<lparr>sys_reg := regComplete a m p (sys_reg s)\<rparr>)"
    using assms frame(2) calls
    by (simp add: registry_ok_def regComplete_def Let_def js_inv_evictOldest length_evictOldest)
qed

lemma registry_ok_clear:
  assumes "registry_ok s"
  shows "registry_ok (s\<lparr>sys_reg := regClear (sys_reg s)\<rparr>)"
proof -
  have "liveCalls (regClear (sys_reg s)) cs = []" if "set cs \<subseteq> set (sys_running s @ sys_settled s)" for cs
    using assms that by (force simp: registry_ok_def calls_ok_def liveCalls_def regClear_def Let_def filter_empty_conv)
  then have "liveCalls (regClear (sys_reg s)) (sys_running s @ sys_settled s) = []"
    "liveCalls (regClear (sys_reg s)) (sys_running s) = []" by simp_all
  with assms show ?thesis
    by (auto simp: registry_ok_def calls_ok_def Let_def counters_ok_def scopeCount_def cache_ok_def
        bytes_ok_def expiry_ok_def pendingOf_def registry_limits regClear_def le_SucI)
qed


lemma registry_ok_answer:
  assumes ok: "registry_ok s" and ex: "regExecute now a m fp (sys_next s) (sys_reg s) = (out, r)"
    and nostart: "\<forall>c. out \<noteq> Started c"
  shows "registry_ok (s\<lparr>sys_reg := r\<rparr>)"
proof -
  let ?r = "regPrune now (sys_reg s)" and ?key = "regKey a m @ '':'' @ fp"
  have pruned: "registry_ok (s\<lparr>sys_reg := ?r\<rparr>)" using ok by (rule registry_ok_prune)
  show ?thesis
  proof (cases "\<exists>e. js_get (rg_replays ?r) ?key = Some e \<and> re_completedAt e \<noteq> None")
    case False
    then have "r = ?r" using ex nostart
      by (auto simp: regExecute_def Let_def split: option.splits if_splits)
    with pruned show ?thesis by simp
  next
    case True
    then obtain e where e: "js_get (rg_replays ?r) ?key = Some e" "re_completedAt e \<noteq> None" by blast
    then have r: "r = ?r\<lparr>rg_replays := js_set ?key e (js_delete ?key (rg_replays ?r))\<rparr>"
      using ex by (auto simp: regExecute_def Let_def)
    have cache: "cache_ok ?r" and calls: "calls_ok (s\<lparr>sys_reg := ?r\<rparr>)"
      using pruned by (simp_all add: registry_ok_def)
    have inv: "js_inv (rg_replays ?r)" using cache by (simp add: cache_ok_def bytes_ok_def)
    have "length (rg_replays r) = length (rg_replays ?r)"
      using jsm.size_touch_present [OF inv, of ?key e] e(1) by (simp add: r)
    then show ?thesis
      using pruned cache_ok_touch [OF cache e] calls_ok_frame [OF calls, of r]
      by (simp add: registry_ok_def r)
  qed
qed

lemma liveCalls_Cons:
  "liveCalls r (c # cs) = (if cl_generation c = rg_generation r then c # liveCalls r cs else liveCalls r cs)"
  by (simp add: liveCalls_def)

lemma counters_ok_start:
  fixes mine :: int and r :: registry and c :: rpcCall
  defines "mine \<equiv> (case js_get (rg_inFlightByAuth r) (cl_scope c) of None \<Rightarrow> 0 | Some n \<Rightarrow> n)"
  assumes ok: "counters_ok r cs" and live: "cl_generation c = rg_generation r"
    and caps: "rg_inFlight r < MAX_SHARED_RPC_INFLIGHT" "mine < MAX_SHARED_RPC_INFLIGHT_PER_AUTH_KEY"
    and r': "rg_generation r' = rg_generation r" "rg_inFlight r' = rg_inFlight r + 1"
      "rg_inFlightByAuth r' = js_set (cl_scope c) (mine + 1) (rg_inFlightByAuth r)"
  shows "counters_ok r' (c # cs)"
proof -
  have mine: "mine = int (scopeCount r cs (cl_scope c))"
    using ok by (simp add: counters_ok_def mine_def)
  have cnt: "scopeCount r' (c # cs) sc = scopeCount r cs sc + (if cl_scope c = sc then 1 else 0)" for sc
    using live r'(1) by (simp add: scopeCount_def liveCalls_def)
  have len: "length (liveCalls r' (c # cs)) = Suc (length (liveCalls r cs))"
    using live r'(1) by (simp add: liveCalls_def)
  have get: "js_get (rg_inFlightByAuth r') sc =
      (if sc = cl_scope c then Some (int (scopeCount r cs sc) + 1) else js_get (rg_inFlightByAuth r) sc)" for sc
    by (simp add: r'(3) update_conv' mine)
  have "length (liveCalls r cs) < 512" and "scopeCount r cs (cl_scope c) < 64"
    using ok caps by (simp_all add: counters_ok_def mine registry_limits)
  then show ?thesis
    using ok unfolding counters_ok_def cnt len get r'(2) by (simp add: r'(3))
qed

lemma registry_ok_start:
  assumes ok: "registry_ok s" and ex: "regExecute now a m fp (sys_next s) (sys_reg s) = (Started c, r)"
  shows "registry_ok (s\<lparr>sys_reg := r, sys_running := c # sys_running s, sys_next := Suc (sys_next s)\<rparr>)"
proof -
  let ?r = "regPrune now (sys_reg s)" and ?key = "regKey a m @ '':'' @ fp"
  let ?mine = "case js_get (rg_inFlightByAuth ?r) (authScope a) of None \<Rightarrow> 0 | Some n \<Rightarrow> n"
  have pruned: "registry_ok (s\<lparr>sys_reg := ?r\<rparr>)" using ok by (rule registry_ok_prune)
  then have cache: "cache_ok ?r" and calls: "calls_ok (s\<lparr>sys_reg := ?r\<rparr>)"
    by (simp_all add: registry_ok_def)
  have new: "js_get (rg_replays ?r) ?key = None"
    and caps: "rg_inFlight ?r < MAX_SHARED_RPC_INFLIGHT" "?mine < MAX_SHARED_RPC_INFLIGHT_PER_AUTH_KEY"
    and c: "c = \<lparr>cl_key = ?key, cl_promise = sys_next s, cl_generation = rg_generation ?r, cl_scope = authScope a\<rparr>"
    and r: "r = ?r\<lparr>rg_inFlight := rg_inFlight ?r + 1, rg_inFlightByAuth := js_set (authScope a) (?mine + 1) (rg_inFlightByAuth ?r),
       rg_replays := js_set ?key (snd (pendingEntry c)) (rg_replays ?r)\<rparr>"
    using ex by (auto simp: regExecute_def Let_def pendingEntry_def split: option.splits if_splits)
  have start: "cache_ok r \<and> pendingOf r = pendingOf ?r @ [pendingEntry c]"
    using cache_ok_start [OF cache new, of "snd (pendingEntry c)"] by (simp add: r pendingEntry_def c)
  have counters: "counters_ok r (c # sys_running s @ sys_settled s)"
    using counters_ok_start [of ?r "sys_running s @ sys_settled s" c r] calls caps
    by (simp add: calls_ok_def Let_def r c)
  have fresh: "\<forall>d \<in> set (sys_running s @ sys_settled s). cl_promise d < sys_next s"
    using calls by (simp add: calls_ok_def Let_def)
  then have "calls_ok (s\<lparr>sys_reg := r, sys_running := c # sys_running s, sys_next := Suc (sys_next s)\<rparr>)"
    using calls start counters
    by (auto simp: calls_ok_def Let_def liveCalls_def r c intro: less_SucI)
  moreover have "length (rg_replays r) = Suc (length (rg_replays ?r))"
    using new by (simp add: r js_set_new map_of_eq_None_iff)
  moreover have "withinReplayCaps ?r"
    using ok registry_ok_prune_caps [of s now] by (simp add: registry_ok_def)
  ultimately show ?thesis
    using pruned start by (simp add: registry_ok_def withinReplayCaps_def r)
qed

text \<open>A callback moves its call from the running to the settled ones.\<close>

lemma calls_ok_settle:
  assumes calls: "calls_ok s" and c: "c \<in> set (sys_running s)"
    and frame: "rg_inFlight r = rg_inFlight (sys_reg s)" "rg_inFlightByAuth r = rg_inFlightByAuth (sys_reg s)"
      "rg_generation r = rg_generation (sys_reg s)"
    and pend: "set (pendingOf r) = pendingEntry ` (set (liveCalls (sys_reg s) (sys_running s)) - {c})"
  shows "calls_ok (s\<lparr>sys_reg := r, sys_running := remove1 c (sys_running s), sys_settled := c # sys_settled s\<rparr>)"
proof -
  let ?cs = "sys_running s @ sys_settled s" and ?cs' = "remove1 c (sys_running s) @ c # sys_settled s"
  have perm: "mset ?cs = mset ?cs'" using c by simp
  have "mset (liveCalls (sys_reg s) ?cs) = mset (liveCalls (sys_reg s) ?cs')"
    unfolding mset_liveCalls by (simp only: perm)
  then have "counters_ok (sys_reg s) ?cs'"
    using calls unfolding calls_ok_def Let_def by (blast intro: counters_ok_perm)
  then have counters: "counters_ok r ?cs'" using counters_ok_cong [OF frame] by blast
  have "mset (map cl_promise ?cs) = mset (map cl_promise ?cs')" using perm by (metis mset_map)
  moreover have "distinct (map cl_promise ?cs)" using calls unfolding calls_ok_def Let_def by blast
  ultimately have dist: "distinct (map cl_promise ?cs')" by (metis mset_eq_imp_distinct_iff)
  have "distinct (sys_running s)"
    using \<open>distinct (map cl_promise ?cs)\<close> by (simp add: distinct_map)
  then have "set (liveCalls r (remove1 c (sys_running s))) = set (liveCalls (sys_reg s) (sys_running s)) - {c}"
    using frame(3) by (auto simp: liveCalls_def)
  moreover have "set ?cs = set ?cs'" using perm by (rule mset_eq_setD)
  ultimately show ?thesis
    using calls counters dist pend frame(3) by (simp add: calls_ok_def Let_def)
qed


lemma calls_ok_settle_dead:
  assumes "calls_ok s" and "c \<in> set (sys_running s)" and "cl_generation c \<noteq> rg_generation (sys_reg s)"
  shows "calls_ok (s\<lparr>sys_running := remove1 c (sys_running s), sys_settled := c # sys_settled s\<rparr>)"
proof -
  have "set (pendingOf (sys_reg s)) = pendingEntry ` (set (liveCalls (sys_reg s) (sys_running s)) - {c})"
    using assms by (simp add: calls_ok_def Let_def liveCalls_def)
  from calls_ok_settle [OF assms(1,2) refl refl refl this] show ?thesis by simp
qed

lemma pendings_without:
  assumes ok: "registry_ok s" and c: "c \<in> set (sys_running s)" "cl_generation c = rg_generation (sys_reg s)"
  shows "set (filter (\<lambda>ke. fst ke \<noteq> cl_key c) (pendingOf (sys_reg s)))
    = pendingEntry ` (set (liveCalls (sys_reg s) (sys_running s)) - {c})" (is "?L = ?R")
proof -
  have live: "c \<in> set (liveCalls (sys_reg s) (sys_running s))" using c by (simp add: liveCalls_def)
  have "cl_key d = cl_key c \<longleftrightarrow> d = c" if "d \<in> set (liveCalls (sys_reg s) (sys_running s))" for d
    using running_key_unique [of s d c] ok that live by (auto simp: registry_ok_def)
  moreover have "?L = {ke \<in> pendingEntry ` set (liveCalls (sys_reg s) (sys_running s)). fst ke \<noteq> cl_key c}"
    using ok by (auto simp: registry_ok_def calls_ok_def Let_def)
  ultimately show ?thesis by (auto simp: pendingEntry_def)
qed

lemma registry_ok_fulfil:
  assumes ok: "registry_ok s" and c: "c \<in> set (sys_running s)"
  shows "registry_ok (s\<lparr>sys_reg := onFulfilled now reply c (sys_reg s),
      sys_running := remove1 c (sys_running s), sys_settled := c # sys_settled s\<rparr>)"
proof (cases "cl_generation c = rg_generation (sys_reg s)")
  case False
  with ok c calls_ok_settle_dead [of s c] show ?thesis by (simp add: registry_ok_def onFulfilled_def)
next
  case True
  let ?n = "length (rp_body reply)"
  let ?e = "\<lparr>re_promise = cl_promise c, re_completedAt = Some now, re_bytes = ?n\<rparr>"
  define r where "r = (sys_reg s)\<lparr>
     rg_nextReplayExpiry := minExpiry (rg_nextReplayExpiry (sys_reg s)) (now + RPC_REPLAY_TTL_MS + 1),
     rg_replayBytes := rg_replayBytes (sys_reg s) + int ?n,
     rg_replays := js_set (cl_key c) ?e (js_delete (cl_key c) (rg_replays (sys_reg s)))\<rparr>"
  have res: "onFulfilled now reply c (sys_reg s) = regPrune now r"
    using True by (simp add: onFulfilled_def Let_def r_def)
  have cache: "cache_ok (sys_reg s)" and calls: "calls_ok s" using ok by (simp_all add: registry_ok_def)
  note get = running_entry [OF cache calls c True]
  have body: "cache_ok r" "pendingOf r = filter (\<lambda>ke. fst ke \<noteq> cl_key c) (pendingOf (sys_reg s))"
    using cache_ok_fulfil_body [OF cache get] by (simp_all add: r_def pendingEntry_def)
  have pruned: "cache_ok (regPrune now r)" "pendingOf (regPrune now r) = pendingOf r"
    using body(1) by (simp_all add: cache_ok_prune cache_ok_def regPrune_ok)
  have "length (pendingOf r) \<le> 512"
    unfolding body(2) by (rule order_trans [OF length_filter_le pending_le [OF cache calls]])
  then have caps: "withinReplayCaps (regPrune now r)"
    using body(1) by (simp add: cache_ok_def regPrune_caps)
  have "calls_ok (s\<lparr>sys_reg := regPrune now r, sys_running := remove1 c (sys_running s), sys_settled := c # sys_settled s\<rparr>)"
    using pendings_without [OF ok c True] pruned(2) body(2)
    by (intro calls_ok_settle calls c) (simp_all add: r_def)
  then show ?thesis
    using pruned(1) caps ok by (simp add: res registry_ok_def withinReplayCaps_def) (simp add: r_def)
qed

lemma registry_ok_reject:
  assumes ok: "registry_ok s" and c: "c \<in> set (sys_running s)"
  shows "registry_ok (s\<lparr>sys_reg := onRejected c (sys_reg s),
      sys_running := remove1 c (sys_running s), sys_settled := c # sys_settled s\<rparr>)"
proof (cases "cl_generation c = rg_generation (sys_reg s)")
  case False
  with ok c calls_ok_settle_dead [of s c] show ?thesis by (simp add: registry_ok_def onRejected_def)
next
  case True
  let ?r = "deleteReplay (cl_key c) (snd (pendingEntry c)) (sys_reg s)"
  have res: "onRejected c (sys_reg s) = ?r" using True by (simp add: onRejected_def pendingEntry_def)
  have cache: "cache_ok (sys_reg s)" and calls: "calls_ok s" using ok by (simp_all add: registry_ok_def)
  have body: "cache_ok ?r" "pendingOf ?r = filter (\<lambda>ke. fst ke \<noteq> cl_key c) (pendingOf (sys_reg s))"
    using cache_ok_reject_body [OF cache running_entry [OF cache calls c True]]
    by (simp_all add: pendingEntry_def)
  have "calls_ok (s\<lparr>sys_reg := ?r, sys_running := remove1 c (sys_running s), sys_settled := c # sys_settled s\<rparr>)"
    using pendings_without [OF ok c True] body(2) by (intro calls_ok_settle calls c) simp_all
  moreover have "length (rg_replays ?r) \<le> length (rg_replays (sys_reg s))"
    and "rg_replayBytes ?r \<le> rg_replayBytes (sys_reg s)"
    by (simp_all add: deleteReplay_def length_delete_le)
  ultimately show ?thesis using body(1) ok by (simp add: res registry_ok_def)
qed

lemma counters_ok_finally:
  assumes ok: "counters_ok r (c # cs)" and live: "cl_generation c = rg_generation r"
  shows "counters_ok (onFinally c r) cs"
proof -
  have cnt: "scopeCount r (c # cs) sc = scopeCount r cs sc + (if cl_scope c = sc then 1 else 0)" for sc
    using live by (simp add: scopeCount_def liveCalls_def)
  have len: "length (liveCalls r (c # cs)) = Suc (length (liveCalls r cs))"
    using live by (simp add: liveCalls_def)
  have mine: "js_get (rg_inFlightByAuth r) (cl_scope c) = Some (int (scopeCount r cs (cl_scope c)) + 1)"
    using ok cnt by (simp add: counters_ok_def)
  have gen: "scopeCount (onFinally c r) cs = scopeCount r cs" "liveCalls (onFinally c r) cs = liveCalls r cs"
    by (simp_all add: scopeCount_def liveCalls_def onFinally_def Let_def fun_eq_iff)
  have get: "js_get (rg_inFlightByAuth (onFinally c r)) sc =
      (if sc = cl_scope c then (if scopeCount r cs sc = 0 then None else Some (int (scopeCount r cs sc)))
       else js_get (rg_inFlightByAuth r) sc)" for sc
    using live mine by (simp add: onFinally_def Let_def update_conv' delete_conv')
  have "rg_inFlight (onFinally c r) = rg_inFlight r - 1" and "js_inv (rg_inFlightByAuth (onFinally c r))"
    using live ok by (simp_all add: onFinally_def Let_def counters_ok_def)
  moreover have "scopeCount r cs sc \<le> 64" for sc
    using ok cnt [of sc] unfolding counters_ok_def by (metis add_leD1)
  ultimately show ?thesis
    using ok unfolding counters_ok_def gen get len cnt by simp
qed

lemma registry_ok_finally:
  assumes ok: "registry_ok s" and c: "c \<in> set (sys_settled s)"
  shows "registry_ok (s\<lparr>sys_reg := onFinally c (sys_reg s), sys_settled := remove1 c (sys_settled s)\<rparr>)"
proof -
  let ?cs = "sys_running s @ sys_settled s" and ?cs' = "sys_running s @ remove1 c (sys_settled s)"
  let ?r = "onFinally c (sys_reg s)"
  have perm: "mset ?cs = mset (c # ?cs')" using c by simp
  have calls: "calls_ok s" using ok by (simp add: registry_ok_def)
  have frame: "rg_generation ?r = rg_generation (sys_reg s)" "rg_replays ?r = rg_replays (sys_reg s)"
    "rg_replayBytes ?r = rg_replayBytes (sys_reg s)" "rg_nextReplayExpiry ?r = rg_nextReplayExpiry (sys_reg s)"
    "rg_completed ?r = rg_completed (sys_reg s)"
    by (simp_all add: onFinally_def Let_def)
  have "mset (liveCalls (sys_reg s) ?cs) = mset (liveCalls (sys_reg s) (c # ?cs'))"
    unfolding mset_liveCalls by (simp only: perm)
  then have counters: "counters_ok (sys_reg s) (c # ?cs')"
    using calls unfolding calls_ok_def Let_def by (blast intro: counters_ok_perm)
  have "counters_ok ?r ?cs'"
  proof (cases "cl_generation c = rg_generation (sys_reg s)")
    case True
    then show ?thesis by (rule counters_ok_finally [OF counters])
  next
    case False
    then have "liveCalls (sys_reg s) (c # ?cs') = liveCalls (sys_reg s) ?cs'" by (simp add: liveCalls_def)
    with counters False show ?thesis by (simp add: counters_ok_def scopeCount_def onFinally_def)
  qed
  moreover have "distinct (map cl_promise ?cs')"
  proof -
    have "mset (map cl_promise ?cs) = mset (map cl_promise (c # ?cs'))" using perm by (metis mset_map)
    moreover have "distinct (map cl_promise ?cs)" using calls unfolding calls_ok_def Let_def by blast
    ultimately have "distinct (map cl_promise (c # ?cs'))" by (metis mset_eq_imp_distinct_iff)
    then show ?thesis by simp
  qed
  moreover have "set ?cs' \<subseteq> set ?cs" by (auto dest: notin_set_remove1)
  ultimately have "calls_ok (s\<lparr>sys_reg := ?r, sys_settled := remove1 c (sys_settled s)\<rparr>)"
    using calls frame by (auto simp: calls_ok_def Let_def liveCalls_def pendingOf_def)
  then show ?thesis
    using ok frame by (simp add: registry_ok_def cache_ok_def bytes_ok_def expiry_ok_def)
qed

lemma registry_ok_step: "regStep s t \<Longrightarrow> registry_ok s \<Longrightarrow> registry_ok t"
  by (induction rule: regStep.induct)
    (simp_all add: registry_ok_dependencies registry_ok_clear registry_ok_prune registry_ok_answer
      registry_ok_start registry_ok_fulfil registry_ok_reject registry_ok_finally)

lemma registry_ok_init: "registry_ok (regInit dateNow)"
  by (simp add: registry_ok_def regInit_def newRegistry_def cache_ok_def bytes_ok_def expiry_ok_def
      calls_ok_def counters_ok_def scopeCount_def liveCalls_def pendingOf_def registry_limits)

lemma regReach_ok: "regReach s \<Longrightarrow> registry_ok s"
  by (induction rule: regReach.induct) (auto intro: registry_ok_init registry_ok_step)


section \<open>Keys do not collide\<close>

lemma authScope_no_colon: "CHR '':'' \<notin> set (authScope a)"
  using colon_notin_byteHex by (auto simp: authScope_def)

lemma authScope_inj: "authScope a = authScope b \<longleftrightarrow> a = b"
proof
  assume "authScope a = authScope b"
  then show "a = b"
  proof (induction a arbitrary: b)
    case Nil
    then show ?case by (cases b) (auto simp: authScope_def byteHex_def)
  next
    case (Cons x a)
    then obtain y b' where b: "b = y # b'" by (cases b) (auto simp: authScope_def byteHex_def)
    with Cons.prems have "byteHex x @ authScope a = byteHex y @ authScope b'" by (simp add: authScope_def)
    then have "byteHex x = byteHex y" and "authScope a = authScope b'" by (simp_all add: byteHex_def)
    with Cons.IH b show ?case by (simp add: byteHex_inj)
  qed
qed simp

lemma longString_no_colon: "CHR '':'' \<notin> set (longString m)"
proof -
  have "CHR '':'' \<notin> set (decString n)" for n
  proof (induction n rule: decString.induct)
    case (1 n)
    have digit: "CHR '':'' \<noteq> char_of (48 + d)" if "d < 10" for d :: nat
      using that by (simp add: char_of_eq_iff take_bit_eq_mod not_sym)
    show ?case
      using 1 digit [of n] digit [of "n mod 10"] by (subst decString.simps) simp
  qed
  then show ?thesis by (simp add: longString_def)
qed

section \<open>A concrete run\<close>

definition demoCall :: rpcCall where
  "demoCall = \<lparr>cl_key = ''01:5:ab'', cl_promise = 0, cl_generation = 0, cl_scope = ''01''\<rparr>"

definition demoSys :: regSys where
  "demoSys = (regInit 0)\<lparr>sys_reg := snd (regExecute 0 [1] 5 ''ab'' 0 (newRegistry 0)),
     sys_running := [demoCall], sys_next := 1\<rparr>"

lemma demo_execute: "fst (regExecute 0 [1] 5 ''ab'' 0 (newRegistry 0)) = Started demoCall"
  by code_simp

lemma demo_live_calls:
  "liveCalls (sys_reg demoSys) (sys_running demoSys @ sys_settled demoSys) = [demoCall]"
  by code_simp

lemma demo_reach: "regReach demoSys"
proof -
  have "regStep (regInit 0) ((regInit 0)\<lparr>sys_reg := snd (regExecute 0 [1] 5 ''ab'' 0 (newRegistry 0)),
      sys_running := demoCall # sys_running (regInit 0), sys_next := Suc (sys_next (regInit 0))\<rparr>)"
    by (rule RegStart [where now = 0 and a = "[1]" and m = 5 and fp = "''ab''"])
      (simp add: regInit_def prod_eq_iff demo_execute)
  then show ?thesis
    by (intro RegNext [OF RegInit [of 0]]) (simp add: demoSys_def regInit_def)
qed


section \<open>Properties\<close>

text \<open>
  C1. In every state the registry can reach, however executions, answers, failures, finally
  callbacks, \<open>clear()\<close> and pruning interleave, the in-flight counters are exact: \<open>_inFlight\<close> is
  the number of calls of the current generation whose finally callback is still to run, the
  per-auth-key counter is that number for the key (and absent when it is 0), and the caps of 512
  in total and 64 per auth key hold.
\<close>

theorem registry_accounting:
  assumes "regReach s"
  defines "calls \<equiv> liveCalls (sys_reg s) (sys_running s @ sys_settled s)"
  shows "rg_inFlight (sys_reg s) = int (length calls) \<and> length calls \<le> 512
    \<and> js_get (rg_inFlightByAuth (sys_reg s)) scope =
        (let n = length (filter (\<lambda>c. cl_scope c = scope) calls) in if n = 0 then None else Some (int n))
    \<and> length (filter (\<lambda>c. cl_scope c = scope) calls) \<le> 64"
  using regReach_ok [OF assms(1)]
  by (simp add: registry_ok_def calls_ok_def counters_ok_def scopeCount_def calls_def Let_def)

theorem registry_accounting_witness:
  "rg_inFlight (sys_reg demoSys) = 1 \<and> js_get (rg_inFlightByAuth (sys_reg demoSys)) ''01'' = Some 1"
  using registry_accounting [OF demo_reach, of "''01''"]
  by (simp add: demo_live_calls demoCall_def)

text \<open>
  The replay cache and the completed set never outgrow their limits: at most 4097 replay
  entries (the cap of 4096 and the request just added), at most 32 MiB of cached answers, the byte
  counter being exactly the bytes of the cached answers, and at most 16384 completed message ids.
\<close>

theorem registry_memory_bounds:
  assumes "regReach s"
  shows "length (rg_replays (sys_reg s)) \<le> 4097
    \<and> rg_replayBytes (sys_reg s) = int (cachedBytes (rg_replays (sys_reg s)))
    \<and> rg_replayBytes (sys_reg s) \<le> 32 * 1024 * 1024
    \<and> length (rg_completed (sys_reg s)) \<le> 16384"
  using regReach_ok [OF assms]
  by (simp add: registry_ok_def cache_ok_def bytes_ok_def registry_limits)

theorem registry_memory_bounds_witness: "length (rg_replays (sys_reg demoSys)) \<le> 4097"
  using registry_memory_bounds [OF demo_reach] by simp

text \<open>
  C5. A request that is being executed is never executed a second time: a call that runs in the
  current generation is the only one with its key, and executing the same request again (same auth
  key, message id and fingerprint, on whatever connection) joins its promise and starts nothing.
\<close>

theorem running_request_is_joined:
  assumes "regReach s" and "c \<in> set (sys_running s)" and "cl_generation c = rg_generation (sys_reg s)"
    and "cl_key c = regKey a m @ '':'' @ fp"
  shows "fst (regExecute now a m fp p (sys_reg s)) = Joined (cl_promise c)
    \<and> (\<forall>c' \<in> set (sys_running s). cl_generation c' = rg_generation (sys_reg s) \<longrightarrow>
         cl_key c' = cl_key c \<longrightarrow> c' = c)"
proof
  have ok: "registry_ok s" by (rule regReach_ok [OF assms(1)])
  then have cache: "cache_ok (sys_reg s)" and calls: "calls_ok s" by (simp_all add: registry_ok_def)
  let ?r = "regPrune now (sys_reg s)"
  have "pendingEntry c \<in> set (pendingOf ?r)"
    using calls cache assms(2,3) by (auto simp: calls_ok_def Let_def liveCalls_def cache_ok_def regPrune_ok)
  then have "(cl_key c, snd (pendingEntry c)) \<in> set (rg_replays ?r)"
    by (simp add: pendingOf_def pendingEntry_def)
  moreover have "js_inv (rg_replays ?r)"
    using cache_ok_prune [OF cache] by (simp add: cache_ok_def bytes_ok_def)
  ultimately have "js_get (rg_replays ?r) (cl_key c) = Some (snd (pendingEntry c))"
    by (simp add: js_inv_def)
  then show "fst (regExecute now a m fp p (sys_reg s)) = Joined (cl_promise c)"
    using assms(4) by (simp add: regExecute_def Let_def pendingEntry_def)
  show "\<forall>c' \<in> set (sys_running s). cl_generation c' = rg_generation (sys_reg s) \<longrightarrow>
         cl_key c' = cl_key c \<longrightarrow> c' = c"
    using running_key_unique [OF cache calls] assms(2,3) by (simp add: liveCalls_def)
qed

theorem running_request_is_joined_witness:
  "fst (regExecute 7 [1] 5 ''ab'' 9 (sys_reg demoSys)) = Joined 0"
proof -
  have key: "cl_key demoCall = regKey [1] 5 @ '':'' @ ''ab''" by code_simp
  have gen: "cl_generation demoCall = rg_generation (sys_reg demoSys)" by code_simp
  have "demoCall \<in> set (sys_running demoSys)" by (simp add: demoSys_def)
  from running_request_is_joined [OF demo_reach this gen key, of 7 9]
  show ?thesis by (simp add: demoCall_def)
qed

text \<open>
  A replayed answer is fresh and its own: when \<open>execute\<close> answers with a promise that has
  already completed, the promise belongs to the cached entry of exactly this request and completed
  at most two minutes before.
\<close>

theorem replayed_answer_is_fresh:
  assumes "regReach s" and "regExecute now a m fp p (sys_reg s) = (Joined q, r)"
  shows "\<exists>e. js_get (rg_replays (sys_reg s)) (regKey a m @ '':'' @ fp) = Some e \<and> re_promise e = q
    \<and> (\<forall>t. re_completedAt e = Some t \<longrightarrow> now - t \<le> 120000)"
proof -
  let ?r = "regPrune now (sys_reg s)" and ?key = "regKey a m @ '':'' @ fp"
  from assms(2) obtain e where e: "js_get (rg_replays ?r) ?key = Some e" "re_promise e = q"
    by (auto simp: regExecute_def Let_def split: option.splits if_splits)
  have cache: "bytes_ok (sys_reg s)" "expiry_ok (sys_reg s)"
    using regReach_ok [OF assms(1)] by (simp_all add: registry_ok_def cache_ok_def)
  have mem: "(?key, e) \<in> set (rg_replays ?r)" using e(1) by (rule map_of_SomeD)
  then have "(?key, e) \<in> set (rg_replays (sys_reg s))" using regPrune_ok(4) [OF cache] by blast
  moreover have "js_inv (rg_replays (sys_reg s))" using cache(1) by (simp add: bytes_ok_def)
  ultimately have "js_get (rg_replays (sys_reg s)) ?key = Some e" by (simp add: js_inv_def)
  moreover have "\<forall>t. re_completedAt e = Some t \<longrightarrow> now - t \<le> 120000"
    using bspec [OF regPrune_ok(5) [OF cache, of now] mem] by (simp add: registry_limits)
  ultimately show ?thesis using e(2) by blast
qed

theorem replayed_answer_is_fresh_witness:
  "\<exists>e. js_get (rg_replays (sys_reg demoSys)) (regKey [1] 5 @ '':'' @ ''ab'') = Some e \<and> re_promise e = 0"
proof -
  have "fst (regExecute 7 [1] 5 ''ab'' 9 (sys_reg demoSys)) = Joined 0" by code_simp
  then have "regExecute 7 [1] 5 ''ab'' 9 (sys_reg demoSys)
      = (Joined 0, snd (regExecute 7 [1] 5 ''ab'' 9 (sys_reg demoSys)))" by (metis prod.collapse)
  from replayed_answer_is_fresh [OF demo_reach this] show ?thesis by blast
qed

text \<open>
  Cache keys never collide: two requests share a key only if they agree in auth key, message id
  and fingerprint, so no answer can be replayed to another auth key.
\<close>

theorem replay_keys_injective:
  "regKey a m @ '':'' @ fp = regKey a' m' @ '':'' @ fp' \<longleftrightarrow> a = a' \<and> m = m' \<and> fp = fp'"
proof
  assume "regKey a m @ '':'' @ fp = regKey a' m' @ '':'' @ fp'"
  then have "authScope a @ CHR '':'' # longString m @ '':'' @ fp
      = authScope a' @ CHR '':'' # longString m' @ '':'' @ fp'" by (simp add: regKey_def)
  from split_at_separator [OF authScope_no_colon authScope_no_colon this]
  have "authScope a = authScope a'" and rest: "longString m @ CHR '':'' # fp = longString m' @ CHR '':'' # fp'"
    by simp_all
  with split_at_separator [OF longString_no_colon longString_no_colon rest]
  show "a = a' \<and> m = m' \<and> fp = fp'" by (simp add: authScope_inj longString_inj)
qed simp

end
