(* ===== verification/Server_Connection.thy ===== *)
theory Server_Connection
  imports Prelude
begin

text \<open>
  The sending half and the life cycle of \<open>ServerConnection\<close>
  (\<open>packages/mtproto/src/transport/server-connection.ts\<close>): the queue that keeps encoding and
  writing in order, the completions of \<open>sendAndWait\<close>, \<open>sendAndClose\<close>, closing, and
  pausing the socket.

  A \<open>PendingSend\<close> object is named by a number, given out in the order of the send calls;
  \<open>sc_sends\<close> holds the objects' mutable fields. The codec and the socket are outside the
  model: \<open>enc p data\<close> is what encoding the send \<open>p\<close> does (return, throw, or return a
  promise), \<open>wr p\<close> what \<open>socket.write\<close> does. The last six fields record what the
  outside world sees: completions called, frames written, the frame given to \<open>socket.end\<close>,
  destruction and pausing of the socket.
\<close>

section \<open>Data\<close>

datatype sendCompletion = OutWritten | OutClosed | OutEncodeFailed | OutWriteFailed | OutAbandoned | OutTimeout

datatype encodeResult = EncNow bytes | EncThrows | EncPromise
datatype writeResult = WrFlushed | WrBuffered | WrThrows

record pendingSend =
  ps_data :: bytes
  ps_closeAfterWrite :: bool
  ps_abandoned :: bool
  ps_started :: bool
  ps_submitted :: bool

record conn =
  sc_closed :: bool
  sc_readPaused :: bool
  sc_closing :: bool
  sc_encoding :: bool
  sc_codec :: bool
  sc_sends :: "nat \<Rightarrow> pendingSend"
  sc_pendingSends :: "nat list"
  sc_completionSends :: "nat list"
  sc_pendingCloseFrame :: "bytes option"
  sc_backpressuredSince :: "int option"
  sc_encodePromise :: "nat option"
  sc_encodeCompleting :: bool
  sc_nextSend :: nat
  sc_settled :: "(nat \<times> sendCompletion) list"
  sc_written :: "(nat \<times> bytes) list"
  sc_ended :: "bytes option"
  sc_destroyed :: bool
  sc_socketPaused :: bool

definition newConn :: conn where
  "newConn = \<lparr>sc_closed = False, sc_readPaused = False, sc_closing = False, sc_encoding = False,
     sc_codec = False,
     sc_sends = (\<lambda>_. \<lparr>ps_data = [], ps_closeAfterWrite = False, ps_abandoned = False,
                        ps_started = False, ps_submitted = False\<rparr>),
     sc_pendingSends = [], sc_completionSends = [], sc_pendingCloseFrame = None,
     sc_backpressuredSince = None, sc_encodePromise = None, sc_encodeCompleting = False,
     sc_nextSend = 0, sc_settled = [], sc_written = [], sc_ended = None, sc_destroyed = False,
     sc_socketPaused = False\<rparr>"

definition updSend :: "nat \<Rightarrow> (pendingSend \<Rightarrow> pendingSend) \<Rightarrow> conn \<Rightarrow> conn" where
  "updSend p f c = c\<lparr>sc_sends := (sc_sends c)(p := f (sc_sends c p))\<rparr>"

definition callCompletion :: "nat \<Rightarrow> sendCompletion \<Rightarrow> conn \<Rightarrow> conn" where
  "callCompletion p outcome c = c\<lparr>sc_settled := sc_settled c @ [(p, outcome)]\<rparr>"

section \<open>Settling and closing\<close>

text \<open>
  In \<open>_finishPendingClose\<close> the call \<open>_settlePendingSends('closed')\<close> happens only when no
  completion is outstanding, so its loop does nothing and it clears the queue.
\<close>

definition finishPendingClose :: "conn \<Rightarrow> conn" where
  "finishPendingClose c =
     (case sc_pendingCloseFrame c of
        None \<Rightarrow> c
      | Some frame \<Rightarrow>
          if sc_closed c \<or> sc_completionSends c \<noteq> [] then c
          else c\<lparr>sc_pendingCloseFrame := None, sc_closed := True, sc_pendingSends := [],
                 sc_ended := Some frame\<rparr>)"

definition settlePendingSend :: "nat \<Rightarrow> sendCompletion \<Rightarrow> conn \<Rightarrow> conn" where
  "settlePendingSend p outcome c =
     (if p \<notin> set (sc_completionSends c) then c
      else finishPendingClose
             (callCompletion p outcome (c\<lparr>sc_completionSends := removeAll p (sc_completionSends c)\<rparr>)))"

definition settlePendingSends :: "sendCompletion \<Rightarrow> conn \<Rightarrow> conn" where
  "settlePendingSends outcome c =
     fold (\<lambda>p c. if \<not> ps_submitted (sc_sends c p) then settlePendingSend p outcome c else c)
       (sc_completionSends c) (c\<lparr>sc_pendingSends := []\<rparr>)"

definition connClose :: "conn \<Rightarrow> conn" where
  "connClose c =
     (if sc_closed c then c
      else (settlePendingSends OutClosed (c\<lparr>sc_closed := True, sc_readPaused := False, sc_closing := True\<rparr>))
             \<lparr>sc_backpressuredSince := None, sc_destroyed := True\<rparr>)"

definition onSocketClose :: "conn \<Rightarrow> conn" where
  "onSocketClose c =
     (settlePendingSends OutClosed (c\<lparr>sc_closed := True, sc_readPaused := False, sc_closing := True\<rparr>))
       \<lparr>sc_backpressuredSince := None\<rparr>"

definition onDrain :: "conn \<Rightarrow> conn" where
  "onDrain c = c\<lparr>sc_backpressuredSince := None\<rparr>"

definition stalledForMs :: "int \<Rightarrow> conn \<Rightarrow> int" where
  "stalledForMs now c = (case sc_backpressuredSince c of None \<Rightarrow> 0 | Some t \<Rightarrow> now - t)"

definition pauseReading :: "conn \<Rightarrow> conn" where
  "pauseReading c = (if sc_closed c \<or> sc_readPaused c then c
     else c\<lparr>sc_readPaused := True, sc_socketPaused := True\<rparr>)"

definition resumeReading :: "conn \<Rightarrow> conn" where
  "resumeReading c = (if sc_closed c \<or> \<not> sc_readPaused c then c
     else c\<lparr>sc_readPaused := False, sc_socketPaused := False\<rparr>)"

section \<open>Sending\<close>

text \<open>The closures \<open>write\<close> and \<open>fail\<close> of \<open>_drainSendQueue\<close>.\<close>

definition writeFrame :: "(nat \<Rightarrow> writeResult) \<Rightarrow> int \<Rightarrow> nat \<Rightarrow> bytes \<Rightarrow> conn \<Rightarrow> conn" where
  "writeFrame wr now p encoded c =
     (if sc_closed c then settlePendingSend p OutClosed c
      else if ps_abandoned (sc_sends c p) then c
      else if ps_closeAfterWrite (sc_sends c p)
      then finishPendingClose (c\<lparr>sc_pendingCloseFrame := Some encoded\<rparr>)
      else let c1 = updSend p (\<lambda>s. s\<lparr>ps_submitted := True\<rparr>) c
           in case wr p of
                WrThrows \<Rightarrow> connClose (settlePendingSend p OutWriteFailed c1)
              | WrFlushed \<Rightarrow> c1\<lparr>sc_written := sc_written c1 @ [(p, encoded)]\<rparr>
              | WrBuffered \<Rightarrow> c1\<lparr>sc_written := sc_written c1 @ [(p, encoded)],
                  sc_backpressuredSince :=
                    (if sc_backpressuredSince c1 = None then Some now else sc_backpressuredSince c1)\<rparr>)"

definition failFrame :: "nat \<Rightarrow> conn \<Rightarrow> conn" where
  "failFrame p c = connClose (settlePendingSend p OutEncodeFailed c)"

lemma pendingSends_finish: "length (sc_pendingSends (finishPendingClose c)) \<le> length (sc_pendingSends c)"
  by (simp add: finishPendingClose_def split: option.split)

lemma pendingSends_settle: "length (sc_pendingSends (settlePendingSend p out c)) \<le> length (sc_pendingSends c)"
  using pendingSends_finish [of "callCompletion p out (c\<lparr>sc_completionSends := removeAll p (sc_completionSends c)\<rparr>)"]
  by (simp add: settlePendingSend_def callCompletion_def)

lemma pendingSends_settle_all: "sc_pendingSends (settlePendingSends out c) = []"
proof -
  have "sc_pendingSends c = [] \<Longrightarrow>
      sc_pendingSends (fold (\<lambda>p c. if \<not> ps_submitted (sc_sends c p) then settlePendingSend p out c else c) ps c) = []"
    for ps c
  proof (induction ps arbitrary: c)
    case (Cons p ps)
    have "sc_pendingSends (settlePendingSend p out c) = []"
      using pendingSends_settle [of p out c] Cons.prems by simp
    with Cons show ?case by simp
  qed simp
  then show ?thesis by (simp add: settlePendingSends_def)
qed

lemma pendingSends_close: "length (sc_pendingSends (connClose c)) \<le> length (sc_pendingSends c)"
  by (simp add: connClose_def pendingSends_settle_all)

lemma pendingSends_updSend [simp]: "sc_pendingSends (updSend p f c) = sc_pendingSends c"
  by (simp add: updSend_def)

lemma pendingSends_fail: "length (sc_pendingSends (failFrame p c)) \<le> length (sc_pendingSends c)"
  unfolding failFrame_def by (rule order_trans [OF pendingSends_close pendingSends_settle])

lemma pendingSends_write: "length (sc_pendingSends (writeFrame wr now p b c)) \<le> length (sc_pendingSends c)"
proof -
  have "length (sc_pendingSends (connClose (settlePendingSend p OutWriteFailed c1))) \<le> length (sc_pendingSends c1)" for c1
    by (rule order_trans [OF pendingSends_close pendingSends_settle])
  from this [of "updSend p (\<lambda>s. s\<lparr>ps_submitted := True\<rparr>) c"]
  show ?thesis
    using pendingSends_settle [of p OutClosed c] pendingSends_finish [of "c\<lparr>sc_pendingCloseFrame := Some b\<rparr>"]
    by (simp add: writeFrame_def Let_def split: writeResult.split)
qed

function drainSendQueue ::
  "(nat \<Rightarrow> bytes \<Rightarrow> encodeResult) \<Rightarrow> (nat \<Rightarrow> writeResult) \<Rightarrow> int \<Rightarrow> conn \<Rightarrow> conn" where
  "drainSendQueue enc wr now c =
     (if sc_encoding c \<or> sc_closed c then c
      else case sc_pendingSends c of
             [] \<Rightarrow> c
           | p # rest \<Rightarrow>
               let c1 = c\<lparr>sc_pendingSends := rest\<rparr>
               in if ps_abandoned (sc_sends c p) then drainSendQueue enc wr now c1
                  else let c2 = updSend p (\<lambda>s. s\<lparr>ps_started := True\<rparr>) (c1\<lparr>sc_encoding := True\<rparr>)
                       in case enc p (ps_data (sc_sends c p)) of
                            EncPromise \<Rightarrow> c2\<lparr>sc_encodePromise := Some p\<rparr>
                          | EncNow b \<Rightarrow> drainSendQueue enc wr now ((writeFrame wr now p b c2)\<lparr>sc_encoding := False\<rparr>)
                          | EncThrows \<Rightarrow> drainSendQueue enc wr now ((failFrame p c2)\<lparr>sc_encoding := False\<rparr>))"
  by pat_completeness auto
termination
proof (relation "measure (\<lambda>(_, _, _, c). length (sc_pendingSends c))", goal_cases)
  case (3 enc wr now c p rest c1 c2 b)
  then show ?case using pendingSends_write [of wr now p b c2] by simp
next
  case (4 enc wr now c p rest c1 c2)
  then show ?case using pendingSends_fail [of p c2] by simp
qed simp_all

declare drainSendQueue.simps [simp del]

text \<open>\<open>_send\<close>; \<open>waits\<close> says that a completion is given (\<open>sendAndWait\<close>).\<close>

definition connSend ::
  "(nat \<Rightarrow> bytes \<Rightarrow> encodeResult) \<Rightarrow> (nat \<Rightarrow> writeResult) \<Rightarrow> int \<Rightarrow> bytes \<Rightarrow> bool \<Rightarrow> bool \<Rightarrow> conn \<Rightarrow> conn" where
  "connSend enc wr now dat closeAfterWrite waits c0 =
     (let p = sc_nextSend c0; c = c0\<lparr>sc_nextSend := Suc p\<rparr>
      in if sc_closed c \<or> sc_closing c
         then (if waits then callCompletion p OutClosed c else c)
         else if \<not> sc_codec c
         then let c1 = (if waits then callCompletion p OutAbandoned c else c)
              in if closeAfterWrite then connClose c1 else c1
         else let c1 = (if closeAfterWrite then c\<lparr>sc_closing := True\<rparr> else c);
                  pending = \<lparr>ps_data = dat, ps_closeAfterWrite = closeAfterWrite, ps_abandoned = False,
                             ps_started = False, ps_submitted = False\<rparr>;
                  c2 = updSend p (\<lambda>_. pending) c1;
                  c3 = (if waits then c2\<lparr>sc_completionSends := sc_completionSends c2 @ [p]\<rparr> else c2)
              in drainSendQueue enc wr now (c3\<lparr>sc_pendingSends := sc_pendingSends c3 @ [p]\<rparr>))"

definition sendPlainFrame where
  "sendPlainFrame enc wr now dat = connSend enc wr now dat False False"

definition sendAndWait where
  "sendAndWait enc wr now dat = connSend enc wr now dat False True"

definition sendAndClose where
  "sendAndClose enc wr now dat = connSend enc wr now dat True False"

text \<open>The timer of a completion, the socket's write callback, and the two callbacks of an
  encoding that was a promise (\<open>then(write, fail)\<close>, then \<open>finally(complete)\<close>).\<close>

definition onSendTimeout :: "nat \<Rightarrow> conn \<Rightarrow> conn" where
  "onSendTimeout p c =
     (let c1 = updSend p (\<lambda>s. s\<lparr>ps_abandoned := True\<rparr>) c;
          c2 = settlePendingSend p OutTimeout c1
      in if ps_started (sc_sends c2 p) \<or> sc_encoding c2 then connClose c2 else c2)"

definition onWriteCallback :: "nat \<Rightarrow> bool \<Rightarrow> conn \<Rightarrow> conn" where
  "onWriteCallback p failed c = settlePendingSend p (if failed then OutWriteFailed else OutWritten) c"

definition onEncodeSettled :: "(nat \<Rightarrow> writeResult) \<Rightarrow> int \<Rightarrow> nat \<Rightarrow> bytes option \<Rightarrow> conn \<Rightarrow> conn" where
  "onEncodeSettled wr now p result c =
     (let c1 = c\<lparr>sc_encodePromise := None, sc_encodeCompleting := True\<rparr>
      in case result of Some b \<Rightarrow> writeFrame wr now p b c1 | None \<Rightarrow> failFrame p c1)"

definition onEncodeComplete ::
  "(nat \<Rightarrow> bytes \<Rightarrow> encodeResult) \<Rightarrow> (nat \<Rightarrow> writeResult) \<Rightarrow> int \<Rightarrow> conn \<Rightarrow> conn" where
  "onEncodeComplete enc wr now c =
     drainSendQueue enc wr now (c\<lparr>sc_encodeCompleting := False, sc_encoding := False\<rparr>)"

end
