(* ===== verification/Server_Connection_Safety.thy ===== *)
theory Server_Connection_Safety
  imports Server_Connection
begin

text \<open>
  What the sending half of a transport connection promises, over every interleaving of
  sends, timers, write callbacks, asynchronous encodings and closes: the system is the step
  relation \<open>connStep\<close>, its invariant \<open>conn_ok\<close>.
\<close>

section \<open>Fields an operation leaves alone\<close>

lemma finish_frame [simp]:
  "sc_encoding (finishPendingClose c) = sc_encoding c"
  "sc_encodePromise (finishPendingClose c) = sc_encodePromise c"
  "sc_encodeCompleting (finishPendingClose c) = sc_encodeCompleting c"
  "sc_written (finishPendingClose c) = sc_written c"
  "sc_nextSend (finishPendingClose c) = sc_nextSend c"
  "sc_sends (finishPendingClose c) = sc_sends c"
  by (simp_all add: finishPendingClose_def split: option.split)

lemma settle_frame [simp]:
  "sc_encoding (settlePendingSend p out c) = sc_encoding c"
  "sc_encodePromise (settlePendingSend p out c) = sc_encodePromise c"
  "sc_encodeCompleting (settlePendingSend p out c) = sc_encodeCompleting c"
  "sc_written (settlePendingSend p out c) = sc_written c"
  "sc_nextSend (settlePendingSend p out c) = sc_nextSend c"
  "sc_sends (settlePendingSend p out c) = sc_sends c"
  by (simp_all add: settlePendingSend_def callCompletion_def)

lemma settle_fold_frame:
  assumes "\<And>p c. f (settlePendingSend p out c) = f c"
  shows "f (fold (\<lambda>p c. if \<not> ps_submitted (sc_sends c p) then settlePendingSend p out c else c) ps c) = f c"
  using assms by (induction ps arbitrary: c) auto

lemma settle_all_frame [simp]:
  "sc_encoding (settlePendingSends out c) = sc_encoding c"
  "sc_encodePromise (settlePendingSends out c) = sc_encodePromise c"
  "sc_encodeCompleting (settlePendingSends out c) = sc_encodeCompleting c"
  "sc_written (settlePendingSends out c) = sc_written c"
  "sc_nextSend (settlePendingSends out c) = sc_nextSend c"
  "sc_sends (settlePendingSends out c) = sc_sends c"
  using settle_fold_frame [of sc_encoding] settle_fold_frame [of sc_encodePromise]
    settle_fold_frame [of sc_encodeCompleting] settle_fold_frame [of sc_written]
    settle_fold_frame [of sc_nextSend] settle_fold_frame [of sc_sends]
  by (simp_all add: settlePendingSends_def)

lemma close_frame [simp]:
  "sc_encoding (connClose c) = sc_encoding c"
  "sc_encodePromise (connClose c) = sc_encodePromise c"
  "sc_encodeCompleting (connClose c) = sc_encodeCompleting c"
  "sc_written (connClose c) = sc_written c"
  "sc_nextSend (connClose c) = sc_nextSend c"
  by (simp_all add: connClose_def)

lemma updSend_frame [simp]:
  "sc_encoding (updSend p f c) = sc_encoding c"
  "sc_encodePromise (updSend p f c) = sc_encodePromise c"
  "sc_encodeCompleting (updSend p f c) = sc_encodeCompleting c"
  by (simp_all add: updSend_def)

lemma fail_frame [simp]:
  "sc_encoding (failFrame p c) = sc_encoding c"
  "sc_encodePromise (failFrame p c) = sc_encodePromise c"
  "sc_encodeCompleting (failFrame p c) = sc_encodeCompleting c"
  by (simp_all add: failFrame_def)

lemma write_frame [simp]:
  "sc_encoding (writeFrame wr now p b c) = sc_encoding c"
  "sc_encodePromise (writeFrame wr now p b c) = sc_encodePromise c"
  "sc_encodeCompleting (writeFrame wr now p b c) = sc_encodeCompleting c"
  by (simp_all add: writeFrame_def Let_def split: writeResult.split)

text \<open>On a closed connection settling only calls completions.\<close>

lemma settle_closed:
  "sc_closed c \<Longrightarrow> p \<in> set (sc_completionSends c) \<Longrightarrow>
   settlePendingSend p out c =
     c\<lparr>sc_completionSends := removeAll p (sc_completionSends c), sc_settled := sc_settled c @ [(p, out)]\<rparr>"
  by (simp add: settlePendingSend_def callCompletion_def finishPendingClose_def split: option.split)

lemma settle_fold_closed:
  assumes "sc_closed c" and "distinct ps" and "set ps \<subseteq> set (sc_completionSends c)"
  shows "fold (\<lambda>p c. if \<not> ps_submitted (sc_sends c p) then settlePendingSend p out c else c) ps c =
    c\<lparr>sc_completionSends := filter (\<lambda>p. p \<notin> set ps \<or> ps_submitted (sc_sends c p)) (sc_completionSends c),
      sc_settled := sc_settled c @ map (\<lambda>p. (p, out)) (filter (\<lambda>p. \<not> ps_submitted (sc_sends c p)) ps)\<rparr>"
  using assms
proof (induction ps arbitrary: c)
  case (Cons p ps)
  show ?case
  proof (cases "ps_submitted (sc_sends c p)")
    case True
    then have "filter (\<lambda>q. q \<notin> set (p # ps) \<or> ps_submitted (sc_sends c q)) (sc_completionSends c) =
        filter (\<lambda>q. q \<notin> set ps \<or> ps_submitted (sc_sends c q)) (sc_completionSends c)"
      by (intro filter_cong) auto
    with True Cons.prems Cons.IH [of c] show ?thesis by simp
  next
    case False
    let ?c = "c\<lparr>sc_completionSends := removeAll p (sc_completionSends c), sc_settled := sc_settled c @ [(p, out)]\<rparr>"
    have "settlePendingSend p out c = ?c"
      using Cons.prems by (intro settle_closed) auto
    moreover have "set ps \<subseteq> set (sc_completionSends ?c)" using Cons.prems by auto
    moreover have "filter (\<lambda>q. q \<notin> set (p # ps) \<or> ps_submitted (sc_sends c q)) (sc_completionSends c) =
        filter (\<lambda>q. p \<noteq> q \<and> (q \<in> set ps \<longrightarrow> ps_submitted (sc_sends c q))) (sc_completionSends c)"
      using False by (intro filter_cong) auto
    ultimately show ?thesis
      using False Cons.prems Cons.IH [of ?c] by (simp add: removeAll_filter_not_eq)
  qed
qed simp

lemma settlePendingSends_closed:
  assumes "sc_closed c" and "distinct (sc_completionSends c)"
  shows "settlePendingSends out c =
    c\<lparr>sc_pendingSends := [],
      sc_completionSends := filter (\<lambda>p. ps_submitted (sc_sends c p)) (sc_completionSends c),
      sc_settled := sc_settled c @ map (\<lambda>p. (p, out)) (filter (\<lambda>p. \<not> ps_submitted (sc_sends c p)) (sc_completionSends c))\<rparr>"
proof -
  have "filter (\<lambda>p. p \<notin> set (sc_completionSends c) \<or> ps_submitted (sc_sends c p)) (sc_completionSends c) =
      filter (\<lambda>p. ps_submitted (sc_sends c p)) (sc_completionSends c)"
    by (intro filter_cong) auto
  with settle_fold_closed [of "c\<lparr>sc_pendingSends := []\<rparr>" "sc_completionSends c" out] assms
  show ?thesis by (simp add: settlePendingSends_def)
qed

section \<open>The invariant\<close>

text \<open>\<open>js\<close> is the send being encoded or written, if any: it is in no queue.\<close>

definition order_inv :: "nat list \<Rightarrow> conn \<Rightarrow> bool" where
  "order_inv js c \<longleftrightarrow>
     sorted_wrt (<) (map fst (sc_written c) @ js @ sc_pendingSends c @ [sc_nextSend c])"

definition completion_inv :: "conn \<Rightarrow> bool" where
  "completion_inv c \<longleftrightarrow>
     distinct (sc_completionSends c @ map fst (sc_settled c)) \<and>
     (\<forall>p \<in> set (sc_completionSends c @ map fst (sc_settled c)). p < sc_nextSend c)"

definition waiting_inv :: "nat list \<Rightarrow> conn \<Rightarrow> bool" where
  "waiting_inv js c \<longleftrightarrow>
     (\<forall>p \<in> set (sc_completionSends c). \<not> ps_abandoned (sc_sends c p) \<and> \<not> ps_closeAfterWrite (sc_sends c p) \<and>
        (ps_submitted (sc_sends c p) \<or> \<not> sc_closed c \<and> p \<in> set (js @ sc_pendingSends c)))"

definition closing_inv :: "nat list \<Rightarrow> conn \<Rightarrow> bool" where
  "closing_inv js c \<longleftrightarrow>
     (sc_closed c \<longrightarrow> sc_pendingSends c = [] \<and> sc_closing c) \<and>
     (sc_ended c \<noteq> None \<longrightarrow> sc_closed c \<and> sc_completionSends c = [] \<and> \<not> sc_destroyed c) \<and>
     (sc_destroyed c \<longrightarrow> sc_closed c) \<and>
     (sc_pendingCloseFrame c \<noteq> None \<longrightarrow> sc_closing c) \<and>
     (\<forall>p \<in> set (js @ sc_pendingSends c). ps_closeAfterWrite (sc_sends c p) \<longrightarrow> sc_closing c)"

definition conn_inv :: "nat list \<Rightarrow> conn \<Rightarrow> bool" where
  "conn_inv js c \<longleftrightarrow> order_inv js c \<and> completion_inv c \<and> waiting_inv js c \<and> closing_inv js c"

lemmas conn_inv_defs = conn_inv_def order_inv_def completion_inv_def waiting_inv_def closing_inv_def

definition close_waits :: "conn \<Rightarrow> bool" where
  "close_waits c \<longleftrightarrow> (sc_pendingCloseFrame c \<noteq> None \<longrightarrow> sc_closed c \<or> sc_completionSends c \<noteq> [])"

lemma close_waits_finish: "close_waits (finishPendingClose c)"
  by (auto simp: close_waits_def finishPendingClose_def split: option.split)

lemma close_waits_settle: "close_waits c \<Longrightarrow> close_waits (settlePendingSend p out c)"
  by (simp add: settlePendingSend_def close_waits_finish)

lemma finish_inv: "conn_inv js c \<Longrightarrow> conn_inv js (finishPendingClose c)"
  by (auto simp: conn_inv_defs finishPendingClose_def sorted_wrt_append split: option.split)

lemma settle_inv: "conn_inv js c \<Longrightarrow> conn_inv js (settlePendingSend p out c)"
  unfolding settlePendingSend_def callCompletion_def
  by (auto intro!: finish_inv) (auto simp: conn_inv_defs distinct_removeAll)

lemma shut_eq:
  assumes "completion_inv c"
  shows "settlePendingSends OutClosed (c\<lparr>sc_closed := True, sc_readPaused := False, sc_closing := True\<rparr>) =
    c\<lparr>sc_closed := True, sc_readPaused := False, sc_closing := True, sc_pendingSends := [],
      sc_completionSends := filter (\<lambda>p. ps_submitted (sc_sends c p)) (sc_completionSends c),
      sc_settled := sc_settled c @
        map (\<lambda>p. (p, OutClosed)) (filter (\<lambda>p. \<not> ps_submitted (sc_sends c p)) (sc_completionSends c))\<rparr>"
  using assms by (subst settlePendingSends_closed) (simp_all add: completion_inv_def)

lemma socketClose_inv:
  assumes inv: "conn_inv js c"
  shows "conn_inv js (onSocketClose c)"
proof -
  have c: "completion_inv c" using inv by (simp add: conn_inv_def)
  have "order_inv js (onSocketClose c)"
    using inv by (auto simp: onSocketClose_def shut_eq c conn_inv_def order_inv_def sorted_wrt_append)
  moreover have "completion_inv (onSocketClose c)"
    using inv by (auto simp: onSocketClose_def shut_eq c conn_inv_def completion_inv_def comp_def)
  moreover have "waiting_inv js (onSocketClose c)"
    using inv by (auto simp: onSocketClose_def shut_eq c conn_inv_def waiting_inv_def)
  moreover have "closing_inv js (onSocketClose c)"
    using inv by (auto simp: onSocketClose_def shut_eq c conn_inv_def closing_inv_def)
  ultimately show ?thesis by (simp add: conn_inv_def)
qed

lemma ended_socketClose: "completion_inv c \<Longrightarrow> sc_ended (onSocketClose c) = sc_ended c"
  by (simp add: onSocketClose_def shut_eq)

lemma connClose_eq: "connClose c = (if sc_closed c then c else (onSocketClose c)\<lparr>sc_destroyed := True\<rparr>)"
  by (simp add: connClose_def onSocketClose_def)

lemma closed_socketClose: "completion_inv c \<Longrightarrow> sc_closed (onSocketClose c)"
  by (simp add: onSocketClose_def shut_eq)

lemma destroyed_inv:
  "conn_inv js c \<Longrightarrow> sc_closed c \<Longrightarrow> sc_ended c = None \<Longrightarrow> conn_inv js (c\<lparr>sc_destroyed := True\<rparr>)"
  by (auto simp: conn_inv_defs)

lemma close_inv:
  assumes inv: "conn_inv js c"
  shows "conn_inv js (connClose c)"
proof (cases "sc_closed c")
  case False
  have c: "completion_inv c" using inv by (simp add: conn_inv_def)
  have "sc_ended c = None" using inv False by (simp add: conn_inv_def closing_inv_def)
  then show ?thesis
    using False inv c
    by (simp add: connClose_eq destroyed_inv socketClose_inv closed_socketClose ended_socketClose)
qed (simp add: connClose_eq inv)

lemma closed_close: "completion_inv c \<Longrightarrow> sc_closed (connClose c)"
  by (simp add: connClose_eq closed_socketClose)

lemma close_waits_close: "completion_inv c \<Longrightarrow> close_waits (connClose c)"
  by (simp add: close_waits_def closed_close)

section \<open>Writing a frame\<close>

text \<open>The send being encoded is the only job: after \<open>write\<close> or \<open>fail\<close> there is none.\<close>

lemma conn_inv_drop_job:
  "conn_inv [p] c \<Longrightarrow> p \<notin> set (sc_completionSends c) \<or> ps_submitted (sc_sends c p) \<Longrightarrow> conn_inv [] c"
  by (auto simp: conn_inv_defs sorted_wrt_append)

lemma settled_not_waiting: "completion_inv c \<Longrightarrow> p \<notin> set (sc_completionSends (settlePendingSend p out c))"
  by (auto simp: settlePendingSend_def callCompletion_def finishPendingClose_def split: option.split)

lemma submit_inv:
  assumes "conn_inv [p] c" and "\<not> ps_closeAfterWrite (sc_sends c p)"
  shows "conn_inv [] (updSend p (\<lambda>s. s\<lparr>ps_submitted := True\<rparr>) c)"
  using assms by (auto simp: conn_inv_defs updSend_def sorted_wrt_append)

lemma submit_written_inv:
  assumes "conn_inv [p] c" and "\<not> ps_closeAfterWrite (sc_sends c p)"
    and "c' = updSend p (\<lambda>s. s\<lparr>ps_submitted := True\<rparr>) c"
  shows "conn_inv [] (c'\<lparr>sc_written := sc_written c' @ [(p, b)], sc_backpressuredSince := w\<rparr>)"
  using assms by (auto simp: conn_inv_defs updSend_def sorted_wrt_append)

lemma fail_inv:
  assumes "conn_inv [p] c"
  shows "conn_inv [] (failFrame p c)"
proof -
  let ?c = "settlePendingSend p OutEncodeFailed c"
  have "completion_inv c" using assms by (simp add: conn_inv_def)
  with assms have "conn_inv [] ?c"
    by (intro conn_inv_drop_job [of p] settle_inv disjI1 settled_not_waiting)
  then show ?thesis by (simp add: failFrame_def close_inv)
qed

lemma write_inv:
  assumes inv: "conn_inv [p] c"
  shows "conn_inv [] (writeFrame wr now p b c)"
proof -
  consider (closed) "sc_closed c"
    | (abandoned) "\<not> sc_closed c" "ps_abandoned (sc_sends c p)"
    | (final) "\<not> sc_closed c" "\<not> ps_abandoned (sc_sends c p)" "ps_closeAfterWrite (sc_sends c p)"
    | (plain) "\<not> sc_closed c" "\<not> ps_abandoned (sc_sends c p)" "\<not> ps_closeAfterWrite (sc_sends c p)"
    by blast
  then show ?thesis
  proof cases
    case closed
    have "completion_inv c" using inv by (simp add: conn_inv_def)
    with inv closed show ?thesis
      by (simp add: writeFrame_def conn_inv_drop_job [of p] settle_inv settled_not_waiting)
  next
    case abandoned
    then have "p \<notin> set (sc_completionSends c)" using inv by (auto simp: conn_inv_defs)
    with inv abandoned show ?thesis by (simp add: writeFrame_def conn_inv_drop_job)
  next
    case final
    then have "p \<notin> set (sc_completionSends c)" using inv by (auto simp: conn_inv_defs)
    with inv have "conn_inv [] c" by (simp add: conn_inv_drop_job)
    moreover have "sc_closing c" using inv final by (simp add: conn_inv_def closing_inv_def)
    ultimately have "conn_inv [] (c\<lparr>sc_pendingCloseFrame := Some b\<rparr>)" by (auto simp: conn_inv_defs)
    with final show ?thesis by (simp add: writeFrame_def finish_inv)
  next
    case plain
    have "conn_inv [] (connClose (settlePendingSend p OutWriteFailed (updSend p (\<lambda>s. s\<lparr>ps_submitted := True\<rparr>) c)))"
      using inv plain by (intro close_inv settle_inv submit_inv)
    moreover have "conn_inv [] (let c' = updSend p (\<lambda>s. s\<lparr>ps_submitted := True\<rparr>) c
        in c'\<lparr>sc_written := sc_written c' @ [(p, b)]\<rparr>)"
      using submit_written_inv [OF inv _ refl, where b = b and w = "sc_backpressuredSince c"] plain
      by (simp add: Let_def updSend_def)
    ultimately show ?thesis
      using plain submit_written_inv [OF inv _ refl]
      by (auto simp: writeFrame_def Let_def split: writeResult.split)
  qed
qed

lemma completion_inv_settle: "completion_inv c \<Longrightarrow> completion_inv (settlePendingSend p out c)"
  by (auto simp: settlePendingSend_def callCompletion_def finishPendingClose_def completion_inv_def
      distinct_removeAll split: option.split)

lemma close_waits_fail: "conn_inv [p] c \<Longrightarrow> close_waits (failFrame p c)"
  using settle_inv [of "[p]" c p OutEncodeFailed]
  by (simp add: failFrame_def conn_inv_def close_waits_close)

lemma close_waits_write:
  assumes "conn_inv [p] c" and "close_waits c"
  shows "close_waits (writeFrame wr now p b c)"
proof -
  have "completion_inv (updSend p (\<lambda>s. s\<lparr>ps_submitted := True\<rparr>) c)"
    using assms(1) by (simp add: conn_inv_def completion_inv_def updSend_def)
  then have "close_waits (connClose (settlePendingSend p OutWriteFailed (updSend p (\<lambda>s. s\<lparr>ps_submitted := True\<rparr>) c)))"
    by (intro close_waits_close completion_inv_settle)
  with assms(2) show ?thesis
    by (auto simp: writeFrame_def Let_def close_waits_settle close_waits_finish split: writeResult.split)
      (auto simp: close_waits_def updSend_def)
qed

section \<open>The send queue\<close>

definition current_job :: "conn \<Rightarrow> nat list" where
  "current_job c = (case sc_encodePromise c of None \<Rightarrow> [] | Some p \<Rightarrow> [p])"

definition conn_busy :: "conn \<Rightarrow> bool" where
  "conn_busy c \<longleftrightarrow>
     conn_inv (current_job c) c \<and> close_waits c \<and>
     (sc_encoding c \<longleftrightarrow> sc_encodePromise c \<noteq> None \<or> sc_encodeCompleting c) \<and>
     \<not> (sc_encodePromise c \<noteq> None \<and> sc_encodeCompleting c)"

text \<open>\<open>conn_ok\<close> holds between any two events: then an idle encoder has an empty queue.\<close>

definition conn_ok :: "conn \<Rightarrow> bool" where
  "conn_ok c \<longleftrightarrow> conn_busy c \<and> (\<not> sc_encoding c \<longrightarrow> sc_pendingSends c = [])"

lemma drain_ok: "conn_busy c \<Longrightarrow> conn_ok (drainSendQueue enc wr now c)"
proof (induction enc wr now c rule: drainSendQueue.induct)
  case (1 enc wr now c)
  show ?case
  proof (cases "sc_encoding c \<or> sc_closed c \<or> sc_pendingSends c = []")
    case True
    then have "drainSendQueue enc wr now c = c"
      by (subst drainSendQueue.simps) (auto split: list.split)
    moreover have "sc_closed c \<Longrightarrow> sc_pendingSends c = []"
      using "1.prems" by (simp add: conn_busy_def conn_inv_def closing_inv_def)
    ultimately show ?thesis using "1.prems" True by (auto simp: conn_ok_def)
  next
    case False
    then obtain p rest where q: "sc_pendingSends c = p # rest" by (cases "sc_pendingSends c") auto
    from False "1.prems" have inv: "conn_inv [] c" and idle: "sc_encodePromise c = None" "\<not> sc_encodeCompleting c"
      and waits: "close_waits c"
      by (auto simp: conn_busy_def current_job_def)
    show ?thesis
    proof (cases "ps_abandoned (sc_sends c p)")
      case True
      have "conn_inv [] (c\<lparr>sc_pendingSends := rest\<rparr>)"
        using inv q True by (auto simp: conn_inv_defs sorted_wrt_append)
      then have "conn_busy (c\<lparr>sc_pendingSends := rest\<rparr>)"
        using idle waits False by (simp add: conn_busy_def current_job_def close_waits_def)
      with "1.IH"(1) [OF _ q refl True] False q True show ?thesis
        by (subst drainSendQueue.simps) simp
    next
      case fresh: False
      let ?c = "updSend p (\<lambda>s. s\<lparr>ps_started := True\<rparr>) (c\<lparr>sc_pendingSends := rest, sc_encoding := True\<rparr>)"
      have job: "conn_inv [p] ?c"
        using inv q by (auto simp: conn_inv_defs updSend_def)
      have waits': "close_waits ?c" using waits by (simp add: close_waits_def updSend_def)
      show ?thesis
      proof (cases "enc p (ps_data (sc_sends c p))")
        case (EncNow b)
        let ?d = "(writeFrame wr now p b ?c)\<lparr>sc_encoding := False\<rparr>"
        have "conn_inv [] (writeFrame wr now p b ?c)" "close_waits (writeFrame wr now p b ?c)"
          using job waits' by (simp_all add: write_inv close_waits_write)
        then have "conn_busy ?d"
          using idle by (simp add: conn_busy_def current_job_def conn_inv_defs close_waits_def)
        with "1.IH"(2) [OF _ q refl fresh refl EncNow] False q fresh EncNow show ?thesis
          by (subst drainSendQueue.simps) simp
      next
        case EncThrows
        let ?d = "(failFrame p ?c)\<lparr>sc_encoding := False\<rparr>"
        have "conn_inv [] (failFrame p ?c)" "close_waits (failFrame p ?c)"
          using job by (simp_all add: fail_inv close_waits_fail)
        then have "conn_busy ?d"
          using idle by (simp add: conn_busy_def current_job_def conn_inv_defs close_waits_def)
        with "1.IH"(3) [OF _ q refl fresh refl EncThrows] False q fresh EncThrows show ?thesis
          by (subst drainSendQueue.simps) simp
      next
        case EncPromise
        have "conn_inv [p] (?c\<lparr>sc_encodePromise := Some p\<rparr>)"
          using job by (simp add: conn_inv_defs)
        then have "conn_ok (?c\<lparr>sc_encodePromise := Some p\<rparr>)"
          using idle waits' by (simp add: conn_ok_def conn_busy_def current_job_def close_waits_def updSend_def)
        with False q fresh EncPromise show ?thesis
          by (subst drainSendQueue.simps) simp
      qed
    qed
  qed
qed

section \<open>Every event keeps the invariant\<close>

lemma conn_ok_transfer:
  assumes "conn_ok c" and "\<And>js. conn_inv js c \<Longrightarrow> conn_inv js d" and "close_waits d"
    and "sc_encoding d = sc_encoding c" and "sc_encodePromise d = sc_encodePromise c"
    and "sc_encodeCompleting d = sc_encodeCompleting c"
    and "sc_pendingSends c = [] \<Longrightarrow> sc_pendingSends d = []"
  shows "conn_ok d"
  using assms by (simp add: conn_ok_def conn_busy_def current_job_def)

lemma conn_okD: "conn_ok c \<Longrightarrow> completion_inv c \<and> close_waits c"
  by (simp add: conn_ok_def conn_busy_def conn_inv_def)

lemma settle_ok: "conn_ok c \<Longrightarrow> conn_ok (settlePendingSend p out c)"
  using pendingSends_settle [of p out c]
  by (rule_tac conn_ok_transfer [of c]) (simp_all add: settle_inv close_waits_settle conn_okD)

lemma close_ok: "conn_ok c \<Longrightarrow> conn_ok (connClose c)"
  using pendingSends_close [of c]
  by (rule_tac conn_ok_transfer [of c]) (simp_all add: close_inv close_waits_close conn_okD)

lemma socketClose_ok: "conn_ok c \<Longrightarrow> conn_ok (onSocketClose c)"
  by (rule conn_ok_transfer [of c])
    (simp_all add: socketClose_inv conn_okD close_waits_def closed_socketClose,
     simp_all add: onSocketClose_def pendingSends_settle_all)

lemma settle_updSend: "settlePendingSend p out (updSend q f c) = updSend q f (settlePendingSend p out c)"
  by (simp add: settlePendingSend_def callCompletion_def finishPendingClose_def updSend_def split: option.split)

lemma abandon_ok:
  assumes "conn_ok c" and "p \<notin> set (sc_completionSends c)"
  shows "conn_ok (updSend p (\<lambda>s. s\<lparr>ps_abandoned := True\<rparr>) c)"
proof -
  have "conn_inv js c \<Longrightarrow> conn_inv js (updSend p (\<lambda>s. s\<lparr>ps_abandoned := True\<rparr>) c)" for js
    using assms(2) by (auto simp: conn_inv_defs updSend_def)
  with assms(1) show ?thesis
    by (simp add: conn_ok_def conn_busy_def current_job_def close_waits_def) (simp add: updSend_def)
qed

lemma timeout_ok: "conn_ok c \<Longrightarrow> conn_ok (onSendTimeout p c)"
proof -
  assume ok: "conn_ok c"
  then have "completion_inv c" by (simp add: conn_ok_def conn_busy_def conn_inv_def)
  with ok have "conn_ok (updSend p (\<lambda>s. s\<lparr>ps_abandoned := True\<rparr>) (settlePendingSend p OutTimeout c))"
    by (intro abandon_ok settle_ok settled_not_waiting)
  then show ?thesis
    by (simp add: onSendTimeout_def settle_updSend Let_def close_ok del: updSend_frame)
qed

lemma encodeSettled_ok:
  assumes "conn_ok c" and p: "sc_encodePromise c = Some p"
  shows "conn_ok (onEncodeSettled wr now p result c)"
proof -
  let ?c = "c\<lparr>sc_encodePromise := None, sc_encodeCompleting := True\<rparr>"
  from assms have "conn_inv [p] c" and "close_waits c" and enc: "sc_encoding c"
    by (simp_all add: conn_ok_def conn_busy_def current_job_def)
  then have job: "conn_inv [p] ?c" and waits: "close_waits ?c"
    by (simp_all add: conn_inv_defs close_waits_def)
  then have "conn_inv [] (case result of Some b \<Rightarrow> writeFrame wr now p b ?c | None \<Rightarrow> failFrame p ?c)"
    and "close_waits (case result of Some b \<Rightarrow> writeFrame wr now p b ?c | None \<Rightarrow> failFrame p ?c)"
    by (simp_all add: write_inv fail_inv close_waits_write close_waits_fail split: option.split)
  with enc show ?thesis
    by (simp add: onEncodeSettled_def Let_def conn_ok_def conn_busy_def current_job_def split: option.splits)
qed

lemma encodeComplete_ok:
  assumes "conn_ok c" and "sc_encodeCompleting c"
  shows "conn_ok (onEncodeComplete enc wr now c)"
proof -
  from assms have "conn_busy (c\<lparr>sc_encodeCompleting := False, sc_encoding := False\<rparr>)"
    by (auto simp: conn_ok_def conn_busy_def current_job_def conn_inv_defs close_waits_def)
  then show ?thesis by (simp add: onEncodeComplete_def drain_ok)
qed

lemma new_send_inv:
  assumes "conn_inv js c" and "\<not> sc_closed c" and "cl \<Longrightarrow> \<not> waits"
    and "s = \<lparr>ps_data = dat, ps_closeAfterWrite = cl, ps_abandoned = False, ps_started = False, ps_submitted = False\<rparr>"
  shows "conn_inv js (c\<lparr>sc_nextSend := Suc (sc_nextSend c), sc_closing := sc_closing c \<or> cl,
     sc_sends := (sc_sends c)(sc_nextSend c := s),
     sc_completionSends := sc_completionSends c @ (if waits then [sc_nextSend c] else []),
     sc_pendingSends := sc_pendingSends c @ [sc_nextSend c]\<rparr>)"
    (is "conn_inv js ?c")
proof -
  have "order_inv js ?c"
    using assms(1) by (force simp: conn_inv_def order_inv_def sorted_wrt_append)
  moreover have "completion_inv ?c"
    using assms(1) by (auto simp: conn_inv_def completion_inv_def less_Suc_eq)
  moreover have "waiting_inv js ?c"
    using assms by (auto simp: conn_inv_def waiting_inv_def completion_inv_def)
  moreover have "closing_inv js ?c"
    using assms by (auto simp: conn_inv_def closing_inv_def)
  ultimately show ?thesis by (simp add: conn_inv_def)
qed

lemma skipped_inv:
  assumes "conn_inv js c" and "c' = c\<lparr>sc_nextSend := Suc (sc_nextSend c)\<rparr>"
  shows "conn_inv js c'" and "conn_inv js (callCompletion (sc_nextSend c) out c')"
proof -
  have "order_inv js c'"
    using assms by (auto simp: conn_inv_def order_inv_def sorted_wrt_append less_SucI)
  moreover have "completion_inv c'" and "completion_inv (callCompletion (sc_nextSend c) out c')"
    using assms by (auto simp: conn_inv_def completion_inv_def callCompletion_def less_SucI)
  moreover have "waiting_inv js c'" and "closing_inv js c'"
    using assms by (simp_all add: conn_inv_def waiting_inv_def closing_inv_def)
  ultimately show "conn_inv js c'" and "conn_inv js (callCompletion (sc_nextSend c) out c')"
    by (simp_all add: conn_inv_def order_inv_def waiting_inv_def closing_inv_def callCompletion_def)
qed

lemma skipped_send_ok: "conn_ok c \<Longrightarrow> conn_ok (c\<lparr>sc_nextSend := Suc (sc_nextSend c)\<rparr>)"
  using conn_okD [of c]
  by (rule_tac conn_ok_transfer [of c]) (simp_all add: skipped_inv, simp add: close_waits_def)

lemma refused_send_ok:
  "conn_ok c \<Longrightarrow> conn_ok (callCompletion (sc_nextSend c) out (c\<lparr>sc_nextSend := Suc (sc_nextSend c)\<rparr>))"
  using conn_okD [of c]
  by (rule_tac conn_ok_transfer [of c])
    (simp_all add: skipped_inv, simp_all add: callCompletion_def close_waits_def)

lemma send_ok:
  assumes ok: "conn_ok c" and "cl \<Longrightarrow> \<not> waits"
  shows "conn_ok (connSend enc wr now dat cl waits c)"
proof -
  let ?s = "\<lparr>ps_data = dat, ps_closeAfterWrite = cl, ps_abandoned = False, ps_started = False, ps_submitted = False\<rparr>"
  let ?c = "c\<lparr>sc_nextSend := Suc (sc_nextSend c), sc_closing := sc_closing c \<or> cl,
     sc_sends := (sc_sends c)(sc_nextSend c := ?s),
     sc_completionSends := sc_completionSends c @ (if waits then [sc_nextSend c] else []),
     sc_pendingSends := sc_pendingSends c @ [sc_nextSend c]\<rparr>"
  show ?thesis
  proof (cases "sc_closed c \<or> sc_closing c \<or> \<not> sc_codec c")
    case True
    with ok show ?thesis
      by (auto simp: connSend_def Let_def refused_send_ok skipped_send_ok close_ok)
  next
    case False
    from ok False have "conn_busy ?c"
      using new_send_inv [of "current_job c" c cl waits ?s dat] assms(2)
      by (auto simp: conn_ok_def conn_busy_def current_job_def close_waits_def)
    moreover have "connSend enc wr now dat cl waits c = drainSendQueue enc wr now ?c"
      using False
      by (auto simp: connSend_def Let_def updSend_def intro!: arg_cong [where f = "drainSendQueue enc wr now"])
    ultimately show ?thesis by (simp add: drain_ok)
  qed
qed

section \<open>The connection as a system\<close>

inductive connStep :: "conn \<Rightarrow> conn \<Rightarrow> bool" where
  send: "connStep c (sendPlainFrame enc wr now dat c)"
| sendWait: "connStep c (sendAndWait enc wr now dat c)"
| sendClose: "connStep c (sendAndClose enc wr now dat c)"
| timeout: "p \<in> set (sc_completionSends c) \<Longrightarrow> connStep c (onSendTimeout p c)"
| written: "ps_submitted (sc_sends c p) \<Longrightarrow> connStep c (onWriteCallback p failed c)"
| encodeSettled: "sc_encodePromise c = Some p \<Longrightarrow> connStep c (onEncodeSettled wr now p result c)"
| encodeComplete: "sc_encodeCompleting c \<Longrightarrow> connStep c (onEncodeComplete enc wr now c)"
| close: "connStep c (connClose c)"
| socketClosed: "connStep c (onSocketClose c)"
| drain: "connStep c (onDrain c)"
| pause: "connStep c (pauseReading c)"
| resume: "connStep c (resumeReading c)"
| detected: "connStep c (c\<lparr>sc_codec := True\<rparr>)"

inductive connReach :: "conn \<Rightarrow> bool" where
  start: "connReach newConn"
| step: "connReach c \<Longrightarrow> connStep c d \<Longrightarrow> connReach d"

inductive_cases connStepE: "connStep c d"

lemma fields_ok [simp]:
  "conn_ok (c\<lparr>sc_backpressuredSince := b\<rparr>) = conn_ok c"
  "conn_ok (c\<lparr>sc_readPaused := r, sc_socketPaused := s\<rparr>) = conn_ok c"
  "conn_ok (c\<lparr>sc_codec := k\<rparr>) = conn_ok c"
  by (simp_all add: conn_ok_def conn_busy_def current_job_def conn_inv_defs close_waits_def)

lemma step_ok: "connStep c d \<Longrightarrow> conn_ok c \<Longrightarrow> conn_ok d"
  by (induction rule: connStep.induct)
    (simp_all add: sendPlainFrame_def sendAndWait_def sendAndClose_def send_ok timeout_ok onWriteCallback_def
      settle_ok encodeSettled_ok encodeComplete_ok close_ok socketClose_ok onDrain_def pauseReading_def
      resumeReading_def)

lemma newConn_ok: "conn_ok newConn"
  by (simp add: newConn_def conn_ok_def conn_busy_def current_job_def conn_inv_defs close_waits_def)

lemma reach_ok: "connReach c \<Longrightarrow> conn_ok c"
  by (induction rule: connReach.induct) (auto intro: newConn_ok step_ok)

section \<open>No completion is lost\<close>

text \<open>The sends whose completion the connection still owes or has already called.\<close>

definition tracked :: "conn \<Rightarrow> nat set" where
  "tracked c = set (sc_completionSends c) \<union> fst ` set (sc_settled c)"

lemma tracked_finish [simp]: "tracked (finishPendingClose c) = tracked c"
  by (simp add: tracked_def finishPendingClose_def split: option.split)

lemma tracked_updSend [simp]: "tracked (updSend p f c) = tracked c"
  by (simp add: tracked_def updSend_def)

lemma tracked_fields [simp]:
  "tracked (c\<lparr>sc_pendingSends := q\<rparr>) = tracked c"
  "tracked (c\<lparr>sc_closed := x, sc_readPaused := y\<rparr>) = tracked c"
  "tracked (c\<lparr>sc_encoding := x\<rparr>) = tracked c"
  "tracked (c\<lparr>sc_written := w\<rparr>) = tracked c"
  "tracked (c\<lparr>sc_backpressuredSince := t\<rparr>) = tracked c"
  "tracked (c\<lparr>sc_destroyed := x\<rparr>) = tracked c"
  "tracked (c\<lparr>sc_encodePromise := e\<rparr>) = tracked c"
  "tracked (c\<lparr>sc_encodeCompleting := x\<rparr>) = tracked c"
  "tracked (c\<lparr>sc_pendingCloseFrame := b\<rparr>) = tracked c"
  "tracked (c\<lparr>sc_nextSend := n\<rparr>) = tracked c"
  "tracked (c\<lparr>sc_closing := z\<rparr>) = tracked c"
  "tracked (c\<lparr>sc_codec := z\<rparr>) = tracked c"
  "tracked (c\<lparr>sc_readPaused := x, sc_socketPaused := y\<rparr>) = tracked c"
  by (simp_all add: tracked_def)

lemma tracked_settle [simp]: "tracked (settlePendingSend p out c) = tracked c"
  by (auto simp: settlePendingSend_def callCompletion_def) (auto simp: tracked_def)

lemma tracked_settle_all [simp]: "tracked (settlePendingSends out c) = tracked c"
  using settle_fold_frame [of tracked out] by (simp add: settlePendingSends_def)

lemma tracked_close [simp]: "tracked (connClose c) = tracked c"
  by (simp add: connClose_eq onSocketClose_def)

lemma tracked_write [simp]: "tracked (writeFrame wr now p b c) = tracked c"
  by (simp add: writeFrame_def Let_def split: writeResult.split)

lemma tracked_fail [simp]: "tracked (failFrame p c) = tracked c"
  by (simp add: failFrame_def)

lemma tracked_drain [simp]: "tracked (drainSendQueue enc wr now c) = tracked c"
proof (induction enc wr now c rule: drainSendQueue.induct)
  case (1 enc wr now c)
  then show ?case
    by (subst drainSendQueue.simps) (auto simp: Let_def split: list.split encodeResult.split)
qed

lemma tracked_send:
  "tracked (connSend enc wr now dat cl waits c) = (if waits then insert (sc_nextSend c) (tracked c) else tracked c)"
proof -
  have call: "tracked (callCompletion p out d) = insert p (tracked d)" for p out d
    by (auto simp: tracked_def callCompletion_def)
  have add: "tracked (c\<lparr>sc_completionSends := sc_completionSends c @ [p]\<rparr>) = insert p (tracked c)" for p c
    by (auto simp: tracked_def)
  show ?thesis by (simp add: connSend_def Let_def call add)
qed

lemma tracked_step: "connStep c d \<Longrightarrow> tracked c \<subseteq> tracked d"
  by (induction rule: connStep.induct)
    (auto simp: sendPlainFrame_def sendAndWait_def sendAndClose_def tracked_send onSendTimeout_def
      onWriteCallback_def onEncodeSettled_def onEncodeComplete_def onSocketClose_def onDrain_def
      pauseReading_def resumeReading_def Let_def split: option.splits)

lemma tracked_steps: "connStep\<^sup>*\<^sup>* c d \<Longrightarrow> tracked c \<subseteq> tracked d"
  by (induction rule: rtranclp_induct) (auto dest: tracked_step)

section \<open>A closed connection\<close>

definition same_output :: "conn \<Rightarrow> conn \<Rightarrow> bool" where
  "same_output c d \<longleftrightarrow> sc_closed d \<and> sc_written d = sc_written c \<and> sc_ended d = sc_ended c \<and>
     sc_socketPaused d = sc_socketPaused c"

lemma finish_closed: "sc_closed c \<Longrightarrow> finishPendingClose c = c"
  by (simp add: finishPendingClose_def split: option.split)

lemma settle_output: "sc_closed c \<Longrightarrow> same_output c (settlePendingSend p out c)"
  by (simp add: same_output_def settlePendingSend_def callCompletion_def finish_closed)

lemma fail_output: "sc_closed c \<Longrightarrow> same_output c (failFrame p c)"
  using settle_output [of c p OutEncodeFailed] by (simp add: failFrame_def connClose_def same_output_def)

lemma write_output: "sc_closed c \<Longrightarrow> same_output c (writeFrame wr now p b c)"
  by (simp add: writeFrame_def settle_output)

lemma drain_closed: "sc_closed c \<Longrightarrow> drainSendQueue enc wr now c = c"
  by (subst drainSendQueue.simps) simp

lemma step_closed_output:
  assumes "connStep c d" and "sc_closed c" and "completion_inv c"
  shows "same_output c d"
  using assms
proof (induction rule: connStep.induct)
  case (timeout p c)
  have "same_output c (updSend p f (settlePendingSend p out c))" for out f
    using settle_output [OF timeout.prems(1)] by (simp add: same_output_def updSend_def)
  then show ?case
    by (simp add: onSendTimeout_def settle_updSend Let_def connClose_def same_output_def)
next
  case (encodeSettled c p wr now result)
  let ?c = "c\<lparr>sc_encodePromise := None, sc_encodeCompleting := True\<rparr>"
  have "same_output ?c (case result of Some b \<Rightarrow> writeFrame wr now p b ?c | None \<Rightarrow> failFrame p ?c)"
    using encodeSettled.prems by (simp add: write_output fail_output split: option.split)
  then show ?case by (simp add: onEncodeSettled_def Let_def same_output_def)
next
  case (socketClosed c)
  then show ?case by (simp add: onSocketClose_def shut_eq same_output_def)
qed (simp_all add: sendPlainFrame_def sendAndWait_def sendAndClose_def connSend_def Let_def same_output_def
    callCompletion_def onWriteCallback_def settle_output [unfolded same_output_def] onEncodeComplete_def
    drain_closed connClose_def onDrain_def pauseReading_def resumeReading_def)

section \<open>A concrete run\<close>

text \<open>Three sends on an encrypted transport: the first is written at once, the second waits
  for an asynchronous encoding, the third closes the connection after writing.\<close>

definition demoEnc :: "nat \<Rightarrow> bytes \<Rightarrow> encodeResult" where
  "demoEnc p b = (if p = 1 then EncPromise else EncNow (b @ [0]))"

definition demoConn :: conn where
  "demoConn =
     (let wr = (\<lambda>_. WrBuffered);
          c1 = newConn\<lparr>sc_codec := True\<rparr>;
          c2 = sendAndWait demoEnc wr 5 [1] c1;
          c3 = sendAndWait demoEnc wr 6 [2] c2;
          c4 = sendAndClose demoEnc wr 7 [3] c3
      in onEncodeComplete demoEnc wr 9 (onEncodeSettled wr 8 1 (Some [7]) c4))"

lemma demoConn_run:
  "sc_written demoConn = [(0, [1, 0]), (1, [7])]" "sc_completionSends demoConn = [0, 1]"
  "sc_pendingSends demoConn = []" "sc_encodePromise demoConn = None"
  "sc_pendingCloseFrame demoConn = Some [3, 0]" "\<not> sc_closed demoConn" "sc_ended demoConn = None"
  by code_simp+

lemma demoConn_reach: "connReach demoConn"
proof -
  let ?wr = "\<lambda>_. WrBuffered"
  let ?c4 = "sendAndClose demoEnc ?wr 7 [3] (sendAndWait demoEnc ?wr 6 [2] (sendAndWait demoEnc ?wr 5 [1]
      (newConn\<lparr>sc_codec := True\<rparr>)))"
  have "connReach ?c4"
    by (intro connReach.step [OF _ connStep.sendClose] connReach.step [OF _ connStep.sendWait]
        connReach.step [OF _ connStep.detected] connReach.start)
  moreover have "sc_encodePromise ?c4 = Some 1" by code_simp
  moreover have "sc_encodeCompleting (onEncodeSettled ?wr 8 1 (Some [7]) ?c4)" by code_simp
  ultimately show ?thesis
    unfolding demoConn_def Let_def
    by (intro connReach.step [OF _ connStep.encodeComplete] connReach.step [OF _ connStep.encodeSettled])
qed

section \<open>Properties\<close>

text \<open>
  C7. The completion of a \<open>sendAndWait\<close> is called at most once, and never while it is still
  outstanding. A completion that is still outstanding belongs to a frame that was handed to
  the socket, or, on an open connection only, to one that is queued or being encoded.
\<close>

theorem completion_called_once:
  assumes "connReach c"
  shows "distinct (map fst (sc_settled c)) \<and> set (sc_completionSends c) \<inter> fst ` set (sc_settled c) = {} \<and>
    (\<forall>p \<in> set (sc_completionSends c). ps_submitted (sc_sends c p) \<or>
       \<not> sc_closed c \<and> (p \<in> set (sc_pendingSends c) \<or> sc_encodePromise c = Some p))"
  using reach_ok [OF assms]
  by (auto simp: conn_ok_def conn_busy_def conn_inv_def completion_inv_def waiting_inv_def current_job_def
      split: option.splits)

theorem completion_called_once_witness:
  "distinct (map fst (sc_settled demoConn)) \<and> set (sc_completionSends demoConn) = {0, 1} \<and>
   ps_submitted (sc_sends demoConn 1)"
  using completion_called_once [OF demoConn_reach] by (auto simp: demoConn_run)

text \<open>
  No completion is lost: after \<open>sendAndWait\<close> has been called, in every later state its
  completion has been called or is still outstanding, whatever timers, failures and closes
  happened in between.
\<close>

theorem completion_never_lost:
  assumes "connStep\<^sup>*\<^sup>* (sendAndWait enc wr now dat c) d"
  shows "sc_nextSend c \<in> set (sc_completionSends d) \<or> sc_nextSend c \<in> fst ` set (sc_settled d)"
proof -
  have "sc_nextSend c \<in> tracked (sendAndWait enc wr now dat c)"
    by (simp add: sendAndWait_def tracked_send)
  with tracked_steps [OF assms] have "sc_nextSend c \<in> tracked d" by blast
  then show ?thesis by (simp add: tracked_def)
qed

theorem completion_never_lost_witness:
  "let d = connClose (sendAndWait demoEnc (\<lambda>_. WrThrows) 5 [1] (newConn\<lparr>sc_codec := True\<rparr>))
   in 0 \<in> fst ` set (sc_settled d) \<and> sc_completionSends d = []"
proof -
  let ?c = "newConn\<lparr>sc_codec := True\<rparr>"
  let ?d = "connClose (sendAndWait demoEnc (\<lambda>_. WrThrows) 5 [1] ?c)"
  have "sc_completionSends ?d = []" by code_simp
  moreover have "sc_nextSend ?c = 0" by code_simp
  ultimately show ?thesis
    using completion_never_lost [of demoEnc "\<lambda>_. WrThrows" 5 "[1]" ?c ?d] connStep.close
    by (auto simp: Let_def)
qed

text \<open>
  C4. Frames reach the socket in the order of the send calls and none twice, although the
  encodings may be asynchronous: the numbers of the frames written are strictly increasing
  and below those of the frames still being encoded or queued. The encoder is never idle
  while a frame waits.
\<close>

theorem frames_in_send_order:
  assumes "connReach c"
  shows "sorted_wrt (<) (map fst (sc_written c)) \<and> sorted_wrt (<) (sc_pendingSends c) \<and>
    (\<forall>p \<in> fst ` set (sc_written c). (\<forall>q \<in> set (sc_pendingSends c). p < q) \<and>
       (\<forall>q. sc_encodePromise c = Some q \<longrightarrow> p < q)) \<and>
    (sc_pendingSends c \<noteq> [] \<longrightarrow> sc_encoding c)"
  using reach_ok [OF assms]
  by (auto simp: conn_ok_def conn_busy_def conn_inv_def order_inv_def current_job_def sorted_wrt_append
      split: option.splits)

theorem frames_in_send_order_witness:
  "sorted_wrt (<) (map fst (sc_written demoConn)) \<and> sc_written demoConn = [(0, [1, 0]), (1, [7])]"
  using frames_in_send_order [OF demoConn_reach] by (auto simp: demoConn_run)

text \<open>
  A closed connection stays silent: it never writes or ends again, never resumes or pauses
  the socket, and stays closed. The frame of \<open>sendAndClose\<close> is given to \<open>socket.end\<close> only
  after every completion was called, and such a socket is never destroyed; on an open
  connection that frame is held back only while a completion is outstanding.
\<close>

theorem closed_connection_is_silent:
  assumes "connReach c" and "connStep c d"
  shows "(sc_closed c \<longrightarrow> sc_closed d \<and> sc_written d = sc_written c \<and> sc_ended d = sc_ended c \<and>
      sc_socketPaused d = sc_socketPaused c) \<and>
    (sc_ended d \<noteq> None \<longrightarrow> sc_closed d \<and> sc_completionSends d = [] \<and> \<not> sc_destroyed d) \<and>
    (sc_pendingCloseFrame d \<noteq> None \<and> \<not> sc_closed d \<longrightarrow> sc_completionSends d \<noteq> [])"
proof -
  have c: "conn_ok c" and d: "conn_ok d"
    using assms connReach.step by (blast intro: reach_ok)+
  have "sc_closed c \<Longrightarrow> same_output c d"
    using assms(2) c by (simp add: step_closed_output conn_okD)
  moreover have "closing_inv (current_job d) d" and "close_waits d"
    using d by (simp_all add: conn_ok_def conn_busy_def conn_inv_def)
  ultimately show ?thesis by (auto simp: same_output_def closing_inv_def close_waits_def)
qed

theorem closed_connection_is_silent_witness:
  "let d = onWriteCallback 1 False (onWriteCallback 0 False demoConn)
   in sc_ended d = Some [3, 0] \<and> sc_completionSends d = [] \<and> \<not> sc_destroyed d"
proof -
  let ?c = "onWriteCallback 0 False demoConn"
  let ?d = "onWriteCallback 1 False ?c"
  have "ps_submitted (sc_sends demoConn 0)" and "ps_submitted (sc_sends ?c 1)" by code_simp+
  then have "connReach ?c" and "connStep ?c ?d"
    using demoConn_reach by (blast intro: connReach.step connStep.written)+
  moreover have "sc_ended ?d = Some [3, 0]" by code_simp
  ultimately show ?thesis
    using closed_connection_is_silent [of ?c ?d] by (auto simp: Let_def)
qed

end
