(* ===== verification/Session_Flow.thy ===== *)
theory Session_Flow
  imports Server_Connection_Safety "HOL-Library.Sublist"
begin

text \<open>
  Flow control of a session (\<open>packages/mtproto/src/session/server-session.ts\<close>): the queue of
  received frames with its drain loop, the slots that bound the RPCs a connection runs at
  once, and the two reasons for which reading from the socket is paused. It uses the
  connection of \<open>Server_Connection\<close> through \<open>pauseReading\<close>, \<open>resumeReading\<close> and \<open>close\<close>.

  An RPC waiting for a slot is named by a number; \<open>fl_slotResults\<close> records what its promise
  was resolved with (\<open>True\<close>: a slot, \<open>False\<close>: \<open>null\<close>), \<open>fl_grants\<close> the slots whose
  \<open>release\<close> closure has not been called. \<open>fl_started\<close> records the frames given to
  \<open>_onRawData\<close>, \<open>fl_accepted\<close> those that entered the queue.
\<close>

section \<open>Limits\<close>

definition MAX_ACTIVE_RPCS_PER_CONNECTION :: nat where "MAX_ACTIVE_RPCS_PER_CONNECTION = 16"
definition MAX_PENDING_RPCS_PER_CONNECTION :: nat where "MAX_PENDING_RPCS_PER_CONNECTION = 64"
definition RPC_READ_PAUSE_THRESHOLD :: nat where "RPC_READ_PAUSE_THRESHOLD = 32"
definition RPC_READ_RESUME_THRESHOLD :: nat where "RPC_READ_RESUME_THRESHOLD = 16"
definition FRAME_READ_PAUSE_COUNT :: nat where "FRAME_READ_PAUSE_COUNT = 32"
definition FRAME_READ_RESUME_COUNT :: nat where "FRAME_READ_RESUME_COUNT = 16"
definition FRAME_READ_PAUSE_BYTES :: nat where "FRAME_READ_PAUSE_BYTES = 4 * 1024 * 1024"
definition FRAME_READ_RESUME_BYTES :: nat where "FRAME_READ_RESUME_BYTES = 2 * 1024 * 1024"
definition MAX_QUEUED_FRAMES :: nat where "MAX_QUEUED_FRAMES = 128"
definition MAX_QUEUED_FRAME_BYTES :: nat where "MAX_QUEUED_FRAME_BYTES = 16 * 1024 * 1024"

lemmas flow_limits = MAX_ACTIVE_RPCS_PER_CONNECTION_def MAX_PENDING_RPCS_PER_CONNECTION_def
  RPC_READ_PAUSE_THRESHOLD_def RPC_READ_RESUME_THRESHOLD_def FRAME_READ_PAUSE_COUNT_def
  FRAME_READ_RESUME_COUNT_def FRAME_READ_PAUSE_BYTES_def FRAME_READ_RESUME_BYTES_def
  MAX_QUEUED_FRAMES_def MAX_QUEUED_FRAME_BYTES_def

section \<open>State\<close>

text \<open>\<open>_handshakeIngress\<close>: frames pending for the handshake and whether its handler is set.\<close>

record ingress =
  in_pending :: "bytes list"
  in_handler :: bool

record flow =
  fl_conn :: conn
  fl_handshakeIngress :: "ingress option"
  fl_frameQueue :: "bytes list"
  fl_queuedFrameBytes :: nat
  fl_drainingFrames :: bool
  fl_frameReadPaused :: bool
  fl_activeRpcCount :: nat
  fl_rpcWaiters :: "nat list"
  fl_rpcReadPaused :: bool
  fl_disposed :: bool
  fl_nextRpc :: nat
  fl_grants :: "nat list"
  fl_slotResults :: "(nat \<times> bool) list"
  fl_accepted :: "bytes list"
  fl_started :: "bytes list"
  fl_toHandler :: "bytes list"

definition newFlow :: "conn \<Rightarrow> flow" where
  "newFlow c = \<lparr>fl_conn = c, fl_handshakeIngress = None, fl_frameQueue = [], fl_queuedFrameBytes = 0,
     fl_drainingFrames = False, fl_frameReadPaused = False, fl_activeRpcCount = 0, fl_rpcWaiters = [],
     fl_rpcReadPaused = False, fl_disposed = False, fl_nextRpc = 0, fl_grants = [], fl_slotResults = [],
     fl_accepted = [], fl_started = [], fl_toHandler = []\<rparr>"

abbreviation flowClosed :: "flow \<Rightarrow> bool" where
  "flowClosed s \<equiv> sc_closed (fl_conn s)"

section \<open>Received frames\<close>

definition updateFrameReadPressure :: "flow \<Rightarrow> flow" where
  "updateFrameReadPressure s =
     (if \<not> fl_frameReadPaused s \<and>
         (length (fl_frameQueue s) \<ge> FRAME_READ_PAUSE_COUNT \<or> fl_queuedFrameBytes s \<ge> FRAME_READ_PAUSE_BYTES)
      then s\<lparr>fl_frameReadPaused := True, fl_conn := pauseReading (fl_conn s)\<rparr>
      else if fl_frameReadPaused s \<and> length (fl_frameQueue s) \<le> FRAME_READ_RESUME_COUNT \<and>
              fl_queuedFrameBytes s \<le> FRAME_READ_RESUME_BYTES
      then (let s1 = s\<lparr>fl_frameReadPaused := False\<rparr>
            in if \<not> fl_rpcReadPaused s1 then s1\<lparr>fl_conn := resumeReading (fl_conn s1)\<rparr> else s1)
      else s)"

lemma pressure_keeps [simp]:
  "fl_frameQueue (updateFrameReadPressure s) = fl_frameQueue s"
  "fl_queuedFrameBytes (updateFrameReadPressure s) = fl_queuedFrameBytes s"
  "fl_drainingFrames (updateFrameReadPressure s) = fl_drainingFrames s"
  "fl_disposed (updateFrameReadPressure s) = fl_disposed s"
  "fl_rpcReadPaused (updateFrameReadPressure s) = fl_rpcReadPaused s"
  "fl_rpcWaiters (updateFrameReadPressure s) = fl_rpcWaiters s"
  "fl_activeRpcCount (updateFrameReadPressure s) = fl_activeRpcCount s"
  "fl_grants (updateFrameReadPressure s) = fl_grants s"
  "fl_slotResults (updateFrameReadPressure s) = fl_slotResults s"
  "fl_nextRpc (updateFrameReadPressure s) = fl_nextRpc s"
  "fl_accepted (updateFrameReadPressure s) = fl_accepted s"
  "fl_started (updateFrameReadPressure s) = fl_started s"
  "sc_closed (fl_conn (updateFrameReadPressure s)) = sc_closed (fl_conn s)"
  by (simp_all add: updateFrameReadPressure_def Let_def pauseReading_def resumeReading_def)

text \<open>
  The loop of \<open>_drainRawFrames\<close>, from the loop test to the next \<open>await _onRawData(data)\<close> or
  to the end of its \<open>finally\<close> block; \<open>rawFrameDone\<close> is the continuation after the await.
\<close>

function drainLoop :: "flow \<Rightarrow> flow" where
  "drainLoop s =
     (if \<not> fl_disposed s \<and> \<not> flowClosed s \<and> fl_frameQueue s \<noteq> []
      then let dat = hd (fl_frameQueue s);
               s1 = s\<lparr>fl_frameQueue := tl (fl_frameQueue s),
                      fl_queuedFrameBytes := fl_queuedFrameBytes s - length dat\<rparr>;
               s2 = updateFrameReadPressure s1
           in s2\<lparr>fl_started := fl_started s2 @ [dat]\<rparr>
      else let s1 = updateFrameReadPressure (s\<lparr>fl_drainingFrames := False\<rparr>)
           in if \<not> fl_disposed s1 \<and> \<not> flowClosed s1 \<and> fl_frameQueue s1 \<noteq> []
              then drainLoop (s1\<lparr>fl_drainingFrames := True\<rparr>)
              else s1)"
  by pat_completeness auto
termination by (relation "measure (\<lambda>_. 0)") auto

declare drainLoop.simps [simp del]

definition drainRawFrames :: "flow \<Rightarrow> flow" where
  "drainRawFrames s = (if fl_drainingFrames s then s else drainLoop (s\<lparr>fl_drainingFrames := True\<rparr>))"

definition rawFrameDone :: "flow \<Rightarrow> flow" where
  "rawFrameDone s = drainLoop s"

definition enqueueRawFrame :: "bytes \<Rightarrow> flow \<Rightarrow> flow" where
  "enqueueRawFrame dat s =
     (if fl_disposed s \<or> flowClosed s then s
      else case fl_handshakeIngress s of
             Some h \<Rightarrow>
               (if in_handler h then s\<lparr>fl_toHandler := fl_toHandler s @ [dat]\<rparr>
                else s\<lparr>fl_handshakeIngress := Some (h\<lparr>in_pending := in_pending h @ [dat]\<rparr>)\<rparr>)
           | None \<Rightarrow>
               if length (fl_frameQueue s) \<ge> MAX_QUEUED_FRAMES \<or>
                  fl_queuedFrameBytes s + length dat > MAX_QUEUED_FRAME_BYTES
               then s\<lparr>fl_conn := connClose (fl_conn s)\<rparr>
               else let s1 = s\<lparr>fl_frameQueue := fl_frameQueue s @ [dat],
                               fl_queuedFrameBytes := fl_queuedFrameBytes s + length dat,
                               fl_accepted := fl_accepted s @ [dat]\<rparr>;
                        s2 = updateFrameReadPressure s1
                    in if \<not> fl_drainingFrames s2 then drainRawFrames s2 else s2)"

section \<open>RPC slots\<close>

definition resolveSlot :: "nat \<Rightarrow> bool \<Rightarrow> flow \<Rightarrow> flow" where
  "resolveSlot p granted s =
     s\<lparr>fl_slotResults := fl_slotResults s @ [(p, granted)],
       fl_grants := (if granted then fl_grants s @ [p] else fl_grants s)\<rparr>"

definition acquireRpcSlot :: "flow \<Rightarrow> flow" where
  "acquireRpcSlot s0 =
     (let p = fl_nextRpc s0; s = s0\<lparr>fl_nextRpc := Suc p\<rparr>
      in if fl_disposed s \<or> flowClosed s then resolveSlot p False s
         else if fl_activeRpcCount s < MAX_ACTIVE_RPCS_PER_CONNECTION
         then resolveSlot p True (s\<lparr>fl_activeRpcCount := fl_activeRpcCount s + 1\<rparr>)
         else if length (fl_rpcWaiters s) \<ge> MAX_PENDING_RPCS_PER_CONNECTION then resolveSlot p False s
         else let s1 = (if \<not> fl_rpcReadPaused s \<and> length (fl_rpcWaiters s) \<ge> RPC_READ_PAUSE_THRESHOLD
                        then s\<lparr>fl_rpcReadPaused := True, fl_conn := pauseReading (fl_conn s)\<rparr> else s)
              in s1\<lparr>fl_rpcWaiters := fl_rpcWaiters s1 @ [p]\<rparr>)"

text \<open>The closure made by \<open>_rpcSlotRelease\<close>; its flag \<open>released\<close> is membership in \<open>fl_grants\<close>.\<close>

definition rpcSlotRelease :: "nat \<Rightarrow> flow \<Rightarrow> flow" where
  "rpcSlotRelease p s0 =
     (if p \<notin> set (fl_grants s0) then s0
      else let s = s0\<lparr>fl_grants := removeAll p (fl_grants s0)\<rparr>;
               s1 = (case fl_rpcWaiters s of
                       [] \<Rightarrow> s\<lparr>fl_activeRpcCount := fl_activeRpcCount s - 1\<rparr>
                     | next # rest \<Rightarrow>
                         let s' = s\<lparr>fl_rpcWaiters := rest\<rparr>
                         in if \<not> fl_disposed s' \<and> \<not> flowClosed s' then resolveSlot next True s'
                            else resolveSlot next False (s'\<lparr>fl_activeRpcCount := fl_activeRpcCount s' - 1\<rparr>))
           in if fl_rpcReadPaused s1 \<and> length (fl_rpcWaiters s1) \<le> RPC_READ_RESUME_THRESHOLD
              then let s2 = s1\<lparr>fl_rpcReadPaused := False\<rparr>
                   in if \<not> fl_frameReadPaused s2 then s2\<lparr>fl_conn := resumeReading (fl_conn s2)\<rparr> else s2
              else s1)"

definition releasePendingRpcWaiters :: "flow \<Rightarrow> flow" where
  "releasePendingRpcWaiters s =
     (fold (\<lambda>p. resolveSlot p False) (fl_rpcWaiters s) (s\<lparr>fl_rpcWaiters := []\<rparr>))
       \<lparr>fl_activeRpcCount := 0, fl_rpcReadPaused := False\<rparr>"

text \<open>The disposer registered by \<open>start\<close>.\<close>

definition disposeFlow :: "flow \<Rightarrow> flow" where
  "disposeFlow s =
     releasePendingRpcWaiters (s\<lparr>fl_disposed := True, fl_frameQueue := [], fl_queuedFrameBytes := 0\<rparr>)"

end
