(* ===== verification/Session_Flow_Safety.thy ===== *)
theory Session_Flow_Safety
  imports Session_Flow "HOL-Library.Multiset"
begin

text \<open>
  Correctness of the session's flow control: queue limits, slot limits and first-come
  first-served slots, and the absence of a lost resume.

  The locale \<open>read_gate\<close> is what the session relies on in the connection: a switch that
  pauses and resumes reading while the connection is open. Two independent reasons to pause
  are kept in step with it by the discipline proved inside the locale: set a reason and pause,
  clear a reason and resume only when the other one is clear.
\<close>

section \<open>The gate\<close>

locale read_gate =
  fixes paused :: "'c \<Rightarrow> bool" and shut :: "'c \<Rightarrow> bool"
    and pause :: "'c \<Rightarrow> 'c" and resume :: "'c \<Rightarrow> 'c"
  assumes paused_pause: "\<not> shut c \<Longrightarrow> paused (pause c)"
    and paused_resume: "\<not> shut c \<Longrightarrow> \<not> paused (resume c)"
    and shut_pause: "shut (pause c) = shut c"
    and shut_resume: "shut (resume c) = shut c"
begin

definition in_step :: "bool \<Rightarrow> bool \<Rightarrow> 'c \<Rightarrow> bool" where
  "in_step a b c \<longleftrightarrow> (\<not> shut c \<longrightarrow> paused c = (a \<or> b))"

lemma in_step_pause: "in_step True b (pause c)" "in_step a True (pause c)"
  by (simp_all add: in_step_def paused_pause shut_pause)

lemma in_step_resume: "in_step False False (resume c)"
  by (simp add: in_step_def paused_resume shut_resume)

lemma in_step_other: "in_step a True c \<Longrightarrow> in_step a' True c" "in_step True b c \<Longrightarrow> in_step True b' c"
  by (simp_all add: in_step_def)

lemma in_step_shut: "shut c \<Longrightarrow> in_step a b c"
  by (simp add: in_step_def)

end

interpretation gate: read_gate sc_readPaused sc_closed pauseReading resumeReading
  by unfold_locales (auto simp: pauseReading_def resumeReading_def)

section \<open>Invariants\<close>

definition frames_inv :: "flow \<Rightarrow> bool" where
  "frames_inv s \<longleftrightarrow>
     fl_queuedFrameBytes s = sum_list (map length (fl_frameQueue s)) \<and>
     length (fl_frameQueue s) \<le> MAX_QUEUED_FRAMES \<and> fl_queuedFrameBytes s \<le> MAX_QUEUED_FRAME_BYTES \<and>
     (if fl_disposed s then prefix (fl_started s) (fl_accepted s)
      else fl_accepted s = fl_started s @ fl_frameQueue s) \<and>
     (\<not> fl_disposed s \<and> \<not> flowClosed s \<and> fl_frameQueue s \<noteq> [] \<longrightarrow> fl_drainingFrames s)"

definition slots_inv :: "flow \<Rightarrow> bool" where
  "slots_inv s \<longleftrightarrow>
     fl_activeRpcCount s \<le> MAX_ACTIVE_RPCS_PER_CONNECTION \<and>
     (\<not> fl_disposed s \<longrightarrow> fl_activeRpcCount s = length (fl_grants s)) \<and>
     length (fl_rpcWaiters s) \<le> MAX_PENDING_RPCS_PER_CONNECTION \<and>
     (fl_disposed s \<longrightarrow> fl_rpcWaiters s = []) \<and>
     (\<not> flowClosed s \<and> fl_rpcWaiters s \<noteq> [] \<longrightarrow> fl_activeRpcCount s = MAX_ACTIVE_RPCS_PER_CONNECTION)"

definition waiters_inv :: "flow \<Rightarrow> bool" where
  "waiters_inv s \<longleftrightarrow>
     mset (map fst (fl_slotResults s) @ fl_rpcWaiters s) = mset [0..<fl_nextRpc s] \<and>
     sorted_wrt (<) (fl_rpcWaiters s) \<and>
     distinct (fl_grants s) \<and>
     (\<forall>p \<in> set (fl_grants s). (p, True) \<in> set (fl_slotResults s)) \<and>
     (\<forall>p q. (p, True) \<in> set (fl_slotResults s) \<longrightarrow> q \<in> set (fl_rpcWaiters s) \<longrightarrow> p < q)"

definition frame_pause_inv :: "flow \<Rightarrow> bool" where
  "frame_pause_inv s \<longleftrightarrow> fl_disposed s \<or>
     (if fl_frameReadPaused s
      then length (fl_frameQueue s) > FRAME_READ_RESUME_COUNT \<or> fl_queuedFrameBytes s > FRAME_READ_RESUME_BYTES
      else length (fl_frameQueue s) < FRAME_READ_PAUSE_COUNT \<and> fl_queuedFrameBytes s < FRAME_READ_PAUSE_BYTES)"

definition rpc_pause_inv :: "flow \<Rightarrow> bool" where
  "rpc_pause_inv s \<longleftrightarrow>
     (if fl_rpcReadPaused s then length (fl_rpcWaiters s) > RPC_READ_RESUME_THRESHOLD
      else length (fl_rpcWaiters s) \<le> RPC_READ_PAUSE_THRESHOLD)"

definition gate_inv :: "flow \<Rightarrow> bool" where
  "gate_inv s \<longleftrightarrow> connReach (fl_conn s) \<and>
     (fl_disposed s \<or> gate.in_step (fl_frameReadPaused s) (fl_rpcReadPaused s) (fl_conn s))"

definition flow_ok :: "flow \<Rightarrow> bool" where
  "flow_ok s \<longleftrightarrow> frames_inv s \<and> slots_inv s \<and> waiters_inv s \<and> frame_pause_inv s \<and> rpc_pause_inv s \<and> gate_inv s"

text \<open>What the drain loop needs: the frame queue may be above the pause limit.\<close>

definition flow_mid :: "flow \<Rightarrow> bool" where
  "flow_mid s \<longleftrightarrow> slots_inv s \<and> waiters_inv s \<and> rpc_pause_inv s \<and> gate_inv s"

lemma conn_frame [simp]:
  "waiters_inv (s\<lparr>fl_conn := c\<rparr>) = waiters_inv s"
  "frame_pause_inv (s\<lparr>fl_conn := c\<rparr>) = frame_pause_inv s"
  "rpc_pause_inv (s\<lparr>fl_conn := c\<rparr>) = rpc_pause_inv s"
  by (simp_all add: waiters_inv_def frame_pause_inv_def rpc_pause_inv_def)

lemma mid_frame [simp]:
  "flow_mid (s\<lparr>fl_frameQueue := q\<rparr>) = flow_mid s"
  "flow_mid (s\<lparr>fl_queuedFrameBytes := b\<rparr>) = flow_mid s"
  "flow_mid (s\<lparr>fl_accepted := a\<rparr>) = flow_mid s"
  "flow_mid (s\<lparr>fl_started := a\<rparr>) = flow_mid s"
  "flow_mid (s\<lparr>fl_drainingFrames := d\<rparr>) = flow_mid s"
  by (simp_all add: flow_mid_def slots_inv_def waiters_inv_def rpc_pause_inv_def gate_inv_def)

section \<open>Pressure\<close>

lemma pressure_gate: "gate_inv s \<Longrightarrow> gate_inv (updateFrameReadPressure s)"
  by (auto simp: gate_inv_def updateFrameReadPressure_def Let_def
      intro: connReach.step connStep.pause connStep.resume gate.in_step_pause gate.in_step_resume gate.in_step_other)

lemma pressure_mid: "flow_mid s \<Longrightarrow> flow_mid (updateFrameReadPressure s)"
  by (simp add: flow_mid_def pressure_gate slots_inv_def waiters_inv_def rpc_pause_inv_def)

lemma pressure_frame_pause: "frame_pause_inv (updateFrameReadPressure s)"
  by (auto simp: frame_pause_inv_def updateFrameReadPressure_def Let_def flow_limits)

lemma pressure_frames: "frames_inv (updateFrameReadPressure s) = frames_inv s"
  by (simp add: frames_inv_def)

lemma flow_ok_pressure: "frames_inv s \<Longrightarrow> flow_mid s \<Longrightarrow> flow_ok (updateFrameReadPressure s)"
  using pressure_mid [of s] by (simp add: flow_ok_def flow_mid_def pressure_frames pressure_frame_pause)

section \<open>Frames\<close>

lemma drainLoop_ok:
  assumes "frames_inv s" and "flow_mid s" and "fl_drainingFrames s"
  shows "flow_ok (drainLoop s)"
proof (cases "\<not> fl_disposed s \<and> \<not> flowClosed s \<and> fl_frameQueue s \<noteq> []")
  case True
  then obtain d q where q: "fl_frameQueue s = d # q" by (cases "fl_frameQueue s") auto
  let ?s = "s\<lparr>fl_frameQueue := q, fl_queuedFrameBytes := fl_queuedFrameBytes s - length d,
      fl_started := fl_started s @ [d]\<rparr>"
  have comm: "updateFrameReadPressure (t\<lparr>fl_started := x\<rparr>) = (updateFrameReadPressure t)\<lparr>fl_started := x\<rparr>" for t x
    by (simp add: updateFrameReadPressure_def Let_def)
  have "drainLoop s = updateFrameReadPressure ?s"
    using True q comm [where t = "s\<lparr>fl_frameQueue := q, fl_queuedFrameBytes := fl_queuedFrameBytes s - length d\<rparr>"]
    by (subst drainLoop.simps) (simp add: Let_def)
  moreover have "frames_inv ?s"
    using assms True q by (simp add: frames_inv_def)
  moreover have "flow_mid ?s"
    using assms(2) by simp
  ultimately show ?thesis by (simp add: flow_ok_pressure)
next
  case False
  let ?s = "s\<lparr>fl_drainingFrames := False\<rparr>"
  have "drainLoop s = updateFrameReadPressure ?s"
    using False by (subst drainLoop.simps) (auto simp: Let_def)
  moreover have "frames_inv ?s"
    using assms(1) False by (simp add: frames_inv_def)
  moreover have "flow_mid ?s"
    using assms(2) by simp
  ultimately show ?thesis by (simp add: flow_ok_pressure)
qed

lemma flow_okD: "flow_ok s \<Longrightarrow> frames_inv s \<and> flow_mid s"
  by (simp add: flow_ok_def flow_mid_def)

lemma close_flow_ok: "flow_ok s \<Longrightarrow> flow_ok (s\<lparr>fl_conn := connClose (fl_conn s)\<rparr>)"
proof -
  assume ok: "flow_ok s"
  then have "connReach (fl_conn s)" by (simp add: flow_ok_def gate_inv_def)
  then have "connReach (connClose (fl_conn s))" and "sc_closed (connClose (fl_conn s))"
    by (blast intro: connReach.step connStep.close) (simp add: \<open>connReach (fl_conn s)\<close> reach_ok conn_okD closed_close)
  then have "gate_inv (s\<lparr>fl_conn := connClose (fl_conn s)\<rparr>)"
    and "frames_inv s \<Longrightarrow> frames_inv (s\<lparr>fl_conn := connClose (fl_conn s)\<rparr>)"
    and "slots_inv s \<Longrightarrow> slots_inv (s\<lparr>fl_conn := connClose (fl_conn s)\<rparr>)"
    by (simp_all add: gate_inv_def gate.in_step_shut frames_inv_def slots_inv_def)
  with ok show ?thesis
    by (simp add: flow_ok_def)
qed

lemma ingress_ok [simp]:
  "flow_ok (s\<lparr>fl_handshakeIngress := h\<rparr>) = flow_ok s"
  "flow_ok (s\<lparr>fl_toHandler := fs\<rparr>) = flow_ok s"
  by (simp_all add: flow_ok_def frames_inv_def slots_inv_def waiters_inv_def frame_pause_inv_def
      rpc_pause_inv_def gate_inv_def)

lemma enqueue_ok:
  assumes ok: "flow_ok s"
  shows "flow_ok (enqueueRawFrame dat s)"
proof -
  let ?s = "s\<lparr>fl_frameQueue := fl_frameQueue s @ [dat],
      fl_queuedFrameBytes := fl_queuedFrameBytes s + length dat, fl_accepted := fl_accepted s @ [dat]\<rparr>"
  have mid: "flow_mid ?s"
    using flow_okD [OF ok] by simp
  show ?thesis
  proof (cases "fl_disposed s \<or> flowClosed s \<or> fl_handshakeIngress s \<noteq> None")
    case True
    with ok show ?thesis
      by (auto simp: enqueueRawFrame_def split: option.split)
  next
    case open_conn: False
    show ?thesis
    proof (cases "length (fl_frameQueue s) \<ge> MAX_QUEUED_FRAMES \<or>
        fl_queuedFrameBytes s + length dat > MAX_QUEUED_FRAME_BYTES")
      case True
      with open_conn ok show ?thesis by (auto simp: enqueueRawFrame_def close_flow_ok)
    next
      case room: False
      show ?thesis
      proof (cases "fl_drainingFrames s")
        case True
        then have "frames_inv ?s"
          using ok open_conn room by (auto simp: flow_ok_def frames_inv_def)
        with True open_conn room mid show ?thesis
          by (simp add: enqueueRawFrame_def Let_def flow_ok_pressure)
      next
        case False
        then have "enqueueRawFrame dat s = drainLoop ((updateFrameReadPressure ?s)\<lparr>fl_drainingFrames := True\<rparr>)"
          using open_conn room by (simp add: enqueueRawFrame_def Let_def drainRawFrames_def)
        moreover have "frames_inv ((updateFrameReadPressure ?s)\<lparr>fl_drainingFrames := True\<rparr>)"
          using ok open_conn room by (auto simp: flow_ok_def frames_inv_def)
        moreover have "flow_mid ((updateFrameReadPressure ?s)\<lparr>fl_drainingFrames := True\<rparr>)"
          using pressure_mid [OF mid] by simp
        ultimately show ?thesis by (simp add: drainLoop_ok)
      qed
    qed
  qed
qed

section \<open>RPC slots\<close>

lemma resolve_mid:
  assumes "slots_inv s" "rpc_pause_inv s" "gate_inv s" and "\<not> granted"
  shows "slots_inv (resolveSlot p granted s)" "rpc_pause_inv (resolveSlot p granted s)"
    "gate_inv (resolveSlot p granted s)"
  using assms by (simp_all add: resolveSlot_def slots_inv_def rpc_pause_inv_def gate_inv_def)

lemma resolve_frames [simp]:
  "frames_inv (resolveSlot p g s) = frames_inv s"
  "frame_pause_inv (resolveSlot p g s) = frame_pause_inv s"
  by (simp_all add: resolveSlot_def frames_inv_def frame_pause_inv_def)

lemma slot_fields_frames [simp]:
  "frames_inv (s\<lparr>fl_nextRpc := n\<rparr>) = frames_inv s"
  "frames_inv (s\<lparr>fl_activeRpcCount := n\<rparr>) = frames_inv s"
  "frames_inv (s\<lparr>fl_rpcWaiters := w\<rparr>) = frames_inv s"
  "frames_inv (s\<lparr>fl_rpcReadPaused := b\<rparr>) = frames_inv s"
  "frames_inv (s\<lparr>fl_grants := w\<rparr>) = frames_inv s"
  "frames_inv (s\<lparr>fl_conn := pauseReading (fl_conn s)\<rparr>) = frames_inv s"
  "frames_inv (s\<lparr>fl_conn := resumeReading (fl_conn s)\<rparr>) = frames_inv s"
  "frame_pause_inv (s\<lparr>fl_nextRpc := n\<rparr>) = frame_pause_inv s"
  "frame_pause_inv (s\<lparr>fl_activeRpcCount := n\<rparr>) = frame_pause_inv s"
  "frame_pause_inv (s\<lparr>fl_rpcWaiters := w\<rparr>) = frame_pause_inv s"
  "frame_pause_inv (s\<lparr>fl_rpcReadPaused := b\<rparr>) = frame_pause_inv s"
  "frame_pause_inv (s\<lparr>fl_grants := w\<rparr>) = frame_pause_inv s"
  by (simp_all add: frames_inv_def frame_pause_inv_def gate.shut_pause gate.shut_resume)

lemma next_mset: "mset [0..<Suc n] = add_mset n (mset [0..<n])"
  by simp

lemma waiters_bound: "waiters_inv s \<Longrightarrow> p \<in> set (map fst (fl_slotResults s) @ fl_rpcWaiters s) \<Longrightarrow> p < fl_nextRpc s"
  unfolding waiters_inv_def by (metis atLeastLessThan_iff set_mset_mset set_upt)

lemma waiters_distinct: "waiters_inv s \<Longrightarrow> distinct (map fst (fl_slotResults s) @ fl_rpcWaiters s)"
  unfolding waiters_inv_def by (metis distinct_upt mset_eq_imp_distinct_iff)

lemma result_new_waiters:
  assumes "waiters_inv s" and "g \<longrightarrow> fl_rpcWaiters s = []"
  shows "waiters_inv (resolveSlot (fl_nextRpc s) g (s\<lparr>fl_nextRpc := Suc (fl_nextRpc s)\<rparr>))"
proof -
  have "fl_nextRpc s \<notin> set (fl_grants s)"
    using assms(1) waiters_bound [OF assms(1)] by (force simp: waiters_inv_def)
  with assms show ?thesis
    by (auto simp: waiters_inv_def resolveSlot_def)
qed

lemma wait_new_waiters:
  assumes "waiters_inv s"
  shows "waiters_inv (s\<lparr>fl_nextRpc := Suc (fl_nextRpc s), fl_rpcWaiters := fl_rpcWaiters s @ [fl_nextRpc s]\<rparr>)"
proof -
  have "q < fl_nextRpc s" if "q \<in> set (map fst (fl_slotResults s) @ fl_rpcWaiters s)" for q
    using that by (rule waiters_bound [OF assms])
  then have "\<forall>q \<in> set (fl_rpcWaiters s). q < fl_nextRpc s"
    and "\<And>q. (q, True) \<in> set (fl_slotResults s) \<Longrightarrow> q < fl_nextRpc s"
    by (auto, force)
  with assms show ?thesis
    by (auto simp: waiters_inv_def sorted_wrt_append)
qed

lemma acquire_ok:
  assumes ok: "flow_ok s"
  shows "flow_ok (acquireRpcSlot s)"
proof -
  let ?n = "s\<lparr>fl_nextRpc := Suc (fl_nextRpc s)\<rparr>"
  note fl = slots_inv_def rpc_pause_inv_def gate_inv_def
  have refused: "flow_ok (resolveSlot (fl_nextRpc s) False ?n)"
    using ok result_new_waiters [of s False]
    by (simp add: flow_ok_def) (simp add: fl resolveSlot_def)
  show ?thesis
  proof (cases "fl_disposed s \<or> flowClosed s \<or>
      \<not> fl_activeRpcCount s < MAX_ACTIVE_RPCS_PER_CONNECTION \<and> length (fl_rpcWaiters s) \<ge> MAX_PENDING_RPCS_PER_CONNECTION")
    case True
    with refused show ?thesis by (auto simp: acquireRpcSlot_def Let_def)
  next
    case room: False
    show ?thesis
    proof (cases "fl_activeRpcCount s < MAX_ACTIVE_RPCS_PER_CONNECTION")
      case True
      with ok room have "fl_rpcWaiters s = []" by (auto simp: flow_ok_def slots_inv_def)
      then have "waiters_inv (resolveSlot (fl_nextRpc s) True ?n)"
        using ok by (simp add: flow_ok_def result_new_waiters)
      with ok True room \<open>fl_rpcWaiters s = []\<close> show ?thesis
        by (simp add: acquireRpcSlot_def Let_def flow_ok_def)
          (auto simp: fl resolveSlot_def waiters_inv_def)
    next
      case False
      let ?w = "?n\<lparr>fl_rpcWaiters := fl_rpcWaiters s @ [fl_nextRpc s]\<rparr>"
      have w: "waiters_inv ?w" using ok by (simp add: flow_ok_def wait_new_waiters)
      have act: "fl_activeRpcCount s = MAX_ACTIVE_RPCS_PER_CONNECTION"
        using False ok by (simp add: flow_ok_def slots_inv_def)
      show ?thesis
      proof (cases "\<not> fl_rpcReadPaused s \<and> length (fl_rpcWaiters s) \<ge> RPC_READ_PAUSE_THRESHOLD")
        case True
        let ?p = "?w\<lparr>fl_rpcReadPaused := True, fl_conn := pauseReading (fl_conn ?w)\<rparr>"
        have "acquireRpcSlot s = ?p" using True False room by (simp add: acquireRpcSlot_def Let_def)
        moreover have "gate_inv ?p"
          using ok by (auto simp: flow_ok_def gate_inv_def intro: connReach.step connStep.pause gate.in_step_pause)
        moreover have "frames_inv ?p = frames_inv s"
          by (simp add: frames_inv_def gate.shut_pause)
        moreover have "slots_inv ?p"
          using ok room act by (simp add: flow_ok_def slots_inv_def gate.shut_pause)
        moreover have "waiters_inv ?p" "frame_pause_inv ?p" "rpc_pause_inv ?p"
          using ok w True by (simp_all add: flow_ok_def waiters_inv_def rpc_pause_inv_def flow_limits)
        ultimately show ?thesis using ok by (simp add: flow_ok_def)
      next
        case calm: False
        then have "acquireRpcSlot s = ?w" using False room by (auto simp: acquireRpcSlot_def Let_def)
        moreover have "flow_ok ?w"
          using ok w act calm room by (simp add: flow_ok_def) (auto simp: fl flow_limits)
        ultimately show ?thesis by simp
      qed
    qed
  qed
qed

lemma handover_waiters:
  assumes inv: "waiters_inv s" and w: "fl_rpcWaiters s = next # rest"
  shows "waiters_inv (resolveSlot next g (s\<lparr>fl_grants := removeAll p (fl_grants s), fl_rpcWaiters := rest\<rparr>))"
proof -
  have "distinct (map fst (fl_slotResults s) @ next # rest)"
    using waiters_distinct [OF inv] w by simp
  then have "\<forall>g. (next, g) \<notin> set (fl_slotResults s)" by force
  with inv w show ?thesis
    by (auto simp: waiters_inv_def resolveSlot_def distinct_removeAll)
qed

lemma shrink_waiters: "waiters_inv s \<Longrightarrow> waiters_inv (s\<lparr>fl_grants := removeAll p (fl_grants s)\<rparr>)"
  by (auto simp: waiters_inv_def distinct_removeAll)

lemma length_removeAll_distinct: "distinct xs \<Longrightarrow> p \<in> set xs \<Longrightarrow> length (removeAll p xs) = length xs - 1"
  by (simp add: distinct_remove1_removeAll [symmetric] length_remove1)

text \<open>The state after the slot was passed on, before reading may be resumed.\<close>

definition slot_passed :: "nat \<Rightarrow> flow \<Rightarrow> flow" where
  "slot_passed p s0 =
     (let s = s0\<lparr>fl_grants := removeAll p (fl_grants s0)\<rparr>
      in case fl_rpcWaiters s of
           [] \<Rightarrow> s\<lparr>fl_activeRpcCount := fl_activeRpcCount s - 1\<rparr>
         | next # rest \<Rightarrow>
             let s' = s\<lparr>fl_rpcWaiters := rest\<rparr>
             in if \<not> fl_disposed s' \<and> \<not> flowClosed s' then resolveSlot next True s'
                else resolveSlot next False (s'\<lparr>fl_activeRpcCount := fl_activeRpcCount s' - 1\<rparr>))"

lemma slot_passed_frame:
  "frames_inv (slot_passed p s) = frames_inv s" "frame_pause_inv (slot_passed p s) = frame_pause_inv s"
  "fl_disposed (slot_passed p s) = fl_disposed s" "fl_conn (slot_passed p s) = fl_conn s"
  "fl_frameReadPaused (slot_passed p s) = fl_frameReadPaused s"
  "fl_rpcReadPaused (slot_passed p s) = fl_rpcReadPaused s"
  "fl_rpcWaiters (slot_passed p s) = tl (fl_rpcWaiters s)"
  by (simp_all add: slot_passed_def Let_def resolveSlot_def frames_inv_def frame_pause_inv_def split: list.split)

lemma slot_passed_slots:
  assumes "slots_inv s" and "waiters_inv s" and "p \<in> set (fl_grants s)"
  shows "slots_inv (slot_passed p s)" and "waiters_inv (slot_passed p s)"
proof -
  have len: "length (removeAll p (fl_grants s)) = length (fl_grants s) - 1" "0 < length (fl_grants s)"
    using assms by (auto simp: waiters_inv_def length_removeAll_distinct)
  show "slots_inv (slot_passed p s)"
    using assms(1) len
    by (auto simp: slot_passed_def slots_inv_def resolveSlot_def Let_def split: list.split)
  have drop: "waiters_inv (t\<lparr>fl_activeRpcCount := n\<rparr>) = waiters_inv t" for t n
    by (simp add: waiters_inv_def)
  have comm: "resolveSlot q False (t\<lparr>fl_activeRpcCount := n\<rparr>) = (resolveSlot q False t)\<lparr>fl_activeRpcCount := n\<rparr>" for q t n
    by (simp add: resolveSlot_def)
  show "waiters_inv (slot_passed p s)"
  proof (cases "fl_rpcWaiters s")
    case Nil
    with assms(2) show ?thesis by (simp add: slot_passed_def Let_def drop shrink_waiters)
  next
    case (Cons nx rest)
    with handover_waiters [OF assms(2) Cons, of _ p] show ?thesis
      by (simp add: slot_passed_def Let_def comm drop)
  qed
qed

lemma release_eq:
  "rpcSlotRelease p s =
     (if p \<notin> set (fl_grants s) then s
      else let s1 = slot_passed p s
           in if fl_rpcReadPaused s1 \<and> length (fl_rpcWaiters s1) \<le> RPC_READ_RESUME_THRESHOLD
              then let s2 = s1\<lparr>fl_rpcReadPaused := False\<rparr>
                   in if \<not> fl_frameReadPaused s2 then s2\<lparr>fl_conn := resumeReading (fl_conn s2)\<rparr> else s2
              else s1)"
  unfolding rpcSlotRelease_def slot_passed_def Let_def ..

lemma release_ok:
  assumes ok: "flow_ok s"
  shows "flow_ok (rpcSlotRelease p s)"
proof (cases "p \<in> set (fl_grants s)")
  case True
  let ?s = "slot_passed p s"
  have inv: "frames_inv ?s" "slots_inv ?s" "waiters_inv ?s" "frame_pause_inv ?s" "gate_inv ?s"
    using ok True slot_passed_slots [of s p] by (simp_all add: flow_ok_def slot_passed_frame gate_inv_def)
  show ?thesis
  proof (cases "fl_rpcReadPaused ?s \<and> length (fl_rpcWaiters ?s) \<le> RPC_READ_RESUME_THRESHOLD")
    case resume: True
    let ?t = "if \<not> fl_frameReadPaused ?s then ?s\<lparr>fl_rpcReadPaused := False, fl_conn := resumeReading (fl_conn ?s)\<rparr>
        else ?s\<lparr>fl_rpcReadPaused := False\<rparr>"
    have "rpcSlotRelease p s = ?t"
      using True resume by (simp add: release_eq Let_def)
    moreover have "gate_inv ?t"
      using inv(5) by (auto simp: gate_inv_def intro: connReach.step connStep.resume gate.in_step_resume gate.in_step_other)
    moreover have "frames_inv ?t = frames_inv ?s" "slots_inv ?t = slots_inv ?s"
        "waiters_inv ?t = waiters_inv ?s" "frame_pause_inv ?t = frame_pause_inv ?s"
      by (simp_all add: frames_inv_def slots_inv_def waiters_inv_def frame_pause_inv_def gate.shut_resume)
    moreover have "rpc_pause_inv ?t"
      using resume by (simp add: rpc_pause_inv_def flow_limits)
    ultimately show ?thesis using inv by (simp only: flow_ok_def)
  next
    case stay: False
    then have "rpcSlotRelease p s = ?s" using True by (auto simp: release_eq Let_def)
    moreover have "rpc_pause_inv ?s"
      using stay ok by (auto simp: flow_ok_def rpc_pause_inv_def slot_passed_frame)
    ultimately show ?thesis using inv by (simp add: flow_ok_def)
  qed
qed (simp add: release_eq ok)

section \<open>Disposal\<close>

lemma release_pending_fold:
  "fold (\<lambda>p. resolveSlot p False) ps s = s\<lparr>fl_slotResults := fl_slotResults s @ map (\<lambda>p. (p, False)) ps\<rparr>"
  by (induction ps arbitrary: s) (simp_all add: resolveSlot_def)

lemma dispose_ok:
  assumes ok: "flow_ok s"
  shows "flow_ok (disposeFlow s)"
proof -
  have d: "disposeFlow s = s\<lparr>fl_disposed := True, fl_frameQueue := [], fl_queuedFrameBytes := 0, fl_rpcWaiters := [],
      fl_slotResults := fl_slotResults s @ map (\<lambda>p. (p, False)) (fl_rpcWaiters s),
      fl_activeRpcCount := 0, fl_rpcReadPaused := False\<rparr>"
    by (simp add: disposeFlow_def releasePendingRpcWaiters_def release_pending_fold)
  have "prefix (fl_started s) (fl_accepted s)"
    using ok by (auto simp: flow_ok_def frames_inv_def split: if_splits)
  then have "frames_inv (disposeFlow s)" by (simp add: d frames_inv_def)
  moreover have "waiters_inv (disposeFlow s)"
    using ok by (auto simp: d flow_ok_def waiters_inv_def comp_def image_def)
  ultimately show ?thesis
    using ok by (simp add: flow_ok_def) (simp add: d slots_inv_def frame_pause_inv_def rpc_pause_inv_def gate_inv_def)
qed

section \<open>The session as a system\<close>

text \<open>
  The other events of the connection happen to \<open>fl_conn\<close> at any time; none of them pauses or
  resumes reading, which only the session does. The handshake (another component) sets and
  clears the ingress.
\<close>

inductive flowStep :: "flow \<Rightarrow> flow \<Rightarrow> bool" where
  frame: "flowStep s (enqueueRawFrame dat s)"
| frameDone: "fl_drainingFrames s \<Longrightarrow> flowStep s (rawFrameDone s)"
| acquire: "flowStep s (acquireRpcSlot s)"
| release: "flowStep s (rpcSlotRelease p s)"
| dispose: "flowStep s (disposeFlow s)"
| connection: "connStep (fl_conn s) c \<Longrightarrow> sc_readPaused c = sc_readPaused (fl_conn s) \<or> sc_closed c \<Longrightarrow>
    flowStep s (s\<lparr>fl_conn := c\<rparr>)"
| handshake: "flowStep s (s\<lparr>fl_handshakeIngress := h\<rparr>)"

inductive flowReach :: "flow \<Rightarrow> bool" where
  start: "connReach c \<Longrightarrow> \<not> sc_readPaused c \<Longrightarrow> flowReach (newFlow c)"
| step: "flowReach s \<Longrightarrow> flowStep s t \<Longrightarrow> flowReach t"

inductive_simps flowReach_newFlow: "flowReach (newFlow c)"

lemma connection_ok:
  assumes "flow_ok s" and "connStep (fl_conn s) c" and "sc_readPaused c = sc_readPaused (fl_conn s) \<or> sc_closed c"
  shows "flow_ok (s\<lparr>fl_conn := c\<rparr>)"
proof -
  have reach: "connReach (fl_conn s)" using assms(1) by (simp add: flow_ok_def gate_inv_def)
  have "sc_closed (fl_conn s) \<Longrightarrow> sc_closed c"
    using step_closed_output [OF assms(2)] reach_ok [OF reach] by (auto simp: conn_okD same_output_def)
  moreover have "connReach c" using reach assms(2) by (rule connReach.step)
  ultimately have "gate_inv (s\<lparr>fl_conn := c\<rparr>)" and "frames_inv s \<Longrightarrow> frames_inv (s\<lparr>fl_conn := c\<rparr>)"
    and "slots_inv s \<Longrightarrow> slots_inv (s\<lparr>fl_conn := c\<rparr>)"
    using assms by (auto simp: flow_ok_def gate_inv_def gate.in_step_def frames_inv_def slots_inv_def)
  with assms(1) show ?thesis by (simp add: flow_ok_def)
qed

lemma frameDone_ok: "flow_ok s \<Longrightarrow> fl_drainingFrames s \<Longrightarrow> flow_ok (rawFrameDone s)"
  by (simp add: rawFrameDone_def flow_okD drainLoop_ok)

lemma flowStep_ok: "flowStep s t \<Longrightarrow> flow_ok s \<Longrightarrow> flow_ok t"
  by (induction rule: flowStep.induct)
    (simp_all add: enqueue_ok frameDone_ok acquire_ok release_ok dispose_ok connection_ok)

lemma newFlow_ok: "connReach c \<Longrightarrow> \<not> sc_readPaused c \<Longrightarrow> flow_ok (newFlow c)"
  by (simp add: newFlow_def flow_ok_def frames_inv_def slots_inv_def waiters_inv_def frame_pause_inv_def
      rpc_pause_inv_def gate_inv_def gate.in_step_def flow_limits)

lemma flowReach_ok: "flowReach s \<Longrightarrow> flow_ok s"
  by (induction rule: flowReach.induct) (auto intro: newFlow_ok flowStep_ok)

text \<open>A run used by the witnesses: three frames arrive, the first is being processed, and 18
  RPCs ask for a slot.\<close>

definition demoFlow :: flow where
  "demoFlow = acquireRpcSlot (acquireRpcSlot ((acquireRpcSlot ^^ 16) (((enqueueRawFrame [1, 2]) ^^ 3) (newFlow newConn))))"

lemma demoFlow_reach: "flowReach demoFlow"
proof -
  have start: "flowReach (newFlow newConn)"
    by (rule flowReach.start, rule connReach.start) (simp add: newConn_def)
  have "flowReach ((enqueueRawFrame [1, 2] ^^ n) (newFlow newConn))" for n
    by (induction n) (auto intro: start flowReach.step flowStep.frame)
  moreover have "flowReach s \<Longrightarrow> flowReach ((acquireRpcSlot ^^ n) s)" for n s
    by (induction n) (auto intro: flowReach.step flowStep.acquire)
  ultimately show ?thesis
    unfolding demoFlow_def by (blast intro: flowReach.step flowStep.acquire)
qed

lemma acquire_free_slots:
  assumes "fl_activeRpcCount s + n \<le> MAX_ACTIVE_RPCS_PER_CONNECTION" "\<not> fl_disposed s" "\<not> flowClosed s"
  shows "(acquireRpcSlot ^^ n) s =
    s\<lparr>fl_nextRpc := fl_nextRpc s + n, fl_activeRpcCount := fl_activeRpcCount s + n,
      fl_slotResults := fl_slotResults s @ map (\<lambda>i. (fl_nextRpc s + i, True)) [0..<n],
      fl_grants := fl_grants s @ map (\<lambda>i. fl_nextRpc s + i) [0..<n]\<rparr>"
  using assms by (induction n) (simp_all add: acquireRpcSlot_def resolveSlot_def Let_def)

lemma drainLoop_next:
  assumes "\<not> fl_disposed s" "\<not> flowClosed s" "fl_frameQueue s = d # q"
  shows "drainLoop s =
    (updateFrameReadPressure (s\<lparr>fl_frameQueue := q, fl_queuedFrameBytes := fl_queuedFrameBytes s - length d\<rparr>))
      \<lparr>fl_started := fl_started s @ [d]\<rparr>"
  using assms by (subst drainLoop.simps) (simp add: Let_def)

lemma demoFlow_eval:
  "fl_frameQueue demoFlow = [[1, 2], [1, 2]] \<and> fl_started demoFlow = [[1, 2]] \<and>
   fl_rpcWaiters demoFlow = [16, 17] \<and> \<not> fl_disposed demoFlow \<and> \<not> flowClosed demoFlow"
proof -
  let ?s = "(newFlow newConn)\<lparr>fl_frameQueue := [[1, 2], [1, 2]], fl_queuedFrameBytes := 4,
      fl_drainingFrames := True, fl_accepted := [[1, 2], [1, 2], [1, 2]], fl_started := [[1, 2]]\<rparr>"
  have frames: "(enqueueRawFrame [1, 2] ^^ 3) (newFlow newConn) = ?s"
    by (simp add: numeral_3_eq_3 newFlow_def newConn_def enqueueRawFrame_def drainRawFrames_def drainLoop_next
        updateFrameReadPressure_def flow_limits)
  have slots: "(acquireRpcSlot ^^ 16) ?s = ?s\<lparr>fl_nextRpc := 16, fl_activeRpcCount := 16,
      fl_slotResults := map (\<lambda>i. (i, True)) [0..<16], fl_grants := map (\<lambda>i. i) [0..<16]\<rparr>"
    by (subst acquire_free_slots) (simp_all add: newFlow_def newConn_def flow_limits map_idI)
  show ?thesis
    unfolding demoFlow_def frames slots
    by (simp add: newFlow_def newConn_def acquireRpcSlot_def flow_limits)
qed

section \<open>Properties\<close>



text \<open>
  C9. RPC slots: at most 16 RPCs of a connection run at once and the counter equals the
  number of slots handed out and not released; at most 64 wait. Every request for a slot is
  answered exactly once or still waits, nobody waits while a slot is free, and slots are
  given first come, first served.
\<close>

theorem rpc_slots_are_fair:
  assumes "flowReach s"
  shows "fl_activeRpcCount s \<le> 16 \<and> (\<not> fl_disposed s \<longrightarrow> fl_activeRpcCount s = length (fl_grants s)) \<and>
    length (fl_rpcWaiters s) \<le> 64 \<and>
    (\<not> flowClosed s \<and> fl_rpcWaiters s \<noteq> [] \<longrightarrow> fl_activeRpcCount s = 16) \<and>
    mset (map fst (fl_slotResults s)) + mset (fl_rpcWaiters s) = mset [0..<fl_nextRpc s] \<and>
    (\<forall>p q. (p, True) \<in> set (fl_slotResults s) \<and> q \<in> set (fl_rpcWaiters s) \<longrightarrow> p < q)"
proof -
  have "slots_inv s" and "waiters_inv s"
    using flowReach_ok [OF assms] by (simp_all add: flow_ok_def)
  then show ?thesis unfolding slots_inv_def waiters_inv_def flow_limits by auto
qed

theorem rpc_slots_are_fair_witness:
  "fl_activeRpcCount demoFlow = 16 \<and> length (fl_grants demoFlow) = 16 \<and>
    mset (map fst (fl_slotResults demoFlow)) + mset [16, 17] = mset [0..<fl_nextRpc demoFlow]"
  using rpc_slots_are_fair [OF demoFlow_reach] demoFlow_eval by simp

text \<open>
  C8. Reading is never left paused without a reason: on an open connection of a live session
  the socket is paused exactly when the frame queue or the RPC queue asks for it, and each
  of them asks only while it holds work whose completion re-evaluates the pause (more than
  16 frames or 2 MiB queued, with the drain loop running; more than 16 RPCs waiting behind
  16 running ones).
\<close>

theorem reading_resumes:
  assumes "flowReach s" and "\<not> fl_disposed s" and "\<not> flowClosed s"
  shows "sc_readPaused (fl_conn s) = (fl_frameReadPaused s \<or> fl_rpcReadPaused s) \<and>
    (fl_frameReadPaused s \<longrightarrow> fl_drainingFrames s \<and>
       (length (fl_frameQueue s) > 16 \<or> fl_queuedFrameBytes s > 2 * 1024 * 1024)) \<and>
    (fl_rpcReadPaused s \<longrightarrow> length (fl_rpcWaiters s) > 16 \<and> length (fl_grants s) = 16)"
proof -
  have ok: "frames_inv s" "slots_inv s" "frame_pause_inv s" "rpc_pause_inv s" "gate_inv s"
    using flowReach_ok [OF assms(1)] by (simp_all add: flow_ok_def)
  from ok(5) assms(2,3) have "sc_readPaused (fl_conn s) = (fl_frameReadPaused s \<or> fl_rpcReadPaused s)"
    by (simp add: gate_inv_def gate.in_step_def)
  moreover from ok(1,3) assms(2,3) have "fl_frameReadPaused s \<longrightarrow> fl_drainingFrames s \<and>
       (length (fl_frameQueue s) > 16 \<or> fl_queuedFrameBytes s > 2 * 1024 * 1024)"
    unfolding frames_inv_def frame_pause_inv_def flow_limits by (cases "fl_frameQueue s = []") auto
  moreover from ok(2,4) assms(2,3) have "fl_rpcReadPaused s \<longrightarrow> length (fl_rpcWaiters s) > 16 \<and> length (fl_grants s) = 16"
    unfolding slots_inv_def rpc_pause_inv_def flow_limits by (cases "fl_rpcWaiters s = []") auto
  ultimately show ?thesis by blast
qed

theorem reading_resumes_witness:
  "sc_readPaused (fl_conn demoFlow) = (fl_frameReadPaused demoFlow \<or> fl_rpcReadPaused demoFlow) \<and>
   \<not> fl_rpcReadPaused demoFlow"
  using reading_resumes [OF demoFlow_reach] demoFlow_eval by auto

end
