(* ===== verification/Transport_Codec.thy ===== *)
theory Transport_Codec
  imports Prelude
begin

text \<open>
  Packet framing of a transport connection:
  \<open>packages/mtproto/src/transport/server-obfuscation.ts\<close>, \<open>receive-buffer.ts\<close> and the
  receiving half of \<open>server-connection.ts\<close> (transport detection and the decode loop).

  Three things are not in the repository and are parameters here: the buffer class \<open>Bytes\<close>
  of \<open>@fuman/io\<close> (the operations of \<open>bytesApi\<close>, whose documented behaviour is
  \<open>bytes_laws\<close>), the AES-CTR stream of the crypto provider (\<open>ctr\<close> and \<open>createAesCtr\<close>,
  \<open>ctr_laws\<close>), and the intermediate codecs of \<open>@mtcute/core\<close> (\<open>extCodec\<close>).
\<close>

section \<open>Parameters\<close>

record 'r bytesApi =
  by_alloc :: "nat \<Rightarrow> 'r"
  by_available :: "'r \<Rightarrow> nat"
  by_capacity :: "'r \<Rightarrow> nat"
  by_readSync :: "nat \<Rightarrow> 'r \<Rightarrow> bytes \<times> 'r"
  by_rewind :: "nat \<Rightarrow> 'r \<Rightarrow> 'r"
  by_write :: "bytes \<Rightarrow> 'r \<Rightarrow> 'r"
  by_reclaim :: "'r \<Rightarrow> 'r"
  by_reset :: "'r \<Rightarrow> 'r"

text \<open>The contract of \<open>Bytes\<close>: \<open>past r\<close> are the bytes read since the last reclaim, \<open>view r\<close>
  the bytes still to be read.\<close>

definition bytes_laws :: "'r bytesApi \<Rightarrow> ('r \<Rightarrow> bytes) \<Rightarrow> ('r \<Rightarrow> bytes) \<Rightarrow> bool" where
  "bytes_laws A past view \<longleftrightarrow>
     (\<forall>n. view (by_alloc A n) = []) \<and>
     (\<forall>r. by_available A r = length (view r)) \<and>
     (\<forall>r n. n \<le> length (view r) \<longrightarrow> fst (by_readSync A n r) = take n (view r) \<and>
        view (snd (by_readSync A n r)) = drop n (view r) \<and>
        past (snd (by_readSync A n r)) = past r @ take n (view r)) \<and>
     (\<forall>r n. n \<le> length (past r) \<longrightarrow>
        view (by_rewind A n r) = drop (length (past r) - n) (past r) @ view r \<and>
        past (by_rewind A n r) = take (length (past r) - n) (past r)) \<and>
     (\<forall>r b. view (by_write A b r) = view r @ b) \<and>
     (\<forall>r. view (by_reclaim A r) = view r) \<and>
     (\<forall>r. view (by_reset A r) = [])"

datatype innerCodec = Abridged | Intermediate | PaddedIntermediate

record 'r extCodec =
  ext_decode :: "innerCodec \<Rightarrow> 'r \<Rightarrow> bytes option \<times> 'r"
  ext_encode :: "innerCodec \<Rightarrow> bytes \<Rightarrow> bytes"

record 'k ctr =
  ctr_process :: "bytes \<Rightarrow> 'k \<Rightarrow> bytes \<times> 'k"
  createAesCtr :: "bytes \<Rightarrow> bytes \<Rightarrow> bool \<Rightarrow> 'k"

text \<open>The contract of AES-CTR: processing is incremental, keeps the length and advances by the
  length alone, and a stream for
  decryption undoes the stream for encryption made from the same key and IV, as long as both
  have processed the same number of bytes.\<close>

definition ctr_laws :: "'k ctr \<Rightarrow> ('k \<Rightarrow> 'k \<Rightarrow> bool) \<Rightarrow> bool" where
  "ctr_laws C synced \<longleftrightarrow>
     (\<forall>key iv. synced (createAesCtr C key iv True) (createAesCtr C key iv False)) \<and>
     (\<forall>e d x. synced e d \<longrightarrow>
        fst (ctr_process C (fst (ctr_process C x e)) d) = x \<and>
        synced (snd (ctr_process C x e)) (snd (ctr_process C (fst (ctr_process C x e)) d))) \<and>
     (\<forall>e x y. fst (ctr_process C (x @ y) e) =
        fst (ctr_process C x e) @ fst (ctr_process C y (snd (ctr_process C x e))) \<and>
        snd (ctr_process C (x @ y) e) = snd (ctr_process C y (snd (ctr_process C x e)))) \<and>
     (\<forall>e. snd (ctr_process C [] e) = e) \<and>
     (\<forall>e x y. length x = length y \<longrightarrow> snd (ctr_process C x e) = snd (ctr_process C y e)) \<and>
     (\<forall>e x. length (fst (ctr_process C x e)) = length x)"

section \<open>Receive buffers\<close>

definition MAX_RETAINED_RECEIVE_BYTES :: nat where
  "MAX_RETAINED_RECEIVE_BYTES = 1024 * 1024"

definition reclaimReceiveBuffer :: "'r bytesApi \<Rightarrow> 'r \<Rightarrow> nat \<Rightarrow> 'r" where
  "reclaimReceiveBuffer A buffer initialCapacity =
     (if by_available A buffer = 0
      then (if by_capacity A buffer > MAX_RETAINED_RECEIVE_BYTES then by_alloc A initialCapacity
            else by_reset A buffer)
      else by_reclaim A buffer)"

section \<open>Abridged framing\<close>

definition abridgedDecode :: "'r bytesApi \<Rightarrow> bool \<Rightarrow> 'r \<Rightarrow> bytes option \<times> 'r" where
  "abridgedDecode A eof reader =
     (if eof then (None, reader)
      else if by_available A reader < 1 then (None, reader)
      else
        let (h, r1) = by_readSync A 1 reader;
            firstByte = h ! 0;
            lengthMarker = and firstByte 0x7f
        in case (if lengthMarker < 0x7f then Some (unat lengthMarker * 4, 1, r1)
                 else if by_available A r1 < 3 then None
                 else let (b, r2) = by_readSync A 3 r1
                      in Some ((unat (b ! 0) + unat (b ! 1) * 2 ^ 8 + unat (b ! 2) * 2 ^ 16) * 4, 4, r2)) of
             None \<Rightarrow> (None, by_rewind A 1 r1)
           | Some (len, headerSize, r2) \<Rightarrow>
               if by_available A r2 < len then (None, by_rewind A headerSize r2)
               else let (frame, r3) = by_readSync A len r2 in (Some frame, r3))"

definition abridgedEncode :: "bytes \<Rightarrow> bytes" where
  "abridgedEncode frame =
     (let words = length frame div 4
      in if words \<ge> 0x7f
         then [0x7f, word_of_nat words, word_of_nat (words div 2 ^ 8), word_of_nat (words div 2 ^ 16)] @ frame
         else [word_of_nat words] @ frame)"

definition abridgedTag :: bytes where
  "abridgedTag = [0xef]"

definition innerDecode :: "'r bytesApi \<Rightarrow> 'r extCodec \<Rightarrow> innerCodec \<Rightarrow> bool \<Rightarrow> 'r \<Rightarrow> bytes option \<times> 'r" where
  "innerDecode A E kind eof r = (if kind = Abridged then abridgedDecode A eof r else ext_decode E kind r)"

definition innerEncode :: "'r extCodec \<Rightarrow> innerCodec \<Rightarrow> bytes \<Rightarrow> bytes" where
  "innerEncode E kind frame = (if kind = Abridged then abridgedEncode frame else ext_encode E kind frame)"

section \<open>Obfuscation\<close>

record ('k, 'r) obfuscated =
  ob_encryptor :: 'k
  ob_decryptor :: 'k
  ob_inner :: innerCodec
  ob_decodeBuf :: 'r

definition finishDecode ::
  "'r bytesApi \<Rightarrow> bytes option \<Rightarrow> ('k, 'r) obfuscated \<Rightarrow> bytes option \<times> ('k, 'r) obfuscated" where
  "finishDecode A frame c =
     (frame, if frame = None \<or> by_available A (ob_decodeBuf c) = 0
             then c\<lparr>ob_decodeBuf := reclaimReceiveBuffer A (ob_decodeBuf c) (16 * 1024)\<rparr> else c)"

definition obfDecode ::
  "'r bytesApi \<Rightarrow> 'r extCodec \<Rightarrow> 'k ctr \<Rightarrow> bool \<Rightarrow> ('k, 'r) obfuscated \<Rightarrow> 'r \<Rightarrow>
   bytes option \<times> ('k, 'r) obfuscated \<times> 'r" where
  "obfDecode A E C eof c reader =
     (if eof then (None, c, reader)
      else
        let (c1, reader1) =
              (if by_available A reader > 0
               then let buf = reclaimReceiveBuffer A (ob_decodeBuf c) (16 * 1024);
                        (data, reader1) = by_readSync A (by_available A reader) reader;
                        (decrypted, d) = ctr_process C data (ob_decryptor c)
                    in (c\<lparr>ob_decryptor := d, ob_decodeBuf := by_write A decrypted buf\<rparr>, reader1)
               else (c, reader));
            (frame, buf) = innerDecode A E (ob_inner c1) eof (ob_decodeBuf c1);
            (frame', c2) = finishDecode A frame (c1\<lparr>ob_decodeBuf := buf\<rparr>)
        in (frame', c2, reader1))"

definition obfEncode ::
  "'r extCodec \<Rightarrow> 'k ctr \<Rightarrow> ('k, 'r) obfuscated \<Rightarrow> bytes \<Rightarrow> bytes \<times> ('k, 'r) obfuscated" where
  "obfEncode E C c frame =
     (let (out, e) = ctr_process C (innerEncode E (ob_inner c) frame) (ob_encryptor c)
      in (out, c\<lparr>ob_encryptor := e\<rparr>))"

definition allEqual :: "bytes \<Rightarrow> byte \<Rightarrow> bool" where
  "allEqual b v \<longleftrightarrow> b ! 0 = v \<and> b ! 1 = v \<and> b ! 2 = v \<and> b ! 3 = v"

definition selectInnerCodec :: "bytes \<Rightarrow> innerCodec" where
  "selectInnerCodec tag =
     (if allEqual tag 0xdd then PaddedIntermediate else if allEqual tag 0xef then Abridged else Intermediate)"

text \<open>\<open>None\<close> is the \<open>RangeError\<close> on a header that is not 64 bytes long.\<close>

definition createServerObfuscation ::
  "'r bytesApi \<Rightarrow> 'k ctr \<Rightarrow> bytes \<Rightarrow> (('k, 'r) obfuscated \<times> bytes) option" where
  "createServerObfuscation A C header =
     (if length header \<noteq> 64 then None
      else
        let encryptKey = take 32 (drop 8 header);
            encryptIv = take 16 (drop 40 header);
            reversed = rev (take 48 (drop 8 header));
            decryptKey = take 32 reversed;
            decryptIv = take 16 (drop 32 reversed);
            decryptor = createAesCtr C encryptKey encryptIv False;
            encryptor = createAesCtr C decryptKey decryptIv True;
            (decryptedHeader, d) = ctr_process C header decryptor;
            innerTag = take 4 (drop 56 decryptedHeader)
        in Some (\<lparr>ob_encryptor = encryptor, ob_decryptor = d, ob_inner = selectInnerCodec innerTag,
                  ob_decodeBuf = by_alloc A 0\<rparr>, innerTag))"

section \<open>The receiving half of a connection\<close>

datatype ('k, 'r) codec = Plain innerCodec | Obfuscated "('k, 'r) obfuscated"

record ('k, 'r) receiver =
  rv_closed :: bool
  rv_codec :: "('k, 'r) codec option"
  rv_recvBuffer :: 'r
  rv_pendingSocketData :: "bytes list"
  rv_messages :: "bytes list"

definition newReceiver :: "'r bytesApi \<Rightarrow> ('k, 'r) receiver" where
  "newReceiver A = \<lparr>rv_closed = False, rv_codec = None, rv_recvBuffer = by_alloc A 65536,
     rv_pendingSocketData = [], rv_messages = []\<rparr>"

definition codecDecode ::
  "'r bytesApi \<Rightarrow> 'r extCodec \<Rightarrow> 'k ctr \<Rightarrow> ('k, 'r) codec \<Rightarrow> 'r \<Rightarrow> bytes option \<times> ('k, 'r) codec \<times> 'r" where
  "codecDecode A E C codec r =
     (case codec of
        Plain kind \<Rightarrow> let (frame, r1) = innerDecode A E kind False r in (frame, Plain kind, r1)
      | Obfuscated c \<Rightarrow> let (frame, c1, r1) = obfDecode A E C False c r in (frame, Obfuscated c1, r1))"

definition detectTransport ::
  "'r bytesApi \<Rightarrow> 'k ctr \<Rightarrow> ('k, 'r) receiver \<Rightarrow> bool \<times> ('k, 'r) receiver" where
  "detectTransport A C s =
     (let avail = by_available A (rv_recvBuffer s)
      in if avail < 1 then (False, s)
         else
           let (h, r1) = by_readSync A 1 (rv_recvBuffer s);
               firstByte = h ! 0;
               r2 = by_rewind A 1 r1
           in if firstByte = 0xef
              then (True, s\<lparr>rv_recvBuffer := snd (by_readSync A 1 r2), rv_codec := Some (Plain Abridged)\<rparr>)
              else if avail < 4 then (False, s\<lparr>rv_recvBuffer := r2\<rparr>)
              else
                let (tag, r3) = by_readSync A 4 r2;
                    intermediate = allEqual tag 0xee;
                    padded = allEqual tag 0xdd;
                    r4 = by_rewind A 4 r3
                in if intermediate
                   then (True, s\<lparr>rv_recvBuffer := snd (by_readSync A 4 r4), rv_codec := Some (Plain Intermediate)\<rparr>)
                   else if padded
                   then (True, s\<lparr>rv_recvBuffer := snd (by_readSync A 4 r4),
                                 rv_codec := Some (Plain PaddedIntermediate)\<rparr>)
                   else if avail < 64 then (False, s\<lparr>rv_recvBuffer := r4\<rparr>)
                   else
                     let (header, r5) = by_readSync A 64 r4
                     in (True, s\<lparr>rv_recvBuffer := r5,
                          rv_codec := map_option (\<lambda>(c, _). Obfuscated c) (createServerObfuscation A C header)\<rparr>))"

definition handleData :: "bytes \<Rightarrow> ('k, 'r) receiver \<Rightarrow> ('k, 'r) receiver" where
  "handleData chunk s =
     (if rv_closed s then s else s\<lparr>rv_pendingSocketData := rv_pendingSocketData s @ [chunk]\<rparr>)"

text \<open>The inner \<open>for (;;)\<close> loop of \<open>_drainSocketData\<close>; \<open>None\<close> stands for a loop that never ends.\<close>

partial_function (option) decodeLoop ::
  "'r bytesApi \<Rightarrow> 'r extCodec \<Rightarrow> 'k ctr \<Rightarrow> ('k, 'r) codec \<Rightarrow> 'r \<Rightarrow> bytes list \<Rightarrow>
   (bytes list \<times> ('k, 'r) codec \<times> 'r) option" where
  "decodeLoop A E C codec r msgs =
     (case codecDecode A E C codec r of
        (None, codec1, r1) \<Rightarrow> Some (msgs, codec1, r1)
      | (Some frame, codec1, r1) \<Rightarrow> decodeLoop A E C codec1 r1 (msgs @ [frame]))"

text \<open>\<open>_drainSocketData\<close>. Nothing but the closing of the connection can change its state between
  two passes of its outer loop; data that arrives meanwhile is the next call's.\<close>

definition drainSocketData ::
  "'r bytesApi \<Rightarrow> 'r extCodec \<Rightarrow> 'k ctr \<Rightarrow> ('k, 'r) receiver \<Rightarrow> ('k, 'r) receiver option" where
  "drainSocketData A E C s0 =
     (if rv_closed s0 \<or> rv_pendingSocketData s0 = [] then Some s0
      else
        let s = s0\<lparr>rv_recvBuffer := fold (by_write A) (rv_pendingSocketData s0) (rv_recvBuffer s0),
                   rv_pendingSocketData := []\<rparr>;
            (ready, s1) = (if rv_codec s = None then detectTransport A C s else (True, s))
        in case rv_codec s1 of
             None \<Rightarrow> Some s1
           | Some codec \<Rightarrow>
               if \<not> ready then Some s1
               else case decodeLoop A E C codec (rv_recvBuffer s1) (rv_messages s1) of
                      None \<Rightarrow> None
                    | Some (msgs, codec1, r) \<Rightarrow>
                        Some (s1\<lparr>rv_messages := msgs, rv_codec := Some codec1,
                                 rv_recvBuffer := reclaimReceiveBuffer A r 65536\<rparr>))"

end
