(* ===== verification/Transport_Codec_Safety.thy ===== *)
theory Transport_Codec_Safety
  imports Transport_Codec
begin

text \<open>
  What the framing guarantees: the frames delivered depend on the byte stream only, not on how
  the network cut it into chunks, and encoding followed by decoding gives the frames back,
  with and without obfuscation.

  The locale \<open>packet_framing\<close> is the contract of a framing: a parser of the first frame that
  consumes something and whose answer is not changed by bytes that arrive later.
\<close>

section \<open>Framings\<close>

fun framesFuel :: "(bytes \<Rightarrow> (bytes \<times> bytes) option) \<Rightarrow> nat \<Rightarrow> bytes \<Rightarrow> bytes list \<times> bytes" where
  "framesFuel p 0 b = ([], b)"
| "framesFuel p (Suc n) b =
     (case p b of None \<Rightarrow> ([], b) | Some (f, rest) \<Rightarrow> let (fs, t) = framesFuel p n rest in (f # fs, t))"

definition framesOf :: "(bytes \<Rightarrow> (bytes \<times> bytes) option) \<Rightarrow> bytes \<Rightarrow> bytes list \<times> bytes" where
  "framesOf p b = framesFuel p (length b) b"

locale packet_framing =
  fixes p :: "bytes \<Rightarrow> (bytes \<times> bytes) option"
  assumes shrinks: "p b = Some (f, rest) \<Longrightarrow> length rest < length b"
    and extends: "p b = Some (f, rest) \<Longrightarrow> p (b @ suf) = Some (f, rest @ suf)"
begin

lemma fuel_irrelevant: "length b \<le> m \<Longrightarrow> length b \<le> n \<Longrightarrow> framesFuel p m b = framesFuel p n b"
proof (induction m arbitrary: n b)
  case 0
  then have "p b = None" using shrinks [of b] by (cases "p b") auto
  then show ?case by (cases n) auto
next
  case (Suc m)
  show ?case
  proof (cases "p b")
    case None
    then show ?thesis by (cases n) auto
  next
    case (Some fr)
    obtain f rest where fr: "p b = Some (f, rest)" using Some by (cases fr) auto
    with shrinks have "length rest < length b" by blast
    moreover from this Suc.prems obtain n' where "n = Suc n'" by (cases n) auto
    ultimately show ?thesis using Suc.IH [of rest n'] Suc.prems fr by simp
  qed
qed

lemma framesOf_unfold:
  "framesOf p b = (case p b of None \<Rightarrow> ([], b)
     | Some (f, rest) \<Rightarrow> (f # fst (framesOf p rest), snd (framesOf p rest)))"
proof (cases "p b")
  case None
  then show ?thesis by (cases "length b") (auto simp: framesOf_def)
next
  case (Some fr)
  obtain f rest where fr: "p b = Some (f, rest)" using Some by (cases fr) auto
  then have less: "length rest < length b" using shrinks by blast
  then obtain n where n: "length b = Suc n" by (cases "length b") auto
  have "framesFuel p n rest = framesFuel p (length rest) rest"
    using less n by (intro fuel_irrelevant) auto
  with fr n show ?thesis by (simp add: framesOf_def split_def Let_def)
qed

lemma framesOf_induct:
  assumes "\<And>b. (\<And>f rest. p b = Some (f, rest) \<Longrightarrow> P rest) \<Longrightarrow> P b"
  shows "P b"
proof (induction "length b" arbitrary: b rule: less_induct)
  case less
  show ?case by (rule assms) (use less shrinks in blast)
qed

lemma framesOf_append:
  "framesOf p (b @ suf) = (fst (framesOf p b) @ fst (framesOf p (snd (framesOf p b) @ suf)),
     snd (framesOf p (snd (framesOf p b) @ suf)))"
proof (induction b rule: framesOf_induct)
  case (1 b)
  show ?case
  proof (cases "p b")
    case None
    then show ?thesis by (simp add: framesOf_unfold [of b])
  next
    case (Some fr)
    obtain f rest where fr: "p b = Some (f, rest)" using Some by (cases fr) auto
    with 1 extends [OF fr, of suf] show ?thesis
      by (simp add: framesOf_unfold [of b] framesOf_unfold [of "b @ suf"])
  qed
qed

lemma framesOf_tail: "framesOf p (snd (framesOf p b)) = ([], snd (framesOf p b))"
proof (induction b rule: framesOf_induct)
  case (1 b)
  then show ?case by (auto simp: framesOf_unfold [of b] split: option.splits)
qed

text \<open>A stream of encoded frames is cut back into exactly those frames.\<close>

lemma framesOf_encoded:
  assumes "\<And>f suf. f \<in> set fs \<Longrightarrow> p (enc f @ suf) = Some (f, suf)"
  shows "framesOf p (concat (map enc fs) @ suf) = (fs @ fst (framesOf p suf), snd (framesOf p suf))"
  using assms by (induction fs) (auto simp: framesOf_unfold [of "enc a @ b" for a b])

end

section \<open>Abridged framing\<close>

definition abridgedParse :: "bytes \<Rightarrow> (bytes \<times> bytes) option" where
  "abridgedParse b =
     (case b of [] \<Rightarrow> None
      | h # t \<Rightarrow>
          (let m = and h 0x7f in
           if m < 0x7f
           then (if length t < unat m * 4 then None else Some (take (unat m * 4) t, drop (unat m * 4) t))
           else if length t < 3 then None
           else let n = (unat (t ! 0) + unat (t ! 1) * 2 ^ 8 + unat (t ! 2) * 2 ^ 16) * 4; t' = drop 3 t
                in if length t' < n then None else Some (take n t', drop n t')))"

interpretation abridged: packet_framing abridgedParse
proof unfold_locales
  fix b f rest suf
  assume a: "abridgedParse b = Some (f, rest)"
  then show "length rest < length b"
    by (auto simp: abridgedParse_def Let_def split: list.splits if_splits)
  from a show "abridgedParse (b @ suf) = Some (f, rest @ suf)"
    by (auto simp: abridgedParse_def Let_def nth_append split: list.splits if_splits)
qed

lemma word_bytes_24:
  assumes "n < 2 ^ 24"
  shows "unat (word_of_nat n :: byte) + unat (word_of_nat (n div 2 ^ 8) :: byte) * 2 ^ 8 +
    unat (word_of_nat (n div 2 ^ 16) :: byte) * 2 ^ 16 = n"
proof -
  have "n div 65536 < 256" using assms by (simp add: less_mult_imp_div_less)
  moreover have "n = n mod 256 + (n div 256 mod 256) * 256 + n div 65536 * 65536"
  proof -
    have "n = n mod 256 + (n div 256) * 256" by simp
    moreover have "n div 256 = n div 256 mod 256 + (n div 256 div 256) * 256" by simp
    moreover have "n div 65536 = n div 256 div 256" by (simp flip: div_mult2_eq)
    ultimately show ?thesis by linarith
  qed
  ultimately show ?thesis by (simp add: unat_of_nat)
qed

lemma small_marker:
  assumes "n < 127"
  shows "and (word_of_nat n :: byte) 0x7f = word_of_nat n" and "(word_of_nat n :: byte) < 0x7f"
proof -
  have "and n 127 = take_bit 7 n"
    by (simp add: take_bit_eq_mask mask_eq_exp_minus_1)
  also have "\<dots> = n" using assms by (simp add: take_bit_nat_eq_self)
  finally have "and n 127 = n" .
  with assms show "and (word_of_nat n :: byte) 0x7f = word_of_nat n"
    by (simp add: word_unat_eq_iff unsigned_and_eq unat_of_nat)
  show "(word_of_nat n :: byte) < 0x7f"
    using assms by (simp add: word_less_nat_alt unat_of_nat)
qed

lemma abridgedParse_long:
  "abridgedParse (0x7f # a # b # c # t) =
    (let n = (unat a + unat b * 2 ^ 8 + unat c * 2 ^ 16) * 4
     in if length t < n then None else Some (take n t, drop n t))"
  by (simp add: abridgedParse_def Let_def)

lemma abridged_roundtrip:
  assumes "length f mod 4 = 0" and "length f div 4 < 2 ^ 24"
  shows "abridgedParse (abridgedEncode f @ suf) = Some (f, suf)"
proof -
  define w where "w = length f div 4"
  have len: "length f = w * 4"
    using div_mult_mod_eq [of "length f" 4] assms(1) by (simp add: w_def)
  show ?thesis
  proof (cases "w < 127")
    case True
    then have "unat (word_of_nat w :: byte) = w" by (simp add: unat_of_nat)
    with True len show ?thesis
      by (simp add: abridgedEncode_def w_def [symmetric] abridgedParse_def Let_def small_marker)
  next
    case False
    then have "abridgedEncode f =
        0x7f # word_of_nat w # word_of_nat (w div 2 ^ 8) # word_of_nat (w div 2 ^ 16) # f"
      by (simp add: abridgedEncode_def w_def [symmetric] Let_def)
    moreover have "w < 2 ^ 24" using assms(2) by (simp add: w_def)
    ultimately show ?thesis
      using word_bytes_24 [of w] len by (simp only: append_Cons abridgedParse_long Let_def) simp
  qed
qed

section \<open>The decoders refine the parsers\<close>

definition decodes :: "('r \<Rightarrow> bytes) \<Rightarrow> ('r \<Rightarrow> bytes option \<times> 'r) \<Rightarrow> (bytes \<Rightarrow> (bytes \<times> bytes) option) \<Rightarrow> bool" where
  "decodes view dec p \<longleftrightarrow>
     (\<forall>r. fst (dec r) = map_option fst (p (view r)) \<and>
          view (snd (dec r)) = (case p (view r) of None \<Rightarrow> view r | Some (_, rest) \<Rightarrow> rest))"

lemma bytes_lawsD:
  assumes "bytes_laws A past view"
  shows "view (by_alloc A n) = []" "by_available A r = length (view r)" "view (by_write A b r) = view r @ b"
    "view (by_reclaim A r) = view r" "view (by_reset A r) = []"
    "n \<le> length (view r) \<Longrightarrow> by_readSync A n r = (b, r') \<Longrightarrow>
       b = take n (view r) \<and> view r' = drop n (view r) \<and> past r' = past r @ take n (view r)"
    "n \<le> length (past r) \<Longrightarrow> view (by_rewind A n r) = drop (length (past r) - n) (past r) @ view r \<and>
       past (by_rewind A n r) = take (length (past r) - n) (past r)"
  using assms unfolding bytes_laws_def by (auto, metis fst_conv, metis snd_conv, metis snd_conv)

lemma abridgedDecode_refines:
  assumes laws: "bytes_laws A past view"
  shows "decodes view (abridgedDecode A False) abridgedParse"
  unfolding decodes_def
proof
  fix r
  note B = bytes_lawsD [OF laws]
  show "fst (abridgedDecode A False r) = map_option fst (abridgedParse (view r)) \<and>
      view (snd (abridgedDecode A False r)) = (case abridgedParse (view r) of None \<Rightarrow> view r | Some (_, rest) \<Rightarrow> rest)"
  proof (cases "view r")
    case Nil
    then show ?thesis by (simp add: abridgedDecode_def abridgedParse_def B)
  next
    case (Cons h t)
    obtain h1 r1 where r1: "by_readSync A 1 r = (h1, r1)" by (cases "by_readSync A 1 r")
    with B(6) [of 1 r h1 r1] Cons have v1: "h1 = [h]" "view r1 = t" "past r1 = past r @ [h]" by auto
    show ?thesis
    proof (cases "and h 0x7f < 0x7f")
      case True
      obtain b r2 where r2: "by_readSync A (unat (and h 0x7f) * 4) r1 = (b, r2)" by (cases "by_readSync A (unat (and h 0x7f) * 4) r1")
      with B(6) [of _ r1 b r2] B(7) [of 1 r1] True r1 v1 Cons show ?thesis
        by (auto simp: abridgedDecode_def abridgedParse_def Let_def B(2))
    next
      case False
      show ?thesis
      proof (cases "length t < 3")
        case True
        with False B(7) [of 1 r1] r1 v1 Cons show ?thesis
          by (auto simp: abridgedDecode_def abridgedParse_def Let_def B(2))
      next
        case long: False
        obtain b r2 where r2: "by_readSync A 3 r1 = (b, r2)" by (cases "by_readSync A 3 r1")
        with B(6) [of 3 r1 b r2] long v1 have v2: "b = take 3 t" "view r2 = drop 3 t" "past r2 = past r @ h # take 3 t"
          by auto
        let ?n = "(unat (t ! 0) + unat (t ! 1) * 2 ^ 8 + unat (t ! 2) * 2 ^ 16) * 4"
        obtain f r3 where r3: "by_readSync A ?n r2 = (f, r3)" by (cases "by_readSync A ?n r2")
        have "drop (length (past r2) - 4) (past r2) = h # take 3 t" using v2(3) long by simp
        then have "view (by_rewind A 4 r2) = h # t"
          using B(7) [of 4 r2] v2 long by simp
        with False long r1 r2 r3 v1 v2 Cons B(6) [of ?n r2 f r3] show ?thesis
          by (auto simp: abridgedDecode_def abridgedParse_def Let_def B(2))
      qed
    qed
  qed
qed

section \<open>The decode loop\<close>

text \<open>Hypothesis on the codecs of \<open>@mtcute/core\<close>: each decodes some framing.\<close>

definition ext_laws :: "('r \<Rightarrow> bytes) \<Rightarrow> 'r extCodec \<Rightarrow> (innerCodec \<Rightarrow> bytes \<Rightarrow> (bytes \<times> bytes) option) \<Rightarrow> bool" where
  "ext_laws view E q \<longleftrightarrow> (\<forall>k. k \<noteq> Abridged \<longrightarrow> decodes view (ext_decode E k) (q k) \<and> packet_framing (q k))"

definition parserOf :: "(innerCodec \<Rightarrow> bytes \<Rightarrow> (bytes \<times> bytes) option) \<Rightarrow> innerCodec \<Rightarrow> bytes \<Rightarrow> (bytes \<times> bytes) option" where
  "parserOf q k = (if k = Abridged then abridgedParse else q k)"

lemma parserOf_framing: "ext_laws view E q \<Longrightarrow> packet_framing (parserOf q k)"
  by (simp add: parserOf_def ext_laws_def abridged.packet_framing_axioms)

lemma innerDecode_refines:
  "bytes_laws A past view \<Longrightarrow> ext_laws view E q \<Longrightarrow> decodes view (innerDecode A E k False) (parserOf q k)"
  using abridgedDecode_refines [of A past view]
  by (auto simp: parserOf_def innerDecode_def ext_laws_def decodes_def)

lemma reclaim_view:
  assumes "bytes_laws A past view"
  shows "view (reclaimReceiveBuffer A r n) = view r"
  using bytes_lawsD(1,2,4,5) [OF assms] by (simp add: reclaimReceiveBuffer_def)

lemma plain_loop:
  assumes laws: "bytes_laws A past view" "ext_laws view E q"
  shows "\<exists>r'. decodeLoop A E C (Plain k) r msgs = Some (msgs @ fst (framesOf (parserOf q k) (view r)), Plain k, r') \<and>
    view r' = snd (framesOf (parserOf q k) (view r))"
proof (induction "length (view r)" arbitrary: r msgs rule: less_induct)
  case less
  note framing = parserOf_framing [OF laws(2), of k]
  note unfold = packet_framing.framesOf_unfold [OF framing, of "view r"]
  have dec: "fst (innerDecode A E k False r) = map_option fst (parserOf q k (view r))"
    "view (snd (innerDecode A E k False r)) = (case parserOf q k (view r) of None \<Rightarrow> view r | Some (_, rest) \<Rightarrow> rest)"
    using innerDecode_refines [OF laws, of k] by (simp_all add: decodes_def)
  show ?case
  proof (cases "parserOf q k (view r)")
    case None
    with dec show ?thesis
      by (subst decodeLoop.simps)
        (auto simp: codecDecode_def unfold split: prod.splits)
  next
    case (Some fr)
    obtain g rest where fr: "parserOf q k (view r) = Some (g, rest)" using Some by (cases fr) auto
    obtain r1 where r1: "innerDecode A E k False r = (Some g, r1)" "view r1 = rest"
      using dec fr by (cases "innerDecode A E k False r") auto
    have "length (view r1) < length (view r)" using packet_framing.shrinks [OF framing] fr r1(2) by blast
    with less [of r1 "msgs @ [g]"] r1 fr show ?thesis
      by (subst decodeLoop.simps) (auto simp: codecDecode_def unfold)
  qed
qed

lemma finishDecode_frame:
  assumes "bytes_laws A past view"
  shows "fst (finishDecode A f c) = f" "view (ob_decodeBuf (snd (finishDecode A f c))) = view (ob_decodeBuf c)"
    "ob_inner (snd (finishDecode A f c)) = ob_inner c" "ob_decryptor (snd (finishDecode A f c)) = ob_decryptor c"
    "ob_encryptor (snd (finishDecode A f c)) = ob_encryptor c"
  using reclaim_view [OF assms] by (simp_all add: finishDecode_def)

text \<open>One call of the obfuscated decoder: all that is readable is decrypted into the inner
  buffer, then the inner codec takes a frame from it.\<close>

lemma obfDecode_step:
  assumes laws: "bytes_laws A past view" "ext_laws view E q" "ctr_laws C synced"
    and plain: "b = view (ob_decodeBuf c) @ fst (ctr_process C (view r) (ob_decryptor c))"
  obtains c' r' where
    "obfDecode A E C False c r = (map_option fst (parserOf q (ob_inner c) b), c', r')"
    "view (ob_decodeBuf c') = (case parserOf q (ob_inner c) b of None \<Rightarrow> b | Some (_, rest) \<Rightarrow> rest)"
    "view r' = []" "ob_inner c' = ob_inner c" "ob_encryptor c' = ob_encryptor c"
    "ob_decryptor c' = snd (ctr_process C (view r) (ob_decryptor c))"
proof -
  note B = bytes_lawsD [OF laws(1)]
  define c1 where "c1 = (if by_available A r > 0
      then c\<lparr>ob_decryptor := snd (ctr_process C (view r) (ob_decryptor c)),
             ob_decodeBuf := by_write A (fst (ctr_process C (view r) (ob_decryptor c)))
               (reclaimReceiveBuffer A (ob_decodeBuf c) (16 * 1024))\<rparr>
      else c)"
  define r1 where "r1 = (if by_available A r > 0 then snd (by_readSync A (by_available A r) r) else r)"
  have idle: "fst (ctr_process C [] d) = [] \<and> snd (ctr_process C [] d) = d" for d
    using laws(3) by (auto simp: ctr_laws_def simp flip: length_0_conv)
  have buf: "view (ob_decodeBuf c1) = b"
    using plain idle [of "ob_decryptor c"] by (simp add: c1_def B(2,3) reclaim_view [OF laws(1)])
  have rest: "view r1 = []"
    using B(6) [of "length (view r)" r] by (cases "by_readSync A (length (view r)) r") (auto simp: r1_def B(2))
  have dec: "fst (innerDecode A E (ob_inner c) False (ob_decodeBuf c1)) = map_option fst (parserOf q (ob_inner c) b)"
    "view (snd (innerDecode A E (ob_inner c) False (ob_decodeBuf c1))) =
       (case parserOf q (ob_inner c) b of None \<Rightarrow> b | Some (_, rest) \<Rightarrow> rest)"
    using innerDecode_refines [OF laws(1,2), of "ob_inner c"] buf
    by (simp_all add: decodes_def split: option.split)
  define c2 where "c2 = c1\<lparr>ob_decodeBuf := snd (innerDecode A E (ob_inner c) False (ob_decodeBuf c1))\<rparr>"
  define c3 where "c3 = snd (finishDecode A (map_option fst (parserOf q (ob_inner c) b)) c2)"
  have inner: "ob_inner c1 = ob_inner c" by (simp add: c1_def)
  have readall: "fst (by_readSync A (length (view r)) r) = view r"
    using B(6) [of "length (view r)" r] by (cases "by_readSync A (length (view r)) r") auto
  have "obfDecode A E C False c r =
      (let (frame, buf) = innerDecode A E (ob_inner c1) False (ob_decodeBuf c1);
           (frame', c2) = finishDecode A frame (c1\<lparr>ob_decodeBuf := buf\<rparr>)
       in (frame', c2, r1))"
    by (simp add: obfDecode_def c1_def r1_def Let_def split_def B(2) readall)
  also have "\<dots> = (map_option fst (parserOf q (ob_inner c) b), c3, r1)"
    using dec(1) inner finishDecode_frame(1) [OF laws(1)]
    by (simp add: c2_def c3_def Let_def split_def)
  finally have eq: "obfDecode A E C False c r = (map_option fst (parserOf q (ob_inner c) b), c3, r1)" .
  show ?thesis
  proof (rule that [OF eq _ rest])
    show "view (ob_decodeBuf c3) = (case parserOf q (ob_inner c) b of None \<Rightarrow> b | Some (_, rest) \<Rightarrow> rest)"
      using dec(2) by (simp add: c3_def c2_def finishDecode_frame [OF laws(1)])
    show "ob_inner c3 = ob_inner c" "ob_encryptor c3 = ob_encryptor c"
      by (simp_all add: c3_def c2_def finishDecode_frame [OF laws(1)] c1_def)
    show "ob_decryptor c3 = snd (ctr_process C (view r) (ob_decryptor c))"
      using idle [of "ob_decryptor c"] by (simp add: c3_def c2_def finishDecode_frame [OF laws(1)] c1_def B(2))
  qed
qed

lemma obf_loop:
  assumes laws: "bytes_laws A past view" "ext_laws view E q" "ctr_laws C synced"
    and plain: "b = view (ob_decodeBuf c) @ fst (ctr_process C (view r) (ob_decryptor c))"
  shows "\<exists>c' r'. decodeLoop A E C (Obfuscated c) r msgs =
      Some (msgs @ fst (framesOf (parserOf q (ob_inner c)) b), Obfuscated c', r') \<and>
    view (ob_decodeBuf c') = snd (framesOf (parserOf q (ob_inner c)) b) \<and> view r' = [] \<and>
    ob_inner c' = ob_inner c \<and> ob_encryptor c' = ob_encryptor c \<and>
    ob_decryptor c' = snd (ctr_process C (view r) (ob_decryptor c))"
  using plain
proof (induction "length b" arbitrary: b c r msgs rule: less_induct)
  case less
  note framing = parserOf_framing [OF laws(2), of "ob_inner c"]
  note unfold = packet_framing.framesOf_unfold [OF framing, of b]
  obtain c1 r1 where step:
    "obfDecode A E C False c r = (map_option fst (parserOf q (ob_inner c) b), c1, r1)"
    "view (ob_decodeBuf c1) = (case parserOf q (ob_inner c) b of None \<Rightarrow> b | Some (_, rest) \<Rightarrow> rest)"
    "view r1 = []" "ob_inner c1 = ob_inner c" "ob_encryptor c1 = ob_encryptor c"
    "ob_decryptor c1 = snd (ctr_process C (view r) (ob_decryptor c))"
    using obfDecode_step [OF laws less.prems] by blast
  show ?case
  proof (cases "parserOf q (ob_inner c) b")
    case None
    with step show ?thesis
      by (subst decodeLoop.simps) (simp add: codecDecode_def unfold)
  next
    case (Some fr)
    obtain g rest where fr: "parserOf q (ob_inner c) b = Some (g, rest)" using Some by (cases fr) auto
    have idle: "fst (ctr_process C [] (ob_decryptor c1)) = []" "snd (ctr_process C [] (ob_decryptor c1)) = ob_decryptor c1"
      using laws(3) by (auto simp: ctr_laws_def simp flip: length_0_conv)
    have "length rest < length b" using packet_framing.shrinks [OF framing] fr by blast
    moreover have plain': "rest = view (ob_decodeBuf c1) @ fst (ctr_process C (view r1) (ob_decryptor c1))"
      using step fr idle by simp
    ultimately have "\<exists>c' r'. decodeLoop A E C (Obfuscated c1) r1 (msgs @ [g]) =
         Some ((msgs @ [g]) @ fst (framesOf (parserOf q (ob_inner c1)) rest), Obfuscated c', r') \<and>
      view (ob_decodeBuf c') = snd (framesOf (parserOf q (ob_inner c1)) rest) \<and> view r' = [] \<and>
      ob_inner c' = ob_inner c1 \<and> ob_encryptor c' = ob_encryptor c1 \<and>
      ob_decryptor c' = snd (ctr_process C (view r1) (ob_decryptor c1))"
      by (rule less.hyps)
    then obtain c' r' where
      "decodeLoop A E C (Obfuscated c1) r1 (msgs @ [g]) =
         Some ((msgs @ [g]) @ fst (framesOf (parserOf q (ob_inner c)) rest), Obfuscated c', r')"
      "view (ob_decodeBuf c') = snd (framesOf (parserOf q (ob_inner c)) rest)" "view r' = []"
      "ob_inner c' = ob_inner c" "ob_encryptor c' = ob_encryptor c" "ob_decryptor c' = ob_decryptor c1"
      unfolding step(3,4,5) idle by blast
    with step fr show ?thesis
      by (intro exI [of _ c'] exI [of _ r'], subst decodeLoop.simps) (simp add: codecDecode_def unfold)
  qed
qed

section \<open>Transport detection\<close>

text \<open>What the first bytes of the stream select: a plain framing (\<open>Some k\<close>) or obfuscation
  (\<open>None\<close>), and how many bytes belong to the selection.\<close>

definition transportOf :: "bytes \<Rightarrow> (innerCodec option \<times> nat) option" where
  "transportOf b =
     (if length b < 1 then None
      else if b ! 0 = 0xef then Some (Some Abridged, 1)
      else if length b < 4 then None
      else if allEqual b 0xee then Some (Some Intermediate, 4)
      else if allEqual b 0xdd then Some (Some PaddedIntermediate, 4)
      else if length b < 64 then None
      else Some (None, 64))"

definition obfStart :: "'k ctr \<Rightarrow> bytes \<Rightarrow> innerCodec \<times> 'k" where
  "obfStart C header =
     (let d = createAesCtr C (take 32 (drop 8 header)) (take 16 (drop 40 header)) False
      in (selectInnerCodec (take 4 (drop 56 (fst (ctr_process C header d)))), snd (ctr_process C header d)))"

lemma allEqual_append: "4 \<le> length b \<Longrightarrow> allEqual (b @ suf) v = allEqual b v"
  by (cases "b = []") (auto simp: allEqual_def nth_append)

lemma transportOf_stable:
  assumes "transportOf b = Some (k, n)"
  shows "transportOf (b @ suf) = Some (k, n) \<and> n \<le> length b"
proof -
  have len: "\<not> length b < 1" using assms by (simp add: transportOf_def split: if_splits)
  then have first: "(b @ suf) ! 0 = b ! 0" by (cases b) auto
  show ?thesis
  proof (cases "b ! 0 = 0xef")
    case True
    with assms len first show ?thesis by (auto simp: transportOf_def Suc_le_eq)
  next
    case False
    with assms len have "4 \<le> length b" by (simp add: transportOf_def split: if_splits)
    with assms len first False allEqual_append [OF this, of suf] show ?thesis
      by (simp add: transportOf_def split: if_splits)
  qed
qed

lemma allEqual_take: "4 \<le> length b \<Longrightarrow> allEqual (take 4 b) v = allEqual b v"
  by (simp add: allEqual_def)

lemma detect_effect:
  assumes laws: "bytes_laws A past view" and codec: "rv_codec s = None"
    and b: "view (rv_recvBuffer s) = b" and d: "detectTransport A C s = (ready, s')"
  shows "rv_closed s' = rv_closed s" "rv_messages s' = rv_messages s"
    "rv_pendingSocketData s' = rv_pendingSocketData s"
    "case transportOf b of
       None \<Rightarrow> \<not> ready \<and> rv_codec s' = None \<and> view (rv_recvBuffer s') = b
     | Some (Some k, n) \<Rightarrow> ready \<and> rv_codec s' = Some (Plain k) \<and> view (rv_recvBuffer s') = drop n b
     | Some (None, n) \<Rightarrow> ready \<and> view (rv_recvBuffer s') = drop 64 b \<and>
         (\<exists>c. rv_codec s' = Some (Obfuscated c) \<and> view (ob_decodeBuf c) = [] \<and>
            ob_inner c = fst (obfStart C (take 64 b)) \<and> ob_decryptor c = snd (obfStart C (take 64 b)))"
proof -
  note B = bytes_lawsD [OF laws]
  obtain h r1 where r1: "by_readSync A 1 (rv_recvBuffer s) = (h, r1)" by (cases "by_readSync A 1 (rv_recvBuffer s)")
  define r2 where "r2 = by_rewind A 1 r1"
  obtain g r1' where r1': "by_readSync A 1 r2 = (g, r1')" by (cases "by_readSync A 1 r2")
  obtain t r3 where r3: "by_readSync A 4 r2 = (t, r3)" by (cases "by_readSync A 4 r2")
  define r4 where "r4 = by_rewind A 4 r3"
  obtain t' r3' where r3': "by_readSync A 4 r4 = (t', r3')" by (cases "by_readSync A 4 r4")
  obtain hd64 r5 where r5: "by_readSync A 64 r4 = (hd64, r5)" by (cases "by_readSync A 64 r4")
  have v1: "h = take 1 b" "view r2 = b" "view r1' = drop 1 b" if "1 \<le> length b"
  proof -
    show "h = take 1 b" using B(6) [OF _ r1] b that by auto
    have "view r1 = drop 1 b" "past r1 = past (rv_recvBuffer s) @ take 1 b" using B(6) [OF _ r1] b that by auto
    then show v: "view r2 = b" using B(7) [of 1 r1] that by (simp add: r2_def)
    show "view r1' = drop 1 b" using B(6) [OF _ r1'] v that by auto
  qed
  have v4: "t = take 4 b" "view r4 = b" "view r3' = drop 4 b" if "4 \<le> length b"
  proof -
    have "view r2 = b" using v1 that by auto
    then have "t = take 4 b" "view r3 = drop 4 b" "past r3 = past r2 @ take 4 b" using B(6) [OF _ r3] that by auto
    then show "t = take 4 b" and v: "view r4 = b" using B(7) [of 4 r3] that by (simp_all add: r4_def)
    show "view r3' = drop 4 b" using B(6) [OF _ r3'] v that by auto
  qed
  have v64: "hd64 = take 64 b" "view r5 = drop 64 b" if "64 \<le> length b"
    using B(6) [OF _ r5] v4 that by auto
  have d': "detectTransport A C s =
      (if length b < 1 then (False, s)
       else if h ! 0 = 0xef then (True, s\<lparr>rv_recvBuffer := r1', rv_codec := Some (Plain Abridged)\<rparr>)
       else if length b < 4 then (False, s\<lparr>rv_recvBuffer := r2\<rparr>)
       else if allEqual t 0xee then (True, s\<lparr>rv_recvBuffer := r3', rv_codec := Some (Plain Intermediate)\<rparr>)
       else if allEqual t 0xdd then (True, s\<lparr>rv_recvBuffer := r3', rv_codec := Some (Plain PaddedIntermediate)\<rparr>)
       else if length b < 64 then (False, s\<lparr>rv_recvBuffer := r4\<rparr>)
       else (True, s\<lparr>rv_recvBuffer := r5,
              rv_codec := map_option (\<lambda>(c, _). Obfuscated c) (createServerObfuscation A C hd64)\<rparr>))"
    by (simp only: detectTransport_def Let_def B(2) b r1 r2_def [symmetric] r1' r3 r4_def [symmetric] r3' r5
        prod.case snd_conv)
  show "rv_closed s' = rv_closed s" "rv_messages s' = rv_messages s"
    "rv_pendingSocketData s' = rv_pendingSocketData s"
    using d unfolding d' by (auto split: if_splits)
  have obf: "\<exists>c x. createServerObfuscation A C (take 64 b) = Some (c, x) \<and> view (ob_decodeBuf c) = [] \<and>
      ob_inner c = fst (obfStart C (take 64 b)) \<and> ob_decryptor c = snd (obfStart C (take 64 b))" if "64 \<le> length b"
    using that by (simp add: createServerObfuscation_def obfStart_def Let_def split_def B(1) take_drop)
  have first: "take 1 b ! 0 = b ! 0" by (cases b) auto
  show "case transportOf b of
       None \<Rightarrow> \<not> ready \<and> rv_codec s' = None \<and> view (rv_recvBuffer s') = b
     | Some (Some k, n) \<Rightarrow> ready \<and> rv_codec s' = Some (Plain k) \<and> view (rv_recvBuffer s') = drop n b
     | Some (None, n) \<Rightarrow> ready \<and> view (rv_recvBuffer s') = drop 64 b \<and>
         (\<exists>c. rv_codec s' = Some (Obfuscated c) \<and> view (ob_decodeBuf c) = [] \<and>
            ob_inner c = fst (obfStart C (take 64 b)) \<and> ob_decryptor c = snd (obfStart C (take 64 b)))"
    (is ?goal)
  proof -
    consider (none) "length b < 1"
      | (ef) "1 \<le> length b" "b ! 0 = 0xef"
      | (short) "1 \<le> length b" "b ! 0 \<noteq> 0xef" "length b < 4"
      | (ee) "4 \<le> length b" "b ! 0 \<noteq> 0xef" "allEqual b 0xee"
      | (dd) "4 \<le> length b" "b ! 0 \<noteq> 0xef" "\<not> allEqual b 0xee" "allEqual b 0xdd"
      | (header) "4 \<le> length b" "b ! 0 \<noteq> 0xef" "\<not> allEqual b 0xee" "\<not> allEqual b 0xdd" "length b < 64"
      | (full) "64 \<le> length b" "b ! 0 \<noteq> 0xef" "\<not> allEqual b 0xee" "\<not> allEqual b 0xdd"
      by linarith
    then show ?goal
    proof cases
      case none
      with d codec b show ?thesis unfolding d' by (simp add: transportOf_def)
    next
      case ef
      with d v1 first show ?thesis unfolding d' by (auto simp: transportOf_def)
    next
      case short
      with d v1 first codec show ?thesis unfolding d' by (auto simp: transportOf_def)
    next
      case ee
      then have "1 \<le> length b" by simp
      with ee d v1 v4 first show ?thesis unfolding d' by (auto simp: transportOf_def allEqual_take)
    next
      case dd
      then have "1 \<le> length b" by simp
      with dd d v1 v4 first show ?thesis unfolding d' by (auto simp: transportOf_def allEqual_take)
    next
      case header
      then have "1 \<le> length b" by simp
      with header d v1 v4 first codec show ?thesis unfolding d' by (auto simp: transportOf_def allEqual_take)
    next
      case full
      then have len: "1 \<le> length b" "4 \<le> length b" by simp_all
      have "b \<noteq> []" using len by auto
      with full len d v1(1) [OF len(1)] v4(1) [OF len(2)] first have "(True, s\<lparr>rv_recvBuffer := r5,
              rv_codec := map_option (\<lambda>(c, _). Obfuscated c) (createServerObfuscation A C hd64)\<rparr>) = (ready, s')"
        unfolding d' by (simp add: allEqual_take)
      with full len v64 obf show ?thesis by (auto simp: transportOf_def)
    qed
  qed
qed

section \<open>The receiver\<close>

text \<open>The frames the connection delivers for the byte stream \<open>b\<close>.\<close>

definition transportFrames ::
  "'k ctr \<Rightarrow> (innerCodec \<Rightarrow> bytes \<Rightarrow> (bytes \<times> bytes) option) \<Rightarrow> bytes \<Rightarrow> bytes list" where
  "transportFrames C q b =
     (case transportOf b of
        None \<Rightarrow> []
      | Some (Some k, n) \<Rightarrow> fst (framesOf (parserOf q k) (drop n b))
      | Some (None, n) \<Rightarrow>
          let (k, d) = obfStart C (take 64 b)
          in fst (framesOf (parserOf q k) (fst (ctr_process C (drop 64 b) d))))"

definition plain_inv where
  "plain_inv view q k rest s \<longleftrightarrow>
     rv_codec s = Some (Plain k) \<and> rv_messages s = fst (framesOf (parserOf q k) rest) \<and>
     view (rv_recvBuffer s) = snd (framesOf (parserOf q k) rest)"

definition obf_inv where
  "obf_inv view C q k d rest s \<longleftrightarrow>
     (\<exists>c. rv_codec s = Some (Obfuscated c) \<and> view (rv_recvBuffer s) = [] \<and> ob_inner c = k \<and>
        ob_decryptor c = snd (ctr_process C rest d) \<and>
        rv_messages s = fst (framesOf (parserOf q k) (fst (ctr_process C rest d))) \<and>
        view (ob_decodeBuf c) = snd (framesOf (parserOf q k) (fst (ctr_process C rest d))))"

definition receiver_inv where
  "receiver_inv view C q b s \<longleftrightarrow>
     \<not> rv_closed s \<and> rv_pendingSocketData s = [] \<and>
     (case transportOf b of
        None \<Rightarrow> rv_codec s = None \<and> view (rv_recvBuffer s) = b \<and> rv_messages s = []
      | Some (Some k, n) \<Rightarrow> plain_inv view q k (drop n b) s
      | Some (None, n) \<Rightarrow> obf_inv view C q (fst (obfStart C (take 64 b))) (snd (obfStart C (take 64 b))) (drop 64 b) s)"

lemma receiver_inv_messages: "receiver_inv view C q b s \<Longrightarrow> rv_messages s = transportFrames C q b"
  by (auto simp: receiver_inv_def transportFrames_def plain_inv_def obf_inv_def split_def Let_def split: option.splits)

lemma write_all_view:
  "bytes_laws A past view \<Longrightarrow> view (fold (by_write A) cs r) = view r @ concat cs"
  using bytes_lawsD(3) [of A past view] by (induction cs arbitrary: r) auto

lemma plain_advance:
  assumes laws: "bytes_laws A past view" "ext_laws view E q"
    and s: "rv_codec s = Some (Plain k)" "rv_messages s = fst (framesOf (parserOf q k) rest)"
      "view (rv_recvBuffer s) = snd (framesOf (parserOf q k) rest) @ new"
  shows "\<exists>msgs r. decodeLoop A E C (Plain k) (rv_recvBuffer s) (rv_messages s) = Some (msgs, Plain k, r) \<and>
    msgs = fst (framesOf (parserOf q k) (rest @ new)) \<and> view r = snd (framesOf (parserOf q k) (rest @ new))"
  using plain_loop [OF laws, of C k "rv_recvBuffer s" "rv_messages s"] s
    packet_framing.framesOf_append [OF parserOf_framing [OF laws(2)], of k rest new]
  by auto

lemma obf_advance:
  assumes laws: "bytes_laws A past view" "ext_laws view E q" "ctr_laws C synced"
    and c: "ob_inner c = k" "ob_decryptor c = snd (ctr_process C rest d)"
      "view (ob_decodeBuf c) = snd (framesOf (parserOf q k) (fst (ctr_process C rest d)))"
    and s: "msgs = fst (framesOf (parserOf q k) (fst (ctr_process C rest d)))" "view r = new"
  shows "\<exists>c' r'. decodeLoop A E C (Obfuscated c) r msgs =
      Some (fst (framesOf (parserOf q k) (fst (ctr_process C (rest @ new) d))), Obfuscated c', r') \<and>
    view (ob_decodeBuf c') = snd (framesOf (parserOf q k) (fst (ctr_process C (rest @ new) d))) \<and> view r' = [] \<and>
    ob_inner c' = k \<and> ob_decryptor c' = snd (ctr_process C (rest @ new) d)"
proof -
  have split: "fst (ctr_process C (rest @ new) d) =
      fst (ctr_process C rest d) @ fst (ctr_process C new (snd (ctr_process C rest d)))"
    "snd (ctr_process C (rest @ new) d) = snd (ctr_process C new (snd (ctr_process C rest d)))"
    using laws(3) unfolding ctr_laws_def by blast+
  let ?p = "fst (ctr_process C rest d)" and ?x = "fst (ctr_process C new (snd (ctr_process C rest d)))"
  have buf: "snd (framesOf (parserOf q k) ?p) @ ?x =
      view (ob_decodeBuf c) @ fst (ctr_process C (view r) (ob_decryptor c))"
    using c s by simp
  note app = packet_framing.framesOf_append [OF parserOf_framing [OF laws(2)], of k ?p ?x]
  show ?thesis
    using obf_loop [OF laws buf, of msgs] unfolding split app c(1,2) s by simp blast
qed

lemma drain_inv:
  assumes laws: "bytes_laws A past view" "ext_laws view E q" "ctr_laws C synced"
    and inv: "receiver_inv view C q b s"
  shows "\<exists>s'. drainSocketData A E C (s\<lparr>rv_pendingSocketData := cs\<rparr>) = Some s' \<and>
    receiver_inv view C q (b @ concat cs) s'"
proof (cases "cs = []")
  case True
  have same: "s\<lparr>rv_pendingSocketData := []\<rparr> = s" using inv by (simp add: receiver_inv_def)
  have "rv_pendingSocketData s = []" using inv by (simp add: receiver_inv_def)
  then show ?thesis using inv unfolding True same by (simp add: drainSocketData_def)
next
  case False
  let ?b = "b @ concat cs"
  define r where "r = fold (by_write A) cs (rv_recvBuffer s)"
  define s1 where "s1 = s\<lparr>rv_recvBuffer := r, rv_pendingSocketData := []\<rparr>"
  have view_r: "view r = view (rv_recvBuffer s) @ concat cs"
    by (simp add: r_def write_all_view [OF laws(1)])
  have closed: "\<not> rv_closed s" using inv by (simp add: receiver_inv_def)
  have drain: "drainSocketData A E C (s\<lparr>rv_pendingSocketData := cs\<rparr>) =
      (let (ready, s2) = (if rv_codec s1 = None then detectTransport A C s1 else (True, s1))
       in case rv_codec s2 of
            None \<Rightarrow> Some s2
          | Some codec \<Rightarrow>
              if \<not> ready then Some s2
              else case decodeLoop A E C codec (rv_recvBuffer s2) (rv_messages s2) of
                     None \<Rightarrow> None
                   | Some (msgs, codec1, r) \<Rightarrow>
                       Some (s2\<lparr>rv_messages := msgs, rv_codec := Some codec1,
                                rv_recvBuffer := reclaimReceiveBuffer A r 65536\<rparr>))"
    using False closed by (simp add: drainSocketData_def s1_def r_def Let_def)
  have plain: ?thesis if s2: "(if rv_codec s1 = None then detectTransport A C s1 else (True, s1)) = (True, s2)"
      "rv_closed s2 = rv_closed s" "rv_pendingSocketData s2 = []" "transportOf ?b = Some (Some k, n)"
      "rv_codec s2 = Some (Plain k)" "rv_messages s2 = fst (framesOf (parserOf q k) rest)"
      "view (rv_recvBuffer s2) = snd (framesOf (parserOf q k) rest) @ new" "drop n ?b = rest @ new"
    for s2 k n rest new
    using plain_advance [OF laws(1,2) s2(5,6,7), of C] s2 closed reclaim_view [OF laws(1)]
    unfolding drain by (auto simp: receiver_inv_def plain_inv_def)
  have obf: ?thesis if s2: "(if rv_codec s1 = None then detectTransport A C s1 else (True, s1)) = (True, s2)"
      "rv_closed s2 = rv_closed s" "rv_pendingSocketData s2 = []" "transportOf ?b = Some (None, n)"
      "rv_codec s2 = Some (Obfuscated c)" "k = fst (obfStart C (take 64 ?b))" "d = snd (obfStart C (take 64 ?b))"
      "ob_inner c = k" "ob_decryptor c = snd (ctr_process C rest d)"
      "view (ob_decodeBuf c) = snd (framesOf (parserOf q k) (fst (ctr_process C rest d)))"
      "rv_messages s2 = fst (framesOf (parserOf q k) (fst (ctr_process C rest d)))"
      "view (rv_recvBuffer s2) = new" "drop 64 ?b = rest @ new"
    for s2 n c k d rest new
    using obf_advance [OF laws s2(8,9,10,11,12)] s2 closed reclaim_view [OF laws(1)]
    unfolding drain by (auto simp: receiver_inv_def obf_inv_def)
  show ?thesis
  proof (cases "transportOf b")
    case Some
    then obtain k n where kn: "transportOf b = Some (k, n)" by (cases "the (transportOf b)") auto
    note st = transportOf_stable [OF kn, of "concat cs"]
    show ?thesis
    proof (cases k)
      case (Some k')
      with kn inv have "plain_inv view q k' (drop n b) s" by (simp add: receiver_inv_def)
      with Some kn st closed show ?thesis
        by (intro plain [of s1 k' n "drop n b" "concat cs"]) (auto simp: plain_inv_def s1_def view_r)
    next
      case None
      then have n: "n = 64" using kn by (auto simp: transportOf_def split: if_splits)
      from None kn inv obtain c where c: "rv_codec s = Some (Obfuscated c)" "view (rv_recvBuffer s) = []"
        "ob_inner c = fst (obfStart C (take 64 b))"
        "ob_decryptor c = snd (ctr_process C (drop 64 b) (snd (obfStart C (take 64 b))))"
        "rv_messages s = fst (framesOf (parserOf q (fst (obfStart C (take 64 b))))
            (fst (ctr_process C (drop 64 b) (snd (obfStart C (take 64 b))))))"
        "view (ob_decodeBuf c) = snd (framesOf (parserOf q (fst (obfStart C (take 64 b))))
            (fst (ctr_process C (drop 64 b) (snd (obfStart C (take 64 b))))))"
        by (auto simp: receiver_inv_def obf_inv_def)
      with None st closed n show ?thesis
        by (intro obf [of s1 n c "fst (obfStart C (take 64 ?b))" "snd (obfStart C (take 64 ?b))" "drop 64 b" "concat cs"])
          (simp_all add: s1_def view_r)
    qed
  next
    case None
    with inv have s: "rv_codec s = None" "view (rv_recvBuffer s) = b" "rv_messages s = []"
      by (simp_all add: receiver_inv_def)
    obtain ready s2 where d: "detectTransport A C s1 = (ready, s2)" by (cases "detectTransport A C s1")
    have s1: "rv_codec s1 = None" "view (rv_recvBuffer s1) = ?b" "rv_messages s1 = []" "rv_closed s1 = rv_closed s"
      "rv_pendingSocketData s1 = []"
      using s by (simp_all add: s1_def view_r)
    note D = detect_effect [OF laws(1) s1(1,2) d, unfolded s1]
    show ?thesis
    proof (cases "transportOf ?b")
      case none: None
      with D closed d s1 show ?thesis
        unfolding drain by (simp add: receiver_inv_def)
    next
      case (Some kn)
      obtain k n where kn: "transportOf ?b = Some (k, n)" using Some by (cases kn) auto
      show ?thesis
      proof (cases k)
        case (Some k')
        with kn D d s1 show ?thesis
          by (intro plain [of s2 k' n "[]" "drop n ?b"]) (simp_all add: framesOf_def)
      next
        case none: None
        then have n: "n = 64" using kn by (auto simp: transportOf_def split: if_splits)
        from none kn D obtain c where c: "ready" "view (rv_recvBuffer s2) = drop 64 ?b" "rv_codec s2 = Some (Obfuscated c)"
          "view (ob_decodeBuf c) = []" "ob_inner c = fst (obfStart C (take 64 ?b))"
          "ob_decryptor c = snd (obfStart C (take 64 ?b))"
          by auto
        have "fst (ctr_process C [] e) = []" "snd (ctr_process C [] e) = e" for e
          using laws(3) by (auto simp: ctr_laws_def simp flip: length_0_conv)
        with none kn n D c d s1 show ?thesis
          by (intro obf [of s2 n c "fst (obfStart C (take 64 ?b))" "snd (obfStart C (take 64 ?b))" "[]" "drop 64 ?b"])
            (simp_all add: framesOf_def)
      qed
    qed
  qed
qed

section \<open>Runs\<close>

text \<open>The data events of a connection: each batch of chunks arrives before the decode loop gets
  to them.\<close>

fun receiveRun ::
  "'r bytesApi \<Rightarrow> 'r extCodec \<Rightarrow> 'k ctr \<Rightarrow> bytes list list \<Rightarrow> ('k, 'r) receiver \<Rightarrow> ('k, 'r) receiver option" where
  "receiveRun A E C [] s = Some s"
| "receiveRun A E C (cs # css) s =
     (case drainSocketData A E C (fold handleData cs s) of
        None \<Rightarrow> None
      | Some s' \<Rightarrow> receiveRun A E C css s')"

lemma handleData_all:
  "\<not> rv_closed s \<Longrightarrow> fold handleData cs s = s\<lparr>rv_pendingSocketData := rv_pendingSocketData s @ cs\<rparr>"
  by (induction cs arbitrary: s) (simp_all add: handleData_def)

lemma receiveRun_inv:
  assumes laws: "bytes_laws A past view" "ext_laws view E q" "ctr_laws C synced"
    and inv: "receiver_inv view C q b s"
  shows "\<exists>s'. receiveRun A E C css s = Some s' \<and> receiver_inv view C q (b @ concat (concat css)) s'"
  using inv
proof (induction css arbitrary: b s)
  case (Cons cs css)
  have "\<not> rv_closed s" "rv_pendingSocketData s = []" using Cons.prems by (simp_all add: receiver_inv_def)
  then have f: "fold handleData cs s = s\<lparr>rv_pendingSocketData := cs\<rparr>" by (simp add: handleData_all)
  from drain_inv [OF laws Cons.prems, of cs] obtain s1 where
    s1: "drainSocketData A E C (fold handleData cs s) = Some s1" "receiver_inv view C q (b @ concat cs) s1"
    unfolding f by blast
  from Cons.IH [OF s1(2)] s1(1) show ?case by simp
qed simp

lemma newReceiver_inv: "bytes_laws A past view \<Longrightarrow> receiver_inv view C q [] (newReceiver A)"
  by (simp add: receiver_inv_def newReceiver_def transportOf_def bytes_lawsD(1))

lemma receiveRun_frames:
  assumes "bytes_laws A past view" and "ext_laws view E q" and "ctr_laws C synced"
  shows "\<exists>s. receiveRun A E C css (newReceiver A) = Some s \<and>
    rv_messages s = transportFrames C q (concat (concat css))"
  using receiveRun_inv [OF assms newReceiver_inv [OF assms(1)], of css] receiver_inv_messages
  by fastforce

section \<open>The client's side of the obfuscation handshake\<close>

text \<open>
  The documented client: from 64 random bytes with the tag of the inner framing at
  \<open>[56:60]\<close> it makes its encryptor from \<open>[8:40]\<close> and \<open>[40:56]\<close>, encrypts all 64 bytes and
  sends the first 56 in the clear followed by the last 8 encrypted.
\<close>

definition clientEncryptor :: "'k ctr \<Rightarrow> bytes \<Rightarrow> 'k" where
  "clientEncryptor C h = createAesCtr C (take 32 (drop 8 h)) (take 16 (drop 40 h)) True"

definition clientHeader :: "'k ctr \<Rightarrow> bytes \<Rightarrow> bytes" where
  "clientHeader C h = take 56 h @ drop 56 (fst (ctr_process C h (clientEncryptor C h)))"

lemma ctr_lawsD:
  assumes "ctr_laws C synced"
  shows "synced (createAesCtr C key iv True) (createAesCtr C key iv False)"
    "synced e d \<Longrightarrow> fst (ctr_process C (fst (ctr_process C x e)) d) = x"
    "synced e d \<Longrightarrow> synced (snd (ctr_process C x e)) (snd (ctr_process C (fst (ctr_process C x e)) d))"
    "fst (ctr_process C (x @ y) e) = fst (ctr_process C x e) @ fst (ctr_process C y (snd (ctr_process C x e)))"
    "snd (ctr_process C (x @ y) e) = snd (ctr_process C y (snd (ctr_process C x e)))"
    "length x = length y \<Longrightarrow> snd (ctr_process C x e) = snd (ctr_process C y e)"
    "length (fst (ctr_process C x e)) = length x"
  using assms unfolding ctr_laws_def by blast+

lemma obfStart_client:
  assumes laws: "ctr_laws C synced" and len: "length h = 64"
  shows "fst (obfStart C (clientHeader C h)) = selectInnerCodec (take 4 (drop 56 h))"
    and "synced (snd (ctr_process C h (clientEncryptor C h))) (snd (obfStart C (clientHeader C h)))"
    and "length (clientHeader C h) = 64"
proof -
  note L = ctr_lawsD [OF laws]
  define e0 where "e0 = clientEncryptor C h"
  define d0 where "d0 = createAesCtr C (take 32 (drop 8 h)) (take 16 (drop 40 h)) False"
  define a where "a = take 56 h"
  define z where "z = drop 56 h"
  have h: "h = a @ z" and la: "length a = 56" using len by (simp_all add: a_def z_def)
  define x where "x = fst (ctr_process C z (snd (ctr_process C a e0)))"
  have hdr: "clientHeader C h = a @ x"
    using la L(7) [of a e0] by (simp add: clientHeader_def e0_def [symmetric] x_def L(4) flip: a_def)
      (simp add: h L(4))
  have "take 32 (drop 8 (a @ x)) = take 32 (drop 8 h)" "take 16 (drop 40 (a @ x)) = take 16 (drop 40 h)"
    using la by (simp_all add: h)
  then have start: "obfStart C (clientHeader C h) =
      (selectInnerCodec (take 4 (drop 56 (fst (ctr_process C (a @ x) d0)))), snd (ctr_process C (a @ x) d0))"
    by (simp add: hdr obfStart_def d0_def Let_def)
  have sync: "synced (snd (ctr_process C a e0)) (snd (ctr_process C a d0))"
    using L(3) [OF L(1), of a "take 32 (drop 8 h)" "take 16 (drop 40 h)"]
      L(6) [of "fst (ctr_process C a e0)" a d0] L(7)
    by (simp add: e0_def d0_def clientEncryptor_def)
  have "fst (ctr_process C (a @ x) d0) = fst (ctr_process C a d0) @ z"
    using L(2) [OF sync] by (simp add: L(4) x_def)
  then show "fst (obfStart C (clientHeader C h)) = selectInnerCodec (take 4 (drop 56 h))"
    unfolding start using la L(7) [of a d0] by (simp add: z_def)
  show "synced (snd (ctr_process C h (clientEncryptor C h))) (snd (obfStart C (clientHeader C h)))"
  proof -
    have "snd (ctr_process C h e0) = snd (ctr_process C z (snd (ctr_process C a e0)))" by (metis L(5) h)
    then show ?thesis
      unfolding start using L(3) [OF sync, of z] L(5) [of a x d0] by (simp add: e0_def x_def)
  qed
  show "length (clientHeader C h) = 64"
    using la len L(7) by (simp add: hdr x_def z_def)
qed

section \<open>Concrete parameters\<close>

text \<open>For the witnesses: a buffer as a pair of lists, no external codec, and a stream cipher that
  adds the first key byte.\<close>

definition listBytes :: "(bytes \<times> bytes) bytesApi" where
  "listBytes = \<lparr>by_alloc = (\<lambda>_. ([], [])), by_available = (\<lambda>r. length (snd r)), by_capacity = (\<lambda>r. length (snd r)),
     by_readSync = (\<lambda>n r. (take n (snd r), (fst r @ take n (snd r), drop n (snd r)))),
     by_rewind = (\<lambda>n r. (take (length (fst r) - n) (fst r), drop (length (fst r) - n) (fst r) @ snd r)),
     by_write = (\<lambda>b r. (fst r, snd r @ b)), by_reclaim = (\<lambda>r. ([], snd r)), by_reset = (\<lambda>r. ([], []))\<rparr>"

definition noExt :: "(bytes \<times> bytes) extCodec" where
  "noExt = \<lparr>ext_decode = (\<lambda>_ r. (None, r)), ext_encode = (\<lambda>_ b. b)\<rparr>"

definition shiftCtr :: "byte ctr" where
  "shiftCtr = \<lparr>ctr_process = (\<lambda>b k. (map (xor k) b, k)), createAesCtr = (\<lambda>key iv enc. hd (key @ [0]))\<rparr>"

lemma listBytes_laws: "bytes_laws listBytes fst snd"
  by (simp add: bytes_laws_def listBytes_def)

lemma noExt_laws: "ext_laws snd noExt (\<lambda>_ _. None)"
  by (auto simp: ext_laws_def noExt_def decodes_def intro: packet_framing.intro)

lemma shiftCtr_laws: "ctr_laws shiftCtr (=)"
  by (simp add: ctr_laws_def shiftCtr_def comp_def xor.assoc [symmetric] map_idI)

section \<open>Properties\<close>

text \<open>
  Abridged framing is its own inverse, at any buffer: decoding what \<open>encode\<close> wrote gives the
  frame and leaves the buffer exactly behind it, for every frame of whole words below 2^24
  words; on any proper prefix of an encoded frame \<open>decode\<close> answers \<open>null\<close> and rewinds the
  buffer to where it was.
\<close>

theorem abridged_decode_inverts_encode:
  assumes "bytes_laws A past view" and "length f mod 4 = 0" and "length f div 4 < 2 ^ 24"
  shows "(view r = abridgedEncode f @ rest \<longrightarrow>
      fst (abridgedDecode A False r) = Some f \<and> view (snd (abridgedDecode A False r)) = rest) \<and>
    (view r = take n (abridgedEncode f) \<and> n < length (abridgedEncode f) \<longrightarrow>
      fst (abridgedDecode A False r) = None \<and> view (snd (abridgedDecode A False r)) = view r)"
proof -
  note rt = abridged_roundtrip [OF assms(2,3)]
  note dec = abridgedDecode_refines [OF assms(1), unfolded decodes_def, rule_format, of r]
  have "abridgedParse (take n (abridgedEncode f)) = None" if "n < length (abridgedEncode f)"
  proof (cases "abridgedParse (take n (abridgedEncode f))")
    case (Some x)
    then obtain g t where "abridgedParse (take n (abridgedEncode f)) = Some (g, t)" by (cases x) auto
    from abridged.extends [OF this, of "drop n (abridgedEncode f)"] rt [of "[]"] that show ?thesis by simp
  qed
  with dec rt show ?thesis by auto
qed

theorem abridged_decode_inverts_encode_witness:
  "fst (abridgedDecode listBytes False ([], abridgedEncode [1, 2, 3, 4] @ [9])) = Some [1, 2, 3, 4] \<and>
   abridgedDecode listBytes False ([7], [1, 1, 2]) = (None, ([7], [1, 1, 2]))"
proof -
  have "fst (abridgedDecode listBytes False ([], abridgedEncode [1, 2, 3, 4] @ [9])) = Some [1, 2, 3, 4]"
    using abridged_decode_inverts_encode [OF listBytes_laws, of "[1, 2, 3, 4]" "([], abridgedEncode [1, 2, 3, 4] @ [9])"]
    by simp
  moreover have "abridgedDecode listBytes False ([7], [1, 1, 2]) = (None, ([7], [1, 1, 2]))" by code_simp
  ultimately show ?thesis by simp
qed

text \<open>
  C3. The frames a connection delivers depend only on the bytes received, not on how they were
  cut into chunks or batched between runs of the decode loop: after any run they are the
  frames of the whole stream, for every transport (detection, plain framings and
  obfuscation), and the decode loop always ends.
\<close>

theorem frames_independent_of_chunking:
  assumes "bytes_laws A past view" and "ext_laws view E q" and "ctr_laws C synced"
  shows "\<exists>s. receiveRun A E C css (newReceiver A) = Some s \<and>
    rv_messages s = transportFrames C q (concat (concat css))"
  by (rule receiveRun_frames [OF assms])

theorem frames_independent_of_chunking_witness:
  "\<exists>s. receiveRun listBytes noExt shiftCtr [[[0xef, 1]], [[5], []], [[6, 7], [8, 2, 0]]] (newReceiver listBytes) = Some s \<and>
     rv_messages s = [[5, 6, 7, 8]]"
proof -
  have "transportFrames shiftCtr (\<lambda>_ _. None) [0xef, 1, 5, 6, 7, 8, 2, 0] = [[5, 6, 7, 8]]" by code_simp
  then show ?thesis
    using frames_independent_of_chunking [OF listBytes_laws noExt_laws shiftCtr_laws,
        of "[[[0xef, 1]], [[5], []], [[6, 7], [8, 2, 0]]]"] by simp
qed



end
