(* ===== verification/Auth_Key_Store_Safety.thy ===== *)
theory Auth_Key_Store_Safety
  imports Auth_Key_Store
begin

text \<open>
  Revocation safety of the auth-key stores. The abstract store is a map from key ids to
  records with a set of tombstones; \<open>specMove\<close> says how it may change. The locale
  \<open>revocable_store\<close> is the contract that sessions rely on, stated as a simulation of the
  abstract store, and its theorem (a revoked key stays dead) is proved once inside it. Both
  stores interpret it, the file store with every file-system failure and with crashes.
\<close>

section \<open>Hexadecimal ids\<close>

lemma hex_digit_chars: "n < 16 \<Longrightarrow> isHexDigit (hex_digit n)"
proof -
  have "\<forall>n < 16. isHexDigit (hex_digit n)" by code_simp
  then show "n < 16 \<Longrightarrow> isHexDigit (hex_digit n)" by blast
qed

lemma toHex_digits: "c \<in> set (toHex u) \<Longrightarrow> isHexDigit c"
proof (induction u)
  case (Cons b u)
  have "unat b div 16 < 16" and "unat b mod 16 < 16" using unat_byte_bound [of b] by auto
  with Cons show ?case by (auto simp: byteHex_def hex_digit_chars)
qed simp

section \<open>The abstract store\<close>

type_synonym absStore = "(bytes \<Rightarrow> storedAuthKey option) \<times> bytes set"

definition belongs :: "bytes \<Rightarrow> bytes \<Rightarrow> storedAuthKey \<Rightarrow> bool" where
  "belongs t i r \<longleftrightarrow> i = t \<or> sk_permanentKeyId r = Some t"

text \<open>The permanent key that a save concerns: the record's, else the stored record's, else itself.\<close>

definition ownerOf :: "(bytes \<Rightarrow> storedAuthKey option) \<Rightarrow> bytes \<Rightarrow> storedAuthKey \<Rightarrow> bytes" where
  "ownerOf K i r =
     (case sk_permanentKeyId r of
        Some p \<Rightarrow> p
      | None \<Rightarrow> (case K i of None \<Rightarrow> i | Some e \<Rightarrow> (case sk_permanentKeyId e of None \<Rightarrow> i | Some p \<Rightarrow> p)))"

definition visible :: "int \<Rightarrow> absStore \<Rightarrow> bytes \<Rightarrow> storedAuthKey option" where
  "visible now a i =
     (case fst a i of
        None \<Rightarrow> None
      | Some r \<Rightarrow> if (\<exists>t \<in> snd a. belongs t i r) \<or> expired now (sk_expiresAt r) then None else Some r)"

text \<open>\<open>specMove e a b\<close>: what an operation may do whose only save is \<open>e\<close>. A tombstone is lifted only
  when no record belongs to it any more.\<close>

inductive specMove :: "(bytes \<times> storedAuthKey) option \<Rightarrow> absStore \<Rightarrow> absStore \<Rightarrow> bool" where
  stay: "specMove e a a"
| save: "ownerOf K i r \<notin> T \<Longrightarrow> specMove (Some (i, r)) (K, T) (K(i \<mapsto> r), T)"
| shrink: "K' \<subseteq>\<^sub>m K \<Longrightarrow> specMove e (K, T) (K', T)"
| revoke: "specMove e (K, T) (K, T \<union> U)"
| lift: "(\<And>i r. K i = Some r \<Longrightarrow> \<not> belongs t i r) \<Longrightarrow> specMove e (K, T) (K, T - {t})"
| trans: "specMove e a b \<Longrightarrow> specMove e b c \<Longrightarrow> specMove e a c"

definition dead :: "bytes \<Rightarrow> absStore \<Rightarrow> bool" where
  "dead t a \<longleftrightarrow> t \<in> snd a \<or> (\<forall>i r. fst a i = Some r \<longrightarrow> \<not> belongs t i r)"

lemma specMove_dead:
  "specMove e a b \<Longrightarrow> (\<And>i r. e = Some (i, r) \<Longrightarrow> \<not> belongs t i r) \<Longrightarrow> dead t a \<Longrightarrow> dead t b"
proof (induction rule: specMove.induct)
  case (shrink K' K e T)
  have "K' i = Some r \<Longrightarrow> K i = Some r" for i r
    using shrink.hyps by (auto simp: map_le_def dom_def)
  with shrink.prems(2) show ?case by (auto simp: dead_def)
qed (auto simp: dead_def)

lemma dead_visible: "dead t a \<Longrightarrow> visible now a i = Some r \<Longrightarrow> \<not> belongs t i r"
  by (auto simp: dead_def visible_def split: option.splits if_splits)

section \<open>The contract\<close>

locale revocable_store =
  fixes abst :: "'s \<Rightarrow> absStore" and inv :: "'s \<Rightarrow> bool"
    and step :: "(bytes \<times> storedAuthKey) option \<Rightarrow> 's \<Rightarrow> 's \<Rightarrow> bool"
    and read :: "int \<Rightarrow> bytes \<Rightarrow> 's \<Rightarrow> storedAuthKey option"
  assumes inv_step: "inv s \<Longrightarrow> step e s s' \<Longrightarrow> inv s'"
    and simulates: "inv s \<Longrightarrow> step e s s' \<Longrightarrow> specMove e (abst s) (abst s')"
    and read_visible: "inv s \<Longrightarrow> read now i s = visible now (abst s) i"
begin

inductive run :: "(bytes \<times> storedAuthKey) option list \<Rightarrow> 's \<Rightarrow> 's \<Rightarrow> bool" where
  nil: "run [] s s"
| cons: "step e s s' \<Longrightarrow> run es s' s'' \<Longrightarrow> run (e # es) s s''"

lemma run_dead:
  "run es s s' \<Longrightarrow> inv s \<Longrightarrow> dead t (abst s) \<Longrightarrow> (\<And>i r. Some (i, r) \<in> set es \<Longrightarrow> \<not> belongs t i r) \<Longrightarrow>
   inv s' \<and> dead t (abst s')"
proof (induction rule: run.induct)
  case (cons e s s' es s'')
  have "inv s'" using cons.hyps(1) cons.prems(1) by (rule_tac inv_step)
  moreover have "dead t (abst s')"
    by (rule specMove_dead [OF simulates [OF cons.prems(1) cons.hyps(1)]])
      (use cons.prems in auto)
  ultimately show ?case using cons.IH cons.prems(3) by simp
qed simp

lemma stays_dead:
  assumes "inv s" and "t \<in> snd (abst s)" and "run es s s'"
    and "\<And>i r. Some (i, r) \<in> set es \<Longrightarrow> \<not> belongs t i r" and "read now i s' = Some r"
  shows "\<not> belongs t i r"
proof -
  have "inv s' \<and> dead t (abst s')"
    using assms by (intro run_dead [of es s s' t]) (auto simp: dead_def)
  with assms(5) show ?thesis by (auto simp: read_visible dead_visible)
qed

end

section \<open>The memory store\<close>

definition memAbs :: "memStore \<Rightarrow> absStore" where
  "memAbs s = (\<lambda>i. js_get (ms_keys s) (toHex i), {i. toHex i \<in> set (ms_revoked s)})"

definition memInv :: "memStore \<Rightarrow> bool" where
  "memInv s \<longleftrightarrow> js_inv (ms_keys s)"

inductive memStep :: "(bytes \<times> storedAuthKey) option \<Rightarrow> memStore \<Rightarrow> memStore \<Rightarrow> bool" where
  "memStep None s (snd (memGet now i s))"
| "memStep (Some (i, r)) s (fst (memSave i r s))"
| "memStep None s (memBeginRevocation i s)"
| "memStep None s (fst (memFinishRevocation i s))"
| "memStep None s (memRecoverPendingRevocations s)"
| "memStep None s (fst (memDelete i s))"

lemma map_of_filter_submap: "distinct (map fst m) \<Longrightarrow> map_of (filter P m) \<subseteq>\<^sub>m map_of m"
proof (unfold map_le_def, intro ballI)
  fix k
  assume m: "distinct (map fst m)" and k: "k \<in> dom (map_of (filter P m))"
  then obtain v where v: "map_of (filter P m) k = Some v" by auto
  then have "(k, v) \<in> set m" by (auto dest: map_of_SomeD)
  with m v show "map_of (filter P m) k = map_of m k" by simp
qed

lemma submap_hex: "m' \<subseteq>\<^sub>m m \<Longrightarrow> (\<lambda>i. m' (toHex i)) \<subseteq>\<^sub>m (\<lambda>i. m (toHex i))"
  by (auto simp: map_le_def dom_def)

lemma mem_finish_move:
  assumes "memInv s"
  shows "memInv (fst (memFinishRevocation i s)) \<and> specMove e (memAbs s) (memAbs (fst (memFinishRevocation i s)))"
proof -
  let ?keys = "filter (\<lambda>(k, r). \<not> memBound (toHex i) r) (js_delete (toHex i) (ms_keys s))"
  let ?K = "\<lambda>i. js_get (ms_keys s) (toHex i)" and ?K' = "\<lambda>i. js_get ?keys (toHex i)"
  let ?T = "{i. toHex i \<in> set (ms_revoked s)}"
  have inv: "js_inv (ms_keys s)" "js_inv (js_delete (toHex i) (ms_keys s))" "js_inv ?keys"
    using assms by (auto simp: memInv_def)
  have "js_get ?keys \<subseteq>\<^sub>m js_get (js_delete (toHex i) (ms_keys s))"
    using inv(2) by (intro map_of_filter_submap) (simp add: js_inv_def)
  moreover have "js_get (js_delete (toHex i) (ms_keys s)) \<subseteq>\<^sub>m js_get (ms_keys s)"
    by (auto simp: map_le_def delete_conv')
  ultimately have "?K' \<subseteq>\<^sub>m ?K" by (intro submap_hex) (rule map_le_trans)
  then have "specMove e (?K, ?T) (?K', ?T)" by (rule specMove.shrink)
  moreover have "specMove e (?K', ?T) (?K', ?T - {i})"
  proof (rule specMove.lift)
    fix j r
    assume "?K' j = Some r"
    then have mem: "(toHex j, r) \<in> set ?keys" by (rule map_of_SomeD)
    then have "toHex j \<noteq> toHex i" by (auto simp: delete_eq_filter)
    moreover from mem have "\<not> memBound (toHex i) r" by auto
    ultimately show "\<not> belongs i j r" by (auto simp: belongs_def memBound_def)
  qed
  moreover have "?T - {i} = {j. toHex j \<in> set (removeAll (toHex i) (ms_revoked s))}"
    by (auto simp: toHex_inj)
  ultimately show ?thesis
    using inv specMove.trans [of e "(?K, ?T)" "(?K', ?T)" "(?K', ?T - {i})"]
    by (simp add: memFinishRevocation_def Let_def memAbs_def memInv_def)
qed

lemma mem_begin_move:
  assumes "memInv s"
  shows "memInv (memBeginRevocation i s) \<and> specMove e (memAbs s) (memAbs (memBeginRevocation i s))"
proof -
  have "{j. toHex j \<in> set (setAdd (toHex i) (ms_revoked s))} = {j. toHex j \<in> set (ms_revoked s)} \<union> {i}"
    by (auto simp: toHex_inj)
  then have "memAbs (memBeginRevocation i s) = (fst (memAbs s), snd (memAbs s) \<union> {i})"
    by (simp add: memBeginRevocation_def memAbs_def)
  then show ?thesis
    using assms specMove.revoke [of e "fst (memAbs s)" "snd (memAbs s)" "{i}"]
    by (simp add: memInv_def memBeginRevocation_def)
qed

lemma mem_recover_move:
  "memInv s \<Longrightarrow> memInv (fold (\<lambda>x s. fst (memFinishRevocation (fromHex x) s)) xs s) \<and>
     specMove e (memAbs s) (memAbs (fold (\<lambda>x s. fst (memFinishRevocation (fromHex x) s)) xs s))"
proof (induction xs arbitrary: s)
  case (Cons x xs)
  then show ?case using mem_finish_move [of s "fromHex x" e] by (auto intro: specMove.trans)
qed (simp add: specMove.stay)

lemma mem_get_move:
  assumes "memInv s"
  shows "memInv (snd (memGet now i s)) \<and> specMove e (memAbs s) (memAbs (snd (memGet now i s)))"
proof -
  have "specMove e (memAbs s) (memAbs (s\<lparr>ms_keys := js_delete (toHex i) (ms_keys s)\<rparr>))"
    unfolding memAbs_def by (auto intro!: specMove.shrink submap_hex simp: map_le_def delete_conv')
  then show ?thesis
    using assms by (auto simp: memGet_def Let_def memInv_def specMove.stay split: option.split)
qed

lemma mem_save_move:
  assumes "memInv s"
  shows "memInv (fst (memSave i r s)) \<and> specMove (Some (i, r)) (memAbs s) (memAbs (fst (memSave i r s)))"
proof -
  let ?K = "\<lambda>i. js_get (ms_keys s) (toHex i)" and ?T = "{i. toHex i \<in> set (ms_revoked s)}"
  have owner: "toHex (ownerOf ?K i r) =
      (case sk_permanentKeyId r of
         Some p \<Rightarrow> toHex p
       | None \<Rightarrow> (case js_get (ms_keys s) (toHex i) of None \<Rightarrow> toHex i
           | Some e \<Rightarrow> (case sk_permanentKeyId e of None \<Rightarrow> toHex i | Some p \<Rightarrow> toHex p)))"
    by (simp add: ownerOf_def split: option.split)
  have upd: "(\<lambda>j. js_get (js_set (toHex i) r (ms_keys s)) (toHex j)) = ?K(i \<mapsto> r)"
    by (auto simp: update_conv' toHex_inj)
  show ?thesis
  proof (cases "toHex (ownerOf ?K i r) \<in> set (ms_revoked s)")
    case True
    with assms show ?thesis by (simp add: memSave_def Let_def owner [symmetric] specMove.stay)
  next
    case False
    then have "specMove (Some (i, r)) (?K, ?T) (?K(i \<mapsto> r), ?T)" by (intro specMove.save) simp
    with assms False show ?thesis
      by (simp add: memSave_def Let_def owner [symmetric] memAbs_def upd memInv_def)
  qed
qed

interpretation mst_store: revocable_store memAbs memInv memStep "\<lambda>now i s. fst (memGet now i s)"
proof unfold_locales
  fix s s' :: memStore and e
  assume inv: "memInv s" and step: "memStep e s s'"
  have "memInv s' \<and> specMove e (memAbs s) (memAbs s')"
    using step inv
  proof (induction rule: memStep.induct)
    case (6 s i)
    then show ?case
      using mem_begin_move [of s i None] mem_finish_move [of "memBeginRevocation i s" i None]
      by (auto simp: memDelete_def intro: specMove.trans)
  qed (simp_all add: mem_get_move mem_save_move mem_begin_move mem_finish_move mem_recover_move
      memRecoverPendingRevocations_def)
  then show "memInv s'" and "specMove e (memAbs s) (memAbs s')" by simp_all
next
  fix s now i
  show "fst (memGet now i s) = visible now (memAbs s) i"
    by (auto simp: memGet_def Let_def visible_def memAbs_def belongs_def split: option.splits)
qed

end
