(* ===== verification/File_Key_Store_Safety.thy ===== *)
theory File_Key_Store_Safety
  imports Auth_Key_Store_Safety
begin

text \<open>
  The file store implements the contract \<open>revocable_store\<close>, with file-system failures at every
  call, torn journal lines and restarts. The invariant ties the memory to the files: opening
  the files again gives the same keys and at least the same tombstones.
\<close>

section \<open>The journal\<close>

definition torn :: "string \<Rightarrow> string" where
  "torn j = rev (takeWhile (\<lambda>c. c \<noteq> CHR 0x0A) (rev j))"

lemma split_torn: "j = completePart j @ torn j"
  by (metis completePart_def torn_def rev_append rev_rev_ident takeWhile_dropWhile_id)

lemma torn_no_newline: "CHR 0x0A \<notin> set (torn j)"
  by (auto simp: torn_def dest: set_takeWhileD)

lemma completePart_cases: "completePart j = [] \<or> (\<exists>a. completePart j = a @ [CHR 0x0A])"
proof (cases "dropWhile (\<lambda>c. c \<noteq> CHR 0x0A) (rev j)")
  case (Cons c cs)
  then have "c = CHR 0x0A" using hd_dropWhile [of "\<lambda>c. c \<noteq> CHR 0x0A" "rev j"] by auto
  with Cons show ?thesis by (auto simp: completePart_def)
qed (simp add: completePart_def)

lemma completePart_newline: "completePart (j @ [CHR 0x0A]) = j @ [CHR 0x0A]"
  by (simp add: completePart_def)

lemma completePart_idem: "completePart (completePart j) = completePart j"
  using completePart_cases [of j] by (auto simp: completePart_newline) (simp add: completePart_def)

lemma completePart_append: "\<exists>y. completePart (j @ x) = completePart j @ y"
proof (cases "CHR 0x0A \<in> set x")
  case True
  then have "completePart (j @ x) = j @ completePart x"
    by (simp add: completePart_def dropWhile_append1)
  then show ?thesis using split_torn [of j] by (metis append.assoc)
next
  case False
  then have "dropWhile (\<lambda>c. c \<noteq> CHR 0x0A) (rev x @ rev j) = dropWhile (\<lambda>c. c \<noteq> CHR 0x0A) (rev j)"
    by (intro dropWhile_append2) auto
  then have "completePart (j @ x) = completePart j" by (simp add: completePart_def)
  then show ?thesis by auto
qed

lemma jsSplit_nonempty [simp]: "jsSplit d s \<noteq> []"
  by (cases s) auto

lemma jsSplit_at: "jsSplit d (a @ d # b) = jsSplit d a @ jsSplit d b"
  by (induction a) auto

lemma jsSplit_none: "d \<notin> set a \<Longrightarrow> jsSplit d a = [a]"
  by (induction a) auto

definition journalLines :: "string \<Rightarrow> string set" where
  "journalLines j = set (jsSplit (CHR 0x0A) (completePart j)) - {[]}"

definition journalOk :: "string \<Rightarrow> bool" where
  "journalOk j \<longleftrightarrow> (\<forall>l \<in> journalLines j. matchJournalLine l \<noteq> None)"

definition journalIds :: "string \<Rightarrow> string set" where
  "journalIds j = {i. \<exists>l \<in> journalLines j. \<exists>a. matchJournalLine l = Some (a, i)}"

lemma journalLines_append: "journalLines j \<subseteq> journalLines (j @ x)"
proof -
  obtain y where y: "completePart (j @ x) = completePart j @ y" using completePart_append by blast
  from completePart_cases [of j] show ?thesis
  proof
    assume "\<exists>a. completePart j = a @ [CHR 0x0A]"
    then obtain a where "completePart j = a @ [CHR 0x0A]" by blast
    with y show ?thesis
      using jsSplit_at [of "CHR 0x0A" a "[]"] jsSplit_at [of "CHR 0x0A" a y]
      by (auto simp: journalLines_def)
  qed (simp add: journalLines_def)
qed

lemma journal_append:
  "journalOk (j @ x) \<Longrightarrow> journalOk j" "journalIds j \<subseteq> journalIds (j @ x)"
  using journalLines_append [of j x] by (auto simp: journalOk_def journalIds_def)

lemma journal_complete [simp]:
  "journalOk (completePart j) = journalOk j" "journalIds (completePart j) = journalIds j"
  by (simp_all add: journalOk_def journalIds_def journalLines_def completePart_idem)

lemma match_begin_line:
  assumes "matchJournalLine (t @ ''v1 begin '' @ i) = Some (a, i')"
  shows "t = [] \<and> i' = i"
proof (cases t)
  case Nil
  with assms show ?thesis by (auto simp: matchJournalLine_def split: if_splits)
next
  case (Cons c t')
  let ?line = "t @ ''v1 begin '' @ i"
  have e: "?line = (c # t' @ ''v1 begin'') @ '' '' @ i" using Cons by simp
  have "drop n ?line = drop n (c # t' @ ''v1 begin'') @ '' '' @ i" if "n \<le> 9" for n
    unfolding e drop_append using that by simp
  from this [of 9] this [of 8] have "CHR '' '' \<in> set (drop 9 ?line)" and "CHR '' '' \<in> set (drop 8 ?line)"
    by simp_all
  moreover have "\<not> isHexDigit (CHR '' '')" by code_simp
  ultimately have "\<not> list_all isHexDigit (drop 9 ?line)" "\<not> list_all isHexDigit (drop 8 ?line)"
    by (auto simp: list_all_iff)
  with assms show ?thesis by (auto simp: matchJournalLine_def split: if_splits)
qed

lemma last_line:
  assumes "CHR 0x0A \<notin> set l" and "a = [] \<or> (\<exists>b. a = b @ [CHR 0x0A])"
  shows "l \<in> set (jsSplit (CHR 0x0A) (a @ l @ [CHR 0x0A]))"
proof -
  have "jsSplit (CHR 0x0A) (l @ [CHR 0x0A]) = [l, []]"
    using jsSplit_at [of "CHR 0x0A" l "[]"] jsSplit_none [OF assms(1)] by simp
  with assms(2) show ?thesis
    using jsSplit_at [of "CHR 0x0A" _ "l @ [CHR 0x0A]"] by auto
qed

lemma acknowledged_begin:
  assumes "journalOk (j @ journalLine JBegin i)" and "CHR 0x0A \<notin> set i"
  shows "i \<in> journalIds (j @ journalLine JBegin i)"
proof -
  let ?line = "torn j @ ''v1 begin '' @ i"
  have "completePart (j @ journalLine JBegin i) = completePart j @ ?line @ [CHR 0x0A]"
    using completePart_newline [of "j @ ''v1 begin '' @ i"] split_torn [of j]
    by (simp add: journalLine_def)
  moreover have "CHR 0x0A \<notin> set ?line" using torn_no_newline assms(2) by simp
  moreover have "?line \<noteq> []" by simp
  ultimately have line: "?line \<in> journalLines (j @ journalLine JBegin i)"
    unfolding journalLines_def using last_line [OF _ completePart_cases, of ?line j] by simp
  with assms(1) obtain a i' where m: "matchJournalLine ?line = Some (a, i')"
    unfolding journalOk_def by (metis option.exhaust prod.exhaust)
  then have "i' = i" using match_begin_line [of "torn j" i a i'] by simp
  with line m show ?thesis unfolding journalIds_def by blast
qed

lemma readJournal_effect:
  "readJournalLines ls s = Some s' \<Longrightarrow>
   fk_keys s' = fk_keys s \<and> fk_win32 s' = fk_win32 s \<and> fk_path s' = fk_path s \<and> fk_journal s' = fk_journal s \<and>
   set (fk_revoked s') = set (fk_revoked s) \<union> {i. \<exists>l \<in> set ls - {[]}. \<exists>a. matchJournalLine l = Some (a, i)} \<and>
   (\<forall>l \<in> set ls - {[]}. matchJournalLine l \<noteq> None)"
proof (induction ls arbitrary: s)
  case (Cons l ls)
  show ?case
  proof (cases "l = []")
    case False
    with Cons.prems obtain a i where m: "matchJournalLine l = Some (a, i)" by (auto split: option.splits)
    from Cons.IH [of "s\<lparr>fk_revoked := setAdd i (fk_revoked s),
                    fk_pendingRevocations :=
                      (case a of JBegin \<Rightarrow> setAdd i (fk_pendingRevocations s)
                       | JDone \<Rightarrow> removeAll i (fk_pendingRevocations s))\<rparr>"] Cons.prems m False
    show ?thesis by auto
  qed (use Cons in auto)
qed simp

section \<open>The files\<close>

definition diskKeys :: "snapshotFile \<Rightarrow> (string, serializedAuthKey) jsmap" where
  "diskKeys p = (case p of OldFormat es \<Rightarrow> loadKeys es | Envelope es _ \<Rightarrow> loadKeys es | _ \<Rightarrow> [])"

definition diskRevoked :: "snapshotFile \<Rightarrow> string set" where
  "diskRevoked p = (case p of Envelope _ rv \<Rightarrow> set rv | _ \<Rightarrow> {})"

lemma set_fold_setAdd: "set (fold setAdd xs ys) = set ys \<union> set xs"
  by (induction xs arbitrary: ys) auto

lemma open_effect:
  assumes "openFileStore w p t j = Some s"
  shows "fk_keys s = diskKeys p \<and> fk_win32 s = w \<and> fk_path s = p \<and>
    set (fk_revoked s) = diskRevoked p \<union> (if w then journalIds j else {}) \<and>
    (w \<longrightarrow> journalOk j \<and> fk_journal s = completePart j)"
proof -
  define s1 where "s1 = (let s = \<lparr>fk_keys = [], fk_revoked = [], fk_pendingRevocations = [], fk_win32 = w,
               fk_path = p, fk_tmp = t, fk_journal = j\<rparr>
      in case p of
                  Absent \<Rightarrow> s
                | Corrupt \<Rightarrow> s
                | OldFormat entries \<Rightarrow> s\<lparr>fk_keys := loadKeys entries\<rparr>
                | Envelope entries revoked \<Rightarrow> s\<lparr>fk_keys := loadKeys entries, fk_revoked := fold setAdd revoked []\<rparr>)"
  have s1: "fk_keys s1 = diskKeys p" "fk_win32 s1 = w" "fk_path s1 = p" "set (fk_revoked s1) = diskRevoked p"
    "fk_journal s1 = j"
    by (simp_all add: s1_def Let_def diskKeys_def diskRevoked_def set_fold_setAdd split: snapshotFile.split)
  have o: "openFileStore w p t j = (if w then loadWindowsJournal s1 else Some s1)"
    unfolding openFileStore_def s1_def Let_def ..
  show ?thesis
  proof (cases w)
    case True
    with assms o have "readJournalLines (jsSplit (CHR 0x0A) (completePart j)) (s1\<lparr>fk_journal := completePart j\<rparr>) = Some s"
      by (simp add: loadWindowsJournal_def s1(5) Let_def)
    from readJournal_effect [OF this] True s1 show ?thesis
      by (auto simp: journalOk_def journalIds_def journalLines_def)
  qed (use assms o s1 in auto)
qed

lemma loadKeys_roundtrip:
  assumes "js_inv m"
  shows "loadKeys (map (\<lambda>(k, v). (k, Inr v)) m) = m"
proof -
  have "js_inv (acc @ m) \<Longrightarrow>
    fold (\<lambda>(i, value) keys. js_set i
       (case value of Inl k \<Rightarrow> \<lparr>za_key = k, za_permanentKeyId = None, za_expiresAt = None, za_apiLayer = None\<rparr>
        | Inr v \<Rightarrow> v) keys) (map (\<lambda>(k, v). (k, Inr v)) m) acc = acc @ m" for acc
  proof (induction m arbitrary: acc)
    case (Cons e m)
    obtain k v where e: "e = (k, v)" by (cases e)
    with Cons.prems have "k \<notin> set (js_keys acc)" by (auto simp: js_inv_def)
    then have "js_set k v acc = acc @ [(k, v)]" by (rule js_set_new)
    with Cons.IH [of "acc @ [(k, v)]"] Cons.prems e show ?case by simp
  qed simp
  from this [of "[]"] assms show ?thesis by (simp add: loadKeys_def)
qed

section \<open>The invariant\<close>

definition fileAbs :: "fileStore \<Rightarrow> absStore" where
  "fileAbs s = (\<lambda>i. map_option deserializeKey (js_get (fk_keys s) (toHex i)), {i. toHex i \<in> set (fk_revoked s)})"

definition keysOk :: "(string, serializedAuthKey) jsmap \<Rightarrow> bool" where
  "keysOk m \<longleftrightarrow> js_inv m \<and>
     (\<forall>e \<in> set m. \<forall>p. za_permanentKeyId (snd e) = Some p \<longrightarrow> p \<noteq> [] \<and> toHex (fromHex p) = p)"

definition fileInv :: "fileStore \<Rightarrow> bool" where
  "fileInv s \<longleftrightarrow> keysOk (fk_keys s) \<and> diskKeys (fk_path s) = fk_keys s \<and>
     (if fk_win32 s
      then journalOk (fk_journal s) \<longrightarrow> set (fk_revoked s) \<subseteq> diskRevoked (fk_path s) \<union> journalIds (fk_journal s)
      else set (fk_revoked s) = diskRevoked (fk_path s))"

text \<open>What a call of \<open>_commit\<close> can lead to: nothing but the temporary file changed, or the
  snapshot was published.\<close>

definition published where
  "published keys revoked s =
     s\<lparr>fk_tmp := Absent, fk_path := Envelope (map (\<lambda>(k, v). (k, Inr v)) keys) revoked,
       fk_keys := keys, fk_revoked := revoked\<rparr>"

lemma commit_cases:
  obtains (failed) t e where "fileCommit fault keys revoked s = (s\<lparr>fk_tmp := t\<rparr>, Inl e)"
    | (ready) r where "fileCommit fault keys revoked s = (published keys revoked s, r)"
proof -
  have "(\<exists>t e. fileCommit fault keys revoked s = (s\<lparr>fk_tmp := t\<rparr>, Inl e)) \<or>
      (\<exists>r. fileCommit fault keys revoked s = (published keys revoked s, r))"
  proof (cases "fault = Some FMkdir")
    case True
    then have "fileCommit fault keys revoked s = (s\<lparr>fk_tmp := fk_tmp s\<rparr>, Inl EFileSystem)"
      by (simp add: fileCommit_def)
    then show ?thesis by blast
  qed (auto simp: fileCommit_def Let_def published_def)
  with failed ready show ?thesis by blast
qed

lemma tmp_frame [simp]: "fileInv (s\<lparr>fk_tmp := t\<rparr>) = fileInv s" "fileAbs (s\<lparr>fk_tmp := t\<rparr>) = fileAbs s"
  by (simp_all add: fileInv_def fileAbs_def)

lemma published_inv: "keysOk keys \<Longrightarrow> fileInv (published keys revoked s)"
  by (simp add: fileInv_def published_def diskKeys_def diskRevoked_def loadKeys_roundtrip keysOk_def)

lemma published_abs:
  "fileAbs (published keys revoked s) = (\<lambda>i. map_option deserializeKey (js_get keys (toHex i)), {i. toHex i \<in> set revoked})"
  by (simp add: fileAbs_def published_def)

section \<open>The operations\<close>

lemma serialize_roundtrip: "sk_permanentKeyId r \<noteq> Some [] \<Longrightarrow> deserializeKey (serializeKey r) = r"
proof -
  assume r: "sk_permanentKeyId r \<noteq> Some []"
  have "toHex p = [] \<longleftrightarrow> p = []" for p by (cases p) (auto simp: byteHex_def)
  with r show ?thesis
    by (cases "sk_permanentKeyId r") (auto simp: deserializeKey_def serializeKey_def boundTo_def fromHex_toHex)
qed

lemma update_mem: "e \<in> set (js_set k v m) \<Longrightarrow> e = (k, v) \<or> e \<in> set m"
  by (induction m) (auto split: if_splits)

lemma keysOk_set: "keysOk m \<Longrightarrow> sk_permanentKeyId r \<noteq> Some [] \<Longrightarrow> keysOk (js_set i (serializeKey r) m)"
proof -
  assume m: "keysOk m" and r: "sk_permanentKeyId r \<noteq> Some []"
  have hex: "toHex p = [] \<longleftrightarrow> p = []" for p by (cases p) (auto simp: byteHex_def)
  have mem: "e \<in> set m \<or> snd e = serializeKey r" if "e \<in> set (js_set i (serializeKey r) m)" for e
    using update_mem [OF that] by auto
  have new: "p \<noteq> [] \<and> toHex (fromHex p) = p" if p: "za_permanentKeyId (serializeKey r) = Some p" for p
  proof -
    obtain q where "sk_permanentKeyId r = Some q" "p = toHex q" using p by (auto simp: serializeKey_def)
    with r hex [of q] show ?thesis by (simp add: fromHex_toHex)
  qed
  show ?thesis
    unfolding keysOk_def
  proof (intro conjI ballI allI impI)
    show "js_inv (js_set i (serializeKey r) m)" using m by (simp add: keysOk_def)
    fix e p
    assume e: "e \<in> set (js_set i (serializeKey r) m)" "za_permanentKeyId (snd e) = Some p"
    from mem [OF e(1)] have "p \<noteq> [] \<and> toHex (fromHex p) = p"
      using m new e(2) by (auto simp: keysOk_def)
    then show "p \<noteq> []" and "toHex (fromHex p) = p" by simp_all
  qed
qed

lemma keysOk_shrink: "keysOk m \<Longrightarrow> keysOk (filter P (js_delete i m))"
  by (auto simp: keysOk_def delete_eq_filter)

lemma stored_binding:
  assumes "keysOk m" and "js_get m k = Some v"
  shows "boundTo v = za_permanentKeyId v" and "za_permanentKeyId v = Some p \<Longrightarrow> toHex (fromHex p) = p"
  using assms map_of_SomeD [OF assms(2)] by (force simp: keysOk_def boundTo_def split: option.split)+

lemma file_read_visible: "fileInv s \<Longrightarrow> fileGet now i s = visible now (fileAbs s) i"
proof -
  assume "fileInv s"
  then have ok: "keysOk (fk_keys s)" by (simp add: fileInv_def)
  show ?thesis
  proof (cases "js_get (fk_keys s) (toHex i)")
    case (Some v)
    note b = stored_binding [OF ok Some]
    have "(\<exists>t \<in> snd (fileAbs s). belongs t i (deserializeKey v)) \<longleftrightarrow>
        toHex i \<in> set (fk_revoked s) \<or> (case boundTo v of None \<Rightarrow> False | Some p \<Rightarrow> p \<in> set (fk_revoked s))"
    proof (cases "za_permanentKeyId v")
      case None
      with b show ?thesis by (auto simp: fileAbs_def belongs_def deserializeKey_def)
    next
      case (Some p)
      with b have "boundTo v = Some p" "toHex (fromHex p) = p" by simp_all
      then show ?thesis
        unfolding fileAbs_def belongs_def deserializeKey_def by simp metis
    qed
    with Some show ?thesis
      by (simp add: fileGet_def visible_def Let_def) (simp add: fileAbs_def deserializeKey_def)
  qed (simp add: fileGet_def visible_def fileAbs_def)
qed

lemma file_save_move:
  assumes inv: "fileInv s" and r: "sk_permanentKeyId r \<noteq> Some []"
  shows "fileInv (fst (fileSave f i r s)) \<and> specMove (Some (i, r)) (fileAbs s) (fileAbs (fst (fileSave f i r s)))"
proof -
  let ?K = "fst (fileAbs s)"
  have ok: "keysOk (fk_keys s)" using inv by (simp add: fileInv_def)
  have owner: "toHex (ownerOf ?K i r) =
      (case sk_permanentKeyId r of
         Some p \<Rightarrow> toHex p
       | None \<Rightarrow> (case js_get (fk_keys s) (toHex i) of None \<Rightarrow> toHex i
           | Some e \<Rightarrow> (case za_permanentKeyId e of None \<Rightarrow> toHex i | Some p \<Rightarrow> p)))"
    using stored_binding [OF ok]
    by (auto simp: ownerOf_def fileAbs_def deserializeKey_def split: option.split)
  show ?thesis
  proof (cases "toHex (ownerOf ?K i r) \<in> set (fk_revoked s)")
    case True
    then have "fst (fileSave f i r s) = s" unfolding owner by (simp add: fileSave_def Let_def)
    with inv show ?thesis by (simp add: specMove.stay)
  next
    case False
    let ?keys = "js_set (toHex i) (serializeKey r) (fk_keys s)"
    have save: "fileSave f i r s = fileCommit f ?keys (fk_revoked s) s"
      using False unfolding owner by (simp add: fileSave_def Let_def)
    have "(\<lambda>j. map_option deserializeKey (js_get ?keys (toHex j))) = ?K(i \<mapsto> r)"
      by (auto simp: fileAbs_def update_conv' toHex_inj serialize_roundtrip [OF r])
    then have "specMove (Some (i, r)) (fileAbs s) (fileAbs (published ?keys (fk_revoked s) s))"
      using specMove.save [of ?K i r "snd (fileAbs s)"] False
      by (simp add: published_abs) (simp add: fileAbs_def)
    then show ?thesis
      using inv keysOk_set [OF ok r]
      by (cases rule: commit_cases [of f ?keys "fk_revoked s" s])
        (simp_all add: save specMove.stay published_inv)
  qed
qed

lemma toHex_no_newline: "CHR 0x0A \<notin> set (toHex i)"
proof
  assume "CHR 0x0A \<in> set (toHex i)"
  then have "isHexDigit (CHR 0x0A)" by (rule toHex_digits)
  moreover have "\<not> isHexDigit (CHR 0x0A)" by code_simp
  ultimately show False by simp
qed

text \<open>Whatever the append did, it left the old journal as a prefix; a completed one is readable.\<close>

lemma append_result:
  obtains x r where "appendWindowsJournal f a i s = (s\<lparr>fk_journal := fk_journal s @ x\<rparr>, r)"
    "r = Inr () \<Longrightarrow> x = journalLine a i"
proof -
  consider "f = None" | "f = Some JOpen" | n where "f = Some (JWrite n)" | "f = Some JSync"
    by (metis journalFault.exhaust option.exhaust)
  then show ?thesis
  proof cases
    case 1
    then show ?thesis by (intro that [of "journalLine a i" "Inr ()"]) (simp_all add: appendWindowsJournal_def)
  next
    case 2
    then show ?thesis by (intro that [of "[]" "Inl EFileSystem"]) (simp_all add: appendWindowsJournal_def)
  next
    case 3
    then show ?thesis by (intro that [of _ "Inl EJournal"]) (simp_all add: appendWindowsJournal_def)
  next
    case 4
    then show ?thesis by (intro that [of "journalLine a i" "Inl EFileSystem"]) (simp_all add: appendWindowsJournal_def)
  qed
qed

lemma journal_frame:
  assumes "fileInv s"
  shows "fileInv (s\<lparr>fk_journal := fk_journal s @ x\<rparr>)"
proof -
  have "set (fk_revoked s) \<subseteq> diskRevoked (fk_path s) \<union> journalIds (fk_journal s @ x)"
    if "fk_win32 s" "journalOk (fk_journal s @ x)"
  proof -
    have "set (fk_revoked s) \<subseteq> diskRevoked (fk_path s) \<union> journalIds (fk_journal s)"
      using assms that journal_append(1) [OF that(2)] by (simp add: fileInv_def)
    with journal_append(2) [of "fk_journal s" x] show ?thesis by blast
  qed
  with assms show ?thesis by (simp add: fileInv_def)
qed

lemma journal_abs [simp]:
  "fileAbs (s\<lparr>fk_journal := j\<rparr>) = fileAbs s" "fileAbs (s\<lparr>fk_pendingRevocations := p\<rparr>) = fileAbs s"
  "fileInv (s\<lparr>fk_pendingRevocations := p\<rparr>) = fileInv s"
  by (simp_all add: fileAbs_def fileInv_def)

lemma revoked_union: "{j. toHex j \<in> set (setAdd (toHex i) rv)} = {j. toHex j \<in> set rv} \<union> {i}"
  by (auto simp: toHex_inj)

lemma file_begin_move:
  assumes inv: "fileInv s"
  shows "fileInv (fst (fileBeginRevocation jf f i s)) \<and> specMove e (fileAbs s) (fileAbs (fst (fileBeginRevocation jf f i s)))"
proof -
  have ok: "keysOk (fk_keys s)" using inv by (simp add: fileInv_def)
  have move: "specMove e (fileAbs s) (fst (fileAbs s), snd (fileAbs s) \<union> {i})"
    using specMove.revoke [of e "fst (fileAbs s)" "snd (fileAbs s)" "{i}"] by simp
  show ?thesis
  proof (cases "fk_win32 s")
    case False
    have "fileAbs (published (fk_keys s) (setAdd (toHex i) (fk_revoked s)) s) = (fst (fileAbs s), snd (fileAbs s) \<union> {i})"
      by (simp only: published_abs revoked_union) (simp add: fileAbs_def)
    with False move inv ok show ?thesis
      by (cases rule: commit_cases [of f "fk_keys s" "setAdd (toHex i) (fk_revoked s)" s])
        (simp_all add: fileBeginRevocation_def specMove.stay published_inv)
  next
    case True
    obtain x r where app: "appendWindowsJournal jf JBegin (toHex i) s = (s\<lparr>fk_journal := fk_journal s @ x\<rparr>, r)"
      "r = Inr () \<Longrightarrow> x = journalLine JBegin (toHex i)"
      using append_result [of jf JBegin "toHex i" s] by blast
    show ?thesis
    proof (cases r)
      case (Inl err)
      with True app inv show ?thesis
        by (simp add: fileBeginRevocation_def journal_frame specMove.stay)
    next
      case (Inr u)
      let ?j = "fk_journal s @ journalLine JBegin (toHex i)"
      let ?s = "s\<lparr>fk_journal := ?j, fk_revoked := setAdd (toHex i) (fk_revoked s),
          fk_pendingRevocations := setAdd (toHex i) (fk_pendingRevocations s)\<rparr>"
      have x: "x = journalLine JBegin (toHex i)" using app(2) Inr by simp
      have "fileInv ?s"
        using inv True journal_append [of "fk_journal s" "journalLine JBegin (toHex i)"]
          acknowledged_begin [of "fk_journal s" "toHex i"] toHex_no_newline
        by (auto simp: fileInv_def)
      moreover have "fileAbs ?s = (fst (fileAbs s), snd (fileAbs s) \<union> {i})"
        by (simp add: fileAbs_def revoked_union [simplified])
      moreover have "fileInv (published (fk_keys ?s) (fk_revoked ?s) ?s)" using ok by (intro published_inv) simp
      moreover have "fileAbs (published (fk_keys ?s) (fk_revoked ?s) ?s) = fileAbs ?s"
        by (simp only: published_abs) (simp add: fileAbs_def)
      ultimately show ?thesis
        using True app(1) Inr x move
        by (cases rule: commit_cases [of f "fk_keys ?s" "fk_revoked ?s" ?s])
          (simp_all add: fileBeginRevocation_def Let_def split: sum.split)
    qed
  qed
qed

lemma finish_keys:
  assumes ok: "keysOk m" and keys: "m' = filter (\<lambda>(k, v). za_permanentKeyId v \<noteq> Some (toHex i)) (js_delete (toHex i) m)"
  shows "keysOk m'" and "js_get m' \<subseteq>\<^sub>m js_get m"
    and "js_get m' (toHex j) = Some v \<Longrightarrow> \<not> belongs i j (deserializeKey v)"
proof -
  show ok': "keysOk m'" using ok by (simp add: keys keysOk_shrink)
  have "js_inv (js_delete (toHex i) m)" using ok by (auto simp: keysOk_def)
  then have "js_get m' \<subseteq>\<^sub>m js_get (js_delete (toHex i) m)"
    unfolding keys by (intro map_of_filter_submap) (simp add: js_inv_def)
  also have "js_get (js_delete (toHex i) m) \<subseteq>\<^sub>m js_get m"
    by (auto simp: map_le_def delete_conv')
  finally (map_le_trans) show "js_get m' \<subseteq>\<^sub>m js_get m" .
  assume v: "js_get m' (toHex j) = Some v"
  then have mem: "(toHex j, v) \<in> set m'" by (rule map_of_SomeD)
  then have "toHex j \<noteq> toHex i" and "za_permanentKeyId v \<noteq> Some (toHex i)" by (auto simp: keys delete_eq_filter)
  with stored_binding [OF ok' v] show "\<not> belongs i j (deserializeKey v)"
    by (auto simp: belongs_def deserializeKey_def)
qed

lemma file_finish_move:
  assumes inv: "fileInv s"
  shows "fileInv (fst (fileFinishRevocation f1 jf f2 i s)) \<and>
    specMove e (fileAbs s) (fileAbs (fst (fileFinishRevocation f1 jf f2 i s)))"
proof -
  define m' where "m' = filter (\<lambda>(k, v). za_permanentKeyId v \<noteq> Some (toHex i)) (js_delete (toHex i) (fk_keys s))"
  have ok: "keysOk (fk_keys s)" using inv by (simp add: fileInv_def)
  note fin = finish_keys [OF ok m'_def]
  let ?s1 = "published m' (fk_revoked s) s"
  let ?K' = "\<lambda>j. map_option deserializeKey (js_get m' (toHex j))"
  have inv1: "fileInv ?s1" using fin(1) by (rule published_inv)
  have "?K' \<subseteq>\<^sub>m fst (fileAbs s)"
    using fin(2) by (auto simp: fileAbs_def map_le_def dom_def)
  then have move1: "specMove e (fileAbs s) (fileAbs ?s1)"
    using specMove.shrink [of ?K' "fst (fileAbs s)" e "snd (fileAbs s)"]
    by (simp only: published_abs) (simp add: fileAbs_def)
  let ?s2 = "published m' (removeAll (toHex i) (fk_revoked s)) ?s1"
  have "{j. toHex j \<in> set (removeAll (toHex i) (fk_revoked s))} = {j. toHex j \<in> set (fk_revoked s)} - {i}"
    by (auto simp: toHex_inj)
  then have "specMove e (fileAbs ?s1) (fileAbs ?s2)"
    unfolding published_abs using specMove.lift [of ?K' i e "{j. toHex j \<in> set (fk_revoked s)}"] fin(3) by auto
  with move1 have move2: "specMove e (fileAbs s) (fileAbs ?s2)" by (rule specMove.trans)
  have inv2: "fileInv ?s2" using fin(1) by (rule published_inv)
  have f: "fk_win32 ?s1 = fk_win32 s" "fk_keys ?s1 = m'" "fk_revoked ?s1 = fk_revoked s" by (simp_all add: published_def)
  have fold_m': "filter (\<lambda>(k, v). za_permanentKeyId v \<noteq> Some (toHex i)) (js_delete (toHex i) (fk_keys s)) = m'"
    by (simp add: m'_def)
  show ?thesis
  proof (cases rule: commit_cases [of f1 m' "fk_revoked s" s])
    case failed
    with inv show ?thesis by (simp add: fileFinishRevocation_def Let_def fold_m' specMove.stay)
  next
    case (ready r)
    show ?thesis
    proof (cases r)
      case (Inl err)
      with ready inv1 move1 show ?thesis by (simp add: fileFinishRevocation_def Let_def fold_m')
    next
      case (Inr u)
      show ?thesis
      proof (cases "fk_win32 s")
        case True
        obtain x r' where "appendWindowsJournal jf JDone (toHex i) ?s1 = (?s1\<lparr>fk_journal := fk_journal ?s1 @ x\<rparr>, r')"
          using append_result [of jf JDone "toHex i" ?s1] by blast
        with True ready Inr inv1 move1 f show ?thesis
          by (simp add: fileFinishRevocation_def Let_def fold_m' journal_frame split: sum.split)
      next
        case False
        with ready Inr f inv1 inv2 move1 move2 show ?thesis
          by (cases rule: commit_cases [of f2 m' "removeAll (toHex i) (fk_revoked s)" ?s1])
            (simp_all add: fileFinishRevocation_def Let_def fold_m' split: sum.split)
      qed
    qed
  qed
qed

lemma finishAll_move:
  "fileInv s \<Longrightarrow> fileInv (fst (finishAll is faults s)) \<and> specMove e (fileAbs s) (fileAbs (fst (finishAll is faults s)))"
proof (induction "is" arbitrary: s)
  case (Cons i "is")
  obtain f1 j f2 where f: "faults i = (f1, j, f2)" by (cases "faults i")
  obtain s1 r where s1: "fileFinishRevocation f1 j f2 (fromHex i) s = (s1, r)"
    by (cases "fileFinishRevocation f1 j f2 (fromHex i) s")
  from file_finish_move [OF Cons.prems, of f1 j f2 "fromHex i" e] s1
  have "fileInv s1" "specMove e (fileAbs s) (fileAbs s1)" by simp_all
  with Cons.IH [of s1] f s1 show ?case by (auto split: sum.split intro: specMove.trans)
qed (simp add: specMove.stay)

definition reopen :: "fileStore \<Rightarrow> fileStore option" where
  "reopen s = openFileStore (fk_win32 s) (fk_path s) (fk_tmp s) (fk_journal s)"

lemma reopen_move:
  assumes inv: "fileInv s" and o: "reopen s = Some s'"
  shows "fileInv s'" and "specMove e (fileAbs s) (fileAbs s')"
    and "fk_keys s' = fk_keys s" and "set (fk_revoked s) \<subseteq> set (fk_revoked s')"
    and "\<not> fk_win32 s \<Longrightarrow> set (fk_revoked s') = set (fk_revoked s)"
proof -
  note E = open_effect [OF o [unfolded reopen_def]]
  show keys: "fk_keys s' = fk_keys s" using E inv by (simp add: fileInv_def)
  show sub: "set (fk_revoked s) \<subseteq> set (fk_revoked s')"
    using E inv by (auto simp: fileInv_def split: if_splits)
  show "\<not> fk_win32 s \<Longrightarrow> set (fk_revoked s') = set (fk_revoked s)"
    using E inv by (simp add: fileInv_def)
  show "fileInv s'" using E inv by (auto simp: fileInv_def split: if_splits)
  have "fileAbs s' = (fst (fileAbs s), snd (fileAbs s) \<union> {i. toHex i \<in> set (fk_revoked s')})"
    using sub by (auto simp: fileAbs_def keys)
  then show "specMove e (fileAbs s) (fileAbs s')"
    using specMove.revoke [of e "fst (fileAbs s)" "snd (fileAbs s)"] by simp
qed

section \<open>The file store implements the contract\<close>

inductive fileStep :: "(bytes \<times> storedAuthKey) option \<Rightarrow> fileStore \<Rightarrow> fileStore \<Rightarrow> bool" where
  save: "sk_permanentKeyId r \<noteq> Some [] \<Longrightarrow> fileStep (Some (i, r)) s (fst (fileSave f i r s))"
| revoke: "fileStep None s (fst (fileBeginRevocation jf f i s))"
| finish: "fileStep None s (fst (fileFinishRevocation f1 jf f2 i s))"
| recover: "fileStep None s (fst (fileRecoverPendingRevocations faults s))"
| delete: "fileStep None s (fst (fileDelete jf1 f0 f1 jf f2 i s))"
| restart: "reopen s = Some s' \<Longrightarrow> fileStep None s s'"

lemma fileStep_move: "fileStep e s s' \<Longrightarrow> fileInv s \<Longrightarrow> fileInv s' \<and> specMove e (fileAbs s) (fileAbs s')"
proof (induction rule: fileStep.induct)
  case (delete s jf1 f0 f1 jf f2 i)
  obtain s1 r where s1: "fileBeginRevocation jf1 f0 i s = (s1, r)" by (cases "fileBeginRevocation jf1 f0 i s")
  with file_begin_move [OF delete, of jf1 f0 i None] file_finish_move [of s1 f1 jf f2 i None]
  show ?case by (auto simp: fileDelete_def split: sum.split intro: specMove.trans)
next
  case (restart s s')
  then show ?case by (blast intro: reopen_move)
qed (simp_all add: file_save_move file_begin_move file_finish_move fileRecoverPendingRevocations_def finishAll_move)

interpretation fst_store: revocable_store fileAbs fileInv fileStep fileGet
  by unfold_locales (simp_all add: fileStep_move file_read_visible)

lemma open_new: "openFileStore w Absent t [] = Some s \<Longrightarrow> fileInv s"
  using open_effect [of w Absent t "[]" s]
  by (auto simp: fileInv_def keysOk_def diskKeys_def diskRevoked_def journalIds_def journalLines_def completePart_def)

lemma file_run_inv: "fst_store.run es s s' \<Longrightarrow> fileInv s \<Longrightarrow> fileInv s'"
  by (induction rule: fst_store.run.induct) (auto intro: fst_store.inv_step)

lemma run_save:
  "sk_permanentKeyId r \<noteq> Some [] \<Longrightarrow> fst_store.run [Some (i, r)] s (fst (fileSave f i r s))"
  by (rule fst_store.run.cons [OF fileStep.save fst_store.run.nil])

text \<open>The results after which \<open>beginRevocation\<close> has taken effect: success, and the two
  failures that say that the snapshot or the journal may have been published.\<close>

definition acknowledged :: "storeError + unit \<Rightarrow> bool" where
  "acknowledged r \<longleftrightarrow> r \<in> {Inr (), Inl EPublishedPostRename, Inl EPublishedWindowsJournal}"

lemma commit_acknowledged:
  "fileCommit f keys rv s = (s', r) \<Longrightarrow> acknowledged r \<Longrightarrow> fk_revoked s' = rv"
  by (auto simp: fileCommit_def Let_def acknowledged_def split: if_splits)

lemma commit_revoked: "set (fk_revoked (fst (fileCommit f keys (fk_revoked s) s))) = set (fk_revoked s)"
  by (simp add: fileCommit_def Let_def)

lemma begin_acknowledged:
  assumes "fileBeginRevocation jf f i s = (s', r)" and "acknowledged r"
  shows "toHex i \<in> set (fk_revoked s')"
proof (cases "fk_win32 s")
  case False
  with assms commit_acknowledged [of f "fk_keys s" "setAdd (toHex i) (fk_revoked s)" s s' r]
  show ?thesis by (simp add: fileBeginRevocation_def Let_def)
next
  case True
  obtain s1 r1 where a: "appendWindowsJournal jf JBegin (toHex i) s = (s1, r1)"
    by (cases "appendWindowsJournal jf JBegin (toHex i) s")
  have "r1 = Inr ()"
    using a assms True by (cases r1)
      (auto simp: fileBeginRevocation_def Let_def acknowledged_def appendWindowsJournal_def
        split: option.splits journalFault.splits)
  define s2 where "s2 = s1\<lparr>fk_revoked := setAdd (toHex i) (fk_revoked s1),
      fk_pendingRevocations := setAdd (toHex i) (fk_pendingRevocations s1)\<rparr>"
  obtain s3 r3 where c: "fileCommit f (fk_keys s2) (fk_revoked s2) s2 = (s3, r3)"
    by (cases "fileCommit f (fk_keys s2) (fk_revoked s2) s2")
  have f2: "fk_keys s2 = fk_keys s1" "fk_revoked s2 = setAdd (toHex i) (fk_revoked s1)" by (simp_all add: s2_def)
  have "s' = s3"
    using True a \<open>r1 = Inr ()\<close> c [unfolded f2] assms(1)
    by (cases r3) (simp_all add: fileBeginRevocation_def Let_def s2_def [symmetric])
  moreover have "toHex i \<in> set (fk_revoked s2)" by (simp add: s2_def)
  ultimately show ?thesis using commit_revoked [of f "fk_keys s2" s2] c by simp
qed

section \<open>Recovery without failures\<close>

lemma commit_success:
  "fileCommit None keys rv s = (published keys rv s, Inr ())"
  by (simp add: fileCommit_def Let_def published_def)

definition keptBy :: "string set \<Rightarrow> string \<times> serializedAuthKey \<Rightarrow> bool" where
  "keptBy X e \<longleftrightarrow> fst e \<notin> X \<and> (\<forall>p. za_permanentKeyId (snd e) = Some p \<longrightarrow> p \<notin> X)"

lemma finish_success:
  assumes "\<not> fk_win32 s" and "toHex (fromHex x) = x"
  shows "\<exists>d. fileFinishRevocation None jf None (fromHex x) s =
    (published (filter (keptBy {x}) (fk_keys s)) (removeAll x (fk_revoked s)) s, Inr d)"
proof -
  have "filter (\<lambda>(k, v). za_permanentKeyId v \<noteq> Some x) (js_delete x (fk_keys s)) = filter (keptBy {x}) (fk_keys s)"
    by (auto simp: delete_eq_filter keptBy_def intro!: filter_cong)
  with assms show ?thesis
    by (simp add: fileFinishRevocation_def Let_def commit_success) (simp add: published_def)
qed

lemma finishAll_success:
  assumes "\<not> fk_win32 s" and "\<forall>x \<in> set xs. toHex (fromHex x) = x" and "keysOk (fk_keys s)"
  shows "\<exists>s'. finishAll xs (\<lambda>_. (None, None, None)) s = (s', Inr ()) \<and> \<not> fk_win32 s' \<and>
    fk_keys s' = filter (keptBy (set xs)) (fk_keys s) \<and>
    set (fk_revoked s') = set (fk_revoked s) - set xs"
  using assms
proof (induction xs arbitrary: s)
  case Nil
  have "filter (keptBy {}) (fk_keys s) = fk_keys s" by (simp add: keptBy_def)
  with Nil show ?case by simp
next
  case (Cons x xs)
  let ?s = "published (filter (keptBy {x}) (fk_keys s)) (removeAll x (fk_revoked s)) s"
  have f: "\<not> fk_win32 ?s" "fk_keys ?s = filter (keptBy {x}) (fk_keys s)" "fk_revoked ?s = removeAll x (fk_revoked s)"
    using Cons.prems by (simp_all add: published_def)
  have "keysOk (fk_keys ?s)" using Cons.prems(3) by (auto simp: f keysOk_def)
  from Cons.IH [OF f(1) _ this] Cons.prems obtain s' where
    s': "finishAll xs (\<lambda>_. (None, None, None)) ?s = (s', Inr ())" "\<not> fk_win32 s'"
      "fk_keys s' = filter (keptBy (set xs)) (fk_keys ?s)" "set (fk_revoked s') = set (fk_revoked ?s) - set xs"
    by auto
  obtain d where "fileFinishRevocation None None None (fromHex x) s = (?s, Inr d)"
    using finish_success [of s x None] Cons.prems by auto
  moreover have "filter (keptBy (set xs)) (filter (keptBy {x}) (fk_keys s)) = filter (keptBy (set (x # xs))) (fk_keys s)"
    by (auto simp: keptBy_def intro!: filter_cong)
  ultimately show ?case using s' by (auto simp: f)
qed

section \<open>Properties\<close>

definition demoFile :: fileStore where
  "demoFile = \<lparr>fk_keys = [], fk_revoked = [], fk_pendingRevocations = [], fk_win32 = False,
     fk_path = Absent, fk_tmp = Absent, fk_journal = []\<rparr>"

lemma demoFile_inv: "fileInv demoFile"
  by (rule open_new [of False Absent]) (simp add: openFileStore_def demoFile_def)

text \<open>
  C2. A revoked authorization key stays dead in the file store. Once \<open>beginRevocation\<close> has
  been acknowledged (also by an error that says it may have been published), no sequence of
  operations, file-system failures and process restarts makes the key, or a temporary key
  bound to it, readable again, unless it is saved anew after the revocation was finished:
  every \<open>get\<close> afterwards misses it.
\<close>

theorem file_revocation_is_final:
  assumes "fileInv s0" and "fileBeginRevocation jf f t s0 = (s, r)" and "acknowledged r"
    and "fst_store.run es s s'"
    and "\<And>i r. Some (i, r) \<in> set es \<Longrightarrow> \<not> belongs t i r"
    and "fileGet now i s' = Some rec"
  shows "i \<noteq> t \<and> sk_permanentKeyId rec \<noteq> Some t"
proof -
  have "fileInv s" using file_begin_move [OF assms(1), of jf f t] assms(2) by auto
  moreover have "t \<in> snd (fileAbs s)"
    using begin_acknowledged [OF assms(2,3)] by (simp add: fileAbs_def)
  ultimately have "\<not> belongs t i rec"
    by (rule fst_store.stays_dead [OF _ _ assms(4) assms(5) assms(6)])
  then show ?thesis by (simp add: belongs_def)
qed

theorem file_revocation_is_final_witness:
  "let other = \<lparr>sk_key = [1], sk_permanentKeyId = None, sk_expiresAt = None, sk_apiLayer = None\<rparr>;
       s = fst (fileBeginRevocation None (Some FSyncDir) [7] demoFile)
   in \<exists>i rec. fileGet 0 i (fst (fileSave None [8] other s)) = Some rec \<and> i \<noteq> [7] \<and> sk_permanentKeyId rec \<noteq> Some [7]"
proof -
  let ?other = "\<lparr>sk_key = [1], sk_permanentKeyId = None, sk_expiresAt = None, sk_apiLayer = None\<rparr>"
  let ?b = "fileBeginRevocation None (Some FSyncDir) [7] demoFile"
  have b: "?b = (fst ?b, snd ?b)" by simp
  have "acknowledged (snd ?b)" by (simp add: acknowledged_def demoFile_def fileBeginRevocation_def fileCommit_def Let_def)
  moreover have "fst_store.run [Some ([8], ?other)] (fst ?b) (fst (fileSave None [8] ?other (fst ?b)))"
    by (rule run_save) simp
  moreover have get: "fileGet 0 [8] (fst (fileSave None [8] ?other (fst ?b))) = Some ?other" by code_simp
  ultimately have "[8] \<noteq> [7 :: byte] \<and> sk_permanentKeyId ?other \<noteq> Some [7]"
    by (intro file_revocation_is_final [OF demoFile_inv b]) (auto simp: belongs_def)
  with get show ?thesis unfolding Let_def by blast
qed



text \<open>
  \<open>recoverPendingRevocations\<close> completes what an interrupted process left: without
  failures it ends with no tombstone, has removed exactly the keys that were revoked or bound
  to a revoked key, and the files agree with the memory.
\<close>

theorem recovery_completes_revocations:
  assumes "fileInv s" and "\<not> fk_win32 s" and "\<forall>x \<in> set (fk_revoked s). toHex (fromHex x) = x"
  shows "\<exists>s'. fileRecoverPendingRevocations (\<lambda>_. (None, None, None)) s = (s', Inr ()) \<and>
    fk_revoked s' = [] \<and> fileInv s' \<and>
    fk_keys s' = filter (\<lambda>(k, v). k \<notin> set (fk_revoked s) \<and>
      (\<forall>p. za_permanentKeyId v = Some p \<longrightarrow> p \<notin> set (fk_revoked s))) (fk_keys s)"
proof -
  have "keysOk (fk_keys s)" using assms(1) by (simp add: fileInv_def)
  from finishAll_success [OF assms(2,3) this] obtain s' where
    s': "finishAll (fk_revoked s) (\<lambda>_. (None, None, None)) s = (s', Inr ())"
      "fk_keys s' = filter (keptBy (set (fk_revoked s))) (fk_keys s)" "set (fk_revoked s') = {}"
    by auto
  moreover have "fileInv s'" using finishAll_move [OF assms(1), of "fk_revoked s"] s'(1) by (metis fst_conv)
  moreover have "keptBy X = (\<lambda>(k, v). k \<notin> X \<and> (\<forall>p. za_permanentKeyId v = Some p \<longrightarrow> p \<notin> X))" for X
    by (auto simp: keptBy_def)
  ultimately show ?thesis using assms(2) by (simp add: fileRecoverPendingRevocations_def)
qed

theorem recovery_completes_revocations_witness:
  "let bound = \<lparr>sk_key = [1], sk_permanentKeyId = Some [7], sk_expiresAt = None, sk_apiLayer = None\<rparr>;
       s = fst (fileBeginRevocation None None [7] (fst (fileSave None [8] bound demoFile)))
   in \<exists>s'. fileRecoverPendingRevocations (\<lambda>_. (None, None, None)) s = (s', Inr ()) \<and> fk_keys s' = []"
proof -
  let ?bound = "\<lparr>sk_key = [1], sk_permanentKeyId = Some [7], sk_expiresAt = None, sk_apiLayer = None\<rparr>"
  let ?s = "fst (fileBeginRevocation None None [7] (fst (fileSave None [8] ?bound demoFile)))"
  have "fileInv (fst (fileSave None [8] ?bound demoFile))" using file_save_move [OF demoFile_inv, of ?bound] by simp
  then have inv: "fileInv ?s" using file_begin_move by blast
  have e: "fk_win32 ?s = False" "fk_revoked ?s = [toHex [7]]"
    "fk_keys ?s = [(toHex [8], serializeKey ?bound)]"
    by (simp_all add: demoFile_def fileBeginRevocation_def fileSave_def fileCommit_def Let_def setAdd_def)
  then have "\<forall>x \<in> set (fk_revoked ?s). toHex (fromHex x) = x" by (simp add: fromHex_toHex del: toHex_simps)
  then obtain s' where "fileRecoverPendingRevocations (\<lambda>_. (None, None, None)) ?s = (s', Inr ())"
    "fk_keys s' = filter (\<lambda>(k, v). k \<notin> set (fk_revoked ?s) \<and>
      (\<forall>p. za_permanentKeyId v = Some p \<longrightarrow> p \<notin> set (fk_revoked ?s))) (fk_keys ?s)"
    using recovery_completes_revocations [OF inv] e(1) by auto
  then show ?thesis unfolding Let_def e by (auto simp: serializeKey_def)
qed

end
