(* ===== verification/Sequence_Coverage.thy ===== *)
theory Sequence_Coverage
  imports Prelude
begin

text \<open>
  The native sequence numbers a conversation has already fetched from its platform
  (\<open>packages/history-backfill/src/coverage.ts\<close>): a list of closed intervals, in ascending
  order, neither overlapping nor adjacent. \<open>SequenceCoverage\<close> is modelled by its \<open>_spans\<close>.

  Sequence numbers are JavaScript numbers; the code accepts safe integers only, so they are
  integers here with the bound written out, and no intermediate result (at most one past the
  largest safe integer) is inexact. \<open>spanSet\<close> is the abstract value, \<open>wf_spans\<close> the
  representation invariant; a coverage is determined by its set (\<open>spans_canonical\<close>).
\<close>

section \<open>Data\<close>

record span =
  sp_start :: int
  sp_end :: int

definition mkSpan :: "int \<Rightarrow> int \<Rightarrow> span" where
  "mkSpan a b = \<lparr>sp_start = a, sp_end = b\<rparr>"

lemma mkSpan_simps [simp]: "sp_start (mkSpan a b) = a" "sp_end (mkSpan a b) = b"
  by (simp_all add: mkSpan_def)

section \<open>Operations\<close>

definition covSize :: "span list \<Rightarrow> nat" where
  "covSize spans = length spans"

definition covMin :: "span list \<Rightarrow> int option" where
  "covMin spans = (case spans of [] \<Rightarrow> None | s # _ \<Rightarrow> Some (sp_start s))"

definition covMax :: "span list \<Rightarrow> int option" where
  "covMax spans = (if spans = [] then None else Some (sp_end (last spans)))"

definition covered :: "span list \<Rightarrow> int" where
  "covered spans = foldl (\<lambda>sum s. sum + sp_end s - sp_start s + 1) 0 spans"

definition covHas :: "span list \<Rightarrow> int \<Rightarrow> bool" where
  "covHas spans n = list_ex (\<lambda>s. sp_start s \<le> n \<and> n \<le> sp_end s) spans"

text \<open>The body of the loop of \<open>add\<close>, on its variables \<open>output\<close>, \<open>merged\<close> and \<open>inserted\<close>.\<close>

definition covAddStep :: "span list \<times> span \<times> bool \<Rightarrow> span \<Rightarrow> span list \<times> span \<times> bool" where
  "covAddStep st s = (case st of (output, merged, inserted) \<Rightarrow>
     if sp_end s + 1 < sp_start merged then (output @ [s], merged, inserted)
     else if sp_end merged + 1 < sp_start s then
       ((if inserted then output else output @ [merged]) @ [s], merged, True)
     else (output, mkSpan (min (sp_start s) (sp_start merged)) (max (sp_end s) (sp_end merged)), inserted))"

definition covAdd :: "int \<Rightarrow> int \<Rightarrow> span list \<Rightarrow> span list" where
  "covAdd low0 high0 spans =
    (if \<not> isSafeInteger low0 \<or> \<not> isSafeInteger high0 then spans
     else let (low1, high) = (if low0 > high0 then (high0, low0) else (low0, high0)) in
       if high < 1 then spans
       else let low = max 1 low1;
                (output, merged, inserted) = foldl covAddStep ([], mkSpan low high, False) spans in
            if inserted then output else output @ [merged])"

text \<open>The loop of \<open>highestGap\<close>: \<open>gapBelow spans i\<close> is its run from \<open>index = i\<close> down to 1.\<close>

fun gapBelow :: "span list \<Rightarrow> nat \<Rightarrow> (int \<times> int) option" where
  "gapBelow spans 0 = None"
| "gapBelow spans (Suc i) =
    (let upper = spans ! Suc i; lower = spans ! i in
     if sp_end lower + 1 < sp_start upper then Some (sp_end lower + 1, sp_start upper - 1)
     else gapBelow spans i)"

definition highestGap :: "int option \<Rightarrow> span list \<Rightarrow> (int \<times> int) option" where
  "highestGap upperBound spans =
    (let high = covMax spans; below = gapBelow spans (length spans - 1) in
     case upperBound of
       None \<Rightarrow> below
     | Some ub \<Rightarrow>
         if \<not> isSafeInteger ub then below
         else (case high of
             None \<Rightarrow> if ub \<ge> 1 then Some (1, ub) else None
           | Some t \<Rightarrow> if ub > t then Some (t + 1, ub) else below))"

fun gapLoop :: "span list \<Rightarrow> int \<times> int \<Rightarrow> int \<times> int" where
  "gapLoop (s # t # rest) (count, missing) =
    (let width = sp_start t - sp_end s - 1 in
     gapLoop (t # rest) (if width > 0 then (count + 1, missing + width) else (count, missing)))"
| "gapLoop _ acc = acc"

definition gapStats :: "int option \<Rightarrow> span list \<Rightarrow> int \<times> int" where
  "gapStats upperBound spans =
    (let (count, missing) = gapLoop spans (0, 0) in
     case (upperBound, covMax spans) of
       (Some ub, Some t) \<Rightarrow> if ub > t then (count + 1, missing + (ub - t)) else (count, missing)
     | _ \<Rightarrow> (count, missing))"

text \<open>
  \<open>fromSequences\<close>: the numbers without repetitions, filtered and sorted; the loop keeps the
  run \<open>start\<close>..\<open>end\<close> that is being extended.
\<close>

definition fromStep :: "span list \<times> (int \<times> int) option \<Rightarrow> int \<Rightarrow> span list \<times> (int \<times> int) option" where
  "fromStep st v = (case st of
      (spans, None) \<Rightarrow> (spans, Some (v, v))
    | (spans, Some (a, b)) \<Rightarrow>
        if v = b + 1 then (spans, Some (a, v)) else (spans @ [mkSpan a b], Some (v, v)))"

definition fromSequences :: "int list \<Rightarrow> span list" where
  "fromSequences sequences =
    (let sorted = sort (filter (\<lambda>v. isSafeInteger v \<and> v > 0) (remdups sequences));
         (spans, run) = foldl fromStep ([], None) sorted in
     case run of None \<Rightarrow> spans | Some (a, b) \<Rightarrow> spans @ [mkSpan a b])"

section \<open>Abstract value and invariant\<close>

definition spanSet :: "span list \<Rightarrow> int set" where
  "spanSet spans = (\<Union>s\<in>set spans. {sp_start s..sp_end s})"

definition spanBefore :: "span \<Rightarrow> span \<Rightarrow> bool" where
  "spanBefore s t \<longleftrightarrow> sp_end s + 1 < sp_start t"

definition wf_spans :: "span list \<Rightarrow> bool" where
  "wf_spans spans \<longleftrightarrow> sorted_wrt spanBefore spans \<and> (\<forall>s\<in>set spans. 1 \<le> sp_start s \<and> sp_start s \<le> sp_end s)"

lemma spanSet_simps [simp]:
  "spanSet [] = {}" "spanSet (s # r) = {sp_start s..sp_end s} \<union> spanSet r"
  "spanSet (r @ r') = spanSet r \<union> spanSet r'"
  by (auto simp: spanSet_def)

lemma wf_spans_Nil [simp]: "wf_spans []"
  by (simp add: wf_spans_def)

lemma wf_spans_Cons [simp]:
  "wf_spans (s # r) \<longleftrightarrow> 1 \<le> sp_start s \<and> sp_start s \<le> sp_end s \<and> (\<forall>t\<in>set r. spanBefore s t) \<and> wf_spans r"
  by (auto simp: wf_spans_def)

lemma wf_spans_append:
  "wf_spans (r @ r') \<longleftrightarrow> wf_spans r \<and> wf_spans r' \<and> (\<forall>s\<in>set r. \<forall>t\<in>set r'. spanBefore s t)"
  by (auto simp: wf_spans_def sorted_wrt_append)

lemma finite_spanSet [simp]: "finite (spanSet spans)"
  by (simp add: spanSet_def)

lemma covHas_iff: "covHas spans n \<longleftrightarrow> n \<in> spanSet spans"
  by (auto simp: covHas_def spanSet_def list_ex_iff)

lemma spanSet_above: "\<forall>t\<in>set r. spanBefore s t \<Longrightarrow> n \<in> spanSet r \<Longrightarrow> sp_end s + 1 < n"
  by (auto simp: spanSet_def spanBefore_def)

lemma spanSet_pos: "wf_spans r \<Longrightarrow> n \<in> spanSet r \<Longrightarrow> 1 \<le> n"
  by (force simp: wf_spans_def spanSet_def)

subsection \<open>A coverage is determined by its set\<close>

lemma first_span_lower: "wf_spans (t # u) \<Longrightarrow> n \<in> spanSet (t # u) \<Longrightarrow> sp_start t \<le> n"
  using spanSet_above [of u t n] by auto

lemma first_span_upper: "wf_spans (t # u) \<Longrightarrow> n \<in> spanSet (t # u) \<Longrightarrow> n \<le> sp_end t + 1 \<Longrightarrow> n \<le> sp_end t"
  using spanSet_above [of u t n] by auto

lemma first_span_le:
  assumes "wf_spans (s # r)" and "wf_spans (t # u)" and "spanSet (s # r) = spanSet (t # u)"
  shows "sp_start t \<le> sp_start s" and "sp_start s = sp_start t \<Longrightarrow> sp_end t \<le> sp_end s"
proof -
  have "sp_start s \<in> spanSet (s # r)" using assms(1) by simp
  with assms show "sp_start t \<le> sp_start s" using first_span_lower [of t u] by metis
  show "sp_end t \<le> sp_end s" if eq: "sp_start s = sp_start t"
  proof (rule ccontr)
    assume "\<not> sp_end t \<le> sp_end s"
    then have "sp_end s + 1 \<in> spanSet (t # u)" using assms(1) eq by simp
    then have "sp_end s + 1 \<in> spanSet (s # r)" using assms(3) by simp
    from first_span_upper [OF assms(1) this] show False by simp
  qed
qed

lemma spans_canonical:
  "wf_spans r \<Longrightarrow> wf_spans r' \<Longrightarrow> spanSet r = spanSet r' \<Longrightarrow> r = r'"
proof (induction r arbitrary: r')
  case Nil
  then show ?case by (cases r') (auto dest: equalityD1)
next
  case (Cons s r)
  obtain t u where r': "r' = t # u" using Cons.prems by (cases r') auto
  note wf = Cons.prems(1) Cons.prems(2) [unfolded r']
  note eq = Cons.prems(3) [unfolded r']
  have "sp_start s = sp_start t"
    using first_span_le(1) [OF wf eq] first_span_le(1) [OF wf(2,1) eq [symmetric]] by simp
  moreover from this have "sp_end s = sp_end t"
    using first_span_le(2) [OF wf eq] first_span_le(2) [OF wf(2,1) eq [symmetric]] by simp
  ultimately have st: "s = t" by simp
  have rest: "spanSet q = {n \<in> spanSet (p # q). sp_end p < n}" if "wf_spans (p # q)" for p q
    using that spanSet_above [of q p] by force
  have "spanSet r = spanSet u"
    unfolding rest [OF wf(1)] rest [OF wf(2)] by (simp only: eq [unfolded st] st)
  then show ?case using Cons.IH [of u] wf r' st by simp
qed

section \<open>Adding an interval\<close>

text \<open>What the loop computes, as a recursion: the new interval swallows what it touches.\<close>

fun insertSpan :: "span \<Rightarrow> span list \<Rightarrow> span list" where
  "insertSpan m [] = [m]"
| "insertSpan m (s # r) =
    (if spanBefore s m then s # insertSpan m r
     else if spanBefore m s then m # s # r
     else insertSpan (mkSpan (min (sp_start s) (sp_start m)) (max (sp_end s) (sp_end m))) r)"

lemma covAddStep_after:
  "\<forall>s\<in>set r. spanBefore m s \<Longrightarrow> wf_spans r \<Longrightarrow> sp_start m \<le> sp_end m \<Longrightarrow>
   foldl covAddStep (out, m, True) r = (out @ r, m, True)"
  by (induction r arbitrary: out) (auto simp: covAddStep_def spanBefore_def)

lemma covAddStep_loop:
  "wf_spans r \<Longrightarrow> sp_start m \<le> sp_end m \<Longrightarrow> foldl covAddStep (out, m, False) r = (out', m', i) \<Longrightarrow>
   (if i then out' else out' @ [m']) = out @ insertSpan m r"
proof (induction r arbitrary: out m)
  case (Cons s r)
  consider (before) "spanBefore s m" | (after) "\<not> spanBefore s m" "spanBefore m s"
    | (touch) "\<not> spanBefore s m" "\<not> spanBefore m s" by blast
  then show ?case
  proof cases
    case before
    then show ?thesis using Cons.IH [of m "out @ [s]"] Cons.prems by (simp add: covAddStep_def spanBefore_def)
  next
    case after
    have "\<forall>t\<in>set r. spanBefore m t" using after Cons.prems(1) by (force simp: spanBefore_def)
    moreover have "covAddStep (out, m, False) s = (out @ [m, s], m, True)"
      using after by (simp add: covAddStep_def spanBefore_def)
    ultimately show ?thesis
      using after Cons.prems covAddStep_after [of r m "out @ [m, s]"] by auto
  next
    case touch
    then show ?thesis
      using Cons.IH [of "mkSpan (min (sp_start s) (sp_start m)) (max (sp_end s) (sp_end m))" out] Cons.prems
      by (simp add: covAddStep_def spanBefore_def min_def max_def split: if_splits)
  qed
qed simp

lemma insertSpan_lower:
  "\<forall>t\<in>set r. b < sp_start t \<Longrightarrow> b < sp_start m \<Longrightarrow> \<forall>t\<in>set (insertSpan m r). b < sp_start t"
proof (induction r arbitrary: m)
  case (Cons a r)
  let ?m = "mkSpan (min (sp_start a) (sp_start m)) (max (sp_end a) (sp_end m))"
  have "\<forall>t\<in>set (insertSpan m r). b < sp_start t" "\<forall>t\<in>set (insertSpan ?m r). b < sp_start t"
    by (rule Cons.IH; use Cons.prems in simp)+
  with Cons.prems show ?case by simp
qed simp

lemma touching_union:
  assumes "\<not> spanBefore s m" and "\<not> spanBefore m s" and "sp_start s \<le> sp_end s" and "sp_start m \<le> sp_end m"
  shows "{min (sp_start s) (sp_start m)..max (sp_end s) (sp_end m)} = {sp_start s..sp_end s} \<union> {sp_start m..sp_end m}"
  using assms by (auto simp: spanBefore_def)

lemma insertSpan_ok:
  "wf_spans r \<Longrightarrow> 1 \<le> sp_start m \<Longrightarrow> sp_start m \<le> sp_end m \<Longrightarrow>
   wf_spans (insertSpan m r) \<and> spanSet (insertSpan m r) = {sp_start m..sp_end m} \<union> spanSet r"
proof (induction r arbitrary: m)
  case (Cons s r)
  consider (before) "spanBefore s m" | (after) "\<not> spanBefore s m" "spanBefore m s"
    | (touch) "\<not> spanBefore s m" "\<not> spanBefore m s" by blast
  then show ?case
  proof cases
    case before
    have "\<forall>t\<in>set (insertSpan m r). spanBefore s t"
      using insertSpan_lower [of r "sp_end s + 1" m] before Cons.prems(1) by (auto simp: spanBefore_def)
    with before Cons.IH [of m] Cons.prems show ?thesis by auto
  next
    case after
    have "\<forall>t\<in>set r. spanBefore m t" using after Cons.prems(1) by (force simp: spanBefore_def)
    with after Cons.prems show ?thesis by auto
  next
    case touch
    let ?m = "mkSpan (min (sp_start s) (sp_start m)) (max (sp_end s) (sp_end m))"
    have "{sp_start ?m..sp_end ?m} = {sp_start s..sp_end s} \<union> {sp_start m..sp_end m}"
      using touching_union [OF touch] Cons.prems by simp
    moreover have "wf_spans (insertSpan ?m r) \<and> spanSet (insertSpan ?m r) = {sp_start ?m..sp_end ?m} \<union> spanSet r"
      using Cons.prems by (intro Cons.IH) auto
    ultimately show ?thesis using touch by auto
  qed
qed simp

lemma covAdd_ok:
  assumes "wf_spans c" and "isSafeInteger a" and "isSafeInteger b"
  shows "wf_spans (covAdd a b c)" and "spanSet (covAdd a b c) = spanSet c \<union> {max 1 (min a b)..max a b}"
proof -
  let ?m = "mkSpan (max 1 (min a b)) (max a b)"
  obtain out m i where fold: "foldl covAddStep ([], ?m, False) c = (out, m, i)"
    by (cases "foldl covAddStep ([], ?m, False) c") auto
  have add: "covAdd a b c = insertSpan ?m c" if "1 \<le> max a b"
    using covAddStep_loop [OF assms(1) _ fold] fold that assms
    by (auto simp: covAdd_def min_def max_def split: if_splits)
  have none: "covAdd a b c = c" if "max a b < 1"
    using that by (auto simp: covAdd_def)
  show "wf_spans (covAdd a b c)" "spanSet (covAdd a b c) = spanSet c \<union> {max 1 (min a b)..max a b}"
    using add none insertSpan_ok [OF assms(1), of ?m] assms(1) by (cases "1 \<le> max a b"; force)+
qed

lemma covAdd_unsafe: "\<not> (isSafeInteger a \<and> isSafeInteger b) \<Longrightarrow> covAdd a b c = c"
  by (auto simp: covAdd_def)

section \<open>Rebuilding from stored numbers\<close>

definition closeRun :: "span list \<times> (int \<times> int) option \<Rightarrow> span list" where
  "closeRun st = (case st of (spans, None) \<Rightarrow> spans | (spans, Some (a, b)) \<Rightarrow> spans @ [mkSpan a b])"

lemma fromSequences_closeRun:
  "fromSequences xs =
   closeRun (foldl fromStep ([], None) (sort (filter (\<lambda>v. isSafeInteger v \<and> v > 0) (remdups xs))))"
  by (simp add: fromSequences_def closeRun_def split: prod.splits)

lemma fromStep_run:
  "sorted_wrt (<) (b # vs) \<Longrightarrow> wf_spans (spans @ [mkSpan a b]) \<Longrightarrow>
   wf_spans (closeRun (foldl fromStep (spans, Some (a, b)) vs)) \<and>
   spanSet (closeRun (foldl fromStep (spans, Some (a, b)) vs)) = spanSet spans \<union> {a..b} \<union> set vs"
proof (induction vs arbitrary: spans a b)
  case Nil
  then show ?case by (simp add: closeRun_def)
next
  case (Cons v vs)
  show ?case
  proof (cases "v = b + 1")
    case True
    have "wf_spans (spans @ [mkSpan a v])"
      using Cons.prems(2) True by (auto simp: wf_spans_append spanBefore_def)
    moreover have "{a..v} = insert v {a..b}" using True Cons.prems(2) by (auto simp: wf_spans_append)
    ultimately show ?thesis using Cons.IH [of v spans a] Cons.prems(1) True by (simp add: fromStep_def)
  next
    case False
    have "wf_spans ((spans @ [mkSpan a b]) @ [mkSpan v v])"
      using Cons.prems False by (fastforce simp: wf_spans_append spanBefore_def)
    then show ?thesis using Cons.IH [of v "spans @ [mkSpan a b]" v] Cons.prems(1) False by (auto simp: fromStep_def)
  qed
qed

lemma fromSequences_ok:
  "wf_spans (fromSequences xs) \<and> spanSet (fromSequences xs) = {v \<in> set xs. isSafeInteger v \<and> v > 0}"
proof -
  define ys where "ys = sort (filter (\<lambda>v. isSafeInteger v \<and> v > 0) (remdups xs))"
  have "sorted_wrt (<) ys" and set: "set ys = {v \<in> set xs. isSafeInteger v \<and> v > 0}"
    by (auto simp: ys_def strict_sorted_iff)
  moreover have "wf_spans (closeRun (foldl fromStep ([], None) ys)) \<and>
      spanSet (closeRun (foldl fromStep ([], None) ys)) = set ys"
  proof (cases ys)
    case Nil
    then show ?thesis by (simp add: closeRun_def)
  next
    case (Cons v vs)
    moreover from Cons have "v \<in> set ys" by simp
    then have "1 \<le> v" unfolding set by simp
    ultimately show ?thesis
      using fromStep_run [of v vs "[]" v] \<open>sorted_wrt (<) ys\<close> by (simp add: fromStep_def)
  qed
  ultimately show ?thesis by (simp add: fromSequences_closeRun ys_def)
qed

section \<open>Gaps\<close>

lemma covered_card: "wf_spans c \<Longrightarrow> covered c = int (card (spanSet c))"
proof -
  have acc: "foldl (\<lambda>sum s. sum + sp_end s - sp_start s + 1) n c = n + int (card (spanSet c))"
    if "wf_spans c" for n :: int
    using that
  proof (induction c arbitrary: n)
    case (Cons s r)
    have "{sp_start s..sp_end s} \<inter> spanSet r = {}"
      using Cons.prems spanSet_above [of r s] by fastforce
    then have "card (spanSet (s # r)) = card {sp_start s..sp_end s} + card (spanSet r)"
      by (simp add: card_Un_disjoint)
    with Cons show ?case by simp
  qed simp
  assume "wf_spans c"
  from acc [OF this, of 0] show ?thesis by (simp add: covered_def)
qed

text \<open>The highest number a gap is looked for: the bound when it is above the coverage.\<close>

definition gapCeiling :: "int option \<Rightarrow> span list \<Rightarrow> int" where
  "gapCeiling upperBound c =
    (let top = (case covMax c of None \<Rightarrow> 0 | Some t \<Rightarrow> t) in
     case upperBound of Some ub \<Rightarrow> if isSafeInteger ub then max ub top else top | None \<Rightarrow> top)"

definition gapFloor :: "span list \<Rightarrow> int" where
  "gapFloor c = (case covMin c of None \<Rightarrow> 1 | Some m \<Rightarrow> m)"

definition missing :: "int option \<Rightarrow> span list \<Rightarrow> int set" where
  "missing upperBound c = {gapFloor c..gapCeiling upperBound c} - spanSet c"

lemma last_span_upper: "wf_spans c \<Longrightarrow> c \<noteq> [] \<Longrightarrow> n \<in> spanSet c \<Longrightarrow> n \<le> sp_end (last c)"
proof (induction c)
  case (Cons s r)
  show ?case
  proof (cases "r = []")
    case False
    then have "last r \<in> set r" by simp
    with Cons.prems have "sp_end s < sp_start (last r)" and "sp_start (last r) \<le> sp_end (last r)"
      by (auto simp: wf_spans_def spanBefore_def)
    with Cons False show ?thesis by fastforce
  qed (use Cons.prems in auto)
qed simp

lemma span_nth: "i < length c \<Longrightarrow> {sp_start (c ! i)..sp_end (c ! i)} \<subseteq> spanSet c"
  unfolding spanSet_def using nth_mem by blast

lemma between_spans:
  assumes "wf_spans c" and "Suc i < length c" and "sp_end (c ! i) < n" and "n < sp_start (c ! Suc i)"
  shows "n \<notin> spanSet c"
proof
  assume "n \<in> spanSet c"
  then obtain j where j: "j < length c" "sp_start (c ! j) \<le> n" "n \<le> sp_end (c ! j)"
    by (auto simp: spanSet_def in_set_conv_nth)
  have ord: "k < l \<Longrightarrow> l < length c \<Longrightarrow> sp_end (c ! k) + 1 < sp_start (c ! l)" for k l
    using assms(1) by (simp add: wf_spans_def sorted_wrt_iff_nth_less spanBefore_def)
  have ne: "sp_start (c ! k) \<le> sp_end (c ! k)" if "k < length c" for k
    using assms(1) that by (simp add: wf_spans_def)
  consider "j < i" | "j = i" | "j = Suc i" | "Suc i < j" by linarith
  then show False
    using ord [of j i] ord [of "Suc i" j] ne [of i] ne [of "Suc i"] ne [of j] j assms by cases auto
qed

lemma gapBelow_top:
  assumes "wf_spans c" and "Suc i < length c"
  shows "gapBelow c (Suc i) = Some (sp_end (c ! i) + 1, sp_start (c ! Suc i) - 1)"
  using assms by (simp add: wf_spans_def sorted_wrt_iff_nth_less spanBefore_def Let_def)

lemma covMax_spanSet: "wf_spans c \<Longrightarrow> c \<noteq> [] \<Longrightarrow> covMax c = Some (Max (spanSet c))"
proof -
  assume wf: "wf_spans c" and ne: "c \<noteq> []"
  then have "last c \<in> set c" by simp
  with wf have "sp_end (last c) \<in> spanSet c" unfolding wf_spans_def spanSet_def by fastforce
  then have "Max (spanSet c) = sp_end (last c)"
    using last_span_upper [OF wf ne] by (intro Max_eqI) auto
  then show ?thesis using ne by (simp add: covMax_def)
qed

lemma covMin_spanSet: "wf_spans c \<Longrightarrow> c \<noteq> [] \<Longrightarrow> covMin c = Some (Min (spanSet c))"
proof -
  assume wf: "wf_spans c" and ne: "c \<noteq> []"
  then obtain s r where c: "c = s # r" by (cases c) auto
  then have "Min (spanSet c) = sp_start s"
    using wf first_span_lower [of s r] by (intro Min_eqI) auto
  then show ?thesis using c by (simp add: covMin_def)
qed

lemma spanSet_empty_iff: "wf_spans c \<Longrightarrow> spanSet c = {} \<longleftrightarrow> c = []"
  by (cases c) auto

lemma gapCeiling_eq: "wf_spans c \<Longrightarrow> c \<noteq> [] \<Longrightarrow>
  gapCeiling ub c = (case ub of Some u \<Rightarrow> if isSafeInteger u then max u (Max (spanSet c)) else Max (spanSet c)
                     | None \<Rightarrow> Max (spanSet c))"
  by (simp add: gapCeiling_def covMax_spanSet Let_def)

lemma gapFloor_eq: "wf_spans c \<Longrightarrow> c \<noteq> [] \<Longrightarrow> gapFloor c = Min (spanSet c)"
  by (simp add: gapFloor_def covMin_spanSet)

lemma finite_missing [simp]: "finite (missing ub c)"
  by (simp add: missing_def)

lemma highestGap_above:
  assumes "wf_spans c" and "isSafeInteger u" and "covMax c = Some t" and "u > t"
  shows "highestGap (Some u) c = Some (t + 1, u)" and "{t + 1..u} \<subseteq> missing (Some u) c"
    and "\<forall>n\<in>missing (Some u) c. n \<le> u" and "t \<in> spanSet c"
proof -
  have ne: "c \<noteq> []" and t: "t = sp_end (last c)" using assms(3) by (auto simp: covMax_def split: if_splits)
  have max: "t = Max (spanSet c)" using covMax_spanSet [OF assms(1) ne] assms(3) by simp
  show in_set: "t \<in> spanSet c" using max ne spanSet_empty_iff [OF assms(1)] by simp
  have "gapFloor c \<le> t"
    using gapFloor_eq [OF assms(1) ne] in_set by simp
  moreover have "n \<notin> spanSet c" if "t < n" for n
    using last_span_upper [OF assms(1) ne, of n] t that by force
  moreover have "gapCeiling (Some u) c = u" using assms by (simp add: gapCeiling_def)
  ultimately show "{t + 1..u} \<subseteq> missing (Some u) c" "\<forall>n\<in>missing (Some u) c. n \<le> u"
    by (auto simp: missing_def)
  show "highestGap (Some u) c = Some (t + 1, u)" using assms by (simp add: highestGap_def)
qed

lemma gapBelow_ok:
  assumes "wf_spans c" and "c \<noteq> []" and "gapCeiling ub c = sp_end (last c)"
  shows "case gapBelow c (length c - 1) of None \<Rightarrow> missing ub c = {}
    | Some (lo, hi) \<Rightarrow> lo \<le> hi \<and> {lo..hi} \<subseteq> missing ub c \<and> (\<forall>n\<in>missing ub c. n \<le> hi) \<and> lo - 1 \<in> spanSet c"
proof (cases "length c = 1")
  case True
  then obtain s where "c = [s]" by (cases c) auto
  with assms show ?thesis by (simp add: missing_def gapFloor_def covMin_def)
next
  case False
  with assms(2) obtain i where i: "length c = Suc (Suc i)"
    by (metis One_nat_def length_0_conv not0_implies_Suc)
  then have last: "last c = c ! Suc i" using assms(2) by (simp add: last_conv_nth)
  have wf: "sp_start (c ! i) \<le> sp_end (c ! i)" "sp_end (c ! i) + 1 < sp_start (c ! Suc i)"
    using assms(1) i by (simp_all add: wf_spans_def sorted_wrt_iff_nth_less spanBefore_def)
  have mem: "sp_end (c ! i) \<in> spanSet c" and up: "{sp_start (c ! Suc i)..sp_end (c ! Suc i)} \<subseteq> spanSet c"
    using span_nth [of i c] span_nth [of "Suc i" c] wf i by auto
  have floor: "gapFloor c \<le> sp_end (c ! i)" using mem gapFloor_eq [OF assms(1,2)] by simp
  have "{sp_end (c ! i) + 1..sp_start (c ! Suc i) - 1} \<subseteq> missing ub c"
    using between_spans [OF assms(1), of i] i floor assms(1,3) last
    by (auto simp: missing_def wf_spans_def dest!: bspec [where x = "c ! Suc i"])
  moreover have "\<forall>n\<in>missing ub c. n \<le> sp_start (c ! Suc i) - 1"
  proof
    fix n assume "n \<in> missing ub c"
    then have "n \<le> sp_end (c ! Suc i)" "n \<notin> spanSet c" by (simp_all add: missing_def assms(3) last)
    moreover from this have "n \<notin> {sp_start (c ! Suc i)..sp_end (c ! Suc i)}" using up by blast
    ultimately show "n \<le> sp_start (c ! Suc i) - 1" by simp
  qed
  moreover have "gapBelow c (length c - 1) = Some (sp_end (c ! i) + 1, sp_start (c ! Suc i) - 1)"
    using gapBelow_top [OF assms(1), of i] i by simp
  ultimately show ?thesis using wf mem by simp
qed

lemma highestGap_ok:
  assumes "wf_spans c"
  shows "case highestGap ub c of None \<Rightarrow> missing ub c = {}
    | Some (lo, hi) \<Rightarrow> 1 \<le> lo \<and> lo \<le> hi \<and> {lo..hi} \<subseteq> missing ub c \<and> (\<forall>n\<in>missing ub c. n \<le> hi) \<and>
        lo - 1 \<notin> missing ub c"
proof (cases "c = []")
  case True
  then show ?thesis
    by (auto simp: highestGap_def covMax_def missing_def gapFloor_def covMin_def gapCeiling_def split: option.splits)
next
  case False
  show ?thesis
  proof (cases "\<exists>u. ub = Some u \<and> isSafeInteger u \<and> u > sp_end (last c)")
    case True
    then obtain u where u: "ub = Some u" "isSafeInteger u" "u > sp_end (last c)" by blast
    have "covMax c = Some (sp_end (last c))" using False by (simp add: covMax_def)
    note above = highestGap_above [OF assms u(2) this u(3)]
    have "1 \<le> sp_end (last c) + 1" using spanSet_pos [OF assms above(4)] by simp
    moreover have "sp_end (last c) + 1 - 1 \<notin> missing ub c" using above(4) by (simp add: missing_def)
    ultimately show ?thesis using above(1-3) u by simp
  next
    case no: False
    then have "highestGap ub c = gapBelow c (length c - 1)" and "gapCeiling ub c = sp_end (last c)"
      using False by (auto simp: highestGap_def covMax_def gapCeiling_def Let_def split: option.splits)
    with gapBelow_ok [OF assms False, of ub] show ?thesis
      using spanSet_pos [OF assms] by (fastforce simp: missing_def split: option.splits)
  qed
qed

text \<open>Filling the gap that was found.\<close>

lemma fill_gap:
  assumes "wf_spans c" and "\<forall>n\<in>spanSet c. isSafeInteger n" and "highestGap ub c = Some (lo, hi)"
  shows "missing ub (covAdd lo hi c) = missing ub c - {lo..hi}" and "lo \<le> hi" and "{lo..hi} \<subseteq> missing ub c"
proof -
  note gap = highestGap_ok [OF assms(1), of ub, unfolded assms(3), simplified]
  show "lo \<le> hi" "{lo..hi} \<subseteq> missing ub c" using gap by auto
  have bound: "isSafeInteger (gapCeiling ub c)"
  proof (cases "c = []")
    case True
    then show ?thesis by (auto simp: gapCeiling_def covMax_def max_def isSafeInteger_def split: option.splits)
  next
    case False
    then have "Max (spanSet c) \<in> spanSet c" using spanSet_empty_iff [OF assms(1)] by simp
    with assms(2) have "isSafeInteger (Max (spanSet c))" by blast
    then show ?thesis using gapCeiling_eq [OF assms(1) False]
      by (auto simp: max_def split: option.splits)
  qed
  have range: "lo \<le> hi" "1 \<le> lo" "hi \<le> gapCeiling ub c" "gapFloor c \<le> lo"
    using gap by (auto simp: missing_def)
  with bound have safe: "isSafeInteger lo" "isSafeInteger hi" by (auto simp: isSafeInteger_def)
  let ?d = "covAdd lo hi c"
  have d: "wf_spans ?d" "spanSet ?d = spanSet c \<union> {lo..hi}"
    using covAdd_ok [OF assms(1) safe] range by (simp_all add: max_def min_def)
  have ne: "?d \<noteq> []" using d range spanSet_empty_iff by auto
  have ends: "gapFloor ?d = gapFloor c \<and> gapCeiling ub ?d = gapCeiling ub c"
  proof (cases "c = []")
    case True
    with assms(3) have "lo = 1" "ub = Some hi" "isSafeInteger hi"
      by (auto simp: highestGap_def covMax_def split: option.splits if_splits)
    moreover have "Max {1..hi} = hi" "Min {1..hi} = 1" using range by (auto intro: Max_eqI Min_eqI)
    ultimately show ?thesis
      using True range d gapFloor_eq [OF d(1) ne] gapCeiling_eq [OF d(1) ne, of ub]
      by (simp add: gapFloor_def covMin_def gapCeiling_def covMax_def)
  next
    case False
    then have fin: "spanSet c \<noteq> {}" using spanSet_empty_iff [OF assms(1)] by simp
    have fl: "Min (spanSet ?d) = Min (spanSet c)"
      unfolding d(2) using fin range gapFloor_eq [OF assms(1) False] by (subst Min_Un) (auto simp: min_def)
    have "hi \<le> Max (spanSet c) \<or> (\<exists>u. ub = Some u \<and> isSafeInteger u \<and> hi \<le> u)"
      using range(3) gapCeiling_eq [OF assms(1) False, of ub] by (auto simp: max_def split: option.splits if_splits)
    moreover have "Max (spanSet ?d) = max (Max (spanSet c)) hi"
      unfolding d(2) using fin range Max_eqI [of "{lo..hi}" hi] by (subst Max_Un) auto
    ultimately show ?thesis
      using fl gapFloor_eq [OF d(1) ne] gapFloor_eq [OF assms(1) False]
        gapCeiling_eq [OF d(1) ne, of ub] gapCeiling_eq [OF assms(1) False, of ub]
      by (auto simp: max_def split: option.splits)
  qed
  then show "missing ub ?d = missing ub c - {lo..hi}" by (auto simp: missing_def d(2))
qed

text \<open>\<open>gapStats\<close> counts the missing numbers.\<close>

lemma gapLoop_missing:
  "wf_spans (s # r) \<Longrightarrow>
   snd (gapLoop (s # r) (k, m)) = m + int (card ({sp_start s..sp_end (last (s # r))} - spanSet (s # r)))"
proof (induction r arbitrary: s k m)
  case Nil
  then show ?case by simp
next
  case (Cons t r)
  define L where "L = sp_end (last (t # r))"
  have bef: "sp_end s + 1 < sp_start t" "sp_start s \<le> sp_end s" using Cons.prems by (auto simp: spanBefore_def)
  have wft: "wf_spans (t # r)" using Cons.prems by simp
  have low: "n \<in> spanSet (t # r) \<Longrightarrow> sp_start t \<le> n \<and> n \<le> L" for n
    using first_span_lower [OF wft] last_span_upper [OF wft] unfolding L_def by blast
  have "sp_start t \<in> spanSet (t # r)" using wft by simp
  with low have tL: "sp_start t \<le> L" by blast
  have "{sp_start s..L} - spanSet (s # t # r) =
      {sp_end s + 1..sp_start t - 1} \<union> ({sp_start t..L} - spanSet (t # r))"
    unfolding spanSet_simps(2) [of s] using bef tL by (auto simp del: spanSet_simps(2) dest: low)
  moreover have "{sp_end s + 1..sp_start t - 1} \<inter> ({sp_start t..L} - spanSet (t # r)) = {}" by auto
  ultimately have "int (card ({sp_start s..L} - spanSet (s # t # r))) =
      (sp_start t - sp_end s - 1) + int (card ({sp_start t..L} - spanSet (t # r)))"
    using bef by (simp add: card_Un_disjoint)
  with Cons.IH [OF wft] bef show ?case by (simp add: Let_def L_def)
qed

lemma gapStats_missing:
  assumes "wf_spans c" and "c \<noteq> []" and "ub = None \<or> (\<exists>u. ub = Some u \<and> isSafeInteger u)"
  shows "snd (gapStats ub c) = int (card (missing ub c))"
proof -
  obtain s r where c: "c = s # r" using assms(2) by (cases c) auto
  let ?L = "sp_end (last c)"
  have loop: "snd (gapLoop c (0, 0)) = int (card ({sp_start s..?L} - spanSet c))"
    using gapLoop_missing [of s r 0 0] assms(1) c by simp
  have L: "sp_start s \<le> ?L" using last_span_upper [OF assms(1,2), of "sp_start s"] assms(1) c by simp
  have fl: "gapFloor c = sp_start s" by (simp add: gapFloor_def covMin_def c)
  show ?thesis
  proof (cases "\<exists>u. ub = Some u \<and> u > ?L")
    case True
    then obtain u where u: "ub = Some u" "u > ?L" by blast
    then have ceil: "gapCeiling ub c = u" using assms(2,3) by (auto simp: gapCeiling_def covMax_def)
    have "missing ub c = ({sp_start s..?L} - spanSet c) \<union> {?L + 1..u}"
      unfolding missing_def fl ceil using u L by (auto dest: last_span_upper [OF assms(1,2)])
    moreover have "({sp_start s..?L} - spanSet c) \<inter> {?L + 1..u} = {}" by auto
    ultimately have "int (card (missing ub c)) = int (card ({sp_start s..?L} - spanSet c)) + (u - ?L)"
      using u by (simp add: card_Un_disjoint)
    then show ?thesis using loop u assms(2) by (auto simp: gapStats_def covMax_def split: prod.splits)
  next
    case False
    then have "gapCeiling ub c = ?L"
      using assms(2) by (auto simp: gapCeiling_def covMax_def Let_def max_def not_less split: option.splits)
    then have "missing ub c = {sp_start s..?L} - spanSet c" by (simp add: missing_def fl)
    then show ?thesis using loop False assms(2)
      by (auto simp: gapStats_def covMax_def split: prod.splits option.splits)
  qed
qed

section \<open>Properties\<close>



text \<open>
  Rebuilding a coverage from the stored numbers after a restart gives the coverage that
  adding them one by one gives, in whatever order and however often they are stored.
\<close>

theorem coverage_rebuilt_from_store:
  "fromSequences xs = foldl (\<lambda>c v. covAdd v v c) [] xs"
proof -
  have "wf_spans (foldl (\<lambda>c v. covAdd v v c) c xs) \<and>
      spanSet (foldl (\<lambda>c v. covAdd v v c) c xs) = spanSet c \<union> {v \<in> set xs. isSafeInteger v \<and> v > 0}"
    if "wf_spans c" for c
    using that
  proof (induction xs arbitrary: c)
    case (Cons v xs)
    have "wf_spans (covAdd v v c)" "spanSet (covAdd v v c) = spanSet c \<union> (if isSafeInteger v \<and> v > 0 then {v} else {})"
      using covAdd_ok [OF Cons.prems, of v v] covAdd_unsafe [of v v c] Cons.prems
      by (cases "isSafeInteger v"; auto)+
    with Cons.IH [of "covAdd v v c"] show ?case by auto
  qed simp
  from this [of "[]"] show ?thesis
    using fromSequences_ok [of xs] by (intro spans_canonical) auto
qed



end
