(* ===== verification/Sha1_State.thy ===== *)
theory Sha1_State
  imports Prelude
begin

text \<open>
  The incremental SHA-1 of the video upload
  (\<open>packages/platform-crossgram/src/sha1-state.ts\<close>): unlike the library's digest it exports the
  chaining state between two chunks, without padding.

  A \<open>Uint32Array\<close> element is a \<open>32 word\<close>. The code computes with JavaScript's 32-bit
  operators, adds five 32-bit numbers in a double (exact) and reduces with \<open>>>> 0\<close> or by storing
  into a \<open>Uint32Array\<close>; on words that is the wrapping addition. The typed arrays are lists of
  fixed length that are overwritten in place; what they hold from earlier calls is part of the
  state, as in the code.

  The reference is the SHA-1 of FIPS 180-4: message schedule, round functions with rotations,
  and the fold of the compression function over the 64-byte blocks of the whole input.
\<close>

unbundle bit_operations_syntax

type_synonym word32 = "32 word"

section \<open>The code\<close>

record sha1 =
  sh_state :: "word32 list"
  sh_words :: "word32 list"
  sh_block :: bytes
  sh_blockLength :: nat

definition newSha1 :: sha1 where
  "newSha1 = \<lparr>sh_state = [0x67452301, 0xefcdab89, 0x98badcfe, 0x10325476, 0xc3d2e1f0],
     sh_words = replicate 80 0, sh_block = replicate 64 0, sh_blockLength = 0\<rparr>"

definition readUInt32BE :: "bytes \<Rightarrow> nat \<Rightarrow> word32" where
  "readUInt32BE bs p = push_bit 24 (ucast (bs ! p)) OR push_bit 16 (ucast (bs ! (p + 1))) OR
     push_bit 8 (ucast (bs ! (p + 2))) OR ucast (bs ! (p + 3))"

text \<open>\<open>writeUInt32LE\<close>: the four bytes, least significant first.\<close>

definition uint32LE :: "word32 \<Rightarrow> bytes" where
  "uint32LE w = [ucast w, ucast (drop_bit 8 w), ucast (drop_bit 16 w), ucast (drop_bit 24 w)]"

text \<open>\<open>target.set(source, offset)\<close> on a typed array.\<close>

definition setAt :: "bytes \<Rightarrow> bytes \<Rightarrow> nat \<Rightarrow> bytes" where
  "setAt target source p = take p target @ source @ drop (p + length source) target"

definition fillWords :: "bytes \<Rightarrow> nat \<Rightarrow> word32 list \<Rightarrow> word32 list" where
  "fillWords input offset words =
     foldl (\<lambda>w i. w[i := readUInt32BE input (offset + i * 4)]) words [0..<16]"

definition extendStep :: "word32 list \<Rightarrow> nat \<Rightarrow> word32 list" where
  "extendStep w i =
     (let v = w ! (i - 3) XOR w ! (i - 8) XOR w ! (i - 14) XOR w ! (i - 16)
      in w[i := push_bit 1 v OR drop_bit 31 v])"

definition extendWords :: "word32 list \<Rightarrow> word32 list" where
  "extendWords words = foldl extendStep words [16..<80]"

type_synonym regs = "word32 \<times> word32 \<times> word32 \<times> word32 \<times> word32"

definition roundStep :: "word32 list \<Rightarrow> regs \<Rightarrow> nat \<Rightarrow> regs" where
  "roundStep words r i = (case r of (a, b, c, d, e) \<Rightarrow>
     let f = (if i < 20 then (b AND c) OR (NOT b AND d)
              else if i < 40 then b XOR c XOR d
              else if i < 60 then (b AND c) OR (b AND d) OR (c AND d)
              else b XOR c XOR d);
         k = (if i < 20 then 0x5a827999 else if i < 40 then 0x6ed9eba1
              else if i < 60 then 0x8f1bbcdc else 0xca62c1d6);
         nxt = (push_bit 5 a OR drop_bit 27 a) + f + e + k + words ! i
     in (nxt, a, push_bit 30 b OR drop_bit 2 b, c, d))"

definition compress :: "bytes \<Rightarrow> nat \<Rightarrow> sha1 \<Rightarrow> sha1" where
  "compress input offset s =
    (let words = extendWords (fillWords input offset (sh_words s));
         st = sh_state s;
         (a, b, c, d, e) = foldl (roundStep words) (st ! 0, st ! 1, st ! 2, st ! 3, st ! 4) [0..<80]
     in s\<lparr>sh_words := words, sh_state := [st ! 0 + a, st ! 1 + b, st ! 2 + c, st ! 3 + d, st ! 4 + e]\<rparr>)"

text \<open>The loop over whole blocks; it returns the final \<open>offset\<close>.\<close>

function compressLoop :: "bytes \<Rightarrow> nat \<Rightarrow> sha1 \<Rightarrow> sha1 \<times> nat" where
  "compressLoop view offset s =
    (if offset + 64 \<le> length view then compressLoop view (offset + 64) (compress view offset s)
     else (s, offset))"
  by pat_completeness auto
termination by (relation "measure (\<lambda>(view, offset, _). length view - offset)") auto

declare compressLoop.simps [simp del]

definition updateBlocks :: "bytes \<Rightarrow> nat \<Rightarrow> sha1 \<Rightarrow> sha1" where
  "updateBlocks input offset s =
    (let (s1, p) = compressLoop input offset s in
     if p < length input
     then s1\<lparr>sh_block := setAt (sh_block s1) (drop p input) 0, sh_blockLength := length input - p\<rparr>
     else s1)"

definition sha1Update :: "sha1 \<Rightarrow> bytes \<Rightarrow> sha1" where
  "sha1Update s input =
    (if sh_blockLength s \<noteq> 0 then
       let accepted = min (length input) (64 - sh_blockLength s);
           s1 = s\<lparr>sh_block := setAt (sh_block s) (take accepted input) (sh_blockLength s),
                  sh_blockLength := sh_blockLength s + accepted\<rparr>
       in if sh_blockLength s1 < 64 then s1
          else updateBlocks input accepted ((compress (sh_block s1) 0 s1)\<lparr>sh_blockLength := 0\<rparr>)
     else updateBlocks input 0 s)"

datatype sha1Error = Sha1NotAligned

definition stateLittleEndian :: "sha1 \<Rightarrow> sha1Error + bytes" where
  "stateLittleEndian s =
    (if sh_blockLength s \<noteq> 0 then Inl Sha1NotAligned
     else Inr (foldl (\<lambda>out i. out @ uint32LE (sh_state s ! i)) [] [0..<5]))"

section \<open>The reference\<close>

function schedule :: "(nat \<Rightarrow> word32) \<Rightarrow> nat \<Rightarrow> word32" where
  "schedule M t =
    (if t < 16 then M t
     else word_rotl 1 (schedule M (t - 3) XOR schedule M (t - 8) XOR schedule M (t - 14) XOR schedule M (t - 16)))"
  by pat_completeness auto
termination by (relation "measure snd") auto

declare schedule.simps [simp del]

definition sha1F :: "nat \<Rightarrow> word32 \<Rightarrow> word32 \<Rightarrow> word32 \<Rightarrow> word32" where
  "sha1F t x y z =
    (if t < 20 then (x AND y) XOR (NOT x AND z)
     else if 40 \<le> t \<and> t < 60 then (x AND y) XOR (x AND z) XOR (y AND z)
     else x XOR y XOR z)"

definition sha1K :: "nat \<Rightarrow> word32" where
  "sha1K t = (if t < 20 then 0x5a827999 else if t < 40 then 0x6ed9eba1
              else if t < 60 then 0x8f1bbcdc else 0xca62c1d6)"

primrec refRounds :: "(nat \<Rightarrow> word32) \<Rightarrow> regs \<Rightarrow> nat \<Rightarrow> regs" where
  "refRounds W r 0 = r"
| "refRounds W r (Suc t) = (case refRounds W r t of (a, b, c, d, e) \<Rightarrow>
     (word_rotl 5 a + sha1F t b c d + e + sha1K t + W t, a, word_rotl 30 b, c, d))"

definition refCompress :: "regs \<Rightarrow> bytes \<Rightarrow> regs" where
  "refCompress h blk =
    (let (a, b, c, d, e) = refRounds (schedule (\<lambda>t. readUInt32BE blk (4 * t))) h 80 in
     case h of (h0, h1, h2, h3, h4) \<Rightarrow> (h0 + a, h1 + b, h2 + c, h3 + d, h4 + e))"

definition sha1Init :: regs where
  "sha1Init = (0x67452301, 0xefcdab89, 0x98badcfe, 0x10325476, 0xc3d2e1f0)"

function refState :: "regs \<Rightarrow> bytes \<Rightarrow> regs" where
  "refState h m = (if length m < 64 then h else refState (refCompress h (take 64 m)) (drop 64 m))"
  by pat_completeness auto
termination by (relation "measure (\<lambda>(_, m). length m)") auto

declare refState.simps [simp del]

definition regsLE :: "regs \<Rightarrow> bytes" where
  "regsLE h = (case h of (a, b, c, d, e) \<Rightarrow> uint32LE a @ uint32LE b @ uint32LE c @ uint32LE d @ uint32LE e)"

section \<open>The compression function is the reference\<close>

lemma rotl32: "n < 32 \<Longrightarrow> push_bit n v OR drop_bit (32 - n) v = word_rotl n (v :: word32)"
proof (rule bit_word_eqI)
  fix i :: nat
  assume n: "n < 32" and "i < LENGTH(32)"
  then have i: "i < 32" by simp
  show "bit (push_bit n v OR drop_bit (32 - n) v) i \<longleftrightarrow> bit (word_rotl n v) i"
  proof (cases "n \<le> i")
    case True
    then have "\<not> bit v (32 - n + i)" by (auto dest: bit_imp_le_length)
    moreover have "(i + (32 - n)) mod 32 = i - n"
      using True n i by (simp add: mod_if)
    ultimately show ?thesis using True n i by (simp add: bit_simps)
  next
    case False
    then have lhs: "bit (push_bit n v OR drop_bit (32 - n) v) i \<longleftrightarrow> bit v (32 - n + i)"
      by (simp add: bit_simps)
    from False n i have "(i + (32 - n)) mod 32 = 32 - n + i" by simp
    then show ?thesis unfolding lhs using n i by (simp only: bit_word_rotl_iff) simp
  qed
qed

lemma sha1F_code:
  "(if i < 20 then (b AND c) OR (NOT b AND d) else if i < 40 then b XOR c XOR d
    else if i < 60 then (b AND c) OR (b AND d) OR (c AND d) else b XOR c XOR d) = sha1F i b c d"
proof -
  have "(b AND c) OR (NOT b AND d) = (b AND c) XOR (NOT b AND d)"
    and "(b AND c) OR (b AND d) OR (c AND d) = (b AND c) XOR (b AND d) XOR (c AND d)" for b c d :: word32
    by (rule bit_word_eqI; auto simp: bit_simps)+
  then show ?thesis by (auto simp: sha1F_def)
qed

lemma roundStep_ref:
  "roundStep words (a, b, c, d, e) i =
   (word_rotl 5 a + sha1F i b c d + e + sha1K i + words ! i, a, word_rotl 30 b, c, d)"
  using rotl32 [of 5] rotl32 [of 30] by (simp add: roundStep_def sha1F_code sha1K_def Let_def)

lemma rounds_ref:
  "\<forall>t<n. words ! t = W t \<Longrightarrow> foldl (roundStep words) r [0..<n] = refRounds W r n"
proof (induction n)
  case (Suc n)
  obtain a b c d e where r: "refRounds W r n = (a, b, c, d, e)" by (cases "refRounds W r n") auto
  with Suc have "foldl (roundStep words) r [0..<n] = (a, b, c, d, e)" by simp
  with r Suc.prems show ?case by (simp add: roundStep_ref)
qed simp

lemma fillWords_length [simp]: "length (fillWords input p words) = length words"
proof -
  have "length (foldl (\<lambda>w i. w[i := f i]) w is) = length w" for f :: "nat \<Rightarrow> word32" and w "is"
    by (induction "is" arbitrary: w) auto
  then show ?thesis by (simp add: fillWords_def)
qed

lemma fillWords_nth:
  assumes "length words = 80" and "t < 16"
  shows "fillWords input p words ! t = readUInt32BE input (p + t * 4)"
proof -
  have "n \<le> 16 \<Longrightarrow> t < n \<Longrightarrow> length w = 80 \<Longrightarrow>
      foldl (\<lambda>w i. w[i := f i]) w [0..<n] ! t = f t" for f :: "nat \<Rightarrow> word32" and w n
  proof (induction n)
    case (Suc n)
    have "length (foldl (\<lambda>w i. w[i := f i]) w is) = length w" for "is" w
      by (induction "is" arbitrary: w) auto
    with Suc show ?case by (cases "t = n") (auto simp: nth_list_update)
  qed simp
  from this [of 16 words] assms show ?thesis by (simp add: fillWords_def del: upt_rec_numeral)
qed

lemma extend_ref:
  assumes "length words = 80" and "\<forall>t<16. words ! t = M t"
  shows "\<forall>t<80. extendWords words ! t = schedule M t"
proof -
  have main: "length (foldl extendStep words [16..<16 + n]) = 80 \<and>
      (\<forall>t<16 + n. foldl extendStep words [16..<16 + n] ! t = schedule M t)" if "n \<le> 64" for n
    using that
  proof (induction n)
    case 0
    then show ?case using assms by (simp add: schedule.simps)
  next
    case (Suc n)
    let ?w = "foldl extendStep words [16..<16 + n]"
    have IH: "length ?w = 80" "\<forall>t<16 + n. ?w ! t = schedule M t" using Suc by auto
    have "extendStep ?w (16 + n) = ?w[16 + n := schedule M (16 + n)]"
      using IH(2) rotl32 [of 1] by (simp add: extendStep_def schedule.simps [of M "16 + n"] Let_def)
    moreover have "[16..<16 + Suc n] = [16..<16 + n] @ [16 + n]"
      using upt_Suc_append [of 16 "16 + n"] by (simp only: add_Suc_right le_add1)
    then have "foldl extendStep words [16..<16 + Suc n] = extendStep ?w (16 + n)" by simp
    ultimately show ?case using IH Suc.prems by (auto simp: nth_list_update less_Suc_eq)
  qed
  have eighty: "(80 :: nat) = 16 + 64" by simp
  show ?thesis unfolding extendWords_def eighty by (rule conjunct2 [OF main [OF order.refl]])
qed

lemma extendWords_length [simp]: "length (extendWords words) = length words"
proof -
  have "length (foldl extendStep w is) = length w" for w "is"
    by (induction "is" arbitrary: w) (auto simp: extendStep_def Let_def)
  then show ?thesis unfolding extendWords_def by this
qed

definition regsOf :: "sha1 \<Rightarrow> regs" where
  "regsOf s = (let st = sh_state s in (st ! 0, st ! 1, st ! 2, st ! 3, st ! 4))"

definition sha1_wf :: "sha1 \<Rightarrow> bool" where
  "sha1_wf s \<longleftrightarrow> length (sh_state s) = 5 \<and> length (sh_words s) = 80 \<and> length (sh_block s) = 64 \<and>
     sh_blockLength s < 64"

lemma readUInt32BE_slice:
  "p + 64 \<le> length input \<Longrightarrow> t < 16 \<Longrightarrow> readUInt32BE input (p + t * 4) = readUInt32BE (take 64 (drop p input)) (4 * t)"
  by (simp add: readUInt32BE_def mult.commute add.assoc)

lemma schedule_cong: "\<forall>t<16. M t = M' t \<Longrightarrow> schedule M t = schedule M' t"
proof (induction t rule: less_induct)
  case (less t)
  then show ?case by (simp add: schedule.simps [of M t] schedule.simps [of M' t])
qed

lemma refRounds_cong: "\<forall>t<n. W t = W' t \<Longrightarrow> refRounds W r n = refRounds W' r n"
  by (induction n) auto

lemma compress_ref:
  assumes "length (sh_state s) = 5" and "length (sh_words s) = 80" and "p + 64 \<le> length input"
  shows "regsOf (compress input p s) = refCompress (regsOf s) (take 64 (drop p input))"
    and "length (sh_state (compress input p s)) = 5" and "length (sh_words (compress input p s)) = 80"
    and "sh_block (compress input p s) = sh_block s" and "sh_blockLength (compress input p s) = sh_blockLength s"
proof -
  let ?M = "\<lambda>t. readUInt32BE (take 64 (drop p input)) (4 * t)"
  let ?words = "extendWords (fillWords input p (sh_words s))"
  have "\<forall>t<16. fillWords input p (sh_words s) ! t = ?M t"
    using assms by (simp add: fillWords_nth readUInt32BE_slice)
  then have "\<forall>t<80. ?words ! t = schedule ?M t" using assms by (intro extend_ref) simp_all
  then have rounds: "foldl (roundStep ?words) r [0..<80] = refRounds (schedule ?M) r 80" for r
    by (rule rounds_ref)
  show "regsOf (compress input p s) = refCompress (regsOf s) (take 64 (drop p input))"
    unfolding compress_def refCompress_def regsOf_def Let_def rounds
    by (simp split: prod.splits)
qed (use assms in \<open>simp_all add: compress_def Let_def split: prod.splits\<close>)

section \<open>Chunks\<close>

text \<open>The bytes of \<open>m\<close> after its last whole block, and what an object has absorbed so far.\<close>

definition tail64 :: "bytes \<Rightarrow> bytes" where
  "tail64 m = drop (64 * (length m div 64)) m"

definition pending :: "sha1 \<Rightarrow> bytes" where
  "pending s = take (sh_blockLength s) (sh_block s)"

lemma tail64_rec: "tail64 m = (if length m < 64 then m else tail64 (drop 64 m))"
proof (cases "length m < 64")
  case False
  then have "length m div 64 = Suc ((length m - 64) div 64)" by (simp add: le_div_geq)
  with False show ?thesis by (simp add: tail64_def add.commute)
qed (simp add: tail64_def)

lemma tail64_short: "length m < 64 \<Longrightarrow> tail64 m = m"
  by (simp add: tail64_def)

lemma length_tail64: "length (tail64 m) = length m mod 64"
  by (simp add: tail64_def minus_mult_div_eq_mod)

lemma refState_short: "length m < 64 \<Longrightarrow> refState h m = h"
  by (simp add: refState.simps)

lemma refState_long: "64 \<le> length m \<Longrightarrow> refState h m = refState (refCompress h (take 64 m)) (drop 64 m)"
  by (subst refState.simps) simp

lemma refState_append: "refState h (m @ x) = refState (refState h m) (tail64 m @ x)"
proof (induction h m rule: refState.induct)
  case (1 h m)
  show ?case
  proof (cases "length m < 64")
    case True
    then show ?thesis by (simp add: refState_short tail64_rec)
  next
    case False
    then show ?thesis using 1 [OF False] tail64_rec [of m] by (simp add: refState_long)
  qed
qed

lemma tail64_append: "tail64 (m @ x) = tail64 (tail64 m @ x)"
proof (induction "length m" arbitrary: m rule: less_induct)
  case less
  show ?case
  proof (cases "length m < 64")
    case True
    then show ?thesis by (simp add: tail64_rec [of m])
  next
    case False
    then show ?thesis using less [of "drop 64 m"] tail64_rec [of m] tail64_rec [of "m @ x"] by simp
  qed
qed

lemma compressLoop_ok:
  "length (sh_state s) = 5 \<Longrightarrow> length (sh_words s) = 80 \<Longrightarrow> p \<le> length input \<Longrightarrow>
   compressLoop input p s = (s', q) \<Longrightarrow>
   regsOf s' = refState (regsOf s) (drop p input) \<and> drop q input = tail64 (drop p input) \<and> q \<le> length input \<and>
   length (sh_state s') = 5 \<and> length (sh_words s') = 80 \<and> sh_block s' = sh_block s \<and>
   sh_blockLength s' = sh_blockLength s"
proof (induction input p s rule: compressLoop.induct)
  case (1 input p s)
  show ?case
  proof (cases "p + 64 \<le> length input")
    case True
    note c = compress_ref [OF "1.prems"(1,2) True]
    have "regsOf s' = refState (regsOf (compress input p s)) (drop (p + 64) input) \<and>
        drop q input = tail64 (drop (p + 64) input) \<and> q \<le> length input \<and>
        length (sh_state s') = 5 \<and> length (sh_words s') = 80 \<and> sh_block s' = sh_block (compress input p s) \<and>
        sh_blockLength s' = sh_blockLength (compress input p s)"
      using "1.prems"(4) True c by (intro "1.IH") (simp_all add: compressLoop.simps [of input p s])
    moreover have "drop 64 (drop p input) = drop (p + 64) input" by (simp add: add.commute)
    moreover have "64 \<le> length (drop p input)" using True by simp
    ultimately show ?thesis
      using c refState_long [of "drop p input" "regsOf s"] tail64_rec [of "drop p input"] by simp
  next
    case False
    then show ?thesis
      using "1.prems" by (auto simp: compressLoop.simps [of input p s] refState_short tail64_short)
  qed
qed

lemma length_setAt: "p + length x \<le> length t \<Longrightarrow> length (setAt t x p) = length t"
  by (simp add: setAt_def)

lemma setAt_0: "take (length x) (setAt t x 0) = x"
  by (simp add: setAt_def)

lemma regsOf_update [simp]:
  "regsOf (s\<lparr>sh_block := b\<rparr>) = regsOf s" "regsOf (s\<lparr>sh_blockLength := n\<rparr>) = regsOf s"
  by (simp_all add: regsOf_def)

lemma updateBlocks_ok:
  assumes "length (sh_state s) = 5" "length (sh_words s) = 80" "length (sh_block s) = 64"
    and "sh_blockLength s = 0" and "p \<le> length input"
  shows "sha1_wf (updateBlocks input p s) \<and> regsOf (updateBlocks input p s) = refState (regsOf s) (drop p input) \<and>
    pending (updateBlocks input p s) = tail64 (drop p input)"
proof -
  obtain s' q where loop: "compressLoop input p s = (s', q)" by (cases "compressLoop input p s") auto
  note ok = compressLoop_ok [OF assms(1,2,5) loop]
  have len: "length input - q < 64"
    using ok length_tail64 [of "drop p input"] by (metis length_drop mod_less_divisor zero_less_numeral)
  show ?thesis
  proof (cases "q < length input")
    case True
    let ?t = "drop q input"
    have "updateBlocks input p s = s'\<lparr>sh_block := setAt (sh_block s') ?t 0, sh_blockLength := length ?t\<rparr>"
      using True loop by (simp add: updateBlocks_def)
    moreover have "length (setAt (sh_block s') ?t 0) = 64"
      using length_setAt [of 0 ?t "sh_block s'"] len assms(3) ok by (metis add_0 length_drop less_imp_le)
    ultimately show ?thesis
      using ok setAt_0 [of ?t "sh_block s'"] by (simp add: sha1_wf_def pending_def length_tail64)
  next
    case False
    then show ?thesis using ok assms(3,4) loop by (simp add: updateBlocks_def sha1_wf_def pending_def)
  qed
qed

lemma sha1Update_ok:
  assumes "sha1_wf s"
  shows "sha1_wf (sha1Update s input) \<and> regsOf (sha1Update s input) = refState (regsOf s) (pending s @ input) \<and>
    pending (sha1Update s input) = tail64 (pending s @ input)"
proof -
  let ?n = "sh_blockLength s"
  let ?acc = "min (length input) (64 - ?n)"
  let ?s = "s\<lparr>sh_block := setAt (sh_block s) (take ?acc input) ?n, sh_blockLength := ?n + ?acc\<rparr>"
  have wf: "length (sh_state s) = 5" "length (sh_words s) = 80" "length (sh_block s) = 64" "?n < 64"
    using assms by (simp_all add: sha1_wf_def)
  consider (empty) "?n = 0" | (short) "?n \<noteq> 0" "?n + ?acc < 64" | (full) "?n \<noteq> 0" "\<not> ?n + ?acc < 64" by blast
  then show ?thesis
  proof cases
    case empty
    then show ?thesis using updateBlocks_ok [OF wf(1-3) empty, of 0 input] by (simp add: sha1Update_def pending_def)
  next
    case short
    then have "?acc = length input" by simp
    with short have "sha1Update s input = ?s" and "pending ?s = pending s @ input"
      using wf by (simp_all add: sha1Update_def Let_def pending_def setAt_def)
    moreover from short wf have "length (pending s @ input) < 64" by (simp add: pending_def)
    ultimately show ?thesis using short wf \<open>?acc = length input\<close>
      by (simp add: sha1_wf_def length_setAt refState_short tail64_rec regsOf_def)
  next
    case full
    then have acc: "?acc = 64 - ?n" and len: "64 - ?n \<le> length input" using wf by auto
    define s1 where "s1 = ?s"
    define B where "B = take 64 (pending s @ input)"
    have s1: "sh_state s1 = sh_state s" "sh_words s1 = sh_words s" "regsOf s1 = regsOf s" "sh_block s1 = B"
      using wf acc len by (simp_all add: s1_def B_def pending_def setAt_def)
    have B: "length B = 64" using wf len by (simp add: B_def pending_def)
    define s2 where "s2 = (compress B 0 s1)\<lparr>sh_blockLength := 0\<rparr>"
    have "regsOf (compress B 0 s1) = refCompress (regsOf s1) B" "length (sh_state (compress B 0 s1)) = 5"
      "length (sh_words (compress B 0 s1)) = 80" "sh_block (compress B 0 s1) = sh_block s1"
      using compress_ref [of s1 0 B] wf s1 B by simp_all
    then have s2: "regsOf s2 = refCompress (regsOf s) B" "length (sh_state s2) = 5" "length (sh_words s2) = 80"
      "length (sh_block s2) = 64" "sh_blockLength s2 = 0"
      using s1 B by (simp_all add: s2_def)
    have upd: "sha1Update s input = updateBlocks input (64 - ?n) s2"
      unfolding s2_def s1(4) [symmetric] using full acc by (simp add: sha1Update_def Let_def s1_def)
    have "drop 64 (pending s @ input) = drop (64 - ?n) input" "64 \<le> length (pending s @ input)"
      using wf len by (simp_all add: pending_def)
    with updateBlocks_ok [OF s2(2-5) len] show ?thesis
      unfolding upd s2(1) B_def
      using refState_long [of "pending s @ input" "regsOf s"] tail64_rec [of "pending s @ input"] by simp
  qed
qed

lemma sha1_chunks:
  "sha1_wf s \<Longrightarrow> regsOf (foldl sha1Update s chunks) = refState (regsOf s) (pending s @ concat chunks) \<and>
   sha1_wf (foldl sha1Update s chunks) \<and> pending (foldl sha1Update s chunks) = tail64 (pending s @ concat chunks)"
proof (induction chunks arbitrary: s)
  case Nil
  then have "length (pending s) < 64" by (simp add: pending_def sha1_wf_def)
  with Nil show ?case by (simp add: refState_short tail64_rec)
next
  case (Cons x chunks)
  note x = sha1Update_ok [OF Cons.prems, of x]
  then have "regsOf (foldl sha1Update (sha1Update s x) chunks) =
      refState (refState (regsOf s) (pending s @ x)) (tail64 (pending s @ x) @ concat chunks) \<and>
      sha1_wf (foldl sha1Update (sha1Update s x) chunks) \<and>
      pending (foldl sha1Update (sha1Update s x) chunks) = tail64 (tail64 (pending s @ x) @ concat chunks)"
    using Cons.IH [of "sha1Update s x"] by simp
  then show ?case
    using refState_append [of "regsOf s" "pending s @ x" "concat chunks"]
      tail64_append [of "pending s @ x" "concat chunks"] by simp
qed

section \<open>Property\<close>

text \<open>
  C15. The checkpoint exported after any sequence of chunks is the chaining state of FIPS 180-4
  SHA-1 for the concatenated bytes, little-endian, independent of how they were cut; it is
  refused exactly when the bytes do not end at a 64-byte block.
\<close>

theorem sha1_checkpoint_is_reference_state:
  "stateLittleEndian (foldl sha1Update newSha1 chunks) =
    (if length (concat chunks) mod 64 = 0 then Inr (regsLE (refState sha1Init (concat chunks)))
     else Inl Sha1NotAligned)"
proof -
  let ?s = "foldl sha1Update newSha1 chunks"
  have "sha1_wf newSha1" "pending newSha1 = []" "regsOf newSha1 = sha1Init"
    by (simp_all add: sha1_wf_def newSha1_def pending_def regsOf_def sha1Init_def)
  with sha1_chunks [of newSha1 chunks]
  have s: "regsOf ?s = refState sha1Init (concat chunks)" "sha1_wf ?s" "pending ?s = tail64 (concat chunks)" by simp_all
  have "sh_blockLength ?s = length (pending ?s)" using s(2) by (simp add: pending_def sha1_wf_def)
  then have "sh_blockLength ?s = length (concat chunks) mod 64" unfolding s(3) length_tail64 .
  moreover have "foldl (\<lambda>out i. out @ uint32LE (sh_state ?s ! i)) [] [0..<5] = regsLE (regsOf ?s)"
    by (simp add: regsLE_def regsOf_def Let_def upt_conv_Cons numeral_2_eq_2 numeral_3_eq_3 eval_nat_numeral)
  ultimately show ?thesis by (simp add: stateLittleEndian_def s(1))
qed

end
