(* ===== verification/Login_Tokens.thy ===== *)
theory Login_Tokens
  imports Js_Map
begin

text \<open>
  Short-lived credentials of the bridge.

  \<^item> \<open>packages/bridge/src/login-token.ts\<close>: QR login tokens. A client's auth key is issued a
    token, the administration approves it with an identity, and the client claims the identity
    once; a claim is committed when the authorization is stored and rolled back when that
    fails. The store keeps three indexes beside its entries.
  \<^item> \<open>packages/bridge/src/auth-transfer.ts\<close>: one-shot tickets for a second data centre.

  The clock is the argument \<open>now\<close> of each operation (milliseconds, one reading per call); it may
  jump in either direction. Random bytes are arguments. A method that returns a value and
  changes the store returns the pair. An optional string is an \<open>option\<close>; where the code tests
  it for truth, \<open>truthy\<close> drops the empty string.
\<close>

section \<open>State\<close>

record ltIdentity =
  li_platformId :: string
  li_platformSessionId :: string

record ltClaim =
  lc_identity :: ltIdentity
  lc_token :: string
  lc_authKeyId :: string

record ltEntry =
  le_authKeyId :: string
  le_expiresAt :: int
  le_identity :: "ltIdentity option"
  le_claimed :: bool
  le_source :: "string option"

datatype ltError = LoginTokenStoreFull | LoginTokenSourceLimit

record ltConfig =
  ltc_ttlMs :: int
  ltc_maxEntries :: nat
  ltc_maxEntriesPerSource :: nat

record ltStore =
  lt_entries :: "(string, ltEntry) jsmap"
  lt_tokenByAuthKey :: "(string, string) jsmap"
  lt_approvedByAuthKey :: "(string, string) jsmap"
  lt_tokensBySource :: "(string, string list) jsmap"
  lt_nextCleanupAt :: int

definition newLoginTokenStore :: ltStore where
  "newLoginTokenStore = \<lparr>lt_entries = [], lt_tokenByAuthKey = [], lt_approvedByAuthKey = [],
     lt_tokensBySource = [], lt_nextCleanupAt = 0\<rparr>"

definition defaultLoginTokenConfig :: ltConfig where
  "defaultLoginTokenConfig = \<lparr>ltc_ttlMs = 60000, ltc_maxEntries = 1024, ltc_maxEntriesPerSource = 64\<rparr>"

definition truthy :: "string option \<Rightarrow> string option" where
  "truthy x = (case x of Some s \<Rightarrow> if s = [] then None else Some s | None \<Rightarrow> None)"

definition tokenKey :: "bytes \<Rightarrow> string" where
  "tokenKey token = toHex token"

section \<open>Operations\<close>

text \<open>\<open>if (map.get(key) === token) map.delete(key)\<close>\<close>

definition dropIndex :: "string \<Rightarrow> string \<Rightarrow> (string, string) jsmap \<Rightarrow> (string, string) jsmap" where
  "dropIndex key token m = (if js_get m key = Some token then js_delete key m else m)"

definition dropSource :: "string option \<Rightarrow> string \<Rightarrow> (string, string list) jsmap \<Rightarrow> (string, string list) jsmap" where
  "dropSource src token m =
    (case truthy src of
       None \<Rightarrow> m
     | Some source \<Rightarrow>
         (case js_get m source of
            None \<Rightarrow> js_delete source m
          | Some tokens \<Rightarrow>
              let tokens' = filter (\<lambda>t. t \<noteq> token) tokens in
              if tokens' = [] then js_delete source m else js_set source tokens' m))"

definition ltDelete :: "string \<Rightarrow> ltStore \<Rightarrow> ltStore" where
  "ltDelete token s =
    (case js_get (lt_entries s) token of
       None \<Rightarrow> s
     | Some entry \<Rightarrow>
         s\<lparr>lt_entries := js_delete token (lt_entries s),
           lt_tokenByAuthKey := dropIndex (le_authKeyId entry) token (lt_tokenByAuthKey s),
           lt_approvedByAuthKey := dropIndex (le_authKeyId entry) token (lt_approvedByAuthKey s),
           lt_tokensBySource := dropSource (le_source entry) token (lt_tokensBySource s)\<rparr>)"

definition ltGet :: "int \<Rightarrow> string \<Rightarrow> ltStore \<Rightarrow> ltEntry option \<times> ltStore" where
  "ltGet now key s =
    (case js_get (lt_entries s) key of
       None \<Rightarrow> (None, s)
     | Some entry \<Rightarrow> if le_expiresAt entry \<le> now then (None, ltDelete key s) else (Some entry, s))"

definition ltExpire :: "int \<Rightarrow> ltStore \<Rightarrow> ltStore" where
  "ltExpire now s =
    foldl (\<lambda>s (key, entry). if le_expiresAt entry \<le> now then ltDelete key s else s) s (lt_entries s)"

definition cleanupIfDue :: "ltConfig \<Rightarrow> int \<Rightarrow> ltStore \<Rightarrow> ltStore" where
  "cleanupIfDue cfg now s =
    (if now < lt_nextCleanupAt s then s
     else (ltExpire now s)\<lparr>lt_nextCleanupAt := now + min (ltc_ttlMs cfg) 10000\<rparr>)"

definition ltEvictOldest :: "ltStore \<Rightarrow> bool \<times> ltStore" where
  "ltEvictOldest s =
    (case find (\<lambda>(_, entry). le_identity entry = None \<and> \<not> le_claimed entry) (lt_entries s) of
       Some (token, _) \<Rightarrow> (True, ltDelete token s)
     | None \<Rightarrow> (False, s))"

text \<open>The end of \<open>issue\<close>, from \<open>if (previous) this.delete(previous)\<close> on.\<close>

definition ltInsert ::
    "ltConfig \<Rightarrow> int \<Rightarrow> string \<Rightarrow> string \<Rightarrow> string option \<Rightarrow> string option \<Rightarrow> ltStore \<Rightarrow> ltStore" where
  "ltInsert cfg now authKey key previous source s0 =
    (let s = (case previous of Some p \<Rightarrow> ltDelete p s0 | None \<Rightarrow> s0);
         expiresAt = (now + ltc_ttlMs cfg) div 1000 * 1000;
         entry = \<lparr>le_authKeyId = authKey, le_expiresAt = expiresAt, le_identity = None,
                  le_claimed = False, le_source = source\<rparr>
     in s\<lparr>lt_entries := js_set key entry (lt_entries s),
          lt_tokenByAuthKey := js_set authKey key (lt_tokenByAuthKey s),
          lt_tokensBySource :=
            (case truthy source of
               None \<Rightarrow> lt_tokensBySource s
             | Some src \<Rightarrow>
                 js_set src (setAdd key (case js_get (lt_tokensBySource s) src of Some ts \<Rightarrow> ts | None \<Rightarrow> []))
                   (lt_tokensBySource s))\<rparr>)"

definition ltIssue ::
    "ltConfig \<Rightarrow> int \<Rightarrow> bytes \<Rightarrow> bytes \<Rightarrow> string option \<Rightarrow> ltStore \<Rightarrow> (ltError + bytes) \<times> ltStore" where
  "ltIssue cfg now authKeyId token source s0 =
    (let s1 = cleanupIfDue cfg now s0;
         authKey = tokenKey authKeyId;
         previous = truthy (js_get (lt_tokenByAuthKey s1) authKey);
         (previousEntry, s) = (case previous of Some p \<Rightarrow> ltGet now p s1 | None \<Rightarrow> (None, s1));
         key = tokenKey token
     in if (case previousEntry of Some e \<Rightarrow> le_identity e \<noteq> None \<or> le_claimed e | None \<Rightarrow> False)
        then (Inl LoginTokenStoreFull, s)
        else if Some key \<noteq> previous \<and> js_has (lt_entries s) key then (Inl LoginTokenStoreFull, s)
        else if (case truthy source of
                   None \<Rightarrow> False
                 | Some src \<Rightarrow>
                     (case js_get (lt_tokensBySource s) src of Some ts \<Rightarrow> length ts | None \<Rightarrow> 0)
                       \<ge> ltc_maxEntriesPerSource cfg \<and>
                     (case previousEntry of Some e \<Rightarrow> le_source e | None \<Rightarrow> None) \<noteq> source)
        then (Inl LoginTokenSourceLimit, s)
        else if previousEntry = None \<and> length (lt_entries s) \<ge> ltc_maxEntries cfg
        then (case ltEvictOldest s of
                (True, s') \<Rightarrow> (Inr token, ltInsert cfg now authKey key previous source s')
              | (False, s') \<Rightarrow> (Inl LoginTokenStoreFull, s'))
        else (Inr token, ltInsert cfg now authKey key previous source s))"

definition ltApprove :: "int \<Rightarrow> bytes \<Rightarrow> ltIdentity \<Rightarrow> ltStore \<Rightarrow> bytes option \<times> ltStore" where
  "ltApprove now token identity s0 =
    (let key = tokenKey token in
     case ltGet now key s0 of
       (None, s) \<Rightarrow> (None, s)
     | (Some entry, s) \<Rightarrow>
         if le_identity entry \<noteq> None \<or> le_claimed entry then (None, s)
         else (Some (fromHex (le_authKeyId entry)),
           s\<lparr>lt_entries := js_set key (entry\<lparr>le_identity := Some identity\<rparr>) (lt_entries s),
             lt_approvedByAuthKey := js_set (le_authKeyId entry) key (lt_approvedByAuthKey s)\<rparr>))"

definition ltExpiresAt :: "int \<Rightarrow> bytes \<Rightarrow> ltStore \<Rightarrow> int option \<times> ltStore" where
  "ltExpiresAt now token s =
    (case ltGet now (tokenKey token) s of (e, s') \<Rightarrow> (map_option le_expiresAt e, s'))"

definition ltClaimEntry :: "int \<Rightarrow> string \<Rightarrow> string \<Rightarrow> ltStore \<Rightarrow> ltClaim option \<times> ltStore" where
  "ltClaimEntry now token authKeyId s0 =
    (case ltGet now token s0 of
       (None, s) \<Rightarrow> (None, s)
     | (Some entry, s) \<Rightarrow>
         (case le_identity entry of
            None \<Rightarrow> (None, s)
          | Some identity \<Rightarrow>
              if le_authKeyId entry \<noteq> authKeyId \<or> le_claimed entry then (None, s)
              else (Some \<lparr>lc_identity = identity, lc_token = token, lc_authKeyId = authKeyId\<rparr>,
                    s\<lparr>lt_entries := js_set token (entry\<lparr>le_claimed := True\<rparr>) (lt_entries s)\<rparr>)))"

definition ltClaimToken :: "int \<Rightarrow> bytes \<Rightarrow> bytes \<Rightarrow> ltStore \<Rightarrow> ltClaim option \<times> ltStore" where
  "ltClaimToken now token authKeyId s = ltClaimEntry now (tokenKey token) (tokenKey authKeyId) s"

definition ltClaimApproved :: "int \<Rightarrow> bytes \<Rightarrow> ltStore \<Rightarrow> ltClaim option \<times> ltStore" where
  "ltClaimApproved now authKeyId s =
    (let key = tokenKey authKeyId in
     case truthy (js_get (lt_approvedByAuthKey s) key) of
       None \<Rightarrow> (None, s)
     | Some token \<Rightarrow> ltClaimEntry now token key s)"

definition ltCommit :: "ltClaim \<Rightarrow> ltStore \<Rightarrow> ltStore" where
  "ltCommit claim s =
    (case js_get (lt_entries s) (lc_token claim) of
       None \<Rightarrow> s
     | Some entry \<Rightarrow>
         if le_claimed entry \<and> le_authKeyId entry = lc_authKeyId claim then ltDelete (lc_token claim) s else s)"

definition ltRollback :: "ltClaim \<Rightarrow> ltStore \<Rightarrow> ltStore" where
  "ltRollback claim s =
    (case js_get (lt_entries s) (lc_token claim) of
       None \<Rightarrow> s
     | Some entry \<Rightarrow>
         if le_claimed entry \<and> le_authKeyId entry = lc_authKeyId claim
         then s\<lparr>lt_entries := js_set (lc_token claim) (entry\<lparr>le_claimed := False\<rparr>) (lt_entries s)\<rparr>
         else s)"

section \<open>The handlers\<close>

text \<open>
  \<open>auth.exportLoginToken\<close> and \<open>auth.importLoginToken\<close> of \<open>packages/bridge/src/index.ts\<close>, up to and
  from their \<open>await authorizePlatformSession\<close>, which is code of another component: \<open>Authorize\<close>
  is the claim it is awaited with, and \<open>finishAuthorization\<close> what follows, with its outcome.
\<close>

datatype ltReply = Authorize ltClaim | LoginTokenReply int bytes | LoginRpcError int string

definition exportLoginToken ::
    "ltConfig \<Rightarrow> int \<Rightarrow> bytes option \<Rightarrow> bytes \<Rightarrow> string option \<Rightarrow> ltStore \<Rightarrow> ltReply \<times> ltStore" where
  "exportLoginToken cfg now authKeyId random remoteAddress s =
    (case authKeyId of
       None \<Rightarrow> (LoginRpcError 401 ''AUTH_KEY_UNREGISTERED'', s)
     | Some a \<Rightarrow>
         (case ltClaimApproved now a s of
            (Some claim, s1) \<Rightarrow> (Authorize claim, s1)
          | (None, s1) \<Rightarrow>
              (case ltIssue cfg now a random remoteAddress s1 of
                 (Inl LoginTokenSourceLimit, s2) \<Rightarrow> (LoginRpcError 420 ''FLOOD_WAIT_60'', s2)
               | (Inl LoginTokenStoreFull, s2) \<Rightarrow> (LoginRpcError 500 ''AUTH_TOKEN_RETRY'', s2)
               | (Inr token, s2) \<Rightarrow>
                   (case ltExpiresAt now token s2 of
                      (None, s3) \<Rightarrow> (LoginRpcError 500 ''AUTH_TOKEN_RETRY'', s3)
                    | (Some expiresAt, s3) \<Rightarrow>
                        if expiresAt = 0 then (LoginRpcError 500 ''AUTH_TOKEN_RETRY'', s3)
                        else (LoginTokenReply (expiresAt div 1000) token, s3)))))"

definition importLoginToken :: "int \<Rightarrow> bytes option \<Rightarrow> bytes \<Rightarrow> ltStore \<Rightarrow> ltReply \<times> ltStore" where
  "importLoginToken now authKeyId token s =
    (case authKeyId of
       None \<Rightarrow> (LoginRpcError 401 ''AUTH_KEY_UNREGISTERED'', s)
     | Some a \<Rightarrow>
         (case ltClaimToken now token a s of
            (None, s1) \<Rightarrow> (LoginRpcError 400 ''AUTH_TOKEN_INVALID'', s1)
          | (Some claim, s1) \<Rightarrow> (Authorize claim, s1)))"

definition finishAuthorization :: "bool \<Rightarrow> ltClaim \<Rightarrow> ltStore \<Rightarrow> ltStore" where
  "finishAuthorization succeeded claim s = (if succeeded then ltCommit claim s else ltRollback claim s)"

section \<open>Transfer tickets\<close>

record transferEntry =
  te_identity :: ltIdentity
  te_bytes :: bytes
  te_targetDcId :: int
  te_expiresAt :: int

definition equalBytes :: "bytes \<Rightarrow> bytes \<Rightarrow> bool" where
  "equalBytes expected actual \<longleftrightarrow> length expected = length actual \<and> expected = actual"

definition transferPrune :: "int \<Rightarrow> (string, transferEntry) jsmap \<Rightarrow> (string, transferEntry) jsmap" where
  "transferPrune now m = foldl (\<lambda>m' (key, entry). if te_expiresAt entry \<le> now then js_delete key m' else m') m m"

text \<open>The loop that draws ids until one is unused; \<open>ids\<close> are the random draws, \<open>None\<close> when
  they are all taken.\<close>

fun freshId :: "Long list \<Rightarrow> (string, transferEntry) jsmap \<Rightarrow> Long option" where
  "freshId [] m = None"
| "freshId (x # xs) m = (if js_has m (longString x) then freshId xs m else Some x)"

definition transferIssue ::
    "int \<Rightarrow> int \<Rightarrow> Long list \<Rightarrow> bytes \<Rightarrow> ltIdentity \<Rightarrow> int \<Rightarrow> (string, transferEntry) jsmap \<Rightarrow>
     ((Long \<times> bytes) \<times> (string, transferEntry) jsmap) option" where
  "transferIssue ttlMs now ids secret identity targetDcId m0 =
    (let m = transferPrune now m0 in
     case freshId ids m of
       None \<Rightarrow> None
     | Some x \<Rightarrow>
         Some ((x, secret),
           js_set (longString x)
             \<lparr>te_identity = identity, te_bytes = secret, te_targetDcId = targetDcId, te_expiresAt = now + ttlMs\<rparr> m))"

definition transferGetValid ::
    "int \<Rightarrow> Long \<Rightarrow> (string, transferEntry) jsmap \<Rightarrow> transferEntry option \<times> (string, transferEntry) jsmap" where
  "transferGetValid now x m =
    (case js_get m (longString x) of
       None \<Rightarrow> (None, m)
     | Some entry \<Rightarrow> if te_expiresAt entry > now then (Some entry, m) else (None, js_delete (longString x) m))"

definition transferTake ::
    "int \<Rightarrow> Long \<Rightarrow> bytes \<Rightarrow> (string, transferEntry) jsmap \<Rightarrow> ltIdentity option \<times> (string, transferEntry) jsmap" where
  "transferTake now x secret m0 =
    (case transferGetValid now x m0 of
       (None, m) \<Rightarrow> (None, m)
     | (Some entry, m) \<Rightarrow>
         if \<not> equalBytes (te_bytes entry) secret then (None, m)
         else (Some (te_identity entry), js_delete (longString x) m))"

end
