(* ===== verification/Login_Tokens_Safety.thy ===== *)
theory Login_Tokens_Safety
  imports Login_Tokens
begin

text \<open>
  What the login tokens guarantee. \<open>lt_inv\<close> says that the three indexes agree with the
  entries and that the limits hold; every operation keeps it. A run of the store carries the
  list of what its operations answered (newest first), from which \<open>lastOwner\<close>, \<open>lastApproval\<close>
  and \<open>claimOpen\<close> read who a token was issued to, what it was approved for and whether its
  identity has been handed out; a claim is compared with that history.
\<close>

section \<open>Invariant\<close>

definition lt_maps :: "ltStore \<Rightarrow> bool" where
  "lt_maps s \<longleftrightarrow> js_inv (lt_entries s) \<and> js_inv (lt_tokenByAuthKey s) \<and> js_inv (lt_approvedByAuthKey s) \<and>
     js_inv (lt_tokensBySource s) \<and> js_get (lt_entries s) [] = None"

definition auth_index :: "ltStore \<Rightarrow> bool" where
  "auth_index s \<longleftrightarrow> (\<forall>a t. js_get (lt_tokenByAuthKey s) a = Some t \<longleftrightarrow>
     (\<exists>e. js_get (lt_entries s) t = Some e \<and> le_authKeyId e = a))"

definition approved_index :: "ltStore \<Rightarrow> bool" where
  "approved_index s \<longleftrightarrow> (\<forall>a t. js_get (lt_approvedByAuthKey s) a = Some t \<longleftrightarrow>
     (\<exists>e. js_get (lt_entries s) t = Some e \<and> le_authKeyId e = a \<and> le_identity e \<noteq> None))"

definition sourceTokens :: "ltStore \<Rightarrow> string \<Rightarrow> string set" where
  "sourceTokens s src = {t. \<exists>e. js_get (lt_entries s) t = Some e \<and> truthy (le_source e) = Some src}"

definition listsSet :: "string list option \<Rightarrow> string set \<Rightarrow> bool" where
  "listsSet ts A \<longleftrightarrow> (case ts of None \<Rightarrow> A = {} | Some xs \<Rightarrow> xs \<noteq> [] \<and> distinct xs \<and> set xs = A)"

definition source_index :: "ltStore \<Rightarrow> bool" where
  "source_index s \<longleftrightarrow> (\<forall>src. listsSet (js_get (lt_tokensBySource s) src) (sourceTokens s src))"

definition claims_ok :: "ltStore \<Rightarrow> bool" where
  "claims_ok s \<longleftrightarrow> (\<forall>t e. js_get (lt_entries s) t = Some e \<and> le_claimed e \<longrightarrow> le_identity e \<noteq> None)"

definition lt_limits :: "ltConfig \<Rightarrow> ltStore \<Rightarrow> bool" where
  "lt_limits cfg s \<longleftrightarrow> length (lt_entries s) \<le> ltc_maxEntries cfg \<and>
     (\<forall>src. card (sourceTokens s src) \<le> ltc_maxEntriesPerSource cfg)"

definition lt_index :: "ltStore \<Rightarrow> bool" where
  "lt_index s \<longleftrightarrow> lt_maps s \<and> auth_index s \<and> approved_index s \<and> source_index s \<and> claims_ok s"

definition lt_inv :: "ltConfig \<Rightarrow> ltStore \<Rightarrow> bool" where
  "lt_inv cfg s \<longleftrightarrow> lt_index s \<and> lt_limits cfg s"

lemmas lt_index_defs = lt_maps_def auth_index_def approved_index_def claims_ok_def

lemma js_get_delete: "js_get (js_delete k m) k' = (if k' = k then None else js_get m k')"
  by (simp add: delete_conv)

lemma js_get_set: "js_get (js_set k v m) k' = (if k' = k then Some v else js_get m k')"
  by (simp add: update_conv)

lemma truthy_Some: "truthy x = Some s \<longleftrightarrow> x = Some s \<and> s \<noteq> []"
  by (auto simp: truthy_def split: option.splits if_splits)

lemma finite_sourceTokens [simp]: "finite (sourceTokens s src)"
proof (rule finite_subset)
  show "sourceTokens s src \<subseteq> fst ` set (lt_entries s)"
    by (auto simp: sourceTokens_def dest: map_of_SomeD intro: rev_image_eqI)
qed simp

subsection \<open>Deleting an entry\<close>

lemma ltDelete_entries:
  "js_inv (lt_entries s) \<Longrightarrow> js_get (lt_entries (ltDelete t s)) = (js_get (lt_entries s))(t := None)"
  by (auto simp: ltDelete_def js_get_delete fun_eq_iff split: option.splits)

lemma dropIndex_get:
  "js_get (dropIndex a t m) b = (if b = a \<and> js_get m a = Some t then None else js_get m b)"
  by (auto simp: dropIndex_def js_get_delete)

lemma dropIndex_char:
  "\<forall>a t. js_get m a = Some t \<longleftrightarrow> Q a t \<Longrightarrow>
   js_get (dropIndex a0 t0 m) a = Some t \<longleftrightarrow> Q a t \<and> \<not> (a = a0 \<and> t = t0)"
  by (auto simp: dropIndex_get) (metis option.inject)+

lemma sourceTokens_delete:
  "js_inv (lt_entries s) \<Longrightarrow> sourceTokens (ltDelete t s) src = sourceTokens s src - {t}"
  by (auto simp: sourceTokens_def ltDelete_entries split: if_splits)

lemma listsSet_nonempty: "listsSet ts A \<Longrightarrow> A \<noteq> {} \<Longrightarrow> \<exists>xs. ts = Some xs \<and> distinct xs \<and> set xs = A"
  by (cases ts) (auto simp: listsSet_def)

lemma listsSet_simps [simp]:
  "listsSet None A \<longleftrightarrow> A = {}" "listsSet (Some xs) A \<longleftrightarrow> xs \<noteq> [] \<and> distinct xs \<and> set xs = A"
  by (simp_all add: listsSet_def)

lemma dropSource_index:
  assumes "source_index s" and "js_get (lt_entries s) t = Some e"
  shows "listsSet (js_get (dropSource (le_source e) t (lt_tokensBySource s)) src) (sourceTokens s src - {t})"
proof (cases "truthy (le_source e) = Some src")
  case True
  with assms(2) have "t \<in> sourceTokens s src" by (auto simp: sourceTokens_def)
  then have "sourceTokens s src \<noteq> {}" by auto
  then obtain ts where "js_get (lt_tokensBySource s) src = Some ts" "distinct ts" "set ts = sourceTokens s src"
    using listsSet_nonempty assms(1) unfolding source_index_def by blast
  with True show ?thesis
    by (auto simp: dropSource_def Let_def js_get_delete js_get_set filter_empty_conv)
next
  case False
  with assms(2) have "t \<notin> sourceTokens s src" by (auto simp: sourceTokens_def)
  then have "sourceTokens s src - {t} = sourceTokens s src" by simp
  moreover from False have "js_get (dropSource (le_source e) t (lt_tokensBySource s)) src = js_get (lt_tokensBySource s) src"
    by (auto simp: dropSource_def Let_def js_get_delete js_get_set split: option.splits)
  ultimately show ?thesis using assms(1) by (simp add: source_index_def)
qed

lemma auth_unique:
  "auth_index s \<Longrightarrow> js_get (lt_entries s) t = Some e \<Longrightarrow> js_get (lt_entries s) t' = Some e' \<Longrightarrow>
   le_authKeyId e = le_authKeyId e' \<Longrightarrow> t = t'"
  unfolding auth_index_def by (metis option.inject)

lemma ltDelete_index:
  assumes "lt_index s"
  shows "lt_index (ltDelete t s)"
proof (cases "js_get (lt_entries s) t")
  case None
  with assms show ?thesis by (simp add: ltDelete_def)
next
  case (Some e)
  have inv: "js_inv (lt_entries s)" using assms by (simp add: lt_index_def lt_maps_def)
  have "js_get (lt_entries (ltDelete t s)) [] = None"
    using assms by (simp add: ltDelete_entries [OF inv] lt_index_def lt_maps_def)
  moreover have "source_index (ltDelete t s)"
    unfolding source_index_def sourceTokens_delete [OF inv]
    using dropSource_index [OF _ Some] assms Some by (simp add: lt_index_def ltDelete_def)
  moreover have "js_inv (dropIndex a t m)" if "js_inv m" for a m using that by (simp add: dropIndex_def)
  moreover have "js_inv (dropSource x t m)" if "js_inv m" for x m
    using that by (auto simp: dropSource_def Let_def split: option.splits)
  ultimately have "lt_maps (ltDelete t s)" "source_index (ltDelete t s)"
    using assms Some by (simp_all add: lt_index_def lt_maps_def ltDelete_def)
  moreover have "claims_ok (ltDelete t s)"
    using assms by (auto simp: lt_index_def claims_ok_def ltDelete_entries [OF inv])
  moreover have "auth_index (ltDelete t s)"
    using dropIndex_char [of "lt_tokenByAuthKey s" "\<lambda>a t. \<exists>e. js_get (lt_entries s) t = Some e \<and> le_authKeyId e = a"] assms Some
    unfolding lt_index_def auth_index_def ltDelete_entries [OF inv] by (simp add: ltDelete_def)
  moreover have "approved_index (ltDelete t s)"
    using dropIndex_char [of "lt_approvedByAuthKey s"
        "\<lambda>a t. \<exists>e. js_get (lt_entries s) t = Some e \<and> le_authKeyId e = a \<and> le_identity e \<noteq> None"] assms Some
    unfolding lt_index_def approved_index_def ltDelete_entries [OF inv] by (simp add: ltDelete_def)
  ultimately show ?thesis by (simp add: lt_index_def)
qed

lemma ltDelete_length: "length (lt_entries (ltDelete t s)) \<le> length (lt_entries s)"
  by (auto simp: ltDelete_def delete_eq_filter split: option.splits)

lemma ltDelete_length_present:
  assumes "js_get (lt_entries s) t = Some e"
  shows "length (lt_entries (ltDelete t s)) < length (lt_entries s)"
proof -
  from assms have "(t, e) \<in> set (lt_entries s)" by (rule map_of_SomeD)
  then show ?thesis using assms by (auto simp: ltDelete_def delete_eq_filter intro: length_filter_less)
qed

lemma ltDelete_inv: "lt_inv cfg s \<Longrightarrow> lt_inv cfg (ltDelete t s)"
proof -
  assume inv: "lt_inv cfg s"
  then have "js_inv (lt_entries s)" by (simp add: lt_inv_def lt_index_def lt_maps_def)
  then have "card (sourceTokens (ltDelete t s) src) \<le> card (sourceTokens s src)" for src
    by (simp add: sourceTokens_delete card_Diff1_le)
  then show ?thesis
    using inv ltDelete_index [of s t] ltDelete_length [of t s] unfolding lt_inv_def lt_limits_def
    by (meson order_trans)
qed

subsection \<open>The other operations\<close>

lemma ltGet_inv: "lt_inv cfg s \<Longrightarrow> ltGet now t s = (r, s') \<Longrightarrow> lt_inv cfg s'"
  by (auto simp: ltGet_def ltDelete_inv split: option.splits if_splits)

lemma ltGet_Some:
  "ltGet now t s = (Some e, s') \<Longrightarrow> s' = s \<and> js_get (lt_entries s) t = Some e \<and> now < le_expiresAt e"
  by (auto simp: ltGet_def split: option.splits if_splits)

lemma ltExpire_inv: "lt_inv cfg s \<Longrightarrow> lt_inv cfg (ltExpire now s)"
proof -
  have "lt_inv cfg s \<Longrightarrow> lt_inv cfg (foldl (\<lambda>s (key, entry). if le_expiresAt entry \<le> now then ltDelete key s else s) s es)"
    for es s by (induction es arbitrary: s) (auto simp: ltDelete_inv)
  then show "lt_inv cfg s \<Longrightarrow> ?thesis" by (simp add: ltExpire_def)
qed

lemma sourceTokens_simps [simp]:
  "sourceTokens (s\<lparr>lt_nextCleanupAt := n\<rparr>) src = sourceTokens s src"
  "sourceTokens (s\<lparr>lt_approvedByAuthKey := m\<rparr>) src = sourceTokens s src"
  "sourceTokens (s\<lparr>lt_tokenByAuthKey := m\<rparr>) src = sourceTokens s src"
  "sourceTokens (s\<lparr>lt_tokensBySource := b\<rparr>) src = sourceTokens s src"
  by (simp_all add: sourceTokens_def)

lemma lt_inv_cleanupAt [simp]: "lt_inv cfg (s\<lparr>lt_nextCleanupAt := n\<rparr>) = lt_inv cfg s"
  by (simp add: lt_inv_def lt_index_def lt_maps_def auth_index_def approved_index_def source_index_def
      claims_ok_def lt_limits_def)

lemma cleanupIfDue_inv: "lt_inv cfg s \<Longrightarrow> lt_inv cfg (cleanupIfDue cfg' now s)"
  by (simp add: cleanupIfDue_def ltExpire_inv)

lemma ltEvictOldest_inv: "lt_inv cfg s \<Longrightarrow> ltEvictOldest s = (r, s') \<Longrightarrow> lt_inv cfg s'"
  by (auto simp: ltEvictOldest_def ltDelete_inv split: option.splits)

text \<open>Replacing an entry by one with the same auth key, source and a compatible approval.\<close>

lemma update_entry_inv:
  assumes inv: "lt_inv cfg s" and e: "js_get (lt_entries s) t = Some e"
    and same: "le_authKeyId e' = le_authKeyId e" "le_source e' = le_source e"
    and claimed: "le_claimed e' \<longrightarrow> le_identity e' \<noteq> None"
    and appr: "m = (if le_identity e = None \<and> le_identity e' \<noteq> None
                    then js_set (le_authKeyId e) t (lt_approvedByAuthKey s) else lt_approvedByAuthKey s)"
    and keep: "le_identity e \<noteq> None \<longrightarrow> le_identity e' \<noteq> None"
  shows "lt_inv cfg (s\<lparr>lt_entries := js_set t e' (lt_entries s), lt_approvedByAuthKey := m\<rparr>)" (is "lt_inv cfg ?s")
proof -
  have ix: "lt_maps s" "auth_index s" "approved_index s" "source_index s" "claims_ok s"
    using inv by (simp_all add: lt_inv_def lt_index_def)
  have ent: "js_get (js_set t e' (lt_entries s)) = (js_get (lt_entries s))(t \<mapsto> e')"
    by (simp add: js_get_set fun_eq_iff)
  have "t \<in> set (js_keys (lt_entries s))" using map_of_SomeD [OF e] by (force intro: rev_image_eqI)
  then have len: "length (js_set t e' (lt_entries s)) = length (lt_entries s)"
    using js_keys_set [of t e' "lt_entries s"] by (metis length_map)
  have src: "sourceTokens ?s = sourceTokens s"
    using e same by (auto simp: sourceTokens_def ent fun_eq_iff)
  have maps: "lt_maps ?s" using ix(1) e appr by (auto simp: lt_maps_def js_get_set)
  have auth: "auth_index ?s" using ix(2) e same by (auto simp: auth_index_def ent)
  have uniq: "t' = t" if "js_get (lt_entries s) t' = Some x" "le_authKeyId x = le_authKeyId e" for t' x
    using auth_unique [OF ix(2) that(1) e that(2)] .
  have "approved_index ?s"
    unfolding approved_index_def
  proof (intro allI)
    fix a t'
    note old = ix(3) [unfolded approved_index_def, rule_format, of a t']
    show "js_get (lt_approvedByAuthKey ?s) a = Some t' \<longleftrightarrow>
        (\<exists>x. js_get (lt_entries ?s) t' = Some x \<and> le_authKeyId x = a \<and> le_identity x \<noteq> None)"
    proof (cases "le_identity e = None \<and> le_identity e' \<noteq> None")
      case True
      then have m: "m = js_set (le_authKeyId e) t (lt_approvedByAuthKey s)" using appr by simp
      show ?thesis
      proof (cases "t' = t")
        case True
        then show ?thesis using \<open>le_identity e = None \<and> _\<close> e same old
          by (cases "a = le_authKeyId e") (auto simp: m ent js_get_set)
      next
        case False
        then have "le_authKeyId x \<noteq> le_authKeyId e" if "js_get (lt_entries s) t' = Some x" for x
          using uniq that by blast
        with False old show ?thesis by (cases "a = le_authKeyId e") (auto simp: m ent js_get_set)
      qed
    next
      case False
      then have m: "m = lt_approvedByAuthKey s" using appr by auto
      show ?thesis using False e same old keep by (cases "t' = t") (auto simp: m ent)
    qed
  qed
  moreover have "source_index ?s" using ix(4) by (simp add: source_index_def src)
  moreover have "claims_ok ?s" using ix(5) claimed by (auto simp: claims_ok_def ent)
  ultimately show ?thesis using maps auth inv len by (simp add: lt_inv_def lt_index_def lt_limits_def src)
qed

lemma ltApprove_inv:
  assumes "lt_inv cfg s" and "ltApprove now token i s = (r, s')"
  shows "lt_inv cfg s'"
proof (cases "ltGet now (tokenKey token) s")
  case (Pair g s1)
  then have s1: "lt_inv cfg s1" using ltGet_inv assms(1) by blast
  show ?thesis
  proof (cases "\<exists>e. g = Some e \<and> le_identity e = None \<and> \<not> le_claimed e")
    case True
    then obtain e where g: "g = Some e" "le_identity e = None" "\<not> le_claimed e" by blast
    then have "js_get (lt_entries s1) (tokenKey token) = Some e" using ltGet_Some Pair by blast
    from update_entry_inv [OF s1 this, of "e\<lparr>le_identity := Some i\<rparr>"] show ?thesis
      using assms(2) Pair g by (auto simp: ltApprove_def Let_def)
  next
    case False
    then have "s' = s1" using assms(2) Pair by (auto simp: ltApprove_def Let_def split: option.splits if_splits)
    with s1 show ?thesis by simp
  qed
qed

lemma ltClaimEntry_inv:
  assumes "lt_inv cfg s" and "ltClaimEntry now t a s = (r, s')"
  shows "lt_inv cfg s'"
proof (cases "ltGet now t s")
  case (Pair g s1)
  then have s1: "lt_inv cfg s1" using ltGet_inv assms(1) by blast
  show ?thesis
  proof (cases r)
    case None
    then have "s' = s1" using assms(2) Pair by (auto simp: ltClaimEntry_def split: option.splits if_splits)
    with s1 show ?thesis by simp
  next
    case (Some c)
    then obtain e where g: "g = Some e" "le_identity e \<noteq> None" "s' = s1\<lparr>lt_entries := js_set t (e\<lparr>le_claimed := True\<rparr>) (lt_entries s1)\<rparr>"
      using assms(2) Pair by (auto simp: ltClaimEntry_def split: option.splits if_splits)
    then have "js_get (lt_entries s1) t = Some e" using ltGet_Some Pair by blast
    from update_entry_inv [OF s1 this, of "e\<lparr>le_claimed := True\<rparr>" "lt_approvedByAuthKey s1"] g show ?thesis by simp
  qed
qed

lemma ltClaimToken_inv: "lt_inv cfg s \<Longrightarrow> ltClaimToken now t a s = (r, s') \<Longrightarrow> lt_inv cfg s'"
  unfolding ltClaimToken_def by (rule ltClaimEntry_inv)

lemma ltClaimApproved_inv: "lt_inv cfg s \<Longrightarrow> ltClaimApproved now a s = (r, s') \<Longrightarrow> lt_inv cfg s'"
  by (auto simp: ltClaimApproved_def Let_def ltClaimEntry_inv split: option.splits)

lemma ltCommit_inv: "lt_inv cfg s \<Longrightarrow> lt_inv cfg (ltCommit c s)"
  by (auto simp: ltCommit_def ltDelete_inv split: option.splits)

lemma ltRollback_inv: "lt_inv cfg s \<Longrightarrow> lt_inv cfg (ltRollback c s)"
proof (cases "ltRollback c s = s")
  case False
  assume inv: "lt_inv cfg s"
  from False obtain e where e: "js_get (lt_entries s) (lc_token c) = Some e"
    "ltRollback c s = s\<lparr>lt_entries := js_set (lc_token c) (e\<lparr>le_claimed := False\<rparr>) (lt_entries s)\<rparr>"
    by (auto simp: ltRollback_def split: option.splits if_splits)
  from update_entry_inv [OF inv e(1), of "e\<lparr>le_claimed := False\<rparr>" "lt_approvedByAuthKey s"] show ?thesis
    by (cases "le_identity e") (auto simp: e(2))
qed simp

subsection \<open>Issuing\<close>

definition newEntry :: "string \<Rightarrow> int \<Rightarrow> string option \<Rightarrow> ltEntry" where
  "newEntry authKey expiresAt source = \<lparr>le_authKeyId = authKey, le_expiresAt = expiresAt,
     le_identity = None, le_claimed = False, le_source = source\<rparr>"

definition sourceCount :: "string \<Rightarrow> ltStore \<Rightarrow> nat" where
  "sourceCount src s = (case js_get (lt_tokensBySource s) src of Some ts \<Rightarrow> length ts | None \<Rightarrow> 0)"

lemma sourceCount_card: "source_index s \<Longrightarrow> sourceCount src s = card (sourceTokens s src)"
proof -
  assume "source_index s"
  then have "listsSet (js_get (lt_tokensBySource s) src) (sourceTokens s src)" by (simp add: source_index_def)
  then show ?thesis
    by (cases "js_get (lt_tokensBySource s) src") (auto simp: sourceCount_def distinct_card [symmetric])
qed

text \<open>A store that can take a token for \<open>authKey\<close>.\<close>

definition issue_ready :: "ltConfig \<Rightarrow> string \<Rightarrow> string \<Rightarrow> string option \<Rightarrow> ltStore \<Rightarrow> bool" where
  "issue_ready cfg authKey key source s \<longleftrightarrow> lt_inv cfg s \<and> js_get (lt_entries s) key = None \<and> key \<noteq> [] \<and>
     (\<forall>t e. js_get (lt_entries s) t = Some e \<longrightarrow> le_authKeyId e \<noteq> authKey) \<and>
     length (lt_entries s) < ltc_maxEntries cfg \<and>
     (\<forall>src. truthy source = Some src \<longrightarrow> card (sourceTokens s src) < ltc_maxEntriesPerSource cfg)"

lemma setAdd_listsSet:
  "listsSet o1 A \<Longrightarrow> listsSet (Some (setAdd x (case o1 of Some ts \<Rightarrow> ts | None \<Rightarrow> []))) (insert x A)"
  by (cases o1) (auto simp: setAdd_def)

lemma ltInsert_ready:
  assumes ready: "issue_ready cfg authKey key source s"
    and s: "s = (case previous of Some p \<Rightarrow> ltDelete p s0 | None \<Rightarrow> s0)"
  shows "lt_inv cfg (ltInsert cfg' now authKey key previous source s0)" (is "lt_inv cfg ?n")
proof -
  let ?e = "newEntry authKey ((now + ltc_ttlMs cfg') div 1000 * 1000) source"
  have ix: "lt_maps s" "auth_index s" "approved_index s" "source_index s" "claims_ok s" "lt_limits cfg s"
    and key: "js_get (lt_entries s) key = None" "key \<noteq> []" "length (lt_entries s) < ltc_maxEntries cfg"
    and fresh: "\<And>t e. js_get (lt_entries s) t = Some e \<Longrightarrow> le_authKeyId e \<noteq> authKey"
    and cnt: "\<And>src. truthy source = Some src \<Longrightarrow> card (sourceTokens s src) < ltc_maxEntriesPerSource cfg"
    using ready by (auto simp: issue_ready_def lt_inv_def lt_index_def)
  let ?S = "\<lambda>src. setAdd key (case js_get (lt_tokensBySource s) src of Some ts \<Rightarrow> ts | None \<Rightarrow> [])"
  have fields: "lt_entries ?n = js_set key ?e (lt_entries s)" "lt_approvedByAuthKey ?n = lt_approvedByAuthKey s"
      "lt_tokenByAuthKey ?n = js_set authKey key (lt_tokenByAuthKey s)"
      "lt_tokensBySource ?n = (case truthy source of None \<Rightarrow> lt_tokensBySource s
         | Some src \<Rightarrow> js_set src (?S src) (lt_tokensBySource s))"
    unfolding s by (simp_all add: ltInsert_def newEntry_def Let_def split: option.splits)
  have ent: "js_get (lt_entries ?n) = (js_get (lt_entries s))(key \<mapsto> ?e)"
    by (simp add: fields js_get_set fun_eq_iff)
  have e: "le_authKeyId ?e = authKey" "le_identity ?e = None" "\<not> le_claimed ?e" "le_source ?e = source"
    by (simp_all add: newEntry_def)
  have len: "length (lt_entries ?n) = Suc (length (lt_entries s))"
  proof -
    have "key \<notin> set (js_keys (lt_entries s))" using key(1) by (simp add: map_of_eq_None_iff)
    then show ?thesis by (simp add: fields js_set_new)
  qed
  have src: "sourceTokens ?n x = (if truthy source = Some x then insert key (sourceTokens s x) else sourceTokens s x)" for x
    using key(1) e by (auto simp: sourceTokens_def ent split: if_splits)
  have maps: "lt_maps ?n" using ix(1) key(2) unfolding lt_maps_def ent by (auto simp: fields split: option.splits)
  have auth: "auth_index ?n"
    unfolding auth_index_def ent fields(3)
  proof (intro allI)
    fix a t
    note old = ix(2) [unfolded auth_index_def, THEN spec, THEN spec, of a t]
    show "js_get (js_set authKey key (lt_tokenByAuthKey s)) a = Some t \<longleftrightarrow>
        (\<exists>e. ((js_get (lt_entries s))(key \<mapsto> ?e)) t = Some e \<and> le_authKeyId e = a)"
      using old key(1) e(1) fresh [of t] by (cases "t = key"; cases "a = authKey") (auto simp: js_get_set)
  qed
  have "approved_index ?n"
    unfolding approved_index_def ent fields(2)
  proof (intro allI)
    fix a t
    note old = ix(3) [unfolded approved_index_def, THEN spec, THEN spec, of a t]
    show "js_get (lt_approvedByAuthKey s) a = Some t \<longleftrightarrow>
        (\<exists>e. ((js_get (lt_entries s))(key \<mapsto> ?e)) t = Some e \<and> le_authKeyId e = a \<and> le_identity e \<noteq> None)"
      using old key(1) e(2) by (cases "t = key") auto
  qed
  moreover have "source_index ?n"
    unfolding source_index_def src fields(4)
  proof
    fix x
    have old: "listsSet (js_get (lt_tokensBySource s) x) (sourceTokens s x)" using ix(4) by (simp add: source_index_def)
    show "listsSet (js_get (case truthy source of None \<Rightarrow> lt_tokensBySource s
         | Some src \<Rightarrow> js_set src (?S src) (lt_tokensBySource s)) x)
       (if truthy source = Some x then insert key (sourceTokens s x) else sourceTokens s x)"
      using setAdd_listsSet [OF old, of key] old by (auto simp: js_get_set split: option.splits)
  qed
  moreover have "claims_ok ?n" using ix(5) e by (auto simp: claims_ok_def ent)
  moreover have "lt_limits cfg ?n"
    using ix(6) len key(3) cnt unfolding lt_limits_def src
    by (auto simp: card_insert_if intro: Suc_leI)
  ultimately show ?thesis using maps auth by (simp add: lt_inv_def lt_index_def)
qed

lemma ltDelete_none: "js_get (lt_entries s) t = None \<Longrightarrow> ltDelete t s = s"
  by (simp add: ltDelete_def)

lemma ltDelete_shrinks: "js_inv (lt_entries s) \<Longrightarrow> js_get (lt_entries (ltDelete t s)) t' = Some e \<Longrightarrow> js_get (lt_entries s) t' = Some e"
  by (auto simp: ltDelete_entries split: if_splits)

lemma previous_token:
  assumes "lt_inv cfg s"
  shows "truthy (js_get (lt_tokenByAuthKey s) a) = js_get (lt_tokenByAuthKey s) a"
proof (cases "js_get (lt_tokenByAuthKey s) a")
  case (Some t)
  then have "js_get (lt_entries s) t \<noteq> None"
    using assms by (auto simp: lt_inv_def lt_index_def auth_index_def)
  moreover have "js_get (lt_entries s) [] = None" using assms by (simp add: lt_inv_def lt_index_def lt_maps_def)
  ultimately show ?thesis using Some by (cases t) (auto simp: truthy_def)
qed (simp add: truthy_def)

lemma no_auth_entry:
  "auth_index s \<Longrightarrow> js_get (lt_tokenByAuthKey s) a = None \<Longrightarrow> js_get (lt_entries s) t = Some e \<Longrightarrow> le_authKeyId e \<noteq> a"
  unfolding auth_index_def by (metis option.distinct(1))

lemma ltDelete_ready:
  assumes inv: "lt_inv cfg s" and p: "js_get (lt_tokenByAuthKey s) authKey = Some p"
    and key: "key \<noteq> []" "key = p \<or> js_get (lt_entries s) key = None"
    and cnt: "\<And>src. truthy source = Some src \<Longrightarrow>
      card (sourceTokens s src) < ltc_maxEntriesPerSource cfg \<or> p \<in> sourceTokens s src"
  shows "issue_ready cfg authKey key source (ltDelete p s)"
proof -
  have ix: "js_inv (lt_entries s)" "auth_index s" "lt_limits cfg s"
    using inv by (simp_all add: lt_inv_def lt_index_def lt_maps_def)
  obtain e where e: "js_get (lt_entries s) p = Some e" "le_authKeyId e = authKey"
    using p ix(2) by (auto simp: auth_index_def)
  have "le_authKeyId x \<noteq> authKey" if "js_get (lt_entries (ltDelete p s)) t = Some x" for t x
    using auth_unique [OF ix(2), of t x p e] that e by (auto simp: ltDelete_entries [OF ix(1)] split: if_splits)
  moreover have "card (sourceTokens (ltDelete p s) src) < ltc_maxEntriesPerSource cfg"
    if t: "truthy source = Some src" for src
  proof -
    have "card (sourceTokens s src - {p}) < ltc_maxEntriesPerSource cfg"
      using cnt [OF t] ix(3) card_Diff1_less [of "sourceTokens s src" p] card_Diff1_le [of "sourceTokens s src" p]
      unfolding lt_limits_def by (metis finite_sourceTokens le_less_trans less_le_trans)
    then show ?thesis by (simp add: sourceTokens_delete [OF ix(1)])
  qed
  moreover have "length (lt_entries (ltDelete p s)) < ltc_maxEntries cfg"
    using ltDelete_length_present [OF e(1)] ix(3) by (simp add: lt_limits_def)
  ultimately show ?thesis
    using ltDelete_inv [OF inv] key by (auto simp: issue_ready_def ltDelete_entries [OF ix(1)])
qed

lemma fresh_ready:
  assumes inv: "lt_inv cfg s" and p: "js_get (lt_tokenByAuthKey s) authKey = None"
    and key: "key \<noteq> []" "js_get (lt_entries s) key = None" and len: "length (lt_entries s) < ltc_maxEntries cfg"
    and cnt: "\<And>src. truthy source = Some src \<Longrightarrow> card (sourceTokens s src) < ltc_maxEntriesPerSource cfg"
  shows "issue_ready cfg authKey key source s"
  using assms no_auth_entry [of s authKey] by (auto simp: issue_ready_def lt_inv_def lt_index_def)

lemma ltDelete_auth_none:
  assumes "lt_inv cfg s" and "js_get (lt_tokenByAuthKey s) a = None"
  shows "js_get (lt_tokenByAuthKey (ltDelete t s)) a = None"
  using assms(2) by (auto simp: ltDelete_def dropIndex_get split: option.splits)

lemma evict_ready:
  assumes inv: "lt_inv cfg s" and p: "js_get (lt_tokenByAuthKey s) authKey = None"
    and key: "key \<noteq> []" "js_get (lt_entries s) key = None" and ev: "ltEvictOldest s = (True, s')"
    and cnt: "\<And>src. truthy source = Some src \<Longrightarrow> card (sourceTokens s src) < ltc_maxEntriesPerSource cfg"
  shows "issue_ready cfg authKey key source s'"
proof -
  obtain t e where t: "(t, e) \<in> set (lt_entries s)" "s' = ltDelete t s"
    using ev by (auto simp: ltEvictOldest_def find_Some_iff dest: nth_mem split: option.splits)
  have maps: "js_inv (lt_entries s)" using inv by (simp add: lt_inv_def lt_index_def lt_maps_def)
  with t have "js_get (lt_entries s) t = Some e" by (simp add: js_inv_def)
  from ltDelete_length_present [OF this] inv have "length (lt_entries s') < ltc_maxEntries cfg"
    by (simp add: t lt_inv_def lt_limits_def)
  moreover have "card (sourceTokens s' src) < ltc_maxEntriesPerSource cfg" if "truthy source = Some src" for src
    using cnt [OF that] card_Diff1_le [of "sourceTokens s src" t] by (simp add: t sourceTokens_delete [OF maps])
  ultimately show ?thesis
    using ltDelete_inv [OF inv] ltDelete_auth_none [OF inv p] key unfolding t
    by (intro fresh_ready) (auto simp: ltDelete_entries [OF maps])
qed

lemma tokenKey_empty: "tokenKey t = [] \<longleftrightarrow> t = []"
  using toHex_inj [of t "[]"] by (simp add: tokenKey_def)

text \<open>What \<open>issue\<close> does when it succeeds: it ends with \<open>ltInsert\<close> on a store that is ready.\<close>

lemma ltIssue_ready:
  assumes inv: "lt_inv cfg s0" and tok: "token \<noteq> []"
    and issue: "ltIssue cfg now a token source s0 = (Inr r, s')"
  shows "\<exists>previous s2 s. r = token \<and> s' = ltInsert cfg now (tokenKey a) (tokenKey token) previous source s2 \<and>
    s = (case previous of Some p \<Rightarrow> ltDelete p s2 | None \<Rightarrow> s2) \<and>
    issue_ready cfg (tokenKey a) (tokenKey token) source s"
proof -
  define s1 where "s1 = cleanupIfDue cfg now s0"
  have inv1: "lt_inv cfg s1" by (simp add: s1_def cleanupIfDue_inv inv)
  define previous where "previous = js_get (lt_tokenByAuthKey s1) (tokenKey a)"
  have prev: "truthy (js_get (lt_tokenByAuthKey s1) (tokenKey a)) = previous"
    unfolding previous_def by (rule previous_token [OF inv1])
  obtain g s where g: "(case previous of Some p \<Rightarrow> ltGet now p s1 | None \<Rightarrow> (None, s1)) = (g, s)" by fastforce
  have inv2: "lt_inv cfg s" using g ltGet_inv [OF inv1] inv1 by (auto split: option.splits)
  have key: "tokenKey token \<noteq> []" using tok by (simp add: tokenKey_empty)
  have tba: "js_get (lt_tokenByAuthKey s) (tokenKey a) = (case g of None \<Rightarrow> None | Some _ \<Rightarrow> previous)"
  proof (cases previous)
    case None
    then show ?thesis using g previous_def by auto
  next
    case (Some p)
    then obtain e where "js_get (lt_entries s1) p = Some e" "le_authKeyId e = tokenKey a"
      using inv1 by (auto simp: previous_def lt_inv_def lt_index_def auth_index_def)
    moreover have "js_get (lt_tokenByAuthKey s1) (tokenKey a) = Some p" using Some previous_def by simp
    ultimately show ?thesis using g by (auto simp: Some ltGet_def ltDelete_def dropIndex_get split: if_splits option.splits) metis
  qed
  let ?cond = "case truthy source of None \<Rightarrow> False
    | Some src \<Rightarrow> sourceCount src s \<ge> ltc_maxEntriesPerSource cfg \<and>
        (case g of Some e \<Rightarrow> le_source e | None \<Rightarrow> None) \<noteq> source"
  have sx: "sourceCount src s = card (sourceTokens s src)" for src
    using inv2 sourceCount_card by (simp add: lt_inv_def lt_index_def)
  have unfolded: "ltIssue cfg now a token source s0 =
    (if (case g of Some e \<Rightarrow> le_identity e \<noteq> None \<or> le_claimed e | None \<Rightarrow> False) then (Inl LoginTokenStoreFull, s)
     else if Some (tokenKey token) \<noteq> previous \<and> js_has (lt_entries s) (tokenKey token) then (Inl LoginTokenStoreFull, s)
     else if ?cond then (Inl LoginTokenSourceLimit, s)
     else if g = None \<and> length (lt_entries s) \<ge> ltc_maxEntries cfg
     then (case ltEvictOldest s of
             (True, s') \<Rightarrow> (Inr token, ltInsert cfg now (tokenKey a) (tokenKey token) previous source s')
           | (False, s') \<Rightarrow> (Inl LoginTokenStoreFull, s'))
     else (Inr token, ltInsert cfg now (tokenKey a) (tokenKey token) previous source s))"
    unfolding ltIssue_def Let_def s1_def [symmetric] prev g sourceCount_def by simp
  have gone: "js_get (lt_entries s) p = None" if "g = None" "previous = Some p" for p
  proof -
    have "js_inv (lt_entries s1)" using inv1 by (simp add: lt_inv_def lt_index_def lt_maps_def)
    then show ?thesis using g that by (auto simp: ltGet_def ltDelete_entries split: option.splits if_splits)
  qed
  have cnt: "card (sourceTokens s src) < ltc_maxEntriesPerSource cfg \<or>
      (\<exists>e p. g = Some e \<and> previous = Some p \<and> p \<in> sourceTokens s src)"
    if src: "truthy source = Some src" and no: "\<not> ?cond" for src
  proof (cases g)
    case None
    from no src have "\<not> (ltc_maxEntriesPerSource cfg \<le> card (sourceTokens s src) \<and>
        (case g of Some e \<Rightarrow> le_source e | None \<Rightarrow> None) \<noteq> source)" by (simp add: sx)
    moreover from src have "source \<noteq> None" by (simp add: truthy_Some)
    ultimately show ?thesis using None by simp
  next
    case (Some e)
    with g obtain p where p: "previous = Some p" "ltGet now p s1 = (Some e, s)" by (cases previous) auto
    from ltGet_Some [OF p(2)] have "js_get (lt_entries s) p = Some e" by simp
    note this p(1)
    moreover from no src have "\<not> (ltc_maxEntriesPerSource cfg \<le> card (sourceTokens s src) \<and> le_source e \<noteq> source)"
      by (simp add: sx Some)
    ultimately show ?thesis using src Some by (auto simp: sourceTokens_def)
  qed
  have noprev: "(case previous of Some p \<Rightarrow> ltDelete p t | None \<Rightarrow> t) = t"
    if gN: "g = None" and sub: "\<And>p e. js_get (lt_entries t) p = Some e \<Longrightarrow> js_get (lt_entries s) p = Some e" for t
  proof (cases previous)
    case (Some p)
    have "js_get (lt_entries t) p = None" using sub [of p] gone [OF gN Some] by (cases "js_get (lt_entries t) p") auto
    with Some show ?thesis by (simp add: ltDelete_none)
  qed simp
  from issue unfolded have ok: "\<not> (Some (tokenKey token) \<noteq> previous \<and> js_has (lt_entries s) (tokenKey token))" "\<not> ?cond"
    "r = token"
    by (simp_all split: if_splits prod.splits bool.splits)
  show ?thesis
  proof (cases g)
    case (Some e)
    with tba obtain p where p: "previous = Some p" using g by (cases previous) auto
    with Some tba have "js_get (lt_tokenByAuthKey s) (tokenKey a) = Some p" by simp
    then have "issue_ready cfg (tokenKey a) (tokenKey token) source (ltDelete p s)"
      using ok(1) cnt ok(2) p key by (intro ltDelete_ready [OF inv2]) auto
    moreover have "s' = ltInsert cfg now (tokenKey a) (tokenKey token) previous source s"
      using issue unfolded Some by (auto split: if_splits)
    ultimately show ?thesis using p ok(3)
      by (intro exI [of _ previous] exI [of _ s] exI [of _ "ltDelete p s"]) simp
  next
    case None
    have auth: "js_get (lt_tokenByAuthKey s) (tokenKey a) = None" using tba None by simp
    have free: "js_get (lt_entries s) (tokenKey token) = None" using ok(1) gone [OF None] by (cases "previous = Some (tokenKey token)") auto
    have src: "card (sourceTokens s src) < ltc_maxEntriesPerSource cfg" if "truthy source = Some src" for src
      using cnt [OF that ok(2)] None by simp
    show ?thesis
    proof (cases "length (lt_entries s) \<ge> ltc_maxEntries cfg")
      case True
      then obtain t where t: "ltEvictOldest s = (True, t)" "s' = ltInsert cfg now (tokenKey a) (tokenKey token) previous source t"
        using issue unfolded None by (auto split: if_splits prod.splits bool.splits)
      have "js_inv (lt_entries s)" using inv2 by (simp add: lt_inv_def lt_index_def lt_maps_def)
      then have "js_get (lt_entries t) p = Some e \<Longrightarrow> js_get (lt_entries s) p = Some e" for p e
        using t(1) by (auto simp: ltEvictOldest_def ltDelete_shrinks split: option.splits)
      with noprev None have "t = (case previous of Some p \<Rightarrow> ltDelete p t | None \<Rightarrow> t)" by metis
      with evict_ready [OF inv2 auth key free t(1) src] t(2) ok(3) show ?thesis by blast
    next
      case False
      then have "s' = ltInsert cfg now (tokenKey a) (tokenKey token) previous source s"
        using issue unfolded None by (auto split: if_splits)
      moreover have "s = (case previous of Some p \<Rightarrow> ltDelete p s | None \<Rightarrow> s)" using noprev None by metis
      moreover have "issue_ready cfg (tokenKey a) (tokenKey token) source s"
        using False src by (intro fresh_ready [OF inv2 auth key free]) auto
      ultimately show ?thesis using ok(3) by blast
    qed
  qed
qed

lemma ltIssue_inv:
  assumes inv: "lt_inv cfg s0" and tok: "token \<noteq> []" and issue: "ltIssue cfg now a token source s0 = (r, s')"
  shows "lt_inv cfg s'"
proof (cases r)
  case (Inr x)
  then show ?thesis using ltIssue_ready [OF inv tok] ltInsert_ready issue by metis
next
  case (Inl x)
  define s1 where "s1 = cleanupIfDue cfg now s0"
  have inv1: "lt_inv cfg s1" by (simp add: s1_def cleanupIfDue_inv inv)
  obtain g s where g: "(case truthy (js_get (lt_tokenByAuthKey s1) (tokenKey a)) of Some p \<Rightarrow> ltGet now p s1 | None \<Rightarrow> (None, s1)) = (g, s)"
    by fastforce
  have inv2: "lt_inv cfg s" using g ltGet_inv [OF inv1] inv1 by (auto split: option.splits)
  have "s' = s \<or> (\<exists>b. ltEvictOldest s = (b, s'))"
    using issue Inl unfolding ltIssue_def Let_def s1_def [symmetric] g by (auto split: if_splits prod.splits bool.splits)
  then show ?thesis using inv2 ltEvictOldest_inv by blast
qed

section \<open>Histories\<close>

datatype ltEvent = EvIssued string string | EvApproved string ltIdentity | EvClaimed string | EvRolledBack string

fun lastOwner :: "ltEvent list \<Rightarrow> string \<Rightarrow> string option" where
  "lastOwner [] t = None"
| "lastOwner (EvIssued t' a # tr) t = (if t' = t then Some a else lastOwner tr t)"
| "lastOwner (_ # tr) t = lastOwner tr t"

fun lastApproval :: "ltEvent list \<Rightarrow> string \<Rightarrow> ltIdentity option" where
  "lastApproval [] t = None"
| "lastApproval (EvIssued t' a # tr) t = (if t' = t then None else lastApproval tr t)"
| "lastApproval (EvApproved t' i # tr) t = (if t' = t then Some i else lastApproval tr t)"
| "lastApproval (_ # tr) t = lastApproval tr t"

fun claimOpen :: "ltEvent list \<Rightarrow> string \<Rightarrow> bool" where
  "claimOpen [] t = False"
| "claimOpen (EvIssued t' a # tr) t = (if t' = t then False else claimOpen tr t)"
| "claimOpen (EvClaimed t' # tr) t = (if t' = t then True else claimOpen tr t)"
| "claimOpen (EvRolledBack t' # tr) t = (if t' = t then False else claimOpen tr t)"
| "claimOpen (_ # tr) t = claimOpen tr t"

definition evIssue :: "bytes \<Rightarrow> ltError + bytes \<Rightarrow> ltEvent list" where
  "evIssue a r = (case r of Inr token \<Rightarrow> [EvIssued (tokenKey token) (tokenKey a)] | Inl _ \<Rightarrow> [])"

definition evApprove :: "bytes \<Rightarrow> ltIdentity \<Rightarrow> bytes option \<Rightarrow> ltEvent list" where
  "evApprove token i r = (case r of Some _ \<Rightarrow> [EvApproved (tokenKey token) i] | None \<Rightarrow> [])"

definition evClaim :: "ltClaim option \<Rightarrow> ltEvent list" where
  "evClaim r = (case r of Some c \<Rightarrow> [EvClaimed (lc_token c)] | None \<Rightarrow> [])"

text \<open>The runs of a store with configuration \<open>cfg\<close>: any operations, in any order, at any times.\<close>

inductive ltReach :: "ltConfig \<Rightarrow> ltStore \<Rightarrow> ltEvent list \<Rightarrow> bool" for cfg where
  start: "ltReach cfg newLoginTokenStore []"
| issue: "ltReach cfg s tr \<Longrightarrow> token \<noteq> [] \<Longrightarrow> ltIssue cfg now a token source s = (r, s') \<Longrightarrow>
    ltReach cfg s' (evIssue a r @ tr)"
| approve: "ltReach cfg s tr \<Longrightarrow> ltApprove now token i s = (r, s') \<Longrightarrow> ltReach cfg s' (evApprove token i r @ tr)"
| expiresAt: "ltReach cfg s tr \<Longrightarrow> ltExpiresAt now token s = (x, s') \<Longrightarrow> ltReach cfg s' tr"
| claimToken: "ltReach cfg s tr \<Longrightarrow> ltClaimToken now token a s = (c, s') \<Longrightarrow> ltReach cfg s' (evClaim c @ tr)"
| claimApproved: "ltReach cfg s tr \<Longrightarrow> ltClaimApproved now a s = (c, s') \<Longrightarrow> ltReach cfg s' (evClaim c @ tr)"
| commit: "ltReach cfg s tr \<Longrightarrow> ltReach cfg (ltCommit c s) tr"
| rollback: "ltReach cfg s tr \<Longrightarrow> ltReach cfg (ltRollback c s) (EvRolledBack (lc_token c) # tr)"

lemma ltExpiresAt_inv: "lt_inv cfg s \<Longrightarrow> ltExpiresAt now t s = (r, s') \<Longrightarrow> lt_inv cfg s'"
  by (auto simp: ltExpiresAt_def split: prod.splits dest: ltGet_inv)

lemma newLoginTokenStore_inv: "lt_inv cfg newLoginTokenStore"
  by (simp add: lt_inv_def lt_index_def newLoginTokenStore_def lt_index_defs source_index_def sourceTokens_def lt_limits_def)

lemma ltReach_inv: "ltReach cfg s tr \<Longrightarrow> lt_inv cfg s"
  by (induction rule: ltReach.induct)
    (auto intro: newLoginTokenStore_inv ltIssue_inv ltApprove_inv ltExpiresAt_inv ltClaimToken_inv ltClaimApproved_inv
      ltCommit_inv ltRollback_inv)

subsection \<open>Entries only disappear or change as the operation says\<close>

definition sub_entries :: "ltStore \<Rightarrow> ltStore \<Rightarrow> bool" where
  "sub_entries s' s \<longleftrightarrow> (\<forall>t e. js_get (lt_entries s') t = Some e \<longrightarrow> js_get (lt_entries s) t = Some e)"

lemma sub_entries_refl [simp]: "sub_entries s s"
  by (simp add: sub_entries_def)

lemma sub_entries_trans: "sub_entries a b \<Longrightarrow> sub_entries b c \<Longrightarrow> sub_entries a c"
  by (simp add: sub_entries_def)

lemma lt_inv_entries: "lt_inv cfg s \<Longrightarrow> js_inv (lt_entries s)"
  by (simp add: lt_inv_def lt_index_def lt_maps_def)

lemma ltDelete_sub: "lt_inv cfg s \<Longrightarrow> sub_entries (ltDelete t s) s"
  using ltDelete_shrinks lt_inv_entries unfolding sub_entries_def by blast

lemma ltGet_sub: "lt_inv cfg s \<Longrightarrow> ltGet now t s = (r, s') \<Longrightarrow> sub_entries s' s"
  by (auto simp: ltGet_def ltDelete_sub split: option.splits if_splits)

lemma cleanupIfDue_sub: "lt_inv cfg s \<Longrightarrow> sub_entries (cleanupIfDue cfg' now s) s"
proof -
  have fold: "lt_inv cfg s \<Longrightarrow> sub_entries (foldl (\<lambda>s (key, entry). if le_expiresAt entry \<le> now then ltDelete key s else s) s es) s"
    for es s
  proof (induction es arbitrary: s)
    case (Cons e es)
    then show ?case
      using ltDelete_inv [of cfg s "fst e"] ltDelete_sub [of cfg s "fst e"]
      by (cases e) (auto intro: sub_entries_trans)
  qed simp
  assume "lt_inv cfg s"
  from fold [OF this, of "lt_entries s"] show ?thesis by (simp add: cleanupIfDue_def ltExpire_def sub_entries_def)
qed

lemma ltEvictOldest_sub: "lt_inv cfg s \<Longrightarrow> ltEvictOldest s = (r, s') \<Longrightarrow> sub_entries s' s"
  by (auto simp: ltEvictOldest_def ltDelete_sub split: option.splits)

definition history_ok :: "ltEvent list \<Rightarrow> ltStore \<Rightarrow> bool" where
  "history_ok tr s \<longleftrightarrow> (\<forall>t e. js_get (lt_entries s) t = Some e \<longrightarrow>
     lastOwner tr t = Some (le_authKeyId e) \<and> lastApproval tr t = le_identity e \<and> (claimOpen tr t \<longrightarrow> le_claimed e))"

lemma history_sub: "history_ok tr s \<Longrightarrow> sub_entries s' s \<Longrightarrow> history_ok tr s'"
  unfolding history_ok_def sub_entries_def by blast

text \<open>An operation that changes one entry, or adds it, with its event.\<close>

lemma history_change:
  assumes "history_ok tr s" and "\<forall>t' e'. t' \<noteq> t \<and> js_get (lt_entries s') t' = Some e' \<longrightarrow> js_get (lt_entries s) t' = Some e'"
    and "\<forall>t'. t' \<noteq> t \<longrightarrow> lastOwner tr' t' = lastOwner tr t' \<and> lastApproval tr' t' = lastApproval tr t' \<and>
      claimOpen tr' t' = claimOpen tr t'"
    and "\<forall>e'. js_get (lt_entries s') t = Some e' \<longrightarrow>
      lastOwner tr' t = Some (le_authKeyId e') \<and> lastApproval tr' t = le_identity e' \<and> (claimOpen tr' t \<longrightarrow> le_claimed e')"
  shows "history_ok tr' s'"
  unfolding history_ok_def
proof (intro allI impI)
  fix t' e' assume e': "js_get (lt_entries s') t' = Some e'"
  show "lastOwner tr' t' = Some (le_authKeyId e') \<and> lastApproval tr' t' = le_identity e' \<and>
      (claimOpen tr' t' \<longrightarrow> le_claimed e')"
  proof (cases "t' = t")
    case True
    with assms(4) e' show ?thesis by blast
  next
    case False
    with assms(2) e' have "js_get (lt_entries s) t' = Some e'" by blast
    with assms(1,3) False show ?thesis by (simp add: history_ok_def)
  qed
qed

lemma ltInsert_entries:
  "js_inv (lt_entries s) \<Longrightarrow>
   js_get (lt_entries (ltInsert cfg now authKey key previous source s)) t =
     (if t = key then Some (newEntry authKey ((now + ltc_ttlMs cfg) div 1000 * 1000) source)
      else js_get (lt_entries (case previous of Some p \<Rightarrow> ltDelete p s | None \<Rightarrow> s)) t)"
  by (simp add: ltInsert_def Let_def js_get_set newEntry_def split: option.splits)

lemma ltIssue_entries:
  assumes inv: "lt_inv cfg s0" and tok: "token \<noteq> []" and issue: "ltIssue cfg now a token source s0 = (r, s')"
  shows "case r of Inl _ \<Rightarrow> sub_entries s' s0
    | Inr x \<Rightarrow> x = token \<and> (\<forall>t. t \<noteq> tokenKey token \<longrightarrow> (\<forall>e. js_get (lt_entries s') t = Some e \<longrightarrow> js_get (lt_entries s0) t = Some e)) \<and>
        js_get (lt_entries s') (tokenKey token) = Some (newEntry (tokenKey a) ((now + ltc_ttlMs cfg) div 1000 * 1000) source)"
proof -
  define s1 where "s1 = cleanupIfDue cfg now s0"
  have inv1: "lt_inv cfg s1" "sub_entries s1 s0" using cleanupIfDue_sub [OF inv] by (simp_all add: s1_def cleanupIfDue_inv inv)
  define previous where "previous = truthy (js_get (lt_tokenByAuthKey s1) (tokenKey a))"
  obtain g s where g: "(case previous of Some p \<Rightarrow> ltGet now p s1 | None \<Rightarrow> (None, s1)) = (g, s)"
    by fastforce
  have inv2: "lt_inv cfg s" "sub_entries s s1"
    using g ltGet_inv [OF inv1(1)] ltGet_sub [OF inv1(1)] inv1 by (auto split: option.splits)
  have sub0: "sub_entries s s0" using sub_entries_trans inv1(2) inv2(2) by blast
  have cases: "(\<exists>x. r = Inl x) \<and> (s' = s \<or> (\<exists>b. ltEvictOldest s = (b, s'))) \<or>
      r = Inr token \<and> (\<exists>s2. (s2 = s \<or> ltEvictOldest s = (True, s2)) \<and>
         s' = ltInsert cfg now (tokenKey a) (tokenKey token) previous source s2)"
    using issue unfolding ltIssue_def Let_def s1_def [symmetric] previous_def [symmetric] g
    by (auto split: if_splits prod.splits bool.splits)
  from cases consider (same) x where "r = Inl x" "s' = s" | (full) x b where "r = Inl x" "ltEvictOldest s = (b, s')"
    | (issued) s2 where "r = Inr token" "s2 = s \<or> ltEvictOldest s = (True, s2)"
        "s' = ltInsert cfg now (tokenKey a) (tokenKey token) previous source s2" by blast
  then show ?thesis
  proof cases
    case same
    then show ?thesis using sub0 by simp
  next
    case full
    then show ?thesis using sub_entries_trans [OF ltEvictOldest_sub [OF inv2(1)] sub0] by simp
  next
    case issued
    have inv3: "lt_inv cfg s2" "sub_entries s2 s0"
      using issued(2) inv2 sub0 ltEvictOldest_inv [OF inv2(1)] sub_entries_trans [OF ltEvictOldest_sub [OF inv2(1)] sub0]
      by auto
    have "sub_entries (case previous of Some p \<Rightarrow> ltDelete p s2 | None \<Rightarrow> s2) s0"
      using sub_entries_trans [OF ltDelete_sub [OF inv3(1)] inv3(2)] inv3(2) by (simp split: option.splits)
    then show ?thesis using issued(1,3) ltInsert_entries [OF lt_inv_entries [OF inv3(1)]] by (simp add: sub_entries_def)
  qed
qed

lemma update_entry_get:
  "js_get (lt_entries (s\<lparr>lt_entries := js_set t e (lt_entries s), lt_approvedByAuthKey := m\<rparr>)) t' =
   (if t' = t then Some e else js_get (lt_entries s) t')"
  by (simp add: js_get_set)

lemma ltApprove_history:
  assumes inv: "lt_inv cfg s" and hist: "history_ok tr s" and op: "ltApprove now token i s = (r, s')"
  shows "history_ok (evApprove token i r @ tr) s'"
proof -
  obtain g s1 where g: "ltGet now (tokenKey token) s = (g, s1)" by fastforce
  have h1: "history_ok tr s1" using history_sub [OF hist ltGet_sub [OF inv g]] .
  show ?thesis
  proof (cases r)
    case None
    then have "s' = s1" using op g by (auto simp: ltApprove_def Let_def split: option.splits if_splits)
    then show ?thesis using h1 None by (simp add: evApprove_def)
  next
    case (Some x)
    then obtain e where e: "g = Some e" "\<not> le_claimed e"
      "s' = s1\<lparr>lt_entries := js_set (tokenKey token) (e\<lparr>le_identity := Some i\<rparr>) (lt_entries s1),
               lt_approvedByAuthKey := js_set (le_authKeyId e) (tokenKey token) (lt_approvedByAuthKey s1)\<rparr>"
      using op g by (auto simp: ltApprove_def Let_def split: option.splits if_splits)
    have "js_get (lt_entries s1) (tokenKey token) = Some e" using ltGet_Some g e(1) by blast
    with h1 have "lastOwner tr (tokenKey token) = Some (le_authKeyId e)" "\<not> claimOpen tr (tokenKey token)"
      using e(2) by (auto simp: history_ok_def)
    then show ?thesis
      unfolding Some evApprove_def
      by - (rule history_change [OF h1, of "tokenKey token"], simp_all add: e(3) js_get_set)
  qed
qed

lemma ltClaimEntry_history:
  assumes inv: "lt_inv cfg s" and hist: "history_ok tr s" and op: "ltClaimEntry now t a s = (r, s')"
  shows "history_ok (evClaim r @ tr) s'" and "r = Some c \<Longrightarrow>
    lc_token c = t \<and> lc_authKeyId c = a \<and> lastOwner tr t = Some a \<and> lastApproval tr t = Some (lc_identity c) \<and>
    \<not> claimOpen tr t \<and> (\<exists>e. js_get (lt_entries s) t = Some e \<and> now < le_expiresAt e)"
proof -
  obtain g s1 where g: "ltGet now t s = (g, s1)" by fastforce
  have h1: "history_ok tr s1" using history_sub [OF hist ltGet_sub [OF inv g]] .
  have none: "s' = s1" if "r = None"
    using op g that by (auto simp: ltClaimEntry_def split: option.splits if_splits)
  have some: "\<exists>e i. g = Some e \<and> le_identity e = Some i \<and> le_authKeyId e = a \<and> \<not> le_claimed e \<and>
      x = \<lparr>lc_identity = i, lc_token = t, lc_authKeyId = a\<rparr> \<and>
      s' = s1\<lparr>lt_entries := js_set t (e\<lparr>le_claimed := True\<rparr>) (lt_entries s1)\<rparr>" if "r = Some x" for x
    using op g that by (auto simp: ltClaimEntry_def split: option.splits if_splits)
  have look: "s1 = s \<and> js_get (lt_entries s) t = Some e \<and> now < le_expiresAt e" if "g = Some e" for e
    using ltGet_Some g that by blast
  show "history_ok (evClaim r @ tr) s'"
  proof (cases r)
    case None
    then show ?thesis using h1 none by (simp add: evClaim_def)
  next
    case (Some x)
    from some [OF this] obtain e i where e: "g = Some e" "le_identity e = Some i" "le_authKeyId e = a"
      "lc_token x = t" "s' = s1\<lparr>lt_entries := js_set t (e\<lparr>le_claimed := True\<rparr>) (lt_entries s1)\<rparr>" by auto
    have "lastOwner tr t = Some a" "lastApproval tr t = Some i"
      using h1 look [OF e(1)] e by (auto simp: history_ok_def)
    then show ?thesis unfolding Some evClaim_def
      by - (rule history_change [OF h1, of t], simp_all add: e js_get_set)
  qed
  assume "r = Some c"
  from some [OF this] obtain e i where e: "g = Some e" "le_identity e = Some i" "le_authKeyId e = a" "\<not> le_claimed e"
    "c = \<lparr>lc_identity = i, lc_token = t, lc_authKeyId = a\<rparr>" by auto
  with hist look [OF e(1)] show "lc_token c = t \<and> lc_authKeyId c = a \<and> lastOwner tr t = Some a \<and>
      lastApproval tr t = Some (lc_identity c) \<and> \<not> claimOpen tr t \<and>
      (\<exists>e. js_get (lt_entries s) t = Some e \<and> now < le_expiresAt e)"
    by (auto simp: history_ok_def)
qed

lemma ltIssue_history:
  assumes inv: "lt_inv cfg s" and hist: "history_ok tr s" and tok: "token \<noteq> []"
    and op: "ltIssue cfg now a token source s = (r, s')"
  shows "history_ok (evIssue a r @ tr) s'"
proof (cases r)
  case (Inl x)
  then show ?thesis using ltIssue_entries [OF inv tok op] hist history_sub by (simp add: evIssue_def)
next
  case (Inr x)
  note ent = ltIssue_entries [OF inv tok op, unfolded Inr sum.case]
  show ?thesis
    unfolding Inr evIssue_def sum.case
  proof (rule history_change [OF hist, of "tokenKey token"])
    show "\<forall>t' e'. t' \<noteq> tokenKey token \<and> js_get (lt_entries s') t' = Some e' \<longrightarrow> js_get (lt_entries s) t' = Some e'"
      using ent by blast
  qed (use ent in \<open>auto simp: newEntry_def\<close>)
qed

lemma ltRollback_history:
  assumes hist: "history_ok tr s"
  shows "history_ok (EvRolledBack (lc_token c) # tr) (ltRollback c s)"
proof (rule history_change [OF hist, of "lc_token c"])
  have get: "js_get (lt_entries (ltRollback c s)) t' = (if t' = lc_token c
      then map_option (\<lambda>e. if le_claimed e \<and> le_authKeyId e = lc_authKeyId c then e\<lparr>le_claimed := False\<rparr> else e)
        (js_get (lt_entries s) t')
      else js_get (lt_entries s) t')" for t'
    by (auto simp: ltRollback_def js_get_set split: option.splits)
  show "\<forall>t' e'. t' \<noteq> lc_token c \<and> js_get (lt_entries (ltRollback c s)) t' = Some e' \<longrightarrow> js_get (lt_entries s) t' = Some e'"
    by (simp add: get)
  show "\<forall>e'. js_get (lt_entries (ltRollback c s)) (lc_token c) = Some e' \<longrightarrow>
      lastOwner (EvRolledBack (lc_token c) # tr) (lc_token c) = Some (le_authKeyId e') \<and>
      lastApproval (EvRolledBack (lc_token c) # tr) (lc_token c) = le_identity e' \<and>
      (claimOpen (EvRolledBack (lc_token c) # tr) (lc_token c) \<longrightarrow> le_claimed e')"
    using hist by (auto simp: get history_ok_def split: if_splits)
qed simp

lemma ltReach_history: "ltReach cfg s tr \<Longrightarrow> history_ok tr s"
proof (induction rule: ltReach.induct)
  case start
  then show ?case by (simp add: history_ok_def newLoginTokenStore_def)
next
  case (issue s tr token now a source r s')
  then show ?case using ltIssue_history ltReach_inv by metis
next
  case (approve s tr now token i r s')
  then show ?case using ltApprove_history ltReach_inv by metis
next
  case (expiresAt s tr now token x s')
  obtain g where "ltGet now (tokenKey token) s = (g, s')"
    using expiresAt(2) by (auto simp: ltExpiresAt_def split: prod.splits)
  then show ?case using history_sub [OF expiresAt(3)] ltGet_sub [OF ltReach_inv [OF expiresAt(1)]] by blast
next
  case (claimToken s tr now token a c s')
  then show ?case using ltClaimEntry_history(1) ltReach_inv unfolding ltClaimToken_def by metis
next
  case (claimApproved s tr now a c s')
  show ?case
  proof (cases "truthy (js_get (lt_approvedByAuthKey s) (tokenKey a))")
    case None
    then show ?thesis using claimApproved by (simp add: ltClaimApproved_def Let_def evClaim_def)
  next
    case (Some t)
    then have "ltClaimEntry now t (tokenKey a) s = (c, s')" using claimApproved(2) by (simp add: ltClaimApproved_def Let_def)
    from ltClaimEntry_history(1) [OF ltReach_inv [OF claimApproved(1)] claimApproved(3) this] show ?thesis .
  qed
next
  case (commit s tr c)
  have "sub_entries (ltCommit c s) s"
    using ltDelete_sub [OF ltReach_inv [OF commit(1)]] by (auto simp: ltCommit_def split: option.splits)
  then show ?case using history_sub [OF commit(2)] by blast
next
  case (rollback s tr c)
  then show ?case by (intro ltRollback_history)
qed

section \<open>Properties\<close>

lemma ltClaimApproved_claim:
  "ltClaimApproved now a s = (Some c, s') \<Longrightarrow> \<exists>t. ltClaimEntry now t (tokenKey a) s = (Some c, s')"
  by (auto simp: ltClaimApproved_def Let_def split: option.splits)

text \<open>
  C16. A login identity is handed out only to the auth key the token was last issued to, only
  as it was approved since, and at most once: whenever a claim succeeds, no earlier claim of
  that token is outstanding (not rolled back) since it was issued. This holds for every order
  of operations and every behaviour of the clock.
\<close>

theorem login_claim_is_authorized:
  assumes "ltReach cfg s tr"
    and "ltClaimToken now token a s = (Some c, s') \<or> ltClaimApproved now a s = (Some c, s')"
  shows "lastOwner tr (lc_token c) = Some (tokenKey a) \<and> lastApproval tr (lc_token c) = Some (lc_identity c) \<and>
    \<not> claimOpen tr (lc_token c)"
proof -
  obtain t where "ltClaimEntry now t (tokenKey a) s = (Some c, s')"
    using assms(2) ltClaimApproved_claim unfolding ltClaimToken_def by metis
  from ltClaimEntry_history(2) [OF ltReach_inv [OF assms(1)] ltReach_history [OF assms(1)] this]
  show ?thesis by auto
qed

definition demoIdentity :: ltIdentity where
  "demoIdentity = \<lparr>li_platformId = ''qq'', li_platformSessionId = ''s''\<rparr>"

definition demoIssued :: ltStore where
  "demoIssued = snd (ltIssue defaultLoginTokenConfig 0 [1] [2] (Some ''ip'') newLoginTokenStore)"

definition demoApproved :: ltStore where
  "demoApproved = snd (ltApprove 10 [2] demoIdentity demoIssued)"

lemma demo_issue: "ltIssue defaultLoginTokenConfig 0 [1] [2] (Some ''ip'') newLoginTokenStore = (Inr [2], demoIssued)"
  unfolding demoIssued_def by code_simp

lemma demo_approve: "ltApprove 10 [2] demoIdentity demoIssued = (Some [1], demoApproved)"
  unfolding demoApproved_def demoIssued_def by code_simp

lemma demo_claim:
  "ltClaimApproved 20 [1] demoApproved = (Some \<lparr>lc_identity = demoIdentity, lc_token = ''02'', lc_authKeyId = ''01''\<rparr>,
     snd (ltClaimApproved 20 [1] demoApproved))"
  unfolding demoApproved_def demoIssued_def by code_simp

lemma ltDemo_reach: "ltReach defaultLoginTokenConfig demoApproved [EvApproved ''02'' demoIdentity, EvIssued ''02'' ''01'']"
proof -
  have keys: "tokenKey [1] = ''01''" "tokenKey [2] = ''02''" by code_simp+
  have "ltReach defaultLoginTokenConfig demoIssued [EvIssued ''02'' ''01'']"
    using ltReach.issue [OF ltReach.start _ demo_issue] by (simp add: evIssue_def keys)
  from ltReach.approve [OF this demo_approve] show ?thesis by (simp add: evApprove_def keys)
qed

theorem login_claim_is_authorized_witness:
  "lastOwner [EvApproved ''02'' demoIdentity, EvIssued ''02'' ''01''] ''02'' = Some (tokenKey [1]) \<and>
   \<not> claimOpen [EvApproved ''02'' demoIdentity, EvIssued ''02'' ''01''] ''02''"
  using login_claim_is_authorized [OF ltDemo_reach disjI2 [OF demo_claim]] by simp

text \<open>
  The token store stays within its limits (entries in total and per source), an auth key
  has at most one token, and an approved token that is neither claimed nor expired is found
  by its auth key without naming it.
\<close>

theorem login_store_consistent:
  assumes "ltReach cfg s tr"
  shows "length (lt_entries s) \<le> ltc_maxEntries cfg \<and>
    (\<forall>src. card {t. \<exists>e. js_get (lt_entries s) t = Some e \<and> truthy (le_source e) = Some src} \<le> ltc_maxEntriesPerSource cfg) \<and>
    (\<forall>t t' e e'. js_get (lt_entries s) t = Some e \<and> js_get (lt_entries s) t' = Some e' \<and>
       le_authKeyId e = le_authKeyId e' \<longrightarrow> t = t') \<and>
    (\<forall>t e i a now. js_get (lt_entries s) t = Some e \<and> le_identity e = Some i \<and> \<not> le_claimed e \<and>
       now < le_expiresAt e \<and> le_authKeyId e = tokenKey a \<longrightarrow>
       fst (ltClaimApproved now a s) = Some \<lparr>lc_identity = i, lc_token = t, lc_authKeyId = tokenKey a\<rparr>)"
proof -
  have inv: "lt_maps s" "auth_index s" "approved_index s" "lt_limits cfg s"
    using ltReach_inv [OF assms] by (simp_all add: lt_inv_def lt_index_def)
  have found: "fst (ltClaimApproved now a s) = Some \<lparr>lc_identity = i, lc_token = t, lc_authKeyId = tokenKey a\<rparr>"
    if e: "js_get (lt_entries s) t = Some e" "le_identity e = Some i" "\<not> le_claimed e" "now < le_expiresAt e"
      "le_authKeyId e = tokenKey a" for t e i a now
  proof -
    have "js_get (lt_approvedByAuthKey s) (tokenKey a) = Some t" using inv(3) e by (simp add: approved_index_def)
    moreover have "t \<noteq> []" using inv(1) e(1) by (auto simp: lt_maps_def)
    ultimately have "truthy (js_get (lt_approvedByAuthKey s) (tokenKey a)) = Some t" by (simp add: truthy_Some)
    moreover have "ltGet now t s = (Some e, s)" using e by (simp add: ltGet_def)
    ultimately show ?thesis using e by (simp add: ltClaimApproved_def Let_def ltClaimEntry_def)
  qed
  have uniq: "t = t'" if "js_get (lt_entries s) t = Some e" "js_get (lt_entries s) t' = Some e'"
    "le_authKeyId e = le_authKeyId e'" for t t' e e'
    using auth_unique [OF inv(2) that] .
  show ?thesis
    using inv(4) found uniq unfolding lt_limits_def sourceTokens_def by blast
qed

theorem login_store_consistent_witness:
  "length (lt_entries demoApproved) \<le> 1024 \<and> fst (ltClaimApproved 20 [1] demoApproved) \<noteq> None"
  using login_store_consistent [OF ltDemo_reach] demo_claim by (simp add: defaultLoginTokenConfig_def prod_eq_iff)

section \<open>Transfer tickets\<close>

lemma transferPrune_inv: "js_inv m \<Longrightarrow> js_inv (transferPrune now m)"
proof -
  have "js_inv m' \<Longrightarrow> js_inv (foldl (\<lambda>m' (key, entry). if te_expiresAt entry \<le> now then js_delete key m' else m') m' es)"
    for m' es by (induction es arbitrary: m') (auto split: prod.splits)
  then show "js_inv m \<Longrightarrow> ?thesis" by (simp add: transferPrune_def)
qed

lemma freshId_unused: "freshId ids m = Some x \<Longrightarrow> js_get m (longString x) = None"
  by (induction ids) (auto split: if_splits)

text \<open>
  A transfer ticket works once: it is redeemed exactly with the bytes it was issued with
  and before it expires, it yields the identity it was issued for, and afterwards the same
  ticket is refused; a wrong secret leaves a valid ticket usable.
\<close>

theorem transfer_ticket_one_shot:
  assumes "js_inv m" and "transferIssue ttl now ids secret i dc m = Some ((x, bs), m1)"
  shows "bs = secret \<and> (now' < now + ttl \<longrightarrow>
      (transferTake now' x b m1 = (if b = secret then (Some i, js_delete (longString x) m1) else (None, m1)))) \<and>
    (\<not> now' < now + ttl \<longrightarrow> fst (transferTake now' x b m1) = None) \<and>
    fst (transferTake now'' x b' (snd (transferTake now' x secret m1))) = None"
proof -
  obtain e where m1: "m1 = js_set (longString x) e (transferPrune now m)" and bs: "bs = secret"
    and e: "te_bytes e = secret" "te_identity e = i" "te_expiresAt e = now + ttl"
    using assms(2) by (auto simp: transferIssue_def Let_def split: option.splits)
  have get: "js_get m1 (longString x) = Some e" by (simp add: m1 js_get_set)
  then show ?thesis
    using bs e by (auto simp: transferTake_def transferGetValid_def equalBytes_def js_get_delete split: if_splits)
qed

theorem transfer_ticket_one_shot_witness:
  "\<exists>m1. transferIssue 60000 0 [7] [1, 2] demoIdentity 2 [] = Some ((7, [1, 2]), m1) \<and>
    fst (transferTake 10 7 [1, 2] m1) = Some demoIdentity"
proof -
  obtain m1 where m1: "transferIssue 60000 0 [7] [1, 2] demoIdentity 2 [] = Some ((7, [1, 2]), m1)"
    by (simp add: transferIssue_def transferPrune_def)
  from transfer_ticket_one_shot [OF js_inv_Nil m1, of 10 "[1, 2]" 0 "[]"] m1 show ?thesis by auto
qed

end
