(* ===== verification/Voice_Calls.thy ===== *)
theory Voice_Calls
  imports Js_Map
begin

text \<open>
  One-to-one voice calls (\<open>packages/bridge/src/voice/call-registry.ts\<close>): the in-memory state
  machine between Telegram clients, the native voice worker and the platform.

  A \<open>StoredCall\<close> object is named by the key under which \<open>_calls\<close> holds it; the other maps of
  the registry refer to calls and tombstones by that key. Byte arrays are values, so the
  code's defensive copies disappear and wiping a buffer is dropping the field.

  Every operation runs under \<open>_serialize\<close> of its session: operations of one session never
  interleave, and operations of other sessions touch other calls, so an operation is one
  function on the registry. What it awaits is answered by its \<open>callEnv\<close>: the clock, random
  ids, the worker, the media provider, the platform control and the deliveries (\<open>ce_deliver\<close>
  by the number of updates published so far, of which \<open>cr_published\<close> is the record). An
  exception is \<open>Inl\<close>; errors of the outside are \<open>ExternalError\<close>. One operation reads the clock as
  one value and asks the worker at most once. \<open>rq_randomId\<close> is an \<open>int\<close>, which is what
  \<open>_requireRandomId\<close> checks. A missing \<open>publish\<close> is one that delivers to no client.
\<close>

section \<open>Data\<close>

datatype voiceError = VoiceCallError string | ExternalError

datatype callRole = Caller | Recipient

datatype callState = Initializing | Requested | Received | Accepted | Active | Discarded

datatype discardReason = ReasonMissed | ReasonDisconnect | ReasonHangup | ReasonBusy

datatype workerState = WorkerReady | WorkerMediaActive | WorkerBusy | WorkerUnsupported

record callProtocol =
  cp_udpP2p :: bool
  cp_udpReflector :: bool
  cp_minLayer :: int
  cp_maxLayer :: int
  cp_libraryVersions :: "string list"

record workerEndpoint =
  we_id :: Long
  we_ipv4 :: string
  we_ipv6 :: string
  we_port :: int
  we_peerTag :: bytes
  we_kind :: string

record rtcServer =
  rs_id :: int
  rs_host :: string
  rs_port :: int
  rs_username :: string
  rs_password :: string
  rs_turn :: bool

record mediaConfig =
  mc_enableP2p :: bool
  mc_endpoints :: "workerEndpoint list"
  mc_rtcServers :: "rtcServer list option"

datatype connection =
    PhoneConnection Long string string int bytes bool
  | PhoneConnectionWebrtc Long string string int string string "bool option" "bool option"

text \<open>\<open>tl.TypePhoneCall\<close>: id, access hash, date, admin, participant, then what differs.\<close>

datatype phoneCall =
    PhoneCallRequested Long Long int int int bytes callProtocol
  | PhoneCallWaiting Long Long int int int callProtocol int
  | PhoneCallAccepted Long Long int int int bytes callProtocol
  | PhoneCallActive bool Long Long int int int bytes Long callProtocol "connection list" int
  | PhoneCallDiscarded Long "discardReason option" "int option"

record storedCall =
  sc_id :: Long
  sc_accessHash :: Long
  sc_session :: string
  sc_adminId :: int
  sc_participantId :: int
  sc_date :: int
  sc_receiveDate :: "int option"
  sc_startDate :: "int option"
  sc_callerProtocol :: callProtocol
  sc_recipientProtocol :: "callProtocol option"
  sc_negotiatedProtocol :: callProtocol
  sc_telegramRole :: callRole
  sc_randomId :: "int option"
  sc_incomingDigest :: "string option"
  sc_pendingDelivery :: "phoneCall option"
  sc_pendingExclude :: "string option"
  sc_state :: callState
  sc_deadline :: int
  sc_gAHash :: "bytes option"
  sc_gB :: "bytes option"
  sc_gA :: "bytes option"
  sc_keyFingerprint :: "Long option"
  sc_discarded :: "discardReason option"
  sc_duration :: "int option"
  sc_media :: bool
  sc_connections :: "connection list option"
  sc_p2pAllowed :: "bool option"
  sc_platformCallRef :: "string option"
  sc_platformControl :: bool

record tombstone =
  tb_id :: Long
  tb_accessHash :: Long
  tb_sessionId :: string
  tb_adminId :: int
  tb_participantId :: int
  tb_telegramRole :: callRole
  tb_randomId :: "int option"
  tb_incomingDigest :: "string option"
  tb_phoneCall :: phoneCall
  tb_pendingDelivery :: bool
  tb_expiresAt :: int

record callRequest =
  rq_session :: string
  rq_selfId :: int
  rq_participantId :: int
  rq_randomId :: int
  rq_gAHash :: bytes
  rq_protocol :: callProtocol
  rq_exclude :: "string option"

record incomingCall =
  ic_session :: string
  ic_selfId :: int
  ic_callerId :: int
  ic_correlationId :: string
  ic_platformCallRef :: "string option"
  ic_platformControl :: bool

record callPeer =
  pe_id :: Long
  pe_accessHash :: Long

record callRegistry =
  cr_calls :: "(string, storedCall) jsmap"
  cr_sessionCalls :: "(string, string) jsmap"
  cr_incomingCalls :: "(string, string) jsmap"
  cr_tombstones :: "(string, tombstone) jsmap"
  cr_incomingTombstones :: "(string, string) jsmap"
  cr_receipts :: "(string, int) jsmap"
  cr_signalTimes :: "(string, int list) jsmap"
  cr_debugTimes :: "(string, int list) jsmap"
  cr_published :: "(string \<times> phoneCall \<times> string option) list"

definition newCallRegistry :: callRegistry where
  "newCallRegistry = \<lparr>cr_calls = [], cr_sessionCalls = [], cr_incomingCalls = [], cr_tombstones = [],
     cr_incomingTombstones = [], cr_receipts = [], cr_signalTimes = [], cr_debugTimes = [], cr_published = []\<rparr>"

text \<open>The answers of the outside to one operation.\<close>

record workerReply =
  wr_state :: workerState
  wr_gAHash :: "bytes option"
  wr_gA :: "bytes option"
  wr_gB :: "bytes option"
  wr_keyFingerprint :: "Long option"

datatype delivery = Delivered int | DeliveryFails

record callEnv =
  ce_now :: int
  ce_timeoutMs :: int
  ce_draws :: "nat \<Rightarrow> Long"
  ce_worker :: "callProtocol option"
  ce_reply :: "workerReply option"
  ce_mediaConfig :: "voiceError + mediaConfig option"
  ce_mediaProvider :: bool
  ce_attach :: bool
  ce_control :: "string \<Rightarrow> bool"
  ce_deliver :: "nat \<Rightarrow> delivery"
  ce_send :: bool
  ce_hmac :: "string \<Rightarrow> string \<Rightarrow> string"

type_synonym 'a called = "(voiceError + 'a) \<times> callRegistry"

section \<open>Limits\<close>

definition GA_HASH_BYTES :: nat where "GA_HASH_BYTES = 32"
definition DH_PUBLIC_BYTES :: nat where "DH_PUBLIC_BYTES = 256"
definition MAX_SIGNALING_BYTES :: nat where "MAX_SIGNALING_BYTES = 4 * 1024"
definition MAX_SIGNALING_PER_MINUTE :: nat where "MAX_SIGNALING_PER_MINUTE = 32"
definition MAX_DEBUG_BYTES :: nat where "MAX_DEBUG_BYTES = 8 * 1024"
definition MAX_DEBUG_KEYS :: nat where "MAX_DEBUG_KEYS = 16"
definition MAX_DEBUG_PER_MINUTE :: nat where "MAX_DEBUG_PER_MINUTE = 8"
definition MAX_CALL_DURATION_SECONDS :: int where "MAX_CALL_DURATION_SECONDS = 86400"
definition TOMBSTONE_TTL_MS :: int where "TOMBSTONE_TTL_MS = 5 * 60000"
definition MAX_TOMBSTONES :: nat where "MAX_TOMBSTONES = 256"

lemmas voice_limits = GA_HASH_BYTES_def DH_PUBLIC_BYTES_def MAX_SIGNALING_BYTES_def MAX_SIGNALING_PER_MINUTE_def
  MAX_DEBUG_BYTES_def MAX_DEBUG_KEYS_def MAX_DEBUG_PER_MINUTE_def MAX_CALL_DURATION_SECONDS_def
  TOMBSTONE_TTL_MS_def MAX_TOMBSTONES_def

section \<open>Protocol values\<close>

definition sameWireLong :: "Long \<Rightarrow> Long \<Rightarrow> bool" where
  "sameWireLong left right \<longleftrightarrow> left = right"

definition callKey :: "Long \<Rightarrow> string" where
  "callKey i = longString i"

definition audioProtocolOk :: "callProtocol \<Rightarrow> bool" where
  "audioProtocolOk p \<longleftrightarrow>
     isSafeInteger (cp_minLayer p) \<and> isSafeInteger (cp_maxLayer p) \<and> \<not> cp_minLayer p < 1 \<and>
     \<not> cp_maxLayer p < cp_minLayer p \<and> \<not> list_ex (\<lambda>v. v = []) (cp_libraryVersions p)"

definition workerProtocol :: "callEnv \<Rightarrow> voiceError + callProtocol" where
  "workerProtocol env =
    (case ce_worker env of
       None \<Rightarrow> Inl (VoiceCallError ''CALL_MEDIA_UNAVAILABLE'')
     | Some p \<Rightarrow>
         if \<not> audioProtocolOk p then Inl (VoiceCallError ''CALL_PROTOCOL_INVALID'')
         else if cp_libraryVersions p = [] then Inl (VoiceCallError ''CALL_PROTOCOL_INVALID'')
         else Inr p)"

definition negotiateProtocol :: "callProtocol \<Rightarrow> callProtocol \<Rightarrow> voiceError + callProtocol" where
  "negotiateProtocol caller recipient =
    (let minLayer = max (cp_minLayer caller) (cp_minLayer recipient);
         maxLayer = min (cp_maxLayer caller) (cp_maxLayer recipient);
         libraryVersions = filter (\<lambda>v. v \<in> set (cp_libraryVersions recipient)) (cp_libraryVersions caller)
     in if minLayer > maxLayer \<or> libraryVersions = [] then Inl (VoiceCallError ''CALL_PROTOCOL_INVALID'')
        else Inr \<lparr>cp_udpP2p = cp_udpP2p caller \<and> cp_udpP2p recipient,
                  cp_udpReflector = cp_udpReflector caller \<and> cp_udpReflector recipient,
                  cp_minLayer = minLayer, cp_maxLayer = maxLayer, cp_libraryVersions = libraryVersions\<rparr>)"

definition connectionsFromConfig :: "mediaConfig \<Rightarrow> connection list" where
  "connectionsFromConfig config =
     map (\<lambda>e. PhoneConnection (we_id e) (we_ipv4 e) (we_ipv6 e) (we_port e) (we_peerTag e) (we_kind e = ''tcp-relay''))
       (mc_endpoints config) @
     map (\<lambda>s. PhoneConnectionWebrtc (word_of_int (rs_id s)) (rs_host s) [] (rs_port s) (rs_username s) (rs_password s)
         (if rs_turn s then Some True else None) (if \<not> rs_turn s then Some True else None))
       (case mc_rtcServers config of Some ss \<Rightarrow> ss | None \<Rightarrow> [])"

definition applyMediaStartConfig :: "storedCall \<Rightarrow> mediaConfig \<Rightarrow> voiceError + storedCall" where
  "applyMediaStartConfig call config =
    (let enableP2p = (cp_udpP2p (sc_negotiatedProtocol call) \<and> mc_enableP2p config);
         effective = config\<lparr>mc_enableP2p := enableP2p\<rparr>
     in if mc_endpoints effective = [] \<and>
           (case mc_rtcServers effective of None \<Rightarrow> True | Some ss \<Rightarrow> ss = []) \<and> \<not> enableP2p
        then Inl (VoiceCallError ''CALL_MEDIA_UNAVAILABLE'')
        else Inr (call\<lparr>sc_connections := Some (connectionsFromConfig effective),
                       sc_p2pAllowed := Some enableP2p,
                       sc_negotiatedProtocol := (sc_negotiatedProtocol call)\<lparr>cp_udpP2p := enableP2p\<rparr>\<rparr>))"

section \<open>What clients are shown\<close>

definition getOr :: "'a \<Rightarrow> 'a option \<Rightarrow> 'a" where
  "getOr d x = (case x of Some v \<Rightarrow> v | None \<Rightarrow> d)"

definition pcRequested :: "storedCall \<Rightarrow> phoneCall" where
  "pcRequested c = PhoneCallRequested (sc_id c) (sc_accessHash c) (sc_date c) (sc_adminId c) (sc_participantId c)
     (getOr [] (sc_gAHash c)) (sc_callerProtocol c)"

definition pcWaiting :: "storedCall \<Rightarrow> phoneCall" where
  "pcWaiting c = PhoneCallWaiting (sc_id c) (sc_accessHash c) (sc_date c) (sc_adminId c) (sc_participantId c)
     (sc_callerProtocol c) (getOr (sc_date c) (sc_receiveDate c))"

definition pcAccepted :: "storedCall \<Rightarrow> phoneCall" where
  "pcAccepted c = PhoneCallAccepted (sc_id c) (sc_accessHash c) (sc_date c) (sc_adminId c) (sc_participantId c)
     (getOr [] (sc_gB c)) (getOr (sc_callerProtocol c) (sc_recipientProtocol c))"

definition pcDiscarded :: "storedCall \<Rightarrow> phoneCall" where
  "pcDiscarded c = PhoneCallDiscarded (sc_id c) (sc_discarded c) (sc_duration c)"

definition pcActive :: "storedCall \<Rightarrow> phoneCall" where
  "pcActive c = PhoneCallActive (sc_p2pAllowed c = Some True) (sc_id c) (sc_accessHash c) (sc_date c)
     (sc_adminId c) (sc_participantId c)
     (getOr [] (case sc_telegramRole c of Caller \<Rightarrow> sc_gB c | Recipient \<Rightarrow> sc_gA c))
     (getOr 0 (sc_keyFingerprint c)) (sc_negotiatedProtocol c) (getOr [] (sc_connections c))
     (getOr (sc_date c) (sc_startDate c))"

definition phoneCallOf :: "storedCall \<Rightarrow> voiceError + phoneCall" where
  "phoneCallOf c = (case sc_state c of
       Initializing \<Rightarrow> Inl (VoiceCallError ''CALL_STATE_INVALID'')
     | Requested \<Rightarrow> Inr (pcRequested c)
     | Received \<Rightarrow> Inr (pcWaiting c)
     | Accepted \<Rightarrow> Inr (pcAccepted c)
     | Active \<Rightarrow> Inr (pcActive c)
     | Discarded \<Rightarrow> Inr (pcDiscarded c))"

section \<open>The maps of the registry\<close>

definition setCall :: "storedCall \<Rightarrow> callRegistry \<Rightarrow> callRegistry" where
  "setCall call r = r\<lparr>cr_calls := js_set (callKey (sc_id call)) call (cr_calls r)\<rparr>"

definition rememberCall :: "storedCall \<Rightarrow> callRegistry \<Rightarrow> callRegistry" where
  "rememberCall call r =
     (setCall call r)\<lparr>cr_sessionCalls := js_set (sc_session call) (callKey (sc_id call)) (cr_sessionCalls r)\<rparr>"

text \<open>\<open>_release\<close> and \<open>_forget\<close>: a map entry is removed when it is this call.\<close>

definition dropRef :: "string \<Rightarrow> string \<Rightarrow> (string, string) jsmap \<Rightarrow> (string, string) jsmap" where
  "dropRef key ref m = (if js_get m key = Some ref then js_delete key m else m)"

definition releaseCall :: "storedCall \<Rightarrow> callRegistry \<Rightarrow> callRegistry" where
  "releaseCall call r =
     r\<lparr>cr_sessionCalls := dropRef (sc_session call) (callKey (sc_id call)) (cr_sessionCalls r),
       cr_incomingCalls := (case sc_incomingDigest call of
           Some d \<Rightarrow> if d = [] then cr_incomingCalls r else dropRef d (callKey (sc_id call)) (cr_incomingCalls r)
         | None \<Rightarrow> cr_incomingCalls r)\<rparr>"

definition forgetCall :: "storedCall \<Rightarrow> callRegistry \<Rightarrow> callRegistry" where
  "forgetCall call r = releaseCall call (r\<lparr>cr_calls := js_delete (callKey (sc_id call)) (cr_calls r)\<rparr>)"

definition dropTombstone :: "string \<Rightarrow> callRegistry \<Rightarrow> callRegistry" where
  "dropTombstone key r =
    (case js_get (cr_tombstones r) key of
       None \<Rightarrow> r
     | Some t \<Rightarrow>
         r\<lparr>cr_tombstones := js_delete key (cr_tombstones r),
           cr_incomingTombstones := (case tb_incomingDigest t of
               Some d \<Rightarrow> if d = [] then cr_incomingTombstones r else dropRef d key (cr_incomingTombstones r)
             | None \<Rightarrow> cr_incomingTombstones r)\<rparr>)"

definition pruneTombstones :: "int \<Rightarrow> callRegistry \<Rightarrow> callRegistry" where
  "pruneTombstones now r =
    (let r1 = foldl (\<lambda>r (key, t). if tb_expiresAt t \<le> now then dropTombstone key r else r) r (cr_tombstones r)
     in r1\<lparr>cr_receipts := foldl (\<lambda>m (key, expiresAt). if expiresAt \<le> now then js_delete key m else m)
             (cr_receipts r1) (cr_receipts r1)\<rparr>)"

text \<open>\<open>while (size > MAX_TOMBSTONES) dropTombstone(first key)\<close>; \<open>fuel\<close> bounds the iterations, and
  the number of tombstones is enough.\<close>

fun evictTombstones :: "nat \<Rightarrow> callRegistry \<Rightarrow> callRegistry" where
  "evictTombstones 0 r = r"
| "evictTombstones (Suc fuel) r =
    (if length (cr_tombstones r) > MAX_TOMBSTONES
     then evictTombstones fuel (dropTombstone (fst (hd (cr_tombstones r))) r) else r)"

definition rememberReceipt :: "int \<Rightarrow> string \<Rightarrow> callRegistry \<Rightarrow> callRegistry" where
  "rememberReceipt now key r =
     r\<lparr>cr_receipts := evictOldest MAX_TOMBSTONES (js_set key (now + TOMBSTONE_TTL_MS) (cr_receipts r))\<rparr>"

definition makeTombstone :: "int \<Rightarrow> storedCall \<Rightarrow> phoneCall \<Rightarrow> bool \<Rightarrow> tombstone" where
  "makeTombstone now call pc pending =
     \<lparr>tb_id = sc_id call, tb_accessHash = sc_accessHash call, tb_sessionId = sc_session call,
      tb_adminId = sc_adminId call, tb_participantId = sc_participantId call,
      tb_telegramRole = sc_telegramRole call, tb_randomId = sc_randomId call,
      tb_incomingDigest = sc_incomingDigest call, tb_phoneCall = pc, tb_pendingDelivery = pending,
      tb_expiresAt = now + TOMBSTONE_TTL_MS\<rparr>"

text \<open>\<open>_retire\<close>: the call leaves the registry (with the secrets it holds) and becomes a tombstone.\<close>

definition retireCall :: "int \<Rightarrow> storedCall \<Rightarrow> phoneCall \<Rightarrow> bool \<Rightarrow> callRegistry \<Rightarrow> callRegistry" where
  "retireCall now call pc pending r0 =
    (let t = makeTombstone now call pc pending;
         key = callKey (sc_id call);
         r1 = forgetCall call r0;
         r2 = r1\<lparr>cr_signalTimes := js_delete key (cr_signalTimes r1),
                 cr_debugTimes := js_delete key (cr_debugTimes r1),
                 cr_tombstones := js_set key t (cr_tombstones r1),
                 cr_incomingTombstones := (case tb_incomingDigest t of
                     Some d \<Rightarrow> if d = [] then cr_incomingTombstones r1 else js_set d key (cr_incomingTombstones r1)
                   | None \<Rightarrow> cr_incomingTombstones r1)\<rparr>;
         r3 = pruneTombstones now r2
     in evictTombstones (length (cr_tombstones r3)) r3)"

definition findCall :: "callEnv \<Rightarrow> string \<Rightarrow> callPeer \<Rightarrow> callRegistry \<Rightarrow> storedCall called" where
  "findCall env session peer r0 =
    (let r = pruneTombstones (ce_now env) r0 in
     case js_get (cr_calls r) (callKey (pe_id peer)) of
       None \<Rightarrow> (Inl (VoiceCallError ''CALL_PEER_INVALID''), r)
     | Some call \<Rightarrow>
         if sc_session call \<noteq> session \<or> \<not> sameWireLong (sc_accessHash call) (pe_accessHash peer)
         then (Inl (VoiceCallError ''CALL_PEER_INVALID''), r)
         else (Inr call, r))"

definition findOrTombstone ::
    "callEnv \<Rightarrow> string \<Rightarrow> callPeer \<Rightarrow> callRegistry \<Rightarrow> (storedCall + tombstone) called" where
  "findOrTombstone env session peer r0 =
    (let r = pruneTombstones (ce_now env) r0; key = callKey (pe_id peer);
         tomb = (case js_get (cr_tombstones r) key of
             None \<Rightarrow> (Inl (VoiceCallError ''CALL_PEER_INVALID''), r)
           | Some t \<Rightarrow> if tb_sessionId t = session \<and> sameWireLong (tb_accessHash t) (pe_accessHash peer)
               then (Inr (Inr t), r) else (Inl (VoiceCallError ''CALL_PEER_INVALID''), r))
     in case js_get (cr_calls r) key of
          None \<Rightarrow> tomb
        | Some call \<Rightarrow>
            if sc_session call = session \<and> sameWireLong (sc_accessHash call) (pe_accessHash peer)
            then (Inr (Inl call), r) else tomb)"

definition isMatchingRequest :: "callRole \<Rightarrow> int \<Rightarrow> int \<Rightarrow> int option \<Rightarrow> callRequest \<Rightarrow> bool" where
  "isMatchingRequest role admin participant randomId input \<longleftrightarrow>
     role = Caller \<and> admin = rq_selfId input \<and> participant = rq_participantId input \<and>
     randomId = Some (rq_randomId input)"

definition findRequestTombstone :: "callRequest \<Rightarrow> callRegistry \<Rightarrow> voiceError + tombstone option" where
  "findRequestTombstone input r =
    (let ts = filter (\<lambda>t. tb_sessionId t = rq_session input \<and> tb_telegramRole t = Caller \<and>
                tb_randomId t = Some (rq_randomId input)) (map snd (cr_tombstones r))
     in if ts = [] then Inr None
        else (case find (\<lambda>t. isMatchingRequest (tb_telegramRole t) (tb_adminId t) (tb_participantId t)
                       (tb_randomId t) input) ts of
                None \<Rightarrow> Inl (VoiceCallError ''CALL_OCCUPY_FAILED'')
              | Some t \<Rightarrow> Inr (Some t)))"

text \<open>\<open>_uniqueRandomLong\<close> with the number of attempts left; it returns the next draw as well.\<close>

fun uniqueLong :: "nat \<Rightarrow> (nat \<Rightarrow> Long) \<Rightarrow> nat \<Rightarrow> (Long \<Rightarrow> bool) \<Rightarrow> (Long \<times> nat) option" where
  "uniqueLong 0 draws i inUse = None"
| "uniqueLong (Suc n) draws i inUse =
    (if draws i \<noteq> 0 \<and> \<not> inUse (draws i) then Some (draws i, Suc i) else uniqueLong n draws (Suc i) inUse)"

definition createCall ::
    "callEnv \<Rightarrow> string \<Rightarrow> int \<Rightarrow> int \<Rightarrow> callProtocol \<Rightarrow> callRole \<Rightarrow> int option \<Rightarrow> string option \<Rightarrow> callProtocol \<Rightarrow>
     callRegistry \<Rightarrow> voiceError + storedCall" where
  "createCall env session adminId participantId protocol role randomId digest negotiated r =
    (if \<not> isSafeInteger adminId \<or> \<not> isSafeInteger participantId \<or> adminId = participantId
     then Inl (VoiceCallError ''CALL_USER_INVALID'')
     else case uniqueLong 128 (ce_draws env) 0
            (\<lambda>v. js_has (cr_calls r) (callKey v) \<or> js_has (cr_tombstones r) (callKey v)) of
       None \<Rightarrow> Inl (VoiceCallError ''CALL_ID_GENERATION_FAILED'')
     | Some (i, n) \<Rightarrow>
         (case uniqueLong 128 (ce_draws env) n
            (\<lambda>v. sameWireLong v i \<or> list_ex (\<lambda>c. sameWireLong (sc_accessHash c) v) (map snd (cr_calls r)) \<or>
               list_ex (\<lambda>t. sameWireLong (tb_accessHash t) v) (map snd (cr_tombstones r))) of
            None \<Rightarrow> Inl (VoiceCallError ''CALL_ID_GENERATION_FAILED'')
          | Some (h, _) \<Rightarrow>
              Inr \<lparr>sc_id = i, sc_accessHash = h, sc_session = session, sc_adminId = adminId,
                   sc_participantId = participantId, sc_date = ce_now env div 1000,
                   sc_receiveDate = None, sc_startDate = None, sc_callerProtocol = protocol,
                   sc_recipientProtocol = None, sc_negotiatedProtocol = negotiated,
                   sc_telegramRole = role, sc_randomId = randomId, sc_incomingDigest = digest,
                   sc_pendingDelivery = None, sc_pendingExclude = None, sc_state = Requested,
                   sc_deadline = ce_now env + ce_timeoutMs env,
                   sc_gAHash = None, sc_gB = None, sc_gA = None, sc_keyFingerprint = None,
                   sc_discarded = None, sc_duration = None, sc_media = False, sc_connections = None,
                   sc_p2pAllowed = None, sc_platformCallRef = None, sc_platformControl = False\<rparr>))"

section \<open>Deliveries and the outside\<close>

definition publishCall :: "callEnv \<Rightarrow> string \<Rightarrow> phoneCall \<Rightarrow> string option \<Rightarrow> callRegistry \<Rightarrow> int called" where
  "publishCall env session pc exclude r =
    (let n = length (cr_published r); r1 = r\<lparr>cr_published := cr_published r @ [(session, pc, exclude)]\<rparr>
     in case ce_deliver env n of
          DeliveryFails \<Rightarrow> (Inl ExternalError, r1)
        | Delivered d \<Rightarrow> (Inr (if isSafeInteger d \<and> d > 0 then d else 0), r1))"

definition deliverPending :: "callEnv \<Rightarrow> string \<Rightarrow> callRegistry \<Rightarrow> unit called" where
  "deliverPending env key r =
    (case js_get (cr_calls r) key of
       None \<Rightarrow> (Inr (), r)
     | Some call \<Rightarrow>
         (case sc_pendingDelivery call of
            None \<Rightarrow> (Inr (), r)
          | Some pc \<Rightarrow>
              (case publishCall env (sc_session call) pc (sc_pendingExclude call) r of
                 (Inl e, r1) \<Rightarrow> (Inl e, r1)
               | (Inr n, r1) \<Rightarrow>
                   (Inr (), if n > 0 then setCall (call\<lparr>sc_pendingDelivery := None, sc_pendingExclude := None\<rparr>) r1 else r1))))"

definition deliverTombstone ::
    "callEnv \<Rightarrow> string \<Rightarrow> tombstone \<Rightarrow> string option \<Rightarrow> callRegistry \<Rightarrow> unit called" where
  "deliverTombstone env session t exclude r =
    (if \<not> tb_pendingDelivery t then (Inr (), r)
     else case publishCall env session (tb_phoneCall t) exclude r of
            (Inl e, r1) \<Rightarrow> (Inl e, r1)
          | (Inr n, r1) \<Rightarrow>
              (Inr (), if n > 0 then r1\<lparr>cr_tombstones := js_set (callKey (tb_id t)) (t\<lparr>tb_pendingDelivery := False\<rparr>)
                                          (cr_tombstones r1)\<rparr> else r1))"

definition publishTransition :: "callEnv \<Rightarrow> storedCall \<Rightarrow> string option \<Rightarrow> callRegistry \<Rightarrow> unit called" where
  "publishTransition env call exclude r =
    (case phoneCallOf call of
       Inl e \<Rightarrow> (Inl e, r)
     | Inr pc \<Rightarrow>
         deliverPending env (callKey (sc_id call))
           (setCall (call\<lparr>sc_pendingDelivery := Some pc, sc_pendingExclude := exclude\<rparr>) r))"

definition requireWorker :: "string \<Rightarrow> callEnv \<Rightarrow> voiceError + workerReply" where
  "requireWorker operation env =
    (if ce_worker env = None
     then Inl (VoiceCallError (if operation = ''prepareTelegramRecipient'' then ''CALL_OUTGOING_UNSUPPORTED''
                               else ''CALL_MEDIA_UNAVAILABLE''))
     else case ce_reply env of
            None \<Rightarrow> Inl ExternalError
          | Some st \<Rightarrow>
              if wr_state st = WorkerBusy then Inl (VoiceCallError ''CALL_OCCUPY_FAILED'')
              else if wr_state st = WorkerUnsupported then Inl (VoiceCallError ''CALL_MEDIA_UNAVAILABLE'')
              else Inr st)"

definition controlPlatform :: "callEnv \<Rightarrow> storedCall \<Rightarrow> string \<Rightarrow> voiceError + unit" where
  "controlPlatform env call operation =
    (if \<not> sc_platformControl call then Inr ()
     else if ce_control env operation then Inr () else Inl ExternalError)"

definition attachMedia :: "callEnv \<Rightarrow> storedCall \<Rightarrow> voiceError + storedCall" where
  "attachMedia env call =
    (if \<not> ce_mediaProvider env then Inr call
     else if sc_media call then Inl (VoiceCallError ''CALL_OCCUPY_FAILED'')
     else if ce_attach env then Inr (call\<lparr>sc_media := True\<rparr>)
     else Inl (VoiceCallError ''CALL_MEDIA_UNAVAILABLE''))"

definition mediaConfigFor :: "callEnv \<Rightarrow> voiceError + mediaConfig" where
  "mediaConfigFor env = (case ce_mediaConfig env of
       Inl e \<Rightarrow> Inl e
     | Inr None \<Rightarrow> Inl (VoiceCallError ''CALL_MEDIA_UNAVAILABLE'')
     | Inr (Some config) \<Rightarrow> Inr config)"

text \<open>\<open>_teardownWorkerCall\<close>: failures of the worker and of the media are swallowed.\<close>

definition teardownCall :: "storedCall \<Rightarrow> storedCall" where
  "teardownCall call = call\<lparr>sc_media := False\<rparr>"

definition ringing :: "callState \<Rightarrow> bool" where
  "ringing st \<longleftrightarrow> st = Initializing \<or> st = Requested \<or> st = Received"

text \<open>The common end of a call: publish the discarded form, retire in any case, rethrow.\<close>

definition publishDiscarded :: "callEnv \<Rightarrow> storedCall \<Rightarrow> string option \<Rightarrow> callRegistry \<Rightarrow> phoneCall called" where
  "publishDiscarded env call exclude r =
    (let pc = pcDiscarded call in
     case publishCall env (sc_session call) pc exclude r of
       (Inl e, r1) \<Rightarrow> (Inl e, retireCall (ce_now env) call pc True r1)
     | (Inr n, r1) \<Rightarrow> (Inr pc, retireCall (ce_now env) call pc (n \<le> 0) r1))"

definition abortCall :: "callEnv \<Rightarrow> storedCall \<Rightarrow> string option \<Rightarrow> callRegistry \<Rightarrow> callRegistry" where
  "abortCall env call exclude r =
     snd (publishDiscarded env
       ((teardownCall call)\<lparr>sc_state := Discarded, sc_discarded := Some ReasonDisconnect\<rparr>) exclude r)"

definition serialize :: "callEnv \<Rightarrow> (callRegistry \<Rightarrow> 'a called) \<Rightarrow> callRegistry \<Rightarrow> 'a called" where
  "serialize env operation r = operation (pruneTombstones (ce_now env) r)"

section \<open>Operations\<close>

text \<open>The call that holds a session's line, if any.\<close>

definition sessionCall :: "string \<Rightarrow> callRegistry \<Rightarrow> storedCall option" where
  "sessionCall session r =
    (case js_get (cr_sessionCalls r) session of None \<Rightarrow> None | Some key \<Rightarrow> js_get (cr_calls r) key)"

definition wrapCall :: "string \<Rightarrow> callRegistry \<Rightarrow> phoneCall called" where
  "wrapCall key r = (case js_get (cr_calls r) key of
       None \<Rightarrow> (Inl (VoiceCallError ''CALL_PEER_INVALID''), r)
     | Some call \<Rightarrow> (phoneCallOf call, r))"

definition andThen :: "'a called \<Rightarrow> ('a \<Rightarrow> callRegistry \<Rightarrow> 'b called) \<Rightarrow> 'b called" where
  "andThen m f = (case m of (Inl e, r) \<Rightarrow> (Inl e, r) | (Inr x, r) \<Rightarrow> f x r)"

text \<open>\<open>request\<close>: the \<open>try\<close> block (the worker's part of the key exchange), and the whole.\<close>

definition prepareRecipient :: "callEnv \<Rightarrow> storedCall \<Rightarrow> voiceError + storedCall" where
  "prepareRecipient env call =
    (case requireWorker ''prepareTelegramRecipient'' env of
       Inl e \<Rightarrow> Inl e
     | Inr st \<Rightarrow>
         (case wr_gB st of
            None \<Rightarrow> Inl (VoiceCallError ''CALL_HANDSHAKE_INVALID'')
          | Some gB \<Rightarrow> if length gB \<noteq> DH_PUBLIC_BYTES then Inl (VoiceCallError ''CALL_HANDSHAKE_INVALID'')
              else Inr (call\<lparr>sc_gB := Some gB\<rparr>)))"

definition startRequest :: "callEnv \<Rightarrow> callRequest \<Rightarrow> callRegistry \<Rightarrow> phoneCall called" where
  "startRequest env input r =
    (if ce_worker env = None then (Inl (VoiceCallError ''CALL_OUTGOING_UNSUPPORTED''), r)
     else case workerProtocol env of
       Inl e \<Rightarrow> (Inl e, r)
     | Inr recipientProtocol \<Rightarrow>
       (case negotiateProtocol (rq_protocol input) recipientProtocol of
          Inl e \<Rightarrow> (Inl e, r)
        | Inr negotiated \<Rightarrow>
          (case createCall env (rq_session input) (rq_selfId input) (rq_participantId input) (rq_protocol input)
                  Caller (Some (rq_randomId input)) None negotiated r of
             Inl e \<Rightarrow> (Inl e, r)
           | Inr call0 \<Rightarrow>
             let call = call0\<lparr>sc_recipientProtocol := Some recipientProtocol, sc_gAHash := Some (rq_gAHash input)\<rparr>;
                 r1 = rememberCall call r
             in case prepareRecipient env call of
                  Inl e \<Rightarrow> (Inl e, forgetCall call r1)
                | Inr call' \<Rightarrow>
                    andThen (publishTransition env call' (rq_exclude input) r1)
                      (\<lambda>_. wrapCall (callKey (sc_id call'))))))"

definition freshRequest :: "callEnv \<Rightarrow> callRequest \<Rightarrow> callRegistry \<Rightarrow> phoneCall called" where
  "freshRequest env input r =
    (case findRequestTombstone input r of
       Inl e \<Rightarrow> (Inl e, r)
     | Inr (Some t) \<Rightarrow> (Inr (tb_phoneCall t), r)
     | Inr None \<Rightarrow> startRequest env input r)"

definition requestBody :: "callEnv \<Rightarrow> callRequest \<Rightarrow> callRegistry \<Rightarrow> phoneCall called" where
  "requestBody env input r =
    (case sessionCall (rq_session input) r of
       None \<Rightarrow> freshRequest env input r
     | Some existing \<Rightarrow>
         if sc_state existing = Discarded then freshRequest env input r
         else if isMatchingRequest (sc_telegramRole existing) (sc_adminId existing)
                   (sc_participantId existing) (sc_randomId existing) input
         then andThen (deliverPending env (callKey (sc_id existing)) r)
                (\<lambda>_. wrapCall (callKey (sc_id existing)))
         else (Inl (VoiceCallError ''CALL_OCCUPY_FAILED''), r))"

definition callRequest :: "callEnv \<Rightarrow> callRequest \<Rightarrow> callRegistry \<Rightarrow> phoneCall called" where
  "callRequest env input r =
    (if \<not> audioProtocolOk (rq_protocol input) then (Inl (VoiceCallError ''CALL_PROTOCOL_INVALID''), r)
     else if length (rq_gAHash input) \<noteq> GA_HASH_BYTES then (Inl (VoiceCallError ''CALL_HANDSHAKE_INVALID''), r)
     else serialize env (requestBody env input) r)"

definition prepareCaller :: "callEnv \<Rightarrow> storedCall \<Rightarrow> voiceError + storedCall" where
  "prepareCaller env call =
    (case requireWorker ''prepareTelegramCaller'' env of
       Inl e \<Rightarrow> Inl e
     | Inr st \<Rightarrow>
         (case wr_gAHash st of
            None \<Rightarrow> Inl (VoiceCallError ''CALL_HANDSHAKE_INVALID'')
          | Some h \<Rightarrow> if length h \<noteq> GA_HASH_BYTES then Inl (VoiceCallError ''CALL_HANDSHAKE_INVALID'')
              else Inr (call\<lparr>sc_gAHash := Some h, sc_state := Requested\<rparr>)))"

text \<open>The \<open>catch\<close> of \<open>receiveIncoming\<close>: with a platform control the call is rejected there and
  shown as discarded; without one, or when that fails, it is forgotten.\<close>

definition incomingFailed ::
    "callEnv \<Rightarrow> storedCall \<Rightarrow> voiceError \<Rightarrow> callRegistry \<Rightarrow> phoneCall option called" where
  "incomingFailed env call error r =
    (if sc_platformControl call then
       (case controlPlatform env call ''reject'' of
          Inl _ \<Rightarrow> (Inl error, forgetCall call r)
        | Inr _ \<Rightarrow>
            andThen (publishDiscarded env
                ((teardownCall call)\<lparr>sc_state := Discarded, sc_discarded := Some ReasonDisconnect\<rparr>) None r)
              (\<lambda>pc r'. (Inr (Some pc), r')))
     else (Inl error, forgetCall call r))"

definition startIncoming :: "callEnv \<Rightarrow> incomingCall \<Rightarrow> string \<Rightarrow> callRegistry \<Rightarrow> phoneCall option called" where
  "startIncoming env input correlationKey r =
    (case workerProtocol env of
       Inl e \<Rightarrow> (Inl e, r)
     | Inr protocol \<Rightarrow>
       (case createCall env (ic_session input) (ic_callerId input) (ic_selfId input) protocol Recipient None
               (Some correlationKey) protocol r of
          Inl e \<Rightarrow> (Inl e, r)
        | Inr call0 \<Rightarrow>
          let call = call0\<lparr>sc_platformCallRef := ic_platformCallRef input,
                sc_platformControl := ic_platformControl input, sc_state := Initializing\<rparr>;
              r1 = rememberCall call r;
              r2 = r1\<lparr>cr_incomingCalls := js_set correlationKey (callKey (sc_id call)) (cr_incomingCalls r1)\<rparr>
          in case prepareCaller env call of
               Inl e \<Rightarrow> incomingFailed env call e r2
             | Inr call' \<Rightarrow>
                 andThen (publishTransition env call' None r2) (\<lambda>_ r3. (Inr (Some (pcRequested call')), r3))))"

text \<open>\<open>receiveIncoming\<close> in the order of its branches, from the last to the first.\<close>

definition freshIncoming :: "callEnv \<Rightarrow> incomingCall \<Rightarrow> string \<Rightarrow> callRegistry \<Rightarrow> phoneCall option called" where
  "freshIncoming env input correlationKey r =
    (let occupied = (case sessionCall (ic_session input) r of None \<Rightarrow> False | Some c \<Rightarrow> sc_state c \<noteq> Discarded) in
     if occupied \<and> ic_platformControl input then
       (if ce_control env ''reject''
        then (Inr None, rememberReceipt (ce_now env) correlationKey r)
        else (Inl ExternalError, r))
     else if occupied then (Inl (VoiceCallError ''CALL_OCCUPY_FAILED''), r)
     else startIncoming env input correlationKey r)"

definition endedIncoming :: "callEnv \<Rightarrow> incomingCall \<Rightarrow> string \<Rightarrow> callRegistry \<Rightarrow> phoneCall option called" where
  "endedIncoming env input correlationKey r =
    (case (case js_get (cr_incomingTombstones r) correlationKey of
             None \<Rightarrow> None | Some key \<Rightarrow> js_get (cr_tombstones r) key) of
       None \<Rightarrow> freshIncoming env input correlationKey r
     | Some t \<Rightarrow>
         if tb_sessionId t \<noteq> ic_session input \<or> tb_telegramRole t \<noteq> Recipient \<or>
            tb_adminId t \<noteq> ic_callerId input \<or> tb_participantId t \<noteq> ic_selfId input
         then (Inl (VoiceCallError ''CALL_OCCUPY_FAILED''), r)
         else andThen (deliverTombstone env (ic_session input) t None r)
                (\<lambda>_ r'. (Inr (Some (tb_phoneCall t)), r')))"

definition incomingBody :: "callEnv \<Rightarrow> incomingCall \<Rightarrow> string \<Rightarrow> callRegistry \<Rightarrow> phoneCall option called" where
  "incomingBody env input correlationKey r =
    (if js_has (cr_receipts r) correlationKey then (Inr None, r)
     else case (case js_get (cr_incomingCalls r) correlationKey of
                  None \<Rightarrow> None | Some key \<Rightarrow> js_get (cr_calls r) key) of
       None \<Rightarrow> endedIncoming env input correlationKey r
     | Some retried \<Rightarrow>
         if sc_state retried = Discarded then endedIncoming env input correlationKey r
         else andThen (deliverPending env (callKey (sc_id retried)) r) (\<lambda>_ r'. (Inr (Some (pcRequested retried)), r')))"

definition receiveIncoming :: "callEnv \<Rightarrow> incomingCall \<Rightarrow> callRegistry \<Rightarrow> phoneCall option called" where
  "receiveIncoming env input r =
    (if ic_correlationId input = [] then (Inl (VoiceCallError ''CALL_CORRELATION_INVALID''), r)
     else serialize env (incomingBody env input (ce_hmac env (ic_session input) (ic_correlationId input))) r)"

definition callReceived :: "callEnv \<Rightarrow> string \<Rightarrow> callPeer \<Rightarrow> string option \<Rightarrow> callRegistry \<Rightarrow> unit called" where
  "callReceived env session peer exclude =
    serialize env (\<lambda>r. andThen (findCall env session peer r) (\<lambda>call r1.
      if sc_telegramRole call \<noteq> Recipient then (Inl (VoiceCallError ''CALL_ROLE_INVALID''), r1)
      else if sc_state call = Received then deliverPending env (callKey (sc_id call)) r1
      else if sc_state call \<noteq> Requested then (Inl (VoiceCallError ''CALL_STATE_INVALID''), r1)
      else publishTransition env (call\<lparr>sc_state := Received, sc_receiveDate := Some (ce_now env div 1000)\<rparr>)
             exclude r1))"

definition finishAccept :: "callEnv \<Rightarrow> string \<Rightarrow> callRegistry \<Rightarrow> unit called" where
  "finishAccept env key r =
    andThen (deliverPending env key r) (\<lambda>_ r1.
      case js_get (cr_calls r1) key of
        None \<Rightarrow> (Inr (), r1)
      | Some call \<Rightarrow>
          publishTransition env (call\<lparr>sc_state := Active, sc_startDate := Some (ce_now env div 1000)\<rparr>) None r1)"

text \<open>The task that \<open>accept\<close> leaves for after its response, when it is given that possibility.\<close>

definition acceptTask :: "callEnv \<Rightarrow> string \<Rightarrow> callRegistry \<Rightarrow> unit called" where
  "acceptTask env key =
    serialize env (\<lambda>r. case js_get (cr_calls r) key of
        None \<Rightarrow> (Inr (), r)
      | Some call \<Rightarrow> if sc_state call \<noteq> Accepted then (Inr (), r) else finishAccept env key r)"

definition finishAcceptAfterResponse :: "callEnv \<Rightarrow> bool \<Rightarrow> string \<Rightarrow> callRegistry \<Rightarrow> unit called" where
  "finishAcceptAfterResponse env deferred key r = (if deferred then (Inr (), r) else finishAccept env key r)"

text \<open>
  \<open>accept\<close>: the \<open>try\<close> block returns the call as far as it was changed (the \<open>catch\<close> aborts that
  one) with the error or the worker's reply.
\<close>

definition completeCaller ::
    "callEnv \<Rightarrow> storedCall \<Rightarrow> callProtocol \<Rightarrow> (voiceError + bytes \<times> Long) \<times> storedCall" where
  "completeCaller env call protocol =
    (let c1 = call\<lparr>sc_recipientProtocol := Some protocol\<rparr> in
     case negotiateProtocol (sc_callerProtocol call) protocol of
       Inl e \<Rightarrow> (Inl e, c1)
     | Inr negotiated \<Rightarrow>
       let c2 = c1\<lparr>sc_negotiatedProtocol := negotiated\<rparr> in
       (case mediaConfigFor env of
          Inl e \<Rightarrow> (Inl e, c2)
        | Inr config \<Rightarrow>
          (case applyMediaStartConfig c2 config of
             Inl e \<Rightarrow> (Inl e, c2)
           | Inr c3 \<Rightarrow>
             (case requireWorker ''completeTelegramCaller'' env of
                Inl e \<Rightarrow> (Inl e, c3)
              | Inr st \<Rightarrow>
                (case (wr_state st = WorkerMediaActive, wr_gA st, wr_keyFingerprint st) of
                   (True, Some gA, Some fingerprint) \<Rightarrow>
                     if length gA \<noteq> DH_PUBLIC_BYTES then (Inl (VoiceCallError ''CALL_HANDSHAKE_INVALID''), c3)
                     else (case attachMedia env c3 of
                         Inl e \<Rightarrow> (Inl e, c3)
                       | Inr c4 \<Rightarrow>
                           (case controlPlatform env c4 ''accept'' of
                              Inl e \<Rightarrow> (Inl e, c4)
                            | Inr _ \<Rightarrow> (Inr (gA, fingerprint), c4)))
                 | _ \<Rightarrow> (Inl (VoiceCallError ''CALL_MEDIA_UNAVAILABLE''), c3))))))"

definition callAccept ::
    "callEnv \<Rightarrow> string \<Rightarrow> callPeer \<Rightarrow> bytes \<Rightarrow> callProtocol \<Rightarrow> string option \<Rightarrow> bool \<Rightarrow> callRegistry \<Rightarrow> phoneCall called" where
  "callAccept env session peer gB protocol exclude deferred r0 =
    (if \<not> audioProtocolOk protocol then (Inl (VoiceCallError ''CALL_PROTOCOL_INVALID''), r0)
     else if length gB \<noteq> DH_PUBLIC_BYTES then (Inl (VoiceCallError ''CALL_HANDSHAKE_INVALID''), r0)
     else serialize env (\<lambda>r. andThen (findCall env session peer r) (\<lambda>call r1.
       let key = callKey (sc_id call) in
       if sc_telegramRole call \<noteq> Recipient then (Inl (VoiceCallError ''CALL_ROLE_INVALID''), r1)
       else if sc_state call = Active
       then andThen (deliverPending env key r1) (\<lambda>_ r2. (Inr (pcWaiting call), r2))
       else if sc_state call = Accepted
       then andThen (finishAcceptAfterResponse env deferred key r1) (\<lambda>_ r2. (Inr (pcWaiting call), r2))
       else if sc_state call \<noteq> Requested \<and> sc_state call \<noteq> Received
       then (Inl (VoiceCallError ''CALL_STATE_INVALID''), r1)
       else case completeCaller env call protocol of
              (Inl e, c) \<Rightarrow> (Inl e, abortCall env c exclude r1)
            | (Inr (gA, fingerprint), c) \<Rightarrow>
                let c' = c\<lparr>sc_gB := Some gB, sc_gA := Some gA, sc_keyFingerprint := Some fingerprint,
                          sc_state := Accepted\<rparr>
                in andThen (publishTransition env c' exclude r1) (\<lambda>_ r2.
                   andThen (finishAcceptAfterResponse env deferred key r2) (\<lambda>_ r3. (Inr (pcWaiting c'), r3))))) r0)"

definition completeRecipient ::
    "callEnv \<Rightarrow> storedCall \<Rightarrow> Long \<Rightarrow> (voiceError + Long) \<times> storedCall" where
  "completeRecipient env call keyFingerprint =
    (case mediaConfigFor env of
       Inl e \<Rightarrow> (Inl e, call)
     | Inr config \<Rightarrow>
       (case applyMediaStartConfig call config of
          Inl e \<Rightarrow> (Inl e, call)
        | Inr c1 \<Rightarrow>
          (case requireWorker ''completeTelegramRecipient'' env of
             Inl e \<Rightarrow> (Inl e, c1)
           | Inr st \<Rightarrow>
             if wr_state st \<noteq> WorkerMediaActive then (Inl (VoiceCallError ''CALL_MEDIA_UNAVAILABLE''), c1)
             else case wr_keyFingerprint st of
                None \<Rightarrow> (Inl (VoiceCallError ''CALL_HANDSHAKE_INVALID''), c1)
              | Some fp \<Rightarrow>
                  if \<not> sameWireLong fp keyFingerprint then (Inl (VoiceCallError ''CALL_HANDSHAKE_INVALID''), c1)
                  else (case attachMedia env c1 of Inl e \<Rightarrow> (Inl e, c1) | Inr c2 \<Rightarrow> (Inr fp, c2)))))"

definition callConfirm ::
    "callEnv \<Rightarrow> string \<Rightarrow> callPeer \<Rightarrow> bytes \<Rightarrow> Long \<Rightarrow> callProtocol \<Rightarrow> string option \<Rightarrow> callRegistry \<Rightarrow> phoneCall called" where
  "callConfirm env session peer gA keyFingerprint protocol exclude r0 =
    (if \<not> audioProtocolOk protocol then (Inl (VoiceCallError ''CALL_PROTOCOL_INVALID''), r0)
     else if length gA \<noteq> DH_PUBLIC_BYTES then (Inl (VoiceCallError ''CALL_HANDSHAKE_INVALID''), r0)
     else serialize env (\<lambda>r. andThen (findCall env session peer r) (\<lambda>call r1.
       let key = callKey (sc_id call) in
       if sc_telegramRole call \<noteq> Caller then (Inl (VoiceCallError ''CALL_ROLE_INVALID''), r1)
       else if sc_state call = Active then andThen (deliverPending env key r1) (\<lambda>_. wrapCall key)
       else if sc_state call \<noteq> Requested then (Inl (VoiceCallError ''CALL_STATE_INVALID''), r1)
       else case negotiateProtocol (sc_negotiatedProtocol call) protocol of
         Inl e \<Rightarrow> (Inl e, r1)
       | Inr negotiated \<Rightarrow>
           (case completeRecipient env (call\<lparr>sc_negotiatedProtocol := negotiated\<rparr>) keyFingerprint of
              (Inl e, c) \<Rightarrow> (Inl e, abortCall env c exclude r1)
            | (Inr fp, c) \<Rightarrow>
                let c' = c\<lparr>sc_keyFingerprint := Some fp, sc_gA := Some gA, sc_state := Active,
                          sc_startDate := Some (ce_now env div 1000)\<rparr>
                in andThen (publishTransition env c' exclude r1) (\<lambda>_. wrapCall key)))) r0)"

definition callDiscard ::
    "callEnv \<Rightarrow> string \<Rightarrow> callPeer \<Rightarrow> discardReason \<Rightarrow> int \<Rightarrow> string option \<Rightarrow> callRegistry \<Rightarrow> phoneCall called" where
  "callDiscard env session peer reason duration exclude r0 =
    (if \<not> isSafeInteger duration \<or> duration < 0 \<or> duration > MAX_CALL_DURATION_SECONDS
     then (Inl (VoiceCallError ''CALL_DURATION_INVALID''), r0)
     else serialize env (\<lambda>r. andThen (findOrTombstone env session peer r) (\<lambda>found r1.
       case found of
         Inr t \<Rightarrow> andThen (deliverTombstone env session t exclude r1) (\<lambda>_ r2. (Inr (tb_phoneCall t), r2))
       | Inl call \<Rightarrow>
           let ringingIncoming = (sc_telegramRole call = Recipient \<and> ringing (sc_state call)) in
           (case controlPlatform env call (if ringingIncoming then ''reject'' else ''hangup'') of
              Inl e \<Rightarrow> (Inl e, r1)
            | Inr _ \<Rightarrow>
                publishDiscarded env
                  ((teardownCall call)\<lparr>sc_state := Discarded,
                     sc_discarded := Some (if ringingIncoming then ReasonBusy else reason),
                     sc_duration := Some (if ringingIncoming then 0 else duration)\<rparr>) exclude r1))) r0)"

definition platformEnded :: "callEnv \<Rightarrow> string \<Rightarrow> string \<Rightarrow> callRegistry \<Rightarrow> unit called" where
  "platformEnded env session correlationId r0 =
    (if correlationId = [] then (Inl (VoiceCallError ''CALL_CORRELATION_INVALID''), r0)
     else serialize env (\<lambda>r.
       let call = (case js_get (cr_incomingCalls r) (ce_hmac env session correlationId) of
               None \<Rightarrow> None | Some key \<Rightarrow> js_get (cr_calls r) key)
       in case call of
            None \<Rightarrow> (Inr (), r)
          | Some c \<Rightarrow>
              if sc_state c = Discarded then (Inr (), r)
              else
                let now = ce_now env div 1000;
                    duration = (if sc_state c = Active
                      then min MAX_CALL_DURATION_SECONDS (max 0 (now - getOr now (sc_startDate c))) else 0)
                in andThen (publishDiscarded env
                     ((teardownCall c)\<lparr>sc_state := Discarded,
                        sc_discarded := Some (if ringing (sc_state c) then ReasonMissed else ReasonHangup),
                        sc_duration := Some duration\<rparr>) None r) (\<lambda>_ r1. (Inr (), r1))) r0)"

datatype workerEvent = OutboundSignal bytes | NativeError

text \<open>\<open>handleWorkerEvent\<close>; the outcome of \<open>publishSignaling\<close> is an argument.\<close>

definition handleWorkerEvent :: "callEnv \<Rightarrow> string \<Rightarrow> workerEvent \<Rightarrow> delivery \<Rightarrow> callRegistry \<Rightarrow> unit called" where
  "handleWorkerEvent env key event signaling r0 =
    (case js_get (cr_calls r0) key of
       None \<Rightarrow> (Inr (), r0)
     | Some c0 \<Rightarrow>
         if sc_state c0 = Discarded then (Inr (), r0)
         else serialize env (\<lambda>r. case js_get (cr_calls r) key of
             None \<Rightarrow> (Inr (), r)
           | Some call \<Rightarrow>
               if sc_state call = Discarded then (Inr (), r)
               else (case event of
                   NativeError \<Rightarrow> (Inr (), abortCall env call None r)
                 | OutboundSignal data \<Rightarrow>
                     (case signaling of
                        DeliveryFails \<Rightarrow> (Inl ExternalError, r)
                      | Delivered n \<Rightarrow>
                          if \<not> isSafeInteger n \<or> n \<le> 0
                          then (Inl (VoiceCallError ''CALL_SIGNALING_UNDELIVERED''), r) else (Inr (), r)))) r0)"

text \<open>The sliding minute that limits signalling and debug messages.\<close>

definition recentTimes :: "int \<Rightarrow> int list option \<Rightarrow> int list" where
  "recentTimes now stamps = filter (\<lambda>t. now - t < 60000) (getOr [] stamps)"

definition sendSignalingData :: "callEnv \<Rightarrow> string \<Rightarrow> callPeer \<Rightarrow> bytes \<Rightarrow> callRegistry \<Rightarrow> unit called" where
  "sendSignalingData env session peer payload r0 =
    (if payload = [] \<or> length payload > MAX_SIGNALING_BYTES then (Inl (VoiceCallError ''CALL_SIGNALING_INVALID''), r0)
     else serialize env (\<lambda>r. andThen (findCall env session peer r) (\<lambda>call r1.
       if sc_state call \<noteq> Accepted \<and> sc_state call \<noteq> Active then (Inl (VoiceCallError ''CALL_STATE_INVALID''), r1)
       else
         let key = callKey (sc_id call); recent = recentTimes (ce_now env) (js_get (cr_signalTimes r1) key)
         in if length recent \<ge> MAX_SIGNALING_PER_MINUTE then (Inl (VoiceCallError ''CALL_SIGNALING_FLOOD''), r1)
            else let r2 = r1\<lparr>cr_signalTimes := js_set key (recent @ [ce_now env]) (cr_signalTimes r1)\<rparr>
                 in if ce_send env then (Inr (), r2) else (Inl ExternalError, abortCall env call None r2))) r0)"

definition isDebugKeyChar :: "char \<Rightarrow> bool" where
  "isDebugKeyChar c \<longleftrightarrow> (let n = of_char c :: nat in
     97 \<le> n \<and> n \<le> 122 \<or> 65 \<le> n \<and> n \<le> 90 \<or> 48 \<le> n \<and> n \<le> 57 \<or> c = CHR ''_'' \<or> c = CHR ''.'' \<or> c = CHR ''-'')"

definition debugKeys :: "string list \<Rightarrow> string list" where
  "debugKeys keys = take MAX_DEBUG_KEYS (filter (\<lambda>k. 1 \<le> length k \<and> length k \<le> 64 \<and> list_all isDebugKeyChar k) keys)"

text \<open>\<open>saveCallDebug\<close>; \<open>byteSize\<close> is the UTF-8 length of the text and \<open>parsed\<close> the keys of the object
  it parses to (\<open>None\<close>: not JSON, or not an object). The result is what the worker is given.\<close>

definition saveCallDebug ::
    "callEnv \<Rightarrow> string \<Rightarrow> callPeer \<Rightarrow> nat \<Rightarrow> string list option \<Rightarrow> callRegistry \<Rightarrow> (nat \<times> string list) called" where
  "saveCallDebug env session peer byteSize parsed r0 =
    (if byteSize > MAX_DEBUG_BYTES then (Inl (VoiceCallError ''CALL_DEBUG_INVALID''), r0)
     else case parsed of
       None \<Rightarrow> (Inl (VoiceCallError ''CALL_DEBUG_INVALID''), r0)
     | Some keys \<Rightarrow> serialize env (\<lambda>r. andThen (findCall env session peer r) (\<lambda>call r1.
       if sc_state call \<noteq> Accepted \<and> sc_state call \<noteq> Active then (Inl (VoiceCallError ''CALL_STATE_INVALID''), r1)
       else
         let key = callKey (sc_id call); recent = recentTimes (ce_now env) (js_get (cr_debugTimes r1) key)
         in if length recent \<ge> MAX_DEBUG_PER_MINUTE then (Inl (VoiceCallError ''CALL_DEBUG_FLOOD''), r1)
            else let r2 = r1\<lparr>cr_debugTimes := js_set key (recent @ [ce_now env]) (cr_debugTimes r1)\<rparr>
                 in if ce_send env then (Inr (byteSize, debugKeys keys), r2) else (Inl ExternalError, r2))) r0)"

text \<open>The body of the loop of \<open>expire\<close> for one call, with a clock reading of its own, and the
  loop: an exception leaves it.\<close>

definition expireCall :: "callEnv \<Rightarrow> int \<Rightarrow> string \<Rightarrow> callRegistry \<Rightarrow> unit called" where
  "expireCall env now key r0 =
    (case js_get (cr_calls r0) key of
       None \<Rightarrow> (Inr (), r0)
     | Some call \<Rightarrow>
         andThen (if sc_state call \<noteq> Discarded \<and> sc_pendingDelivery call \<noteq> None \<and>
                     (sc_state call = Active \<or> now < sc_deadline call)
                  then serialize env (deliverPending env key) r0 else (Inr (), r0))
           (\<lambda>_ r1. if sc_state call = Discarded \<or> sc_state call = Active \<or> now < sc_deadline call then (Inr (), r1)
             else andThen (callDiscard env (sc_session call)
                    \<lparr>pe_id = sc_id call, pe_accessHash = sc_accessHash call\<rparr> ReasonMissed 0 None r1)
                  (\<lambda>_ r2. (Inr (), r2))))"

fun expireLoop :: "(nat \<Rightarrow> callEnv) \<Rightarrow> nat \<Rightarrow> int \<Rightarrow> string list \<Rightarrow> callRegistry \<Rightarrow> unit called" where
  "expireLoop envs n now [] r = (Inr (), r)"
| "expireLoop envs n now (key # keys) r =
     andThen (expireCall (envs n) now key r) (\<lambda>_. expireLoop envs (Suc n) now keys)"

definition callExpire :: "(nat \<Rightarrow> callEnv) \<Rightarrow> callRegistry \<Rightarrow> unit called" where
  "callExpire envs r0 =
    (let now = ce_now (envs 0); r = pruneTombstones now r0
     in expireLoop envs 0 now (js_keys (cr_calls r)) r)"

definition pendingTombstone :: "string \<Rightarrow> callRegistry \<Rightarrow> tombstone option" where
  "pendingTombstone session r =
     find (\<lambda>t. tb_sessionId t = session \<and> tb_pendingDelivery t) (map snd (cr_tombstones r))"

definition callSnapshot :: "callEnv \<Rightarrow> string \<Rightarrow> callRegistry \<Rightarrow> phoneCall option called" where
  "callSnapshot env session r0 =
    (let r = pruneTombstones (ce_now env) r0;
         byTombstone = (Inr (map_option tb_phoneCall (pendingTombstone session r)), r)
     in case sessionCall session r of
          None \<Rightarrow> byTombstone
        | Some call \<Rightarrow>
            if sc_state call = Initializing then byTombstone
            else (case phoneCallOf call of Inl e \<Rightarrow> (Inl e, r) | Inr pc \<Rightarrow> (Inr (Some pc), r)))"

text \<open>\<open>replay\<close> to one client; the outcome of its delivery is an argument.\<close>

definition replayed :: "delivery \<Rightarrow> voiceError + bool" where
  "replayed d = (case d of DeliveryFails \<Rightarrow> Inl ExternalError | Delivered n \<Rightarrow> Inr (isSafeInteger n \<and> n > 0))"

definition callReplay :: "callEnv \<Rightarrow> string \<Rightarrow> delivery \<Rightarrow> callRegistry \<Rightarrow> phoneCall option called" where
  "callReplay env session d =
    serialize env (\<lambda>r.
      let byTombstone = (case pendingTombstone session r of
            None \<Rightarrow> (Inr None, r)
          | Some t \<Rightarrow>
              (case replayed d of
                 Inl e \<Rightarrow> (Inl e, r)
               | Inr ok \<Rightarrow> (Inr (Some (tb_phoneCall t)),
                   if ok then r\<lparr>cr_tombstones := js_set (callKey (tb_id t)) (t\<lparr>tb_pendingDelivery := False\<rparr>) (cr_tombstones r)\<rparr>
                   else r)))
      in case sessionCall session r of
           None \<Rightarrow> byTombstone
         | Some call \<Rightarrow>
             if sc_state call = Initializing then byTombstone
             else (case phoneCallOf call of
                 Inl e \<Rightarrow> (Inl e, r)
               | Inr pc \<Rightarrow>
                   (case replayed d of
                      Inl e \<Rightarrow> (Inl e, r)
                    | Inr ok \<Rightarrow> (Inr (Some pc),
                        if ok then setCall (call\<lparr>sc_pendingDelivery := None, sc_pendingExclude := None\<rparr>) r else r))))"

text \<open>\<open>_terminalMedia\<close>: the media of a call ended on its own.\<close>

definition terminalMedia :: "callEnv \<Rightarrow> string \<Rightarrow> callRegistry \<Rightarrow> unit called" where
  "terminalMedia env key =
    serialize env (\<lambda>r. case js_get (cr_calls r) key of
        None \<Rightarrow> (Inr (), r)
      | Some call \<Rightarrow> if sc_state call = Discarded then (Inr (), r) else (Inr (), abortCall env call None r))"

end
