(* ===== verification/Voice_Calls_Safety.thy ===== *)
theory Voice_Calls_Safety
  imports Voice_Calls
begin

text \<open>
  Safety of the call registry. \<open>callMove\<close> is the abstract machine: the ways the registry may
  change, with the life cycle of a call (\<open>nextState\<close>) and what a call must know when it is
  accepted or active (\<open>handshake_ok\<close>). Every operation is a sequence of such moves (the
  lemmas named \<open>..._moves\<close>), so the invariant \<open>cr_inv\<close> and the life cycle are proved for the
  moves only.
\<close>

section \<open>Invariant\<close>

lemma map_delete: "js_get (js_delete k m) = (js_get m)(k := None)"
  by (simp add: delete_conv')

lemma map_set: "js_get (js_set k v m) = (js_get m)(k \<mapsto> v)"
  by (simp add: update_conv')

lemma callKey_inj [simp]: "callKey a = callKey b \<longleftrightarrow> a = b"
  by (simp add: callKey_def longString_inj)

definition calls_keyed :: "callRegistry \<Rightarrow> bool" where
  "calls_keyed r \<longleftrightarrow> (\<forall>k c. js_get (cr_calls r) k = Some c \<longrightarrow> k = callKey (sc_id c) \<and> sc_state c \<noteq> Discarded)"

definition session_index :: "callRegistry \<Rightarrow> bool" where
  "session_index r \<longleftrightarrow> (\<forall>s k. js_get (cr_sessionCalls r) s = Some k \<longleftrightarrow>
     (\<exists>c. js_get (cr_calls r) k = Some c \<and> sc_session c = s))"

definition incoming_index :: "callRegistry \<Rightarrow> bool" where
  "incoming_index r \<longleftrightarrow> (\<forall>d k. js_get (cr_incomingCalls r) d = Some k \<longrightarrow>
     d \<noteq> [] \<and> (\<exists>c. js_get (cr_calls r) k = Some c \<and> sc_incomingDigest c = Some d))"

definition tombs_keyed :: "callRegistry \<Rightarrow> bool" where
  "tombs_keyed r \<longleftrightarrow> (\<forall>k t. js_get (cr_tombstones r) k = Some t \<longrightarrow>
     k = callKey (tb_id t) \<and> js_get (cr_calls r) k = None)"

definition incoming_tombs :: "callRegistry \<Rightarrow> bool" where
  "incoming_tombs r \<longleftrightarrow> (\<forall>d k. js_get (cr_incomingTombstones r) d = Some k \<longrightarrow>
     d \<noteq> [] \<and> (\<exists>t. js_get (cr_tombstones r) k = Some t \<and> tb_incomingDigest t = Some d))"

definition answered :: "callState \<Rightarrow> bool" where
  "answered st \<longleftrightarrow> st = Accepted \<or> st = Active"

definition answeredCall :: "callRegistry \<Rightarrow> string \<Rightarrow> bool" where
  "answeredCall r k \<longleftrightarrow> (\<exists>c. js_get (cr_calls r) k = Some c \<and> answered (sc_state c))"

definition times_ok :: "nat \<Rightarrow> (string, int list) jsmap \<Rightarrow> callRegistry \<Rightarrow> bool" where
  "times_ok limit m r \<longleftrightarrow> (\<forall>k ts. js_get m k = Some ts \<longrightarrow> length ts \<le> limit \<and> answeredCall r k)"

definition rate_ok :: "callRegistry \<Rightarrow> bool" where
  "rate_ok r \<longleftrightarrow> times_ok MAX_SIGNALING_PER_MINUTE (cr_signalTimes r) r \<and>
     times_ok MAX_DEBUG_PER_MINUTE (cr_debugTimes r) r"

text \<open>An accepted or active call holds the public values and the fingerprint of its exchange.\<close>

definition handshake_ok :: "storedCall \<Rightarrow> bool" where
  "handshake_ok c \<longleftrightarrow> (answered (sc_state c) \<longrightarrow>
     (\<exists>gA. sc_gA c = Some gA \<and> length gA = DH_PUBLIC_BYTES) \<and> sc_keyFingerprint c \<noteq> None \<and>
     (sc_telegramRole c = Recipient \<longrightarrow> (\<exists>gB. sc_gB c = Some gB \<and> length gB = DH_PUBLIC_BYTES)) \<and>
     sc_connections c \<noteq> None)"

definition maps_ok :: "callRegistry \<Rightarrow> bool" where
  "maps_ok r \<longleftrightarrow> js_inv (cr_calls r) \<and> js_inv (cr_sessionCalls r) \<and> js_inv (cr_incomingCalls r) \<and>
     js_inv (cr_tombstones r) \<and> js_inv (cr_incomingTombstones r) \<and> js_inv (cr_receipts r)"

definition cr_inv :: "callRegistry \<Rightarrow> bool" where
  "cr_inv r \<longleftrightarrow> maps_ok r \<and> calls_keyed r \<and> session_index r \<and> incoming_index r \<and> tombs_keyed r \<and>
     incoming_tombs r \<and> rate_ok r \<and> (\<forall>k c. js_get (cr_calls r) k = Some c \<longrightarrow> handshake_ok c) \<and>
     length (cr_tombstones r) \<le> MAX_TOMBSTONES \<and> length (cr_receipts r) \<le> MAX_TOMBSTONES"

section \<open>The abstract machine\<close>

fun nextState :: "callRole \<Rightarrow> callState \<Rightarrow> callState \<Rightarrow> bool" where
  "nextState role Initializing st = (st = Requested)"
| "nextState role Requested st = (if role = Recipient then st = Received \<or> st = Accepted else st = Active)"
| "nextState role Received st = (st = Accepted)"
| "nextState role Accepted st = (st = Active)"
| "nextState role _ st = False"

definition sameCall :: "storedCall \<Rightarrow> storedCall \<Rightarrow> bool" where
  "sameCall c c' \<longleftrightarrow> sc_id c' = sc_id c \<and> sc_accessHash c' = sc_accessHash c \<and> sc_session c' = sc_session c \<and>
     sc_adminId c' = sc_adminId c \<and> sc_participantId c' = sc_participantId c \<and>
     sc_telegramRole c' = sc_telegramRole c \<and> sc_incomingDigest c' = sc_incomingDigest c"

definition callStep :: "storedCall \<Rightarrow> storedCall \<Rightarrow> bool" where
  "callStep c c' \<longleftrightarrow> sameCall c c' \<and>
     (sc_state c' = sc_state c \<or> nextState (sc_telegramRole c) (sc_state c) (sc_state c'))"

inductive callMove :: "callRegistry \<Rightarrow> callRegistry \<Rightarrow> bool" where
  prune: "callMove r (pruneTombstones now r)"
| publish: "callMove r (r\<lparr>cr_published := ps\<rparr>)"
| update: "js_get (cr_calls r) (callKey (sc_id c)) = Some c \<Longrightarrow> callStep c c' \<Longrightarrow> handshake_ok c' \<Longrightarrow>
    callMove r (setCall c' r)"
| begin_call: "js_get (cr_calls r) (callKey (sc_id c)) = None \<Longrightarrow> js_get (cr_tombstones r) (callKey (sc_id c)) = None \<Longrightarrow>
    js_get (cr_sessionCalls r) (sc_session c) = None \<Longrightarrow> sc_state c \<in> {Initializing, Requested} \<Longrightarrow>
    callMove r (rememberCall c r)"
| incoming: "js_get (cr_calls r) k = Some c \<Longrightarrow> sc_incomingDigest c = Some d \<Longrightarrow> d \<noteq> [] \<Longrightarrow>
    callMove r (r\<lparr>cr_incomingCalls := js_set d k (cr_incomingCalls r)\<rparr>)"
| forget: "js_get (cr_calls r) (callKey (sc_id c)) = Some c \<Longrightarrow> sameCall c c' \<Longrightarrow>
    sc_state c \<in> {Initializing, Requested} \<Longrightarrow> callMove r (forgetCall c' r)"
| retire: "js_get (cr_calls r) (callKey (sc_id c)) = Some c \<Longrightarrow> sameCall c c' \<Longrightarrow>
    callMove r (retireCall now c' pc pending r)"
| delivered: "js_get (cr_tombstones r) k = Some t \<Longrightarrow>
    callMove r (r\<lparr>cr_tombstones := js_set k (t\<lparr>tb_pendingDelivery := False\<rparr>) (cr_tombstones r)\<rparr>)"
| receipt: "callMove r (rememberReceipt now k r)"
| signal: "js_get (cr_calls r) k = Some c \<Longrightarrow> answered (sc_state c) \<Longrightarrow>
    length stamps \<le> MAX_SIGNALING_PER_MINUTE \<Longrightarrow> callMove r (r\<lparr>cr_signalTimes := js_set k stamps (cr_signalTimes r)\<rparr>)"
| debug: "js_get (cr_calls r) k = Some c \<Longrightarrow> answered (sc_state c) \<Longrightarrow>
    length stamps \<le> MAX_DEBUG_PER_MINUTE \<Longrightarrow> callMove r (r\<lparr>cr_debugTimes := js_set k stamps (cr_debugTimes r)\<rparr>)"

abbreviation callMoves :: "callRegistry \<Rightarrow> callRegistry \<Rightarrow> bool" where
  "callMoves \<equiv> callMove\<^sup>*\<^sup>*"

section \<open>The primitives keep the invariant\<close>

lemma dropRef_get: "js_get (dropRef k x m) k' = (if k' = k \<and> js_get m k = Some x then None else js_get m k')"
  by (auto simp: dropRef_def map_delete)

lemma dropRef_inv [simp]: "js_inv m \<Longrightarrow> js_inv (dropRef k x m)"
  by (simp add: dropRef_def)

lemma dropTombstone_fields [simp]:
  "cr_calls (dropTombstone k r) = cr_calls r" "cr_sessionCalls (dropTombstone k r) = cr_sessionCalls r"
  "cr_incomingCalls (dropTombstone k r) = cr_incomingCalls r" "cr_receipts (dropTombstone k r) = cr_receipts r"
  "cr_signalTimes (dropTombstone k r) = cr_signalTimes r" "cr_debugTimes (dropTombstone k r) = cr_debugTimes r"
  "cr_published (dropTombstone k r) = cr_published r"
  by (simp_all add: dropTombstone_def split: option.splits)

lemma dropTombstone_get: "js_get (cr_tombstones (dropTombstone k r)) = (js_get (cr_tombstones r))(k := None)"
  by (auto simp: dropTombstone_def map_delete fun_eq_iff split: option.splits)

text \<open>Tombstones without their bound, which \<open>_retire\<close> exceeds by one for a moment.\<close>

definition tombs_ok :: "callRegistry \<Rightarrow> bool" where
  "tombs_ok r \<longleftrightarrow> js_inv (cr_tombstones r) \<and> js_inv (cr_incomingTombstones r) \<and> tombs_keyed r \<and> incoming_tombs r"

lemma dropTombstone_ok:
  assumes "tombs_ok r"
  shows "tombs_ok (dropTombstone k r)"
proof (cases "js_get (cr_tombstones r) k")
  case None
  then show ?thesis using assms by (simp add: dropTombstone_def)
next
  case (Some t)
  have "tombs_keyed (dropTombstone k r)"
    using assms unfolding tombs_ok_def tombs_keyed_def by (simp add: dropTombstone_get)
  moreover have "incoming_tombs (dropTombstone k r)"
    unfolding incoming_tombs_def
  proof (intro allI impI)
    fix d k'
    assume a: "js_get (cr_incomingTombstones (dropTombstone k r)) d = Some k'"
    have old: "js_get (cr_incomingTombstones r) d = Some k'"
      using a Some by (auto simp: dropTombstone_def dropRef_get split: option.splits if_splits)
    with assms obtain t' where t': "js_get (cr_tombstones r) k' = Some t'" "tb_incomingDigest t' = Some d" "d \<noteq> []"
      by (auto simp: tombs_ok_def incoming_tombs_def)
    have "k' \<noteq> k"
      using a Some t' old by (auto simp: dropTombstone_def dropRef_get split: option.splits if_splits)
    then show "d \<noteq> [] \<and> (\<exists>t. js_get (cr_tombstones (dropTombstone k r)) k' = Some t \<and> tb_incomingDigest t = Some d)"
      using t' by (auto simp: dropTombstone_get)
  qed
  moreover have "js_inv (cr_tombstones (dropTombstone k r))" "js_inv (cr_incomingTombstones (dropTombstone k r))"
    using assms Some by (auto simp: tombs_ok_def dropTombstone_def split: option.splits)
  ultimately show ?thesis by (simp add: tombs_ok_def)
qed

lemma dropTombstone_length: "js_inv (cr_tombstones r) \<Longrightarrow> length (cr_tombstones (dropTombstone k r)) \<le> length (cr_tombstones r)"
  by (auto simp: dropTombstone_def delete_eq_filter split: option.splits)

text \<open>What a change of the tombstones leaves alone.\<close>

definition sameCalls :: "callRegistry \<Rightarrow> callRegistry \<Rightarrow> bool" where
  "sameCalls r r' \<longleftrightarrow> cr_calls r' = cr_calls r \<and> cr_sessionCalls r' = cr_sessionCalls r \<and>
     cr_incomingCalls r' = cr_incomingCalls r \<and> cr_signalTimes r' = cr_signalTimes r \<and>
     cr_debugTimes r' = cr_debugTimes r"

lemma foldl_dropTombstone:
  "tombs_ok r \<Longrightarrow>
   tombs_ok (foldl (\<lambda>r (key, t). if tb_expiresAt t \<le> now then dropTombstone key r else r) r ts) \<and>
   sameCalls r (foldl (\<lambda>r (key, t). if tb_expiresAt t \<le> now then dropTombstone key r else r) r ts) \<and>
   cr_receipts (foldl (\<lambda>r (key, t). if tb_expiresAt t \<le> now then dropTombstone key r else r) r ts) = cr_receipts r \<and>
   length (cr_tombstones (foldl (\<lambda>r (key, t). if tb_expiresAt t \<le> now then dropTombstone key r else r) r ts))
     \<le> length (cr_tombstones r)"
proof (induction ts arbitrary: r)
  case (Cons e ts)
  obtain k t where e: "e = (k, t)" by (cases e)
  show ?case
  proof (cases "tb_expiresAt t \<le> now")
    case True
    have "js_inv (cr_tombstones r)" using Cons.prems by (simp add: tombs_ok_def)
    from Cons.IH [OF dropTombstone_ok [OF Cons.prems], of k] dropTombstone_length [OF this, of k] True e
    show ?thesis by (auto simp: sameCalls_def)
  next
    case False
    with Cons e show ?thesis by simp
  qed
qed (simp add: sameCalls_def)

lemma foldl_delete_length:
  "length (foldl (\<lambda>m (key, x). if P x then js_delete key m else m) m es) \<le> length m"
proof (induction es arbitrary: m)
  case (Cons e es)
  have "length (js_delete (fst e) m) \<le> length m" by (simp add: delete_eq_filter)
  with Cons [of "js_delete (fst e) m"] Cons [of m] show ?case by (cases e) auto
qed simp

lemma foldl_delete_inv:
  "js_inv m \<Longrightarrow> js_inv (foldl (\<lambda>m (key, x). if P x then js_delete key m else m) m es)"
  by (induction es arbitrary: m) (auto split: prod.splits)

lemma tombs_ok_receipts [simp]: "tombs_ok (r\<lparr>cr_receipts := x\<rparr>) = tombs_ok r"
  by (simp add: tombs_ok_def tombs_keyed_def incoming_tombs_def)

lemma pruneTombstones_ok:
  assumes "tombs_ok r" and "js_inv (cr_receipts r)"
  shows "tombs_ok (pruneTombstones now r)" and "sameCalls r (pruneTombstones now r)"
    and "js_inv (cr_receipts (pruneTombstones now r))"
    and "length (cr_receipts (pruneTombstones now r)) \<le> length (cr_receipts r)"
    and "length (cr_tombstones (pruneTombstones now r)) \<le> length (cr_tombstones r)"
  using foldl_dropTombstone [OF assms(1), of now "cr_tombstones r"] assms(2)
    foldl_delete_length [of "\<lambda>x. x \<le> now" "cr_receipts r" "cr_receipts r"]
    foldl_delete_inv [OF assms(2), of "\<lambda>x. x \<le> now" "cr_receipts r"]
  by (auto simp: pruneTombstones_def Let_def sameCalls_def)

lemma evictTombstones_ok:
  "tombs_ok r \<Longrightarrow> length (cr_tombstones r) \<le> fuel \<Longrightarrow>
   tombs_ok (evictTombstones fuel r) \<and> sameCalls r (evictTombstones fuel r) \<and>
   cr_receipts (evictTombstones fuel r) = cr_receipts r \<and> length (cr_tombstones (evictTombstones fuel r)) \<le> MAX_TOMBSTONES"
proof (induction fuel arbitrary: r)
  case 0
  then show ?case by (simp add: sameCalls_def)
next
  case (Suc fuel)
  show ?case
  proof (cases "length (cr_tombstones r) > MAX_TOMBSTONES")
    case True
    then obtain k t m where m: "cr_tombstones r = (k, t) # m" by (cases "cr_tombstones r") auto
    have "length (cr_tombstones (dropTombstone k r)) \<le> fuel"
      using Suc.prems m by (auto simp: dropTombstone_def delete_eq_filter intro: order_trans [OF length_filter_le])
    with Suc.IH [of "dropTombstone k r"] dropTombstone_ok [of r k] Suc.prems True m show ?thesis
      by (simp add: sameCalls_def)
  qed (use Suc.prems in \<open>auto simp: sameCalls_def\<close>)
qed

text \<open>The part of the invariant about calls only.\<close>

definition calls_ok :: "callRegistry \<Rightarrow> bool" where
  "calls_ok r \<longleftrightarrow> js_inv (cr_calls r) \<and> js_inv (cr_sessionCalls r) \<and> js_inv (cr_incomingCalls r) \<and>
     calls_keyed r \<and> session_index r \<and> incoming_index r \<and> rate_ok r \<and>
     (\<forall>k c. js_get (cr_calls r) k = Some c \<longrightarrow> handshake_ok c)"

lemma cr_inv_split:
  "cr_inv r \<longleftrightarrow> calls_ok r \<and> tombs_ok r \<and> js_inv (cr_receipts r) \<and>
     length (cr_tombstones r) \<le> MAX_TOMBSTONES \<and> length (cr_receipts r) \<le> MAX_TOMBSTONES"
  by (auto simp: cr_inv_def calls_ok_def tombs_ok_def maps_ok_def)

lemma calls_ok_same: "calls_ok r \<Longrightarrow> sameCalls r r' \<Longrightarrow> calls_ok r'"
  by (auto simp: calls_ok_def sameCalls_def calls_keyed_def session_index_def incoming_index_def
      rate_ok_def times_ok_def answeredCall_def)

lemma prune_inv: "cr_inv r \<Longrightarrow> cr_inv (pruneTombstones now r)"
  using pruneTombstones_ok [of r now] calls_ok_same by (auto simp: cr_inv_split)

subsection \<open>Changing and adding a call\<close>

lemma setCall_get: "js_get (cr_calls (setCall c r)) = (js_get (cr_calls r))(callKey (sc_id c) \<mapsto> c)"
  by (simp add: setCall_def map_set)

lemma setCall_fields [simp]:
  "cr_sessionCalls (setCall c r) = cr_sessionCalls r" "cr_incomingCalls (setCall c r) = cr_incomingCalls r"
  "cr_tombstones (setCall c r) = cr_tombstones r" "cr_incomingTombstones (setCall c r) = cr_incomingTombstones r"
  "cr_receipts (setCall c r) = cr_receipts r" "cr_signalTimes (setCall c r) = cr_signalTimes r"
  "cr_debugTimes (setCall c r) = cr_debugTimes r" "cr_published (setCall c r) = cr_published r"
  by (simp_all add: setCall_def)

lemma callStep_live: "callStep c c' \<Longrightarrow> sc_state c \<noteq> Discarded \<Longrightarrow> sc_state c' \<noteq> Discarded"
  by (cases "sc_state c") (auto simp: callStep_def split: if_splits)

lemma callStep_rate: "callStep c c' \<Longrightarrow> answered (sc_state c) \<Longrightarrow> answered (sc_state c')"
  by (auto simp: callStep_def answered_def)

lemma update_inv:
  assumes inv: "cr_inv r" and c: "js_get (cr_calls r) (callKey (sc_id c)) = Some c"
    and step: "callStep c c'" and hs: "handshake_ok c'"
  shows "cr_inv (setCall c' r)"
proof -
  have ok: "calls_ok r" "tombs_ok r" using inv by (simp_all add: cr_inv_split)
  have same: "sc_id c' = sc_id c" "sc_session c' = sc_session c" "sc_incomingDigest c' = sc_incomingDigest c"
    using step by (simp_all add: callStep_def sameCall_def)
  have "sc_state c \<noteq> Discarded" using ok(1) c by (auto simp: calls_ok_def calls_keyed_def)
  then have live: "sc_state c' \<noteq> Discarded" using callStep_live [OF step] by simp
  have get: "js_get (cr_calls (setCall c' r)) = (js_get (cr_calls r))(callKey (sc_id c) \<mapsto> c')"
    by (simp add: setCall_get same)
  have ix: "calls_keyed r" "session_index r" "incoming_index r" using ok(1) by (simp_all add: calls_ok_def)
  have "calls_keyed (setCall c' r)" using ix(1) same live unfolding calls_keyed_def get by auto
  moreover have "session_index (setCall c' r)"
    unfolding session_index_def get setCall_fields
  proof (intro allI)
    fix s k
    show "js_get (cr_sessionCalls r) s = Some k \<longleftrightarrow>
        (\<exists>x. ((js_get (cr_calls r))(callKey (sc_id c) \<mapsto> c')) k = Some x \<and> sc_session x = s)"
      using ix(2) [unfolded session_index_def, THEN spec, THEN spec, of s k] c same
      by (cases "k = callKey (sc_id c)") auto
  qed
  moreover have "incoming_index (setCall c' r)"
    unfolding incoming_index_def get setCall_fields
  proof (intro allI impI)
    fix d k assume "js_get (cr_incomingCalls r) d = Some k"
    with ix(3) obtain x where "d \<noteq> []" "js_get (cr_calls r) k = Some x" "sc_incomingDigest x = Some d"
      unfolding incoming_index_def by blast
    with c same show "d \<noteq> [] \<and> (\<exists>x. ((js_get (cr_calls r))(callKey (sc_id c) \<mapsto> c')) k = Some x \<and> sc_incomingDigest x = Some d)"
      by (cases "k = callKey (sc_id c)") auto
  qed
  moreover have "rate_ok (setCall c' r)"
  proof -
    have "answeredCall (setCall c' r) k" if "answeredCall r k" for k
      using that c callStep_rate [OF step] by (cases "k = callKey (sc_id c)") (auto simp: answeredCall_def get)
    then show ?thesis using ok(1) by (auto simp: calls_ok_def rate_ok_def times_ok_def)
  qed
  moreover have "js_get (cr_tombstones r) (callKey (sc_id c)) = None"
    using ok(2) c by (cases "js_get (cr_tombstones r) (callKey (sc_id c))") (auto simp: tombs_ok_def tombs_keyed_def)
  then have "tombs_ok (setCall c' r)"
    using ok(2) unfolding tombs_ok_def tombs_keyed_def incoming_tombs_def get by auto
  moreover have "js_inv (cr_calls (setCall c' r))" using ok(1) by (simp add: calls_ok_def setCall_def)
  ultimately show ?thesis using inv ok hs get by (auto simp: cr_inv_split calls_ok_def)
qed

lemma begin_inv:
  assumes inv: "cr_inv r" and free: "js_get (cr_calls r) (callKey (sc_id c)) = None"
    "js_get (cr_tombstones r) (callKey (sc_id c)) = None" "js_get (cr_sessionCalls r) (sc_session c) = None"
    and st: "sc_state c \<in> {Initializing, Requested}"
  shows "cr_inv (rememberCall c r)"
proof -
  let ?k = "callKey (sc_id c)" and ?r = "rememberCall c r"
  have ok: "calls_ok r" "tombs_ok r" using inv by (simp_all add: cr_inv_split)
  have ix: "calls_keyed r" "session_index r" "incoming_index r" using ok(1) by (simp_all add: calls_ok_def)
  have get: "js_get (cr_calls ?r) = (js_get (cr_calls r))(?k \<mapsto> c)"
    by (simp add: rememberCall_def setCall_get)
  have fields: "cr_sessionCalls ?r = js_set (sc_session c) ?k (cr_sessionCalls r)"
    "cr_incomingCalls ?r = cr_incomingCalls r" "cr_tombstones ?r = cr_tombstones r"
    "cr_incomingTombstones ?r = cr_incomingTombstones r" "cr_receipts ?r = cr_receipts r"
    "cr_signalTimes ?r = cr_signalTimes r" "cr_debugTimes ?r = cr_debugTimes r"
    by (simp_all add: rememberCall_def)
  have "calls_keyed ?r" using ix(1) st unfolding calls_keyed_def get by auto
  moreover have "session_index ?r"
    unfolding session_index_def get fields
  proof (intro allI)
    fix s k
    show "js_get (js_set (sc_session c) ?k (cr_sessionCalls r)) s = Some k \<longleftrightarrow>
        (\<exists>x. ((js_get (cr_calls r))(?k \<mapsto> c)) k = Some x \<and> sc_session x = s)"
      using ix(2) [unfolded session_index_def, THEN spec, THEN spec, of s k] free
      by (cases "k = ?k"; cases "s = sc_session c") (auto simp: map_set)
  qed
  moreover have "incoming_index ?r"
    unfolding incoming_index_def get fields
  proof (intro allI impI)
    fix d k assume "js_get (cr_incomingCalls r) d = Some k"
    with ix(3) obtain x where "d \<noteq> []" "js_get (cr_calls r) k = Some x" "sc_incomingDigest x = Some d"
      unfolding incoming_index_def by blast
    with free show "d \<noteq> [] \<and> (\<exists>x. ((js_get (cr_calls r))(?k \<mapsto> c)) k = Some x \<and> sc_incomingDigest x = Some d)"
      by (cases "k = ?k") auto
  qed
  moreover have "rate_ok ?r"
  proof -
    have "answeredCall ?r k" if "answeredCall r k" for k
      using that free by (cases "k = ?k") (auto simp: answeredCall_def get)
    then show ?thesis using ok(1) by (auto simp: calls_ok_def rate_ok_def times_ok_def fields)
  qed
  moreover have "tombs_ok ?r"
    using ok(2) free unfolding tombs_ok_def tombs_keyed_def incoming_tombs_def get fields by auto
  moreover have "js_inv (cr_calls ?r)" using ok(1) by (simp add: calls_ok_def rememberCall_def setCall_def)
  moreover have "handshake_ok c" using st by (auto simp: handshake_ok_def answered_def)
  ultimately show ?thesis using inv ok by (auto simp: cr_inv_split calls_ok_def fields get)
qed

lemma forgetCall_get: "js_get (cr_calls (forgetCall c r)) = (js_get (cr_calls r))(callKey (sc_id c) := None)"
  by (simp add: forgetCall_def releaseCall_def map_delete)

lemma forgetCall_fields [simp]:
  "cr_tombstones (forgetCall c r) = cr_tombstones r" "cr_incomingTombstones (forgetCall c r) = cr_incomingTombstones r"
  "cr_receipts (forgetCall c r) = cr_receipts r" "cr_signalTimes (forgetCall c r) = cr_signalTimes r"
  "cr_debugTimes (forgetCall c r) = cr_debugTimes r"
  by (simp_all add: forgetCall_def releaseCall_def)

lemma session_unique:
  "session_index r \<Longrightarrow> js_get (cr_calls r) k = Some c \<Longrightarrow> js_get (cr_calls r) k' = Some c' \<Longrightarrow>
   sc_session c = sc_session c' \<Longrightarrow> k = k'"
  unfolding session_index_def by (metis option.inject)

text \<open>Removing a call, leaving aside its rate limits.\<close>

lemma forgetCall_ok:
  assumes ok: "calls_ok r" "tombs_ok r" and c: "js_get (cr_calls r) (callKey (sc_id c)) = Some c"
    and same: "sameCall c c'"
  shows "js_inv (cr_calls (forgetCall c' r)) \<and> js_inv (cr_sessionCalls (forgetCall c' r)) \<and>
    js_inv (cr_incomingCalls (forgetCall c' r)) \<and> calls_keyed (forgetCall c' r) \<and> session_index (forgetCall c' r) \<and>
    incoming_index (forgetCall c' r) \<and> (\<forall>k x. js_get (cr_calls (forgetCall c' r)) k = Some x \<longrightarrow> handshake_ok x) \<and>
    tombs_ok (forgetCall c' r)"
proof -
  let ?k = "callKey (sc_id c)" and ?r = "forgetCall c' r"
  have eq: "sc_id c' = sc_id c" "sc_session c' = sc_session c" "sc_incomingDigest c' = sc_incomingDigest c"
    using same by (simp_all add: sameCall_def)
  have ix: "calls_keyed r" "session_index r" "incoming_index r" "js_inv (cr_calls r)" "js_inv (cr_sessionCalls r)"
    "js_inv (cr_incomingCalls r)" using ok(1) by (simp_all add: calls_ok_def)
  have get: "js_get (cr_calls ?r) = (js_get (cr_calls r))(?k := None)" by (simp add: forgetCall_get eq)
  have sess: "cr_sessionCalls ?r = dropRef (sc_session c) ?k (cr_sessionCalls r)"
    by (simp add: forgetCall_def releaseCall_def eq)
  have inc: "cr_incomingCalls ?r = (case sc_incomingDigest c of
      Some d \<Rightarrow> if d = [] then cr_incomingCalls r else dropRef d ?k (cr_incomingCalls r) | None \<Rightarrow> cr_incomingCalls r)"
    by (simp add: forgetCall_def releaseCall_def eq split: option.splits)
  have "calls_keyed ?r" using ix(1) unfolding calls_keyed_def get by auto
  moreover have "session_index ?r"
    unfolding session_index_def get sess
  proof (intro allI)
    fix s k
    have at: "js_get (cr_sessionCalls r) (sc_session c) = Some ?k" using ix(2) c unfolding session_index_def by blast
    have old: "(\<exists>x. js_get (cr_calls r) k = Some x \<and> sc_session x = s) \<longleftrightarrow> js_get (cr_sessionCalls r) s = Some k"
      using ix(2) unfolding session_index_def by blast
    show "js_get (dropRef (sc_session c) ?k (cr_sessionCalls r)) s = Some k \<longleftrightarrow>
        (\<exists>x. ((js_get (cr_calls r))(?k := None)) k = Some x \<and> sc_session x = s)"
    proof (cases "k = ?k")
      case True
      have "s = sc_session c" if "js_get (cr_sessionCalls r) s = Some ?k"
        using that old c True by auto
      with True at show ?thesis by (auto simp: dropRef_get split: if_splits)
    next
      case False
      then show ?thesis using old at by (auto simp: dropRef_get)
    qed
  qed
  moreover have "incoming_index ?r"
    unfolding incoming_index_def get
  proof (intro allI impI)
    fix d k assume a: "js_get (cr_incomingCalls ?r) d = Some k"
    have "js_get (cr_incomingCalls r) d = Some k"
      using a by (auto simp: inc dropRef_get split: option.splits if_splits)
    with ix(3) obtain x where x: "d \<noteq> []" "js_get (cr_calls r) k = Some x" "sc_incomingDigest x = Some d"
      unfolding incoming_index_def by blast
    have "k \<noteq> ?k"
    proof
      assume "k = ?k"
      with x c have "sc_incomingDigest c = Some d" by simp
      with a x(1) \<open>k = ?k\<close> show False by (simp add: inc dropRef_get split: if_splits)
    qed
    with x show "d \<noteq> [] \<and> (\<exists>x. ((js_get (cr_calls r))(?k := None)) k = Some x \<and> sc_incomingDigest x = Some d)" by auto
  qed
  moreover have "js_inv (cr_incomingCalls ?r)" using ix(6) by (simp add: inc split: option.splits)
  moreover have "js_inv (cr_calls ?r)" using ix(4) by (simp add: forgetCall_def releaseCall_def)
  moreover have "tombs_ok ?r" using ok(2) unfolding tombs_ok_def tombs_keyed_def incoming_tombs_def get by auto
  moreover have "js_get (cr_calls ?r) k = Some x \<Longrightarrow> handshake_ok x" for k x
    using ok(1) by (auto simp: get calls_ok_def split: if_splits)
  ultimately show ?thesis using ix(5) by (simp add: sess)
qed

lemma forget_inv:
  assumes inv: "cr_inv r" and c: "js_get (cr_calls r) (callKey (sc_id c)) = Some c" and same: "sameCall c c'"
    and st: "sc_state c \<in> {Initializing, Requested}"
  shows "cr_inv (forgetCall c' r)"
proof -
  have ok: "calls_ok r" "tombs_ok r" using inv by (simp_all add: cr_inv_split)
  have eq: "sc_id c' = sc_id c" using same by (simp add: sameCall_def)
  have "answeredCall (forgetCall c' r) k" if "answeredCall r k" for k
    using that c st by (auto simp: answeredCall_def forgetCall_get eq answered_def)
  then have "rate_ok (forgetCall c' r)" using ok(1) by (auto simp: calls_ok_def rate_ok_def times_ok_def)
  with forgetCall_ok [OF ok c same] inv show ?thesis by (simp add: cr_inv_split calls_ok_def)
qed

lemma retire_inv:
  assumes inv: "cr_inv r" and c: "js_get (cr_calls r) (callKey (sc_id c)) = Some c" and same: "sameCall c c'"
  shows "cr_inv (retireCall now c' pc pending r)"
proof -
  let ?k = "callKey (sc_id c)" and ?r1 = "forgetCall c' r" and ?t = "makeTombstone now c' pc pending"
  have ok: "calls_ok r" "tombs_ok r" using inv by (simp_all add: cr_inv_split)
  have eq: "sc_id c' = sc_id c" using same by (simp add: sameCall_def)
  note f = forgetCall_ok [OF ok c same]
  define r2 where "r2 = ?r1\<lparr>cr_signalTimes := js_delete ?k (cr_signalTimes ?r1),
      cr_debugTimes := js_delete ?k (cr_debugTimes ?r1), cr_tombstones := js_set ?k ?t (cr_tombstones ?r1),
      cr_incomingTombstones := (case tb_incomingDigest ?t of
         Some d \<Rightarrow> if d = [] then cr_incomingTombstones ?r1 else js_set d ?k (cr_incomingTombstones ?r1)
       | None \<Rightarrow> cr_incomingTombstones ?r1)\<rparr>"
  have f2: "cr_calls r2 = cr_calls ?r1" "cr_sessionCalls r2 = cr_sessionCalls ?r1"
    "cr_incomingCalls r2 = cr_incomingCalls ?r1" "cr_receipts r2 = cr_receipts r"
    "cr_tombstones r2 = js_set ?k ?t (cr_tombstones r)" "cr_signalTimes r2 = js_delete ?k (cr_signalTimes r)"
    "cr_debugTimes r2 = js_delete ?k (cr_debugTimes r)"
    by (simp_all add: r2_def)
  have gone: "js_get (cr_calls ?r1) ?k = None" by (simp add: forgetCall_get eq)
  have noT: "js_get (cr_tombstones r) ?k = None"
    using ok(2) c by (cases "js_get (cr_tombstones r) ?k") (auto simp: tombs_ok_def tombs_keyed_def)
  have "tombs_keyed r2"
    using f gone eq unfolding tombs_ok_def tombs_keyed_def
    by (auto simp: f2 map_set makeTombstone_def)
  moreover have "incoming_tombs r2"
    unfolding incoming_tombs_def
  proof (intro allI impI)
    fix d k assume a: "js_get (cr_incomingTombstones r2) d = Some k"
    show "d \<noteq> [] \<and> (\<exists>t. js_get (cr_tombstones r2) k = Some t \<and> tb_incomingDigest t = Some d)"
    proof (cases "tb_incomingDigest ?t = Some d \<and> d \<noteq> []")
      case True
      then show ?thesis using a by (auto simp: r2_def map_set)
    next
      case False
      then have "js_get (cr_incomingTombstones r) d = Some k"
        using a by (auto simp: r2_def map_set split: option.splits if_splits)
      with ok(2) obtain t where t: "d \<noteq> []" "js_get (cr_tombstones r) k = Some t" "tb_incomingDigest t = Some d"
        by (auto simp: tombs_ok_def incoming_tombs_def)
      with noT have "k \<noteq> ?k" by auto
      with t show ?thesis by (auto simp: f2 map_set)
    qed
  qed
  moreover have "js_inv (cr_tombstones r2)" "js_inv (cr_incomingTombstones r2)"
    using ok(2) by (auto simp: r2_def tombs_ok_def split: option.splits)
  ultimately have t2: "tombs_ok r2" by (simp add: tombs_ok_def)
  have "answeredCall r2 k" if "answeredCall r k" "k \<noteq> ?k" for k
    using that by (auto simp: answeredCall_def f2 forgetCall_get eq)
  then have "rate_ok r2" using ok(1) by (auto simp: calls_ok_def rate_ok_def times_ok_def f2 map_delete)
  with f have c2: "calls_ok r2"
    by (simp add: calls_ok_def calls_keyed_def session_index_def incoming_index_def f2)
  define r3 where "r3 = pruneTombstones now r2"
  have "js_inv (cr_receipts r2)" using inv by (simp add: f2 cr_inv_split)
  note p = pruneTombstones_ok [OF t2 this, of now, folded r3_def]
  have "retireCall now c' pc pending r = evictTombstones (length (cr_tombstones r3)) r3"
    unfolding retireCall_def Let_def eq r2_def [symmetric] r3_def [symmetric] ..
  moreover note evictTombstones_ok [OF p(1) order.refl]
  ultimately show ?thesis
    using calls_ok_same [OF calls_ok_same [OF c2 p(2)]] p inv by (simp add: cr_inv_split f2)
qed

lemma callMove_inv: "callMove r r' \<Longrightarrow> cr_inv r \<Longrightarrow> cr_inv r'"
proof (induction rule: callMove.induct)
  case (prune r now)
  then show ?case by (rule prune_inv)
next
  case (publish r ps)
  then show ?case
    by (simp add: cr_inv_def maps_ok_def calls_keyed_def session_index_def incoming_index_def tombs_keyed_def
        incoming_tombs_def rate_ok_def times_ok_def answeredCall_def)
next
  case (update r c c')
  then show ?case by (intro update_inv)
next
  case (begin_call r c)
  then show ?case by (intro begin_inv)
next
  case (incoming r k c d)
  then show ?case
    by (auto simp: cr_inv_def maps_ok_def calls_keyed_def session_index_def incoming_index_def tombs_keyed_def
        incoming_tombs_def rate_ok_def times_ok_def answeredCall_def map_set)
next
  case (forget r c c')
  then show ?case by (intro forget_inv)
next
  case (retire r c c' now pc pending)
  then show ?case by (intro retire_inv)
next
  case (delivered r k t)
  let ?r = "r\<lparr>cr_tombstones := js_set k (t\<lparr>tb_pendingDelivery := False\<rparr>) (cr_tombstones r)\<rparr>"
  have "k \<in> set (js_keys (cr_tombstones r))" using map_of_SomeD [OF delivered(1)] by (force intro: rev_image_eqI)
  then have "length (cr_tombstones ?r) = length (cr_tombstones r)"
    using js_keys_set [of k "t\<lparr>tb_pendingDelivery := False\<rparr>" "cr_tombstones r"]
    by (metis callRegistry.select_convs(4) callRegistry.surjective callRegistry.update_convs(4) length_map)
  moreover have "incoming_tombs ?r"
    unfolding incoming_tombs_def
  proof (intro allI impI)
    fix d k' assume "js_get (cr_incomingTombstones ?r) d = Some k'"
    then obtain t' where "d \<noteq> []" "js_get (cr_tombstones r) k' = Some t'" "tb_incomingDigest t' = Some d"
      using delivered(2) by (auto simp: cr_inv_split tombs_ok_def incoming_tombs_def)
    with delivered(1) show "d \<noteq> [] \<and> (\<exists>t. js_get (cr_tombstones ?r) k' = Some t \<and> tb_incomingDigest t = Some d)"
      by (cases "k' = k") (auto simp: map_set)
  qed
  then have "tombs_ok ?r"
    using delivered by (auto simp: cr_inv_split tombs_ok_def tombs_keyed_def map_set)
  moreover have "calls_ok ?r" using delivered(2) calls_ok_same [of r ?r] by (simp add: cr_inv_split sameCalls_def)
  ultimately show ?case using delivered(2) by (simp add: cr_inv_split)
next
  case (receipt r now k)
  have "length (cr_receipts (rememberReceipt now k r)) \<le> MAX_TOMBSTONES" "js_inv (cr_receipts (rememberReceipt now k r))"
    using receipt by (simp_all add: rememberReceipt_def length_evictOldest js_inv_evictOldest cr_inv_split)
  moreover have "calls_ok (rememberReceipt now k r)"
    using receipt calls_ok_same [of r "rememberReceipt now k r"] by (simp add: cr_inv_split sameCalls_def rememberReceipt_def)
  ultimately show ?case using receipt by (simp add: cr_inv_split) (simp add: rememberReceipt_def)
next
  case (signal r k c stamps)
  then have "answeredCall r k" by (auto simp: answeredCall_def)
  with signal show ?case
    by (auto simp: cr_inv_def maps_ok_def calls_keyed_def session_index_def incoming_index_def tombs_keyed_def
        incoming_tombs_def rate_ok_def times_ok_def answeredCall_def map_set)
next
  case (debug r k c stamps)
  then have "answeredCall r k" by (auto simp: answeredCall_def)
  with debug show ?case
    by (auto simp: cr_inv_def maps_ok_def calls_keyed_def session_index_def incoming_index_def tombs_keyed_def
        incoming_tombs_def rate_ok_def times_ok_def answeredCall_def map_set)
qed

lemma callMoves_inv: "callMoves r r' \<Longrightarrow> cr_inv r \<Longrightarrow> cr_inv r'"
  by (induction rule: rtranclp_induct) (auto dest: callMove_inv)

lemma new_registry_inv: "cr_inv newCallRegistry"
  by (simp add: cr_inv_def newCallRegistry_def maps_ok_def calls_keyed_def session_index_def incoming_index_def
      tombs_keyed_def incoming_tombs_def rate_ok_def times_ok_def)

section \<open>The operations are moves\<close>

lemma andThen_moves:
  assumes "callMoves r (snd m)" and "\<And>x r1. m = (Inr x, r1) \<Longrightarrow> callMoves r1 (snd (f x r1))"
  shows "callMoves r (snd (andThen m f))"
proof (cases m)
  case (Pair x r1)
  then show ?thesis using assms by (cases x) (auto simp: andThen_def)
qed

lemma callMoves_step: "callMove r r' \<Longrightarrow> callMoves r r'"
  by (rule r_into_rtranclp)

lemma publishCall_eq: "\<exists>x. publishCall env s pc ex r = (x, r\<lparr>cr_published := cr_published r @ [(s, pc, ex)]\<rparr>)"
  by (auto simp: publishCall_def Let_def split: delivery.splits)

lemma publishCall_moves: "callMoves r (snd (publishCall env s pc ex r))"
  using publishCall_eq [of env s pc ex r] callMoves_step [OF callMove.publish] by (metis snd_conv)

lemma handshake_pending [simp]:
  "handshake_ok (c\<lparr>sc_pendingDelivery := p, sc_pendingExclude := q\<rparr>) = handshake_ok c"
  by (simp add: handshake_ok_def)

lemma callStep_pending [simp]:
  "callStep c (c'\<lparr>sc_pendingDelivery := p, sc_pendingExclude := q\<rparr>) = callStep c c'"
  "callStep (c\<lparr>sc_pendingDelivery := p, sc_pendingExclude := q\<rparr>) c' = callStep c c'"
  by (simp_all add: callStep_def sameCall_def)

lemma callStep_refl [simp]: "callStep c c"
  by (simp add: callStep_def sameCall_def)

lemma sameCall_refl [simp]: "sameCall c c"
  by (simp add: sameCall_def)

lemma call_key: "cr_inv r \<Longrightarrow> js_get (cr_calls r) k = Some c \<Longrightarrow> k = callKey (sc_id c)"
  by (simp add: cr_inv_def calls_keyed_def)

lemma call_handshake: "cr_inv r \<Longrightarrow> js_get (cr_calls r) k = Some c \<Longrightarrow> handshake_ok c"
  by (simp add: cr_inv_def)

lemma update_moves:
  assumes "cr_inv r" and "js_get (cr_calls r) (callKey (sc_id c)) = Some c" and "callStep c c'" and "handshake_ok c'"
  shows "callMoves r (setCall c' r)"
  using assms by (intro callMoves_step callMove.update)

lemma deliverPending_moves:
  assumes inv: "cr_inv r"
  shows "callMoves r (snd (deliverPending env k r))"
proof (cases "js_get (cr_calls r) k")
  case None
  then show ?thesis by (simp add: deliverPending_def)
next
  case (Some c)
  note key = call_key [OF inv Some]
  show ?thesis
  proof (cases "sc_pendingDelivery c")
    case None
    with Some show ?thesis by (simp add: deliverPending_def)
  next
    case pc: (Some pc)
    let ?r = "r\<lparr>cr_published := cr_published r @ [(sc_session c, pc, sc_pendingExclude c)]\<rparr>"
    obtain x where x: "publishCall env (sc_session c) pc (sc_pendingExclude c) r = (x, ?r)"
      using publishCall_eq by blast
    have m1: "callMove r ?r" by (rule callMove.publish)
    have "callMove ?r (setCall (c\<lparr>sc_pendingDelivery := None, sc_pendingExclude := None\<rparr>) ?r)"
      using Some key call_handshake [OF inv Some] by (intro callMove.update [of _ c]) simp_all
    with m1 have "callMoves r (setCall (c\<lparr>sc_pendingDelivery := None, sc_pendingExclude := None\<rparr>) ?r)"
      by (meson rtranclp.rtrancl_refl rtranclp.rtrancl_into_rtrancl)
    with m1 show ?thesis using Some pc x
      by (cases x) (auto simp: deliverPending_def)
  qed
qed

lemma publishTransition_moves:
  assumes inv: "cr_inv r" and c: "js_get (cr_calls r) (callKey (sc_id c)) = Some c"
    and step: "callStep c c'" and hs: "handshake_ok c'"
  shows "callMoves r (snd (publishTransition env c' ex r))"
proof (cases "phoneCallOf c'")
  case (Inl e)
  then show ?thesis by (simp add: publishTransition_def)
next
  case (Inr pc)
  let ?r = "setCall (c'\<lparr>sc_pendingDelivery := Some pc, sc_pendingExclude := ex\<rparr>) r"
  have m: "callMoves r ?r" using inv c step hs by (intro update_moves) simp_all
  with deliverPending_moves [OF callMoves_inv [OF m inv]] Inr show ?thesis
    by (auto simp: publishTransition_def intro: rtranclp_trans)
qed

lemma publishDiscarded_moves:
  assumes c: "js_get (cr_calls r) (callKey (sc_id c)) = Some c" and same: "sameCall c c'"
  shows "callMoves r (snd (publishDiscarded env c' ex r))"
proof -
  let ?r = "r\<lparr>cr_published := cr_published r @ [(sc_session c', pcDiscarded c', ex)]\<rparr>"
  obtain x where x: "publishCall env (sc_session c') (pcDiscarded c') ex r = (x, ?r)" using publishCall_eq by blast
  have "callMove r ?r" by (rule callMove.publish)
  moreover have "callMove ?r (retireCall (ce_now env) c' (pcDiscarded c') p ?r)" for p
    using c same by (intro callMove.retire [of _ c]) simp_all
  ultimately have "callMoves r (retireCall (ce_now env) c' (pcDiscarded c') p ?r)" for p
    by (meson rtranclp.rtrancl_refl rtranclp.rtrancl_into_rtrancl)
  then show ?thesis using x by (cases x) (auto simp: publishDiscarded_def Let_def)
qed

lemma abortCall_moves:
  assumes "js_get (cr_calls r) (callKey (sc_id c)) = Some c" and "sameCall c c'"
  shows "callMoves r (abortCall env c' ex r)"
  unfolding abortCall_def using assms by (intro publishDiscarded_moves) (simp_all add: sameCall_def teardownCall_def)

lemma deliverTombstone_moves:
  assumes "js_get (cr_tombstones r) (callKey (tb_id t)) = Some t"
  shows "callMoves r (snd (deliverTombstone env s t ex r))"
proof -
  let ?r = "r\<lparr>cr_published := cr_published r @ [(s, tb_phoneCall t, ex)]\<rparr>"
  obtain x where x: "publishCall env s (tb_phoneCall t) ex r = (x, ?r)" using publishCall_eq by blast
  have m: "callMove r ?r" by (rule callMove.publish)
  have "callMove ?r (?r\<lparr>cr_tombstones := js_set (callKey (tb_id t)) (t\<lparr>tb_pendingDelivery := False\<rparr>) (cr_tombstones ?r)\<rparr>)"
    using assms by (intro callMove.delivered) simp
  with m have "callMoves r (?r\<lparr>cr_tombstones := js_set (callKey (tb_id t)) (t\<lparr>tb_pendingDelivery := False\<rparr>) (cr_tombstones ?r)\<rparr>)"
    by (meson rtranclp.rtrancl_refl rtranclp.rtrancl_into_rtrancl)
  with m show ?thesis using x by (cases x) (auto simp: deliverTombstone_def)
qed

lemma serialize_moves:
  assumes "cr_inv r" and "\<And>r1. cr_inv r1 \<Longrightarrow> callMoves r1 (snd (operation r1))"
  shows "callMoves r (snd (serialize env operation r))"
proof -
  have "callMove r (pruneTombstones (ce_now env) r)" by (rule callMove.prune)
  moreover from this assms have "callMoves (pruneTombstones (ce_now env) r) (snd (operation (pruneTombstones (ce_now env) r)))"
    using callMove_inv by blast
  ultimately show ?thesis by (simp add: serialize_def converse_rtranclp_into_rtranclp)
qed

lemma findCall_moves: "callMoves r (snd (findCall env s peer r))"
  by (auto simp: findCall_def Let_def intro: callMoves_step callMove.prune split: option.splits)

lemma findCall_Some:
  assumes "cr_inv r" and "findCall env s peer r = (Inr c, r1)"
  shows "cr_inv r1" and "js_get (cr_calls r1) (callKey (sc_id c)) = Some c" and "sc_session c = s"
    and "sc_id c = pe_id peer" and "sc_accessHash c = pe_accessHash peer" and "r1 = pruneTombstones (ce_now env) r"
proof -
  have r1: "r1 = pruneTombstones (ce_now env) r" "js_get (cr_calls r1) (callKey (pe_id peer)) = Some c"
    "sc_session c = s" "sc_accessHash c = pe_accessHash peer"
    using assms(2) by (auto simp: findCall_def Let_def sameWireLong_def split: option.splits if_splits)
  show inv: "cr_inv r1" using r1(1) prune_inv [OF assms(1)] by simp
  from call_key [OF this r1(2)] have "pe_id peer = sc_id c" by simp
  with r1 show "js_get (cr_calls r1) (callKey (sc_id c)) = Some c" "sc_session c = s" "sc_id c = pe_id peer"
    "sc_accessHash c = pe_accessHash peer" "r1 = pruneTombstones (ce_now env) r" by simp_all
qed

lemma wrapCall_moves: "callMoves r (snd (wrapCall k r))"
  by (simp add: wrapCall_def split: option.splits)

lemma sessionCall_None: "cr_inv r \<Longrightarrow> sessionCall s r = None \<Longrightarrow> js_get (cr_sessionCalls r) s = None"
  by (cases "js_get (cr_sessionCalls r) s") (auto simp: sessionCall_def cr_inv_def session_index_def)

lemma sessionCall_Some:
  assumes "cr_inv r" and "sessionCall s r = Some c"
  shows "js_get (cr_calls r) (callKey (sc_id c)) = Some c" and "sc_state c \<noteq> Discarded" and "sc_session c = s"
proof -
  obtain k where k: "js_get (cr_sessionCalls r) s = Some k" "js_get (cr_calls r) k = Some c"
    using assms(2) by (auto simp: sessionCall_def split: option.splits)
  show "js_get (cr_calls r) (callKey (sc_id c)) = Some c" using call_key [OF assms(1) k(2)] k(2) by simp
  show "sc_state c \<noteq> Discarded" using assms(1) k(2) unfolding cr_inv_def calls_keyed_def by blast
  have "session_index r" using assms(1) by (simp add: cr_inv_def)
  with k show "sc_session c = s" unfolding session_index_def by (metis option.inject)
qed

lemma uniqueLong_fresh: "uniqueLong n draws i inUse = Some (v, j) \<Longrightarrow> \<not> inUse v \<and> v \<noteq> 0"
  by (induction n arbitrary: i) (auto split: if_splits)

lemma createCall_fresh:
  assumes "createCall env s a p protocol role rid digest negotiated r = Inr c"
  shows "js_get (cr_calls r) (callKey (sc_id c)) = None" and "js_get (cr_tombstones r) (callKey (sc_id c)) = None"
    and "sc_session c = s" and "sc_state c = Requested" and "sc_telegramRole c = role" and "sc_incomingDigest c = digest"
    and "sc_adminId c = a" and "sc_participantId c = p" and "sc_randomId c = rid" and "sc_pendingDelivery c = None"
  using assms by (auto simp: createCall_def dest!: uniqueLong_fresh split: if_splits option.splits prod.splits)

lemma handshake_unanswered: "\<not> answered (sc_state c) \<Longrightarrow> handshake_ok c"
  by (simp add: handshake_ok_def)

lemma prepareRecipient_eq:
  "prepareRecipient env c = Inr c' \<Longrightarrow> \<exists>gB. c' = c\<lparr>sc_gB := Some gB\<rparr> \<and> length gB = DH_PUBLIC_BYTES"
  by (auto simp: prepareRecipient_def split: sum.splits option.splits if_splits)

lemma prepareCaller_eq:
  "prepareCaller env c = Inr c' \<Longrightarrow> \<exists>h. c' = c\<lparr>sc_gAHash := Some h, sc_state := Requested\<rparr> \<and> length h = GA_HASH_BYTES"
  by (auto simp: prepareCaller_def split: sum.splits option.splits if_splits)

lemma rememberCall_get: "js_get (cr_calls (rememberCall c r)) (callKey (sc_id c)) = Some c"
  by (simp add: rememberCall_def setCall_get)

lemma startRequest_moves:
  assumes inv: "cr_inv r" and free: "js_get (cr_sessionCalls r) (rq_session input) = None"
  shows "callMoves r (snd (startRequest env input r))"
proof (cases "ce_worker env = None")
  case False
  show ?thesis
  proof (cases "workerProtocol env")
    case (Inr rp)
    show ?thesis
    proof (cases "negotiateProtocol (rq_protocol input) rp")
      case neg: (Inr ng)
      show ?thesis
      proof (cases "createCall env (rq_session input) (rq_selfId input) (rq_participantId input) (rq_protocol input)
          Caller (Some (rq_randomId input)) None ng r")
        case new: (Inr call0)
        let ?c = "call0\<lparr>sc_recipientProtocol := Some rp, sc_gAHash := Some (rq_gAHash input)\<rparr>"
        note fresh = createCall_fresh [OF new]
        have beg: "callMove r (rememberCall ?c r)"
          using fresh free by (intro callMove.begin_call) simp_all
        then have inv1: "cr_inv (rememberCall ?c r)" using callMove_inv inv by blast
        have get: "js_get (cr_calls (rememberCall ?c r)) (callKey (sc_id ?c)) = Some ?c" by (rule rememberCall_get)
        have "callMoves (rememberCall ?c r) (snd (case prepareRecipient env ?c of
            Inl e \<Rightarrow> (Inl e, forgetCall ?c (rememberCall ?c r))
          | Inr call' \<Rightarrow> andThen (publishTransition env call' (rq_exclude input) (rememberCall ?c r))
              (\<lambda>_. wrapCall (callKey (sc_id call')))))"
        proof (cases "prepareRecipient env ?c")
          case (Inl e)
          then show ?thesis using get fresh by (auto intro!: callMoves_step callMove.forget [of _ ?c])
        next
          case ok: (Inr c')
          then obtain gB where c': "c' = ?c\<lparr>sc_gB := Some gB\<rparr>" using prepareRecipient_eq by blast
          have "callMoves (rememberCall ?c r) (snd (publishTransition env c' (rq_exclude input) (rememberCall ?c r)))"
            using inv1 get fresh
            by (intro publishTransition_moves [of _ ?c]) (simp_all add: c' callStep_def sameCall_def handshake_unanswered answered_def)
          then show ?thesis unfolding ok sum.case by (intro andThen_moves wrapCall_moves)
        qed
        with beg have "callMoves r (snd (case prepareRecipient env ?c of
            Inl e \<Rightarrow> (Inl e, forgetCall ?c (rememberCall ?c r))
          | Inr call' \<Rightarrow> andThen (publishTransition env call' (rq_exclude input) (rememberCall ?c r))
              (\<lambda>_. wrapCall (callKey (sc_id call')))))" by (rule converse_rtranclp_into_rtranclp)
        then show ?thesis using False Inr neg new by (simp add: startRequest_def Let_def)
      qed (use False Inr neg in \<open>simp add: startRequest_def\<close>)
    qed (use False Inr in \<open>simp add: startRequest_def\<close>)
  qed (use False in \<open>simp add: startRequest_def\<close>)
qed (simp add: startRequest_def)

lemma requestBody_moves:
  assumes inv: "cr_inv r"
  shows "callMoves r (snd (requestBody env input r))"
proof (cases "sessionCall (rq_session input) r")
  case None
  then show ?thesis using startRequest_moves [OF inv sessionCall_None [OF inv None]]
    by (auto simp: requestBody_def freshRequest_def split: sum.splits option.splits)
next
  case (Some c)
  with sessionCall_Some(2) [OF inv Some] deliverPending_moves [OF inv] show ?thesis
    by (auto simp: requestBody_def intro!: andThen_moves wrapCall_moves)
qed

lemma callRequest_moves: "cr_inv r \<Longrightarrow> callMoves r (snd (callRequest env input r))"
  by (auto simp: callRequest_def intro!: serialize_moves requestBody_moves)

lemma incomingFailed_moves:
  assumes c: "js_get (cr_calls r) (callKey (sc_id c)) = Some c" and st: "sc_state c = Initializing"
  shows "callMoves r (snd (incomingFailed env c e r))"
proof -
  have "callMoves r (forgetCall c r)"
    using c st by (intro callMoves_step callMove.forget [of _ c]) simp_all
  moreover have "callMoves r (snd (andThen (publishDiscarded env
      ((teardownCall c)\<lparr>sc_state := Discarded, sc_discarded := Some ReasonDisconnect\<rparr>) None r) (\<lambda>pc r'. (Inr (Some pc), r'))))"
    using c by (intro andThen_moves publishDiscarded_moves) (simp_all add: sameCall_def teardownCall_def)
  ultimately show ?thesis by (simp add: incomingFailed_def split: sum.splits)
qed

lemma startIncoming_moves:
  assumes inv: "cr_inv r" and free: "js_get (cr_sessionCalls r) (ic_session input) = None" and d: "d \<noteq> []"
  shows "callMoves r (snd (startIncoming env input d r))"
proof (cases "workerProtocol env")
  case (Inr p)
  show ?thesis
  proof (cases "createCall env (ic_session input) (ic_callerId input) (ic_selfId input) p Recipient None (Some d) p r")
    case new: (Inr call0)
    let ?c = "call0\<lparr>sc_platformCallRef := ic_platformCallRef input, sc_platformControl := ic_platformControl input,
      sc_state := Initializing\<rparr>"
    let ?r1 = "rememberCall ?c r"
    let ?r2 = "?r1\<lparr>cr_incomingCalls := js_set d (callKey (sc_id ?c)) (cr_incomingCalls ?r1)\<rparr>"
    note fresh = createCall_fresh [OF new]
    have beg: "callMove r ?r1" using fresh free by (intro callMove.begin_call) simp_all
    have get1: "js_get (cr_calls ?r1) (callKey (sc_id ?c)) = Some ?c" by (rule rememberCall_get)
    have inc: "callMove ?r1 ?r2" using fresh get1 d by (intro callMove.incoming [of _ _ ?c]) simp_all
    have m2: "callMoves r ?r2" using beg inc by (meson rtranclp.rtrancl_refl rtranclp.rtrancl_into_rtrancl)
    then have inv2: "cr_inv ?r2" using callMoves_inv inv by blast
    have get: "js_get (cr_calls ?r2) (callKey (sc_id ?c)) = Some ?c" using get1 by simp
    have "callMoves ?r2 (snd (case prepareCaller env ?c of
        Inl e \<Rightarrow> incomingFailed env ?c e ?r2
      | Inr call' \<Rightarrow> andThen (publishTransition env call' None ?r2) (\<lambda>_ r3. (Inr (Some (pcRequested call')), r3))))"
    proof (cases "prepareCaller env ?c")
      case (Inl e)
      then show ?thesis using incomingFailed_moves [OF get] by simp
    next
      case ok: (Inr c')
      then obtain h where c': "c' = ?c\<lparr>sc_gAHash := Some h, sc_state := Requested\<rparr>" using prepareCaller_eq by blast
      have "callMoves ?r2 (snd (publishTransition env c' None ?r2))"
        using inv2 get by (intro publishTransition_moves [of _ ?c])
          (simp_all add: c' callStep_def sameCall_def handshake_unanswered answered_def)
      then show ?thesis unfolding ok sum.case by (intro andThen_moves) simp_all
    qed
    with m2 have "callMoves r (snd (case prepareCaller env ?c of
        Inl e \<Rightarrow> incomingFailed env ?c e ?r2
      | Inr call' \<Rightarrow> andThen (publishTransition env call' None ?r2) (\<lambda>_ r3. (Inr (Some (pcRequested call')), r3))))"
      by (rule rtranclp_trans)
    then show ?thesis using Inr new by (simp add: startIncoming_def Let_def)
  qed (use Inr in \<open>simp add: startIncoming_def\<close>)
qed (simp add: startIncoming_def)

lemma freshIncoming_moves:
  assumes inv: "cr_inv r" and d: "d \<noteq> []"
  shows "callMoves r (snd (freshIncoming env input d r))"
proof (cases "sessionCall (ic_session input) r")
  case None
  then show ?thesis using startIncoming_moves [OF inv sessionCall_None [OF inv None] d] by (simp add: freshIncoming_def)
next
  case (Some c)
  with sessionCall_Some(2) [OF inv Some] show ?thesis
    by (auto simp: freshIncoming_def intro: callMoves_step callMove.receipt)
qed

lemma endedIncoming_moves:
  assumes inv: "cr_inv r" and d: "d \<noteq> []"
  shows "callMoves r (snd (endedIncoming env input d r))"
proof -
  have "js_get (cr_tombstones r) (callKey (tb_id t)) = Some t" if "js_get (cr_tombstones r) key = Some t" for key t
    using inv that by (auto simp: cr_inv_def tombs_keyed_def)
  then show ?thesis using freshIncoming_moves [OF assms]
    by (auto simp: endedIncoming_def intro!: andThen_moves deliverTombstone_moves split: option.splits)
qed

lemma receiveIncoming_moves:
  assumes inv: "cr_inv r" and hmac: "ce_hmac env (ic_session input) (ic_correlationId input) \<noteq> []"
  shows "callMoves r (snd (receiveIncoming env input r))"
  using endedIncoming_moves [OF _ hmac] deliverPending_moves inv
  by (auto simp: receiveIncoming_def incomingBody_def intro!: serialize_moves andThen_moves split: option.splits)

lemma onCall_moves:
  assumes "cr_inv r" and "\<And>c r1. cr_inv r1 \<Longrightarrow> js_get (cr_calls r1) (callKey (sc_id c)) = Some c \<Longrightarrow> callMoves r1 (snd (f c r1))"
  shows "callMoves r (snd (andThen (findCall env s peer r) f))"
proof (intro andThen_moves findCall_moves)
  fix c r1 assume f: "findCall env s peer r = (Inr c, r1)"
  show "callMoves r1 (snd (f c r1))"
    by (rule assms(2) [OF findCall_Some(1) [OF assms(1) f] findCall_Some(2) [OF assms(1) f]])
qed

lemma callReceived_moves:
  assumes "cr_inv r" shows "callMoves r (snd (callReceived env s peer ex r))"
  unfolding callReceived_def
proof (intro serialize_moves [OF assms] onCall_moves)
  fix r1 c
  assume inv: "cr_inv r1" and c: "js_get (cr_calls r1) (callKey (sc_id c)) = Some c"
  let ?c = "c\<lparr>sc_state := Received, sc_receiveDate := Some (ce_now env div 1000)\<rparr>"
  have "callMoves r1 (snd (publishTransition env ?c ex r1))"
    if "sc_telegramRole c = Recipient" "sc_state c = Requested"
    using inv c that by (intro publishTransition_moves [of _ c])
      (simp_all add: callStep_def sameCall_def handshake_unanswered answered_def)
  then show "callMoves r1 (snd (if sc_telegramRole c \<noteq> Recipient then (Inl (VoiceCallError ''CALL_ROLE_INVALID''), r1)
      else if sc_state c = Received then deliverPending env (callKey (sc_id c)) r1
      else if sc_state c \<noteq> Requested then (Inl (VoiceCallError ''CALL_STATE_INVALID''), r1)
      else publishTransition env ?c ex r1))"
    using deliverPending_moves [OF inv] by (cases "sc_telegramRole c") auto
qed

text \<open>Deliveries change nothing of a call but what is pending.\<close>

lemma pending_self: "x = x\<lparr>sc_pendingDelivery := sc_pendingDelivery x, sc_pendingExclude := sc_pendingExclude x\<rparr>"
  by simp

lemma deliverPending_calls:
  assumes inv: "cr_inv r"
  shows "cr_calls (snd (deliverPending env k r)) = cr_calls r \<or>
    (\<exists>c. js_get (cr_calls r) k = Some c \<and> js_get (cr_calls (snd (deliverPending env k r))) =
      (js_get (cr_calls r))(k \<mapsto> c\<lparr>sc_pendingDelivery := None, sc_pendingExclude := None\<rparr>))"
proof (cases "js_get (cr_calls r) k")
  case None
  then show ?thesis by (simp add: deliverPending_def)
next
  case (Some c)
  note key = call_key [OF inv Some]
  show ?thesis
  proof (cases "sc_pendingDelivery c")
    case None
    then show ?thesis using Some by (simp add: deliverPending_def)
  next
    case pc: (Some pc)
    obtain y where y: "publishCall env (sc_session c) pc (sc_pendingExclude c) r =
        (y, r\<lparr>cr_published := cr_published r @ [(sc_session c, pc, sc_pendingExclude c)]\<rparr>)"
      using publishCall_eq by blast
    show ?thesis using Some pc y key by (cases y) (simp_all add: deliverPending_def setCall_get)
  qed
qed

lemma deliverPending_call:
  assumes inv: "cr_inv r" and x: "js_get (cr_calls (snd (deliverPending env k r))) k' = Some x"
  shows "\<exists>c p q. js_get (cr_calls r) k' = Some c \<and> x = c\<lparr>sc_pendingDelivery := p, sc_pendingExclude := q\<rparr>"
  using deliverPending_calls [OF inv, of env k]
proof (elim disjE exE conjE)
  assume "cr_calls (snd (deliverPending env k r)) = cr_calls r"
  with x have "js_get (cr_calls r) k' = Some x" by simp
  then show ?thesis using pending_self by blast
next
  fix c assume c: "js_get (cr_calls r) k = Some c" "js_get (cr_calls (snd (deliverPending env k r))) =
      (js_get (cr_calls r))(k \<mapsto> c\<lparr>sc_pendingDelivery := None, sc_pendingExclude := None\<rparr>)"
  show ?thesis
  proof (cases "k' = k")
    case True
    with c x have "x = c\<lparr>sc_pendingDelivery := None, sc_pendingExclude := None\<rparr>" by simp
    with c True show ?thesis by blast
  next
    case False
    with c x have "js_get (cr_calls r) k' = Some x" by simp
    then show ?thesis using pending_self by blast
  qed
qed

lemma finishAccept_moves:
  assumes inv: "cr_inv r" and st: "\<And>c. js_get (cr_calls r) k = Some c \<Longrightarrow> sc_state c = Accepted"
  shows "callMoves r (snd (finishAccept env k r))"
  unfolding finishAccept_def
proof (intro andThen_moves deliverPending_moves [OF inv])
  fix x r1 assume d: "deliverPending env k r = (Inr x, r1)"
  then have inv1: "cr_inv r1" using callMoves_inv [OF deliverPending_moves [OF inv, of env k]] inv by simp
  show "callMoves r1 (snd (case js_get (cr_calls r1) k of None \<Rightarrow> (Inr (), r1)
      | Some call \<Rightarrow> publishTransition env (call\<lparr>sc_state := Active, sc_startDate := Some (ce_now env div 1000)\<rparr>) None r1))"
  proof (cases "js_get (cr_calls r1) k")
    case (Some c)
    obtain c0 p q where "js_get (cr_calls r) k = Some c0" "c = c0\<lparr>sc_pendingDelivery := p, sc_pendingExclude := q\<rparr>"
      using deliverPending_call [OF inv, of env k k c] Some d by auto
    then have acc: "sc_state c = Accepted" using st by simp
    have "js_get (cr_calls r1) (callKey (sc_id c)) = Some c" using call_key [OF inv1 Some] Some by simp
    moreover have "handshake_ok (c\<lparr>sc_state := Active, sc_startDate := Some (ce_now env div 1000)\<rparr>)"
      using call_handshake [OF inv1 Some] acc by (simp add: handshake_ok_def answered_def)
    ultimately have "callMoves r1 (snd (publishTransition env
        (c\<lparr>sc_state := Active, sc_startDate := Some (ce_now env div 1000)\<rparr>) None r1))"
      using inv1 acc by (intro publishTransition_moves [of _ c]) (simp_all add: callStep_def sameCall_def)
    with Some show ?thesis by simp
  qed simp
qed

lemma acceptTask_moves:
  assumes "cr_inv r" shows "callMoves r (snd (acceptTask env k r))"
  unfolding acceptTask_def
proof (intro serialize_moves [OF assms])
  fix r1 assume inv: "cr_inv r1"
  have "callMoves r1 (snd (finishAccept env k r1))" if "js_get (cr_calls r1) k = Some c" "sc_state c = Accepted" for c
    using that by (intro finishAccept_moves [OF inv]) simp
  then show "callMoves r1 (snd (case js_get (cr_calls r1) k of None \<Rightarrow> (Inr (), r1)
      | Some call \<Rightarrow> if sc_state call \<noteq> Accepted then (Inr (), r1) else finishAccept env k r1))"
    by (auto split: option.splits)
qed

lemma applyMedia_eq:
  "applyMediaStartConfig c config = Inr c' \<Longrightarrow> sameCall c c' \<and> sc_state c' = sc_state c \<and> sc_connections c' \<noteq> None"
  by (auto simp: applyMediaStartConfig_def Let_def sameCall_def split: if_splits)

lemma attachMedia_eq:
  "attachMedia env c = Inr c' \<Longrightarrow> sameCall c c' \<and> sc_state c' = sc_state c \<and> sc_connections c' = sc_connections c"
  by (auto simp: attachMedia_def sameCall_def split: if_splits)

lemma sameCall_trans: "sameCall a b \<Longrightarrow> sameCall b c \<Longrightarrow> sameCall a c"
  by (simp add: sameCall_def)

lemma sameCall_updates [simp]:
  "sameCall c (c'\<lparr>sc_recipientProtocol := x\<rparr>) = sameCall c c'" "sameCall c (c'\<lparr>sc_negotiatedProtocol := y\<rparr>) = sameCall c c'"
  "sameCall (c\<lparr>sc_recipientProtocol := x\<rparr>) c' = sameCall c c'" "sameCall (c\<lparr>sc_negotiatedProtocol := y\<rparr>) c' = sameCall c c'"
  by (simp_all add: sameCall_def)

lemma completeCaller_same:
  assumes "completeCaller env c p = (res, c')"
  shows "sameCall c c' \<and> sc_state c' = sc_state c \<and>
    (\<forall>gA fp. res = Inr (gA, fp) \<longrightarrow> length gA = DH_PUBLIC_BYTES \<and> sc_connections c' \<noteq> None \<and>
       (\<exists>st. ce_reply env = Some st \<and> wr_gA st = Some gA \<and> wr_keyFingerprint st = Some fp))"
proof (cases "negotiateProtocol (sc_callerProtocol c) p")
  case (Inl e)
  then show ?thesis using assms by (auto simp: completeCaller_def Let_def)
next
  case (Inr ng)
  let ?c2 = "c\<lparr>sc_recipientProtocol := Some p, sc_negotiatedProtocol := ng\<rparr>"
  show ?thesis
  proof (cases "mediaConfigFor env")
    case (Inl e)
    then show ?thesis using assms Inr by (auto simp: completeCaller_def Let_def)
  next
    case cfg: (Inr config)
    show ?thesis
    proof (cases "applyMediaStartConfig ?c2 config")
      case (Inl e)
      then show ?thesis using assms Inr cfg by (auto simp: completeCaller_def Let_def)
    next
      case c3: (Inr c3)
      note s3 = applyMedia_eq [OF c3]
      show ?thesis
        using assms Inr cfg c3 s3
        by (auto simp: completeCaller_def Let_def requireWorker_def split: sum.splits option.splits if_splits bool.splits
            dest!: attachMedia_eq intro: sameCall_trans)
    qed
  qed
qed

lemma completeRecipient_same:
  assumes "completeRecipient env c fp = (res, c')"
  shows "sameCall c c' \<and> sc_state c' = sc_state c \<and>
    (\<forall>x. res = Inr x \<longrightarrow> x = fp \<and> sc_connections c' \<noteq> None \<and>
       (\<exists>st. ce_reply env = Some st \<and> wr_keyFingerprint st = Some fp))"
  using assms
  by (auto simp: completeRecipient_def requireWorker_def sameWireLong_def split: sum.splits option.splits if_splits
      dest!: attachMedia_eq applyMedia_eq intro: sameCall_trans)

end
