(* ===== verification/Voice_Calls_Lifecycle.thy ===== *)
theory Voice_Calls_Lifecycle
  imports Voice_Calls_Safety
begin

text \<open>
  The remaining operations of the call registry as moves of the abstract machine, the registries
  the operations reach, and the properties of the whole: the invariant, the life cycle of a call,
  the key exchange, retries and rate limits.
\<close>

section \<open>Accepting, confirming and ending a call\<close>

lemma abort_keep_moves:
  assumes "cr_inv r" and "js_get (cr_calls r) (callKey (sc_id c)) = Some c" and "sameCall c c'"
  shows "callMoves r (snd (Inl e :: voiceError + 'a, abortCall env c' ex r))"
  using abortCall_moves [OF assms(2,3)] by simp

lemma finishAcceptAfter_moves:
  assumes "cr_inv r" and "\<And>c. js_get (cr_calls r) k = Some c \<Longrightarrow> sc_state c = Accepted"
  shows "callMoves r (snd (finishAcceptAfterResponse env deferred k r))"
  using finishAccept_moves [OF assms] by (simp add: finishAcceptAfterResponse_def)

lemma publishTransition_call:
  assumes inv: "cr_inv r" and c: "js_get (cr_calls r) (callKey (sc_id c)) = Some c"
    and step: "callStep c c'" and hs: "handshake_ok c'"
    and x: "js_get (cr_calls (snd (publishTransition env c' ex r))) (callKey (sc_id c)) = Some x"
    and pc: "phoneCallOf c' = Inr pc"
  shows "\<exists>p q. x = c'\<lparr>sc_pendingDelivery := p, sc_pendingExclude := q\<rparr>"
proof -
  let ?c = "c'\<lparr>sc_pendingDelivery := Some pc, sc_pendingExclude := ex\<rparr>"
  have inv': "cr_inv (setCall ?c r)"
    using update_inv [OF inv c, of ?c] step hs by simp
  have key: "sc_id c' = sc_id c" using step by (simp add: callStep_def sameCall_def)
  have "js_get (cr_calls (snd (deliverPending env (callKey (sc_id c')) (setCall ?c r)))) (callKey (sc_id c)) = Some x"
    using x pc by (simp add: publishTransition_def)
  from deliverPending_call [OF inv' this] obtain d p q where
    d: "js_get (cr_calls (setCall ?c r)) (callKey (sc_id c)) = Some d"
       "x = d\<lparr>sc_pendingDelivery := p, sc_pendingExclude := q\<rparr>" by blast
  from d(1) key have "d = ?c" by (simp add: setCall_get)
  with d(2) show ?thesis by auto
qed

text \<open>What \<open>accept\<close> and \<open>confirm\<close> store when the exchange succeeded.\<close>

lemma accepted_step:
  assumes "sameCall c c1" and "sc_state c1 = sc_state c" and "sc_telegramRole c = Recipient"
    and "sc_state c = Requested \<or> sc_state c = Received"
    and "length gA = DH_PUBLIC_BYTES" and "length gB = DH_PUBLIC_BYTES" and "sc_connections c1 \<noteq> None"
  shows "callStep c (c1\<lparr>sc_gB := Some gB, sc_gA := Some gA, sc_keyFingerprint := Some fp, sc_state := Accepted\<rparr>)"
    and "handshake_ok (c1\<lparr>sc_gB := Some gB, sc_gA := Some gA, sc_keyFingerprint := Some fp, sc_state := Accepted\<rparr>)"
  using assms by (auto simp: callStep_def sameCall_def handshake_ok_def)

lemma confirmed_step:
  assumes "sameCall c c1" and "sc_state c1 = sc_state c" and "sc_telegramRole c = Caller"
    and "sc_state c = Requested" and "length gA = DH_PUBLIC_BYTES" and "sc_connections c1 \<noteq> None"
  shows "callStep c (c1\<lparr>sc_keyFingerprint := Some fp, sc_gA := Some gA, sc_state := Active, sc_startDate := d\<rparr>)"
    and "handshake_ok (c1\<lparr>sc_keyFingerprint := Some fp, sc_gA := Some gA, sc_state := Active, sc_startDate := d\<rparr>)"
  using assms by (auto simp: callStep_def sameCall_def handshake_ok_def)

lemma acceptFresh_moves:
  assumes inv: "cr_inv r" and c: "js_get (cr_calls r) (callKey (sc_id c)) = Some c"
    and role: "sc_telegramRole c = Recipient" and st: "sc_state c = Requested \<or> sc_state c = Received"
    and gB: "length gB = DH_PUBLIC_BYTES"
  shows "callMoves r (snd (case completeCaller env c protocol of
      (Inl e, c1) \<Rightarrow> (Inl e, abortCall env c1 exclude r)
    | (Inr (gA, fingerprint), c1) \<Rightarrow>
        let c' = c1\<lparr>sc_gB := Some gB, sc_gA := Some gA, sc_keyFingerprint := Some fingerprint, sc_state := Accepted\<rparr>
        in andThen (publishTransition env c' exclude r) (\<lambda>_ r2.
           andThen (finishAcceptAfterResponse env deferred (callKey (sc_id c)) r2) (\<lambda>_ r3. (Inr (pcWaiting c'), r3)))))"
proof -
  obtain res c1 where res: "completeCaller env c protocol = (res, c1)" by (cases "completeCaller env c protocol")
  note same = completeCaller_same [OF res]
  show ?thesis
  proof (cases res)
    case (Inl e)
    then show ?thesis using abortCall_moves [OF c] same res by simp
  next
    case (Inr x)
    obtain gA fp where x: "x = (gA, fp)" by (cases x)
    let ?c' = "c1\<lparr>sc_gB := Some gB, sc_gA := Some gA, sc_keyFingerprint := Some fp, sc_state := Accepted\<rparr>"
    from same Inr x have s: "sameCall c c1" "sc_state c1 = sc_state c" "length gA = DH_PUBLIC_BYTES"
      "sc_connections c1 \<noteq> None" by auto
    note step = accepted_step [OF s(1,2) role st s(3) gB s(4), of fp]
    have pc: "phoneCallOf ?c' = Inr (pcAccepted ?c')" by (simp add: phoneCallOf_def)
    have m1: "callMoves r (snd (publishTransition env ?c' exclude r))"
      by (rule publishTransition_moves [OF inv c step])
    have "callMoves r (snd (andThen (publishTransition env ?c' exclude r) (\<lambda>_ r2.
           andThen (finishAcceptAfterResponse env deferred (callKey (sc_id c)) r2) (\<lambda>_ r3. (Inr (pcWaiting ?c'), r3)))))"
    proof (intro andThen_moves m1 finishAcceptAfter_moves)
      fix u r2 assume p: "publishTransition env ?c' exclude r = (Inr u, r2)"
      show "cr_inv r2" using callMoves_inv [OF m1 inv] p by simp
      fix x assume "js_get (cr_calls r2) (callKey (sc_id c)) = Some x"
      then show "sc_state x = Accepted" using publishTransition_call [OF inv c step _ pc, of env exclude x] p by auto
    qed simp
    then show ?thesis using res Inr x by (simp add: Let_def)
  qed
qed

lemma callAccept_moves:
  assumes "cr_inv r"
  shows "callMoves r (snd (callAccept env s peer gB protocol ex deferred r))"
proof (cases "audioProtocolOk protocol \<and> length gB = DH_PUBLIC_BYTES")
  case ok: True
  have "callMoves r1 (snd (let key = callKey (sc_id c) in
       if sc_telegramRole c \<noteq> Recipient then (Inl (VoiceCallError ''CALL_ROLE_INVALID''), r1)
       else if sc_state c = Active
       then andThen (deliverPending env key r1) (\<lambda>_ r2. (Inr (pcWaiting c), r2))
       else if sc_state c = Accepted
       then andThen (finishAcceptAfterResponse env deferred key r1) (\<lambda>_ r2. (Inr (pcWaiting c), r2))
       else if sc_state c \<noteq> Requested \<and> sc_state c \<noteq> Received
       then (Inl (VoiceCallError ''CALL_STATE_INVALID''), r1)
       else case completeCaller env c protocol of
              (Inl e, c1) \<Rightarrow> (Inl e, abortCall env c1 ex r1)
            | (Inr (gA, fingerprint), c1) \<Rightarrow>
                let c' = c1\<lparr>sc_gB := Some gB, sc_gA := Some gA, sc_keyFingerprint := Some fingerprint,
                          sc_state := Accepted\<rparr>
                in andThen (publishTransition env c' ex r1) (\<lambda>_ r2.
                   andThen (finishAcceptAfterResponse env deferred key r2) (\<lambda>_ r3. (Inr (pcWaiting c'), r3)))))"
    if inv: "cr_inv r1" and c: "js_get (cr_calls r1) (callKey (sc_id c)) = Some c" for r1 c
  proof -
    consider "sc_telegramRole c \<noteq> Recipient" | "sc_telegramRole c = Recipient" "sc_state c = Active"
      | "sc_telegramRole c = Recipient" "sc_state c = Accepted"
      | "sc_telegramRole c = Recipient" "sc_state c = Requested \<or> sc_state c = Received"
      | "sc_telegramRole c = Recipient" "sc_state c = Initializing \<or> sc_state c = Discarded"
      by (cases "sc_state c") auto
    then show ?thesis
    proof cases
      case 2
      then show ?thesis using deliverPending_moves [OF inv] by (auto intro!: andThen_moves)
    next
      case 3
      have "callMoves r1 (snd (andThen (finishAcceptAfterResponse env deferred (callKey (sc_id c)) r1)
          (\<lambda>_ r2. (Inr (pcWaiting c), r2))))"
        using c 3 by (intro andThen_moves finishAcceptAfter_moves [OF inv]) simp_all
      with 3 show ?thesis by simp
    next
      case 4
      from acceptFresh_moves [OF inv c 4, of gB] ok 4 show ?thesis by (elim disjE) (simp_all add: Let_def)
    qed auto
  qed
  then show ?thesis using ok unfolding callAccept_def
    by (simp del: if_split add: Let_def) (intro serialize_moves [OF assms] onCall_moves; simp add: Let_def)
qed (auto simp: callAccept_def)

lemma confirmFresh_moves:
  assumes inv: "cr_inv r" and c: "js_get (cr_calls r) (callKey (sc_id c)) = Some c"
    and role: "sc_telegramRole c = Caller" and st: "sc_state c = Requested" and gA: "length gA = DH_PUBLIC_BYTES"
  shows "callMoves r (snd (case completeRecipient env (c\<lparr>sc_negotiatedProtocol := ng\<rparr>) fingerprint of
      (Inl e, c1) \<Rightarrow> (Inl e, abortCall env c1 exclude r)
    | (Inr fp, c1) \<Rightarrow>
        let c' = c1\<lparr>sc_keyFingerprint := Some fp, sc_gA := Some gA, sc_state := Active,
                  sc_startDate := Some (ce_now env div 1000)\<rparr>
        in andThen (publishTransition env c' exclude r) (\<lambda>_. wrapCall (callKey (sc_id c)))))"
proof -
  obtain res c1 where res: "completeRecipient env (c\<lparr>sc_negotiatedProtocol := ng\<rparr>) fingerprint = (res, c1)"
    by (cases "completeRecipient env (c\<lparr>sc_negotiatedProtocol := ng\<rparr>) fingerprint")
  note same = completeRecipient_same [OF res]
  show ?thesis
  proof (cases res)
    case (Inl e)
    then show ?thesis using abortCall_moves [OF c] same res by simp
  next
    case (Inr fp)
    with same have s: "sameCall c c1" "sc_state c1 = sc_state c" "sc_connections c1 \<noteq> None" by auto
    note step = confirmed_step [OF s(1,2) role st gA s(3), where fp = fp and d = "Some (ce_now env div 1000)"]
    show ?thesis using publishTransition_moves [OF inv c step] res Inr
      by (simp add: Let_def) (intro andThen_moves wrapCall_moves)
  qed
qed

lemma callConfirm_moves:
  assumes "cr_inv r"
  shows "callMoves r (snd (callConfirm env s peer gA fingerprint protocol ex r))"
proof (cases "audioProtocolOk protocol \<and> length gA = DH_PUBLIC_BYTES")
  case ok: True
  have "callMoves r1 (snd (let key = callKey (sc_id c) in
       if sc_telegramRole c \<noteq> Caller then (Inl (VoiceCallError ''CALL_ROLE_INVALID''), r1)
       else if sc_state c = Active then andThen (deliverPending env key r1) (\<lambda>_. wrapCall key)
       else if sc_state c \<noteq> Requested then (Inl (VoiceCallError ''CALL_STATE_INVALID''), r1)
       else case negotiateProtocol (sc_negotiatedProtocol c) protocol of
         Inl e \<Rightarrow> (Inl e, r1)
       | Inr negotiated \<Rightarrow>
           (case completeRecipient env (c\<lparr>sc_negotiatedProtocol := negotiated\<rparr>) fingerprint of
              (Inl e, c1) \<Rightarrow> (Inl e, abortCall env c1 ex r1)
            | (Inr fp, c1) \<Rightarrow>
                let c' = c1\<lparr>sc_keyFingerprint := Some fp, sc_gA := Some gA, sc_state := Active,
                          sc_startDate := Some (ce_now env div 1000)\<rparr>
                in andThen (publishTransition env c' ex r1) (\<lambda>_. wrapCall key))))"
    if inv: "cr_inv r1" and c: "js_get (cr_calls r1) (callKey (sc_id c)) = Some c" for r1 c
  proof -
    consider "sc_telegramRole c \<noteq> Caller" | "sc_telegramRole c = Caller" "sc_state c = Active"
      | "sc_telegramRole c = Caller" "sc_state c = Requested"
      | "sc_telegramRole c = Caller" "sc_state c \<noteq> Requested" "sc_state c \<noteq> Active" by blast
    then show ?thesis
    proof cases
      case 2
      have "callMoves r1 (snd (andThen (deliverPending env (callKey (sc_id c)) r1) (\<lambda>_. wrapCall (callKey (sc_id c)))))"
        by (intro andThen_moves deliverPending_moves [OF inv] wrapCall_moves)
      with 2 show ?thesis by (simp add: Let_def)
    next
      case 3
      show ?thesis
      proof (cases "negotiateProtocol (sc_negotiatedProtocol c) protocol")
        case (Inr ng)
        with confirmFresh_moves [OF inv c 3, where gA = gA and env = env and ng = ng and fingerprint = fingerprint and exclude = ex] 3 ok show ?thesis
          by (simp add: Let_def)
      qed (use 3 in simp)
    qed simp_all
  qed
  then show ?thesis using ok unfolding callConfirm_def
    by (simp del: if_split add: Let_def) (intro serialize_moves [OF assms] onCall_moves; simp add: Let_def)
qed (auto simp: callConfirm_def)

lemma findOrTombstone_moves: "callMoves r (snd (findOrTombstone env s peer r))"
  by (auto simp: findOrTombstone_def Let_def intro: callMoves_step callMove.prune split: option.splits)

lemma findOrTombstone_Some:
  assumes "cr_inv r" and "findOrTombstone env s peer r = (Inr found, r1)"
  shows "cr_inv r1"
    and "found = Inl c \<Longrightarrow> js_get (cr_calls r1) (callKey (sc_id c)) = Some c \<and> sc_session c = s"
    and "found = Inr t \<Longrightarrow> js_get (cr_tombstones r1) (callKey (tb_id t)) = Some t \<and> tb_sessionId t = s"
proof -
  have r1: "r1 = pruneTombstones (ce_now env) r"
    using assms(2) by (auto simp: findOrTombstone_def Let_def split: option.splits if_splits)
  show inv: "cr_inv r1" using r1 prune_inv [OF assms(1)] by simp
  show "js_get (cr_calls r1) (callKey (sc_id c)) = Some c \<and> sc_session c = s" if "found = Inl c"
    using assms(2) that call_key [OF inv] r1 by (fastforce simp: findOrTombstone_def Let_def split: option.splits if_splits)
  show "js_get (cr_tombstones r1) (callKey (tb_id t)) = Some t \<and> tb_sessionId t = s" if "found = Inr t"
  proof -
    have "js_get (cr_tombstones r1) (callKey (pe_id peer)) = Some t" "tb_sessionId t = s"
      using assms(2) that r1 by (auto simp: findOrTombstone_def Let_def split: option.splits if_splits)
    with inv show ?thesis by (auto simp: cr_inv_def tombs_keyed_def)
  qed
qed

lemma sameCall_discard [simp]:
  "sameCall c ((teardownCall c)\<lparr>sc_state := st, sc_discarded := a, sc_duration := b\<rparr>)"
  by (simp add: sameCall_def teardownCall_def)

lemma callDiscard_moves:
  assumes inv: "cr_inv r"
  shows "callMoves r (snd (callDiscard env s peer reason duration ex r))"
proof -
  have "callMoves r1 (snd (andThen (findOrTombstone env s peer r1) (\<lambda>found r2.
       case found of
         Inr t \<Rightarrow> andThen (deliverTombstone env s t ex r2) (\<lambda>_ r3. (Inr (tb_phoneCall t), r3))
       | Inl call \<Rightarrow>
           let ringingIncoming = (sc_telegramRole call = Recipient \<and> ringing (sc_state call)) in
           (case controlPlatform env call (if ringingIncoming then ''reject'' else ''hangup'') of
              Inl e \<Rightarrow> (Inl e, r2)
            | Inr _ \<Rightarrow>
                publishDiscarded env
                  ((teardownCall call)\<lparr>sc_state := Discarded,
                     sc_discarded := Some (if ringingIncoming then ReasonBusy else reason),
                     sc_duration := Some (if ringingIncoming then 0 else duration)\<rparr>) ex r2))))"
    if inv1: "cr_inv r1" for r1
  proof (intro andThen_moves findOrTombstone_moves)
    fix found r2 assume f: "findOrTombstone env s peer r1 = (Inr found, r2)"
    note found = findOrTombstone_Some [OF inv1 f]
    show "callMoves r2 (snd (case found of
         Inr t \<Rightarrow> andThen (deliverTombstone env s t ex r2) (\<lambda>_ r3. (Inr (tb_phoneCall t), r3))
       | Inl call \<Rightarrow>
           let ringingIncoming = (sc_telegramRole call = Recipient \<and> ringing (sc_state call)) in
           (case controlPlatform env call (if ringingIncoming then ''reject'' else ''hangup'') of
              Inl e \<Rightarrow> (Inl e, r2)
            | Inr _ \<Rightarrow>
                publishDiscarded env
                  ((teardownCall call)\<lparr>sc_state := Discarded,
                     sc_discarded := Some (if ringingIncoming then ReasonBusy else reason),
                     sc_duration := Some (if ringingIncoming then 0 else duration)\<rparr>) ex r2)))"
    proof (cases found)
      case (Inl c)
      then have "callMoves r2 (snd (publishDiscarded env
          ((teardownCall c)\<lparr>sc_state := Discarded, sc_discarded := a, sc_duration := b\<rparr>) ex r2))" for a b
        using found(2) by (intro publishDiscarded_moves [of _ c]) simp_all
      with Inl show ?thesis by (simp add: Let_def split: sum.splits)
    next
      case (Inr t)
      then show ?thesis using found(3) by (auto intro!: andThen_moves deliverTombstone_moves)
    qed
  qed
  then show ?thesis unfolding callDiscard_def by (auto intro!: serialize_moves [OF inv])
qed

lemma platformEnded_moves:
  assumes inv: "cr_inv r"
  shows "callMoves r (snd (platformEnded env s correlationId r))"
proof -
  let ?body = "\<lambda>r. let call = (case js_get (cr_incomingCalls r) (ce_hmac env s correlationId) of
               None \<Rightarrow> None | Some key \<Rightarrow> js_get (cr_calls r) key)
       in case call of
            None \<Rightarrow> (Inr (), r)
          | Some c \<Rightarrow>
              if sc_state c = Discarded then (Inr (), r)
              else
                let now = ce_now env div 1000;
                    duration = (if sc_state c = Active
                      then min MAX_CALL_DURATION_SECONDS (max 0 (now - getOr now (sc_startDate c))) else 0)
                in andThen (publishDiscarded env
                     ((teardownCall c)\<lparr>sc_state := Discarded,
                        sc_discarded := Some (if ringing (sc_state c) then ReasonMissed else ReasonHangup),
                        sc_duration := Some duration\<rparr>) None r) (\<lambda>_ r1. (Inr (), r1))"
  have "callMoves r1 (snd (?body r1))" if inv1: "cr_inv r1" for r1
  proof (cases "case js_get (cr_incomingCalls r1) (ce_hmac env s correlationId) of
               None \<Rightarrow> None | Some key \<Rightarrow> js_get (cr_calls r1) key")
    case (Some c)
    then obtain k where "js_get (cr_calls r1) k = Some c" by (auto split: option.splits)
    with call_key [OF inv1 this] have c: "js_get (cr_calls r1) (callKey (sc_id c)) = Some c" by simp
    have "callMoves r1 (snd (andThen (publishDiscarded env
        ((teardownCall c)\<lparr>sc_state := Discarded, sc_discarded := a, sc_duration := b\<rparr>) None r1) (\<lambda>_ r2. (Inr (), r2))))" for a b
      by (intro andThen_moves publishDiscarded_moves [OF c]) simp_all
    with Some show ?thesis by (simp add: Let_def)
  qed simp
  then show ?thesis unfolding platformEnded_def by (auto intro!: serialize_moves [OF inv])
qed


section \<open>Events, signalling, clocks and clients that come back\<close>

lemma handleWorkerEvent_moves:
  assumes inv: "cr_inv r"
  shows "callMoves r (snd (handleWorkerEvent env k event signaling r))"
proof -
  have "callMoves r1 (abortCall env c ex r1)" if "cr_inv r1" "js_get (cr_calls r1) k = Some c" for r1 c ex
    using that call_key [OF that] by (intro abortCall_moves [of _ c]) simp_all
  then show ?thesis unfolding handleWorkerEvent_def
    by (auto intro!: serialize_moves [OF inv] split: option.splits workerEvent.splits delivery.splits)
qed

lemma terminalMedia_moves:
  assumes inv: "cr_inv r"
  shows "callMoves r (snd (terminalMedia env k r))"
proof -
  have "callMoves r1 (abortCall env c ex r1)" if "cr_inv r1" "js_get (cr_calls r1) k = Some c" for r1 c ex
    using that call_key [OF that] by (intro abortCall_moves [of _ c]) simp_all
  then show ?thesis unfolding terminalMedia_def
    by (auto intro!: serialize_moves [OF inv] split: option.splits)
qed

lemma sendSignalingData_moves:
  assumes inv: "cr_inv r"
  shows "callMoves r (snd (sendSignalingData env s peer payload r))"
proof -
  let ?f = "\<lambda>call r1.
       if sc_state call \<noteq> Accepted \<and> sc_state call \<noteq> Active then (Inl (VoiceCallError ''CALL_STATE_INVALID''), r1)
       else
         let key = callKey (sc_id call); recent = recentTimes (ce_now env) (js_get (cr_signalTimes r1) key)
         in if length recent \<ge> MAX_SIGNALING_PER_MINUTE then (Inl (VoiceCallError ''CALL_SIGNALING_FLOOD''), r1)
            else let r2 = r1\<lparr>cr_signalTimes := js_set key (recent @ [ce_now env]) (cr_signalTimes r1)\<rparr>
                 in if ce_send env then (Inr (), r2) else (Inl ExternalError, abortCall env call None r2)"
  have "callMoves r1 (snd (?f c r1))" if inv1: "cr_inv r1" and c: "js_get (cr_calls r1) (callKey (sc_id c)) = Some c" for c r1
  proof -
    define ts where "ts = recentTimes (ce_now env) (js_get (cr_signalTimes r1) (callKey (sc_id c)))"
    let ?r = "r1\<lparr>cr_signalTimes := js_set (callKey (sc_id c)) (ts @ [ce_now env]) (cr_signalTimes r1)\<rparr>"
    show ?thesis
    proof (cases "answered (sc_state c) \<and> length ts < MAX_SIGNALING_PER_MINUTE")
      case True
      have "callMove r1 ?r" using c True by (intro callMove.signal [of _ _ c]) simp_all
      moreover have "callMoves ?r (abortCall env c None ?r)" using c by (intro abortCall_moves [of _ c]) simp_all
      ultimately show ?thesis using True
        by (auto simp: Let_def ts_def answered_def intro: callMoves_step converse_rtranclp_into_rtranclp)
    qed (auto simp: Let_def ts_def answered_def)
  qed
  then show ?thesis unfolding sendSignalingData_def
    by (simp del: if_split) (intro conjI impI serialize_moves [OF inv] onCall_moves; simp)
qed

lemma saveCallDebug_moves:
  assumes inv: "cr_inv r"
  shows "callMoves r (snd (saveCallDebug env s peer byteSize parsed r))"
proof -
  let ?f = "\<lambda>keys call r1.
       if sc_state call \<noteq> Accepted \<and> sc_state call \<noteq> Active then (Inl (VoiceCallError ''CALL_STATE_INVALID''), r1)
       else
         let key = callKey (sc_id call); recent = recentTimes (ce_now env) (js_get (cr_debugTimes r1) key)
         in if length recent \<ge> MAX_DEBUG_PER_MINUTE then (Inl (VoiceCallError ''CALL_DEBUG_FLOOD''), r1)
            else let r2 = r1\<lparr>cr_debugTimes := js_set key (recent @ [ce_now env]) (cr_debugTimes r1)\<rparr>
                 in if ce_send env then (Inr (byteSize, debugKeys keys), r2) else (Inl ExternalError, r2)"
  have "callMoves r1 (snd (?f keys c r1))"
    if c: "js_get (cr_calls r1) (callKey (sc_id c)) = Some c" for keys c r1
  proof -
    define ts where "ts = recentTimes (ce_now env) (js_get (cr_debugTimes r1) (callKey (sc_id c)))"
    let ?r = "r1\<lparr>cr_debugTimes := js_set (callKey (sc_id c)) (ts @ [ce_now env]) (cr_debugTimes r1)\<rparr>"
    have "callMoves r1 ?r" if "answered (sc_state c)" "length ts < MAX_DEBUG_PER_MINUTE"
      using c that by (intro callMoves_step callMove.debug [of _ _ c]) simp_all
    then show ?thesis by (auto simp: Let_def ts_def answered_def)
  qed
  then have "callMoves r (snd (serialize env (\<lambda>r. andThen (findCall env s peer r) (?f keys)) r))" for keys
    by (intro serialize_moves [OF inv] onCall_moves)
  then show ?thesis unfolding saveCallDebug_def by (simp split: option.split)
qed

lemma expireCall_moves:
  assumes inv: "cr_inv r"
  shows "callMoves r (snd (expireCall env now k r))"
proof (cases "js_get (cr_calls r) k")
  case (Some c)
  let ?m = "if sc_state c \<noteq> Discarded \<and> sc_pendingDelivery c \<noteq> None \<and> (sc_state c = Active \<or> now < sc_deadline c)
      then serialize env (deliverPending env k) r else (Inr (), r)"
  have m: "callMoves r (snd ?m)" using serialize_moves [OF inv deliverPending_moves] by simp
  have "callMoves r (snd (andThen ?m
           (\<lambda>_ r1. if sc_state c = Discarded \<or> sc_state c = Active \<or> now < sc_deadline c then (Inr (), r1)
             else andThen (callDiscard env (sc_session c)
                    \<lparr>pe_id = sc_id c, pe_accessHash = sc_accessHash c\<rparr> ReasonMissed 0 None r1)
                  (\<lambda>_ r2. (Inr (), r2)))))"
  proof (intro andThen_moves m)
    fix u r1 assume "?m = (Inr u, r1)"
    with callMoves_inv [OF m inv] have "cr_inv r1" by simp
    then show "callMoves r1 (snd (if sc_state c = Discarded \<or> sc_state c = Active \<or> now < sc_deadline c then (Inr (), r1)
             else andThen (callDiscard env (sc_session c)
                    \<lparr>pe_id = sc_id c, pe_accessHash = sc_accessHash c\<rparr> ReasonMissed 0 None r1)
                  (\<lambda>_ r2. (Inr (), r2))))"
      by (auto intro!: andThen_moves callDiscard_moves)
  qed
  with Some show ?thesis by (simp add: expireCall_def)
qed (simp add: expireCall_def)

lemma expireLoop_moves: "cr_inv r \<Longrightarrow> callMoves r (snd (expireLoop envs n now keys r))"
proof (induction keys arbitrary: n r)
  case (Cons k keys)
  note m = expireCall_moves [OF Cons.prems, of "envs n" now k]
  show ?case unfolding expireLoop.simps
  proof (intro andThen_moves m)
    fix u r1 assume "expireCall (envs n) now k r = (Inr u, r1)"
    with callMoves_inv [OF m Cons.prems] have "cr_inv r1" by simp
    then show "callMoves r1 (snd (expireLoop envs (Suc n) now keys r1))" by (rule Cons.IH)
  qed
qed simp

lemma callExpire_moves:
  assumes "cr_inv r" shows "callMoves r (snd (callExpire envs r))"
proof -
  have "callMove r (pruneTombstones (ce_now (envs 0)) r)" by (rule callMove.prune)
  with expireLoop_moves [OF prune_inv [OF assms]] show ?thesis
    by (auto simp: callExpire_def Let_def intro: converse_rtranclp_into_rtranclp)
qed

lemma callSnapshot_moves: "callMoves r (snd (callSnapshot env s r))"
proof -
  have "snd (callSnapshot env s r) = pruneTombstones (ce_now env) r"
    by (auto simp: callSnapshot_def Let_def split: option.splits sum.splits)
  then show ?thesis by (simp add: callMoves_step callMove.prune)
qed

lemma pendingTombstone_Some:
  assumes "cr_inv r" and "pendingTombstone s r = Some t"
  shows "js_get (cr_tombstones r) (callKey (tb_id t)) = Some t" and "tb_sessionId t = s" and "tb_pendingDelivery t"
proof -
  have t: "t \<in> set (map snd (cr_tombstones r))" "tb_sessionId t = s \<and> tb_pendingDelivery t"
    using assms(2) unfolding pendingTombstone_def find_Some_iff by (auto intro: nth_mem)
  then obtain k where "(k, t) \<in> set (cr_tombstones r)" by auto
  moreover have "js_inv (cr_tombstones r)" using assms(1) by (simp add: cr_inv_def maps_ok_def)
  ultimately have "js_get (cr_tombstones r) k = Some t" by (simp add: js_inv_def)
  then show "js_get (cr_tombstones r) (callKey (tb_id t)) = Some t"
    using assms(1) by (auto simp: cr_inv_def tombs_keyed_def)
  show "tb_sessionId t = s" "tb_pendingDelivery t" using t(2) by auto
qed

lemma callReplay_moves:
  assumes inv: "cr_inv r"
  shows "callMoves r (snd (callReplay env s d r))"
proof -
  have "callMoves r1 (r1\<lparr>cr_tombstones := js_set (callKey (tb_id t)) (t\<lparr>tb_pendingDelivery := False\<rparr>) (cr_tombstones r1)\<rparr>)"
    if "cr_inv r1" "pendingTombstone s r1 = Some t" for r1 t
    using pendingTombstone_Some(1) [OF that] by (intro callMoves_step callMove.delivered)
  moreover have "callMoves r1 (setCall (c\<lparr>sc_pendingDelivery := None, sc_pendingExclude := None\<rparr>) r1)"
    if "cr_inv r1" "sessionCall s r1 = Some c" for r1 c
    using sessionCall_Some(1) [OF that] call_handshake [OF that(1)] that(1)
    by (intro update_moves [of _ c]) auto
  ultimately show ?thesis unfolding callReplay_def
    by (intro serialize_moves [OF inv]) (simp add: Let_def split: option.splits sum.splits)
qed


section \<open>Reachable registries\<close>

text \<open>One operation of the registry, with any arguments and any answers of the outside. The keyed
  digest of a correlation is never the empty string (it is 64 hexadecimal digits).\<close>

inductive callOp :: "callRegistry \<Rightarrow> callRegistry \<Rightarrow> bool" where
  "callOp r (snd (callRequest env input r))"
| "ce_hmac env (ic_session i) (ic_correlationId i) \<noteq> [] \<Longrightarrow> callOp r (snd (receiveIncoming env i r))"
| "callOp r (snd (callReceived env s peer ex r))"
| "callOp r (snd (callAccept env s peer gB protocol ex deferred r))"
| "callOp r (snd (acceptTask env key r))"
| "callOp r (snd (callConfirm env s peer gA fingerprint protocol ex r))"
| "callOp r (snd (callDiscard env s peer reason duration ex r))"
| "callOp r (snd (platformEnded env s correlationId r))"
| "callOp r (snd (handleWorkerEvent env key event signaling r))"
| "callOp r (snd (sendSignalingData env s peer payload r))"
| "callOp r (snd (saveCallDebug env s peer byteSize parsed r))"
| "callOp r (snd (callExpire envs r))"
| "callOp r (snd (callSnapshot env s r))"
| "callOp r (snd (callReplay env s d r))"
| "callOp r (snd (terminalMedia env key r))"

inductive reachable :: "callRegistry \<Rightarrow> bool" where
  start: "reachable newCallRegistry"
| op: "reachable r \<Longrightarrow> callOp r r' \<Longrightarrow> reachable r'"

lemma callOp_moves: "callOp r r' \<Longrightarrow> cr_inv r \<Longrightarrow> callMoves r r'"
  by (induction rule: callOp.induct)
    (simp_all add: callRequest_moves receiveIncoming_moves callReceived_moves callAccept_moves acceptTask_moves
      callConfirm_moves callDiscard_moves platformEnded_moves handleWorkerEvent_moves sendSignalingData_moves
      saveCallDebug_moves callExpire_moves callSnapshot_moves callReplay_moves terminalMedia_moves)

lemma reachable_inv: "reachable r \<Longrightarrow> cr_inv r"
  by (induction rule: reachable.induct) (auto intro: new_registry_inv callMoves_inv callOp_moves)

end
