(* ===== verification/Voice_Calls_Claims.thy ===== *)
theory Voice_Calls_Claims
  imports Voice_Calls_Lifecycle
begin

text \<open>
  What the call registry promises over its reachable states: one live call per session within the
  limits, the life cycle of a call, the verified key exchange, retries that find the same call, and
  the expiry of calls nobody answered.
\<close>

section \<open>A retired call leaves its tombstone\<close>

lemma dropTombstone_keys: "js_keys (cr_tombstones (dropTombstone k r)) = filter (\<lambda>x. x \<noteq> k) (js_keys (cr_tombstones r))"
proof (cases "js_get (cr_tombstones r) k")
  case None
  then have "k \<notin> set (js_keys (cr_tombstones r))" by (simp add: map_of_eq_None_iff)
  then have "filter (\<lambda>x. x \<noteq> k) (js_keys (cr_tombstones r)) = js_keys (cr_tombstones r)"
    by (intro filter_True) auto
  with None show ?thesis by (simp add: dropTombstone_def)
next
  case (Some t)
  then show ?thesis by (simp add: dropTombstone_def js_keys_delete)
qed

text \<open>\<open>tombLast k t r\<close>: the tombstone \<open>t\<close> is the newest one.\<close>

definition tombLast :: "string \<Rightarrow> tombstone \<Rightarrow> callRegistry \<Rightarrow> bool" where
  "tombLast k t r \<longleftrightarrow> js_get (cr_tombstones r) k = Some t \<and> (\<exists>ks. js_keys (cr_tombstones r) = ks @ [k])"

lemma dropTombstone_last: "tombLast k t r \<Longrightarrow> k' \<noteq> k \<Longrightarrow> tombLast k t (dropTombstone k' r)"
  by (auto simp: tombLast_def dropTombstone_get dropTombstone_keys)

lemma foldl_drop_last:
  assumes "tombLast k t r" and "\<And>t'. (k, t') \<in> set ts \<Longrightarrow> now < tb_expiresAt t'"
  shows "tombLast k t (foldl (\<lambda>r (key, t). if tb_expiresAt t \<le> now then dropTombstone key r else r) r ts)"
  using assms
proof (induction ts arbitrary: r)
  case (Cons e ts)
  obtain k' t' where e: "e = (k', t')" by (cases e)
  have "tombLast k t (if tb_expiresAt t' \<le> now then dropTombstone k' r else r)"
  proof (cases "k' = k")
    case True
    then have "now < tb_expiresAt t'" using Cons.prems(2) e by simp
    with Cons.prems(1) show ?thesis by simp
  qed (use Cons.prems(1) in \<open>simp add: dropTombstone_last\<close>)
  with Cons.IH Cons.prems(2) e show ?case by simp
qed simp

lemma prune_last:
  assumes "js_inv (cr_tombstones r)" and "tombLast k t r" and "now < tb_expiresAt t"
  shows "tombLast k t (pruneTombstones now r)"
proof -
  have "t' = t" if "(k, t') \<in> set (cr_tombstones r)" for t'
    using that assms(1,2) by (auto simp: js_inv_def tombLast_def)
  then have "tombLast k t (foldl (\<lambda>r (key, t). if tb_expiresAt t \<le> now then dropTombstone key r else r) r (cr_tombstones r))"
    using foldl_drop_last [OF assms(2), of "cr_tombstones r" now] assms(3) by blast
  then show ?thesis by (simp add: pruneTombstones_def Let_def tombLast_def)
qed

lemma evict_last:
  "js_inv (cr_tombstones r) \<Longrightarrow> tombLast k t r \<Longrightarrow> tombLast k t (evictTombstones fuel r)"
proof (induction fuel arbitrary: r)
  case (Suc fuel)
  show ?case
  proof (cases "length (cr_tombstones r) > MAX_TOMBSTONES")
    case True
    obtain ks where ks: "js_keys (cr_tombstones r) = ks @ [k]" using Suc.prems(2) by (auto simp: tombLast_def)
    obtain k' t' m where m: "cr_tombstones r = (k', t') # m" using True by (cases "cr_tombstones r") auto
    have "ks \<noteq> []" using True arg_cong [OF ks, of length] by (auto simp: MAX_TOMBSTONES_def)
    then have "k' \<in> set ks" using ks m by (cases ks) auto
    then have "k' \<noteq> k" using Suc.prems(1) ks by (auto simp: js_inv_def)
    moreover have "js_inv (cr_tombstones (dropTombstone k' r))"
      using Suc.prems(1) by (simp add: js_inv_def dropTombstone_keys)
    ultimately show ?thesis using Suc.IH [OF _ dropTombstone_last [OF Suc.prems(2)], of k'] True m by simp
  qed (use Suc.prems in simp)
qed simp

lemma foldl_drop_fields:
  "cr_calls (foldl (\<lambda>r (key, t). if tb_expiresAt t \<le> now then dropTombstone key r else r) r ts) = cr_calls r \<and>
   cr_sessionCalls (foldl (\<lambda>r (key, t). if tb_expiresAt t \<le> now then dropTombstone key r else r) r ts) = cr_sessionCalls r \<and>
   (js_inv (cr_tombstones r) \<longrightarrow>
     js_inv (cr_tombstones (foldl (\<lambda>r (key, t). if tb_expiresAt t \<le> now then dropTombstone key r else r) r ts)))"
proof (induction ts arbitrary: r)
  case (Cons e ts)
  obtain k t where e: "e = (k, t)" by (cases e)
  let ?r = "if tb_expiresAt t \<le> now then dropTombstone k r else r"
  have "js_inv (cr_tombstones r) \<Longrightarrow> js_inv (cr_tombstones ?r)" by (simp add: js_inv_def dropTombstone_keys)
  with Cons [of ?r] e show ?case by auto
qed simp

lemma prune_fields [simp]:
  "cr_calls (pruneTombstones now r) = cr_calls r"
  "cr_sessionCalls (pruneTombstones now r) = cr_sessionCalls r"
  "js_inv (cr_tombstones r) \<Longrightarrow> js_inv (cr_tombstones (pruneTombstones now r))"
  using foldl_drop_fields [of now r "cr_tombstones r"] by (simp_all add: pruneTombstones_def Let_def)

lemma evict_calls: "cr_calls (evictTombstones fuel r) = cr_calls r \<and> cr_sessionCalls (evictTombstones fuel r) = cr_sessionCalls r"
  by (induction fuel arbitrary: r) simp_all

lemma retire_calls:
  "cr_calls (retireCall now c pc pending r) = cr_calls (forgetCall c r)"
  "cr_sessionCalls (retireCall now c pc pending r) = cr_sessionCalls (forgetCall c r)"
  by (simp_all add: retireCall_def Let_def evict_calls)

lemma retire_tombstone:
  assumes inv: "cr_inv r" and c: "js_get (cr_calls r) (callKey (sc_id c)) = Some c" and same: "sameCall c c'"
  shows "js_get (cr_tombstones (retireCall now c' pc pending r)) (callKey (sc_id c)) = Some (makeTombstone now c' pc pending)"
    and "js_get (cr_calls (retireCall now c' pc pending r)) = (js_get (cr_calls r))(callKey (sc_id c) := None)"
proof -
  let ?k = "callKey (sc_id c)" and ?t = "makeTombstone now c' pc pending"
  have key: "sc_id c' = sc_id c" using same by (simp add: sameCall_def)
  have ok: "calls_ok r" "tombs_ok r" using inv by (simp_all add: cr_inv_split)
  have noT: "js_get (cr_tombstones r) ?k = None"
    using ok(2) c by (cases "js_get (cr_tombstones r) ?k") (auto simp: tombs_ok_def tombs_keyed_def)
  define r1 where "r1 = forgetCall c' r"
  define r2 where "r2 = r1\<lparr>cr_signalTimes := js_delete ?k (cr_signalTimes r1),
       cr_debugTimes := js_delete ?k (cr_debugTimes r1),
       cr_tombstones := js_set ?k ?t (cr_tombstones r1),
       cr_incomingTombstones := (case tb_incomingDigest ?t of
         Some d \<Rightarrow> if d = [] then cr_incomingTombstones r1 else js_set d ?k (cr_incomingTombstones r1)
       | None \<Rightarrow> cr_incomingTombstones r1)\<rparr>"
  define r3 where "r3 = pruneTombstones now r2"
  have eq: "retireCall now c' pc pending r = evictTombstones (length (cr_tombstones r3)) r3"
    unfolding retireCall_def Let_def key r1_def [symmetric] r2_def [symmetric] r3_def [symmetric] ..
  have t2: "cr_tombstones r2 = js_set ?k ?t (cr_tombstones r)" by (simp add: r2_def r1_def)
  have "?k \<notin> set (js_keys (cr_tombstones r))" using noT by (simp add: map_of_eq_None_iff)
  then have l2: "tombLast ?k ?t r2" by (simp add: tombLast_def t2 map_set js_keys_set)
  have i2: "js_inv (cr_tombstones r2)" using ok(2) by (simp add: t2 tombs_ok_def)
  have l3: "tombLast ?k ?t r3" unfolding r3_def
    by (rule prune_last [OF i2 l2]) (simp add: makeTombstone_def TOMBSTONE_TTL_MS_def)
  show "js_get (cr_tombstones (retireCall now c' pc pending r)) ?k = Some ?t"
    using evict_last [OF _ l3, of "length (cr_tombstones r3)"] i2 eq by (simp add: tombLast_def r3_def)
  show "js_get (cr_calls (retireCall now c' pc pending r)) = (js_get (cr_calls r))(?k := None)"
    using key by (simp add: retire_calls forgetCall_get)
qed


lemma called_ok: "\<not> isl (fst m) \<Longrightarrow> \<exists>x r. m = (Inr x, r)"
  by (cases m; cases "fst m") auto

section \<open>A registry to apply the properties to\<close>

definition sampleProtocol :: callProtocol where
  "sampleProtocol = \<lparr>cp_udpP2p = True, cp_udpReflector = True, cp_minLayer = 65, cp_maxLayer = 92,
     cp_libraryVersions = [''9.0.0'']\<rparr>"

definition sampleEnv :: callEnv where
  "sampleEnv = \<lparr>ce_now = 1000000, ce_timeoutMs = 30000, ce_draws = (\<lambda>i. of_nat (i + 7)),
     ce_worker = Some sampleProtocol,
     ce_reply = Some \<lparr>wr_state = WorkerMediaActive, wr_gAHash = Some (replicate 32 1), wr_gA = Some (replicate 256 2),
       wr_gB = Some (replicate 256 3), wr_keyFingerprint = Some 99\<rparr>,
     ce_mediaConfig = Inr (Some \<lparr>mc_enableP2p = True, mc_endpoints = [], mc_rtcServers = None\<rparr>),
     ce_mediaProvider = False, ce_attach = True, ce_control = (\<lambda>_. True), ce_deliver = (\<lambda>_. Delivered 1),
     ce_send = True, ce_hmac = (\<lambda>s c. s @ c)\<rparr>"

definition sampleRequest :: callRequest where
  "sampleRequest = \<lparr>rq_session = ''s'', rq_selfId = 1, rq_participantId = 2, rq_randomId = 5,
     rq_gAHash = replicate 32 0, rq_protocol = sampleProtocol, rq_exclude = None\<rparr>"

definition sampleRegistry :: callRegistry where
  "sampleRegistry = snd (callRequest sampleEnv sampleRequest newCallRegistry)"

lemma sampleRegistry_reachable: "reachable sampleRegistry"
  unfolding sampleRegistry_def by (rule reachable.op [OF reachable.start callOp.intros(1)])

lemma sampleRegistry_keys: "js_keys (cr_calls sampleRegistry) = [''7''] \<and> js_keys (cr_sessionCalls sampleRegistry) = [''s'']"
  by code_simp

definition samplePeer :: callPeer where
  "samplePeer = \<lparr>pe_id = 7, pe_accessHash = 8\<rparr>"

lemma sampleRegistry_call:
  "map_option (\<lambda>c. (sc_session c, sc_accessHash c, sc_telegramRole c, sc_state c, sc_negotiatedProtocol c))
     (js_get (cr_calls sampleRegistry) (callKey (pe_id samplePeer))) = Some (''s'', 8, Caller, Requested, sampleProtocol)"
  by code_simp

lemma sampleEnv_reply: "\<exists>st. ce_reply sampleEnv = Some st \<and> wr_keyFingerprint st = Some 99"
  by (simp add: sampleEnv_def)

lemma sample_protocol: "negotiateProtocol sampleProtocol sampleProtocol = Inr sampleProtocol" "audioProtocolOk sampleProtocol"
  by code_simp+

section \<open>The life cycle of a call\<close>

definition ended :: "storedCall \<Rightarrow> callRegistry \<Rightarrow> bool" where
  "ended c r \<longleftrightarrow> (\<exists>t. js_get (cr_tombstones r) (callKey (sc_id c)) = Some t \<and>
     tb_id t = sc_id c \<and> tb_accessHash t = sc_accessHash c \<and> tb_sessionId t = sc_session c)"

definition lifeStep :: "callRegistry \<Rightarrow> callRegistry \<Rightarrow> bool" where
  "lifeStep r r' \<longleftrightarrow> (\<forall>k c. js_get (cr_calls r) k = Some c \<longrightarrow>
     (case js_get (cr_calls r') k of
        Some c' \<Rightarrow> callStep c c'
      | None \<Rightarrow> sc_state c = Initializing \<or> sc_state c = Requested \<or> ended c r'))"

lemma lifeStep_same: "cr_calls r' = cr_calls r \<Longrightarrow> lifeStep r r'"
  by (simp add: lifeStep_def)

lemma callMove_life: "callMove r r' \<Longrightarrow> cr_inv r \<Longrightarrow> lifeStep r r'"
proof (induction rule: callMove.induct)
  case (update r c c')
  then have "sc_id c' = sc_id c" by (simp add: callStep_def sameCall_def)
  with update show ?case by (auto simp: lifeStep_def setCall_get)
next
  case (begin_call r c)
  then show ?case by (auto simp: lifeStep_def rememberCall_def setCall_get)
next
  case (forget r c c')
  then have "sc_id c' = sc_id c" by (simp add: sameCall_def)
  with forget show ?case by (auto simp: lifeStep_def forgetCall_get)
next
  case (retire r c c' now pc pending)
  note t = retire_tombstone [OF retire(3,1,2), of now pc pending]
  have "ended c (retireCall now c' pc pending r)"
    using t(1) retire(2) by (simp add: ended_def makeTombstone_def sameCall_def)
  then show ?case using retire(1) t(2) by (auto simp: lifeStep_def)
qed (simp_all add: lifeStep_same rememberReceipt_def)



text \<open>
  C19. Invariant of the call registry: in every reachable registry a session has at most one call and
  the session index finds exactly that call; no discarded call is kept; a call that is accepted or
  active holds the 256-byte public value of the exchange, the key fingerprint and its connections; at most
  256 tombstones and 256 receipts are remembered; and no call has more than 32 signalling or 8 debug times.
\<close>

theorem call_registry_invariant:
  assumes "reachable r"
  shows "(\<forall>k c. js_get (cr_calls r) k = Some c \<longrightarrow>
      k = callKey (sc_id c) \<and> sc_state c \<noteq> Discarded \<and> sessionCall (sc_session c) r = Some c \<and> handshake_ok c \<and>
      js_get (cr_tombstones r) k = None) \<and>
    (\<forall>s k. js_get (cr_sessionCalls r) s = Some k \<longrightarrow> sessionCall s r \<noteq> None) \<and>
    length (cr_tombstones r) \<le> 256 \<and> length (cr_receipts r) \<le> 256 \<and>
    (\<forall>k ts. js_get (cr_signalTimes r) k = Some ts \<longrightarrow> length ts \<le> 32) \<and>
    (\<forall>k ts. js_get (cr_debugTimes r) k = Some ts \<longrightarrow> length ts \<le> 8)"
proof (intro conjI allI impI)
  note inv = reachable_inv [OF assms]
  fix k c assume c: "js_get (cr_calls r) k = Some c"
  show "k = callKey (sc_id c)" by (rule call_key [OF inv c])
  show "sc_state c \<noteq> Discarded" using inv c by (auto simp: cr_inv_def calls_keyed_def)
  have "js_get (cr_sessionCalls r) (sc_session c) = Some k" using inv c by (auto simp: cr_inv_def session_index_def)
  with c show "sessionCall (sc_session c) r = Some c" by (simp add: sessionCall_def)
  show "handshake_ok c" by (rule call_handshake [OF inv c])
  show "js_get (cr_tombstones r) k = None"
    using inv c by (cases "js_get (cr_tombstones r) k") (auto simp: cr_inv_def tombs_keyed_def)
next
  note inv = reachable_inv [OF assms]
  fix s k assume s: "js_get (cr_sessionCalls r) s = Some k"
  then obtain c where "js_get (cr_calls r) k = Some c" using inv by (auto simp: cr_inv_def session_index_def)
  with s show "sessionCall s r \<noteq> None" by (simp add: sessionCall_def)
qed (use reachable_inv [OF assms] in \<open>auto simp: cr_inv_def rate_ok_def times_ok_def voice_limits\<close>)


theorem call_registry_invariant_witness:
  "length (cr_tombstones sampleRegistry) \<le> 256 \<and> js_keys (cr_calls sampleRegistry) = [''7''] \<and>
   sessionCall ''s'' sampleRegistry \<noteq> None"
proof -
  have "js_get (cr_sessionCalls sampleRegistry) ''s'' = Some ''7''" by code_simp
  with call_registry_invariant [OF sampleRegistry_reachable] sampleRegistry_keys show ?thesis by blast
qed

section \<open>The key exchange of an outgoing call\<close>

lemma findCall_hit:
  assumes "js_get (cr_calls r) (callKey (pe_id peer)) = Some c" and "sc_session c = s" and "sc_accessHash c = pe_accessHash peer"
  shows "findCall env s peer r = (Inr c, pruneTombstones (ce_now env) r)"
  using assms by (simp add: findCall_def Let_def sameWireLong_def)

lemma findCall_error:
  "findCall env s peer r = (Inl e, r1) \<Longrightarrow> r1 = pruneTombstones (ce_now env) r"
  by (auto simp: findCall_def Let_def split: option.splits if_splits)

lemma andThen_Inr:
  "andThen m f = (Inr y, r2) \<longleftrightarrow> (\<exists>x r1. m = (Inr x, r1) \<and> f x r1 = (Inr y, r2))"
  by (cases m rule: prod.exhaust; cases "fst m") (auto simp: andThen_def)

lemma wrapCall_Inr:
  "wrapCall k r = (Inr pc, r2) \<longleftrightarrow> r2 = r \<and> (\<exists>c. js_get (cr_calls r) k = Some c \<and> phoneCallOf c = Inr pc)"
  by (auto simp: wrapCall_def split: option.splits)

lemma completeRecipient_ok:
  "completeRecipient env c fp = (Inr x, c') \<Longrightarrow> \<exists>st. ce_reply env = Some st \<and> wr_state st = WorkerMediaActive \<and> wr_keyFingerprint st = Some fp"
  by (auto simp: completeRecipient_def requireWorker_def sameWireLong_def split: sum.splits option.splits if_splits)

lemma phoneCallOf_pending [simp]:
  "phoneCallOf (c\<lparr>sc_pendingDelivery := p, sc_pendingExclude := q\<rparr>) = phoneCallOf c"
  by (cases "sc_state c"; cases "sc_telegramRole c")
    (simp_all add: phoneCallOf_def pcRequested_def pcWaiting_def pcAccepted_def pcDiscarded_def pcActive_def)

text \<open>The steps of a \<open>confirm\<close> that succeeds for a call that was not active.\<close>

lemma confirm_steps:
  assumes inv: "cr_inv r" and ok: "callConfirm env s peer gA fingerprint protocol ex r = (Inr pc, r')"
    and c: "js_get (cr_calls r) (callKey (pe_id peer)) = Some c" and st: "sc_state c \<noteq> Active"
  obtains r1 ng c1 u where "findCall env s peer (pruneTombstones (ce_now env) r) = (Inr c, r1)"
    and "length gA = DH_PUBLIC_BYTES" and "sc_telegramRole c = Caller" and "sc_state c = Requested"
    and "completeRecipient env (c\<lparr>sc_negotiatedProtocol := ng\<rparr>) fingerprint = (Inr fingerprint, c1)"
    and "publishTransition env (c1\<lparr>sc_keyFingerprint := Some fingerprint, sc_gA := Some gA, sc_state := Active,
           sc_startDate := Some (ce_now env div 1000)\<rparr>) ex r1 = (Inr u, r')"
    and "\<exists>x. js_get (cr_calls r') (callKey (sc_id c)) = Some x \<and> phoneCallOf x = Inr pc"
proof -
  from ok obtain c0 r1 where len: "length gA = DH_PUBLIC_BYTES"
    and f: "findCall env s peer (pruneTombstones (ce_now env) r) = (Inr c0, r1)"
    by (auto simp: callConfirm_def serialize_def andThen_Inr split: if_splits)
  note found = findCall_Some [OF prune_inv [OF inv] f]
  have c0: "c0 = c" using found(2,4,6) c by simp
  have role: "sc_telegramRole c = Caller" "sc_state c = Requested"
    using ok f c0 st by (auto simp: callConfirm_def serialize_def andThen_Inr Let_def split: if_splits)
  with ok f c0 obtain ng where ng: "(case completeRecipient env (c\<lparr>sc_negotiatedProtocol := ng\<rparr>) fingerprint of
              (Inl e, c1) \<Rightarrow> (Inl e, abortCall env c1 ex r1)
            | (Inr fp, c1) \<Rightarrow>
                let c' = c1\<lparr>sc_keyFingerprint := Some fp, sc_gA := Some gA, sc_state := Active,
                          sc_startDate := Some (ce_now env div 1000)\<rparr>
                in andThen (publishTransition env c' ex r1) (\<lambda>_. wrapCall (callKey (sc_id c)))) = (Inr pc, r')"
    by (auto simp: callConfirm_def serialize_def andThen_Inr Let_def split: if_splits sum.splits)
  then obtain fp c1 where cr: "completeRecipient env (c\<lparr>sc_negotiatedProtocol := ng\<rparr>) fingerprint = (Inr fp, c1)"
    by (auto split: sum.splits prod.splits)
  have fp: "fp = fingerprint" using completeRecipient_same [OF cr] by simp
  from ng cr fp obtain u where "publishTransition env (c1\<lparr>sc_keyFingerprint := Some fingerprint, sc_gA := Some gA,
      sc_state := Active, sc_startDate := Some (ce_now env div 1000)\<rparr>) ex r1 = (Inr u, r')"
    "\<exists>x. js_get (cr_calls r') (callKey (sc_id c)) = Some x \<and> phoneCallOf x = Inr pc"
    by (auto simp: Let_def andThen_Inr wrapCall_Inr)
  then show ?thesis using that f c0 len role cr fp by blast
qed

text \<open>
  C18. The client and the worker agree on the key: when \<open>confirm\<close> succeeds for a call that was not
  active yet, the call was the caller's own requested call with the presented access hash, the
  worker's exchange is active with exactly the key fingerprint the client presented, and the
  registry now holds the call as active with that fingerprint and the client's public value, which is
  the call that is returned.
\<close>

theorem confirm_verifies_exchange:
  assumes "reachable r" and "callConfirm env s peer gA fingerprint protocol ex r = (Inr pc, r')"
    and "js_get (cr_calls r) (callKey (pe_id peer)) = Some c" and "sc_state c \<noteq> Active"
  shows "sc_session c = s \<and> sc_accessHash c = pe_accessHash peer \<and> sc_telegramRole c = Caller \<and>
    sc_state c = Requested \<and> length gA = 256 \<and>
    (\<exists>st. ce_reply env = Some st \<and> wr_state st = WorkerMediaActive \<and> wr_keyFingerprint st = Some fingerprint) \<and>
    (\<exists>c'. js_get (cr_calls r') (callKey (pe_id peer)) = Some c' \<and> sc_state c' = Active \<and>
       sc_keyFingerprint c' = Some fingerprint \<and> sc_gA c' = Some gA \<and> pc = pcActive c')"
proof -
  have inv: "cr_inv (pruneTombstones (ce_now env) r)" by (rule prune_inv [OF reachable_inv [OF assms(1)]])
  from confirm_steps [OF reachable_inv [OF assms(1)] assms(2-4)] obtain r1 ng c1 u where
    f: "findCall env s peer (pruneTombstones (ce_now env) r) = (Inr c, r1)" and len: "length gA = DH_PUBLIC_BYTES"
    and role: "sc_telegramRole c = Caller" "sc_state c = Requested"
    and cr: "completeRecipient env (c\<lparr>sc_negotiatedProtocol := ng\<rparr>) fingerprint = (Inr fingerprint, c1)"
    and p: "publishTransition env (c1\<lparr>sc_keyFingerprint := Some fingerprint, sc_gA := Some gA, sc_state := Active,
           sc_startDate := Some (ce_now env div 1000)\<rparr>) ex r1 = (Inr u, r')"
    and w: "\<exists>x. js_get (cr_calls r') (callKey (sc_id c)) = Some x \<and> phoneCallOf x = Inr pc" by blast
  note found = findCall_Some [OF inv f]
  obtain x where x: "js_get (cr_calls r') (callKey (sc_id c)) = Some x" "phoneCallOf x = Inr pc" using w by blast
  let ?c' = "c1\<lparr>sc_keyFingerprint := Some fingerprint, sc_gA := Some gA, sc_state := Active,
    sc_startDate := Some (ce_now env div 1000)\<rparr>"
  from completeRecipient_same [OF cr] have s: "sameCall c c1" "sc_state c1 = sc_state c" "sc_connections c1 \<noteq> None"
    by auto
  note step = confirmed_step [OF s(1,2) role len s(3), where fp = fingerprint and d = "Some (ce_now env div 1000)"]
  have "phoneCallOf ?c' = Inr (pcActive ?c')" by (simp add: phoneCallOf_def)
  from publishTransition_call [OF found(1,2) step _ this, of env ex x] p x(1)
  obtain a b where "x = ?c'\<lparr>sc_pendingDelivery := a, sc_pendingExclude := b\<rparr>" by auto
  then have "sc_state x = Active" "sc_keyFingerprint x = Some fingerprint" "sc_gA x = Some gA" by simp_all
  moreover then have "pc = pcActive x" using x(2) by (simp add: phoneCallOf_def)
  ultimately show ?thesis
    using found(3,4,5) role len completeRecipient_ok [OF cr] x(1) by (auto simp: DH_PUBLIC_BYTES_def)
qed

theorem confirm_verifies_exchange_witness:
  "\<exists>pc r' c'. callConfirm sampleEnv ''s'' samplePeer (replicate 256 4) 99 sampleProtocol None sampleRegistry = (Inr pc, r') \<and>
     js_get (cr_calls r') (callKey (pe_id samplePeer)) = Some c' \<and> sc_keyFingerprint c' = Some 99 \<and> pc = pcActive c'"
proof -
  obtain c where c: "js_get (cr_calls sampleRegistry) (callKey (pe_id samplePeer)) = Some c" "sc_state c \<noteq> Active"
    using sampleRegistry_call by auto
  have "\<not> isl (fst (callConfirm sampleEnv ''s'' samplePeer (replicate 256 4) 99 sampleProtocol None sampleRegistry))"
    by code_simp
  then obtain pc r' where r: "callConfirm sampleEnv ''s'' samplePeer (replicate 256 4) 99 sampleProtocol None sampleRegistry = (Inr pc, r')"
    by (blast dest: called_ok)
  from confirm_verifies_exchange [OF sampleRegistry_reachable r c] r show ?thesis by blast
qed

lemma abort_result:
  assumes inv: "cr_inv r" and c: "js_get (cr_calls r) (callKey (sc_id c)) = Some c" and same: "sameCall c c1"
  shows "js_get (cr_calls (abortCall env c1 ex r)) (callKey (sc_id c)) = None \<and>
    sessionCall (sc_session c) (abortCall env c1 ex r) = None \<and>
    (\<exists>t. js_get (cr_tombstones (abortCall env c1 ex r)) (callKey (sc_id c)) = Some t \<and>
       tb_phoneCall t = PhoneCallDiscarded (sc_id c) (Some ReasonDisconnect) (sc_duration c1))"
proof -
  let ?d = "(teardownCall c1)\<lparr>sc_state := Discarded, sc_discarded := Some ReasonDisconnect\<rparr>"
  let ?p = "r\<lparr>cr_published := cr_published r @ [(sc_session ?d, pcDiscarded ?d, ex)]\<rparr>"
  obtain x where x: "publishCall env (sc_session ?d) (pcDiscarded ?d) ex r = (x, ?p)" using publishCall_eq by blast
  have inv': "cr_inv ?p" by (rule callMove_inv [OF callMove.publish inv])
  have sd: "sameCall c ?d" using same by (simp add: sameCall_def teardownCall_def)
  define r' where "r' = abortCall env c1 ex r"
  obtain pending where r': "r' = retireCall (ce_now env) ?d (pcDiscarded ?d) pending ?p"
    using x by (cases x) (auto simp: r'_def abortCall_def publishDiscarded_def Let_def)
  note t = retire_tombstone [OF inv' _ sd, of "ce_now env" "pcDiscarded ?d" pending, folded r']
  have inv2: "cr_inv r'" unfolding r' using c by (intro retire_inv [OF inv' _ sd]) simp
  have "js_get (cr_calls r') k = None" if "js_get (cr_sessionCalls r') (sc_session c) = Some k" for k
  proof (rule ccontr)
    assume "js_get (cr_calls r') k \<noteq> None"
    then obtain y where y: "js_get (cr_calls r') k = Some y" by blast
    with that have "sc_session y = sc_session c" using inv2 by (auto simp: cr_inv_def session_index_def)
    moreover have "js_get (cr_calls r) k = Some y" "k \<noteq> callKey (sc_id c)"
      using y t(2) c by (auto split: if_splits)
    ultimately show False using session_unique [of r k y "callKey (sc_id c)" c] inv c by (auto simp: cr_inv_def)
  qed
  then have "sessionCall (sc_session c) r' = None" by (auto simp: sessionCall_def split: option.splits)
  moreover have "pcDiscarded ?d = PhoneCallDiscarded (sc_id c) (Some ReasonDisconnect) (sc_duration c1)"
    using same by (simp add: pcDiscarded_def teardownCall_def sameCall_def)
  ultimately show ?thesis using t c by (simp add: makeTombstone_def r'_def [symmetric])
qed

text \<open>
  C20. A failed exchange ends the call: when the client confirms its requested call with a fingerprint
  that is not the one of the worker's exchange, \<open>confirm\<close> raises an error, the call and the session's
  line are gone, and the call's tombstone shows it as discarded by a disconnect.
\<close>

theorem confirm_mismatch_ends_call:
  assumes "reachable r" and "js_get (cr_calls r) (callKey (pe_id peer)) = Some c"
    and "sc_session c = s" and "sc_accessHash c = pe_accessHash peer" and "sc_telegramRole c = Caller"
    and "sc_state c = Requested" and "audioProtocolOk protocol" and "length gA = 256"
    and "negotiateProtocol (sc_negotiatedProtocol c) protocol = Inr ng"
    and "ce_reply env = Some st" and "wr_keyFingerprint st \<noteq> Some fingerprint"
  shows "\<exists>e r' t. callConfirm env s peer gA fingerprint protocol ex r = (Inl e, r') \<and>
    js_get (cr_calls r') (callKey (pe_id peer)) = None \<and> sessionCall s r' = None \<and>
    js_get (cr_tombstones r') (callKey (pe_id peer)) = Some t \<and>
    tb_phoneCall t = PhoneCallDiscarded (pe_id peer) (Some ReasonDisconnect) (sc_duration c)"
proof -
  define r0 where "r0 = pruneTombstones (ce_now env) r"
  define r1 where "r1 = pruneTombstones (ce_now env) r0"
  have inv: "cr_inv r1" unfolding r1_def r0_def by (intro prune_inv reachable_inv [OF assms(1)])
  have calls: "cr_calls r1 = cr_calls r" "cr_sessionCalls r1 = cr_sessionCalls r" by (simp_all add: r1_def r0_def)
  have key: "callKey (pe_id peer) = callKey (sc_id c)" by (rule call_key [OF reachable_inv [OF assms(1)] assms(2)])
  then have pid: "pe_id peer = sc_id c" by simp
  have c: "js_get (cr_calls r1) (callKey (sc_id c)) = Some c" using assms(2) calls key by simp
  have f: "findCall env s peer r0 = (Inr c, r1)"
    unfolding r1_def using assms(2-4) by (intro findCall_hit) (simp_all add: r0_def)
  obtain res c1 where cr: "completeRecipient env (c\<lparr>sc_negotiatedProtocol := ng\<rparr>) fingerprint = (res, c1)"
    by (cases "completeRecipient env (c\<lparr>sc_negotiatedProtocol := ng\<rparr>) fingerprint")
  have "\<exists>e. res = Inl e"
    using completeRecipient_ok [of env "c\<lparr>sc_negotiatedProtocol := ng\<rparr>" fingerprint] cr assms(10,11) by (cases res) auto
  then obtain e where e: "res = Inl e" by blast
  have same: "sameCall c c1" using completeRecipient_same [OF cr] by simp
  have dur: "sc_duration c1 = sc_duration c"
    using cr by (auto simp: completeRecipient_def applyMediaStartConfig_def attachMedia_def Let_def
        split: sum.splits option.splits if_splits)
  have "callConfirm env s peer gA fingerprint protocol ex r = (Inl e, abortCall env c1 ex r1)"
    using assms(5-9) f cr e by (simp add: callConfirm_def serialize_def r0_def [symmetric] andThen_def DH_PUBLIC_BYTES_def)
  with abort_result [OF inv c same, of env ex] assms(3) dur pid show ?thesis by auto
qed

theorem confirm_mismatch_ends_call_witness:
  "\<exists>e r'. callConfirm sampleEnv ''s'' samplePeer (replicate 256 4) 98 sampleProtocol None sampleRegistry = (Inl e, r') \<and>
     sessionCall ''s'' r' = None"
proof -
  obtain c where c: "js_get (cr_calls sampleRegistry) (callKey (pe_id samplePeer)) = Some c" "sc_session c = ''s''"
    "sc_accessHash c = pe_accessHash samplePeer" "sc_telegramRole c = Caller" "sc_state c = Requested"
    "negotiateProtocol (sc_negotiatedProtocol c) sampleProtocol = Inr sampleProtocol"
    using sampleRegistry_call sample_protocol by (auto simp: samplePeer_def)
  obtain st where st: "ce_reply sampleEnv = Some st" "wr_keyFingerprint st \<noteq> Some 98" using sampleEnv_reply by auto
  from confirm_mismatch_ends_call [OF sampleRegistry_reachable c(1-5) sample_protocol(2) _ c(6) st, of "replicate 256 4" None]
  show ?thesis by auto
qed

section \<open>Expiry\<close>

definition due :: "int \<Rightarrow> storedCall \<Rightarrow> bool" where
  "due now c \<longleftrightarrow> sc_state c \<noteq> Active \<and> \<not> now < sc_deadline c"

definition reliable :: "callEnv \<Rightarrow> bool" where
  "reliable env \<longleftrightarrow> (\<forall>op. ce_control env op) \<and> (\<forall>n. ce_deliver env n \<noteq> DeliveryFails)"

lemma publishCall_reliable:
  "reliable env \<Longrightarrow> \<exists>n. publishCall env s pc ex r = (Inr n, r\<lparr>cr_published := cr_published r @ [(s, pc, ex)]\<rparr>)"
  by (auto simp: publishCall_def Let_def reliable_def split: delivery.splits)

lemma deliverPending_reliable:
  assumes "reliable env"
  shows "fst (deliverPending env k r) = Inr ()"
proof (cases "js_get (cr_calls r) k")
  case (Some c)
  show ?thesis
  proof (cases "sc_pendingDelivery c")
    case pc: (Some pc)
    obtain n where "publishCall env (sc_session c) pc (sc_pendingExclude c) r =
        (Inr n, r\<lparr>cr_published := cr_published r @ [(sc_session c, pc, sc_pendingExclude c)]\<rparr>)"
      using publishCall_reliable [OF assms] by blast
    with Some pc show ?thesis by (simp add: deliverPending_def)
  qed (use Some in \<open>simp add: deliverPending_def\<close>)
qed (simp add: deliverPending_def)

lemma publishDiscarded_result:
  assumes "reliable env"
  shows "\<exists>pending. publishDiscarded env c ex r = (Inr (pcDiscarded c), retireCall (ce_now env) c (pcDiscarded c) pending
    (r\<lparr>cr_published := cr_published r @ [(sc_session c, pcDiscarded c, ex)]\<rparr>))"
proof -
  obtain n where "publishCall env (sc_session c) (pcDiscarded c) ex r =
      (Inr n, r\<lparr>cr_published := cr_published r @ [(sc_session c, pcDiscarded c, ex)]\<rparr>)"
    using publishCall_reliable [OF assms] by blast
  then show ?thesis by (auto simp: publishDiscarded_def Let_def)
qed

lemma callDiscard_result:
  assumes inv: "cr_inv r" and c: "js_get (cr_calls r) (callKey (sc_id c)) = Some c" and ok: "reliable env"
  shows "\<exists>pc r'. callDiscard env (sc_session c) \<lparr>pe_id = sc_id c, pe_accessHash = sc_accessHash c\<rparr> ReasonMissed 0 None r = (Inr pc, r') \<and>
    js_get (cr_calls r') = (js_get (cr_calls r))(callKey (sc_id c) := None)"
proof -
  define r1 where "r1 = pruneTombstones (ce_now env) (pruneTombstones (ce_now env) r)"
  have inv1: "cr_inv r1" unfolding r1_def by (intro prune_inv inv)
  have calls: "cr_calls r1 = cr_calls r" by (simp add: r1_def)
  let ?ring = "sc_telegramRole c = Recipient \<and> ringing (sc_state c)"
  let ?d = "(teardownCall c)\<lparr>sc_state := Discarded, sc_discarded := Some (if ?ring then ReasonBusy else ReasonMissed),
      sc_duration := Some (if ?ring then 0 else 0)\<rparr>"
  let ?p = "r1\<lparr>cr_published := cr_published r1 @ [(sc_session ?d, pcDiscarded ?d, None)]\<rparr>"
  have inv': "cr_inv ?p" by (rule callMove_inv [OF callMove.publish inv1])
  have find: "findOrTombstone env (sc_session c) \<lparr>pe_id = sc_id c, pe_accessHash = sc_accessHash c\<rparr>
      (pruneTombstones (ce_now env) r) = (Inr (Inl c), r1)"
    using c by (simp add: findOrTombstone_def Let_def sameWireLong_def r1_def)
  have ctl: "controlPlatform env c op = Inr ()" for op
    using ok by (simp add: controlPlatform_def reliable_def)
  obtain pending where "publishDiscarded env ?d None r1 = (Inr (pcDiscarded ?d), retireCall (ce_now env) ?d (pcDiscarded ?d) pending ?p)"
    using publishDiscarded_result [OF ok] by blast
  then have "callDiscard env (sc_session c) \<lparr>pe_id = sc_id c, pe_accessHash = sc_accessHash c\<rparr> ReasonMissed 0 None r =
      (Inr (pcDiscarded ?d), retireCall (ce_now env) ?d (pcDiscarded ?d) pending ?p)"
    using find ctl by (simp add: callDiscard_def serialize_def andThen_def isSafeInteger_def MAX_CALL_DURATION_SECONDS_def Let_def)
  moreover have "js_get (cr_calls (retireCall (ce_now env) ?d (pcDiscarded ?d) pending ?p)) =
      (js_get (cr_calls r))(callKey (sc_id c) := None)"
    using retire_tombstone(2) [OF inv', of c ?d "ce_now env" "pcDiscarded ?d" pending] c calls by simp
  ultimately show ?thesis by blast
qed

lemma expireCall_result:
  assumes inv: "cr_inv r" and ok: "reliable env"
  shows "\<exists>r'. expireCall env now k r = (Inr (), r') \<and> cr_inv r' \<and>
    (\<forall>k'. k' \<noteq> k \<longrightarrow> js_get (cr_calls r') k' = js_get (cr_calls r) k') \<and>
    (\<forall>c. js_get (cr_calls r') k = Some c \<longrightarrow> \<not> due now c)"
proof (cases "js_get (cr_calls r) k")
  case None
  then show ?thesis using inv by (simp add: expireCall_def)
next
  case (Some c)
  have key: "k = callKey (sc_id c)" by (rule call_key [OF inv Some])
  have live: "sc_state c \<noteq> Discarded" using inv Some by (auto simp: cr_inv_def calls_keyed_def)
  let ?pend = "sc_pendingDelivery c \<noteq> None \<and> (sc_state c = Active \<or> now < sc_deadline c)"
  show ?thesis
  proof (cases "due now c")
    case True
    with callDiscard_result [OF inv _ ok, of c] Some key obtain pc r' where d:
      "callDiscard env (sc_session c) \<lparr>pe_id = sc_id c, pe_accessHash = sc_accessHash c\<rparr> ReasonMissed 0 None r = (Inr pc, r')"
      "js_get (cr_calls r') = (js_get (cr_calls r))(callKey (sc_id c) := None)" by auto
    have "expireCall env now k r = (Inr (), r')"
      using Some True live d(1) by (auto simp: expireCall_def due_def andThen_def)
    moreover have "cr_inv r'" using callMoves_inv [OF expireCall_moves [OF inv, of env now k] inv] calculation by simp
    ultimately show ?thesis using d(2) key by simp
  next
    case False
    define r0 where "r0 = pruneTombstones (ce_now env) r"
    have inv0: "cr_inv r0" unfolding r0_def by (rule prune_inv [OF inv])
    have calls0: "cr_calls r0 = cr_calls r" by (simp add: r0_def)
    define r' where "r' = (if ?pend then snd (deliverPending env k r0) else r)"
    obtain d where "deliverPending env k r0 = (Inr (), d)"
      using deliverPending_reliable [OF ok, of k r0] by (cases "deliverPending env k r0") simp
    then have e: "expireCall env now k r = (Inr (), r')"
      using Some False live by (auto simp: expireCall_def due_def andThen_def serialize_def r'_def r0_def [symmetric])
    have "cr_inv r'" using callMoves_inv [OF expireCall_moves [OF inv, of env now k] inv] e by simp
    moreover have "js_get (cr_calls r') = js_get (cr_calls r) \<or>
        js_get (cr_calls r') = (js_get (cr_calls r))(k \<mapsto> c\<lparr>sc_pendingDelivery := None, sc_pendingExclude := None\<rparr>)"
      using deliverPending_calls [OF inv0, of env k] Some calls0 by (auto simp: r'_def)
    ultimately show ?thesis using e Some False by (auto simp: due_def)
  qed
qed

lemma expireLoop_result:
  "cr_inv r \<Longrightarrow> (\<forall>n. reliable (envs n)) \<Longrightarrow> \<exists>r'. expireLoop envs n now keys r = (Inr (), r') \<and>
    (\<forall>k. k \<notin> set keys \<longrightarrow> js_get (cr_calls r') k = js_get (cr_calls r) k) \<and>
    (\<forall>k c. k \<in> set keys \<longrightarrow> js_get (cr_calls r') k = Some c \<longrightarrow> \<not> due now c)"
proof (induction keys arbitrary: n r)
  case (Cons k keys)
  obtain r1 where r1: "expireCall (envs n) now k r = (Inr (), r1)" "cr_inv r1"
    "\<forall>k'. k' \<noteq> k \<longrightarrow> js_get (cr_calls r1) k' = js_get (cr_calls r) k'"
    "\<forall>c. js_get (cr_calls r1) k = Some c \<longrightarrow> \<not> due now c"
    using expireCall_result [OF Cons.prems(1), of "envs n" now k] Cons.prems(2) by blast
  obtain r' where r': "expireLoop envs (Suc n) now keys r1 = (Inr (), r')"
    "\<forall>k. k \<notin> set keys \<longrightarrow> js_get (cr_calls r') k = js_get (cr_calls r1) k"
    "\<forall>k c. k \<in> set keys \<longrightarrow> js_get (cr_calls r') k = Some c \<longrightarrow> \<not> due now c"
    using Cons.IH [OF r1(2) Cons.prems(2), of "Suc n"] by blast
  have "\<not> due now c" if "js_get (cr_calls r') k = Some c" for c
    using that r'(2,3) r1(4) by (cases "k \<in> set keys") auto
  with r1 r' show ?case by (auto simp: andThen_def)
qed simp

text \<open>
  C21. Nobody rings for ever: when the platform answers its control calls and the client deliveries do
  not fail, one run of \<open>expire\<close> on a reachable registry succeeds, and afterwards every call that is
  left is active or before its deadline.
\<close>

theorem expire_ends_overdue_calls:
  assumes "reachable r" and "\<And>n. reliable (envs n)"
  shows "\<exists>r'. callExpire envs r = (Inr (), r') \<and>
    (\<forall>k c. js_get (cr_calls r') k = Some c \<longrightarrow> sc_state c = Active \<or> ce_now (envs 0) < sc_deadline c)"
proof -
  define r0 where "r0 = pruneTombstones (ce_now (envs 0)) r"
  have inv: "cr_inv r0" unfolding r0_def by (rule prune_inv [OF reachable_inv [OF assms(1)]])
  from expireLoop_result [OF inv, of envs 0 "ce_now (envs 0)" "js_keys (cr_calls r0)"] assms(2)
  obtain r' where r': "expireLoop envs 0 (ce_now (envs 0)) (js_keys (cr_calls r0)) r0 = (Inr (), r')"
    "\<forall>k. k \<notin> set (js_keys (cr_calls r0)) \<longrightarrow> js_get (cr_calls r') k = js_get (cr_calls r0) k"
    "\<forall>k c. k \<in> set (js_keys (cr_calls r0)) \<longrightarrow> js_get (cr_calls r') k = Some c \<longrightarrow> \<not> due (ce_now (envs 0)) c" by blast
  have "\<not> due (ce_now (envs 0)) c" if "js_get (cr_calls r') k = Some c" for k c
  proof (cases "k \<in> set (js_keys (cr_calls r0))")
    case False
    with r'(2) that have "js_get (cr_calls r0) k = Some c" by simp
    with False show ?thesis by (simp add: map_of_eq_None_iff [symmetric])
  qed (use r'(3) that in blast)
  then show ?thesis using r'(1) by (auto simp: callExpire_def Let_def r0_def due_def)
qed


theorem expire_ends_overdue_calls_witness:
  "\<exists>r'. callExpire (\<lambda>_. sampleEnv\<lparr>ce_now := 2000000\<rparr>) sampleRegistry = (Inr (), r') \<and> js_get (cr_calls r') (callKey (pe_id samplePeer)) = None"
proof -
  have e: "reliable (sampleEnv\<lparr>ce_now := 2000000\<rparr>)" by (simp add: reliable_def sampleEnv_def)
  have "list_all (\<lambda>(k, c). sc_state c = Active \<or> 2000000 < sc_deadline c)
      (cr_calls (snd (callExpire (\<lambda>_. sampleEnv\<lparr>ce_now := 2000000\<rparr>) sampleRegistry))) \<and>
    js_get (cr_calls (snd (callExpire (\<lambda>_. sampleEnv\<lparr>ce_now := 2000000\<rparr>) sampleRegistry))) (callKey (pe_id samplePeer)) = None"
    by code_simp
  with expire_ends_overdue_calls [OF sampleRegistry_reachable, of "\<lambda>_. sampleEnv\<lparr>ce_now := 2000000\<rparr>"] e show ?thesis by auto
qed

section \<open>Retried requests\<close>

definition requestedBy :: "callRequest \<Rightarrow> storedCall \<Rightarrow> bool" where
  "requestedBy input c \<longleftrightarrow> isMatchingRequest (sc_telegramRole c) (sc_adminId c) (sc_participantId c) (sc_randomId c) input"

lemma requestedBy_pending [simp]:
  "requestedBy input (c\<lparr>sc_pendingDelivery := p, sc_pendingExclude := q\<rparr>) = requestedBy input c"
  by (simp add: requestedBy_def)

lemma sessionCall_at:
  assumes "cr_inv r" and "js_get (cr_calls r) k = Some c"
  shows "sessionCall (sc_session c) r = Some c"
proof -
  have "js_get (cr_sessionCalls r) (sc_session c) = Some k" using assms by (auto simp: cr_inv_def session_index_def)
  with assms(2) show ?thesis by (simp add: sessionCall_def)
qed

lemma startRequest_result:
  assumes inv: "cr_inv r" and free: "js_get (cr_sessionCalls r) (rq_session input) = None"
    and res: "startRequest env input r = (Inr pc, r')"
  shows "\<exists>c. sessionCall (rq_session input) r' = Some c \<and> requestedBy input c \<and> phoneCallOf c = Inr pc"
proof -
  from res obtain p ng call0 where
    new: "createCall env (rq_session input) (rq_selfId input) (rq_participantId input) (rq_protocol input)
        Caller (Some (rq_randomId input)) None ng r = Inr call0" and
    m: "(let call = call0\<lparr>sc_recipientProtocol := Some p, sc_gAHash := Some (rq_gAHash input)\<rparr>;
         r1 = rememberCall call r
     in case prepareRecipient env call of
          Inl e \<Rightarrow> (Inl e, forgetCall call r1)
        | Inr call' \<Rightarrow> andThen (publishTransition env call' (rq_exclude input) r1) (\<lambda>_. wrapCall (callKey (sc_id call')))) = (Inr pc, r')"
    by (auto simp: startRequest_def split: if_splits sum.splits)
  define c where "c = call0\<lparr>sc_recipientProtocol := Some p, sc_gAHash := Some (rq_gAHash input)\<rparr>"
  define r1 where "r1 = rememberCall c r"
  note fresh = createCall_fresh [OF new]
  have beg: "callMove r r1" unfolding r1_def using fresh free by (intro callMove.begin_call) (simp_all add: c_def)
  have inv1: "cr_inv r1" by (rule callMove_inv [OF beg inv])
  have get: "js_get (cr_calls r1) (callKey (sc_id c)) = Some c" unfolding r1_def by (rule rememberCall_get)
  from m obtain c' where "prepareRecipient env c = Inr c'"
    and m': "andThen (publishTransition env c' (rq_exclude input) r1) (\<lambda>_. wrapCall (callKey (sc_id c'))) = (Inr pc, r')"
    by (auto simp: Let_def c_def r1_def split: sum.splits)
  then obtain gB where c': "c' = c\<lparr>sc_gB := Some gB\<rparr>" using prepareRecipient_eq by blast
  have st: "sc_state c' = Requested" "sc_id c' = sc_id c" using fresh by (simp_all add: c' c_def)
  have step: "callStep c c'" "handshake_ok c'" using st fresh
    by (simp_all add: c' callStep_def sameCall_def handshake_unanswered answered_def)
  from m' obtain u where p: "publishTransition env c' (rq_exclude input) r1 = (Inr u, r')"
    and x: "\<exists>x. js_get (cr_calls r') (callKey (sc_id c)) = Some x \<and> phoneCallOf x = Inr pc"
    using st by (auto simp: andThen_Inr wrapCall_Inr)
  then obtain x where x: "js_get (cr_calls r') (callKey (sc_id c)) = Some x" "phoneCallOf x = Inr pc" by blast
  have pc: "phoneCallOf c' = Inr (pcRequested c')" using st by (simp add: phoneCallOf_def)
  obtain a b where xa: "x = c'\<lparr>sc_pendingDelivery := a, sc_pendingExclude := b\<rparr>"
    using publishTransition_call [OF inv1 get step _ pc, of env "rq_exclude input" x] p x(1) by auto
  have "cr_inv r'" using callMoves_inv [OF publishTransition_moves [OF inv1 get step, of env "rq_exclude input"] inv1] p by simp
  from sessionCall_at [OF this x(1)] have "sessionCall (rq_session input) r' = Some x"
    using fresh by (simp add: xa c' c_def)
  moreover have "requestedBy input x" using fresh by (simp add: xa c' c_def requestedBy_def isMatchingRequest_def)
  ultimately show ?thesis using x(2) by blast
qed

lemma deliverPending_session:
  assumes inv: "cr_inv r" and c: "sessionCall s r = Some c"
  shows "\<exists>p q. sessionCall s (snd (deliverPending env k r)) = Some (c\<lparr>sc_pendingDelivery := p, sc_pendingExclude := q\<rparr>)"
proof -
  note at = sessionCall_Some [OF inv c]
  have inv': "cr_inv (snd (deliverPending env k r))" by (rule callMoves_inv [OF deliverPending_moves [OF inv] inv])
  from deliverPending_calls [OF inv, of env k]
  obtain p q where "js_get (cr_calls (snd (deliverPending env k r))) (callKey (sc_id c)) =
      Some (c\<lparr>sc_pendingDelivery := p, sc_pendingExclude := q\<rparr>)"
  proof (elim disjE exE conjE)
    assume "cr_calls (snd (deliverPending env k r)) = cr_calls r"
    with at(1) pending_self [of c] that show ?thesis by metis
  next
    fix d assume d: "js_get (cr_calls r) k = Some d" "js_get (cr_calls (snd (deliverPending env k r))) =
        (js_get (cr_calls r))(k \<mapsto> d\<lparr>sc_pendingDelivery := None, sc_pendingExclude := None\<rparr>)"
    show ?thesis
    proof (cases "k = callKey (sc_id c)")
      case True
      then have "d = c" using d(1) at(1) by simp
      then show ?thesis using d(2) True that by simp
    next
      case False
      then show ?thesis using d(2) at(1) pending_self [of c] that by (metis fun_upd_other)
    qed
  qed
  from sessionCall_at [OF inv' this] at(3) show ?thesis by auto
qed

lemma requestBody_result:
  assumes inv: "cr_inv r" and res: "requestBody env input r = (Inr pc, r')"
    and c: "sessionCall (rq_session input) r' = Some c"
  shows "requestedBy input c \<and> phoneCallOf c = Inr pc"
proof (cases "sessionCall (rq_session input) r")
  case None
  then have fresh: "freshRequest env input r = (Inr pc, r')" using res by (simp add: requestBody_def)
  show ?thesis
  proof (cases "findRequestTombstone input r")
    case (Inr t)
    with fresh None c have "startRequest env input r = (Inr pc, r')"
      by (cases t) (auto simp: freshRequest_def)
    from startRequest_result [OF inv sessionCall_None [OF inv None] this] c show ?thesis by auto
  qed (use fresh in \<open>simp add: freshRequest_def\<close>)
next
  case (Some e)
  let ?d = "deliverPending env (callKey (sc_id e)) r"
  have live: "sc_state e \<noteq> Discarded" by (rule sessionCall_Some(2) [OF inv Some])
  with res Some have req: "requestedBy input e"
    and m: "andThen ?d (\<lambda>_. wrapCall (callKey (sc_id e))) = (Inr pc, r')"
    by (auto simp: requestBody_def requestedBy_def split: if_splits)
  from m have r': "r' = snd ?d" by (cases ?d) (auto simp: andThen_Inr wrapCall_Inr)
  obtain p q where s: "sessionCall (rq_session input) r' = Some (e\<lparr>sc_pendingDelivery := p, sc_pendingExclude := q\<rparr>)"
    using deliverPending_session [OF inv Some] r' by blast
  have "cr_inv r'" unfolding r' by (rule callMoves_inv [OF deliverPending_moves [OF inv] inv])
  from sessionCall_Some(1) [OF this s] m have "phoneCallOf e = Inr pc" by (auto simp: andThen_Inr wrapCall_Inr)
  with s c req show ?thesis by auto
qed

text \<open>
  Requests are idempotent: when a request was answered and the caller's session has a call
  afterwards, then repeating it (with deliveries that do not fail, whatever else the outside answers) returns
  the same phone call, creates no call and ends none.
\<close>

theorem request_retry_same_call:
  assumes "reachable r" and "callRequest env input r = (Inr pc, r1)"
    and "sessionCall (rq_session input) r1 = Some c" and "reliable env'"
  shows "\<exists>r2. callRequest env' input r1 = (Inr pc, r2) \<and> dom (js_get (cr_calls r2)) = dom (js_get (cr_calls r1))"
proof -
  have inv: "cr_inv r" by (rule reachable_inv [OF assms(1)])
  have ok: "audioProtocolOk (rq_protocol input)" "length (rq_gAHash input) = GA_HASH_BYTES"
    and body: "requestBody env input (pruneTombstones (ce_now env) r) = (Inr pc, r1)"
    using assms(2) by (auto simp: callRequest_def serialize_def split: if_splits)
  have same: "requestedBy input c" "phoneCallOf c = Inr pc"
    using requestBody_result [OF prune_inv [OF inv] body assms(3)] by auto
  have "cr_inv r1" using callMoves_inv [OF callRequest_moves [OF inv, of env input] inv] assms(2) by simp
  define r0 where "r0 = pruneTombstones (ce_now env') r1"
  have inv0: "cr_inv r0" unfolding r0_def by (rule prune_inv) fact
  have calls0: "cr_calls r0 = cr_calls r1" by (simp add: r0_def)
  have s0: "sessionCall (rq_session input) r0 = Some c" using assms(3) by (auto simp: sessionCall_def r0_def split: option.splits)
  let ?d = "deliverPending env' (callKey (sc_id c)) r0"
  have d: "?d = (Inr (), snd ?d)" using deliverPending_reliable [OF assms(4), of "callKey (sc_id c)" r0]
    by (cases ?d) simp
  have inv2: "cr_inv (snd ?d)" by (rule callMoves_inv [OF deliverPending_moves [OF inv0] inv0])
  obtain p q where s2: "sessionCall (rq_session input) (snd ?d) = Some (c\<lparr>sc_pendingDelivery := p, sc_pendingExclude := q\<rparr>)"
    using deliverPending_session [OF inv0 s0] by blast
  have w: "wrapCall (callKey (sc_id c)) (snd ?d) = (Inr pc, snd ?d)"
    using sessionCall_Some(1) [OF inv2 s2] same(2) by (simp add: wrapCall_def)
  have "requestBody env' input r0 = (Inr pc, snd ?d)"
    using s0 sessionCall_Some(2) [OF inv0 s0] same(1) d w
    by (simp add: requestBody_def requestedBy_def) (metis andThen_Inr)
  then have "callRequest env' input r1 = (Inr pc, snd ?d)" using ok by (simp add: callRequest_def serialize_def r0_def)
  moreover have "dom (js_get (cr_calls (snd ?d))) = dom (js_get (cr_calls r1))"
    using deliverPending_calls [OF inv0, of env' "callKey (sc_id c)"] calls0 by (auto split: if_splits)
  ultimately show ?thesis by blast
qed

theorem request_retry_same_call_witness:
  "\<exists>pc r2. callRequest sampleEnv sampleRequest sampleRegistry = (Inr pc, r2) \<and> dom (js_get (cr_calls r2)) = dom (js_get (cr_calls sampleRegistry))"
proof -
  have "\<not> isl (fst (callRequest sampleEnv sampleRequest newCallRegistry))" by code_simp
  then obtain pc where pc: "callRequest sampleEnv sampleRequest newCallRegistry = (Inr pc, sampleRegistry)"
    unfolding sampleRegistry_def by (metis called_ok snd_conv)
  have "sessionCall (rq_session sampleRequest) sampleRegistry \<noteq> None" by code_simp
  then obtain c where "sessionCall (rq_session sampleRequest) sampleRegistry = Some c" by blast
  from request_retry_same_call [OF reachable.start pc this, of sampleEnv] show ?thesis
    by (auto simp: reliable_def sampleEnv_def)
qed

end
