(* ===== verification/Update_Store.thy ===== *)
theory Update_Store
  imports Js_Map "HOL-Library.Product_Lexorder"
begin

text \<open>
  The update log (\<open>packages/update-store/src/index.ts\<close>): the rows and the interface that the
  memory and the database backend implement, and its abstract specification. The specification
  is a list of rows in the order of their creation; a row's \<open>messageId\<close>, which each backend
  chooses for itself, is not part of it. The locale \<open>update_store\<close> states that a backend answers
  every operation like the specification.
\<close>

section \<open>Rows and operations\<close>

text \<open>\<open>'p\<close> is the type of a payload: a JSON object here, its MessagePack bytes in the database.\<close>

record 'p newDelivery =
  d_eventKey :: string
  d_session :: string
  d_scope :: string
  d_pts :: int
  d_ptsCount :: int
  d_seq :: int
  d_date :: int
  d_published :: bool
  d_claimedAt :: "int option"
  d_payload :: "'p option"

record 'p storedDelivery = "'p newDelivery" +
  d_messageId :: int

type_synonym 'p row = "'p newDelivery"

abbreviation withoutId :: "'p storedDelivery \<Rightarrow> 'p newDelivery" where
  "withoutId \<equiv> newDelivery.truncate"

abbreviation withId :: "'p newDelivery \<Rightarrow> int \<Rightarrow> 'p storedDelivery" where
  "withId d i \<equiv> newDelivery.extend d (storedDelivery.fields i)"

datatype 'p storeOp =
    StoreGet string
  | StoreCreate "'p newDelivery"
  | StoreMarkPublished string
  | StoreClaim string int
  | StoreSetPayload string 'p
  | StoreRemove string
  | StoreGetPending string
  | StoreGetAfter string string int int
  | StoreGetFirst string string
  | StoreGetSince string int int
  | StoreGetChanged string int
  | StorePrune string string

text \<open>An answer without message ids: \<open>undefined\<close>, a row, rows, or channel summaries.\<close>

datatype 'p storeAnswer =
    NoAnswer
  | RowAnswer "'p newDelivery option"
  | RowsAnswer "'p newDelivery list"
  | ScopesAnswer "(string \<times> int) list"

text \<open>\<open>ChannelScopeUpdate\<close>: scope, pts, first message id.\<close>

type_synonym scopeUpdate = "string \<times> int \<times> int"

definition scopeKey :: "string \<Rightarrow> string \<Rightarrow> string" where
  "scopeKey session scope = session @ CHR 0x00 # scope"

definition startsWith :: "string \<Rightarrow> string \<Rightarrow> bool" where
  "startsWith pre s \<longleftrightarrow> take (length pre) s = pre"

definition isChannelScope :: "string \<Rightarrow> bool" where
  "isChannelScope s \<longleftrightarrow> startsWith ''channel:'' s"

lemma scopeKey_inj:
  "CHR 0x00 \<notin> set s \<Longrightarrow> CHR 0x00 \<notin> set s' \<Longrightarrow> scopeKey s c = scopeKey s' c' \<longleftrightarrow> s = s' \<and> c = c'"
  unfolding scopeKey_def by (metis split_at_separator)

section \<open>Dropping the oldest rows\<close>

fun dropFirst :: "('a \<Rightarrow> bool) \<Rightarrow> nat \<Rightarrow> 'a list \<Rightarrow> 'a list" where
  "dropFirst P 0 xs = xs"
| "dropFirst P (Suc n) [] = []"
| "dropFirst P (Suc n) (x # xs) = (if P x then dropFirst P n xs else x # dropFirst P (Suc n) xs)"

lemma dropFirst_Nil [simp]: "dropFirst P n [] = []"
  by (cases n) simp_all

lemma filter_dropFirst: "filter P (dropFirst P n xs) = drop n (filter P xs)"
  by (induction P n xs rule: dropFirst.induct) simp_all

lemma filter_dropFirst_other: "(\<And>x. x \<in> set xs \<Longrightarrow> P x \<Longrightarrow> \<not> Q x) \<Longrightarrow> filter Q (dropFirst P n xs) = filter Q xs"
  by (induction P n xs rule: dropFirst.induct) auto

lemma set_dropFirst: "set (dropFirst P n xs) \<subseteq> set xs"
  by (induction P n xs rule: dropFirst.induct) auto

lemma map_dropFirst: "(\<And>x. x \<in> set xs \<Longrightarrow> P x \<longleftrightarrow> Q (f x)) \<Longrightarrow> map f (dropFirst P n xs) = dropFirst Q n (map f xs)"
  by (induction P n xs rule: dropFirst.induct) auto

lemma dropFirst_filter:
  assumes "distinct (map f xs)"
  shows "dropFirst P n xs = filter (\<lambda>x. f x \<notin> set (map f (take n (filter P xs)))) xs"
  using assms
proof (induction P n xs rule: dropFirst.induct)
  case (3 P n x xs)
  have out: "f x \<notin> f ` set ys" if "set ys \<subseteq> set xs" for ys using 3(3) that by auto
  have sub: "set (take m (filter P xs)) \<subseteq> set xs" for m by (auto dest: in_set_takeD)
  show ?case
  proof (cases "P x")
    case True
    have "f y \<noteq> f x" if "y \<in> set xs" for y using 3(3) that by (metis distinct.simps(2) image_eqI list.simps(9) set_map)
    then have "filter (\<lambda>y. f y \<notin> set (map f (take (Suc n) (filter P (x # xs))))) xs =
        filter (\<lambda>y. f y \<notin> set (map f (take n (filter P xs)))) xs"
      using True by (intro filter_cong) auto
    with True 3 show ?thesis by simp
  next
    case False
    with 3 out [OF sub [of "Suc n"]] show ?thesis by simp
  qed
qed simp_all

lemma dropFirst_0: "n = 0 \<Longrightarrow> dropFirst P n xs = xs"
  by simp

section \<open>The specification\<close>

definition inScope :: "string \<Rightarrow> string \<Rightarrow> ('p, 'z) newDelivery_scheme \<Rightarrow> bool" where
  "inScope session scope d \<longleftrightarrow> d_session d = session \<and> d_scope d = scope"

definition trimScope :: "nat \<Rightarrow> string \<Rightarrow> string \<Rightarrow> 'p row list \<Rightarrow> 'p row list" where
  "trimScope retention session scope rows =
     dropFirst (inScope session scope) (length (filter (inScope session scope) rows) - retention) rows"

definition updateRow :: "string \<Rightarrow> (('p, 'z) newDelivery_scheme \<Rightarrow> ('p, 'z) newDelivery_scheme) \<Rightarrow>
    ('p, 'z) newDelivery_scheme list \<Rightarrow> ('p, 'z) newDelivery_scheme list" where
  "updateRow eventKey f rows = map (\<lambda>d. if d_eventKey d = eventKey then f d else d) rows"

definition limitOf :: "int \<Rightarrow> nat" where
  "limitOf limit = nat limit"

text \<open>The channel summaries of the rows that changed, in the order of their first row.\<close>

definition changedRow :: "string \<Rightarrow> int \<Rightarrow> ('p, 'z) newDelivery_scheme \<Rightarrow> bool" where
  "changedRow session date d \<longleftrightarrow> d_session d = session \<and> \<not> (d_date d < date \<or> d_ptsCount d \<le> 0 \<or> d_payload d = None) \<and>
     isChannelScope (d_scope d)"

definition specChanged :: "'p row list \<Rightarrow> (string \<times> int) list" where
  "specChanged rows = map (\<lambda>sc. (sc, Max (d_pts ` {d \<in> set rows. d_scope d = sc})))
     (rev (remdups (rev (map d_scope rows))))"

definition specRun :: "nat \<Rightarrow> 'p storeOp \<Rightarrow> 'p row list \<Rightarrow> 'p storeAnswer \<times> 'p row list" where
  "specRun retention op rows = (case op of
     StoreGet ek \<Rightarrow> (RowAnswer (find (\<lambda>d. d_eventKey d = ek) rows), rows)
   | StoreCreate d \<Rightarrow>
       (case find (\<lambda>x. d_eventKey x = d_eventKey d) rows of
          Some x \<Rightarrow> (RowAnswer (Some x), rows)
        | None \<Rightarrow> (RowAnswer (Some d), trimScope retention (d_session d) (d_scope d) (rows @ [d])))
   | StoreMarkPublished ek \<Rightarrow> (NoAnswer, updateRow ek (\<lambda>d. d\<lparr>d_published := True\<rparr>) rows)
   | StoreClaim ek t \<Rightarrow> (NoAnswer, updateRow ek (\<lambda>d. d\<lparr>d_claimedAt := Some t\<rparr>) rows)
   | StoreSetPayload ek p \<Rightarrow> (NoAnswer, updateRow ek (\<lambda>d. d\<lparr>d_payload := Some p\<rparr>) rows)
   | StoreRemove ek \<Rightarrow> (NoAnswer, filter (\<lambda>d. d_eventKey d \<noteq> ek) rows)
   | StoreGetPending s \<Rightarrow> (RowsAnswer (sort_key d_seq (filter (\<lambda>d. d_session d = s \<and> \<not> d_published d) rows)), rows)
   | StoreGetAfter s sc pts limit \<Rightarrow>
       (RowsAnswer (take (limitOf limit) (sort_key d_pts (filter (\<lambda>d. inScope s sc d \<and> pts < d_pts d) rows))), rows)
   | StoreGetFirst s sc \<Rightarrow>
       (RowAnswer (case sort_key d_pts (filter (inScope s sc) rows) of [] \<Rightarrow> None | d # _ \<Rightarrow> Some d), rows)
   | StoreGetSince s date limit \<Rightarrow>
       (RowsAnswer (take (limitOf limit) (sort_key d_seq (filter (\<lambda>d. d_session d = s \<and> date \<le> d_date d) rows))), rows)
   | StoreGetChanged s date \<Rightarrow> (ScopesAnswer (specChanged (filter (changedRow s date) rows)), rows)
   | StorePrune s sc \<Rightarrow> (NoAnswer, trimScope retention s sc rows))"

fun runs :: "('o \<Rightarrow> 's \<Rightarrow> 'a \<times> 's) \<Rightarrow> 'o list \<Rightarrow> 's \<Rightarrow> 'a list \<times> 's" where
  "runs run [] s = ([], s)"
| "runs run (op # ops) s = (let (a, s1) = run op s; (as, s2) = runs run ops s1 in (a # as, s2))"

text \<open>Session ids hold no NUL, which the backends use to separate the parts of a scope key.\<close>

fun opSession :: "'p storeOp \<Rightarrow> string" where
  "opSession (StoreCreate d) = d_session d"
| "opSession (StoreGetPending s) = s"
| "opSession (StoreGetAfter s _ _ _) = s"
| "opSession (StoreGetFirst s _) = s"
| "opSession (StoreGetSince s _ _) = s"
| "opSession (StoreGetChanged s _) = s"
| "opSession (StorePrune s _) = s"
| "opSession _ = []"

definition plainOp :: "'p storeOp \<Rightarrow> bool" where
  "plainOp op \<longleftrightarrow> CHR 0x00 \<notin> set (opSession op)"

lemma plainOp_key [simp]: "plainOp (StoreGet ek)" "plainOp (StoreRemove ek)" "plainOp (StoreMarkPublished ek)"
  by (simp_all add: plainOp_def)

section \<open>The contract of a backend\<close>

locale update_store =
  fixes run :: "'p storeOp \<Rightarrow> 's \<Rightarrow> 'p storeAnswer \<times> 's"
    and inv :: "'s \<Rightarrow> bool"
    and abs :: "'s \<Rightarrow> 'p row list"
    and retention :: nat
  assumes run_inv: "inv s \<Longrightarrow> plainOp op \<Longrightarrow> inv (snd (run op s))"
    and run_answer: "inv s \<Longrightarrow> plainOp op \<Longrightarrow> fst (run op s) = fst (specRun retention op (abs s))"
    and run_abs: "inv s \<Longrightarrow> plainOp op \<Longrightarrow> abs (snd (run op s)) = snd (specRun retention op (abs s))"
begin

lemma runs_spec:
  "inv s \<Longrightarrow> list_all plainOp ops \<Longrightarrow>
   fst (runs run ops s) = fst (runs (specRun retention) ops (abs s)) \<and>
   abs (snd (runs run ops s)) = snd (runs (specRun retention) ops (abs s)) \<and> inv (snd (runs run ops s))"
proof (induction ops arbitrary: s)
  case (Cons op ops)
  obtain a s1 where r: "run op s = (a, s1)" by (cases "run op s")
  with Cons.prems run_inv [of s op] run_answer [of s op] run_abs [of s op]
  have "specRun retention op (abs s) = (a, abs s1)" "inv s1" by (simp_all add: prod_eq_iff)
  with Cons.IH [of s1] Cons.prems r show ?case by (simp add: split_beta Let_def)
qed simp

text \<open>What is created is read back, as long as the log keeps anything at all.\<close>

lemma create_get:
  assumes "inv s" and "plainOp (StoreCreate d)" and "0 < retention"
  shows "fst (run (StoreGet (d_eventKey d)) (snd (run (StoreCreate d) s))) = fst (run (StoreCreate d) s)"
proof (cases "find (\<lambda>x. d_eventKey x = d_eventKey d) (abs s)")
  case (Some x)
  with assms show ?thesis by (simp add: run_answer run_abs run_inv specRun_def)
next
  case None
  let ?P = "inScope (d_session d) (d_scope d)" and ?E = "\<lambda>x. d_eventKey x = d_eventKey d"
  define n where "n = length (filter ?P (abs s)) + 1 - retention"
  have "find ?E (dropFirst ?P m (xs @ [d])) = Some d"
    if "find ?E xs = None" "m \<le> length (filter ?P xs)" for m xs
    using that
  proof (induction xs arbitrary: m)
    case Nil
    then show ?case by simp
  next
    case (Cons x xs)
    then show ?case using Cons.IH [of 0] by (cases m) (auto split: if_splits)
  qed
  from this [OF None, of n] assms(3) have "find ?E (dropFirst ?P n (abs s @ [d])) = Some d" by (simp add: n_def)
  moreover have "?P d" by (simp add: inScope_def)
  ultimately show ?thesis using assms None by (simp add: run_answer run_abs run_inv specRun_def trimScope_def n_def)
qed

end

section \<open>Rows with ids\<close>

definition increasing :: "'p storedDelivery list \<Rightarrow> bool" where
  "increasing rows \<longleftrightarrow> sorted_wrt (<) (map d_messageId rows)"

lemma increasing_simps [simp]:
  "increasing []"
  "increasing (x # xs) \<longleftrightarrow> (\<forall>y\<in>set xs. d_messageId x < d_messageId y) \<and> increasing xs"
  "increasing (xs @ ys) \<longleftrightarrow> increasing xs \<and> increasing ys \<and> (\<forall>x\<in>set xs. \<forall>y\<in>set ys. d_messageId x < d_messageId y)"
  by (simp_all add: increasing_def sorted_wrt_append)

lemma increasing_filter: "increasing xs \<Longrightarrow> increasing (filter P xs)"
  by (induction xs) auto

lemma increasing_distinct: "increasing xs \<Longrightarrow> distinct (map d_messageId xs)"
  by (induction xs) auto

text \<open>Sorting by a column and then by the id keeps the order of creation among equals.\<close>

lemma insort_id:
  assumes "\<forall>y\<in>set ys. d_messageId x < d_messageId y"
  shows "insort_key (\<lambda>d. (f d :: int, d_messageId d)) x ys = insort_key f x ys"
  using assms by (induction ys) (auto simp: less_eq_prod_def)

lemma sort_by_id:
  assumes "increasing xs"
  shows "sort_key (\<lambda>d. (f d :: int, d_messageId d)) xs = sort_key f xs"
  using assms
proof (induction xs)
  case (Cons x xs)
  have "insort_key (\<lambda>d. (f d, d_messageId d)) x (sort_key f xs) = insort_key f x (sort_key f xs)"
    using Cons.prems by (intro insort_id) auto
  with Cons show ?case by simp
qed simp

lemma map_insort: "(\<And>y. y \<in> insert x (set xs) \<Longrightarrow> g (h y) = f y) \<Longrightarrow> map h (insort_key f x xs) = insort_key g (h x) (map h xs)"
  for f :: "'a \<Rightarrow> int"
  by (induction xs) auto

lemma map_sort_key: "(\<And>x. x \<in> set xs \<Longrightarrow> g (h x) = f x) \<Longrightarrow> map h (sort_key f xs) = sort_key g (map h xs)"
  for f :: "'a \<Rightarrow> int"
proof (induction xs)
  case (Cons x xs)
  then have "map h (insort_key f x (sort_key f xs)) = insort_key g (h x) (map h (sort_key f xs))"
    by (intro map_insort) auto
  with Cons show ?case by simp
qed simp

lemma map_filter_eq: "(\<And>x. x \<in> set xs \<Longrightarrow> P x \<longleftrightarrow> Q (h x)) \<Longrightarrow> map h (filter P xs) = filter Q (map h xs)"
  by (induction xs) auto

end
