(* ===== verification/Update_Store_Memory.thy ===== *)
theory Update_Store_Memory
  imports Update_Store
begin

text \<open>
  The memory backend (\<open>packages/update-store-memory/src/index.ts\<close>): a map from event keys to rows
  and, per session and scope, the array of event keys in the order of creation. Rows are values, so
  the defensive copies of the code disappear; \<open>row.published = true\<close> on a row of the map is an
  update of the map in place. \<open>memRun\<close> is the interface without message ids.
\<close>

section \<open>The backend\<close>

record 'p logStore =
  ms_rows :: "(string, 'p storedDelivery) jsmap"
  ms_scopes :: "(string, string list) jsmap"
  ms_next :: int
  ms_retention :: nat

definition normalizeRetention :: "int option \<Rightarrow> nat" where
  "normalizeRetention r = nat (case r of Some n \<Rightarrow> n | None \<Rightarrow> 1000)"

definition newLogStore :: "int option \<Rightarrow> 'p logStore" where
  "newLogStore r = \<lparr>ms_rows = [], ms_scopes = [], ms_next = 1, ms_retention = normalizeRetention r\<rparr>"

definition msGet :: "string \<Rightarrow> 'p logStore \<Rightarrow> 'p storedDelivery option" where
  "msGet eventKey m = js_get (ms_rows m) eventKey"

definition scopeKeys :: "string \<Rightarrow> 'p logStore \<Rightarrow> string list" where
  "scopeKeys key m = (case js_get (ms_scopes m) key of Some ks \<Rightarrow> ks | None \<Rightarrow> [])"

definition msPruneKeys :: "string \<Rightarrow> string list \<Rightarrow> 'p logStore \<Rightarrow> 'p logStore" where
  "msPruneKeys key eventKeys m =
    (if length eventKeys \<le> ms_retention m then m
     else let dropped = take (length eventKeys - ms_retention m) eventKeys;
              kept = drop (length eventKeys - ms_retention m) eventKeys
          in m\<lparr>ms_rows := foldl (\<lambda>rows k. js_delete k rows) (ms_rows m) dropped,
               ms_scopes := (if kept = [] then js_delete key (ms_scopes m) else js_set key kept (ms_scopes m))\<rparr>)"

definition msCreate :: "'p newDelivery \<Rightarrow> 'p logStore \<Rightarrow> 'p storedDelivery \<times> 'p logStore" where
  "msCreate d m = (case js_get (ms_rows m) (d_eventKey d) of
       Some existing \<Rightarrow> (existing, m)
     | None \<Rightarrow>
         let row = withId d (ms_next m);
             key = scopeKey (d_session d) (d_scope d);
             eventKeys = scopeKeys key m @ [d_eventKey d];
             m1 = m\<lparr>ms_next := ms_next m + 1, ms_rows := js_set (d_eventKey d) row (ms_rows m),
                    ms_scopes := js_set key eventKeys (ms_scopes m)\<rparr>
         in (row, msPruneKeys key eventKeys m1))"

definition msModify :: "string \<Rightarrow> ('p storedDelivery \<Rightarrow> 'p storedDelivery) \<Rightarrow> 'p logStore \<Rightarrow> 'p logStore" where
  "msModify eventKey f m = (case js_get (ms_rows m) eventKey of
       None \<Rightarrow> m | Some row \<Rightarrow> m\<lparr>ms_rows := js_set eventKey (f row) (ms_rows m)\<rparr>)"

definition msMarkPublished :: "string \<Rightarrow> 'p logStore \<Rightarrow> 'p logStore" where
  "msMarkPublished eventKey = msModify eventKey (\<lambda>row. row\<lparr>d_published := True\<rparr>)"

definition msClaim :: "string \<Rightarrow> int \<Rightarrow> 'p logStore \<Rightarrow> 'p logStore" where
  "msClaim eventKey claimedAt = msModify eventKey (\<lambda>row. row\<lparr>d_claimedAt := Some claimedAt\<rparr>)"

definition msSetPayload :: "string \<Rightarrow> 'p \<Rightarrow> 'p logStore \<Rightarrow> 'p logStore" where
  "msSetPayload eventKey payload = msModify eventKey (\<lambda>row. row\<lparr>d_payload := Some payload\<rparr>)"

definition msRemove :: "string \<Rightarrow> 'p logStore \<Rightarrow> 'p logStore" where
  "msRemove eventKey m = (case js_get (ms_rows m) eventKey of
       None \<Rightarrow> m
     | Some row \<Rightarrow>
         let key = scopeKey (d_session row) (d_scope row);
             m1 = m\<lparr>ms_rows := js_delete eventKey (ms_rows m)\<rparr>
         in case js_get (ms_scopes m) key of
              None \<Rightarrow> m1
            | Some ks \<Rightarrow>
                let ks' = remove1 eventKey ks
                in m1\<lparr>ms_scopes := (if ks' = [] then js_delete key (ms_scopes m) else js_set key ks' (ms_scopes m))\<rparr>)"

definition bySeq :: "'p storedDelivery \<Rightarrow> int \<times> int" where
  "bySeq row = (d_seq row, d_messageId row)"

definition byPts :: "'p storedDelivery \<Rightarrow> int \<times> int" where
  "byPts row = (d_pts row, d_messageId row)"

definition msGetPending :: "string \<Rightarrow> 'p logStore \<Rightarrow> 'p storedDelivery list" where
  "msGetPending session m =
     sort_key bySeq (filter (\<lambda>row. d_session row = session \<and> \<not> d_published row) (map snd (ms_rows m)))"

definition msScopeRows :: "string \<Rightarrow> string \<Rightarrow> 'p logStore \<Rightarrow> 'p storedDelivery list" where
  "msScopeRows session scope m = List.map_filter (js_get (ms_rows m)) (scopeKeys (scopeKey session scope) m)"

definition msGetAfter :: "string \<Rightarrow> string \<Rightarrow> int \<Rightarrow> int \<Rightarrow> 'p logStore \<Rightarrow> 'p storedDelivery list" where
  "msGetAfter session scope pts limit m =
     take (limitOf limit) (sort_key byPts (filter (\<lambda>row. pts < d_pts row) (msScopeRows session scope m)))"

definition msGetFirst :: "string \<Rightarrow> string \<Rightarrow> 'p logStore \<Rightarrow> 'p storedDelivery option" where
  "msGetFirst session scope m =
     (case sort_key byPts (msScopeRows session scope m) of [] \<Rightarrow> None | row # _ \<Rightarrow> Some row)"

definition msGetSince :: "string \<Rightarrow> int \<Rightarrow> int \<Rightarrow> 'p logStore \<Rightarrow> 'p storedDelivery list" where
  "msGetSince session date limit m =
     take (limitOf limit) (sort_key bySeq (filter (\<lambda>row. d_session row = session \<and> date \<le> d_date row) (map snd (ms_rows m))))"

definition changedStep :: "string \<Rightarrow> int \<Rightarrow> (string, int \<times> int) jsmap \<Rightarrow> 'p storedDelivery \<Rightarrow> (string, int \<times> int) jsmap" where
  "changedStep session date byScope row =
    (if d_session row \<noteq> session then byScope
     else if d_date row < date \<or> d_ptsCount row \<le> 0 \<or> d_payload row = None then byScope
     else if \<not> isChannelScope (d_scope row) then byScope
     else case js_get byScope (d_scope row) of
       None \<Rightarrow> js_set (d_scope row) (d_pts row, d_messageId row) byScope
     | Some (pts, first) \<Rightarrow> js_set (d_scope row) (max pts (d_pts row), min first (d_messageId row)) byScope)"

definition msGetChanged :: "string \<Rightarrow> int \<Rightarrow> 'p logStore \<Rightarrow> scopeUpdate list" where
  "msGetChanged session date m =
     sort_key (\<lambda>(scope, pts, first). first) (foldl (changedStep session date) [] (map snd (ms_rows m)))"

definition msPrune :: "string \<Rightarrow> string \<Rightarrow> 'p logStore \<Rightarrow> 'p logStore" where
  "msPrune session scope m = (case js_get (ms_scopes m) (scopeKey session scope) of
       None \<Rightarrow> m | Some ks \<Rightarrow> msPruneKeys (scopeKey session scope) ks m)"

definition memRun :: "'p storeOp \<Rightarrow> 'p logStore \<Rightarrow> 'p storeAnswer \<times> 'p logStore" where
  "memRun op m = (case op of
     StoreGet ek \<Rightarrow> (RowAnswer (map_option withoutId (msGet ek m)), m)
   | StoreCreate d \<Rightarrow> (case msCreate d m of (row, m') \<Rightarrow> (RowAnswer (Some (withoutId row)), m'))
   | StoreMarkPublished ek \<Rightarrow> (NoAnswer, msMarkPublished ek m)
   | StoreClaim ek t \<Rightarrow> (NoAnswer, msClaim ek t m)
   | StoreSetPayload ek p \<Rightarrow> (NoAnswer, msSetPayload ek p m)
   | StoreRemove ek \<Rightarrow> (NoAnswer, msRemove ek m)
   | StoreGetPending s \<Rightarrow> (RowsAnswer (map withoutId (msGetPending s m)), m)
   | StoreGetAfter s sc pts limit \<Rightarrow> (RowsAnswer (map withoutId (msGetAfter s sc pts limit m)), m)
   | StoreGetFirst s sc \<Rightarrow> (RowAnswer (map_option withoutId (msGetFirst s sc m)), m)
   | StoreGetSince s date limit \<Rightarrow> (RowsAnswer (map withoutId (msGetSince s date limit m)), m)
   | StoreGetChanged s date \<Rightarrow> (ScopesAnswer (map (\<lambda>(sc, pts, _). (sc, pts)) (msGetChanged s date m)), m)
   | StorePrune s sc \<Rightarrow> (NoAnswer, msPrune s sc m))"

section \<open>Channel summaries\<close>

definition firstScopes :: "('p, 'z) newDelivery_scheme list \<Rightarrow> string list" where
  "firstScopes xs = rev (remdups (rev (map d_scope xs)))"

definition changedList :: "'p storedDelivery list \<Rightarrow> scopeUpdate list" where
  "changedList xs = map (\<lambda>sc. (sc, Max (d_pts ` {d \<in> set xs. d_scope d = sc}), Min (d_messageId ` {d \<in> set xs. d_scope d = sc})))
     (firstScopes xs)"

lemma firstScopes_snoc: "firstScopes (xs @ [x]) = (if d_scope x \<in> d_scope ` set xs then firstScopes xs else firstScopes xs @ [d_scope x])"
  by (simp add: firstScopes_def)

lemma set_firstScopes [simp]: "set (firstScopes xs) = d_scope ` set xs"
  by (simp add: firstScopes_def)

lemma distinct_firstScopes [simp]: "distinct (firstScopes xs)"
  by (simp add: firstScopes_def)

lemma js_set_graph:
  "distinct ks \<Longrightarrow> k \<in> set ks \<Longrightarrow> js_set k v (map (\<lambda>x. (x, g x)) ks) = map (\<lambda>x. (x, if x = k then v else g x)) ks"
  by (induction ks) (auto simp: map_eq_conv)

lemma js_get_graph: "js_get (map (\<lambda>x. (x, g x)) ks) k = (if k \<in> set ks then Some (g k) else None)"
  by (induction ks) auto

lemma scoped_snoc:
  "{d \<in> set (xs @ [x]). d_scope d = sc} = (if d_scope x = sc then insert x {d \<in> set xs. d_scope d = sc} else {d \<in> set xs. d_scope d = sc})"
  by auto

lemma changedList_snoc:
  assumes "increasing (xs @ [x])"
  shows "changedList (xs @ [x]) =
    (case js_get (changedList xs) (d_scope x) of
       None \<Rightarrow> js_set (d_scope x) (d_pts x, d_messageId x) (changedList xs)
     | Some (pts, first) \<Rightarrow> js_set (d_scope x) (max pts (d_pts x), min first (d_messageId x)) (changedList xs))"
proof (cases "d_scope x \<in> d_scope ` set xs")
  case True
  let ?S = "{d \<in> set xs. d_scope d = d_scope x}"
  have S: "?S \<noteq> {}" "finite ?S" using True by auto
  have "changedList (xs @ [x]) = map (\<lambda>sc. (sc, if sc = d_scope x then (max (Max (d_pts ` ?S)) (d_pts x),
      min (Min (d_messageId ` ?S)) (d_messageId x)) else (Max (d_pts ` {d \<in> set xs. d_scope d = sc}),
      Min (d_messageId ` {d \<in> set xs. d_scope d = sc})))) (firstScopes xs)"
    using True S unfolding changedList_def
    by (simp add: firstScopes_snoc scoped_snoc max.commute min.commute cong: map_cong del: set_append)
  then show ?thesis using True by (simp add: changedList_def js_get_graph js_set_graph)
next
  case False
  then have S: "{d \<in> set (xs @ [x]). d_scope d = d_scope x} = {x}" by auto (metis imageI)
  have "map (\<lambda>sc. (sc, Max (d_pts ` {d \<in> set (xs @ [x]). d_scope d = sc}), Min (d_messageId ` {d \<in> set (xs @ [x]). d_scope d = sc})))
      (firstScopes xs) = changedList xs"
    using False unfolding changedList_def scoped_snoc by (intro map_cong) auto
  then have "changedList (xs @ [x]) = changedList xs @ [(d_scope x, d_pts x, d_messageId x)]"
    using False S unfolding changedList_def [of "xs @ [x]"] by (simp add: firstScopes_snoc del: set_append)
  moreover have "js_get (changedList xs) (d_scope x) = None"
    using False by (simp add: changedList_def js_get_graph)
  moreover have "d_scope x \<notin> set (js_keys (changedList xs))" using False by (auto simp: changedList_def)
  ultimately show ?thesis by (simp add: js_set_new)
qed

lemma changedStep_row: "changedStep session date byScope x = (if changedRow session date x
    then (case js_get byScope (d_scope x) of
       None \<Rightarrow> js_set (d_scope x) (d_pts x, d_messageId x) byScope
     | Some (pts, first) \<Rightarrow> js_set (d_scope x) (max pts (d_pts x), min first (d_messageId x)) byScope) else byScope)"
  by (auto simp: changedStep_def changedRow_def)

lemma changedStep_fold:
  "increasing xs \<Longrightarrow> foldl (changedStep session date) [] xs = changedList (filter (changedRow session date) xs)"
proof (induction xs rule: rev_induct)
  case Nil
  then show ?case by (simp add: changedList_def firstScopes_def)
next
  case (snoc x xs)
  show ?case
  proof (cases "changedRow session date x")
    case True
    have "increasing (filter (changedRow session date) xs @ [x])"
      using snoc.prems by (auto intro: increasing_filter)
    from changedList_snoc [OF this] snoc True show ?thesis by (simp add: changedStep_row)
  qed (use snoc in \<open>simp add: changedStep_row\<close>)
qed

lemma changedList_sorted:
  "increasing xs \<Longrightarrow> sorted_wrt (\<lambda>a b. snd (snd a) < snd (snd b)) (changedList xs) \<and>
   (\<forall>t\<in>set (changedList xs). \<exists>d\<in>set xs. snd (snd t) = d_messageId d)"
proof (induction xs rule: rev_induct)
  case Nil
  then show ?case by (simp add: changedList_def firstScopes_def)
next
  case (snoc x xs)
  let ?m = "\<lambda>xs sc. Min (d_messageId ` {d \<in> set xs. d_scope d = sc})"
  have inc: "increasing xs" "\<forall>y\<in>set xs. d_messageId y < d_messageId x" using snoc.prems by auto
  have old: "?m (xs @ [x]) sc = ?m xs sc" if "sc \<in> d_scope ` set xs" for sc
  proof -
    let ?S = "{d \<in> set xs. d_scope d = sc}"
    have S: "?S \<noteq> {}" "finite ?S" using that by auto
    then have "Min (d_messageId ` ?S) \<in> d_messageId ` ?S" by (intro Min_in) auto
    with inc(2) have "Min (d_messageId ` ?S) < d_messageId x" by auto
    with S show ?thesis unfolding scoped_snoc by auto
  qed
  have ids: "sorted_wrt (<) (map (?m xs) (firstScopes xs))" "\<forall>sc\<in>d_scope ` set xs. \<exists>d\<in>set xs. ?m xs sc = d_messageId d"
    using snoc.IH [OF inc(1)] by (auto simp: changedList_def sorted_wrt_map)
  have m: "map (?m (xs @ [x])) (firstScopes xs) = map (?m xs) (firstScopes xs)" using old by (intro map_cong) auto
  have new: "?m (xs @ [x]) (d_scope x) = d_messageId x" if "d_scope x \<notin> d_scope ` set xs"
  proof -
    have "{d \<in> set (xs @ [x]). d_scope d = d_scope x} = {x}" using that by auto (metis imageI)
    then show ?thesis by (simp del: set_append)
  qed
  have "sorted_wrt (<) (map (?m (xs @ [x])) (firstScopes (xs @ [x])))"
  proof (cases "d_scope x \<in> d_scope ` set xs")
    case False
    have "y < d_messageId x" if "y \<in> set (map (?m xs) (firstScopes xs))" for y using that ids(2) inc(2) by auto
    moreover have "map (?m (xs @ [x])) (firstScopes (xs @ [x])) = map (?m xs) (firstScopes xs) @ [d_messageId x]"
      using False unfolding firstScopes_snoc map_append m by (simp add: m new del: set_append)
    ultimately show ?thesis using ids(1) by (simp add: sorted_wrt_append)
  next
    case True
    then have "map (?m (xs @ [x])) (firstScopes (xs @ [x])) = map (?m xs) (firstScopes xs)"
      using m by (simp only: firstScopes_snoc if_True)
    with ids(1) show ?thesis by simp
  qed
  moreover have "\<exists>d\<in>set (xs @ [x]). ?m (xs @ [x]) sc = d_messageId d" if "sc \<in> d_scope ` set (xs @ [x])" for sc
    using that ids(2) old new by (cases "sc \<in> d_scope ` set xs") fastforce+
  ultimately show ?case by (simp add: changedList_def sorted_wrt_map)
qed

lemma changedList_first: "increasing xs \<Longrightarrow> sort_key (\<lambda>(scope, pts, first). first) (changedList xs) = changedList xs"
  using changedList_sorted [of xs]
  by (intro sort_key_id_if_sorted) (auto simp: sorted_wrt_map case_prod_beta elim!: sorted_wrt_mono_rel [rotated])

lemma d_withoutId [simp]:
  "d_eventKey (withoutId r) = d_eventKey r" "d_session (withoutId r) = d_session r" "d_scope (withoutId r) = d_scope r"
  "d_pts (withoutId r) = d_pts r" "d_ptsCount (withoutId r) = d_ptsCount r" "d_seq (withoutId r) = d_seq r"
  "d_date (withoutId r) = d_date r" "d_published (withoutId r) = d_published r" "d_claimedAt (withoutId r) = d_claimedAt r"
  "d_payload (withoutId r) = d_payload r" "withoutId (withId d i) = d"
  by (simp_all add: newDelivery.defs)

lemma changedList_spec: "map (\<lambda>(sc, pts, _). (sc, pts)) (changedList xs) = specChanged (map withoutId xs)"
proof -
  have "map d_scope (map withoutId xs) = map d_scope xs" by simp
  moreover have "d_pts ` {d \<in> set (map withoutId xs). d_scope d = sc} = d_pts ` {d \<in> set xs. d_scope d = sc}" for sc
    by force
  ultimately show ?thesis by (simp add: changedList_def specChanged_def firstScopes_def o_def)
qed


section \<open>The memory backend implements the contract\<close>

definition memRows :: "'p logStore \<Rightarrow> 'p storedDelivery list" where
  "memRows m = map snd (ms_rows m)"

definition memAbs :: "'p logStore \<Rightarrow> 'p row list" where
  "memAbs m = map withoutId (memRows m)"

definition keyedBy :: "string \<Rightarrow> ('p, 'z) newDelivery_scheme \<Rightarrow> bool" where
  "keyedBy key r \<longleftrightarrow> scopeKey (d_session r) (d_scope r) = key"

definition memInv :: "'p logStore \<Rightarrow> bool" where
  "memInv m \<longleftrightarrow> js_inv (ms_rows m) \<and> js_inv (ms_scopes m) \<and> (\<forall>(k, r) \<in> set (ms_rows m). k = d_eventKey r) \<and>
     increasing (memRows m) \<and> (\<forall>r \<in> set (memRows m). d_messageId r < ms_next m) \<and>
     (\<forall>r \<in> set (memRows m). CHR 0x00 \<notin> set (d_session r)) \<and>
     (\<forall>key. scopeKeys key m = map d_eventKey (filter (keyedBy key) (memRows m)))"

lemma memInvD:
  assumes "memInv m"
  shows "js_inv (ms_rows m)" "increasing (memRows m)" "js_keys (ms_rows m) = map d_eventKey (memRows m)"
    "distinct (map d_eventKey (memRows m))" "scopeKeys key m = map d_eventKey (filter (keyedBy key) (memRows m))"
    "r \<in> set (memRows m) \<Longrightarrow> d_messageId r < ms_next m" "r \<in> set (memRows m) \<Longrightarrow> CHR 0x00 \<notin> set (d_session r)"
    "js_inv (ms_scopes m)"
proof -
  show keys: "js_keys (ms_rows m) = map d_eventKey (memRows m)"
    using assms by (auto simp: memInv_def memRows_def)
  show "distinct (map d_eventKey (memRows m))" using assms keys by (simp add: memInv_def js_inv_def)
qed (use assms in \<open>auto simp: memInv_def\<close>)

lemma mem_get:
  fixes m :: "'p logStore"
  assumes "memInv m"
  shows "js_get (ms_rows m) ek = find (\<lambda>r. d_eventKey r = ek) (memRows m)"
proof -
  have "js_get xs ek = find (\<lambda>r. d_eventKey r = ek) (map snd xs)" if "\<forall>(k, r) \<in> set xs. k = d_eventKey r" for xs :: "(string, 'p storedDelivery) jsmap"
    using that by (induction xs) auto
  then show ?thesis using assms by (simp add: memInv_def memRows_def)
qed

lemma keyedBy_scope:
  "CHR 0x00 \<notin> set s \<Longrightarrow> CHR 0x00 \<notin> set (d_session r) \<Longrightarrow> keyedBy (scopeKey s sc) r \<longleftrightarrow> inScope s sc r"
  by (auto simp: keyedBy_def inScope_def scopeKey_inj)

lemma find_map: "(\<And>x. Q (f x) \<longleftrightarrow> P x) \<Longrightarrow> find Q (map f xs) = map_option f (find P xs)"
  by (induction xs) auto

lemma delete_row:
  assumes "\<forall>(k, r) \<in> set rows. k = d_eventKey r"
  shows "map snd (js_delete ek rows) = filter (\<lambda>r. d_eventKey r \<noteq> ek) (map snd rows)"
  using assms by (induction rows) auto

lemma delete_rows:
  assumes "\<forall>(k, r) \<in> set rows. k = d_eventKey r"
  shows "map snd (foldl (\<lambda>rows k. js_delete k rows) rows ks) = filter (\<lambda>r. d_eventKey r \<notin> set ks) (map snd rows) \<and>
    (\<forall>(k, r) \<in> set (foldl (\<lambda>rows k. js_delete k rows) rows ks). k = d_eventKey r)"
  using assms
proof (induction ks arbitrary: rows)
  case (Cons k ks)
  have "\<forall>(k, r) \<in> set (js_delete k rows). k = d_eventKey r" using Cons.prems by (auto simp: delete_eq_filter)
  from Cons.IH [OF this] show ?case by (auto simp: delete_row [OF Cons.prems] intro: filter_cong)
qed simp

lemma delete_rows_inv: "js_inv rows \<Longrightarrow> js_inv (foldl (\<lambda>rows k. js_delete k rows) rows ks)"
  by (induction ks arbitrary: rows) simp_all

text \<open>Pruning a scope whose array of keys is up to date.\<close>

lemma msPruneKeys_ok:
  assumes inv: "memInv m" and ks: "ks = scopeKeys key m"
  shows "memInv (msPruneKeys key ks m)"
    and "memRows (msPruneKeys key ks m) =
      dropFirst (keyedBy key) (length (filter (keyedBy key) (memRows m)) - ms_retention m) (memRows m)"
    and "ms_retention (msPruneKeys key ks m) = ms_retention m"
proof -
  let ?P = "keyedBy key" and ?m = "msPruneKeys key ks m"
  define n where "n = length (filter ?P (memRows m)) - ms_retention m"
  have ks': "ks = map d_eventKey (filter ?P (memRows m))" using memInvD(5) [OF inv] ks by simp
  have k: "\<forall>(k, r) \<in> set (ms_rows m). k = d_eventKey r" using inv by (simp add: memInv_def)
  have eq: "?m = (if n = 0 then m else m\<lparr>ms_rows := foldl (\<lambda>rows k. js_delete k rows) (ms_rows m) (take n ks),
      ms_scopes := (if drop n ks = [] then js_delete key (ms_scopes m) else js_set key (drop n ks) (ms_scopes m))\<rparr>)"
    by (auto simp: msPruneKeys_def Let_def n_def ks')
  show rows: "memRows ?m = dropFirst ?P n (memRows m)"
  proof (cases "n = 0")
    case False
    have "memRows ?m = filter (\<lambda>r. d_eventKey r \<notin> set (take n ks)) (memRows m)"
      using False delete_rows [OF k, of "take n ks"] by (simp add: eq memRows_def)
    then show ?thesis using dropFirst_filter [OF memInvD(4) [OF inv], of ?P n] by (simp add: ks' take_map)
  qed (simp add: eq)
  show "ms_retention ?m = ms_retention m" by (simp add: eq)
  have sub: "set (memRows ?m) \<subseteq> set (memRows m)" unfolding rows by (rule set_dropFirst)
  have inc: "increasing (memRows ?m)"
    unfolding rows using dropFirst_filter [OF increasing_distinct [OF memInvD(2) [OF inv]], of ?P n]
    by (simp add: increasing_filter memInvD(2) [OF inv])
  have keys: "scopeKeys key' ?m = map d_eventKey (filter (keyedBy key') (memRows ?m))" for key'
  proof (cases "key' = key")
    case True
    have "scopeKeys key ?m = drop n ks"
    proof (cases "n = 0")
      case False
      then show ?thesis by (auto simp: eq scopeKeys_def delete_conv' update_conv')
    qed (simp add: eq ks [symmetric])
    then show ?thesis unfolding True rows filter_dropFirst by (simp add: ks' drop_map)
  next
    case False
    then have "scopeKeys key' ?m = scopeKeys key' m" by (auto simp: eq scopeKeys_def delete_conv' update_conv')
    also have "\<dots> = map d_eventKey (filter (keyedBy key') (memRows ?m))"
      unfolding rows using False by (subst filter_dropFirst_other) (auto simp: memInvD(5) [OF inv] keyedBy_def)
    finally show ?thesis .
  qed
  have "js_inv (ms_rows ?m)" "js_inv (ms_scopes ?m)" "ms_next ?m = ms_next m"
    using memInvD(1,8) [OF inv] by (auto simp: eq delete_rows_inv)
  moreover have "\<forall>(k, r) \<in> set (ms_rows ?m). k = d_eventKey r"
    using k delete_rows [OF k, of "take n ks"] by (auto simp: eq)
  ultimately show "memInv ?m" using sub inc keys memInvD(6,7) [OF inv] by (auto simp: memInv_def)
qed

lemma dropFirst_cong: "(\<And>x. x \<in> set xs \<Longrightarrow> P x = Q x) \<Longrightarrow> dropFirst P n xs = dropFirst Q n xs"
  by (induction P n xs rule: dropFirst.induct) auto

lemma trim_keyed:
  assumes inv: "memInv m" and s: "CHR 0x00 \<notin> set s"
  shows "map withoutId (dropFirst (keyedBy (scopeKey s sc)) (length (filter (keyedBy (scopeKey s sc)) (memRows m)) - k) (memRows m)) =
    trimScope k s sc (memAbs m)"
proof -
  have eq: "keyedBy (scopeKey s sc) r \<longleftrightarrow> inScope s sc (withoutId r)" if "r \<in> set (memRows m)" for r
    using keyedBy_scope [OF s memInvD(7) [OF inv that], of sc] by (simp add: inScope_def)
  have "length (filter (keyedBy (scopeKey s sc)) (memRows m)) = length (filter (inScope s sc) (memAbs m))"
    unfolding memAbs_def using map_filter_eq [of "memRows m" "keyedBy (scopeKey s sc)" "inScope s sc" withoutId] eq
    by (metis length_map)
  then show ?thesis using eq by (simp add: trimScope_def memAbs_def map_dropFirst [of _ _ "inScope s sc"])
qed


lemma mem_lookup: "memInv m \<Longrightarrow> r \<in> set (memRows m) \<Longrightarrow> js_get (ms_rows m) (d_eventKey r) = Some r"
  using memInvD(1) [of m] by (fastforce simp: memInv_def memRows_def js_inv_def)

lemma mem_find_abs: "memInv m \<Longrightarrow> find (\<lambda>d. d_eventKey d = ek) (memAbs m) = map_option withoutId (js_get (ms_rows m) ek)"
  unfolding memAbs_def by (subst find_map [where P = "\<lambda>r. d_eventKey r = ek"]) (simp_all add: mem_get)

lemma msCreate_ok:
  assumes inv: "memInv m" and s: "CHR 0x00 \<notin> set (d_session d)"
  shows "memInv (snd (msCreate d m))"
    and "memRun (StoreCreate d) m = (fst (specRun (ms_retention m) (StoreCreate d) (memAbs m)), snd (msCreate d m))"
    and "memAbs (snd (msCreate d m)) = snd (specRun (ms_retention m) (StoreCreate d) (memAbs m))"
    and "ms_retention (snd (msCreate d m)) = ms_retention m"
proof -
  have "memInv (snd (msCreate d m)) \<and>
    memRun (StoreCreate d) m = (fst (specRun (ms_retention m) (StoreCreate d) (memAbs m)), snd (msCreate d m)) \<and>
    memAbs (snd (msCreate d m)) = snd (specRun (ms_retention m) (StoreCreate d) (memAbs m)) \<and>
    ms_retention (snd (msCreate d m)) = ms_retention m"
  proof (cases "js_get (ms_rows m) (d_eventKey d)")
    case (Some x)
    then show ?thesis using inv mem_find_abs [OF inv, of "d_eventKey d"] by (simp add: msCreate_def memRun_def specRun_def)
  next
    case None
    let ?key = "scopeKey (d_session d) (d_scope d)" and ?row = "withId d (ms_next m)"
    define m1 where "m1 = m\<lparr>ms_next := ms_next m + 1, ms_rows := js_set (d_eventKey d) ?row (ms_rows m),
      ms_scopes := js_set ?key (scopeKeys ?key m @ [d_eventKey d]) (ms_scopes m)\<rparr>"
    have row: "d_eventKey ?row = d_eventKey d" "d_session ?row = d_session d" "d_scope ?row = d_scope d" "d_messageId ?row = ms_next m"
      by (simp_all add: newDelivery.defs storedDelivery.defs)
    have "d_eventKey d \<notin> set (js_keys (ms_rows m))" using None by (simp add: map_of_eq_None_iff)
    then have rows0: "ms_rows m1 = ms_rows m @ [(d_eventKey d, ?row)]" by (simp add: m1_def js_set_new)
    then have rows: "memRows m1 = memRows m @ [?row]" by (simp add: memRows_def)
    have keys: "scopeKeys key m1 = map d_eventKey (filter (keyedBy key) (memRows m1))" for key
    proof (cases "key = ?key")
      case True
      then show ?thesis using memInvD(5) [OF inv, of ?key]
        by (simp add: rows keyedBy_def row) (simp add: scopeKeys_def m1_def update_conv')
    next
      case False
      then have "scopeKeys key m1 = scopeKeys key m" by (simp add: scopeKeys_def m1_def update_conv')
      with False memInvD(5) [OF inv, of key] show ?thesis by (simp add: rows keyedBy_def row)
    qed
    have "\<forall>(k, r) \<in> set (ms_rows m1). k = d_eventKey r" using inv rows0 row by (auto simp: memInv_def)
    moreover have "js_inv (ms_rows m1)" "js_inv (ms_scopes m1)" using memInvD(1,8) [OF inv] by (simp_all add: m1_def)
    moreover have "increasing (memRows m1)" using memInvD(2,6) [OF inv] by (auto simp: rows row)
    moreover have "ms_next m1 = ms_next m + 1" by (simp add: m1_def)
    then have "\<forall>r \<in> set (memRows m1). d_messageId r < ms_next m1 \<and> CHR 0x00 \<notin> set (d_session r)"
      using memInvD(6,7) [OF inv] s by (fastforce simp: rows row)
    ultimately have inv1: "memInv m1" using keys by (simp add: memInv_def)
    have sk: "scopeKeys ?key m1 = scopeKeys ?key m @ [d_eventKey d]" by (simp add: scopeKeys_def m1_def update_conv')
    have r1: "ms_retention m1 = ms_retention m" by (simp add: m1_def)
    note p = msPruneKeys_ok [OF inv1 refl, of ?key, unfolded sk]
    have cr: "msCreate d m = (?row, msPruneKeys ?key (scopeKeys ?key m @ [d_eventKey d]) m1)"
      using None by (simp add: msCreate_def Let_def m1_def)
    have a1: "memAbs m1 = memAbs m @ [d]" by (simp add: memAbs_def rows)
    have "memAbs (snd (msCreate d m)) = trimScope (ms_retention m) (d_session d) (d_scope d) (memAbs m @ [d])"
      using p(2) trim_keyed [OF inv1 s, of "d_scope d" "ms_retention m"] by (simp add: cr r1 a1) (simp add: memAbs_def)
    then show ?thesis using p(1,3) r1 mem_find_abs [OF inv, of "d_eventKey d"] None
      by (simp add: cr memRun_def specRun_def)
  qed
  then show "memInv (snd (msCreate d m))"
    and "memRun (StoreCreate d) m = (fst (specRun (ms_retention m) (StoreCreate d) (memAbs m)), snd (msCreate d m))"
    and "memAbs (snd (msCreate d m)) = snd (specRun (ms_retention m) (StoreCreate d) (memAbs m))"
    and "ms_retention (snd (msCreate d m)) = ms_retention m" by simp_all
qed

lemma set_js_set: "set (js_set k v rows) \<subseteq> insert (k, v) (set rows)"
  by (induction rows) auto

lemma set_row:
  assumes "js_inv rows" and "\<forall>(k, r) \<in> set rows. k = d_eventKey r" and "js_get rows ek = Some row"
    and "d_eventKey (f row) = ek"
  shows "map snd (js_set ek (f row) rows) = map (\<lambda>r. if d_eventKey r = ek then f r else r) (map snd rows)"
  using assms
proof (induction rows)
  case (Cons e rows)
  obtain k r where e: "e = (k, r)" by (cases e)
  show ?case
  proof (cases "k = ek")
    case True
    have "d_eventKey r' \<noteq> ek" if "r' \<in> snd ` set rows" for r'
      using that Cons.prems(1,2) e True by (force simp: js_inv_def)
    then have "map (\<lambda>r. if d_eventKey r = ek then f r else r) (map snd rows) = map snd rows"
      by (intro map_idI) auto
    with True e Cons.prems show ?thesis by (auto simp: o_def)
  qed (use Cons e in \<open>auto simp: o_def js_inv_def\<close>)
qed simp

lemma msModify_ok:
  assumes inv: "memInv m" and f: "\<And>r. d_eventKey (f r) = d_eventKey r \<and> d_session (f r) = d_session r \<and>
      d_scope (f r) = d_scope r \<and> d_messageId (f r) = d_messageId r \<and> withoutId (f r) = g (withoutId r)"
  shows "memInv (msModify ek f m)" and "memAbs (msModify ek f m) = updateRow ek g (memAbs m)"
    and "ms_retention (msModify ek f m) = ms_retention m"
proof -
  let ?f = "\<lambda>r. if d_eventKey r = ek then f r else r"
  have k: "\<forall>(k, r) \<in> set (ms_rows m). k = d_eventKey r" using inv by (simp add: memInv_def)
  have "memRows (msModify ek f m) = map ?f (memRows m) \<and> js_inv (ms_rows (msModify ek f m)) \<and>
    (\<forall>(k, r) \<in> set (ms_rows (msModify ek f m)). k = d_eventKey r) \<and> ms_scopes (msModify ek f m) = ms_scopes m \<and>
    ms_next (msModify ek f m) = ms_next m \<and> ms_retention (msModify ek f m) = ms_retention m"
  proof (cases "js_get (ms_rows m) ek")
    case None
    then have "ek \<notin> set (js_keys (ms_rows m))" by (simp add: map_of_eq_None_iff)
    then have "ek \<notin> set (map d_eventKey (memRows m))" unfolding memInvD(3) [OF inv] .
    then have "map ?f (memRows m) = memRows m" by (intro map_idI) auto
    then show ?thesis using None k memInvD(1) [OF inv] by (simp add: msModify_def)
  next
    case (Some row)
    then have "d_eventKey (f row) = ek" using f k by (auto dest!: map_of_SomeD)
    moreover have "\<forall>(k, r) \<in> set (js_set ek (f row) (ms_rows m)). k = d_eventKey r"
      using k calculation set_js_set [of ek "f row" "ms_rows m"] by auto
    ultimately show ?thesis using set_row [OF memInvD(1) [OF inv] k Some, of f] Some memInvD(1) [OF inv]
      by (simp add: msModify_def memRows_def)
  qed
  then have rows: "memRows (msModify ek f m) = map ?f (memRows m)" and rest: "js_inv (ms_rows (msModify ek f m))"
    "\<forall>(k, r) \<in> set (ms_rows (msModify ek f m)). k = d_eventKey r" "ms_scopes (msModify ek f m) = ms_scopes m"
    "ms_next (msModify ek f m) = ms_next m" "ms_retention (msModify ek f m) = ms_retention m" by simp_all
  show "ms_retention (msModify ek f m) = ms_retention m" by (rule rest(5))
  show "memAbs (msModify ek f m) = updateRow ek g (memAbs m)"
    using f by (simp add: memAbs_def rows updateRow_def)
  have kb: "keyedBy key (?f r) = keyedBy key r" "d_eventKey (?f r) = d_eventKey r" "d_messageId (?f r) = d_messageId r"
    "d_session (?f r) = d_session r" for key r using f by (simp_all add: keyedBy_def)
  have "scopeKeys key (msModify ek f m) = map d_eventKey (filter (keyedBy key) (memRows (msModify ek f m)))" for key
  proof -
    have "filter (keyedBy key) (map ?f (memRows m)) = map ?f (filter (keyedBy key) (memRows m))"
      by (simp only: filter_map o_def kb)
    moreover have "map d_eventKey (map ?f xs) = map d_eventKey xs" for xs by (simp only: map_map o_def kb)
    ultimately show ?thesis using memInvD(5) [OF inv, of key] by (simp only: rows) (simp add: scopeKeys_def rest(3))
  qed
  moreover have "increasing (map ?f (memRows m))"
    using memInvD(2) [OF inv] unfolding increasing_def by (simp only: map_map o_def kb)
  moreover have "d_messageId y < ms_next m \<and> CHR 0x00 \<notin> set (d_session y)" if "y \<in> set (map ?f (memRows m))" for y
  proof -
    from that obtain r where r: "r \<in> set (memRows m)" "y = ?f r" unfolding set_map by (elim imageE) simp
    show ?thesis unfolding r(2) kb using memInvD(6,7) [OF inv r(1)] by blast
  qed
  ultimately show "memInv (msModify ek f m)"
    using rest memInvD(8) [OF inv] unfolding memInv_def rows by simp
qed

lemma msRemove_ok:
  assumes inv: "memInv m"
  shows "memInv (msRemove ek m)" and "memAbs (msRemove ek m) = filter (\<lambda>d. d_eventKey d \<noteq> ek) (memAbs m)"
    and "ms_retention (msRemove ek m) = ms_retention m"
proof -
  have "memInv (msRemove ek m) \<and> memRows (msRemove ek m) = filter (\<lambda>r. d_eventKey r \<noteq> ek) (memRows m) \<and>
      ms_retention (msRemove ek m) = ms_retention m"
  proof (cases "js_get (ms_rows m) ek")
    case None
    then have "ek \<notin> set (js_keys (ms_rows m))" by (simp add: map_of_eq_None_iff)
    then have "ek \<notin> set (map d_eventKey (memRows m))" unfolding memInvD(3) [OF inv] .
    then have "filter (\<lambda>r. d_eventKey r \<noteq> ek) (memRows m) = memRows m" by (intro filter_True) auto
    then show ?thesis using None inv by (simp add: msRemove_def)
  next
    case (Some row)
    let ?key = "scopeKey (d_session row) (d_scope row)" and ?m = "msRemove ek m"
    have k: "\<forall>(k, r) \<in> set (ms_rows m). k = d_eventKey r" using inv by (simp add: memInv_def)
    have row: "row \<in> set (memRows m)" "d_eventKey row = ek"
      using k map_of_SomeD [OF Some] by (force simp: memRows_def, auto)
    have only: "keyedBy key r \<longleftrightarrow> key = ?key" if "r \<in> set (memRows m)" "d_eventKey r = ek" for key r
    proof -
      have "r = row" using mem_lookup [OF inv that(1)] Some that(2) by simp
      then show ?thesis by (auto simp: keyedBy_def)
    qed
    define ks where "ks = scopeKeys ?key m"
    have "ek \<in> set ks" using row unfolding ks_def memInvD(5) [OF inv] by (force simp: keyedBy_def)
    then have sk: "js_get (ms_scopes m) ?key = Some ks"
      unfolding ks_def scopeKeys_def by (cases "js_get (ms_scopes m) ?key") auto
    have eq: "?m = m\<lparr>ms_rows := js_delete ek (ms_rows m),
        ms_scopes := (if remove1 ek ks = [] then js_delete ?key (ms_scopes m) else js_set ?key (remove1 ek ks) (ms_scopes m))\<rparr>"
      using Some sk by (simp add: msRemove_def Let_def)
    have rows: "memRows ?m = filter (\<lambda>r. d_eventKey r \<noteq> ek) (memRows m)"
      using delete_row [OF k] by (simp add: eq memRows_def)
    have keys: "scopeKeys key ?m = map d_eventKey (filter (keyedBy key) (memRows ?m))" for key
    proof (cases "key = ?key")
      case True
      have d: "distinct ks" unfolding ks_def memInvD(5) [OF inv] using memInvD(4) [OF inv]
        by (metis distinct_map_filter)
      have "scopeKeys ?key ?m = remove1 ek ks" by (auto simp: eq scopeKeys_def delete_conv' update_conv')
      also have "\<dots> = filter (\<lambda>k. k \<noteq> ek) ks" using d by (simp add: distinct_remove1_removeAll removeAll_filter_not_eq eq_commute)
      also have "\<dots> = map d_eventKey (filter (keyedBy ?key) (memRows ?m))"
        unfolding ks_def memInvD(5) [OF inv] rows filter_map o_def by (simp add: conj_commute)
      finally show ?thesis by (simp add: True)
    next
      case False
      then have "scopeKeys key ?m = scopeKeys key m" by (auto simp: eq scopeKeys_def delete_conv' update_conv')
      moreover have "filter (keyedBy key) (memRows ?m) = filter (keyedBy key) (memRows m)"
        unfolding rows filter_filter using only False by (intro filter_cong) auto
      ultimately show ?thesis using memInvD(5) [OF inv, of key] by simp
    qed
    have "\<forall>(k, r) \<in> set (ms_rows ?m). k = d_eventKey r" using k by (auto simp: eq delete_eq_filter)
    then have "memInv ?m" using keys memInvD(1,2,6,7,8) [OF inv] unfolding memInv_def rows
      by (auto simp: eq increasing_filter)
    with rows show ?thesis by (simp add: eq)
  qed
  then show "memInv (msRemove ek m)" "memAbs (msRemove ek m) = filter (\<lambda>d. d_eventKey d \<noteq> ek) (memAbs m)"
    "ms_retention (msRemove ek m) = ms_retention m" by (simp_all add: memAbs_def filter_map o_def)
qed

lemma msPrune_ok:
  assumes inv: "memInv m" and s: "CHR 0x00 \<notin> set s"
  shows "memInv (msPrune s sc m)" and "memAbs (msPrune s sc m) = trimScope (ms_retention m) s sc (memAbs m)"
    and "ms_retention (msPrune s sc m) = ms_retention m"
proof -
  have eq: "msPrune s sc m = msPruneKeys (scopeKey s sc) (scopeKeys (scopeKey s sc) m) m"
    by (auto simp: msPrune_def scopeKeys_def msPruneKeys_def split: option.splits)
  note p = msPruneKeys_ok [OF inv refl, of "scopeKey s sc"]
  show "memInv (msPrune s sc m)" "ms_retention (msPrune s sc m) = ms_retention m" using p by (simp_all add: eq)
  show "memAbs (msPrune s sc m) = trimScope (ms_retention m) s sc (memAbs m)"
    using p(2) trim_keyed [OF inv s, of sc "ms_retention m"] by (simp add: eq memAbs_def)
qed

lemma msScopeRows_eq:
  assumes inv: "memInv m" and s: "CHR 0x00 \<notin> set s"
  shows "msScopeRows s sc m = filter (inScope s sc) (memRows m)"
proof -
  have "List.map_filter (js_get (ms_rows m)) (map d_eventKey xs) = xs" if "set xs \<subseteq> set (memRows m)" for xs
    using that by (induction xs) (simp_all add: map_filter_simps mem_lookup [OF inv])
  from this [of "filter (keyedBy (scopeKey s sc)) (memRows m)"]
  have "msScopeRows s sc m = filter (keyedBy (scopeKey s sc)) (memRows m)"
    by (simp add: msScopeRows_def memInvD(5) [OF inv])
  also have "\<dots> = filter (inScope s sc) (memRows m)"
    using keyedBy_scope [OF s memInvD(7) [OF inv]] by (intro filter_cong) auto
  finally show ?thesis .
qed

lemma sorted_rows:
  assumes "increasing xs"
  shows "map withoutId (sort_key bySeq (filter P xs)) = sort_key d_seq (map withoutId (filter P xs))"
    and "map withoutId (sort_key byPts (filter P xs)) = sort_key d_pts (map withoutId (filter P xs))"
proof -
  have "increasing (filter P xs)" by (rule increasing_filter [OF assms])
  note sort_by_id [OF this, of d_seq] sort_by_id [OF this, of d_pts]
  then show "map withoutId (sort_key bySeq (filter P xs)) = sort_key d_seq (map withoutId (filter P xs))"
    and "map withoutId (sort_key byPts (filter P xs)) = sort_key d_pts (map withoutId (filter P xs))"
    unfolding bySeq_def byPts_def by (simp_all add: map_sort_key [where h = withoutId])
qed

lemma head_map: "(case map f xs of [] \<Rightarrow> None | x # _ \<Rightarrow> Some x) = map_option f (case xs of [] \<Rightarrow> None | x # _ \<Rightarrow> Some x)"
  by (cases xs) simp_all

lemma inScope_withoutId [simp]: "inScope s sc (withoutId r) = inScope s sc r" "changedRow s date (withoutId r) = changedRow s date r"
  by (simp_all add: inScope_def changedRow_def)

interpretation memory: update_store memRun "\<lambda>m. memInv m \<and> ms_retention m = n" memAbs n
proof
  fix m :: "'a logStore" and op :: "'a storeOp"
  assume a: "memInv m \<and> ms_retention m = n" and op: "plainOp op"
  note inv = conjunct1 [OF a] and n = conjunct2 [OF a]
  note inc = memInvD(2) [OF inv]
  note mod = msModify_ok [OF inv] msMarkPublished_def msClaim_def msSetPayload_def
  have "memInv (snd (memRun op m)) \<and> ms_retention (snd (memRun op m)) = n \<and>
    fst (memRun op m) = fst (specRun n op (memAbs m)) \<and> memAbs (snd (memRun op m)) = snd (specRun n op (memAbs m))"
  proof (cases op)
    case (StoreGet ek)
    then show ?thesis using inv n by (simp add: memRun_def specRun_def msGet_def mem_find_abs)
  next
    case (StoreCreate d)
    then have s: "CHR 0x00 \<notin> set (d_session d)" using op by (simp add: plainOp_def)
    show ?thesis using msCreate_ok [OF inv s] n StoreCreate by simp
  next
    case (StoreMarkPublished ek)
    show ?thesis unfolding StoreMarkPublished using msModify_ok [OF inv, of "\<lambda>r. r\<lparr>d_published := True\<rparr>" "\<lambda>d. d\<lparr>d_published := True\<rparr>" ek] n
      by (simp add: memRun_def specRun_def msMarkPublished_def newDelivery.defs)
  next
    case (StoreClaim ek t)
    show ?thesis unfolding StoreClaim using msModify_ok [OF inv, of "\<lambda>r. r\<lparr>d_claimedAt := Some t\<rparr>" "\<lambda>d. d\<lparr>d_claimedAt := Some t\<rparr>" ek] n
      by (simp add: memRun_def specRun_def msClaim_def newDelivery.defs)
  next
    case (StoreSetPayload ek p)
    show ?thesis unfolding StoreSetPayload using msModify_ok [OF inv, of "\<lambda>r. r\<lparr>d_payload := Some p\<rparr>" "\<lambda>d. d\<lparr>d_payload := Some p\<rparr>" ek] n
      by (simp add: memRun_def specRun_def msSetPayload_def newDelivery.defs)
  next
    case (StoreRemove ek)
    then show ?thesis using msRemove_ok [OF inv, of ek] n by (simp add: memRun_def specRun_def)
  next
    case (StoreGetPending s)
    have "map withoutId (msGetPending s m) = sort_key d_seq (filter (\<lambda>d. d_session d = s \<and> \<not> d_published d) (memAbs m))"
      unfolding msGetPending_def memRows_def [symmetric] sorted_rows [OF inc] memAbs_def by (simp add: filter_map o_def)
    then show ?thesis using inv n StoreGetPending by (simp add: memRun_def specRun_def)
  next
    case (StoreGetAfter s sc pts limit)
    then have "CHR 0x00 \<notin> set s" using op by (simp add: plainOp_def)
    note r = msScopeRows_eq [OF inv this, of sc]
    have "map withoutId (msGetAfter s sc pts limit m) =
        take (limitOf limit) (sort_key d_pts (filter (\<lambda>d. inScope s sc d \<and> pts < d_pts d) (memAbs m)))"
      unfolding msGetAfter_def r filter_filter take_map [symmetric] sorted_rows [OF inc] memAbs_def by (simp add: filter_map o_def)
    then show ?thesis using inv n StoreGetAfter by (simp add: memRun_def specRun_def)
  next
    case (StoreGetFirst s sc)
    then have "CHR 0x00 \<notin> set s" using op by (simp add: plainOp_def)
    note r = msScopeRows_eq [OF inv this, of sc]
    have "map_option withoutId (msGetFirst s sc m) =
        (case sort_key d_pts (filter (inScope s sc) (memAbs m)) of [] \<Rightarrow> None | d # _ \<Rightarrow> Some d)"
      unfolding msGetFirst_def r head_map [symmetric] sorted_rows [OF inc] memAbs_def by (simp add: filter_map o_def)
    then show ?thesis using inv n StoreGetFirst by (simp add: memRun_def specRun_def)
  next
    case (StoreGetSince s date limit)
    have "map withoutId (msGetSince s date limit m) =
        take (limitOf limit) (sort_key d_seq (filter (\<lambda>d. d_session d = s \<and> date \<le> d_date d) (memAbs m)))"
      unfolding msGetSince_def memRows_def [symmetric] take_map [symmetric] sorted_rows [OF inc] memAbs_def by (simp add: filter_map o_def)
    then show ?thesis using inv n StoreGetSince by (simp add: memRun_def specRun_def)
  next
    case (StoreGetChanged s date)
    have "map (\<lambda>(sc, pts, _). (sc, pts)) (msGetChanged s date m) = specChanged (filter (changedRow s date) (memAbs m))"
      unfolding msGetChanged_def memRows_def [symmetric] changedStep_fold [OF inc] changedList_first [OF increasing_filter [OF inc]]
        changedList_spec memAbs_def by (simp add: filter_map o_def)
    then show ?thesis using inv n StoreGetChanged by (simp add: memRun_def specRun_def)
  next
    case (StorePrune s sc)
    then have "CHR 0x00 \<notin> set s" using op by (simp add: plainOp_def)
    from msPrune_ok [OF inv this, of sc] n StorePrune show ?thesis by (simp add: memRun_def specRun_def)
  qed
  then show "memInv (snd (memRun op m)) \<and> ms_retention (snd (memRun op m)) = n"
    "fst (memRun op m) = fst (specRun n op (memAbs m))" "memAbs (snd (memRun op m)) = snd (specRun n op (memAbs m))"
    by simp_all
qed

lemma newLogStore_ok: "memInv (newLogStore r) \<and> ms_retention (newLogStore r) = normalizeRetention r"
  "memAbs (newLogStore r) = []"
  by (simp_all add: newLogStore_def memInv_def memRows_def memAbs_def scopeKeys_def)

end
