(* ===== verification/Update_Store_Database.thy ===== *)
theory Update_Store_Database
  imports Update_Store_Memory "HOL-Library.Multiset"
begin

text \<open>
  The database backend (\<open>packages/update-store-database/src/index.ts\<close>). The \<open>Database\<close> of the
  cordis plugin and MessagePack are parameters: \<open>deliveryDb\<close> holds the calls the backend makes (a
  where clause is a predicate on rows, an order a sort key), \<open>dbLaws\<close> what a table with an
  auto-increment key answers to them. A transaction is one step. \<open>dbRun\<close> is the interface without
  message ids; it implements the contract \<open>update_store\<close> whenever no batch slack is configured, so
  both backends answer alike.
\<close>

section \<open>The database\<close>

type_synonym record_row = "bytes storedDelivery"

record 'db deliveryDb =
  db_get :: "'db \<Rightarrow> (record_row \<Rightarrow> bool) \<Rightarrow> record_row list"
  db_create :: "bytes newDelivery \<Rightarrow> 'db \<Rightarrow> record_row \<times> 'db"
  db_set :: "(record_row \<Rightarrow> bool) \<Rightarrow> (record_row \<Rightarrow> record_row) \<Rightarrow> 'db \<Rightarrow> 'db"
  db_remove :: "(record_row \<Rightarrow> bool) \<Rightarrow> 'db \<Rightarrow> nat \<times> 'db"
  db_select :: "'db \<Rightarrow> (record_row \<Rightarrow> bool) \<Rightarrow> (record_row \<Rightarrow> int \<times> int) \<Rightarrow> nat \<Rightarrow> nat option \<Rightarrow> record_row list"
  db_group :: "'db \<Rightarrow> (record_row \<Rightarrow> bool) \<Rightarrow> scopeUpdate list"
  db_count :: "'db \<Rightarrow> (record_row \<Rightarrow> bool) \<Rightarrow> nat"

text \<open>\<open>rows db\<close> is the table in the order of its primary key.\<close>

definition readLaws :: "'db deliveryDb \<Rightarrow> ('db \<Rightarrow> bool) \<Rightarrow> ('db \<Rightarrow> record_row list) \<Rightarrow> bool" where
  "readLaws D valid rows \<longleftrightarrow> (\<forall>db. valid db \<longrightarrow> increasing (rows db) \<and>
     (\<forall>w. mset (db_get D db w) = mset (filter w (rows db))) \<and>
     (\<forall>w key off limit. db_select D db w key off limit =
        (case limit of None \<Rightarrow> id | Some n \<Rightarrow> take n) (drop off (sort_key key (filter w (rows db))))) \<and>
     (\<forall>w. db_count D db w = length (filter w (rows db))) \<and>
     (\<forall>w. distinct (map fst (db_group D db w)) \<and> set (db_group D db w) =
        {(sc, Max (d_pts ` {r \<in> set (rows db). w r \<and> d_scope r = sc}), Min (d_messageId ` {r \<in> set (rows db). w r \<and> d_scope r = sc}))
          | sc. \<exists>r \<in> set (rows db). w r \<and> d_scope r = sc}))"

definition writeLaws :: "'db deliveryDb \<Rightarrow> ('db \<Rightarrow> bool) \<Rightarrow> ('db \<Rightarrow> record_row list) \<Rightarrow> bool" where
  "writeLaws D valid rows \<longleftrightarrow> (\<forall>db. valid db \<longrightarrow>
     (\<forall>d. valid (snd (db_create D d db)) \<and> (\<exists>i. fst (db_create D d db) = withId d i) \<and>
        rows (snd (db_create D d db)) = rows db @ [fst (db_create D d db)]) \<and>
     (\<forall>w f. (\<forall>r. d_messageId (f r) = d_messageId r) \<longrightarrow> valid (db_set D w f db) \<and>
        rows (db_set D w f db) = map (\<lambda>r. if w r then f r else r) (rows db)) \<and>
     (\<forall>w. valid (snd (db_remove D w db)) \<and> rows (snd (db_remove D w db)) = filter (\<lambda>r. \<not> w r) (rows db) \<and>
        fst (db_remove D w db) = length (filter w (rows db))))"

definition dbLaws :: "'db deliveryDb \<Rightarrow> ('db \<Rightarrow> bool) \<Rightarrow> ('db \<Rightarrow> record_row list) \<Rightarrow> bool" where
  "dbLaws D valid rows \<longleftrightarrow> readLaws D valid rows \<and> writeLaws D valid rows"

definition packLaws :: "('p \<Rightarrow> bytes) \<Rightarrow> (bytes \<Rightarrow> 'p) \<Rightarrow> bool" where
  "packLaws encode decode \<longleftrightarrow> (\<forall>p. decode (encode p) = p)"

section \<open>The backend\<close>

definition PRUNE_BATCH_SLACK :: nat where "PRUNE_BATCH_SLACK = 512"
definition DEFAULT_RETENTION_SECONDS :: int where "DEFAULT_RETENTION_SECONDS = 3 * 24 * 3600"

record 'db dbStore =
  dbs_db :: 'db
  dbs_retention :: nat
  dbs_retentionSeconds :: nat
  dbs_counts :: "(string, nat) jsmap"

definition newDbStore :: "'db \<Rightarrow> int option \<Rightarrow> int option \<Rightarrow> 'db dbStore" where
  "newDbStore db retention retentionSeconds = \<lparr>dbs_db = db,
     dbs_retention = nat (case retention of Some n \<Rightarrow> n | None \<Rightarrow> 10000),
     dbs_retentionSeconds = nat (case retentionSeconds of Some n \<Rightarrow> n | None \<Rightarrow> DEFAULT_RETENTION_SECONDS),
     dbs_counts = []\<rparr>"

definition mapPayload :: "('a \<Rightarrow> 'b) \<Rightarrow> 'a newDelivery \<Rightarrow> 'b newDelivery" where
  "mapPayload f d = \<lparr>d_eventKey = d_eventKey d, d_session = d_session d, d_scope = d_scope d, d_pts = d_pts d,
     d_ptsCount = d_ptsCount d, d_seq = d_seq d, d_date = d_date d, d_published = d_published d,
     d_claimedAt = d_claimedAt d, d_payload = map_option f (d_payload d)\<rparr>"

definition encodeNewRow :: "('p \<Rightarrow> bytes) \<Rightarrow> 'p newDelivery \<Rightarrow> bytes newDelivery" where
  "encodeNewRow encode d = mapPayload encode d"

definition decodeRow :: "(bytes \<Rightarrow> 'p) \<Rightarrow> record_row \<Rightarrow> 'p storedDelivery" where
  "decodeRow decode row = withId (mapPayload decode (withoutId row)) (d_messageId row)"

definition hasKey :: "string \<Rightarrow> record_row \<Rightarrow> bool" where
  "hasKey eventKey row \<longleftrightarrow> d_eventKey row = eventKey"

definition dbGet :: "'db deliveryDb \<Rightarrow> (bytes \<Rightarrow> 'p) \<Rightarrow> string \<Rightarrow> 'db dbStore \<Rightarrow> 'p storedDelivery option" where
  "dbGet D decode eventKey st = (case db_get D (dbs_db st) (hasKey eventKey) of
       [] \<Rightarrow> None | row # _ \<Rightarrow> Some (decodeRow decode row))"

definition newestFirst :: "record_row \<Rightarrow> int \<times> int" where
  "newestFirst row = (- d_messageId row, 0)"

definition dbPruneTo :: "'db deliveryDb \<Rightarrow> string \<Rightarrow> string \<Rightarrow> nat \<Rightarrow> 'db \<Rightarrow> 'db" where
  "dbPruneTo D session scope keep db =
    (case db_select D db (inScope session scope) newestFirst keep (Some 1) of
       [] \<Rightarrow> db
     | oldestOverflow # _ \<Rightarrow>
         snd (db_remove D (\<lambda>row. inScope session scope row \<and> d_messageId row \<le> d_messageId oldestOverflow) db))"

definition pruneSlack :: "nat \<Rightarrow> nat" where
  "pruneSlack retention = (if retention \<ge> 4 * PRUNE_BATCH_SLACK then PRUNE_BATCH_SLACK else 0)"

definition dbTrim :: "'db deliveryDb \<Rightarrow> string \<Rightarrow> string \<Rightarrow> 'db dbStore \<Rightarrow> 'db dbStore" where
  "dbTrim D session scope st =
    (let key = scopeKey session scope in
     if dbs_retention st = 0
     then st\<lparr>dbs_db := snd (db_remove D (inScope session scope) (dbs_db st)), dbs_counts := js_delete key (dbs_counts st)\<rparr>
     else
       let count = (case js_get (dbs_counts st) key of
               None \<Rightarrow> db_count D (dbs_db st) (inScope session scope) | Some known \<Rightarrow> known + 1)
       in if count \<le> dbs_retention st + pruneSlack (dbs_retention st)
          then st\<lparr>dbs_counts := js_set key count (dbs_counts st)\<rparr>
          else st\<lparr>dbs_db := dbPruneTo D session scope (dbs_retention st) (dbs_db st),
                  dbs_counts := js_set key (dbs_retention st) (dbs_counts st)\<rparr>)"

definition dbCreate :: "'db deliveryDb \<Rightarrow> ('p \<Rightarrow> bytes) \<Rightarrow> (bytes \<Rightarrow> 'p) \<Rightarrow> 'p newDelivery \<Rightarrow> 'db dbStore \<Rightarrow> 'p storedDelivery \<times> 'db dbStore" where
  "dbCreate D encode decode d st = (case db_get D (dbs_db st) (hasKey (d_eventKey d)) of
       existing # _ \<Rightarrow> (decodeRow decode existing, st)
     | [] \<Rightarrow>
         (case db_create D (encodeNewRow encode d) (dbs_db st) of
            (row, db') \<Rightarrow> (decodeRow decode row, dbTrim D (d_session d) (d_scope d) (st\<lparr>dbs_db := db'\<rparr>))))"

definition dbModify :: "'db deliveryDb \<Rightarrow> string \<Rightarrow> (record_row \<Rightarrow> record_row) \<Rightarrow> 'db dbStore \<Rightarrow> 'db dbStore" where
  "dbModify D eventKey f st = st\<lparr>dbs_db := db_set D (hasKey eventKey) f (dbs_db st)\<rparr>"

definition dbMarkPublished :: "'db deliveryDb \<Rightarrow> string \<Rightarrow> 'db dbStore \<Rightarrow> 'db dbStore" where
  "dbMarkPublished D eventKey = dbModify D eventKey (\<lambda>row. row\<lparr>d_published := True\<rparr>)"

definition dbClaim :: "'db deliveryDb \<Rightarrow> string \<Rightarrow> int \<Rightarrow> 'db dbStore \<Rightarrow> 'db dbStore" where
  "dbClaim D eventKey claimedAt = dbModify D eventKey (\<lambda>row. row\<lparr>d_claimedAt := Some claimedAt\<rparr>)"

definition dbSetPayload :: "'db deliveryDb \<Rightarrow> ('p \<Rightarrow> bytes) \<Rightarrow> string \<Rightarrow> 'p \<Rightarrow> 'db dbStore \<Rightarrow> 'db dbStore" where
  "dbSetPayload D encode eventKey payload = dbModify D eventKey (\<lambda>row. row\<lparr>d_payload := Some (encode payload)\<rparr>)"

definition dbRemove :: "'db deliveryDb \<Rightarrow> string \<Rightarrow> 'db dbStore \<Rightarrow> 'db dbStore" where
  "dbRemove D eventKey st = st\<lparr>dbs_db := snd (db_remove D (hasKey eventKey) (dbs_db st))\<rparr>"

definition dbGetPending :: "'db deliveryDb \<Rightarrow> (bytes \<Rightarrow> 'p) \<Rightarrow> string \<Rightarrow> 'db dbStore \<Rightarrow> 'p storedDelivery list" where
  "dbGetPending D decode session st = map (decodeRow decode)
     (db_select D (dbs_db st) (\<lambda>row. d_session row = session \<and> \<not> d_published row) bySeq 0 None)"

definition dbGetAfter :: "'db deliveryDb \<Rightarrow> (bytes \<Rightarrow> 'p) \<Rightarrow> string \<Rightarrow> string \<Rightarrow> int \<Rightarrow> int \<Rightarrow> 'db dbStore \<Rightarrow> 'p storedDelivery list" where
  "dbGetAfter D decode session scope pts limit st = map (decodeRow decode)
     (db_select D (dbs_db st) (\<lambda>row. inScope session scope row \<and> pts < d_pts row) byPts 0 (Some (limitOf limit)))"

definition dbGetFirst :: "'db deliveryDb \<Rightarrow> (bytes \<Rightarrow> 'p) \<Rightarrow> string \<Rightarrow> string \<Rightarrow> 'db dbStore \<Rightarrow> 'p storedDelivery option" where
  "dbGetFirst D decode session scope st = (case db_select D (dbs_db st) (inScope session scope) byPts 0 (Some 1) of
       [] \<Rightarrow> None | row # _ \<Rightarrow> Some (decodeRow decode row))"

definition dbGetSince :: "'db deliveryDb \<Rightarrow> (bytes \<Rightarrow> 'p) \<Rightarrow> string \<Rightarrow> int \<Rightarrow> int \<Rightarrow> 'db dbStore \<Rightarrow> 'p storedDelivery list" where
  "dbGetSince D decode session date limit st = map (decodeRow decode)
     (db_select D (dbs_db st) (\<lambda>row. d_session row = session \<and> date \<le> d_date row) bySeq 0 (Some (limitOf limit)))"

definition dbGetChanged :: "'db deliveryDb \<Rightarrow> string \<Rightarrow> int \<Rightarrow> 'db dbStore \<Rightarrow> scopeUpdate list" where
  "dbGetChanged D session date st = sort_key (\<lambda>(scope, pts, first). first)
     (filter (\<lambda>(scope, pts, first). isChannelScope scope)
       (db_group D (dbs_db st) (\<lambda>row. d_session row = session \<and> date \<le> d_date row \<and> 0 < d_ptsCount row \<and> d_payload row \<noteq> None)))"

definition dbPrune :: "'db deliveryDb \<Rightarrow> string \<Rightarrow> string \<Rightarrow> 'db dbStore \<Rightarrow> 'db dbStore" where
  "dbPrune D session scope st =
    (let key = scopeKey session scope; st1 = st\<lparr>dbs_counts := js_delete key (dbs_counts st)\<rparr> in
     if dbs_retention st = 0
     then st1\<lparr>dbs_db := snd (db_remove D (inScope session scope) (dbs_db st))\<rparr>
     else let db = dbPruneTo D session scope (dbs_retention st) (dbs_db st)
          in st1\<lparr>dbs_db := db, dbs_counts := js_set key (db_count D db (inScope session scope)) (dbs_counts st1)\<rparr>)"

text \<open>The sweep by age, in milliseconds of the clock.\<close>

definition dbPruneExpired :: "'db deliveryDb \<Rightarrow> int \<Rightarrow> 'db dbStore \<Rightarrow> nat \<times> 'db dbStore" where
  "dbPruneExpired D now st =
    (if dbs_retentionSeconds st = 0 then (0, st)
     else case db_remove D (\<lambda>row. d_date row < now div 1000 - int (dbs_retentionSeconds st)) (dbs_db st) of
            (removed, db) \<Rightarrow> (removed, st\<lparr>dbs_db := db\<rparr>))"

definition dbRun :: "'db deliveryDb \<Rightarrow> ('p \<Rightarrow> bytes) \<Rightarrow> (bytes \<Rightarrow> 'p) \<Rightarrow> 'p storeOp \<Rightarrow> 'db dbStore \<Rightarrow> 'p storeAnswer \<times> 'db dbStore" where
  "dbRun D encode decode op st = (case op of
     StoreGet ek \<Rightarrow> (RowAnswer (map_option withoutId (dbGet D decode ek st)), st)
   | StoreCreate d \<Rightarrow> (case dbCreate D encode decode d st of (row, st') \<Rightarrow> (RowAnswer (Some (withoutId row)), st'))
   | StoreMarkPublished ek \<Rightarrow> (NoAnswer, dbMarkPublished D ek st)
   | StoreClaim ek t \<Rightarrow> (NoAnswer, dbClaim D ek t st)
   | StoreSetPayload ek p \<Rightarrow> (NoAnswer, dbSetPayload D encode ek p st)
   | StoreRemove ek \<Rightarrow> (NoAnswer, dbRemove D ek st)
   | StoreGetPending s \<Rightarrow> (RowsAnswer (map withoutId (dbGetPending D decode s st)), st)
   | StoreGetAfter s sc pts limit \<Rightarrow> (RowsAnswer (map withoutId (dbGetAfter D decode s sc pts limit st)), st)
   | StoreGetFirst s sc \<Rightarrow> (RowAnswer (map_option withoutId (dbGetFirst D decode s sc st)), st)
   | StoreGetSince s date limit \<Rightarrow> (RowsAnswer (map withoutId (dbGetSince D decode s date limit st)), st)
   | StoreGetChanged s date \<Rightarrow> (ScopesAnswer (map (\<lambda>(sc, pts, _). (sc, pts)) (dbGetChanged D s date st)), st)
   | StorePrune s sc \<Rightarrow> (NoAnswer, dbPrune D s sc st))"

end
