(* ===== verification/Update_Store_Safety.thy ===== *)
theory Update_Store_Safety
  imports Update_Store_Database
begin

text \<open>
  The database backend implements the contract of the update log (under the laws of the database
  and of MessagePack), so the two backends answer alike; how many rows of a scope the database
  keeps; and a table for which the laws hold.
\<close>

section \<open>Encoded rows\<close>

lemma mapPayload_fields [simp]:
  "d_eventKey (mapPayload f d) = d_eventKey d" "d_session (mapPayload f d) = d_session d"
  "d_scope (mapPayload f d) = d_scope d" "d_pts (mapPayload f d) = d_pts d" "d_ptsCount (mapPayload f d) = d_ptsCount d"
  "d_seq (mapPayload f d) = d_seq d" "d_date (mapPayload f d) = d_date d" "d_published (mapPayload f d) = d_published d"
  "d_claimedAt (mapPayload f d) = d_claimedAt d" "d_payload (mapPayload f d) = map_option f (d_payload d)"
  by (simp_all add: mapPayload_def)

definition shown :: "(bytes \<Rightarrow> 'p) \<Rightarrow> record_row \<Rightarrow> 'p row" where
  "shown decode r = mapPayload decode (withoutId r)"

lemma shown_fields [simp]:
  "d_eventKey (shown dec r) = d_eventKey r" "d_session (shown dec r) = d_session r" "d_scope (shown dec r) = d_scope r"
  "d_pts (shown dec r) = d_pts r" "d_ptsCount (shown dec r) = d_ptsCount r" "d_seq (shown dec r) = d_seq r"
  "d_date (shown dec r) = d_date r" "d_published (shown dec r) = d_published r" "d_claimedAt (shown dec r) = d_claimedAt r"
  "d_payload (shown dec r) = map_option dec (d_payload r)" "inScope s sc (shown dec r) = inScope s sc r"
  "changedRow s date (shown dec r) = changedRow s date r" "withoutId (decodeRow dec r) = shown dec r"
  by (simp_all add: shown_def inScope_def changedRow_def decodeRow_def)

lemma shown_encoded: "packLaws enc dec \<Longrightarrow> shown dec (withId (encodeNewRow enc d) i) = d"
  by (cases "d_payload d") (simp_all add: shown_def encodeNewRow_def mapPayload_def packLaws_def)

section \<open>The laws, as rules\<close>

text \<open>\<open>tableAt D valid rows db\<close>: the laws hold and the table is in a valid state.\<close>

definition tableAt :: "'db deliveryDb \<Rightarrow> ('db \<Rightarrow> bool) \<Rightarrow> ('db \<Rightarrow> record_row list) \<Rightarrow> 'db \<Rightarrow> bool" where
  "tableAt D valid rows db \<longleftrightarrow> dbLaws D valid rows \<and> valid db"

lemma table_increasing: "tableAt D valid rows db \<Longrightarrow> increasing (rows db)"
  by (simp add: tableAt_def dbLaws_def readLaws_def)

lemma get_rows: "tableAt D valid rows db \<Longrightarrow> mset (db_get D db w) = mset (filter w (rows db))"
  by (simp add: tableAt_def dbLaws_def readLaws_def)

lemma select_rows: "tableAt D valid rows db \<Longrightarrow> db_select D db w key off limit =
    (case limit of None \<Rightarrow> id | Some n \<Rightarrow> take n) (drop off (sort_key key (filter w (rows db))))"
  by (simp add: tableAt_def dbLaws_def readLaws_def)

lemma count_rows: "tableAt D valid rows db \<Longrightarrow> db_count D db w = length (filter w (rows db))"
  by (simp add: tableAt_def dbLaws_def readLaws_def)

lemma group_rows:
  assumes "tableAt D valid rows db"
  shows "distinct (map fst (db_group D db w)) \<and> set (db_group D db w) =
        {(sc, Max (d_pts ` {r \<in> set (rows db). w r \<and> d_scope r = sc}), Min (d_messageId ` {r \<in> set (rows db). w r \<and> d_scope r = sc}))
          | sc. \<exists>r \<in> set (rows db). w r \<and> d_scope r = sc}"
proof -
  have "readLaws D valid rows" "valid db" using assms by (simp_all add: tableAt_def dbLaws_def)
  then show ?thesis unfolding readLaws_def by (elim allE [of _ db] impE conjE allE [of _ w]) (assumption, intro conjI)
qed

lemma create_rows:
  assumes "tableAt D valid rows db"
  obtains i where "fst (db_create D d db) = withId d i" "tableAt D valid rows (snd (db_create D d db))"
    "rows (snd (db_create D d db)) = rows db @ [withId d i]"
proof -
  have "valid (snd (db_create D d db)) \<and> (\<exists>i. fst (db_create D d db) = withId d i) \<and>
      rows (snd (db_create D d db)) = rows db @ [fst (db_create D d db)]"
    using assms unfolding tableAt_def dbLaws_def writeLaws_def by blast
  with assms that show ?thesis by (auto simp: tableAt_def)
qed

lemma set_rows: "tableAt D valid rows db \<Longrightarrow> (\<And>r. d_messageId (f r) = d_messageId r) \<Longrightarrow>
    tableAt D valid rows (db_set D w f db) \<and> rows (db_set D w f db) = map (\<lambda>r. if w r then f r else r) (rows db)"
  by (simp add: tableAt_def dbLaws_def writeLaws_def)

lemma remove_rows: "tableAt D valid rows db \<Longrightarrow> tableAt D valid rows (snd (db_remove D w db)) \<and>
    rows (snd (db_remove D w db)) = filter (\<lambda>r. \<not> w r) (rows db)"
  by (simp add: tableAt_def dbLaws_def writeLaws_def)

text \<open>The only row with a key is found by it.\<close>

lemma get_by_key:
  assumes v: "tableAt D valid rows db" and d: "distinct (map d_eventKey (rows db))"
  shows "(case db_get D db (hasKey ek) of [] \<Rightarrow> None | r # _ \<Rightarrow> Some r) = find (\<lambda>r. d_eventKey r = ek) (rows db)"
proof -
  have "length (filter (hasKey ek) xs) \<le> 1" if "distinct (map d_eventKey xs)" for xs
    using that
  proof (induction xs)
    case (Cons x xs)
    then have "filter (hasKey (d_eventKey x)) xs = []" by (auto simp: hasKey_def filter_empty_conv image_iff)
    with Cons show ?case by (auto simp: hasKey_def [of _ x])
  qed simp
  then have len: "length (filter (hasKey ek) (rows db)) \<le> 1" using d by blast
  have find: "find (\<lambda>r. d_eventKey r = ek) xs = (case filter (hasKey ek) xs of [] \<Rightarrow> None | r # _ \<Rightarrow> Some r)" for xs
    by (induction xs) (auto simp: hasKey_def)
  show ?thesis
  proof (cases "filter (hasKey ek) (rows db)")
    case Nil
    with get_rows [OF v, of "hasKey ek"] show ?thesis by (simp add: find)
  next
    case (Cons r rs)
    with len have "filter (hasKey ek) (rows db) = [r]" by simp
    with get_rows [OF v, of "hasKey ek"] show ?thesis by (simp add: find)
  qed
qed

text \<open>Cutting a scope to its newest rows.\<close>

lemma newest_order:
  assumes "increasing xs"
  shows "sort_key newestFirst xs = rev xs"
proof (rule sort_key_inj_key_eq)
  show "inj_on newestFirst (set xs)"
    using increasing_distinct [OF assms] by (auto simp: newestFirst_def distinct_map inj_on_def)
  show "sorted (map newestFirst (rev xs))"
    using assms by (induction xs) (auto simp: newestFirst_def sorted_append less_imp_le)
qed simp

lemma pruneTo_rows:
  assumes v: "tableAt D valid rows db"
  shows "tableAt D valid rows (dbPruneTo D s sc keep db)" and "rows (dbPruneTo D s sc keep db) =
    dropFirst (inScope s sc) (length (filter (inScope s sc) (rows db)) - keep) (rows db)"
proof -
  let ?P = "inScope s sc" and ?ys = "filter (inScope s sc) (rows db)"
  have inc: "increasing ?ys" by (rule increasing_filter [OF table_increasing [OF v]])
  have sel: "db_select D db ?P newestFirst keep (Some 1) = take 1 (drop keep (rev ?ys))"
    using select_rows [OF v] newest_order [OF inc] by simp
  have "tableAt D valid rows (dbPruneTo D s sc keep db) \<and> rows (dbPruneTo D s sc keep db) = dropFirst ?P (length ?ys - keep) (rows db)"
  proof (cases "length ?ys \<le> keep")
    case True
    then show ?thesis using sel v by (simp add: dbPruneTo_def)
  next
    case False
    define m where "m = length ?ys - keep"
    define o' where "o' = ?ys ! (m - 1)"
    have m: "0 < m" "m \<le> length ?ys" using False by (simp_all add: m_def)
    have "drop keep (rev ?ys) = rev (take m ?ys)" using False by (simp add: drop_rev m_def)
    moreover have "take m ?ys = take (m - 1) ?ys @ [o']"
      using m take_Suc_conv_app_nth [of "m - 1" ?ys] by (simp add: o'_def)
    ultimately have eq: "dbPruneTo D s sc keep db = snd (db_remove D (\<lambda>r. ?P r \<and> d_messageId r \<le> d_messageId o') db)"
      using sel by (simp add: dbPruneTo_def)
    have split: "?ys = take (m - 1) ?ys @ o' # drop m ?ys"
      using m id_take_nth_drop [of "m - 1" ?ys] by (simp add: o'_def)
    have inc': "increasing (take (m - 1) ?ys @ o' # drop m ?ys)" using inc split by simp
    have "?P r \<and> d_messageId r \<le> d_messageId o' \<longleftrightarrow> d_messageId r \<in> set (map d_messageId (take m ?ys))"
      if r: "r \<in> set (rows db)" for r
    proof
      assume a: "?P r \<and> d_messageId r \<le> d_messageId o'"
      with r have "r \<in> set (take (m - 1) ?ys @ o' # drop m ?ys)" unfolding split [symmetric] by simp
      with a inc' show "d_messageId r \<in> set (map d_messageId (take m ?ys))"
        unfolding \<open>take m ?ys = take (m - 1) ?ys @ [o']\<close> by force
    next
      assume "d_messageId r \<in> set (map d_messageId (take m ?ys))"
      then obtain y where y: "y \<in> set (take m ?ys)" "d_messageId r = d_messageId y" by auto
      then have yr: "y \<in> set (rows db)" "?P y" by (auto dest: in_set_takeD)
      with r y(2) have "r = y" using increasing_distinct [OF table_increasing [OF v]]
        by (auto simp: distinct_map dest: inj_onD)
      moreover have "d_messageId y \<le> d_messageId o'"
        using y(1) inc' unfolding \<open>take m ?ys = take (m - 1) ?ys @ [o']\<close> by force
      ultimately show "?P r \<and> d_messageId r \<le> d_messageId o'" using yr by simp
    qed
    then have "filter (\<lambda>r. \<not> (?P r \<and> d_messageId r \<le> d_messageId o')) (rows db) = dropFirst ?P m (rows db)"
      unfolding dropFirst_filter [OF increasing_distinct [OF table_increasing [OF v]], of ?P m]
      by (intro filter_cong) auto
    then show ?thesis using remove_rows [OF v, of "\<lambda>r. ?P r \<and> d_messageId r \<le> d_messageId o'"] by (simp add: eq m_def)
  qed
  then show "tableAt D valid rows (dbPruneTo D s sc keep db)" "rows (dbPruneTo D s sc keep db) =
    dropFirst ?P (length ?ys - keep) (rows db)" by simp_all
qed

lemma dropFirst_all: "dropFirst P (length (filter P xs)) xs = filter (\<lambda>x. \<not> P x) xs"
proof (induction xs)
  case (Cons x xs)
  show ?case
  proof (cases "P x")
    case False
    then have "dropFirst P n (x # xs) = x # dropFirst P n xs" for n by (cases n) simp_all
    with Cons False show ?thesis by simp
  qed (use Cons in simp)
qed simp

section \<open>The operations\<close>

definition dbInv :: "'db deliveryDb \<Rightarrow> ('db \<Rightarrow> bool) \<Rightarrow> ('db \<Rightarrow> record_row list) \<Rightarrow> 'db dbStore \<Rightarrow> bool" where
  "dbInv D valid rows st \<longleftrightarrow> tableAt D valid rows (dbs_db st) \<and> distinct (map d_eventKey (rows (dbs_db st))) \<and>
     (\<forall>r \<in> set (rows (dbs_db st)). CHR 0x00 \<notin> set (d_session r)) \<and>
     (\<forall>s sc c. CHR 0x00 \<notin> set s \<longrightarrow> js_get (dbs_counts st) (scopeKey s sc) = Some c \<longrightarrow>
        length (filter (inScope s sc) (rows (dbs_db st))) \<le> c)"

definition dbAbs :: "('db \<Rightarrow> record_row list) \<Rightarrow> (bytes \<Rightarrow> 'p) \<Rightarrow> 'db dbStore \<Rightarrow> 'p row list" where
  "dbAbs rows decode st = map (shown decode) (rows (dbs_db st))"

text \<open>Dropping rows keeps the invariant, as long as the counts stay upper bounds.\<close>

lemma length_filter_sub: "length (filter P (dropFirst Q n xs)) \<le> length (filter P xs)"
  by (induction Q n xs rule: dropFirst.induct) auto

lemma distinct_dropFirst: "distinct (map f xs) \<Longrightarrow> distinct (map f (dropFirst P n xs))"
  by (simp add: dropFirst_filter distinct_map_filter)

lemma other_scope:
  assumes "inScope s sc \<noteq> (inScope s' sc' :: record_row \<Rightarrow> bool)"
  shows "filter (inScope s' sc') (dropFirst (inScope s sc) n xs) = filter (inScope s' sc') (xs :: record_row list)"
proof (rule filter_dropFirst_other)
  fix x assume "inScope s sc (x :: record_row)"
  with assms show "\<not> inScope s' sc' x" by (auto simp: inScope_def)
qed

text \<open>\<open>keptAs k xs ys\<close> for a scope: its oldest \<open>k\<close> rows are gone, within the configured bounds.\<close>

definition keptWindow :: "nat \<Rightarrow> string \<Rightarrow> string \<Rightarrow> record_row list \<Rightarrow> record_row list \<Rightarrow> bool" where
  "keptWindow retention s sc before after \<longleftrightarrow> (\<exists>k \<le> length (filter (inScope s sc) before).
     after = dropFirst (inScope s sc) k before \<and>
     length (filter (inScope s sc) after) \<le> retention + pruneSlack retention \<and>
     (k = 0 \<or> length (filter (inScope s sc) after) = retention))"

lemma keptWindow_strict:
  assumes "keptWindow retention s sc before after" and "pruneSlack retention = 0"
  shows "after = dropFirst (inScope s sc) (length (filter (inScope s sc) before) - retention) before"
proof -
  obtain k where k: "k \<le> length (filter (inScope s sc) before)" "after = dropFirst (inScope s sc) k before"
    "length (filter (inScope s sc) after) \<le> retention" "k = 0 \<or> length (filter (inScope s sc) after) = retention"
    using assms by (auto simp: keptWindow_def)
  have "length (filter (inScope s sc) after) = length (filter (inScope s sc) before) - k"
    by (simp add: k(2) filter_dropFirst)
  with k have "k = length (filter (inScope s sc) before) - retention" by auto
  with k(2) show ?thesis by simp
qed

lemma scope_count_set:
  assumes "CHR 0x00 \<notin> set s" and "CHR 0x00 \<notin> set s'" and "scopeKey s' sc' \<noteq> scopeKey s sc"
  shows "inScope s sc \<noteq> (inScope s' sc' :: record_row \<Rightarrow> bool)"
proof
  assume eq: "inScope s sc = (inScope s' sc' :: record_row \<Rightarrow> bool)"
  let ?r = "\<lparr>d_eventKey = [], d_session = s, d_scope = sc, d_pts = 0, d_ptsCount = 0, d_seq = 0, d_date = 0,
    d_published = False, d_claimedAt = None, d_payload = None, d_messageId = 0\<rparr> :: record_row"
  have "inScope s sc ?r" by (simp add: inScope_def)
  then have "inScope s' sc' ?r" by (simp add: eq)
  then show False using assms(3) by (simp add: inScope_def)
qed

text \<open>A store after its rows of one scope were cut and its count was set.\<close>

lemma cut_inv:
  assumes inv: "dbInv D valid rows st0" and old: "rows (dbs_db st0) = xs" and s: "CHR 0x00 \<notin> set s"
    and db: "tableAt D valid rows db'" and ys: "rows db' = dropFirst (inScope s sc) k xs"
    and counts: "\<And>s' sc' c. CHR 0x00 \<notin> set s' \<Longrightarrow> js_get (dbs_counts st') (scopeKey s' sc') = Some c \<Longrightarrow>
      scopeKey s' sc' = scopeKey s sc \<and> length (filter (inScope s sc) (rows db')) \<le> c \<or>
      scopeKey s' sc' \<noteq> scopeKey s sc \<and> js_get (dbs_counts st0) (scopeKey s' sc') = Some c"
    and st': "dbs_db st' = db'"
  shows "dbInv D valid rows st'"
proof -
  have sub: "set (rows db') \<subseteq> set xs" unfolding ys by (rule set_dropFirst)
  have "length (filter (inScope s' sc') (rows db')) \<le> c"
    if a: "CHR 0x00 \<notin> set s'" "js_get (dbs_counts st') (scopeKey s' sc') = Some c" for s' sc' c
    using counts [OF a]
  proof
    assume "scopeKey s' sc' = scopeKey s sc \<and> length (filter (inScope s sc) (rows db')) \<le> c"
    then show ?thesis using a(1) s by (simp add: scopeKey_inj)
  next
    assume b: "scopeKey s' sc' \<noteq> scopeKey s sc \<and> js_get (dbs_counts st0) (scopeKey s' sc') = Some c"
    then have "filter (inScope s' sc') (rows db') = filter (inScope s' sc') xs"
      unfolding ys using scope_count_set [OF s a(1)] by (intro other_scope) blast
    then show ?thesis using inv a(1) b old by (simp add: dbInv_def)
  qed
  moreover have "distinct (map d_eventKey (rows db'))" using inv old by (simp add: ys dbInv_def distinct_dropFirst)
  moreover have "\<forall>r \<in> set (rows db'). CHR 0x00 \<notin> set (d_session r)" using inv old sub by (auto simp: dbInv_def)
  ultimately show ?thesis using db st' by (simp add: dbInv_def)
qed

lemma dbTrim_ok:
  assumes inv: "dbInv D valid rows (st\<lparr>dbs_counts := cs\<rparr>)" and s: "CHR 0x00 \<notin> set s"
    and cs: "cs = js_delete (scopeKey s sc) (dbs_counts st)"
    and known: "\<And>c. js_get (dbs_counts st) (scopeKey s sc) = Some c \<Longrightarrow> length (filter (inScope s sc) (rows (dbs_db st))) \<le> c + 1"
  shows "dbInv D valid rows (dbTrim D s sc st)" and "dbs_retention (dbTrim D s sc st) = dbs_retention st"
    and "keptWindow (dbs_retention st) s sc (rows (dbs_db st)) (rows (dbs_db (dbTrim D s sc st)))"
proof -
  let ?P = "inScope s sc" and ?xs = "rows (dbs_db st)" and ?ret = "dbs_retention st" and ?st = "dbTrim D s sc st"
  have tab: "tableAt D valid rows (dbs_db st)" using inv by (simp add: dbInv_def)
  define count where "count = (case js_get (dbs_counts st) (scopeKey s sc) of
      None \<Rightarrow> db_count D (dbs_db st) ?P | Some known \<Rightarrow> known + 1)"
  have count: "length (filter ?P ?xs) \<le> count"
    using known count_rows [OF tab] by (auto simp: count_def split: option.splits)
  have "dbInv D valid rows ?st \<and> dbs_retention ?st = ?ret \<and> keptWindow ?ret s sc ?xs (rows (dbs_db ?st))"
  proof (cases "?ret = 0")
    case True
    then have eq: "?st = st\<lparr>dbs_db := snd (db_remove D ?P (dbs_db st)), dbs_counts := cs\<rparr>"
      by (simp add: dbTrim_def Let_def cs)
    note rm = remove_rows [OF tab, of ?P]
    have ys: "rows (dbs_db ?st) = dropFirst ?P (length (filter ?P ?xs)) ?xs" using rm by (simp add: eq dropFirst_all)
    have "dbInv D valid rows ?st"
      by (rule cut_inv [OF inv refl s, where db' = "dbs_db ?st" and k = "length (filter ?P ?xs)"])
        (use rm ys in \<open>auto simp: eq cs delete_conv' split: if_splits\<close>)
    moreover have "keptWindow ?ret s sc ?xs (rows (dbs_db ?st))"
      unfolding keptWindow_def ys using True by (intro exI [of _ "length (filter ?P ?xs)"]) (simp add: filter_dropFirst)
    ultimately show ?thesis by (simp add: eq)
  next
    case ret: False
    show ?thesis
    proof (cases "count \<le> ?ret + pruneSlack ?ret")
      case True
      then have eq: "?st = st\<lparr>dbs_counts := js_set (scopeKey s sc) count (dbs_counts st)\<rparr>"
        using ret by (simp add: dbTrim_def Let_def count_def)
      have "dbInv D valid rows ?st"
        by (rule cut_inv [OF inv refl s, where db' = "dbs_db ?st" and k = 0])
          (use tab count in \<open>auto simp: eq cs delete_conv' update_conv' split: if_splits\<close>)
      moreover have "keptWindow ?ret s sc ?xs (rows (dbs_db ?st))"
        unfolding keptWindow_def using True count by (intro exI [of _ 0]) (simp add: eq)
      ultimately show ?thesis by (simp add: eq)
    next
      case False
      then have eq: "?st = st\<lparr>dbs_db := dbPruneTo D s sc ?ret (dbs_db st), dbs_counts := js_set (scopeKey s sc) ?ret (dbs_counts st)\<rparr>"
        using ret by (simp add: dbTrim_def Let_def count_def)
      note pr = pruneTo_rows [OF tab, of s sc ?ret]
      have len: "length (filter ?P (rows (dbs_db ?st))) = length (filter ?P ?xs) - (length (filter ?P ?xs) - ?ret)"
        by (simp add: eq pr(2) filter_dropFirst)
      have "dbInv D valid rows ?st"
        by (rule cut_inv [OF inv refl s, where db' = "dbs_db ?st" and k = "length (filter ?P ?xs) - ?ret"])
          (use pr len in \<open>auto simp: eq cs delete_conv' update_conv' split: if_splits\<close>)
      moreover have "keptWindow ?ret s sc ?xs (rows (dbs_db ?st))"
        unfolding keptWindow_def using len pr(2) by (intro exI [of _ "length (filter ?P ?xs) - ?ret"]) (auto simp: eq)
      ultimately show ?thesis by (simp add: eq)
    qed
  qed
  then show "dbInv D valid rows ?st" "dbs_retention ?st = ?ret" "keptWindow ?ret s sc ?xs (rows (dbs_db ?st))" by simp_all
qed

lemma dbInvD:
  assumes "dbInv D valid rows st"
  shows "tableAt D valid rows (dbs_db st)" "distinct (map d_eventKey (rows (dbs_db st)))" "increasing (rows (dbs_db st))"
  using assms table_increasing by (auto simp: dbInv_def)

lemma dbGet_find:
  assumes inv: "dbInv D valid rows st"
  shows "(case db_get D (dbs_db st) (hasKey ek) of [] \<Rightarrow> None | r # _ \<Rightarrow> Some r) = find (\<lambda>r. d_eventKey r = ek) (rows (dbs_db st))"
    and "find (\<lambda>d. d_eventKey d = ek) (dbAbs rows dec st) = map_option (shown dec) (find (\<lambda>r. d_eventKey r = ek) (rows (dbs_db st)))"
  using get_by_key [OF dbInvD(1,2) [OF inv]] unfolding dbAbs_def by (simp_all add: find_map)

text \<open>Creating a row: the window of its scope, nothing else.\<close>

lemma dbCreate_ok:
  assumes inv: "dbInv D valid rows st" and s: "CHR 0x00 \<notin> set (d_session d)" and pk: "packLaws enc dec"
    and new: "find (\<lambda>r. d_eventKey r = d_eventKey d) (rows (dbs_db st)) = None"
  obtains row where "withoutId (fst (dbCreate D enc dec d st)) = d" "shown dec row = d"
    "dbInv D valid rows (snd (dbCreate D enc dec d st))" "dbs_retention (snd (dbCreate D enc dec d st)) = dbs_retention st"
    "keptWindow (dbs_retention st) (d_session d) (d_scope d) (rows (dbs_db st) @ [row]) (rows (dbs_db (snd (dbCreate D enc dec d st))))"
proof -
  let ?s = "d_session d" and ?sc = "d_scope d"
  obtain i where cr: "fst (db_create D (encodeNewRow enc d) (dbs_db st)) = withId (encodeNewRow enc d) i"
    "tableAt D valid rows (snd (db_create D (encodeNewRow enc d) (dbs_db st)))"
    "rows (snd (db_create D (encodeNewRow enc d) (dbs_db st))) = rows (dbs_db st) @ [withId (encodeNewRow enc d) i]"
    using create_rows [OF dbInvD(1) [OF inv]] by blast
  define db' where "db' = snd (db_create D (encodeNewRow enc d) (dbs_db st))"
  define row where "row = withId (encodeNewRow enc d) i"
  have row: "shown dec row = d" unfolding row_def by (rule shown_encoded [OF pk])
  have f: "d_eventKey row = d_eventKey d" "d_session row = ?s" "d_scope row = ?sc"
    using row by (metis shown_fields(1), metis shown_fields(2), metis shown_fields(3))
  have "db_get D (dbs_db st) (hasKey (d_eventKey d)) = []"
    using dbGet_find(1) [OF inv, of "d_eventKey d"] new by (cases "db_get D (dbs_db st) (hasKey (d_eventKey d))") auto
  then have eq: "dbCreate D enc dec d st = (decodeRow dec row, dbTrim D ?s ?sc (st\<lparr>dbs_db := db'\<rparr>))"
    using cr(1) by (simp add: dbCreate_def split_beta db'_def row_def)
  define st1 where "st1 = st\<lparr>dbs_db := db'\<rparr>"
  have rows1: "rows (dbs_db st1) = rows (dbs_db st) @ [row]" using cr(3) by (simp add: st1_def db'_def row_def)
  have "length (filter (inScope s' sc') (rows db')) \<le> c"
    if a: "CHR 0x00 \<notin> set s'" "js_get (js_delete (scopeKey ?s ?sc) (dbs_counts st)) (scopeKey s' sc') = Some c" for s' sc' c
  proof -
    from a have b: "js_get (dbs_counts st) (scopeKey s' sc') = Some c" "scopeKey s' sc' \<noteq> scopeKey ?s ?sc"
      by (auto simp: delete_conv' split: if_splits)
    then have "\<not> inScope s' sc' row" using f by (auto simp: inScope_def)
    then show ?thesis using inv a(1) b(1) rows1 by (simp add: dbInv_def st1_def)
  qed
  moreover have "d_eventKey row \<notin> set (map d_eventKey (rows (dbs_db st)))"
    using new f by (auto simp: find_None_iff)
  ultimately have inv1: "dbInv D valid rows (st1\<lparr>dbs_counts := js_delete (scopeKey ?s ?sc) (dbs_counts st1)\<rparr>)"
    using inv cr(2) rows1 s f by (auto simp: dbInv_def st1_def db'_def)
  have "length (filter (inScope ?s ?sc) (rows (dbs_db st1))) \<le> c + 1" if "js_get (dbs_counts st1) (scopeKey ?s ?sc) = Some c" for c
  proof -
    have "length (filter (inScope ?s ?sc) (rows (dbs_db st))) \<le> c" using that inv s by (simp add: dbInv_def st1_def)
    then show ?thesis by (simp add: rows1)
  qed
  note t = dbTrim_ok [OF inv1 s refl this]
  show ?thesis
    by (rule that [of row]) (use t rows1 row eq in \<open>simp_all add: st1_def\<close>)
qed

text \<open>The operations that change rows in place.\<close>

lemma dbModify_ok:
  assumes inv: "dbInv D valid rows st" and f: "\<And>r. d_messageId (f r) = d_messageId r \<and> d_eventKey (f r) = d_eventKey r \<and>
      d_session (f r) = d_session r \<and> d_scope (f r) = d_scope r \<and> shown dec (f r) = g (shown dec r)"
  shows "dbInv D valid rows (dbModify D ek f st)" and "dbAbs rows dec (dbModify D ek f st) = updateRow ek g (dbAbs rows dec st)"
    and "dbs_retention (dbModify D ek f st) = dbs_retention st"
proof -
  let ?f = "\<lambda>r. if hasKey ek r then f r else r" and ?st = "dbModify D ek f st"
  have st: "tableAt D valid rows (dbs_db ?st)" "rows (dbs_db ?st) = map ?f (rows (dbs_db st))" "dbs_counts ?st = dbs_counts st"
    using set_rows [OF dbInvD(1) [OF inv], of f "hasKey ek"] f by (simp_all add: dbModify_def)
  have kb: "d_eventKey (?f r) = d_eventKey r" "d_session (?f r) = d_session r" "inScope s sc (?f r) = inScope s sc r" for r s sc
    using f by (simp_all add: inScope_def)
  have "length (filter (inScope s sc) (rows (dbs_db ?st))) = length (filter (inScope s sc) (rows (dbs_db st)))" for s sc
    unfolding st(2) filter_map o_def kb by simp
  moreover have "map d_eventKey (rows (dbs_db ?st)) = map d_eventKey (rows (dbs_db st))" unfolding st(2) map_map o_def kb ..
  moreover have "CHR 0x00 \<notin> set (d_session y)" if y: "y \<in> set (rows (dbs_db ?st))" for y
  proof -
    from y obtain r where r: "r \<in> set (rows (dbs_db st))" "y = ?f r" unfolding st(2) set_map by (elim imageE) simp
    show ?thesis unfolding r(2) kb using inv r(1) by (simp add: dbInv_def)
  qed
  ultimately show "dbInv D valid rows ?st" using inv st(1,3) by (simp add: dbInv_def)
  show "dbAbs rows dec ?st = updateRow ek g (dbAbs rows dec st)"
    using f by (simp add: dbAbs_def updateRow_def st(2) hasKey_def)
  show "dbs_retention ?st = dbs_retention st" by (simp add: dbModify_def)
qed

lemma filter_inv:
  assumes inv: "dbInv D valid rows st" and rm: "tableAt D valid rows db'" "rows db' = filter P (rows (dbs_db st))"
  shows "dbInv D valid rows (st\<lparr>dbs_db := db'\<rparr>)"
proof -
  have "length (filter Q (filter P xs)) \<le> length (filter Q xs)" for Q :: "record_row \<Rightarrow> bool" and xs
    by (induction xs) auto
  then show ?thesis using inv rm by (fastforce simp: dbInv_def distinct_map_filter intro: order_trans)
qed

lemma dbRemove_ok:
  assumes inv: "dbInv D valid rows st"
  shows "dbInv D valid rows (dbRemove D ek st)" and "dbAbs rows dec (dbRemove D ek st) = filter (\<lambda>d. d_eventKey d \<noteq> ek) (dbAbs rows dec st)"
    and "dbs_retention (dbRemove D ek st) = dbs_retention st"
  using remove_rows [OF dbInvD(1) [OF inv], of "hasKey ek"] filter_inv [OF inv]
  by (simp_all add: dbRemove_def dbAbs_def filter_map o_def hasKey_def)

lemma dbPruneExpired_inv: "dbInv D valid rows st \<Longrightarrow> dbInv D valid rows (snd (dbPruneExpired D now st))"
  using remove_rows [OF dbInvD(1), of D valid rows st] filter_inv [of D valid rows st]
  by (simp add: dbPruneExpired_def split_beta)

lemma dbPrune_ok:
  assumes inv: "dbInv D valid rows st" and s: "CHR 0x00 \<notin> set s"
  shows "dbInv D valid rows (dbPrune D s sc st)" and "dbs_retention (dbPrune D s sc st) = dbs_retention st"
    and "dbAbs rows dec (dbPrune D s sc st) = trimScope (dbs_retention st) s sc (dbAbs rows dec st)"
proof -
  let ?P = "inScope s sc" and ?xs = "rows (dbs_db st)" and ?ret = "dbs_retention st" and ?st = "dbPrune D s sc st"
  note tab = dbInvD(1) [OF inv]
  note rm = remove_rows [OF tab, of ?P]
  note pr = pruneTo_rows [OF tab, of s sc ?ret]
  have res: "tableAt D valid rows (dbs_db ?st) \<and> rows (dbs_db ?st) = dropFirst ?P (length (filter ?P ?xs) - ?ret) ?xs \<and>
      dbs_retention ?st = ?ret"
    using rm pr by (auto simp: dbPrune_def Let_def dropFirst_all)
  show "dbInv D valid rows ?st"
    by (rule cut_inv [OF inv refl s, where db' = "dbs_db ?st" and k = "length (filter ?P ?xs) - ?ret"])
      (use res count_rows [OF pr(1)] in \<open>auto simp: dbPrune_def Let_def delete_conv' update_conv' split: if_splits\<close>)
  show "dbs_retention ?st = ?ret" using res by simp
  show "dbAbs rows dec ?st = trimScope ?ret s sc (dbAbs rows dec st)"
    using res by (simp add: dbAbs_def trimScope_def filter_map o_def map_dropFirst [of _ _ "inScope s sc"])
qed

section \<open>The queries\<close>

lemma shown_sorted:
  assumes "increasing xs"
  shows "map (shown dec) (sort_key bySeq (filter P xs)) = sort_key d_seq (map (shown dec) (filter P xs))"
    and "map (shown dec) (sort_key byPts (filter P xs)) = sort_key d_pts (map (shown dec) (filter P xs))"
proof -
  have "increasing (filter P xs)" by (rule increasing_filter [OF assms])
  note sort_by_id [OF this, of d_seq] sort_by_id [OF this, of d_pts]
  then show "map (shown dec) (sort_key bySeq (filter P xs)) = sort_key d_seq (map (shown dec) (filter P xs))"
    and "map (shown dec) (sort_key byPts (filter P xs)) = sort_key d_pts (map (shown dec) (filter P xs))"
    unfolding bySeq_def byPts_def by (simp_all add: map_sort_key [where h = "shown dec"])
qed

lemma withoutId_decode: "map withoutId (map (decodeRow dec) xs) = map (shown dec) xs"
  by simp

lemma specChanged_shown: "specChanged (map (shown dec) xs) = map (\<lambda>(sc, pts, _). (sc, pts)) (changedList xs)"
proof -
  have "map d_scope (map (shown dec) xs) = map d_scope xs" by simp
  moreover have "d_pts ` {d \<in> set (map (shown dec) xs). d_scope d = sc} = d_pts ` {d \<in> set xs. d_scope d = sc}" for sc
    by force
  ultimately show ?thesis by (simp add: changedList_def specChanged_def firstScopes_def o_def)
qed

lemma group_changed:
  assumes inv: "dbInv D valid rows st"
  shows "dbGetChanged D s date st = changedList (filter (changedRow s date) (rows (dbs_db st)))"
proof -
  let ?w = "\<lambda>r. d_session r = s \<and> date \<le> d_date r \<and> 0 < d_ptsCount r \<and> d_payload r \<noteq> None"
  let ?xs = "filter (changedRow s date) (rows (dbs_db st))"
  let ?g = "filter (\<lambda>(scope, pts, first). isChannelScope scope) (db_group D (dbs_db st) ?w)"
  note law = group_rows [OF dbInvD(1) [OF inv], of ?w, THEN conjunct1] group_rows [OF dbInvD(1) [OF inv], of ?w, THEN conjunct2]
  have same: "{r \<in> set (rows (dbs_db st)). ?w r \<and> d_scope r = sc} = {r \<in> set ?xs. d_scope r = sc}" if "isChannelScope sc" for sc
    using that by (auto simp: changedRow_def)
  have "set ?g = set (changedList ?xs)"
  proof (intro set_eqI)
    fix t :: scopeUpdate
    obtain sc p i where t: "t = (sc, p, i)" by (cases t)
    let ?S = "{r \<in> set (rows (dbs_db st)). ?w r \<and> d_scope r = sc}"
    have "t \<in> set ?g \<longleftrightarrow> isChannelScope sc \<and> ?S \<noteq> {} \<and> p = Max (d_pts ` ?S) \<and> i = Min (d_messageId ` ?S)"
      unfolding set_filter law(2) t by auto
    also have "\<dots> \<longleftrightarrow> (\<exists>r \<in> set ?xs. d_scope r = sc) \<and> p = Max (d_pts ` {r \<in> set ?xs. d_scope r = sc}) \<and>
        i = Min (d_messageId ` {r \<in> set ?xs. d_scope r = sc})"
      using same [of sc] by (cases "isChannelScope sc") (auto simp: changedRow_def)
    also have "\<dots> \<longleftrightarrow> t \<in> set (changedList ?xs)" by (auto simp: changedList_def t)
    finally show "t \<in> set ?g \<longleftrightarrow> t \<in> set (changedList ?xs)" .
  qed
  moreover have "distinct ?g" using law(1) by (simp add: distinct_map)
  moreover have inc: "increasing ?xs" by (rule increasing_filter [OF dbInvD(3) [OF inv]])
  have "distinct (changedList ?xs)" by (auto simp: changedList_def distinct_map inj_on_def)
  ultimately have "mset ?g = mset (changedList ?xs)" using set_eq_iff_mset_eq_distinct by blast
  moreover have sorted: "sorted_wrt (<) (map (\<lambda>(scope, pts, first). first) (changedList ?xs))"
    using changedList_sorted [OF inc] by (simp add: sorted_wrt_map case_prod_beta)
  then have "inj_on (\<lambda>(scope, pts, first). first) (set (changedList ?xs))"
    using strict_sorted_iff distinct_map by blast
  moreover have "set ?g = set (changedList ?xs)" by fact
  ultimately show ?thesis unfolding dbGetChanged_def using sorted
    by (intro sort_key_inj_key_eq) (simp_all add: strict_sorted_iff)
qed

section \<open>The database backend implements the contract\<close>

lemma dbRun_spec:
  assumes a: "dbInv D valid rows st" "dbs_retention st = n" and pk: "packLaws enc dec" and n: "pruneSlack n = 0" and op: "plainOp op"
  shows "dbInv D valid rows (snd (dbRun D enc dec op st)) \<and> dbs_retention (snd (dbRun D enc dec op st)) = n \<and>
    fst (dbRun D enc dec op st) = fst (specRun n op (dbAbs rows dec st)) \<and>
    dbAbs rows dec (snd (dbRun D enc dec op st)) = snd (specRun n op (dbAbs rows dec st))"
proof (cases op)
  case (StoreGet ek)
  have "map_option withoutId (dbGet D dec ek st) = find (\<lambda>d. d_eventKey d = ek) (dbAbs rows dec st)"
    unfolding dbGet_find(2) [OF a(1)] dbGet_find(1) [OF a(1), symmetric] dbGet_def by (simp split: list.split)
  then show ?thesis using a StoreGet by (simp add: dbRun_def specRun_def)
next
  case (StoreCreate d)
  then have s: "CHR 0x00 \<notin> set (d_session d)" using op by (simp add: plainOp_def)
  show ?thesis
  proof (cases "find (\<lambda>r. d_eventKey r = d_eventKey d) (rows (dbs_db st))")
    case (Some r)
    then obtain rs where "db_get D (dbs_db st) (hasKey (d_eventKey d)) = r # rs"
      using dbGet_find(1) [OF a(1), of "d_eventKey d"] by (auto split: list.splits)
    then show ?thesis using a StoreCreate Some dbGet_find(2) [OF a(1), of "d_eventKey d" dec]
      by (simp add: dbRun_def specRun_def dbCreate_def)
  next
    case None
    obtain row where row: "withoutId (fst (dbCreate D enc dec d st)) = d" "shown dec row = d"
      "dbInv D valid rows (snd (dbCreate D enc dec d st))" "dbs_retention (snd (dbCreate D enc dec d st)) = n"
      "keptWindow n (d_session d) (d_scope d) (rows (dbs_db st) @ [row]) (rows (dbs_db (snd (dbCreate D enc dec d st))))"
      using dbCreate_ok [OF a(1) s pk None] a(2) by metis
    have "dbAbs rows dec (snd (dbCreate D enc dec d st)) = trimScope n (d_session d) (d_scope d) (dbAbs rows dec st @ [d])"
      unfolding dbAbs_def keptWindow_strict [OF row(5) n] trimScope_def
      using row(2) by (simp add: map_dropFirst [of _ _ "inScope (d_session d) (d_scope d)"] filter_map o_def)
        (metis shown_fields(11))
    then show ?thesis using row(1,3,4) StoreCreate dbGet_find(2) [OF a(1), of "d_eventKey d" dec] None
      by (simp add: dbRun_def specRun_def split_beta)
  qed
next
  case (StoreMarkPublished ek)
  show ?thesis unfolding StoreMarkPublished
    using dbModify_ok [OF a(1), of "\<lambda>r. r\<lparr>d_published := True\<rparr>" dec "\<lambda>d. d\<lparr>d_published := True\<rparr>" ek] a(2)
    by (simp add: dbRun_def specRun_def dbMarkPublished_def shown_def mapPayload_def newDelivery.defs)
next
  case (StoreClaim ek t)
  show ?thesis unfolding StoreClaim
    using dbModify_ok [OF a(1), of "\<lambda>r. r\<lparr>d_claimedAt := Some t\<rparr>" dec "\<lambda>d. d\<lparr>d_claimedAt := Some t\<rparr>" ek] a(2)
    by (simp add: dbRun_def specRun_def dbClaim_def shown_def mapPayload_def newDelivery.defs)
next
  case (StoreSetPayload ek p)
  show ?thesis unfolding StoreSetPayload
    using dbModify_ok [OF a(1), of "\<lambda>r. r\<lparr>d_payload := Some (enc p)\<rparr>" dec "\<lambda>d. d\<lparr>d_payload := Some p\<rparr>" ek] a(2) pk
    by (simp add: dbRun_def specRun_def dbSetPayload_def shown_def mapPayload_def newDelivery.defs packLaws_def)
next
  case (StoreRemove ek)
  then show ?thesis using dbRemove_ok(1,3) [OF a(1), of ek] dbRemove_ok(2) [OF a(1), where dec = dec and ek = ek] a(2) by (simp add: dbRun_def specRun_def)
next
  case (StoreGetPending s)
  have "map withoutId (dbGetPending D dec s st) = sort_key d_seq (filter (\<lambda>d. d_session d = s \<and> \<not> d_published d) (dbAbs rows dec st))"
    unfolding dbGetPending_def withoutId_decode select_rows [OF dbInvD(1) [OF a(1)]] option.case id_apply drop_0
      shown_sorted [OF dbInvD(3) [OF a(1)]] dbAbs_def by (simp add: filter_map o_def)
  then show ?thesis using a StoreGetPending by (simp add: dbRun_def specRun_def)
next
  case (StoreGetAfter s sc pts limit)
  have "map withoutId (dbGetAfter D dec s sc pts limit st) =
      take (limitOf limit) (sort_key d_pts (filter (\<lambda>d. inScope s sc d \<and> pts < d_pts d) (dbAbs rows dec st)))"
    unfolding dbGetAfter_def withoutId_decode select_rows [OF dbInvD(1) [OF a(1)]] option.case drop_0 take_map [symmetric]
      shown_sorted [OF dbInvD(3) [OF a(1)]] dbAbs_def by (simp add: filter_map o_def)
  then show ?thesis using a StoreGetAfter by (simp add: dbRun_def specRun_def)
next
  case (StoreGetFirst s sc)
  have sel: "db_select D (dbs_db st) (inScope s sc) byPts 0 (Some 1) = take 1 (sort_key byPts (filter (inScope s sc) (rows (dbs_db st))))"
    by (simp add: select_rows [OF dbInvD(1) [OF a(1)]])
  have "sort_key d_pts (filter (inScope s sc) (dbAbs rows dec st)) = map (shown dec) (sort_key byPts (filter (inScope s sc) (rows (dbs_db st))))"
    unfolding shown_sorted [OF dbInvD(3) [OF a(1)]] dbAbs_def by (simp add: filter_map o_def)
  then have "map_option withoutId (dbGetFirst D dec s sc st) =
      (case sort_key d_pts (filter (inScope s sc) (dbAbs rows dec st)) of [] \<Rightarrow> None | d # _ \<Rightarrow> Some d)"
    unfolding dbGetFirst_def sel by (cases "sort_key byPts (filter (inScope s sc) (rows (dbs_db st)))") simp_all
  then show ?thesis using a StoreGetFirst by (simp add: dbRun_def specRun_def)
next
  case (StoreGetSince s date limit)
  have "map withoutId (dbGetSince D dec s date limit st) =
      take (limitOf limit) (sort_key d_seq (filter (\<lambda>d. d_session d = s \<and> date \<le> d_date d) (dbAbs rows dec st)))"
    unfolding dbGetSince_def withoutId_decode select_rows [OF dbInvD(1) [OF a(1)]] option.case drop_0 take_map [symmetric]
      shown_sorted [OF dbInvD(3) [OF a(1)]] dbAbs_def by (simp add: filter_map o_def)
  then show ?thesis using a StoreGetSince by (simp add: dbRun_def specRun_def)
next
  case (StoreGetChanged s date)
  have "map (\<lambda>(sc, pts, _). (sc, pts)) (dbGetChanged D s date st) = specChanged (filter (changedRow s date) (dbAbs rows dec st))"
    unfolding group_changed [OF a(1)] specChanged_shown [of dec, symmetric] dbAbs_def by (simp add: filter_map o_def)
  then show ?thesis using a StoreGetChanged by (simp add: dbRun_def specRun_def)
next
  case (StorePrune s sc)
  then have "CHR 0x00 \<notin> set s" using op by (simp add: plainOp_def)
  from dbPrune_ok(1,2) [OF a(1) this, of sc] dbPrune_ok(3) [OF a(1) this, where sc = sc and dec = dec] a(2) StorePrune show ?thesis by (simp add: dbRun_def specRun_def)
qed

lemma database_store:
  assumes "packLaws enc dec" and "pruneSlack n = 0"
  shows "update_store (dbRun D enc dec) (\<lambda>st. dbInv D valid rows st \<and> dbs_retention st = n) (dbAbs rows dec) n"
  using dbRun_spec [OF _ _ assms] by unfold_locales blast+

lemma newDbStore_ok:
  assumes "dbLaws D valid rows" and "valid db" and "rows db = []"
  shows "dbInv D valid rows (newDbStore db (Some r) secs)" and "dbs_retention (newDbStore db (Some r) secs) = nat r"
    and "dbAbs rows dec (newDbStore db (Some r) secs) = []"
  using assms by (simp_all add: dbInv_def newDbStore_def tableAt_def dbAbs_def)

section \<open>A table\<close>

definition nextId :: "record_row list \<Rightarrow> int" where
  "nextId db = (if db = [] then 1 else d_messageId (last db) + 1)"

definition listDb :: "record_row list deliveryDb" where
  "listDb = \<lparr>db_get = (\<lambda>db w. filter w db),
     db_create = (\<lambda>d db. (withId d (nextId db), db @ [withId d (nextId db)])),
     db_set = (\<lambda>w f db. map (\<lambda>r. if w r then f r else r) db),
     db_remove = (\<lambda>w db. (length (filter w db), filter (\<lambda>r. \<not> w r) db)),
     db_select = (\<lambda>db w key off limit. (case limit of None \<Rightarrow> id | Some n \<Rightarrow> take n) (drop off (sort_key key (filter w db)))),
     db_group = (\<lambda>db w. changedList (filter w db)),
     db_count = (\<lambda>db w. length (filter w db))\<rparr>"

lemma increasing_last: "increasing (xs @ [x]) \<Longrightarrow> y \<in> set (xs @ [x]) \<Longrightarrow> d_messageId y \<le> d_messageId x"
  by auto

lemma nextId_increasing: "increasing db \<Longrightarrow> increasing (db @ [withId d (nextId db)])"
proof (cases db rule: rev_cases)
  case (snoc ys y)
  assume "increasing db"
  with snoc increasing_last [of ys y] show ?thesis by (force simp: newDelivery.defs storedDelivery.defs nextId_def)
qed simp

lemma increasing_map:
  assumes "increasing db" and "\<forall>r. d_messageId (f r) = d_messageId r"
  shows "increasing (map (\<lambda>r. if w r then f r else r) db)"
proof -
  have "map d_messageId (map (\<lambda>r. if w r then f r else r) db) = map d_messageId db" using assms(2) by simp
  then show ?thesis using assms(1) unfolding increasing_def by (simp only:)
qed

lemma changedList_group:
  "distinct (map fst (changedList (filter w db))) \<and> set (changedList (filter w db)) =
     {(sc, Max (d_pts ` {r \<in> set db. w r \<and> d_scope r = sc}), Min (d_messageId ` {r \<in> set db. w r \<and> d_scope r = sc}))
       | sc. \<exists>r \<in> set db. w r \<and> d_scope r = sc}"
  by (auto simp: changedList_def o_def)

lemma listDb_laws: "dbLaws listDb increasing (\<lambda>db. db)"
proof -
  have "readLaws listDb increasing (\<lambda>db. db)"
    unfolding readLaws_def by (simp add: listDb_def del: map_map) (intro allI impI changedList_group)
  moreover have "writeLaws listDb increasing (\<lambda>db. db)"
    unfolding writeLaws_def using nextId_increasing increasing_map
    by (auto simp: listDb_def increasing_filter simp del: increasing_simps)
  ultimately show ?thesis by (simp add: dbLaws_def)
qed

section \<open>Properties\<close>

definition sampleDelivery :: "string \<Rightarrow> int \<Rightarrow> bytes newDelivery" where
  "sampleDelivery ek pts = \<lparr>d_eventKey = ek, d_session = ''s'', d_scope = ''channel:1'', d_pts = pts, d_ptsCount = 1,
     d_seq = pts, d_date = 5, d_published = False, d_claimedAt = None, d_payload = Some [1]\<rparr>"

lemma sampleDelivery_fields: "d_session (sampleDelivery ek pts) = ''s''" "d_scope (sampleDelivery ek pts) = ''channel:1''"
  by (simp_all add: sampleDelivery_def)

text \<open>
  C23. The memory store is the update log: for every sequence of operations (whose session ids hold
  no NUL) a new memory backend answers exactly like the specification, a list of rows in the order of
  creation of which each account's scope keeps the newest \<open>retention\<close>.
\<close>

theorem memory_store_refines_log:
  assumes "list_all plainOp ops"
  shows "fst (runs memRun ops (newLogStore r)) = fst (runs (specRun (normalizeRetention r)) ops [])"
  using memory.runs_spec [OF newLogStore_ok(1) assms, of r] by (simp add: newLogStore_ok(2))

theorem memory_store_refines_log_witness:
  "fst (runs memRun [StoreCreate (sampleDelivery ''a'' 1), StoreCreate (sampleDelivery ''b'' 2), StoreGet ''a'', StoreGet ''b'']
     (newLogStore (Some 1))) =
   [RowAnswer (Some (sampleDelivery ''a'' 1)), RowAnswer (Some (sampleDelivery ''b'' 2)), RowAnswer None,
    RowAnswer (Some (sampleDelivery ''b'' 2))]"
  using memory_store_refines_log [of "[StoreCreate (sampleDelivery ''a'' 1), StoreCreate (sampleDelivery ''b'' 2), StoreGet ''a'', StoreGet ''b'']" "Some 1"]
  by (simp add: plainOp_def sampleDelivery_def specRun_def normalizeRetention_def trimScope_def inScope_def)

text \<open>
  C22. The two backends agree: with the same retention below 2048 rows (from there on the database
  trims in batches), a new memory store and a new database store give the same answers, message ids aside,
  to every sequence of operations, for every database that behaves like a table with an auto-increment
  key and every payload encoding that decodes.
\<close>

theorem update_backends_agree:
  assumes "dbLaws D valid rows" and "packLaws enc dec" and "valid db" and "rows db = []"
    and "r < 2048" and "list_all plainOp ops"
  shows "fst (runs (dbRun D enc dec) ops (newDbStore db (Some r) secs)) = fst (runs memRun ops (newLogStore (Some r)))"
proof -
  have n: "pruneSlack (nat r) = 0" using assms(5) by (simp add: pruneSlack_def PRUNE_BATCH_SLACK_def)
  note new = newDbStore_ok(1,2) [OF assms(1,3,4), of r secs] newDbStore_ok(3) [OF assms(1,3,4), where r = r and secs = secs and dec = dec]
  have "fst (runs (dbRun D enc dec) ops (newDbStore db (Some r) secs)) = fst (runs (specRun (nat r)) ops [])"
    using update_store.runs_spec [OF database_store [OF assms(2) n], of D valid rows "newDbStore db (Some r) secs" ops] new assms(6)
    by simp
  also have "\<dots> = fst (runs memRun ops (newLogStore (Some r)))"
    using memory.runs_spec [OF newLogStore_ok(1) assms(6), of "Some r"]
    by (simp add: newLogStore_ok(2) normalizeRetention_def)
  finally show ?thesis .
qed

theorem update_backends_agree_witness:
  "fst (runs (dbRun listDb id id) [StoreCreate (sampleDelivery ''a'' 1), StoreCreate (sampleDelivery ''b'' 2), StoreGet ''a'',
       StoreGetChanged ''s'' 0] (newDbStore [] (Some 1) None)) =
   [RowAnswer (Some (sampleDelivery ''a'' 1)), RowAnswer (Some (sampleDelivery ''b'' 2)), RowAnswer None, ScopesAnswer [(''channel:1'', 2)]]"
proof -
  let ?ops = "[StoreCreate (sampleDelivery ''a'' 1), StoreCreate (sampleDelivery ''b'' 2), StoreGet ''a'', StoreGetChanged ''s'' 0]"
  have "packLaws id id" by (simp add: packLaws_def)
  moreover have "list_all plainOp ?ops" by (simp add: plainOp_def sampleDelivery_def)
  ultimately have "fst (runs (dbRun listDb id id) ?ops (newDbStore [] (Some 1) None)) = fst (runs memRun ?ops (newLogStore (Some 1)))"
    by (intro update_backends_agree [OF listDb_laws]) simp_all
  also have "\<dots> = [RowAnswer (Some (sampleDelivery ''a'' 1)), RowAnswer (Some (sampleDelivery ''b'' 2)), RowAnswer None, ScopesAnswer [(''channel:1'', 2)]]"
    by code_simp
  finally show ?thesis .
qed

text \<open>
  The retention window of the database: creating a row in a scope drops only oldest rows of
  that scope, and only when it cuts it to exactly \<open>retention\<close> rows; the scope then holds at most
  \<open>retention\<close> rows and the batch slack; the other scopes are untouched and the known counts stay
  upper bounds of the real ones.
\<close>

theorem delivery_window:
  assumes "dbInv D valid rows st" and "CHR 0x00 \<notin> set (d_session d)" and "packLaws enc dec"
    and "find (\<lambda>r. d_eventKey r = d_eventKey d) (rows (dbs_db st)) = None"
  shows "\<exists>row k. shown dec row = d \<and> dbInv D valid rows (snd (dbCreate D enc dec d st)) \<and>
    filter (inScope (d_session d) (d_scope d)) (rows (dbs_db (snd (dbCreate D enc dec d st)))) =
      drop k (filter (inScope (d_session d) (d_scope d)) (rows (dbs_db st)) @ [row]) \<and>
    length (filter (inScope (d_session d) (d_scope d)) (rows (dbs_db (snd (dbCreate D enc dec d st))))) \<le>
      dbs_retention st + (if dbs_retention st \<ge> 2048 then 512 else 0) \<and>
    (k = 0 \<or> length (filter (inScope (d_session d) (d_scope d)) (rows (dbs_db (snd (dbCreate D enc dec d st))))) = dbs_retention st) \<and>
    filter (\<lambda>r. \<not> inScope (d_session d) (d_scope d) r) (rows (dbs_db (snd (dbCreate D enc dec d st)))) =
      filter (\<lambda>r. \<not> inScope (d_session d) (d_scope d) r) (rows (dbs_db st))"
proof -
  let ?P = "inScope (d_session d) (d_scope d) :: record_row \<Rightarrow> bool" and ?st = "snd (dbCreate D enc dec d st)"
  from dbCreate_ok [OF assms] obtain row where row: "shown dec row = d" "dbInv D valid rows ?st"
    "keptWindow (dbs_retention st) (d_session d) (d_scope d) (rows (dbs_db st) @ [row]) (rows (dbs_db ?st))" by metis
  have P: "?P row" using row(1) shown_fields(11) [of "d_session d" "d_scope d" dec row] by (simp add: inScope_def)
  obtain k where k: "rows (dbs_db ?st) = dropFirst ?P k (rows (dbs_db st) @ [row])"
    "length (filter ?P (rows (dbs_db ?st))) \<le> dbs_retention st + pruneSlack (dbs_retention st)"
    "k = 0 \<or> length (filter ?P (rows (dbs_db ?st))) = dbs_retention st"
    using row(3) unfolding keptWindow_def by blast
  have "filter ?P (rows (dbs_db ?st)) = drop k (filter ?P (rows (dbs_db st)) @ [row])"
    using P by (simp add: k(1) filter_dropFirst)
  moreover have "filter (\<lambda>r. \<not> ?P r) (rows (dbs_db ?st)) = filter (\<lambda>r. \<not> ?P r) (rows (dbs_db st))"
    using P by (simp add: k(1) filter_dropFirst_other)
  moreover have "pruneSlack (dbs_retention st) = (if dbs_retention st \<ge> 2048 then 512 else 0)"
    by (simp add: pruneSlack_def PRUNE_BATCH_SLACK_def)
  ultimately show ?thesis using row(1,2) k(2,3) by (intro exI [of _ row] exI [of _ k]) (simp only: simp_thms)
qed

theorem delivery_window_witness:
  "length (filter (inScope ''s'' ''channel:1'')
     (dbs_db (snd (dbCreate listDb id id (sampleDelivery ''a'' 1) (newDbStore [] (Some 1) None))))) \<le> 1"
proof -
  define st where "st = newDbStore ([] :: record_row list) (Some 1) None"
  have "dbInv listDb increasing (\<lambda>db. db) st" unfolding st_def by (rule newDbStore_ok [OF listDb_laws]) simp_all
  moreover have "CHR 0x00 \<notin> set (d_session (sampleDelivery ''a'' 1))" "packLaws id id"
    "find (\<lambda>r. d_eventKey r = d_eventKey (sampleDelivery ''a'' 1)) (dbs_db st) = None"
    by (simp_all add: sampleDelivery_def packLaws_def newDbStore_def st_def)
  ultimately have "length (filter (inScope (d_session (sampleDelivery ''a'' 1)) (d_scope (sampleDelivery ''a'' 1)))
      (dbs_db (snd (dbCreate listDb id id (sampleDelivery ''a'' 1) st)))) \<le> dbs_retention st + (if dbs_retention st \<ge> 2048 then 512 else 0)"
    using delivery_window [of listDb increasing "\<lambda>db. db" st "sampleDelivery ''a'' 1" id id] by blast
  moreover have "dbs_retention st = 1" by (simp add: st_def newDbStore_def)
  ultimately show ?thesis unfolding sampleDelivery_fields st_def [symmetric] by simp
qed

end
