(* ===== verification/Update_Sequence.thy ===== *)
theory Update_Sequence
  imports Update_Store
begin

text \<open>
  The numbering of updates: the update part of \<open>packages/bridge/src/message-store.ts\<close>, over a backend of the
  update log; and what the differences (theory \<open>Update_Difference\<close>) share: the handling of reservations that
  nobody fills, and the collection of payloads.

  A backend is its interface \<open>run\<close>, an argument of every operation. The update states of accounts and
  channels are rows of the bridge's database, here maps; \<open>channelStateId\<close> encodes the pair of session
  and channel, which is the key here. \<open>_write\<close> serialises the operations, so each is one step. The clock
  \<open>now\<close> is in seconds. A payload is the decoded TL object; \<open>updateToJson\<close> and \<open>updateFromJson\<close> only change
  its form. A failure of the database or the backend is not modelled.
\<close>

section \<open>State\<close>

definition ACCOUNT_UPDATE_SCOPE :: string where "ACCOUNT_UPDATE_SCOPE = ''account''"
definition CLAIMED_DELIVERY_GRACE_SECONDS :: int where "CLAIMED_DELIVERY_GRACE_SECONDS = 30"
definition CHANNEL_POLL_TIMEOUT_SECONDS :: int where "CHANNEL_POLL_TIMEOUT_SECONDS = 30"
definition PENDING_CHANNEL_POLL_TIMEOUT_SECONDS :: int where "PENDING_CHANNEL_POLL_TIMEOUT_SECONDS = 1"
definition CHANNEL_MIRROR_PAGE :: int where "CHANNEL_MIRROR_PAGE = 100"
definition CHANNEL_DIFFERENCE_MAX_PENDING :: int where "CHANNEL_DIFFERENCE_MAX_PENDING = 1000"

definition channelUpdateScope :: "nat \<Rightarrow> string" where
  "channelUpdateScope channelId = ''channel:'' @ decString channelId"

definition scopeOf :: "nat option \<Rightarrow> string" where
  "scopeOf channelId = (case channelId of None \<Rightarrow> ACCOUNT_UPDATE_SCOPE | Some c \<Rightarrow> channelUpdateScope c)"

record updateState =
  us_pts :: int
  us_qts :: int
  us_seq :: int
  us_date :: int

record channelState =
  cs_pts :: int
  cs_date :: int

record 'b updateDb =
  ud_log :: 'b
  ud_account :: "(string, updateState) jsmap"
  ud_channel :: "(string \<times> nat, channelState) jsmap"

section \<open>Calls of the backend\<close>

type_synonym ('p, 'b) backend = "'p storeOp \<Rightarrow> 'b \<Rightarrow> 'p storeAnswer \<times> 'b"

definition askRow :: "('p, 'b) backend \<Rightarrow> 'p storeOp \<Rightarrow> 'b updateDb \<Rightarrow> 'p row option \<times> 'b updateDb" where
  "askRow run op st = (case run op (ud_log st) of
     (answer, b) \<Rightarrow> ((case answer of RowAnswer r \<Rightarrow> r | _ \<Rightarrow> None), st\<lparr>ud_log := b\<rparr>))"

definition askRows :: "('p, 'b) backend \<Rightarrow> 'p storeOp \<Rightarrow> 'b updateDb \<Rightarrow> 'p row list \<times> 'b updateDb" where
  "askRows run op st = (case run op (ud_log st) of
     (answer, b) \<Rightarrow> ((case answer of RowsAnswer rs \<Rightarrow> rs | _ \<Rightarrow> []), st\<lparr>ud_log := b\<rparr>))"

definition askScopes :: "('p, 'b) backend \<Rightarrow> 'p storeOp \<Rightarrow> 'b updateDb \<Rightarrow> (string \<times> int) list \<times> 'b updateDb" where
  "askScopes run op st = (case run op (ud_log st) of
     (answer, b) \<Rightarrow> ((case answer of ScopesAnswer rs \<Rightarrow> rs | _ \<Rightarrow> []), st\<lparr>ud_log := b\<rparr>))"

definition tell :: "('p, 'b) backend \<Rightarrow> 'p storeOp \<Rightarrow> 'b updateDb \<Rightarrow> 'b updateDb" where
  "tell run op st = st\<lparr>ud_log := snd (run op (ud_log st))\<rparr>"

section \<open>Numbering\<close>

definition getUpdateState :: "int \<Rightarrow> string \<Rightarrow> 'b updateDb \<Rightarrow> updateState" where
  "getUpdateState now session st =
     (case js_get (ud_account st) session of
        Some a \<Rightarrow> a | None \<Rightarrow> \<lparr>us_pts = 1, us_qts = 0, us_seq = 0, us_date = now\<rparr>)"

definition getChannelUpdateState :: "int \<Rightarrow> string \<Rightarrow> nat \<Rightarrow> 'b updateDb \<Rightarrow> channelState" where
  "getChannelUpdateState now session channelId st =
     (case js_get (ud_channel st) (session, channelId) of
        Some c \<Rightarrow> c
      | None \<Rightarrow> (let a = getUpdateState now session st in \<lparr>cs_pts = us_pts a, cs_date = us_date a\<rparr>))"

definition accountPts :: "string \<Rightarrow> 'b updateDb \<Rightarrow> int" where
  "accountPts session st = (case js_get (ud_account st) session of Some a \<Rightarrow> us_pts a | None \<Rightarrow> 1)"

definition channelPts :: "string \<Rightarrow> nat \<Rightarrow> 'b updateDb \<Rightarrow> int" where
  "channelPts session channelId st =
     (case js_get (ud_channel st) (session, channelId) of Some c \<Rightarrow> cs_pts c | None \<Rightarrow> accountPts session st)"

definition accountOf :: "string \<Rightarrow> 'b updateDb \<Rightarrow> updateState" where
  "accountOf session st =
     (case js_get (ud_account st) session of
        Some a \<Rightarrow> a | None \<Rightarrow> \<lparr>us_pts = 1, us_qts = 0, us_seq = 0, us_date = 0\<rparr>)"

text \<open>\<open>None\<close>: the range error.\<close>

definition advancePts :: "string \<Rightarrow> int \<Rightarrow> int \<Rightarrow> nat option \<Rightarrow> 'b updateDb \<Rightarrow> (int \<times> 'b updateDb) option" where
  "advancePts session ptsCount date channelId st =
     (if \<not> isSafeInteger ptsCount \<or> ptsCount \<le> 0 then None
      else case channelId of
             Some c \<Rightarrow>
               (let pts = channelPts session c st + ptsCount
                in Some (pts, st\<lparr>ud_channel := js_set (session, c) \<lparr>cs_pts = pts, cs_date = date\<rparr> (ud_channel st)\<rparr>))
           | None \<Rightarrow>
               (let a = accountOf session st; pts = us_pts a + ptsCount
                in Some (pts, st\<lparr>ud_account := js_set session (a\<lparr>us_pts := pts, us_date := date\<rparr>) (ud_account st)\<rparr>)))"

definition advanceUpdateState :: "string \<Rightarrow> int \<Rightarrow> int \<Rightarrow> 'b updateDb \<Rightarrow> updateState \<times> 'b updateDb" where
  "advanceUpdateState session ptsCount date st =
     (let a = accountOf session st;
          a' = \<lparr>us_pts = us_pts a + ptsCount, us_qts = us_qts a, us_seq = us_seq a + 1, us_date = max (us_date a) date\<rparr>
      in (a', st\<lparr>ud_account := js_set session a' (ud_account st)\<rparr>))"

definition allocateUpdate :: "string \<Rightarrow> int \<Rightarrow> int \<Rightarrow> nat option \<Rightarrow> 'b updateDb \<Rightarrow> (int \<times> int \<times> int) \<times> 'b updateDb" where
  "allocateUpdate session ptsCount date channelId st =
     (let a = accountOf session st;
          deliveryDate = max (us_date a) date;
          account = \<lparr>us_pts = us_pts a + (if channelId = None then ptsCount else 0), us_qts = us_qts a,
                     us_seq = us_seq a + 1, us_date = deliveryDate\<rparr>;
          st1 = st\<lparr>ud_account := js_set session account (ud_account st)\<rparr>
      in case channelId of
           None \<Rightarrow> ((us_pts account, us_seq account, deliveryDate), st1)
         | Some c \<Rightarrow>
             (let old = js_get (ud_channel st) (session, c);
                  channel = \<lparr>cs_pts = channelPts session c st + ptsCount,
                             cs_date = max (case old of Some o' \<Rightarrow> cs_date o' | None \<Rightarrow> 0) deliveryDate\<rparr>
              in ((cs_pts channel, us_seq account, deliveryDate),
                  st1\<lparr>ud_channel := js_set (session, c) channel (ud_channel st1)\<rparr>)))"

definition prepareUpdateDelivery ::
  "('p, 'b) backend \<Rightarrow> int \<Rightarrow> string \<Rightarrow> string \<Rightarrow> int \<Rightarrow> int \<Rightarrow> nat option \<Rightarrow> 'b updateDb \<Rightarrow> 'p row option \<times> 'b updateDb" where
  "prepareUpdateDelivery run now eventKey session ptsCount date channelId st =
     (case askRow run (StoreGet eventKey) st of
        (Some existing, st1) \<Rightarrow>
          (Some (existing\<lparr>d_claimedAt := Some now\<rparr>), tell run (StoreClaim eventKey now) st1)
      | (None, st1) \<Rightarrow>
          (case allocateUpdate session ptsCount date channelId st1 of
             ((pts, seq, deliveryDate), st2) \<Rightarrow>
               askRow run (StoreCreate \<lparr>d_eventKey = eventKey, d_session = session, d_scope = scopeOf channelId,
                  d_pts = pts, d_ptsCount = ptsCount, d_seq = seq, d_date = deliveryDate, d_published = False,
                  d_claimedAt = Some now, d_payload = None\<rparr>) st2))"

definition getUpdateDelivery :: "('p, 'b) backend \<Rightarrow> string \<Rightarrow> 'b updateDb \<Rightarrow> 'p row option \<times> 'b updateDb" where
  "getUpdateDelivery run eventKey = askRow run (StoreGet eventKey)"

definition markUpdatePublished :: "('p, 'b) backend \<Rightarrow> string \<Rightarrow> 'b updateDb \<Rightarrow> 'b updateDb" where
  "markUpdatePublished run eventKey = tell run (StoreMarkPublished eventKey)"

definition setUpdatePayload :: "('p, 'b) backend \<Rightarrow> string \<Rightarrow> 'p \<Rightarrow> 'b updateDb \<Rightarrow> 'b updateDb" where
  "setUpdatePayload run eventKey payload = tell run (StoreSetPayload eventKey payload)"

definition pruneUpdateDeliveries :: "('p, 'b) backend \<Rightarrow> string \<Rightarrow> 'b updateDb \<Rightarrow> 'b updateDb" where
  "pruneUpdateDeliveries run session = tell run (StorePrune session ACCOUNT_UPDATE_SCOPE)"

text \<open>A reservation without payload may be dropped: always by its publisher, by a reader only when
  nobody has claimed it within the grace period.\<close>

definition abandoned :: "int \<Rightarrow> 'p row \<Rightarrow> bool" where
  "abandoned now d \<longleftrightarrow>
     (case d_claimedAt d of None \<Rightarrow> True | Some t \<Rightarrow> \<not> now - t < CLAIMED_DELIVERY_GRACE_SECONDS)"

definition discardUpdateDelivery :: "('p, 'b) backend \<Rightarrow> int \<Rightarrow> string \<Rightarrow> bool \<Rightarrow> 'b updateDb \<Rightarrow> bool \<times> 'b updateDb" where
  "discardUpdateDelivery run now eventKey onlyIfAbandoned st =
     (case askRow run (StoreGet eventKey) st of
        (None, st1) \<Rightarrow> (False, st1)
      | (Some d, st1) \<Rightarrow>
          if d_payload d \<noteq> None then (False, st1)
          else if onlyIfAbandoned \<and> \<not> abandoned now d then (False, st1)
          else (True, tell run (StoreRemove eventKey) st1))"

definition discardPendingUpdateDelivery :: "('p, 'b) backend \<Rightarrow> int \<Rightarrow> string \<Rightarrow> 'b updateDb \<Rightarrow> bool \<times> 'b updateDb" where
  "discardPendingUpdateDelivery run now eventKey = discardUpdateDelivery run now eventKey False"

definition discardAbandonedUpdateDelivery :: "('p, 'b) backend \<Rightarrow> int \<Rightarrow> string \<Rightarrow> 'b updateDb \<Rightarrow> bool \<times> 'b updateDb" where
  "discardAbandonedUpdateDelivery run now eventKey = discardUpdateDelivery run now eventKey True"

definition getUpdateDeliveriesAfter ::
  "('p, 'b) backend \<Rightarrow> string \<Rightarrow> int \<Rightarrow> int \<Rightarrow> nat option \<Rightarrow> 'b updateDb \<Rightarrow> 'p row list \<times> 'b updateDb" where
  "getUpdateDeliveriesAfter run session pts limit channelId = askRows run (StoreGetAfter session (scopeOf channelId) pts limit)"

definition getFirstUpdateDelivery :: "('p, 'b) backend \<Rightarrow> string \<Rightarrow> nat option \<Rightarrow> 'b updateDb \<Rightarrow> 'p row option \<times> 'b updateDb" where
  "getFirstUpdateDelivery run session channelId = askRow run (StoreGetFirst session (scopeOf channelId))"

definition getPendingUpdateDeliveries :: "('p, 'b) backend \<Rightarrow> string \<Rightarrow> 'b updateDb \<Rightarrow> 'p row list \<times> 'b updateDb" where
  "getPendingUpdateDeliveries run session = askRows run (StoreGetPending session)"

definition getChannelUpdateDeliveriesSince ::
  "('p, 'b) backend \<Rightarrow> string \<Rightarrow> int \<Rightarrow> int \<Rightarrow> 'b updateDb \<Rightarrow> 'p row list \<times> 'b updateDb" where
  "getChannelUpdateDeliveriesSince run session date limit st =
     (case askRows run (StoreGetSince session date limit) st of
        (rows, st1) \<Rightarrow> (filter (\<lambda>d. isChannelScope (d_scope d)) rows, st1))"

definition getChangedChannelScopes :: "('p, 'b) backend \<Rightarrow> string \<Rightarrow> int \<Rightarrow> 'b updateDb \<Rightarrow> (string \<times> int) list \<times> 'b updateDb" where
  "getChangedChannelScopes run session date = askScopes run (StoreGetChanged session date)"

section \<open>Reservations that nobody fills\<close>

fun keepDeliveries :: "('p, 'b) backend \<Rightarrow> int \<Rightarrow> 'p row list \<Rightarrow> 'b updateDb \<Rightarrow> 'p row list \<times> 'b updateDb" where
  "keepDeliveries run now [] st = ([], st)"
| "keepDeliveries run now (d # ds) st =
     (if d_payload d \<noteq> None
      then (case keepDeliveries run now ds st of (kept, st') \<Rightarrow> (d # kept, st'))
      else case discardAbandonedUpdateDelivery run now (d_eventKey d) st of
             (True, st1) \<Rightarrow> keepDeliveries run now ds st1
           | (False, st1) \<Rightarrow>
               (case getUpdateDelivery run (d_eventKey d) st1 of
                  (settled, st2) \<Rightarrow>
                    (case keepDeliveries run now ds st2 of
                       (kept, st') \<Rightarrow> ((case settled of Some s \<Rightarrow> s # kept | None \<Rightarrow> kept), st'))))"

definition withoutAbandonedDeliveries :: "('p, 'b) backend \<Rightarrow> int \<Rightarrow> 'p row list \<Rightarrow> 'b updateDb \<Rightarrow> 'p row list \<times> 'b updateDb" where
  "withoutAbandonedDeliveries run now deliveries st =
     (if \<forall>d\<in>set deliveries. d_payload d \<noteq> None then (deliveries, st) else keepDeliveries run now deliveries st)"

section \<open>Payloads\<close>

datatype ('m, 'u) tlUpdate = NewMessage 'm | NewChannelMessage 'm | ChannelTooLong nat int | OtherUpdate 'u

record ('m, 'u) tlPayload =
  pl_updates :: "('m, 'u) tlUpdate list"
  pl_chats :: "(string \<times> 'u) list"
  pl_users :: "(string \<times> 'u) list"

fun messageOf :: "('m, 'u) tlUpdate \<Rightarrow> 'm option" where
  "messageOf (NewMessage m) = Some m"
| "messageOf (NewChannelMessage m) = Some m"
| "messageOf _ = None"

fun channelMessageOf :: "('m, 'u) tlUpdate \<Rightarrow> 'm option" where
  "channelMessageOf (NewChannelMessage m) = Some m"
| "channelMessageOf _ = None"

text \<open>What a difference collects from its rows: new messages, other updates, chats and users.\<close>

record ('m, 'u) collected =
  co_messages :: "'m list"
  co_others :: "('m, 'u) tlUpdate list"
  co_chats :: "(string, 'u) jsmap"
  co_users :: "(string, 'u) jsmap"

definition nothingCollected :: "('m, 'u) collected" where
  "nothingCollected = \<lparr>co_messages = [], co_others = [], co_chats = [], co_users = []\<rparr>"

definition setAll :: "(string \<times> 'u) list \<Rightarrow> (string, 'u) jsmap \<Rightarrow> (string, 'u) jsmap" where
  "setAll entries m = foldl (\<lambda>m (k, v). js_set k v m) m entries"

definition collectPayload ::
  "(('m, 'u) tlUpdate \<Rightarrow> 'm option) \<Rightarrow> bool \<Rightarrow> ('m, 'u) tlPayload \<Rightarrow> ('m, 'u) collected \<Rightarrow> ('m, 'u) collected" where
  "collectPayload isMessage keepOthers p c =
     \<lparr>co_messages = co_messages c @ List.map_filter isMessage (pl_updates p),
      co_others = co_others c @ (if keepOthers then filter (\<lambda>u. isMessage u = None) (pl_updates p) else []),
      co_chats = setAll (pl_chats p) (co_chats c), co_users = setAll (pl_users p) (co_users c)\<rparr>"

definition collectRow ::
  "(('m, 'u) tlUpdate \<Rightarrow> 'm option) \<Rightarrow> bool \<Rightarrow> ('m, 'u) tlPayload row \<Rightarrow> ('m, 'u) collected \<Rightarrow> ('m, 'u) collected" where
  "collectRow isMessage keepOthers d c =
     (case d_payload d of None \<Rightarrow> c | Some p \<Rightarrow> collectPayload isMessage keepOthers p c)"

end
