(* ===== verification/Update_Difference.thy ===== *)
theory Update_Difference
  imports Update_Sequence
begin

text \<open>
  \<open>getDifference\<close> and \<open>getChannelDifference\<close> of \<open>packages/bridge/src/update-manager.ts\<close>: the answer to a
  client that asks for everything after its own pts, over a backend of the update log.

  The clock is read twice: \<open>now\<close> for the first pass over the rows and \<open>later\<close> after a wait. The wait polls
  the log at fixed intervals; each element of \<open>sleeps\<close> is what the other operations do during one interval,
  and the list ends at the deadline.
\<close>

section \<open>Reading the rows of a difference\<close>

definition readDeliveries ::
  "('p, 'b) backend \<Rightarrow> int \<Rightarrow> string \<Rightarrow> int \<Rightarrow> nat option \<Rightarrow> 'b updateDb \<Rightarrow> 'p row list \<times> 'b updateDb" where
  "readDeliveries run now session pts channelId st =
     (case getUpdateDeliveriesAfter run session pts 101 channelId st of
        (rows, st1) \<Rightarrow> withoutAbandonedDeliveries run now rows st1)"

fun awaitPendingDelivery ::
  "('p, 'b) backend \<Rightarrow> string \<Rightarrow> ('b updateDb \<Rightarrow> 'b updateDb) list \<Rightarrow> 'b updateDb \<Rightarrow> 'b updateDb" where
  "awaitPendingDelivery run eventKey [] st = st"
| "awaitPendingDelivery run eventKey (sleep # sleeps) st =
     (case getUpdateDelivery run eventKey (sleep st) of
        (None, st1) \<Rightarrow> st1
      | (Some d, st1) \<Rightarrow> if d_payload d \<noteq> None then st1 else awaitPendingDelivery run eventKey sleeps st1)"

definition ready :: "'p row list \<Rightarrow> 'p row list" where
  "ready deliveries = takeWhile (\<lambda>d. d_payload d \<noteq> None) deliveries"

definition pageSize :: "int \<Rightarrow> nat" where
  "pageSize requested = nat (max 1 (min requested 100))"

fun markAllPublished :: "('p, 'b) backend \<Rightarrow> 'p row list \<Rightarrow> 'b updateDb \<Rightarrow> 'b updateDb" where
  "markAllPublished run [] st = st"
| "markAllPublished run (d # ds) st = markAllPublished run ds (markUpdatePublished run (d_eventKey d) st)"

definition collectRows ::
  "(('m, 'u) tlUpdate \<Rightarrow> 'm option) \<Rightarrow> bool \<Rightarrow> ('m, 'u) tlPayload row list \<Rightarrow> ('m, 'u) collected \<Rightarrow> ('m, 'u) collected" where
  "collectRows isMessage keepOthers rows c = fold (collectRow isMessage keepOthers) rows c"

section \<open>Channel differences\<close>

datatype resetReason = ClientAhead | Pruned | Backlog

text \<open>The pts reached from \<open>cursor\<close> through rows that follow each other without a gap.\<close>

fun walkPts :: "int \<Rightarrow> 'p row list \<Rightarrow> int option" where
  "walkPts cursor [] = Some cursor"
| "walkPts cursor (d # ds) =
     (if d_ptsCount d \<le> 0 then walkPts cursor ds
      else if d_pts d - d_ptsCount d \<noteq> cursor then None
      else walkPts (d_pts d) ds)"

definition channelResetReason :: "int \<Rightarrow> int \<Rightarrow> 'p row list \<Rightarrow> resetReason option" where
  "channelResetReason pts latestPts deliveries =
     (if latestPts < pts then Some ClientAhead
      else if pts = latestPts then None
      else if walkPts pts deliveries = None then Some Pruned
      else if deliveries = [] then Some Pruned
      else if CHANNEL_DIFFERENCE_MAX_PENDING < latestPts - pts then Some Backlog
      else None)"

text \<open>A channel difference: final, pts, timeout; \<open>ChannelReset\<close> is \<open>updates.channelDifferenceTooLong\<close>.\<close>

datatype ('m, 'u, 'r) channelDifference =
    ChannelDifferenceEmpty bool int int
  | ChannelDifference bool int int "('m, 'u) collected"
  | ChannelReset 'r

datatype differenceError = CHANNEL_INVALID

record channelRequest =
  cr_channel :: "nat option"
  cr_pts :: int
  cr_limit :: int

text \<open>\<open>buildTooLong\<close>: the caller's reset for a channel and its pts, \<open>None\<close> when there is none.\<close>

definition getChannelDifference ::
  "(('m, 'u) tlPayload, 'b) backend \<Rightarrow> (nat \<Rightarrow> int \<Rightarrow> 'r option) \<Rightarrow> int \<Rightarrow> string \<Rightarrow> channelRequest \<Rightarrow> 'b updateDb \<Rightarrow>
   (differenceError + ('m, 'u, 'r) channelDifference) \<times> 'b updateDb" where
  "getChannelDifference run buildTooLong now session request st =
     (case cr_channel request of None \<Rightarrow> (Inl CHANNEL_INVALID, st) | Some channelId \<Rightarrow>
       (let state = getChannelUpdateState now session channelId st;
            pts = cr_pts request
        in case readDeliveries run now session pts (Some channelId) st of (deliveries, st1) \<Rightarrow>
          (let reset = (if channelResetReason pts (cs_pts state) deliveries = None then None
                        else buildTooLong channelId (cs_pts state));
               readyDeliveries = ready deliveries;
               page = take (pageSize (cr_limit request)) readyDeliveries
           in case reset of
                Some r \<Rightarrow> (Inr (ChannelReset r), st1)
              | None \<Rightarrow>
                  if deliveries = [] then
                    (Inr (ChannelDifferenceEmpty True (cs_pts state) CHANNEL_POLL_TIMEOUT_SECONDS), st1)
                  else if page = [] then
                    (Inr (ChannelDifferenceEmpty True pts PENDING_CHANNEL_POLL_TIMEOUT_SECONDS), st1)
                  else
                    (Inr (ChannelDifference (length page = length readyDeliveries) (d_pts (last page))
                       (if readyDeliveries = deliveries then CHANNEL_POLL_TIMEOUT_SECONDS
                        else PENDING_CHANNEL_POLL_TIMEOUT_SECONDS)
                       (collectRows channelMessageOf True page nothingCollected)),
                     markAllPublished run page st1))))"

section \<open>Account differences\<close>

record diffRequest =
  dr_pts :: int
  dr_qts :: int
  dr_date :: int
  dr_ptsLimit :: "int option"
  dr_ptsTotalLimit :: "int option"

datatype ('m, 'u) difference =
    DifferenceEmpty int int
  | DifferenceSlice "('m, 'u) collected" updateState
  | Difference "('m, 'u) collected" updateState

text \<open>\<open>Number\<close> on the texts the scopes hold: decimal digits, or nothing, which is 0.\<close>

definition decimalValue :: "string \<Rightarrow> nat option" where
  "decimalValue s =
     (if \<forall>c\<in>set s. 48 \<le> (of_char c :: nat) \<and> (of_char c :: nat) \<le> 57
      then Some (foldl (\<lambda>n c. 10 * n + (of_char c - 48)) 0 s) else None)"

definition channelScopeId :: "string \<Rightarrow> nat option" where
  "channelScopeId scope =
     (if \<not> isChannelScope scope then None
      else case decimalValue (drop (length ''channel:'') scope) of
             None \<Rightarrow> None | Some n \<Rightarrow> if isSafeInteger (int n) then Some n else None)"

definition changedChannels :: "(string \<times> int) list \<Rightarrow> (nat, int) jsmap" where
  "changedChannels scopes = foldl (\<lambda>m (scope, pts). case channelScopeId scope of
       None \<Rightarrow> m
     | Some c \<Rightarrow> js_set c (max (case js_get m c of Some old \<Rightarrow> old | None \<Rightarrow> 0) pts) m) [] scopes"

text \<open>A page of channel rows, then the newest row of each changed channel that the page does not cover.\<close>

definition mirrored :: "'p row list \<Rightarrow> 'p row list" where
  "mirrored rows = filter (\<lambda>d. \<not> (d_payload d = None \<or> d_ptsCount d \<le> 0)) rows"

fun newestOfChannels ::
  "('p, 'b) backend \<Rightarrow> string \<Rightarrow> string set \<Rightarrow> (string \<times> int) list \<Rightarrow> 'b updateDb \<Rightarrow> 'p row list \<times> 'b updateDb" where
  "newestOfChannels run session covered [] st = ([], st)"
| "newestOfChannels run session covered ((scope, pts) # scopes) st =
     (if scope \<in> covered then newestOfChannels run session covered scopes st
      else case channelScopeId scope of
             None \<Rightarrow> newestOfChannels run session covered scopes st
           | Some c \<Rightarrow>
               (case getUpdateDeliveriesAfter run session (max 0 (pts - 1)) 1 (Some c) st of
                  (rows, st1) \<Rightarrow>
                    (case newestOfChannels run session covered scopes st1 of
                       (found, st2) \<Rightarrow> (filter (\<lambda>d. d_payload d \<noteq> None) (take 1 rows) @ found, st2))))"

definition mirrorChannels ::
  "(('m, 'u) tlPayload, 'b) backend \<Rightarrow> string \<Rightarrow> int \<Rightarrow> (string \<times> int) list \<Rightarrow> ('m, 'u) collected \<Rightarrow> 'b updateDb \<Rightarrow>
   ('m, 'u) collected \<times> 'b updateDb" where
  "mirrorChannels run session date scopes c st =
     (case getChannelUpdateDeliveriesSince run session date CHANNEL_MIRROR_PAGE st of
        (rows, st1) \<Rightarrow>
          (case newestOfChannels run session (d_scope ` set (mirrored rows)) scopes st1 of
             (found, st2) \<Rightarrow> (collectRows channelMessageOf False (mirrored rows @ found) c, st2)))"

definition tooLongMarks :: "(string \<times> int) list \<Rightarrow> ('m, 'u) tlUpdate list" where
  "tooLongMarks scopes = map (\<lambda>(channelId, pts). ChannelTooLong channelId pts) (changedChannels scopes)"

definition requestedLimit :: "diffRequest \<Rightarrow> int" where
  "requestedLimit request = (case dr_ptsLimit request of Some n \<Rightarrow> n
     | None \<Rightarrow> (case dr_ptsTotalLimit request of Some n \<Rightarrow> n | None \<Rightarrow> 100))"

text \<open>The rows of the difference: read again after a wait when the first one is under construction.\<close>

definition settledDeliveries ::
  "('p, 'b) backend \<Rightarrow> ('b updateDb \<Rightarrow> 'b updateDb) list \<Rightarrow> int \<Rightarrow> int \<Rightarrow> string \<Rightarrow> int \<Rightarrow> 'b updateDb \<Rightarrow>
   'p row list \<times> 'b updateDb" where
  "settledDeliveries run sleeps now later session pts st =
     (case readDeliveries run now session pts None st of
        ([], st1) \<Rightarrow> ([], st1)
      | (d # ds, st1) \<Rightarrow>
          if d_payload d \<noteq> None then (d # ds, st1)
          else readDeliveries run later session pts None (awaitPendingDelivery run (d_eventKey d) sleeps st1))"

definition differenceAnswer ::
  "diffRequest \<Rightarrow> updateState \<Rightarrow> 'p row list \<Rightarrow> 'p row list \<Rightarrow> ('m, 'u) collected \<Rightarrow> ('m, 'u) difference" where
  "differenceAnswer request state deliveries page content =
     (if page = [] \<and> deliveries \<noteq> []
      then DifferenceSlice content \<lparr>us_pts = dr_pts request, us_qts = dr_qts request,
             us_seq = max 0 (d_seq (hd deliveries) - 1), us_date = dr_date request\<rparr>
      else if length page < length deliveries
      then DifferenceSlice content \<lparr>us_pts = d_pts (last page), us_qts = us_qts state,
             us_seq = d_seq (last page), us_date = d_date (last page)\<rparr>
      else Difference content state)"

definition getDifference ::
  "(('m, 'u) tlPayload, 'b) backend \<Rightarrow> ('b updateDb \<Rightarrow> 'b updateDb) list \<Rightarrow> int \<Rightarrow> int \<Rightarrow> string \<Rightarrow> diffRequest \<Rightarrow>
   'b updateDb \<Rightarrow> ('m, 'u) difference \<times> 'b updateDb" where
  "getDifference run sleeps now later session request st =
     (let state = getUpdateState now session st
      in case settledDeliveries run sleeps now later session (dr_pts request) st of (deliveries, st1) \<Rightarrow>
        (case getChangedChannelScopes run session (dr_date request) st1 of (scopes, st2) \<Rightarrow>
          if deliveries = [] \<and> scopes = [] \<and> dr_pts request = us_pts state
          then (DifferenceEmpty (us_date state) (us_seq state), st2)
          else
            (let page = take (pageSize (requestedLimit request)) (ready deliveries);
                 own = collectRows messageOf True page nothingCollected
             in case mirrorChannels run session (dr_date request) scopes own st2 of (c, st3) \<Rightarrow>
                  (differenceAnswer request state deliveries page
                     (c\<lparr>co_others := co_others c @ tooLongMarks scopes\<rparr>),
                   markAllPublished run page st3))))"

end
