(* ===== verification/Update_Sequence_Safety.thy ===== *)
theory Update_Sequence_Safety
  imports Update_Difference Update_Store_Memory
begin

text \<open>
  The numbering of updates over any backend that implements the update log: the intervals of pts that
  the rows of a scope reserve are disjoint, and an event is numbered once; what a difference reads.
\<close>

section \<open>Rows under construction\<close>

definition dropped :: "int \<Rightarrow> 'p row \<Rightarrow> bool" where
  "dropped now d \<longleftrightarrow> d_payload d = None \<and> abandoned now d"

definition sameCounters :: "'b updateDb \<Rightarrow> 'c updateDb \<Rightarrow> bool" where
  "sameCounters st st' \<longleftrightarrow> ud_account st' = ud_account st \<and> ud_channel st' = ud_channel st"

lemma sameCounters_refl [simp]: "sameCounters st st" "sameCounters st (st\<lparr>ud_log := b\<rparr>)"
  by (simp_all add: sameCounters_def)

lemma sameCounters_trans: "sameCounters st st1 \<Longrightarrow> sameCounters st1 st2 \<Longrightarrow> sameCounters st st2"
  by (simp add: sameCounters_def)

lemma sameCounters_tell [simp]: "sameCounters st (tell run op st)"
  by (simp add: tell_def)

lemma sameCounters_eq:
  assumes "sameCounters st st'"
  shows "accountOf s st' = accountOf s st" "accountPts s st' = accountPts s st" "channelPts s c st' = channelPts s c st"
proof -
  show a: "accountPts s st' = accountPts s st" using assms by (simp add: sameCounters_def accountPts_def)
  show "accountOf s st' = accountOf s st" "channelPts s c st' = channelPts s c st"
    using assms a by (simp_all add: sameCounters_def accountOf_def channelPts_def split: option.split)
qed

text \<open>The first rows after a pts.\<close>

definition rowsAfter :: "string \<Rightarrow> nat option \<Rightarrow> int \<Rightarrow> 'p row list \<Rightarrow> 'p row list" where
  "rowsAfter session c pts log = sort_key d_pts (filter (\<lambda>d. inScope session (scopeOf c) d \<and> pts < d_pts d) log)"

lemma find_by_key: "distinct (map f xs) \<Longrightarrow> d \<in> set xs \<Longrightarrow> find (\<lambda>x. f x = f d) xs = Some d"
  by (induction xs) (auto simp: image_iff)

lemma filter_by_key: "distinct (map f xs) \<Longrightarrow> d \<in> set xs \<Longrightarrow> filter (\<lambda>x. f x \<noteq> f d) xs = filter (\<lambda>x. x \<noteq> d) xs"
  by (intro filter_cong) (auto simp: distinct_map inj_on_def)

section \<open>A log whose rows are found by their keys\<close>

locale keyed_update_store = update_store run inv abs retention
  for run :: "'p storeOp \<Rightarrow> 's \<Rightarrow> 'p storeAnswer \<times> 's" and inv abs retention +
  assumes distinct_keys: "inv s \<Longrightarrow> distinct (map d_eventKey (abs s))"
begin

lemma tell_ok:
  assumes "inv (ud_log st)" "plainOp op"
  shows "inv (ud_log (tell run op st))" "abs (ud_log (tell run op st)) = snd (specRun retention op (abs (ud_log st)))"
  using assms by (simp_all add: tell_def run_inv run_abs)

lemma ask_ok:
  assumes "inv (ud_log st)" "plainOp op"
  shows "askRow run op st = (r, st1) \<Longrightarrow>
      r = (case fst (specRun retention op (abs (ud_log st))) of RowAnswer r \<Rightarrow> r | _ \<Rightarrow> None) \<and> inv (ud_log st1) \<and>
      abs (ud_log st1) = snd (specRun retention op (abs (ud_log st))) \<and> sameCounters st st1"
    and "askRows run op st = (rs, st1) \<Longrightarrow>
      rs = (case fst (specRun retention op (abs (ud_log st))) of RowsAnswer rs \<Rightarrow> rs | _ \<Rightarrow> []) \<and> inv (ud_log st1) \<and>
      abs (ud_log st1) = snd (specRun retention op (abs (ud_log st))) \<and> sameCounters st st1"
    and "askScopes run op st = (scs, st1) \<Longrightarrow> inv (ud_log st1) \<and>
      abs (ud_log st1) = snd (specRun retention op (abs (ud_log st))) \<and> sameCounters st st1"
  using run_inv [OF assms] run_answer [OF assms] run_abs [OF assms]
  by (auto simp: askRow_def askRows_def askScopes_def split_beta prod_eq_iff)

lemma get_ok:
  assumes "inv (ud_log st)" "getUpdateDelivery run ek st = (r, st1)"
  shows "r = find (\<lambda>d. d_eventKey d = ek) (abs (ud_log st)) \<and> inv (ud_log st1) \<and> abs (ud_log st1) = abs (ud_log st) \<and>
    sameCounters st st1"
  using ask_ok(1) [OF assms(1), of "StoreGet ek"] assms(2) by (simp add: getUpdateDelivery_def specRun_def)

lemma after_ok:
  assumes "inv (ud_log st)" "CHR 0x00 \<notin> set session" "getUpdateDeliveriesAfter run session pts limit c st = (rs, st1)"
  shows "rs = take (limitOf limit) (rowsAfter session c pts (abs (ud_log st))) \<and>
    inv (ud_log st1) \<and> abs (ud_log st1) = abs (ud_log st) \<and> sameCounters st st1"
  using ask_ok(2) [OF assms(1), of "StoreGetAfter session (scopeOf c) pts limit"] assms(2,3)
  by (simp add: getUpdateDeliveriesAfter_def specRun_def plainOp_def rowsAfter_def)

lemma discard_ok:
  assumes i: "inv (ud_log st)" and d: "d \<in> set (abs (ud_log st))"
    and e: "discardAbandonedUpdateDelivery run now (d_eventKey d) st = (b, st1)"
  shows "b = dropped now d \<and> inv (ud_log st1) \<and> sameCounters st st1 \<and>
    abs (ud_log st1) = (if dropped now d then filter (\<lambda>x. x \<noteq> d) (abs (ud_log st)) else abs (ud_log st))"
proof -
  obtain r st2 where g: "askRow run (StoreGet (d_eventKey d)) st = (r, st2)" by (cases "askRow run (StoreGet (d_eventKey d)) st")
  from ask_ok(1) [OF i _ g] have r: "r = Some d" "inv (ud_log st2)" "abs (ud_log st2) = abs (ud_log st)" "sameCounters st st2"
    by (simp_all add: specRun_def find_by_key [OF distinct_keys [OF i] d])
  show ?thesis
  proof (cases "dropped now d")
    case True
    then have "b" "st1 = tell run (StoreRemove (d_eventKey d)) st2"
      using e g r(1) by (auto simp: discardAbandonedUpdateDelivery_def discardUpdateDelivery_def dropped_def)
    then show ?thesis using True r tell_ok [OF r(2), of "StoreRemove (d_eventKey d)"]
      by (auto simp: specRun_def filter_by_key [OF distinct_keys [OF i] d] intro: sameCounters_trans)
  next
    case False
    then have "\<not> b" "st1 = st2"
      using e g r(1) by (auto simp: discardAbandonedUpdateDelivery_def discardUpdateDelivery_def dropped_def split: if_splits)
    then show ?thesis using False r by simp
  qed
qed

lemma keep_ok:
  assumes "inv (ud_log st)" "set ds \<subseteq> set (abs (ud_log st))" "distinct ds" "keepDeliveries run now ds st = (ks, st1)"
  shows "ks = filter (\<lambda>d. \<not> dropped now d) ds \<and> inv (ud_log st1) \<and> sameCounters st st1 \<and>
    abs (ud_log st1) = filter (\<lambda>d. \<not> (dropped now d \<and> d \<in> set ds)) (abs (ud_log st))"
  using assms
proof (induction ds arbitrary: st ks st1)
  case (Cons d ds)
  note i = Cons.prems(1) and sub = Cons.prems(2) and dist = Cons.prems(3)
  show ?case
  proof (cases "d_payload d = None")
    case False
    obtain ks' st' where k: "keepDeliveries run now ds st = (ks', st')" by (cases "keepDeliveries run now ds st")
    have "\<not> dropped now d" using False by (simp add: dropped_def)
    then show ?thesis using Cons.IH [OF i _ _ k] Cons.prems False k by (auto intro: filter_cong)
  next
    case True
    obtain b st2 where b: "discardAbandonedUpdateDelivery run now (d_eventKey d) st = (b, st2)"
      by (cases "discardAbandonedUpdateDelivery run now (d_eventKey d) st")
    have d: "d \<in> set (abs (ud_log st))" using sub by simp
    note dis = discard_ok [OF i d b]
    show ?thesis
    proof (cases "dropped now d")
      case True': True
      then have k: "keepDeliveries run now ds st2 = (ks, st1)" using Cons.prems(4) True b dis by simp
      have "set ds \<subseteq> set (abs (ud_log st2))" using True' dis sub dist by auto
      from Cons.IH [OF _ this _ k] dis True' dist show ?thesis
        by (auto intro!: filter_cong intro: sameCounters_trans)
    next
      case False
      obtain s st3 where g: "getUpdateDelivery run (d_eventKey d) st2 = (s, st3)" by (cases "getUpdateDelivery run (d_eventKey d) st2")
      obtain ks' st4 where k: "keepDeliveries run now ds st3 = (ks', st4)" by (cases "keepDeliveries run now ds st3")
      from get_ok [OF _ g] dis False have g': "s = Some d" "inv (ud_log st3)" "abs (ud_log st3) = abs (ud_log st)" "sameCounters st st3"
        using find_by_key [OF distinct_keys [OF i] d] by (auto intro: sameCounters_trans)
      have "ks = d # ks'" "st1 = st4" using Cons.prems(4) True b dis False g g'(1) k by simp_all
      with Cons.IH [OF g'(2) _ _ k] g' sub dist False show ?thesis
        by (auto intro!: filter_cong intro: sameCounters_trans)
    qed
  qed
qed (simp_all add: filter_True)

text \<open>The rows of a difference: the first 101 after the client's pts, without the abandoned ones, which
  leave the log.\<close>

lemma read_ok:
  fixes st :: "'s updateDb"
  fixes session c pts
  defines "rows \<equiv> take 101 (rowsAfter session c pts (abs (ud_log st)))"
  assumes i: "inv (ud_log st)" and s: "CHR 0x00 \<notin> set session" and r: "readDeliveries run now session pts c st = (ds, st1)"
  shows "ds = filter (\<lambda>d. \<not> dropped now d) rows \<and> inv (ud_log st1) \<and> sameCounters st st1 \<and>
    abs (ud_log st1) = filter (\<lambda>d. \<not> (dropped now d \<and> d \<in> set rows)) (abs (ud_log st))"
proof -
  obtain rs st2 where a: "getUpdateDeliveriesAfter run session pts 101 c st = (rs, st2)"
    by (cases "getUpdateDeliveriesAfter run session pts 101 c st")
  from after_ok [OF i s a] have a': "rs = rows" "inv (ud_log st2)" "abs (ud_log st2) = abs (ud_log st)" "sameCounters st st2"
    by (simp_all add: rows_def limitOf_def)
  have sub: "set rows \<subseteq> set (abs (ud_log st2))" by (auto simp: rows_def rowsAfter_def a' dest: in_set_takeD)
  have dist: "distinct rows" using distinct_keys [OF i] by (simp add: rows_def rowsAfter_def distinct_map)
  have w: "withoutAbandonedDeliveries run now rows st2 = (ds, st1)" using r a a'(1) by (simp add: readDeliveries_def)
  show ?thesis
  proof (cases "\<forall>d\<in>set rows. d_payload d \<noteq> None")
    case True
    then have "\<forall>d\<in>set rows. \<not> dropped now d" by (simp add: dropped_def)
    then have "filter (\<lambda>d. \<not> dropped now d) rows = rows"
      "filter (\<lambda>d. \<not> (dropped now d \<and> d \<in> set rows)) (abs (ud_log st)) = abs (ud_log st)" by (auto intro: filter_True)
    with True w a' show ?thesis by (simp add: withoutAbandonedDeliveries_def)
  next
    case False
    then have "keepDeliveries run now rows st2 = (ds, st1)" using w unfolding withoutAbandonedDeliveries_def by presburger
    from keep_ok [OF a'(2) sub dist this] a' show ?thesis by (auto intro: sameCounters_trans)
  qed
qed

end

section \<open>Steps\<close>

text \<open>The writes of the numbering, each of them serialised by the store, and its reads.\<close>

fun readOp :: "'p storeOp \<Rightarrow> bool" where
  "readOp (StoreGet _) = True"
| "readOp (StoreGetPending _) = True"
| "readOp (StoreGetAfter _ _ _ _) = True"
| "readOp (StoreGetFirst _ _) = True"
| "readOp (StoreGetSince _ _ _) = True"
| "readOp (StoreGetChanged _ _) = True"
| "readOp _ = False"

inductive update_step :: "('p, 'b) backend \<Rightarrow> 'b updateDb \<Rightarrow> 'b updateDb \<Rightarrow> bool" for run where
  prepare: "CHR 0x00 \<notin> set session \<Longrightarrow> 0 \<le> ptsCount \<Longrightarrow>
     update_step run st (snd (prepareUpdateDelivery run now ek session ptsCount date c st))"
| advance: "advancePts session ptsCount date c st = Some (pts, st') \<Longrightarrow> update_step run st st'"
| advanceState: "0 \<le> ptsCount \<Longrightarrow> update_step run st (snd (advanceUpdateState session ptsCount date st))"
| setPayload: "update_step run st (setUpdatePayload run ek payload st)"
| published: "update_step run st (markUpdatePublished run ek st)"
| discard: "update_step run st (snd (discardUpdateDelivery run now ek onlyIfAbandoned st))"
| prune: "CHR 0x00 \<notin> set session \<Longrightarrow> update_step run st (pruneUpdateDeliveries run session st)"
| ask: "readOp op \<Longrightarrow> plainOp op \<Longrightarrow> update_step run st (tell run op st)"

abbreviation update_steps :: "('p, 'b) backend \<Rightarrow> 'b updateDb \<Rightarrow> 'b updateDb \<Rightarrow> bool" where
  "update_steps run \<equiv> (update_step run)\<^sup>*\<^sup>*"

section \<open>Counters\<close>

definition scopePts :: "string \<Rightarrow> nat option \<Rightarrow> 'b updateDb \<Rightarrow> int" where
  "scopePts session c st = (case c of None \<Rightarrow> accountPts session st | Some n \<Rightarrow> channelPts session n st)"

definition hasCounter :: "string \<Rightarrow> nat option \<Rightarrow> 'b updateDb \<Rightarrow> bool" where
  "hasCounter session c st \<longleftrightarrow> (case c of None \<Rightarrow> js_has (ud_account st) session | Some n \<Rightarrow> js_has (ud_channel st) (session, n))"

definition countersGrow :: "'b updateDb \<Rightarrow> 'c updateDb \<Rightarrow> bool" where
  "countersGrow st st' \<longleftrightarrow> (\<forall>s c. (hasCounter s c st \<longrightarrow> hasCounter s c st') \<and> scopePts s c st \<le> scopePts s c st')"

lemma scopeOf_inj: "scopeOf c = scopeOf c' \<longleftrightarrow> c = c'"
  by (cases c; cases c')
    (auto simp: scopeOf_def ACCOUNT_UPDATE_SCOPE_def channelUpdateScope_def dest: decString_inj)

lemma countersGrow_same: "sameCounters st st' \<Longrightarrow> countersGrow st st'"
  by (simp add: countersGrow_def hasCounter_def scopePts_def sameCounters_eq split: option.split)
    (simp add: sameCounters_def)

lemma accountOf_pts [simp]: "us_pts (accountOf s st) = accountPts s st"
  by (simp add: accountOf_def accountPts_def split: option.split)

lemma account_set:
  assumes "accountPts s st \<le> us_pts a"
  shows "countersGrow st (st\<lparr>ud_account := js_set s a (ud_account st)\<rparr>)"
  using assms unfolding countersGrow_def
  by (auto simp: hasCounter_def scopePts_def accountPts_def channelPts_def update_conv' split: option.split)

lemma channel_set:
  assumes "channelPts s n st \<le> cs_pts a"
  shows "countersGrow st (st\<lparr>ud_channel := js_set (s, n) a (ud_channel st)\<rparr>)"
  using assms unfolding countersGrow_def
  by (auto simp: hasCounter_def scopePts_def accountPts_def channelPts_def update_conv' split: option.split)

lemma countersGrow_trans: "countersGrow st st1 \<Longrightarrow> countersGrow st1 st2 \<Longrightarrow> countersGrow st st2"
  unfolding countersGrow_def by (meson order_trans)

lemma advancePts_grow:
  "advancePts session k date c st = Some (pts, st') \<Longrightarrow> countersGrow st st' \<and> ud_log st' = ud_log st"
  by (cases c) (auto simp: advancePts_def Let_def split: if_splits intro!: account_set channel_set)

lemma advanceUpdateState_grow:
  "0 \<le> k \<Longrightarrow> countersGrow st (snd (advanceUpdateState session k date st)) \<and> ud_log (snd (advanceUpdateState session k date st)) = ud_log st"
  by (auto simp: advanceUpdateState_def Let_def intro!: account_set)

lemma allocate_grow:
  assumes "allocateUpdate session k date c st = ((pts, seq, d), st')" and "0 \<le> k"
  shows "countersGrow st st' \<and> hasCounter session c st' \<and> scopePts session c st' = scopePts session c st + k \<and>
    pts = scopePts session c st' \<and> ud_log st' = ud_log st"
proof (cases c)
  case None
  with assms show ?thesis
    by (auto simp: allocateUpdate_def Let_def hasCounter_def scopePts_def accountPts_def update_conv' intro!: account_set)
next
  case (Some n)
  define a where "a = (let a = accountOf session st in \<lparr>us_pts = us_pts a, us_qts = us_qts a, us_seq = us_seq a + 1,
    us_date = max (us_date a) date\<rparr>)"
  define st1 where "st1 = st\<lparr>ud_account := js_set session a (ud_account st)\<rparr>"
  have a: "us_pts a = accountPts session st" by (simp add: a_def Let_def)
  have g: "countersGrow st st1" using account_set [of session st a] by (simp add: st1_def a)
  have "channelPts session n st1 = channelPts session n st"
    by (simp add: st1_def channelPts_def accountPts_def update_conv' a split: option.split)
  moreover define ch where "ch = \<lparr>cs_pts = channelPts session n st + k,
    cs_date = max (case js_get (ud_channel st) (session, n) of Some o' \<Rightarrow> cs_date o' | None \<Rightarrow> 0) (max (us_date (accountOf session st)) date)\<rparr>"
  moreover have st': "st' = st1\<lparr>ud_channel := js_set (session, n) ch (ud_channel st1)\<rparr>" "pts = cs_pts ch"
    using assms(1) by (auto simp: Some allocateUpdate_def Let_def st1_def a_def ch_def)
  moreover have "cs_pts ch = channelPts session n st + k" by (simp add: ch_def)
  moreover note g channel_set [of session n st1 ch] assms(2)
  ultimately have "countersGrow st st'" "js_get (ud_channel st') (session, n) = Some ch" "ud_log st' = ud_log st"
    by (auto intro: countersGrow_trans simp: update_conv' st1_def)
  with \<open>cs_pts ch = _\<close> \<open>pts = _\<close> show ?thesis
    by (simp add: Some scopePts_def hasCounter_def channelPts_def)
qed

section \<open>Numbered rows\<close>

definition follows :: "'p row \<Rightarrow> 'p row \<Rightarrow> bool" where
  "follows a b \<longleftrightarrow> d_pts a \<le> d_pts b - d_ptsCount b"

definition numberedRows :: "'p row list \<Rightarrow> 'b updateDb \<Rightarrow> bool" where
  "numberedRows log st \<longleftrightarrow>
     (\<forall>d\<in>set log. 0 \<le> d_ptsCount d \<and>
        (\<exists>c. d_scope d = scopeOf c \<and> hasCounter (d_session d) c st \<and> d_pts d \<le> scopePts (d_session d) c st)) \<and>
     (\<forall>s sc. sorted_wrt follows (filter (inScope s sc) log))"

lemma numberedRows_grow: "numberedRows log st \<Longrightarrow> countersGrow st st' \<Longrightarrow> numberedRows log st'"
  unfolding numberedRows_def countersGrow_def by (meson order_trans)

lemma sorted_dropFirst: "sorted_wrt R (filter Q xs) \<Longrightarrow> sorted_wrt R (filter Q (dropFirst P n xs))"
proof (induction P n xs rule: dropFirst.induct)
  case (3 P n x xs)
  then show ?case using set_dropFirst [of P "Suc n" xs] by (auto split: if_splits)
qed simp_all

lemma numberedRows_shrink:
  assumes "numberedRows log st"
  shows "numberedRows (dropFirst P n log) st" "numberedRows (filter P log) st"
proof -
  have "sorted_wrt follows (filter (inScope s sc) (filter P log))" for s sc
    using assms sorted_wrt_filter [of follows "filter (inScope s sc) log" P]
    by (simp add: numberedRows_def conj_commute)
  then show "numberedRows (dropFirst P n log) st" "numberedRows (filter P log) st"
    using assms set_dropFirst [of P n log] by (auto simp: numberedRows_def sorted_dropFirst dest: subsetD)
qed

lemma numberedRows_update:
  assumes "\<And>d. d_session (f d) = d_session d \<and> d_scope (f d) = d_scope d \<and> d_pts (f d) = d_pts d \<and> d_ptsCount (f d) = d_ptsCount d"
    and "numberedRows log st"
  shows "numberedRows (updateRow ek f log) st"
proof -
  let ?f = "\<lambda>d. if d_eventKey d = ek then f d else d"
  have f: "d_session (?f d) = d_session d" "d_scope (?f d) = d_scope d" "d_pts (?f d) = d_pts d"
    "d_ptsCount (?f d) = d_ptsCount d" "inScope s sc (?f d) = inScope s sc d" for d s sc
    using assms(1) by (auto simp: inScope_def)
  have "sorted_wrt follows (filter (inScope s sc) (map ?f log))" for s sc
    using assms(2) by (simp add: filter_map o_def f sorted_wrt_map follows_def [abs_def] numberedRows_def)
  then show ?thesis using assms(2) unfolding numberedRows_def updateRow_def set_map ball_simps by (simp only: f simp_thms) blast
qed

lemma numberedRows_append:
  assumes "numberedRows log st" "countersGrow st st'" "0 \<le> d_ptsCount d" "d_scope d = scopeOf c"
    "hasCounter (d_session d) c st'" "scopePts (d_session d) c st' = scopePts (d_session d) c st + d_ptsCount d"
    "d_pts d = scopePts (d_session d) c st'"
  shows "numberedRows (log @ [d]) st'"
proof -
  have "follows x d" if "x \<in> set log" "inScope (d_session d) (d_scope d) x" for x
    using that assms(1,4,6,7) by (auto simp: numberedRows_def follows_def inScope_def scopeOf_inj)
  then have "sorted_wrt follows (filter (inScope s sc) (log @ [d]))" for s sc
    using assms(1) by (auto simp: numberedRows_def sorted_wrt_append inScope_def)
  then show ?thesis using numberedRows_grow [OF assms(1,2)] assms(3-7)
    by (auto simp: numberedRows_def)
qed

lemma newest_kept: "P d \<Longrightarrow> m \<le> length (filter P xs) \<Longrightarrow> d \<in> set (dropFirst P m (xs @ [d]))"
proof (induction P m xs rule: dropFirst.induct)
  case (3 P m x xs)
  then show ?case by (cases "P x") auto
qed simp_all

lemma numberedRows_Nil: "numberedRows [] st"
  by (simp add: numberedRows_def)

section \<open>Every step keeps the numbering\<close>

definition reservation :: "string \<Rightarrow> string \<Rightarrow> nat option \<Rightarrow> int \<Rightarrow> int \<Rightarrow> int \<Rightarrow> int \<Rightarrow> int \<Rightarrow> 'p row" where
  "reservation ek session c ptsCount now pts seq date = \<lparr>d_eventKey = ek, d_session = session, d_scope = scopeOf c,
     d_pts = pts, d_ptsCount = ptsCount, d_seq = seq, d_date = date, d_published = False, d_claimedAt = Some now, d_payload = None\<rparr>"

lemma reservation_fields [simp]:
  "d_eventKey (reservation ek s c k now pts seq date) = ek" "d_session (reservation ek s c k now pts seq date) = s"
  "d_scope (reservation ek s c k now pts seq date) = scopeOf c" "d_pts (reservation ek s c k now pts seq date) = pts"
  "d_ptsCount (reservation ek s c k now pts seq date) = k" "d_payload (reservation ek s c k now pts seq date) = None"
  by (simp_all add: reservation_def)

context keyed_update_store
begin

lemma prepare_known:
  assumes i: "inv (ud_log st)" and f: "find (\<lambda>d. d_eventKey d = ek) (abs (ud_log st)) = Some x"
    and p: "prepareUpdateDelivery run now ek session k date c st = (r, st')"
  shows "r = Some (x\<lparr>d_claimedAt := Some now\<rparr>) \<and> inv (ud_log st') \<and> sameCounters st st' \<and>
    abs (ud_log st') = updateRow ek (\<lambda>d. d\<lparr>d_claimedAt := Some now\<rparr>) (abs (ud_log st))"
proof -
  obtain g st1 where g: "askRow run (StoreGet ek) st = (g, st1)" by (cases "askRow run (StoreGet ek) st")
  from ask_ok(1) [OF i _ g] f have g': "g = Some x" "inv (ud_log st1)" "abs (ud_log st1) = abs (ud_log st)" "sameCounters st st1"
    by (simp_all add: specRun_def)
  then have "r = Some (x\<lparr>d_claimedAt := Some now\<rparr>)" "st' = tell run (StoreClaim ek now) st1"
    using p g by (auto simp: prepareUpdateDelivery_def)
  then show ?thesis using g' tell_ok [OF g'(2), of "StoreClaim ek now"]
    by (auto simp: specRun_def plainOp_def intro: sameCounters_trans)
qed

lemma prepare_new:
  assumes i: "inv (ud_log st)" and f: "find (\<lambda>d. d_eventKey d = ek) (abs (ud_log st)) = None"
    and s: "CHR 0x00 \<notin> set session" and k: "0 \<le> k" and p: "prepareUpdateDelivery run now ek session k date c st = (r, st')"
  obtains d where "r = Some d" "inv (ud_log st')" "abs (ud_log st') = trimScope retention session (scopeOf c) (abs (ud_log st) @ [d])"
    "countersGrow st st'" "hasCounter session c st'" "scopePts session c st' = scopePts session c st + k"
    "d_pts d = scopePts session c st'" "d_ptsCount d = k" "d_session d = session" "d_scope d = scopeOf c" "d_eventKey d = ek" "d_payload d = None"
proof -
  obtain g st1 where g: "askRow run (StoreGet ek) st = (g, st1)" by (cases "askRow run (StoreGet ek) st")
  from ask_ok(1) [OF i _ g] f have g': "g = None" "inv (ud_log st1)" "abs (ud_log st1) = abs (ud_log st)" "sameCounters st st1"
    by (simp_all add: specRun_def)
  obtain pts seq dd st2 where a: "allocateUpdate session k date c st1 = ((pts, seq, dd), st2)"
    by (metis prod.exhaust)
  define d where "d = (reservation ek session c k now pts seq dd :: 'p row)"
  note a' = allocate_grow [OF a k]
  have c: "askRow run (StoreCreate d) st2 = (r, st')"
    using p g g'(1) a by (simp add: prepareUpdateDelivery_def d_def reservation_def)
  have i2: "inv (ud_log st2)" "abs (ud_log st2) = abs (ud_log st)" using a' g' by simp_all
  have "plainOp (StoreCreate d)" using s by (simp add: plainOp_def d_def)
  from ask_ok(1) [OF i2(1) this c] i2(2) f
  have c': "r = Some d" "inv (ud_log st')" "abs (ud_log st') = trimScope retention session (scopeOf c) (abs (ud_log st) @ [d])"
    "sameCounters st2 st'" by (simp_all add: specRun_def d_def)
  have same: "scopePts session c st' = scopePts session c st2" "hasCounter session c st' = hasCounter session c st2"
    "scopePts session c st1 = scopePts session c st"
    using c'(4) g'(4) by (simp_all add: scopePts_def hasCounter_def sameCounters_eq split: option.split)
      (simp add: sameCounters_def)
  show thesis
    by (rule that [of d])
      (use c' a' same countersGrow_trans [OF countersGrow_same [OF g'(4)] countersGrow_trans [OF _ countersGrow_same [OF c'(4)]]]
        in \<open>simp_all add: d_def\<close>)
qed

lemma read_spec: "readOp op \<Longrightarrow> snd (specRun retention op rows) = rows"
  by (cases op) (simp_all add: specRun_def)

lemma discard_numbered:
  assumes i: "inv (ud_log st)" and n: "numberedRows (abs (ud_log st)) st"
  shows "inv (ud_log (snd (discardUpdateDelivery run now ek b st))) \<and>
    numberedRows (abs (ud_log (snd (discardUpdateDelivery run now ek b st)))) (snd (discardUpdateDelivery run now ek b st))"
proof -
  obtain g st1 where g: "askRow run (StoreGet ek) st = (g, st1)" by (cases "askRow run (StoreGet ek) st")
  from ask_ok(1) [OF i _ g] have g': "inv (ud_log st1)" "abs (ud_log st1) = abs (ud_log st)" "sameCounters st st1"
    by (simp_all add: specRun_def)
  let ?r = "tell run (StoreRemove ek) st1"
  have n1: "numberedRows (abs (ud_log st1)) st1" using numberedRows_grow [OF n countersGrow_same [OF g'(3)]] g'(2) by simp
  then have "numberedRows (abs (ud_log ?r)) ?r" using tell_ok [OF g'(1), of "StoreRemove ek"]
    by (simp add: specRun_def numberedRows_grow [OF numberedRows_shrink(2) countersGrow_same])
  then show ?thesis using g g' n1 tell_ok [OF g'(1), of "StoreRemove ek"]
    by (simp add: discardUpdateDelivery_def split: option.split)
qed

lemma step_numbered:
  assumes "update_step run st st'" "inv (ud_log st)" "numberedRows (abs (ud_log st)) st"
  shows "inv (ud_log st') \<and> numberedRows (abs (ud_log st')) st'"
  using assms
proof (induction rule: update_step.induct)
  case (prepare session k st now ek date c)
  obtain r st' where p: "prepareUpdateDelivery run now ek session k date c st = (r, st')"
    by (cases "prepareUpdateDelivery run now ek session k date c st")
  show ?case
  proof (cases "find (\<lambda>d. d_eventKey d = ek) (abs (ud_log st))")
    case (Some x)
    from prepare_known [OF prepare(3) this p] prepare(4) show ?thesis
      by (auto simp: p intro!: numberedRows_update intro: numberedRows_grow [OF _ countersGrow_same])
  next
    case None
    from prepare_new [OF prepare(3) this prepare(1,2) p] obtain d where d: "inv (ud_log st')"
      "abs (ud_log st') = trimScope retention session (scopeOf c) (abs (ud_log st) @ [d])" "countersGrow st st'"
      "hasCounter session c st'" "scopePts session c st' = scopePts session c st + k" "d_pts d = scopePts session c st'"
      "d_ptsCount d = k" "d_session d = session" "d_scope d = scopeOf c" by metis
    have "numberedRows (abs (ud_log st) @ [d]) st'"
      by (rule numberedRows_append [OF prepare(4) d(3), where c = c]) (use d prepare(2) in simp_all)
    then show ?thesis using d(1,2) by (simp add: p trimScope_def numberedRows_shrink)
  qed
next
  case (advance session k date c st pts st')
  with advancePts_grow [OF advance(1)] show ?case by (auto intro: numberedRows_grow)
next
  case (advanceState k st session date)
  with advanceUpdateState_grow [of k st session date] show ?case by (auto intro: numberedRows_grow)
next
  case (setPayload st ek payload)
  then show ?case using tell_ok [of st "StoreSetPayload ek payload"]
    by (simp add: setUpdatePayload_def specRun_def plainOp_def numberedRows_update numberedRows_grow [OF _ countersGrow_same])
next
  case (published st ek)
  then show ?case using tell_ok [of st "StoreMarkPublished ek"]
    by (simp add: markUpdatePublished_def specRun_def numberedRows_update numberedRows_grow [OF _ countersGrow_same])
next
  case (discard st now ek b)
  then show ?case by (rule discard_numbered)
next
  case (prune session st)
  then show ?case using tell_ok [of st "StorePrune session ACCOUNT_UPDATE_SCOPE"]
    by (simp add: pruneUpdateDeliveries_def specRun_def plainOp_def trimScope_def numberedRows_shrink
        numberedRows_grow [OF _ countersGrow_same])
next
  case (ask op st)
  then show ?case using tell_ok [of st op] by (simp add: read_spec numberedRows_grow [OF _ countersGrow_same])
qed

lemma steps_numbered:
  "update_steps run st st' \<Longrightarrow> inv (ud_log st) \<and> numberedRows (abs (ud_log st)) st \<Longrightarrow>
   inv (ud_log st') \<and> numberedRows (abs (ud_log st')) st'"
  by (induction rule: rtranclp_induct) (auto dest: step_numbered)

text \<open>A key that has been numbered keeps its number.\<close>

lemma prepare_again:
  assumes i: "inv (ud_log st)" and s: "CHR 0x00 \<notin> set session" and k: "0 \<le> k" and r: "0 < retention"
    and p: "prepareUpdateDelivery run now ek session k date c st = (d, st1)"
    and q: "prepareUpdateDelivery run now' ek session' k' date' c' st1 = (d', st2)"
  shows "\<exists>row. d = Some row \<and> d' = Some (row\<lparr>d_claimedAt := Some now'\<rparr>) \<and> sameCounters st1 st2"
proof (cases "find (\<lambda>d. d_eventKey d = ek) (abs (ud_log st))")
  case (Some x)
  from prepare_known [OF i this p] have p': "d = Some (x\<lparr>d_claimedAt := Some now\<rparr>)" "inv (ud_log st1)"
    "abs (ud_log st1) = updateRow ek (\<lambda>d. d\<lparr>d_claimedAt := Some now\<rparr>) (abs (ud_log st))" by auto
  have "find (\<lambda>d. d_eventKey d = ek) (updateRow ek (\<lambda>d. d\<lparr>d_claimedAt := Some now\<rparr>) rows) =
      map_option (\<lambda>d. d\<lparr>d_claimedAt := Some now\<rparr>) (find (\<lambda>d. d_eventKey d = ek) rows)" for rows :: "'p row list"
    unfolding updateRow_def by (induction rows) auto
  with Some p'(3) have "find (\<lambda>d. d_eventKey d = ek) (abs (ud_log st1)) = Some (x\<lparr>d_claimedAt := Some now\<rparr>)" by simp
  from prepare_known [OF p'(2) this q] p'(1) show ?thesis by simp
next
  case None
  from prepare_new [OF i None s k p] obtain row where n: "d = Some row" "inv (ud_log st1)"
    "abs (ud_log st1) = trimScope retention session (scopeOf c) (abs (ud_log st) @ [row])"
    "d_session row = session" "d_scope row = scopeOf c" "d_eventKey row = ek" by metis
  let ?P = "inScope session (scopeOf c)"
  have "?P row" using n by (simp add: inScope_def)
  moreover have "length (filter ?P (abs (ud_log st) @ [row])) - retention \<le> length (filter ?P (abs (ud_log st)))"
    using r by (simp, arith)
  ultimately have "row \<in> set (abs (ud_log st1))" unfolding n(3) trimScope_def by (rule newest_kept)
  then have "find (\<lambda>d. d_eventKey d = ek) (abs (ud_log st1)) = Some row"
    using find_by_key [OF distinct_keys [OF n(2)]] n(6) by blast
  from prepare_known [OF n(2) this q] n(1) show ?thesis by simp
qed

end

section \<open>The memory backend\<close>

interpretation memory_log: keyed_update_store memRun "\<lambda>m. memInv m \<and> ms_retention m = n" memAbs n
proof unfold_locales
  fix m :: "'a logStore" and op
  assume m: "memInv m \<and> ms_retention m = n"
  show "distinct (map d_eventKey (memAbs m))"
    using memInvD(4) [OF conjunct1 [OF m]] by (simp add: memAbs_def o_def)
qed

lemma newLog_numbered: "numberedRows (memAbs (newLogStore r)) st"
  by (simp add: newLogStore_ok numberedRows_Nil)

section \<open>Properties\<close>

text \<open>
  C29. Reserved pts never overlap. From an empty log and any counters, after any sequence of reservations,
  counter advances, payloads, publications, releases, prunings and reads: in the order of creation every row
  of a scope starts at or after the end of the one before it, and no row ends after the counter of its scope.
\<close>

theorem pts_intervals_disjoint:
  assumes "update_steps memRun \<lparr>ud_log = newLogStore retention, ud_account = accounts, ud_channel = channels\<rparr> st"
  shows "(\<forall>s sc. sorted_wrt (\<lambda>a b. d_pts a \<le> d_pts b - d_ptsCount b) (filter (inScope s sc) (memAbs (ud_log st)))) \<and>
    (\<forall>d\<in>set (memAbs (ud_log st)). 0 \<le> d_ptsCount d \<and>
      (\<exists>c. d_scope d = scopeOf c \<and> d_pts d \<le> scopePts (d_session d) c st))"
proof -
  let ?n = "normalizeRetention retention"
  have "memInv (ud_log st) \<and> ms_retention (ud_log st) = ?n \<and> numberedRows (memAbs (ud_log st)) st"
    using memory_log.steps_numbered [OF assms, of ?n] newLogStore_ok(1) [of retention] by (simp add: newLog_numbered)
  then show ?thesis unfolding numberedRows_def follows_def [abs_def] by blast
qed

text \<open>
  An event is numbered once. Preparing the delivery of an event yields a row; a new row takes the next
  \<open>ptsCount\<close> pts of its scope. Whatever a later call asks for the same event key, it gets the same row with a
  fresh claim, and no counter moves.
\<close>

theorem event_numbered_once:
  assumes "memInv (ud_log st)" and "0 < ms_retention (ud_log st)" and "CHR 0x00 \<notin> set session" and "0 \<le> ptsCount"
  shows "\<exists>row st1. prepareUpdateDelivery memRun now eventKey session ptsCount date c st = (Some row, st1) \<and>
    (eventKey \<notin> d_eventKey ` set (memAbs (ud_log st)) \<longrightarrow>
       d_payload row = None \<and> d_ptsCount row = ptsCount \<and> d_pts row = scopePts session c st1 \<and>
       scopePts session c st1 = scopePts session c st + ptsCount) \<and>
    (\<forall>now' session' ptsCount' date' c'.
       fst (prepareUpdateDelivery memRun now' eventKey session' ptsCount' date' c' st1) = Some (row\<lparr>d_claimedAt := Some now'\<rparr>) \<and>
       sameCounters st1 (snd (prepareUpdateDelivery memRun now' eventKey session' ptsCount' date' c' st1)))"
proof -
  obtain r st1 where p: "prepareUpdateDelivery memRun now eventKey session ptsCount date c st = (r, st1)" by fastforce
  have i: "memInv (ud_log st) \<and> ms_retention (ud_log st) = ms_retention (ud_log st)" using assms(1) by simp
  have again: "\<exists>row. r = Some row \<and> fst (prepareUpdateDelivery memRun now' eventKey session' ptsCount' date' c' st1) =
      Some (row\<lparr>d_claimedAt := Some now'\<rparr>) \<and>
      sameCounters st1 (snd (prepareUpdateDelivery memRun now' eventKey session' ptsCount' date' c' st1))"
    for now' session' ptsCount' date' c'
    using memory_log.prepare_again [OF i assms(3,4,2) p, of now' session' ptsCount' date' c']
    by (metis prod.collapse)
  then obtain row where row: "r = Some row" by blast
  have "d_payload row = None \<and> d_ptsCount row = ptsCount \<and> d_pts row = scopePts session c st1 \<and>
       scopePts session c st1 = scopePts session c st + ptsCount" if "eventKey \<notin> d_eventKey ` set (memAbs (ud_log st))"
  proof -
    have "find (\<lambda>d. d_eventKey d = eventKey) (memAbs (ud_log st)) = None" using that by (auto simp: find_None_iff)
    from memory_log.prepare_new [OF i this assms(3,4) p] row show ?thesis by (metis option.inject)
  qed
  with again row p show ?thesis by auto
qed

section \<open>Instances\<close>

definition demoDb :: "'p logStore updateDb" where
  "demoDb = \<lparr>ud_log = newLogStore None, ud_account = [], ud_channel = []\<rparr>"

definition demoReserve :: "string \<Rightarrow> int \<Rightarrow> nat option \<Rightarrow> 'p logStore updateDb \<Rightarrow> 'p logStore updateDb" where
  "demoReserve ek ptsCount c st = snd (prepareUpdateDelivery memRun 100 ek ''s'' ptsCount 100 c st)"

lemma demoReserve_step: "0 \<le> ptsCount \<Longrightarrow> update_steps memRun demoDb st \<Longrightarrow> update_steps memRun demoDb (demoReserve ek ptsCount c st)"
  unfolding demoReserve_def by (erule rtranclp.rtrancl_into_rtrancl) (rule update_step.prepare, simp_all)

lemma pts_intervals_disjoint_witness:
  "sorted_wrt (\<lambda>a b. d_pts a \<le> d_pts b - d_ptsCount b) (filter (inScope ''s'' ''account'')
     (memAbs (ud_log (demoReserve ''b'' 3 None (demoReserve ''a'' 2 None (demoDb :: nat logStore updateDb)))))) \<and>
   map d_pts (memAbs (ud_log (demoReserve ''b'' 3 None (demoReserve ''a'' 2 None (demoDb :: nat logStore updateDb))))) = [3, 6]"
proof
  have "update_steps memRun demoDb (demoReserve ''b'' 3 None (demoReserve ''a'' 2 None (demoDb :: nat logStore updateDb)))"
    by (intro demoReserve_step rtranclp.rtrancl_refl) simp_all
  from pts_intervals_disjoint [OF this [unfolded demoDb_def], folded demoDb_def]
  show "sorted_wrt (\<lambda>a b. d_pts a \<le> d_pts b - d_ptsCount b) (filter (inScope ''s'' ''account'')
     (memAbs (ud_log (demoReserve ''b'' 3 None (demoReserve ''a'' 2 None (demoDb :: nat logStore updateDb))))))"
    by blast
  show "map d_pts (memAbs (ud_log (demoReserve ''b'' 3 None (demoReserve ''a'' 2 None (demoDb :: nat logStore updateDb))))) = [3, 6]"
    by code_simp
qed

lemma event_numbered_once_witness:
  "\<exists>row st1. prepareUpdateDelivery memRun 100 ''a'' ''s'' 2 100 None (demoDb :: nat logStore updateDb) = (Some row, st1) \<and>
     d_pts row = 3 \<and> fst (prepareUpdateDelivery memRun 200 ''a'' ''s'' 9 200 (Some 7) st1) = Some (row\<lparr>d_claimedAt := Some 200\<rparr>)"
proof -
  have "memInv (ud_log (demoDb :: nat logStore updateDb))" "0 < ms_retention (ud_log (demoDb :: nat logStore updateDb))"
    "CHR 0x00 \<notin> set ''s''" "(0::int) \<le> 2"
    by (simp_all add: demoDb_def newLogStore_ok normalizeRetention_def)
  from event_numbered_once [OF this, of 100 "''a''" 100 None]
  obtain row st1 where r: "prepareUpdateDelivery memRun 100 ''a'' ''s'' 2 100 None (demoDb :: nat logStore updateDb) = (Some row, st1)"
    "fst (prepareUpdateDelivery memRun 200 ''a'' ''s'' 9 200 (Some 7) st1) = Some (row\<lparr>d_claimedAt := Some 200\<rparr>)"
    by blast
  have "map_option d_pts (fst (prepareUpdateDelivery memRun 100 ''a'' ''s'' 2 100 None (demoDb :: nat logStore updateDb))) = Some 3"
    by code_simp
  with r show ?thesis by auto
qed

end
