(* ===== verification/Update_Difference_Safety.thy ===== *)
theory Update_Difference_Safety
  imports Update_Sequence_Safety
begin

text \<open>
  What the differences promise: a channel difference has no gap, an account difference skips no row, and
  the numbering behind them; over every backend in the locale \<open>tl_update_store\<close>, and for the memory backend.
\<close>

section \<open>Sorted prefixes\<close>

lemma sorted_prefix:
  "sorted (map f xs) \<Longrightarrow> y \<in> set (take n xs) \<Longrightarrow> x \<in> set xs \<Longrightarrow> f x < f y \<Longrightarrow> x \<in> set (take n xs)"
  for f :: "'a \<Rightarrow> int"
proof -
  assume s: "sorted (map f xs)" and y: "y \<in> set (take n xs)" and x: "x \<in> set xs" and l: "f x < f y"
  have "sorted (map f (take n xs @ drop n xs))" using s by simp
  then have "\<forall>a\<in>set (take n xs). \<forall>b\<in>set (drop n xs). f a \<le> f b" unfolding map_append sorted_append by auto
  then have "x \<notin> set (drop n xs)" using y l by (meson leD)
  moreover have "x \<in> set (take n xs) \<union> set (drop n xs)" using x by (metis append_take_drop_id set_append)
  ultimately show ?thesis by simp
qed

definition pageOf :: "int \<Rightarrow> 'p row list \<Rightarrow> 'p row list" where
  "pageOf requested deliveries = take (pageSize requested) (ready deliveries)"

lemma pageOf_prefix: "\<exists>m. pageOf n ds = take m ds"
  by (metis pageOf_def ready_def take_take takeWhile_eq_take)

lemma page_payload: "d \<in> set (pageOf n ds) \<Longrightarrow> d_payload d \<noteq> None"
  unfolding pageOf_def ready_def by (auto dest!: in_set_takeD set_takeWhileD)

lemma pageSize_bounds: "0 < pageSize n" "pageSize n \<le> 100"
  by (auto simp: pageSize_def)

lemma rowsAfter_sorted: "sorted (map d_pts (rowsAfter s c pts log))"
  by (simp add: rowsAfter_def)

lemma rowsAfter_set: "set (rowsAfter s c pts log) = {d \<in> set log. inScope s (scopeOf c) d \<and> pts < d_pts d}"
  by (auto simp: rowsAfter_def)

section \<open>Collected updates\<close>

definition deliveredIn :: "(('m, 'u) tlUpdate \<Rightarrow> 'm option) \<Rightarrow> ('m, 'u) collected \<Rightarrow> ('m, 'u) tlPayload row \<Rightarrow> bool" where
  "deliveredIn isMessage c d \<longleftrightarrow>
     (case d_payload d of None \<Rightarrow> False
      | Some p \<Rightarrow> \<forall>u\<in>set (pl_updates p). case isMessage u of Some m \<Rightarrow> m \<in> set (co_messages c) | None \<Rightarrow> u \<in> set (co_others c))"

definition collectedLe :: "('m, 'u) collected \<Rightarrow> ('m, 'u) collected \<Rightarrow> bool" where
  "collectedLe c c' \<longleftrightarrow> set (co_messages c) \<subseteq> set (co_messages c') \<and> set (co_others c) \<subseteq> set (co_others c')"

lemma deliveredIn_mono: "collectedLe c c' \<Longrightarrow> deliveredIn isM c d \<Longrightarrow> deliveredIn isM c' d"
  unfolding deliveredIn_def collectedLe_def by (fastforce split: option.splits)

lemma collectedLe_refl [simp]: "collectedLe c c" "collectedLe c (c\<lparr>co_others := co_others c @ us\<rparr>)"
  by (auto simp: collectedLe_def)

lemma collectedLe_trans: "collectedLe c c1 \<Longrightarrow> collectedLe c1 c2 \<Longrightarrow> collectedLe c c2"
  by (auto simp: collectedLe_def)

lemma collectRow_le: "collectedLe c (collectRow isM k d c)"
  by (simp add: collectedLe_def collectRow_def collectPayload_def split: option.split)

lemma collectRows_le: "collectedLe c (collectRows isM k ds c)"
proof (induction ds arbitrary: c)
  case (Cons d ds)
  have "collectRows isM k (d # ds) c = collectRows isM k ds (collectRow isM k d c)" by (simp add: collectRows_def)
  with Cons [of "collectRow isM k d c"] collectRow_le [of c isM k d] show ?case by (auto intro: collectedLe_trans)
qed (simp add: collectRows_def)

lemma collectRow_delivers: "d_payload d \<noteq> None \<Longrightarrow> deliveredIn isM (collectRow isM True d c) d"
  by (force simp: deliveredIn_def collectRow_def collectPayload_def List.map_filter_def split: option.split)

lemma collectRows_deliver: "d \<in> set ds \<Longrightarrow> d_payload d \<noteq> None \<Longrightarrow> deliveredIn isM (collectRows isM True ds c) d"
proof (induction ds arbitrary: c)
  case (Cons x ds)
  have e: "collectRows isM True (x # ds) c = collectRows isM True ds (collectRow isM True x c)" by (simp add: collectRows_def)
  show ?case
  proof (cases "d = x")
    case True
    have "deliveredIn isM (collectRow isM True x c) d" using True Cons.prems(2) by (simp add: collectRow_delivers)
    then show ?thesis unfolding e by (rule deliveredIn_mono [OF collectRows_le])
  next
    case False
    then show ?thesis unfolding e using Cons by simp
  qed
qed simp

section \<open>Walking along the pts\<close>

lemma walkPts_append: "walkPts c (xs @ ys) \<noteq> None \<Longrightarrow> walkPts c xs \<noteq> None"
  by (induction c xs rule: walkPts.induct) (auto split: if_splits)

lemma walkPts_last:
  "walkPts c xs = Some e \<Longrightarrow> xs \<noteq> [] \<Longrightarrow> 0 < d_ptsCount (last xs) \<Longrightarrow> e = d_pts (last xs)"
proof (induction c xs rule: walkPts.induct)
  case (2 c d ds)
  then show ?case by (cases ds) (auto split: if_splits)
qed simp

lemma walkPts_cover:
  "walkPts c xs = Some e \<Longrightarrow> c < x \<Longrightarrow> x \<le> e \<Longrightarrow> \<exists>d\<in>set xs. d_pts d - d_ptsCount d < x \<and> x \<le> d_pts d"
proof (induction c xs rule: walkPts.induct)
  case (2 c d ds)
  show ?case
  proof (cases "0 < d_ptsCount d \<and> x \<le> d_pts d")
    case True
    with 2 show ?thesis by (auto split: if_splits)
  next
    case False
    with 2 show ?thesis by (auto split: if_splits)
  qed
qed simp

lemma channelState_pts [simp]: "cs_pts (getChannelUpdateState now session c st) = channelPts session c st"
  by (simp add: getChannelUpdateState_def channelPts_def getUpdateState_def accountPts_def Let_def split: option.split)

lemma updateState_pts [simp]: "us_pts (getUpdateState now session st) = accountPts session st"
  by (simp add: getUpdateState_def accountPts_def split: option.split)

section \<open>The rows a difference serves\<close>

definition sameRow :: "'p row \<Rightarrow> 'p row \<Rightarrow> bool" where
  "sameRow d d' \<longleftrightarrow> d_session d' = d_session d \<and> d_scope d' = d_scope d \<and> d_pts d' = d_pts d \<and>
     d_ptsCount d' = d_ptsCount d \<and> d_payload d' = d_payload d \<and> d_date d' = d_date d"

lemma sameRow_inScope: "sameRow d d' \<Longrightarrow> inScope s sc d' = inScope s sc d"
  by (simp add: sameRow_def inScope_def)

lemma sameRow_delivered: "sameRow d d' \<Longrightarrow> deliveredIn isM c d' = deliveredIn isM c d"
  by (simp add: sameRow_def deliveredIn_def)

definition sameRows :: "'p row list \<Rightarrow> 'p row list \<Rightarrow> bool" where
  "sameRows ds ds' \<longleftrightarrow> list_all2 sameRow ds ds'"

lemma sameRows_refl: "sameRows ds ds"
  by (simp add: sameRows_def list_all2_same sameRow_def)

lemma sameRows_trans: "sameRows a b \<Longrightarrow> sameRows b c \<Longrightarrow> sameRows a c"
  unfolding sameRows_def by (rule list_all2_trans [of sameRow sameRow sameRow]) (auto simp: sameRow_def)

lemma sameRows_old: "sameRows ds ds' \<Longrightarrow> d' \<in> set ds' \<Longrightarrow> \<exists>d\<in>set ds. sameRow d d'"
  unfolding sameRows_def by (metis in_set_conv_nth list_all2_conv_all_nth)

lemma sameRows_new: "sameRows ds ds' \<Longrightarrow> d \<in> set ds \<Longrightarrow> \<exists>d'\<in>set ds'. sameRow d d'"
  unfolding sameRows_def by (metis in_set_conv_nth list_all2_conv_all_nth)

context keyed_update_store
begin

lemma mark_ok:
  "inv (ud_log st) \<Longrightarrow> inv (ud_log (markAllPublished run ds st)) \<and> sameCounters st (markAllPublished run ds st) \<and>
    sameRows (abs (ud_log st)) (abs (ud_log (markAllPublished run ds st)))"
proof (induction ds arbitrary: st)
  case (Cons d ds)
  let ?st = "markUpdatePublished run (d_eventKey d) st"
  have i: "inv (ud_log ?st)" "sameCounters st ?st"
    "abs (ud_log ?st) = updateRow (d_eventKey d) (\<lambda>d. d\<lparr>d_published := True\<rparr>) (abs (ud_log st))"
    using tell_ok [OF Cons.prems, of "StoreMarkPublished (d_eventKey d)"] by (simp_all add: markUpdatePublished_def specRun_def)
  then have "sameRows (abs (ud_log st)) (abs (ud_log ?st))"
    by (simp add: sameRows_def updateRow_def list_all2_conv_all_nth sameRow_def)
  with Cons.IH [OF i(1)] i(2) show ?case by (auto intro: sameRows_trans sameCounters_trans)
qed (simp add: sameRows_refl)

text \<open>The page of a difference: the rows after the client's pts, up to the pts it ends with.\<close>

lemma page_rows:
  assumes i: "inv (ud_log st)" and s: "CHR 0x00 \<notin> set session" and r: "readDeliveries run now session pts c st = (ds, st1)"
  shows "set (pageOf n ds) \<subseteq> {d \<in> set (abs (ud_log st1)). inScope session (scopeOf c) d \<and> pts < d_pts d}"
    and "sorted (map d_pts (pageOf n ds))"
    and "e \<in> set (pageOf n ds) \<Longrightarrow> d \<in> set (abs (ud_log st1)) \<Longrightarrow> inScope session (scopeOf c) d \<Longrightarrow> pts < d_pts d \<Longrightarrow>
      d_pts d < d_pts e \<Longrightarrow> d \<in> set (pageOf n ds)"
proof -
  let ?all = "rowsAfter session c pts (abs (ud_log st))"
  let ?rows = "take 101 ?all"
  from read_ok [OF i s r] have ds: "ds = filter (\<lambda>d. \<not> dropped now d) ?rows"
    and log: "abs (ud_log st1) = filter (\<lambda>d. \<not> (dropped now d \<and> d \<in> set ?rows)) (abs (ud_log st))" by simp_all
  obtain m where m: "pageOf n ds = take m ds" using pageOf_prefix [of n ds] by blast
  have sorted: "sorted (map d_pts ds)" unfolding ds using rowsAfter_sorted [of session c pts "abs (ud_log st)"]
    by (intro sorted_filter) (simp add: take_map [symmetric] sorted_wrt_take)
  then show "sorted (map d_pts (pageOf n ds))" by (simp add: m take_map [symmetric] sorted_wrt_take)
  have sub: "set (pageOf n ds) \<subseteq> set ds" by (auto simp: m dest: in_set_takeD)
  have "set ?rows \<subseteq> set ?all" by (rule set_take_subset)
  then show "set (pageOf n ds) \<subseteq> {d \<in> set (abs (ud_log st1)). inScope session (scopeOf c) d \<and> pts < d_pts d}"
    using sub by (auto simp: ds log rowsAfter_set)
  assume e: "e \<in> set (pageOf n ds)" and d: "d \<in> set (abs (ud_log st1))" "inScope session (scopeOf c) d" "pts < d_pts d" "d_pts d < d_pts e"
  have "e \<in> set ?rows" using e sub by (auto simp: ds)
  moreover have "d \<in> set ?all" using d(1-3) by (simp add: log rowsAfter_set)
  ultimately have "d \<in> set ?rows" by (rule sorted_prefix [OF rowsAfter_sorted _ _ d(4)])
  then have "d \<in> set ds" using d(1) by (simp add: ds log)
  then show "d \<in> set (pageOf n ds)" using sorted_prefix [OF sorted, of e m d] e d(4) by (simp add: m)
qed

lemma channel_page:
  assumes i: "inv (ud_log st)" and num: "numberedRows (abs (ud_log st)) st" and s: "CHR 0x00 \<notin> set session"
    and r: "readDeliveries run now session pts (Some c) st = (ds, st1)"
    and reset: "channelResetReason pts (channelPts session c st) ds = None" and page: "pageOf n ds \<noteq> []"
  shows "pts < d_pts (last (pageOf n ds)) \<and> d_pts (last (pageOf n ds)) \<le> channelPts session c st"
    and "0 < d_ptsCount (last (pageOf n ds)) \<Longrightarrow> pts < x \<Longrightarrow> x \<le> d_pts (last (pageOf n ds)) \<Longrightarrow>
      \<exists>d\<in>set (pageOf n ds). d_pts d - d_ptsCount d < x \<and> x \<le> d_pts d"
proof -
  let ?p = "pageOf n ds"
  have le: "d_pts d \<le> channelPts session c st" if "d \<in> set (abs (ud_log st))" "inScope session (scopeOf (Some c)) d" for d
  proof -
    obtain c' where "d_scope d = scopeOf c'" "d_pts d \<le> scopePts (d_session d) c' st"
      using num \<open>d \<in> _\<close> unfolding numberedRows_def by blast
    with that(2) show ?thesis by (simp add: inScope_def scopeOf_inj scopePts_def)
  qed
  have sub: "set ?p \<subseteq> {d \<in> set (abs (ud_log st)). inScope session (scopeOf (Some c)) d \<and> pts < d_pts d}"
    using page_rows(1) [OF i s r, of n] read_ok [OF i s r] by auto
  have last: "last ?p \<in> set ?p" using page by simp
  show first: "pts < d_pts (last ?p) \<and> d_pts (last ?p) \<le> channelPts session c st" using last sub le by blast
  then have "walkPts pts ds \<noteq> None" using reset by (auto simp: channelResetReason_def split: if_splits)
  moreover obtain m where "?p = take m ds" using pageOf_prefix [of n ds] by blast
  ultimately have "walkPts pts ?p \<noteq> None" using walkPts_append [of pts "take m ds" "drop m ds"] by simp
  then obtain e where e: "walkPts pts ?p = Some e" by blast
  assume "0 < d_ptsCount (last ?p)" "pts < x" "x \<le> d_pts (last ?p)"
  with walkPts_last [OF e page] walkPts_cover [OF e] show "\<exists>d\<in>set ?p. d_pts d - d_ptsCount d < x \<and> x \<le> d_pts d" by blast
qed

end

section \<open>Marks for changed channels\<close>

lemma decimalValue_digits: "decimalValue (decString n) = Some n"
proof (induction n rule: decString.induct)
  case (1 n)
  have digit: "of_char (char_of (48 + k) :: char) = 48 + k" if "k < 10" for k :: nat
    using that by (simp add: of_char_of take_bit_eq_mod)
  show ?case
  proof (cases "n < 10")
    case True
    then show ?thesis by (simp add: decString.simps [of n] decimalValue_def digit)
  next
    case False
    have "n mod 10 < 10" by simp
    with 1 [OF False] False show ?thesis
      by (auto simp: decString.simps [of n] decimalValue_def digit split: if_splits)
  qed
qed

lemma isChannelScope_scope [simp]: "isChannelScope (channelUpdateScope c)"
  by (simp add: channelUpdateScope_def isChannelScope_def startsWith_def)

lemma channelScopeId_scope: "isSafeInteger (int c) \<Longrightarrow> channelScopeId (channelUpdateScope c) = Some c"
  by (simp add: channelScopeId_def channelUpdateScope_def isChannelScope_def startsWith_def decimalValue_digits)

definition markChannel :: "(nat, int) jsmap \<Rightarrow> string \<times> int \<Rightarrow> (nat, int) jsmap" where
  "markChannel m sp = (case channelScopeId (fst sp) of
       None \<Rightarrow> m | Some c \<Rightarrow> js_set c (max (case js_get m c of Some old \<Rightarrow> old | None \<Rightarrow> 0) (snd sp)) m)"

lemma changedChannels_fold: "changedChannels scopes = foldl markChannel [] scopes"
  unfolding changedChannels_def by (rule foldl_cong [OF refl refl]) (clarsimp simp: markChannel_def split: option.split)

lemma markChannel_grows: "js_get m c = Some p \<Longrightarrow> \<exists>p'. p \<le> p' \<and> js_get (foldl markChannel m scopes) c = Some p'"
proof (induction scopes arbitrary: m p)
  case (Cons sp scopes)
  have "\<exists>p1. p \<le> p1 \<and> js_get (markChannel m sp) c = Some p1"
    using Cons.prems by (auto simp: markChannel_def update_conv' split: option.split)
  then show ?case using Cons.IH by (fastforce intro: order_trans)
qed simp

lemma changedChannels_mark:
  "(scope, pts) \<in> set scopes \<Longrightarrow> channelScopeId scope = Some c \<Longrightarrow>
   \<exists>p. pts \<le> p \<and> js_get (foldl markChannel m scopes) c = Some p"
proof (induction scopes arbitrary: m)
  case (Cons sp scopes)
  show ?case
  proof (cases "sp = (scope, pts)")
    case True
    have "\<exists>p1. pts \<le> p1 \<and> js_get (markChannel m sp) c = Some p1"
      using Cons.prems(2) True by (simp add: markChannel_def update_conv')
    then obtain p1 where "pts \<le> p1" "js_get (markChannel m sp) c = Some p1" by blast
    from this(1) markChannel_grows [OF this(2), of scopes] show ?thesis by (auto intro: order_trans)
  next
    case False
    with Cons show ?thesis by simp
  qed
qed simp

lemma specChanged_row:
  assumes "d \<in> set rows"
  shows "\<exists>p. d_pts d \<le> p \<and> (d_scope d, p) \<in> set (specChanged rows)"
proof -
  have "d_pts d \<le> Max (d_pts ` {x \<in> set rows. d_scope x = d_scope d})" using assms by (intro Max_ge) auto
  moreover have "(d_scope d, Max (d_pts ` {x \<in> set rows. d_scope x = d_scope d})) \<in> set (specChanged rows)"
    using assms by (simp add: specChanged_def)
  ultimately show ?thesis by blast
qed

lemma channel_marked:
  assumes "d \<in> set rows" "changedRow session date d" "d_scope d = channelUpdateScope c" "isSafeInteger (int c)"
  shows "\<exists>p\<ge>d_pts d. ChannelTooLong c p \<in> set (tooLongMarks (specChanged (filter (changedRow session date) rows)))"
proof -
  have "d \<in> set (filter (changedRow session date) rows)" using assms by simp
  from specChanged_row [OF this] obtain p where p: "d_pts d \<le> p"
    "(d_scope d, p) \<in> set (specChanged (filter (changedRow session date) rows))" by blast
  from changedChannels_mark [OF p(2), of c "[]"] channelScopeId_scope [OF assms(4)] assms(3)
  obtain p' where "p \<le> p'" "js_get (changedChannels (specChanged (filter (changedRow session date) rows))) c = Some p'"
    unfolding changedChannels_fold by auto
  then have "ChannelTooLong c p' \<in> set (tooLongMarks (specChanged (filter (changedRow session date) rows)))"
    unfolding tooLongMarks_def by (auto dest!: map_of_SomeD)
  then show ?thesis using p(1) \<open>p \<le> p'\<close> by (blast intro: order_trans)
qed

section \<open>Reservations that are alive\<close>

definition liveRows :: "int \<Rightarrow> string \<Rightarrow> 'p row list \<Rightarrow> bool" where
  "liveRows later session log \<longleftrightarrow>
     (\<forall>d\<in>set log. inScope session ACCOUNT_UPDATE_SCOPE d \<longrightarrow> \<not> dropped later d)"

lemma dropped_later: "now \<le> later \<Longrightarrow> dropped now d \<Longrightarrow> dropped later d"
  by (auto simp: dropped_def abandoned_def CLAIMED_DELIVERY_GRACE_SECONDS_def split: option.splits)

section \<open>The differences of a client\<close>

locale tl_update_store = keyed_update_store run inv abs retention
  for run :: "('m, 'u) tlPayload storeOp \<Rightarrow> 's \<Rightarrow> ('m, 'u) tlPayload storeAnswer \<times> 's" and inv abs retention
begin

lemma channel_difference:
  assumes i: "inv (ud_log st)" and num: "numberedRows (abs (ud_log st)) st" and s: "CHR 0x00 \<notin> set session"
    and c: "cr_channel request = Some c" and reset: "\<And>c p. buildTooLong c p \<noteq> None"
    and g: "getChannelDifference run buildTooLong now session request st = (Inr (ChannelDifference final p timeout content), st')"
  shows "cr_pts request < p \<and> p \<le> channelPts session c st"
    and "d \<in> set (abs (ud_log st')) \<Longrightarrow> inScope session (channelUpdateScope c) d \<Longrightarrow> cr_pts request < d_pts d \<Longrightarrow> d_pts d < p \<Longrightarrow>
      deliveredIn channelMessageOf content d"
    and "(\<And>d. d \<in> set (abs (ud_log st')) \<Longrightarrow> inScope session (channelUpdateScope c) d \<Longrightarrow> d_pts d = p \<Longrightarrow> 0 < d_ptsCount d) \<Longrightarrow>
      cr_pts request < x \<Longrightarrow> x \<le> p \<Longrightarrow>
      \<exists>d\<in>set (abs (ud_log st')). inScope session (channelUpdateScope c) d \<and> d_pts d - d_ptsCount d < x \<and> x \<le> d_pts d \<and>
        deliveredIn channelMessageOf content d"
proof -
  obtain ds st1 where r: "readDeliveries run now session (cr_pts request) (Some c) st = (ds, st1)"
    by (cases "readDeliveries run now session (cr_pts request) (Some c) st")
  let ?p = "pageOf (cr_limit request) ds"
  have sc: "scopeOf (Some c) = channelUpdateScope c" by (simp add: scopeOf_def)
  obtain b where b: "buildTooLong c (channelPts session c st) = Some b" using reset by blast
  have a: "channelResetReason (cr_pts request) (channelPts session c st) ds = None" "?p \<noteq> []" "p = d_pts (last ?p)"
    "content = collectRows channelMessageOf True ?p nothingCollected" "st' = markAllPublished run ?p st1"
    using g by (simp_all add: getChannelDifference_def c r b Let_def pageOf_def split: if_splits)
  have i1: "inv (ud_log st1)" using read_ok [OF i s r] by simp
  note rows = mark_ok [OF i1, of ?p, folded a(5), THEN conjunct2, THEN conjunct2]
  note page = page_rows [OF i s r, where n = "cr_limit request", unfolded sc]
  note ch = channel_page [OF i num s r a(1,2)]
  have del: "deliveredIn channelMessageOf content d" if "d \<in> set ?p" for d
    unfolding a(4) by (rule collectRows_deliver [OF that page_payload [OF that]])
  show "cr_pts request < p \<and> p \<le> channelPts session c st" using ch(1) by (simp add: a(3))
  show "deliveredIn channelMessageOf content d" if d: "d \<in> set (abs (ud_log st'))" "inScope session (channelUpdateScope c) d"
    "cr_pts request < d_pts d" "d_pts d < p"
  proof -
    obtain d0 where d0: "d0 \<in> set (abs (ud_log st1))" "sameRow d0 d" using sameRows_old [OF rows d(1)] by blast
    have "inScope session (channelUpdateScope c) d0" using d(2) sameRow_inScope [OF d0(2)] by blast
    moreover have "cr_pts request < d_pts d0" "d_pts d0 < d_pts (last ?p)"
      using d(3,4) d0(2) unfolding a(3) sameRow_def by metis+
    ultimately have "d0 \<in> set ?p" by (rule page(3) [OF last_in_set [OF a(2)] d0(1)])
    from del [OF this] show ?thesis by (simp add: sameRow_delivered [OF d0(2)])
  qed
  assume pos: "\<And>d. d \<in> set (abs (ud_log st')) \<Longrightarrow> inScope session (channelUpdateScope c) d \<Longrightarrow> d_pts d = p \<Longrightarrow> 0 < d_ptsCount d"
    and x: "cr_pts request < x" "x \<le> p"
  have last: "last ?p \<in> set (abs (ud_log st1))" "inScope session (channelUpdateScope c) (last ?p)"
    using page(1) last_in_set [OF a(2)] by auto
  obtain l where l: "l \<in> set (abs (ud_log st'))" "sameRow (last ?p) l" using sameRows_new [OF rows last(1)] by blast
  have "0 < d_ptsCount (last ?p)"
    using pos [OF l(1)] last(2) l(2) a(3) by (simp add: sameRow_inScope) (simp add: sameRow_def)
  then obtain d where d: "d \<in> set ?p" "d_pts d - d_ptsCount d < x" "x \<le> d_pts d" using ch(2) x a(3) by blast
  then obtain d' where d': "d' \<in> set (abs (ud_log st'))" "sameRow d d'" using sameRows_new [OF rows] page(1) by blast
  then have "inScope session (channelUpdateScope c) d' \<and> d_pts d' - d_ptsCount d' < x \<and> x \<le> d_pts d' \<and>
      deliveredIn channelMessageOf content d'"
    using d page(1) del [OF d(1)] by (auto simp: sameRow_inScope sameRow_delivered) (auto simp: sameRow_def)
  then show "\<exists>d\<in>set (abs (ud_log st')). inScope session (channelUpdateScope c) d \<and> d_pts d - d_ptsCount d < x \<and> x \<le> d_pts d \<and>
        deliveredIn channelMessageOf content d" using d'(1) by blast
qed

lemma await_live:
  assumes "\<forall>f\<in>set sleeps. \<forall>s. inv (ud_log s) \<and> liveRows later session (abs (ud_log s)) \<longrightarrow>
      inv (ud_log (f s)) \<and> liveRows later session (abs (ud_log (f s)))"
    and "inv (ud_log st) \<and> liveRows later session (abs (ud_log st))"
  shows "inv (ud_log (awaitPendingDelivery run ek sleeps st)) \<and>
    liveRows later session (abs (ud_log (awaitPendingDelivery run ek sleeps st)))"
  using assms
proof (induction sleeps arbitrary: st)
  case (Cons f sleeps)
  obtain r st1 where g: "getUpdateDelivery run ek (f st) = (r, st1)" by (cases "getUpdateDelivery run ek (f st)")
  have f: "inv (ud_log (f st)) \<and> liveRows later session (abs (ud_log (f st)))" using Cons.prems by simp
  then have "inv (ud_log st1) \<and> liveRows later session (abs (ud_log st1))" using get_ok [OF _ g] by auto
  with Cons.IH [of st1] Cons.prems(1) show ?case by (simp add: g split: option.split)
qed simp

text \<open>What is read last, when no reservation of the account is abandoned.\<close>

lemma settled_rows:
  assumes keep: "\<forall>f\<in>set sleeps. \<forall>s. inv (ud_log s) \<and> liveRows later session (abs (ud_log s)) \<longrightarrow>
      inv (ud_log (f s)) \<and> liveRows later session (abs (ud_log (f s)))"
    and st: "inv (ud_log st) \<and> liveRows later session (abs (ud_log st))" and s: "CHR 0x00 \<notin> set session" and t: "now \<le> later"
    and r: "settledDeliveries run sleeps now later session pts st = (ds, st1)"
  shows "inv (ud_log st1) \<and> ds = take 101 (rowsAfter session None pts (abs (ud_log st1)))"
proof -
  have read: "inv (ud_log st1) \<and> ds = take 101 (rowsAfter session None pts (abs (ud_log st1)))"
    if live: "inv (ud_log st0) \<and> liveRows later session (abs (ud_log st0))"
      and reads: "readDeliveries run t session pts None st0 = (ds, st1)" and le: "t \<le> later"
    for t ds st0 st1
  proof -
    let ?rows = "take 101 (rowsAfter session None pts (abs (ud_log st0)))"
    have "\<not> dropped t d" if "d \<in> set ?rows" for d
      using live in_set_takeD [OF that] dropped_later [OF le]
      by (auto simp: rowsAfter_set liveRows_def scopeOf_def)
    then have "filter (\<lambda>d. \<not> dropped t d) ?rows = ?rows"
      "filter (\<lambda>d. \<not> (dropped t d \<and> d \<in> set ?rows)) (abs (ud_log st0)) = abs (ud_log st0)"
      by (auto intro: filter_True)
    with read_ok [OF _ s reads] live show ?thesis by auto
  qed
  obtain ds0 st0 where r0: "readDeliveries run now session pts None st = (ds0, st0)" by (cases "readDeliveries run now session pts None st")
  from read [OF st r0 t] have d0: "inv (ud_log st0)" "ds0 = take 101 (rowsAfter session None pts (abs (ud_log st0)))" by simp_all
  have "set (abs (ud_log st0)) \<subseteq> set (abs (ud_log st))" using read_ok [OF _ s r0] st by auto
  then have live0: "inv (ud_log st0) \<and> liveRows later session (abs (ud_log st0))" using d0(1) st by (auto simp: liveRows_def)
  show ?thesis
  proof (cases ds0)
    case Nil
    then show ?thesis using r r0 d0 by (simp add: settledDeliveries_def)
  next
    case (Cons d ds')
    show ?thesis
    proof (cases "d_payload d = None")
      case False
      then have "ds = ds0 \<and> st1 = st0" using r r0 Cons by (auto simp: settledDeliveries_def)
      then show ?thesis using d0 by simp
    next
      case True
      let ?w = "awaitPendingDelivery run (d_eventKey d) sleeps st0"
      have "readDeliveries run later session pts None ?w = (ds, st1)" using r r0 Cons True by (simp add: settledDeliveries_def)
      from read [OF await_live [OF keep live0] this] show ?thesis by simp
    qed
  qed
qed

lemma newest_ok:
  "inv (ud_log st) \<Longrightarrow> CHR 0x00 \<notin> set session \<Longrightarrow> newestOfChannels run session covered scopes st = (rs, st1) \<Longrightarrow>
   inv (ud_log st1) \<and> abs (ud_log st1) = abs (ud_log st)"
proof (induction scopes arbitrary: st rs st1)
  case (Cons sp scopes)
  obtain scope pts where sp: "sp = (scope, pts)" by (cases sp)
  show ?case
  proof (cases "scope \<in> covered \<or> channelScopeId scope = None")
    case True
    with Cons sp show ?thesis by (auto split: if_splits option.splits)
  next
    case False
    then obtain c where c: "channelScopeId scope = Some c" by blast
    obtain rows st2 where a: "getUpdateDeliveriesAfter run session (max 0 (pts - 1)) 1 (Some c) st = (rows, st2)"
      by (cases "getUpdateDeliveriesAfter run session (max 0 (pts - 1)) 1 (Some c) st")
    obtain found st3 where n: "newestOfChannels run session covered scopes st2 = (found, st3)"
      by (cases "newestOfChannels run session covered scopes st2")
    have "st1 = st3" using Cons.prems(3) sp False c a n by simp
    with Cons.IH [OF _ Cons.prems(2) n] after_ok [OF Cons.prems(1,2) a] show ?thesis by simp
  qed
qed simp

lemma mirror_ok:
  assumes i: "inv (ud_log st)" and s: "CHR 0x00 \<notin> set session" and m: "mirrorChannels run session date scopes c st = (c', st1)"
  shows "inv (ud_log st1) \<and> abs (ud_log st1) = abs (ud_log st) \<and> collectedLe c c'"
proof -
  obtain rows st2 where a: "askRows run (StoreGetSince session date CHANNEL_MIRROR_PAGE) st = (rows, st2)"
    by (cases "askRows run (StoreGetSince session date CHANNEL_MIRROR_PAGE) st")
  have g: "getChannelUpdateDeliveriesSince run session date CHANNEL_MIRROR_PAGE st = (filter (\<lambda>d. isChannelScope (d_scope d)) rows, st2)"
    by (simp add: getChannelUpdateDeliveriesSince_def a)
  let ?m = "mirrored (filter (\<lambda>d. isChannelScope (d_scope d)) rows)"
  obtain found st3 where n: "newestOfChannels run session (d_scope ` set ?m) scopes st2 = (found, st3)"
    by (cases "newestOfChannels run session (d_scope ` set ?m) scopes st2")
  have "plainOp (StoreGetSince session date CHANNEL_MIRROR_PAGE)" using s by (simp add: plainOp_def)
  from ask_ok(2) [OF i this a] have "inv (ud_log st2)" "abs (ud_log st2) = abs (ud_log st)" by (simp_all add: specRun_def)
  with newest_ok [OF _ s n] m show ?thesis by (auto simp: mirrorChannels_def g n collectRows_le)
qed

lemma account_difference:
  assumes keep: "\<forall>f\<in>set sleeps. \<forall>s. inv (ud_log s) \<and> liveRows later session (abs (ud_log s)) \<longrightarrow>
      inv (ud_log (f s)) \<and> liveRows later session (abs (ud_log (f s)))"
    and st: "inv (ud_log st) \<and> liveRows later session (abs (ud_log st))" and s: "CHR 0x00 \<notin> set session" and t: "now \<le> later"
    and g: "getDifference run sleeps now later session request st = (answer, st')"
    and d: "d \<in> set (abs (ud_log st'))"
  shows "inScope session ACCOUNT_UPDATE_SCOPE d \<Longrightarrow> dr_pts request < d_pts d \<Longrightarrow>
      (case answer of DifferenceEmpty _ _ \<Rightarrow> False | Difference c _ \<Rightarrow> deliveredIn messageOf c d
       | DifferenceSlice c state \<Rightarrow> d_pts d < us_pts state \<longrightarrow> deliveredIn messageOf c d)"
    and "inScope session (channelUpdateScope ch) d \<Longrightarrow> isSafeInteger (int ch) \<Longrightarrow> dr_date request \<le> d_date d \<Longrightarrow>
      0 < d_ptsCount d \<Longrightarrow> d_payload d \<noteq> None \<Longrightarrow>
      (case answer of DifferenceEmpty _ _ \<Rightarrow> False
       | Difference c _ \<Rightarrow> \<exists>p\<ge>d_pts d. ChannelTooLong ch p \<in> set (co_others c)
       | DifferenceSlice c _ \<Rightarrow> \<exists>p\<ge>d_pts d. ChannelTooLong ch p \<in> set (co_others c))"
proof -
  let ?state = "getUpdateState now session st"
  obtain ds st1 where r: "settledDeliveries run sleeps now later session (dr_pts request) st = (ds, st1)"
    by (cases "settledDeliveries run sleeps now later session (dr_pts request) st")
  from settled_rows [OF keep st s t r] have i1: "inv (ud_log st1)"
    and ds: "ds = take 101 (rowsAfter session None (dr_pts request) (abs (ud_log st1)))" by simp_all
  obtain scopes st2 where q: "getChangedChannelScopes run session (dr_date request) st1 = (scopes, st2)"
    by (cases "getChangedChannelScopes run session (dr_date request) st1")
  have "plainOp (StoreGetChanged session (dr_date request))" using s by (simp add: plainOp_def)
  with q ask_ok(3) [OF i1 this] run_answer [OF i1 this]
  have q': "inv (ud_log st2)" "abs (ud_log st2) = abs (ud_log st1)"
    "scopes = specChanged (filter (changedRow session (dr_date request)) (abs (ud_log st1)))"
    by (simp_all add: getChangedChannelScopes_def specRun_def) (simp add: askScopes_def split_beta)
  let ?page = "pageOf (requestedLimit request) ds"
  let ?own = "collectRows messageOf True ?page nothingCollected"
  obtain c st3 where m: "mirrorChannels run session (dr_date request) scopes ?own st2 = (c, st3)"
    by (cases "mirrorChannels run session (dr_date request) scopes ?own st2")
  from mirror_ok [OF q'(1) s m] q'(2) have m': "inv (ud_log st3)" "abs (ud_log st3) = abs (ud_log st1)" "collectedLe ?own c" by simp_all
  let ?content = "c\<lparr>co_others := co_others c @ tooLongMarks scopes\<rparr>"
  have ans: "(answer, st') = (if ds = [] \<and> scopes = [] \<and> dr_pts request = us_pts ?state
      then (DifferenceEmpty (us_date ?state) (us_seq ?state), st2)
      else (differenceAnswer request ?state ds ?page ?content, markAllPublished run ?page st3))"
    using g unfolding getDifference_def Let_def r q prod.case pageOf_def m [unfolded pageOf_def] by simp
  have rows: "sameRows (abs (ud_log st1)) (abs (ud_log st'))"
    using ans mark_ok [OF m'(1), of ?page] q'(2) m'(2) sameRows_refl by (auto split: if_splits)
  obtain d0 where d0: "d0 \<in> set (abs (ud_log st1))" "sameRow d0 d" using sameRows_old [OF rows d] by blast
  have del: "deliveredIn messageOf ?content x" if "x \<in> set ?page" for x
    by (rule deliveredIn_mono [OF collectedLe_trans [OF m'(3) collectedLe_refl(2)]])
      (rule collectRows_deliver [OF that page_payload [OF that]])
  show "(case answer of DifferenceEmpty _ _ \<Rightarrow> False | Difference c _ \<Rightarrow> deliveredIn messageOf c d
       | DifferenceSlice c state \<Rightarrow> d_pts d < us_pts state \<longrightarrow> deliveredIn messageOf c d)"
    if a: "inScope session ACCOUNT_UPDATE_SCOPE d" "dr_pts request < d_pts d"
  proof -
    let ?all = "rowsAfter session None (dr_pts request) (abs (ud_log st1))"
    have all: "d0 \<in> set ?all" using a d0 by (simp add: rowsAfter_set scopeOf_def sameRow_inScope) (simp add: sameRow_def)
    then have "ds \<noteq> []" by (auto simp: ds)
    then have ans': "answer = differenceAnswer request ?state ds ?page ?content" using ans by simp
    obtain k where k: "?page = take k ds" using pageOf_prefix by blast
    have sorted: "sorted (map d_pts ds)" unfolding ds using rowsAfter_sorted [of session None "dr_pts request" "abs (ud_log st1)"]
      by (simp add: take_map [symmetric] sorted_wrt_take)
    have whole: "deliveredIn messageOf ?content d" if "\<not> length ?page < length ds"
    proof -
      have "length ?page \<le> 100" using pageSize_bounds(2) [of "requestedLimit request"] by (simp add: pageOf_def)
      then have "length ds \<le> 100" using that by simp
      then have "ds = ?all" by (simp add: ds)
      moreover have "?page = ds" using that by (simp add: k)
      ultimately show ?thesis using del [of d0] all by (simp add: sameRow_delivered [OF d0(2)])
    qed
    moreover have "deliveredIn messageOf ?content d" if "?page \<noteq> []" "d_pts d < d_pts (last ?page)"
    proof -
      have l: "last ?page \<in> set (take k ds)" using that(1) by (simp add: k)
      have lt: "d_pts d0 < d_pts (last ?page)" using that(2) d0(2) by (simp add: sameRow_def)
      have "last ?page \<in> set (take 101 ?all)" using in_set_takeD [OF l] by (simp add: ds)
      from sorted_prefix [OF rowsAfter_sorted this all lt] have "d0 \<in> set ds" by (simp add: ds)
      from sorted_prefix [OF sorted l this lt] have "d0 \<in> set ?page" by (simp add: k)
      from del [OF this] show ?thesis by (simp add: sameRow_delivered [OF d0(2)])
    qed
    ultimately show ?thesis using a(2) \<open>ds \<noteq> []\<close> by (simp add: ans' differenceAnswer_def)
  qed
  show "(case answer of DifferenceEmpty _ _ \<Rightarrow> False
       | Difference c _ \<Rightarrow> \<exists>p\<ge>d_pts d. ChannelTooLong ch p \<in> set (co_others c)
       | DifferenceSlice c _ \<Rightarrow> \<exists>p\<ge>d_pts d. ChannelTooLong ch p \<in> set (co_others c))"
    if a: "inScope session (channelUpdateScope ch) d" "isSafeInteger (int ch)" "dr_date request \<le> d_date d" "0 < d_ptsCount d" "d_payload d \<noteq> None"
  proof -
    have scope: "d_scope d0 = channelUpdateScope ch" using a(1) d0(2) by (simp add: inScope_def sameRow_def)
    then have "isChannelScope (d_scope d0)" by simp
    then have "changedRow session (dr_date request) d0"
      using a d0(2) by (auto simp: changedRow_def sameRow_def inScope_def)
    from channel_marked [OF d0(1) this scope a(2)] obtain p where p: "d_pts d \<le> p" "ChannelTooLong ch p \<in> set (tooLongMarks scopes :: ('m, 'u) tlUpdate list)"
      using d0(2) unfolding q'(3) sameRow_def by metis
    then have "scopes \<noteq> []" by (auto simp: tooLongMarks_def changedChannels_def)
    then have "answer = differenceAnswer request ?state ds ?page ?content" using ans by simp
    moreover have "\<exists>p\<ge>d_pts d. ChannelTooLong ch p \<in> set (co_others ?content)" using p by auto
    ultimately show ?thesis by (simp add: differenceAnswer_def)
  qed
qed

end

section \<open>The memory backend\<close>

interpretation memory_tl: tl_update_store memRun "\<lambda>m. memInv m \<and> ms_retention m = n" memAbs n ..

section \<open>Properties\<close>



section \<open>Instances\<close>

definition demoPayload :: "nat \<Rightarrow> (nat, nat) tlPayload" where
  "demoPayload m = \<lparr>pl_updates = [NewChannelMessage m], pl_chats = [], pl_users = []\<rparr>"

definition demoFill :: "string \<Rightarrow> nat \<Rightarrow> (nat, nat) tlPayload logStore updateDb \<Rightarrow> (nat, nat) tlPayload logStore updateDb" where
  "demoFill ek m = setUpdatePayload memRun ek (demoPayload m)"

definition demoChannel :: "(nat, nat) tlPayload logStore updateDb" where
  "demoChannel = demoReserve ''c'' 1 (Some 7) (demoFill ''b'' 21 (demoReserve ''b'' 1 (Some 7)
     (demoFill ''a'' 20 (demoReserve ''a'' 1 (Some 7) demoDb))))"

definition demoAccount :: "(nat, nat) tlPayload logStore updateDb" where
  "demoAccount = demoReserve ''c'' 2 None (demoFill ''b'' 21 (demoReserve ''b'' 1 (Some 7) demoDb))"

lemma demoFill_step: "update_steps memRun demoDb st \<Longrightarrow> update_steps memRun demoDb (demoFill ek m st)"
  unfolding demoFill_def by (erule rtranclp.rtrancl_into_rtrancl) (rule update_step.setPayload)

lemma demo_numbered:
  "memInv (ud_log demoChannel) \<and> numberedRows (memAbs (ud_log demoChannel)) demoChannel"
  "memInv (ud_log demoAccount) \<and> ms_retention (ud_log demoAccount) = 1000"
proof -
  have start: "(memInv (ud_log demoDb) \<and> ms_retention (ud_log demoDb) = 1000) \<and>
      numberedRows (memAbs (ud_log demoDb)) (demoDb :: (nat, nat) tlPayload logStore updateDb)"
    using newLogStore_ok(1) [of None] by (simp add: demoDb_def newLog_numbered normalizeRetention_def)
  have "update_steps memRun demoDb demoChannel" "update_steps memRun demoDb demoAccount"
    unfolding demoChannel_def demoAccount_def by (intro demoReserve_step demoFill_step rtranclp.rtrancl_refl; simp)+
  from memory_log.steps_numbered [OF this(1) start] memory_log.steps_numbered [OF this(2) start]
  show "memInv (ud_log demoChannel) \<and> numberedRows (memAbs (ud_log demoChannel)) demoChannel"
    "memInv (ud_log demoAccount) \<and> ms_retention (ud_log demoAccount) = 1000" by simp_all
qed

definition demoRequest :: channelRequest where
  "demoRequest = \<lparr>cr_channel = Some 7, cr_pts = 1, cr_limit = 100\<rparr>"


lemma demoFill_live:
  assumes "memInv (ud_log s) \<and> ms_retention (ud_log s) = n \<and> liveRows later session (memAbs (ud_log s))"
  shows "memInv (ud_log (demoFill ek m s)) \<and> ms_retention (ud_log (demoFill ek m s)) = n \<and>
    liveRows later session (memAbs (ud_log (demoFill ek m s)))"
proof -
  have i: "memInv (ud_log s) \<and> ms_retention (ud_log s) = n" using assms by simp
  have "plainOp (StoreSetPayload ek (demoPayload m))" by (simp add: plainOp_def)
  from memory_log.tell_ok [OF i this] assms show ?thesis
    by (auto simp: demoFill_def setUpdatePayload_def specRun_def updateRow_def liveRows_def dropped_def inScope_def)
qed

definition demoSince :: diffRequest where
  "demoSince = \<lparr>dr_pts = 1, dr_qts = 0, dr_date = 100, dr_ptsLimit = None, dr_ptsTotalLimit = None\<rparr>"


section \<open>What the differences do not promise\<close>

text \<open>
  A row that reserves no pts hides that the rows before it have left the log. Here the log keeps one row of a
  scope: the mention read \<open>r\<close> has pushed out the message \<open>a\<close>, whose pts it shares, and a client at pts 1 is
  sent to pts 2 without message 20 and without a reset.
\<close>

definition hiddenGap :: "(nat, nat) tlPayload logStore updateDb" where
  "hiddenGap = demoFill ''r'' 30 (demoReserve ''r'' 0 (Some 7) (demoFill ''a'' 20 (demoReserve ''a'' 1 (Some 7)
     \<lparr>ud_log = newLogStore (Some 1), ud_account = [], ud_channel = []\<rparr>)))"

lemma mention_read_hides_gap:
  "fst (getChannelDifference memRun (\<lambda>c p. Some ()) 101 ''s'' demoRequest hiddenGap) =
     Inr (ChannelDifference True 2 30 \<lparr>co_messages = [30], co_others = [], co_chats = [], co_users = []\<rparr>)"
  by code_simp

text \<open>A row that reserves no pts is never served to a client that has reached its pts.\<close>

lemma mention_read_not_served:
  "fst (getChannelDifference memRun (\<lambda>c p. Some ()) 101 ''s'' (demoRequest\<lparr>cr_pts := 2\<rparr>) hiddenGap) =
     Inr (ChannelDifferenceEmpty True 2 30)"
  by code_simp

end
