(* ===== verification/Scheduled_Messages.thy ===== *)
theory Scheduled_Messages
  imports Prelude
begin

text \<open>
  Scheduled messages (\<open>packages/bridge/src/scheduled-messages.ts\<close>, and the handlers of
  \<open>packages/bridge/src/dialogs.ts\<close> that send or delete them at once): the two tables, the claims with their
  leases, retries, and the dispatcher with its timer.

  Tables are lists of rows in the order of their creation; a conditional update changes the rows that satisfy
  the condition and returns their number, which is what \<open>set\<close> of the database promises. The times of
  creation and of the last change, which nothing reads, are left out. \<open>serializeClaim\<close> makes a claim one step.
  Rows are read together and joined in one step. Times of rows are seconds, those of timers milliseconds.
\<close>

section \<open>Tables\<close>

definition SCHEDULED_MESSAGE_LEASE_MS :: int where "SCHEDULED_MESSAGE_LEASE_MS = 60000"
definition SCHEDULED_MESSAGE_MAX_DELAY_MS :: int where "SCHEDULED_MESSAGE_MAX_DELAY_MS = 24 * 60 * 60 * 1000"
definition SCHEDULED_MESSAGE_RETRY_MS :: "int list" where
  "SCHEDULED_MESSAGE_RETRY_MS = [30000, 120000, 600000, 3600000, 21600000, 86400000]"
definition SCHEDULED_MESSAGE_BATCH :: nat where "SCHEDULED_MESSAGE_BATCH = 50"

datatype schedStatus = Pending | Sending | Sent | Failed | Cancelled

record 'j schedRow =
  sm_id :: int
  sm_session :: string
  sm_conversation :: string
  sm_kind :: string
  sm_tlMessageId :: int
  sm_text :: string
  sm_entities :: "'j list option"
  sm_replyTo :: "int option"

record schedState =
  ss_messageId :: int
  ss_dueAt :: int
  ss_status :: schedStatus
  ss_attempts :: nat
  ss_nextAttemptAt :: int
  ss_leaseOwner :: "string option"
  ss_leaseUntil :: "int option"
  ss_randomId :: string
  ss_sentTlMessageId :: "int option"
  ss_lastError :: "string option"

text \<open>\<open>ScheduledMessage\<close>: a message with its state.\<close>

record 'j scheduled =
  sc_row :: "'j schedRow"
  sc_state :: schedState

record 'j schedDb =
  sd_messages :: "'j schedRow list"
  sd_states :: "schedState list"
  sd_nextId :: int

definition joinRows :: "schedState list \<Rightarrow> 'j schedDb \<Rightarrow> 'j scheduled list" where
  "joinRows states db = List.map_filter (\<lambda>s.
     case find (\<lambda>m. sm_id m = ss_messageId s) (sd_messages db) of
       None \<Rightarrow> None | Some m \<Rightarrow> Some \<lparr>sc_row = m, sc_state = s\<rparr>) states"

definition setStates :: "(schedState \<Rightarrow> bool) \<Rightarrow> (schedState \<Rightarrow> schedState) \<Rightarrow> 'j schedDb \<Rightarrow> nat \<times> 'j schedDb" where
  "setStates P f db =
     (length (filter P (sd_states db)), db\<lparr>sd_states := map (\<lambda>s. if P s then f s else s) (sd_states db)\<rparr>)"

section \<open>The store\<close>

text \<open>The tables refuse a second message with the same conversation and Telegram id, and a second
  \<open>randomId\<close>; the transaction then fails and nothing is stored (\<open>None\<close>).\<close>

definition schedCreate ::
  "string \<Rightarrow> string \<Rightarrow> string \<Rightarrow> int \<Rightarrow> string \<Rightarrow> 'j list option \<Rightarrow> int option \<Rightarrow> int \<Rightarrow> string \<Rightarrow> 'j schedDb \<Rightarrow>
   ('j scheduled \<times> 'j schedDb) option" where
  "schedCreate session conversation kind tlMessageId text' entities replyTo dueAt randomId db =
     (if (\<exists>m\<in>set (sd_messages db). sm_session m = session \<and> sm_conversation m = conversation \<and> sm_tlMessageId m = tlMessageId) \<or>
         (\<exists>s\<in>set (sd_states db). ss_randomId s = randomId) then None
      else
        (let m = \<lparr>sm_id = sd_nextId db, sm_session = session, sm_conversation = conversation, sm_kind = kind,
                  sm_tlMessageId = tlMessageId, sm_text = text', sm_entities = entities, sm_replyTo = replyTo\<rparr>;
             s = \<lparr>ss_messageId = sd_nextId db, ss_dueAt = dueAt, ss_status = Pending, ss_attempts = 0,
                  ss_nextAttemptAt = dueAt, ss_leaseOwner = None, ss_leaseUntil = None, ss_randomId = randomId,
                  ss_sentTlMessageId = None, ss_lastError = None\<rparr>
         in Some (\<lparr>sc_row = m, sc_state = s\<rparr>,
                  db\<lparr>sd_messages := sd_messages db @ [m], sd_states := sd_states db @ [s], sd_nextId := sd_nextId db + 1\<rparr>)))"

definition schedList :: "string \<Rightarrow> string \<Rightarrow> 'j schedDb \<Rightarrow> 'j scheduled list" where
  "schedList session conversation db =
     filter (\<lambda>r. sm_session (sc_row r) = session \<and> sm_conversation (sc_row r) = conversation)
       (joinRows (filter (\<lambda>s. ss_status s \<noteq> Sent \<and> ss_status s \<noteq> Cancelled) (sd_states db)) db)"

definition schedByTlIds :: "string \<Rightarrow> string \<Rightarrow> int list \<Rightarrow> 'j schedDb \<Rightarrow> 'j scheduled list" where
  "schedByTlIds session conversation ids db =
     filter (\<lambda>r. sm_tlMessageId (sc_row r) \<in> set ids) (schedList session conversation db)"

definition schedGet :: "int \<Rightarrow> 'j schedDb \<Rightarrow> 'j scheduled option" where
  "schedGet messageId db =
     (case joinRows (case find (\<lambda>s. ss_messageId s = messageId) (sd_states db) of None \<Rightarrow> [] | Some s \<Rightarrow> [s]) db of
        [] \<Rightarrow> None | r # _ \<Rightarrow> Some r)"

definition pendingRows :: "'j schedDb \<Rightarrow> 'j scheduled list" where
  "pendingRows db = joinRows (filter (\<lambda>s. ss_status s = Pending) (sd_states db)) db"

definition nextAttempt :: "'j scheduled \<Rightarrow> int" where
  "nextAttempt r = ss_nextAttemptAt (sc_state r)"

definition nextPending :: "'j schedDb \<Rightarrow> 'j scheduled option" where
  "nextPending db = (case sort_key nextAttempt (pendingRows db) of [] \<Rightarrow> None | r # _ \<Rightarrow> Some r)"

definition schedDue :: "int \<Rightarrow> nat \<Rightarrow> 'j schedDb \<Rightarrow> 'j scheduled list" where
  "schedDue now limit db = take limit (sort_key nextAttempt (filter (\<lambda>r. nextAttempt r \<le> now) (pendingRows db)))"

definition ceilSeconds :: "int \<Rightarrow> int" where
  "ceilSeconds ms = - ((- ms) div 1000)"

definition leaseExpired :: "int \<Rightarrow> schedState \<Rightarrow> bool" where
  "leaseExpired now s \<longleftrightarrow> ss_status s = Sending \<and> (case ss_leaseUntil s of None \<Rightarrow> False | Some t \<Rightarrow> t < now)"

definition claimable :: "bool \<Rightarrow> int \<Rightarrow> schedState \<Rightarrow> bool" where
  "claimable ignoreDue now s \<longleftrightarrow>
     (if ignoreDue then ss_status s = Pending \<or> ss_status s = Failed else ss_status s = Pending \<and> ss_nextAttemptAt s \<le> now) \<or>
     leaseExpired now s"

definition claimUnlocked :: "int \<Rightarrow> string \<Rightarrow> int \<Rightarrow> int \<Rightarrow> bool \<Rightarrow> 'j schedDb \<Rightarrow> bool \<times> 'j schedDb" where
  "claimUnlocked messageId owner now leaseMs ignoreDue db =
     (case setStates (\<lambda>s. ss_messageId s = messageId \<and> claimable ignoreDue now s)
        (\<lambda>s. s\<lparr>ss_status := Sending, ss_leaseOwner := Some owner, ss_leaseUntil := Some (now + ceilSeconds leaseMs)\<rparr>) db of
        (n, db') \<Rightarrow> (0 < n, db'))"

definition claim :: "int \<Rightarrow> string \<Rightarrow> int \<Rightarrow> int \<Rightarrow> 'j schedDb \<Rightarrow> bool \<times> 'j schedDb" where
  "claim messageId owner now leaseMs = claimUnlocked messageId owner now leaseMs False"

definition claimNow :: "int \<Rightarrow> string \<Rightarrow> int \<Rightarrow> int \<Rightarrow> 'j schedDb \<Rightarrow> bool \<times> 'j schedDb" where
  "claimNow messageId owner now leaseMs = claimUnlocked messageId owner now leaseMs True"

definition markSent :: "int \<Rightarrow> int option \<Rightarrow> 'j schedDb \<Rightarrow> 'j schedDb" where
  "markSent messageId sentId db = snd (setStates (\<lambda>s. ss_messageId s = messageId)
     (\<lambda>s. s\<lparr>ss_status := Sent, ss_sentTlMessageId := sentId, ss_leaseOwner := None, ss_leaseUntil := None, ss_lastError := None\<rparr>) db)"

definition schedRelease :: "int \<Rightarrow> schedStatus \<Rightarrow> string option \<Rightarrow> 'j schedDb \<Rightarrow> 'j schedDb" where
  "schedRelease messageId status err db = snd (setStates (\<lambda>s. ss_messageId s = messageId)
     (\<lambda>s. s\<lparr>ss_status := status, ss_leaseOwner := None, ss_leaseUntil := None, ss_lastError := err\<rparr>) db)"

definition schedReschedule :: "int \<Rightarrow> nat \<Rightarrow> int \<Rightarrow> schedStatus \<Rightarrow> string option \<Rightarrow> 'j schedDb \<Rightarrow> 'j schedDb" where
  "schedReschedule messageId attempts nextAttemptAt status err db = snd (setStates (\<lambda>s. ss_messageId s = messageId)
     (\<lambda>s. s\<lparr>ss_status := status, ss_attempts := attempts, ss_nextAttemptAt := nextAttemptAt, ss_leaseOwner := None,
            ss_leaseUntil := None, ss_lastError := err\<rparr>) db)"

definition schedCancel :: "string \<Rightarrow> string \<Rightarrow> int \<Rightarrow> 'j schedDb \<Rightarrow> bool \<times> 'j schedDb" where
  "schedCancel session conversation tlMessageId db =
     (case find (\<lambda>m. sm_session m = session \<and> sm_conversation m = conversation \<and> sm_tlMessageId m = tlMessageId) (sd_messages db) of
        None \<Rightarrow> (False, db)
      | Some m \<Rightarrow>
          (case setStates (\<lambda>s. ss_messageId s = sm_id m \<and> (ss_status s = Pending \<or> ss_status s = Sending \<or> ss_status s = Failed))
             (\<lambda>s. s\<lparr>ss_status := Cancelled, ss_leaseOwner := None, ss_leaseUntil := None\<rparr>) db of
             (n, db') \<Rightarrow> (0 < n, db')))"

definition requeueExpired :: "int \<Rightarrow> 'j schedDb \<Rightarrow> nat \<times> 'j schedDb" where
  "requeueExpired now db = setStates (leaseExpired now)
     (\<lambda>s. s\<lparr>ss_status := Pending, ss_leaseOwner := None, ss_leaseUntil := None\<rparr>) db"

section \<open>The dispatcher\<close>

text \<open>A timer with the time it fires at: a wait that was cut to the longest delay, or one for the row's time.\<close>

datatype schedTimer = ClampedTimer int | DueTimer int

fun timerAt :: "schedTimer \<Rightarrow> int" where
  "timerAt (ClampedTimer t) = t"
| "timerAt (DueTimer t) = t"

record 'j dispatcher =
  dp_db :: "'j schedDb"
  dp_owner :: string
  dp_maxDelayMs :: int
  dp_leaseMs :: int
  dp_timer :: "schedTimer option"
  dp_armedAt :: "int option"
  dp_fallback :: bool
  dp_running :: bool
  dp_stopped :: bool

definition newDispatcher :: "'j schedDb \<Rightarrow> string \<Rightarrow> 'j dispatcher" where
  "newDispatcher db owner = \<lparr>dp_db = db, dp_owner = owner, dp_maxDelayMs = SCHEDULED_MESSAGE_MAX_DELAY_MS,
     dp_leaseMs = SCHEDULED_MESSAGE_LEASE_MS, dp_timer = None, dp_armedAt = None, dp_fallback = False,
     dp_running = False, dp_stopped = False\<rparr>"

definition dueNow :: "int \<Rightarrow> int" where
  "dueNow nowMs = nowMs div 1000"

definition clearTimer :: "'j dispatcher \<Rightarrow> 'j dispatcher" where
  "clearTimer d = d\<lparr>dp_timer := None, dp_armedAt := None\<rparr>"

definition arm :: "int \<Rightarrow> 'j scheduled \<Rightarrow> 'j dispatcher \<Rightarrow> 'j dispatcher" where
  "arm nowMs r d =
     (let delay = nextAttempt r * 1000 - nowMs
      in (clearTimer d)\<lparr>dp_armedAt := Some (nextAttempt r),
           dp_timer := Some (if dp_maxDelayMs d < delay then ClampedTimer (nowMs + dp_maxDelayMs d)
                             else DueTimer (nowMs + max 0 delay))\<rparr>)"

definition rescan :: "int \<Rightarrow> 'j dispatcher \<Rightarrow> 'j dispatcher" where
  "rescan nowMs d =
     (if dp_stopped d then d
      else case nextPending (dp_db d) of
             None \<Rightarrow> clearTimer d
           | Some r \<Rightarrow>
               (if dp_timer d \<noteq> None \<and> (case dp_armedAt d of None \<Rightarrow> False | Some a \<Rightarrow> a \<le> nextAttempt r) then d
                else arm nowMs r d))"

text \<open>A sender gets the message and answers with an error text or the id of the sent message; what else
  happens while it runs (other dispatchers, handlers, a stop) is in the state it returns.\<close>

type_synonym 'j sender = "'j scheduled \<Rightarrow> 'j dispatcher \<Rightarrow> (string + int option) \<times> 'j dispatcher"

definition retryAt :: "nat \<Rightarrow> int \<Rightarrow> int" where
  "retryAt attempts now =
     now + ceilSeconds (SCHEDULED_MESSAGE_RETRY_MS ! min (attempts - 1) (length SCHEDULED_MESSAGE_RETRY_MS - 1))"

definition parked :: "nat \<Rightarrow> bool" where
  "parked attempts \<longleftrightarrow> length SCHEDULED_MESSAGE_RETRY_MS < attempts"

definition dispatchMessage :: "'j sender \<Rightarrow> int \<Rightarrow> 'j scheduled \<Rightarrow> 'j dispatcher \<Rightarrow> 'j dispatcher" where
  "dispatchMessage send now r d =
     (case claim (sm_id (sc_row r)) (dp_owner d) now (dp_leaseMs d) (dp_db d) of
        (False, db) \<Rightarrow> d\<lparr>dp_db := db\<rparr>
      | (True, db) \<Rightarrow>
          (case send r (d\<lparr>dp_db := db\<rparr>) of
             (Inr sentId, d1) \<Rightarrow> d1\<lparr>dp_db := markSent (sm_id (sc_row r)) sentId (dp_db d1)\<rparr>
           | (Inl err, d1) \<Rightarrow>
               (let attempts = ss_attempts (sc_state r) + 1
                in d1\<lparr>dp_db := schedReschedule (sm_id (sc_row r)) attempts
                     (if parked attempts then now else retryAt attempts now)
                     (if parked attempts then Failed else Pending) (Some err) (dp_db d1)\<rparr>)))"

fun dispatchAll :: "'j sender \<Rightarrow> int \<Rightarrow> 'j scheduled list \<Rightarrow> 'j dispatcher \<Rightarrow> 'j dispatcher" where
  "dispatchAll send now [] d = d"
| "dispatchAll send now (r # rs) d =
     (if dp_stopped d then d else dispatchAll send now rs (dispatchMessage send now r d))"

text \<open>\<open>nowMs\<close> is the clock when the sweep starts, \<open>laterMs\<close> when it looks for the next row.\<close>

definition sweep :: "'j sender \<Rightarrow> int \<Rightarrow> int \<Rightarrow> 'j dispatcher \<Rightarrow> 'j dispatcher" where
  "sweep send nowMs laterMs d =
     (if dp_stopped d then d
      else rescan laterMs (dispatchAll send (dueNow nowMs)
             (schedDue (dueNow nowMs) SCHEDULED_MESSAGE_BATCH (dp_db d)) (clearTimer d)))"

definition startDispatcher :: "int \<Rightarrow> 'j dispatcher \<Rightarrow> 'j dispatcher" where
  "startDispatcher nowMs d =
     (if dp_running d then d
      else (rescan nowMs (d\<lparr>dp_stopped := False, dp_running := True,
              dp_db := snd (requeueExpired (dueNow nowMs) (dp_db d))\<rparr>))\<lparr>dp_fallback := True\<rparr>)"

definition stopDispatcher :: "'j dispatcher \<Rightarrow> 'j dispatcher" where
  "stopDispatcher d = (clearTimer d)\<lparr>dp_stopped := True, dp_running := False, dp_fallback := False\<rparr>"

text \<open>\<open>None\<close>: a delay that is not finite.\<close>

definition clampScheduleDelay :: "int option \<Rightarrow> int \<Rightarrow> int" where
  "clampScheduleDelay delayMs maxMs = (case delayMs of None \<Rightarrow> maxMs | Some ms \<Rightarrow> min (max 0 ms) maxMs)"

section \<open>The handlers\<close>

text \<open>\<open>sendScheduledMessages\<close>: the rows with the clock at each of them; the Telegram ids removed from the
  client's list and the ids of the messages sent.\<close>

fun sendScheduledRows ::
  "('j scheduled \<Rightarrow> 'j schedDb \<Rightarrow> (string + int option) \<times> 'j schedDb) \<Rightarrow> string \<Rightarrow> ('j scheduled \<times> int) list \<Rightarrow>
   int list \<times> int list \<Rightarrow> 'j schedDb \<Rightarrow> (string + int list \<times> int list) \<times> 'j schedDb" where
  "sendScheduledRows send owner [] acc db = (Inr acc, db)"
| "sendScheduledRows send owner ((r, now) # rs) (removed, sent) db =
     (case claimNow (sm_id (sc_row r)) owner now SCHEDULED_MESSAGE_LEASE_MS db of
        (False, db1) \<Rightarrow> sendScheduledRows send owner rs (removed, sent) db1
      | (True, db1) \<Rightarrow>
          (case send r db1 of
             (Inl err, db2) \<Rightarrow>
               (Inl err, schedRelease (sm_id (sc_row r)) (if ss_status (sc_state r) = Failed then Failed else Pending) (Some err) db2)
           | (Inr newId, db2) \<Rightarrow>
               sendScheduledRows send owner rs
                 (removed @ [sm_tlMessageId (sc_row r)], sent @ (case newId of None \<Rightarrow> [] | Some i \<Rightarrow> [i]))
                 (markSent (sm_id (sc_row r)) newId db2)))"

fun deleteScheduledRows :: "string \<Rightarrow> string \<Rightarrow> int list \<Rightarrow> 'j schedDb \<Rightarrow> int list \<times> 'j schedDb" where
  "deleteScheduledRows session conversation [] db = ([], db)"
| "deleteScheduledRows session conversation (i # ids) db =
     (case schedCancel session conversation i db of
        (done', db1) \<Rightarrow>
          (case deleteScheduledRows session conversation ids db1 of
             (removed, db2) \<Rightarrow> (if done' then i # removed else removed, db2)))"

end
