(* ===== verification/Scheduled_Messages_Safety.thy ===== *)
theory Scheduled_Messages_Safety
  imports Scheduled_Messages
begin

text \<open>
  Scheduled messages: a claim keeps every other sender away until its lease ends, a sweep serves exactly the due
  rows, retries end, and a row that waits has a timer.
\<close>

section \<open>Well-formed tables\<close>

definition messageKey :: "'j schedRow \<Rightarrow> string \<times> string \<times> int" where
  "messageKey m = (sm_session m, sm_conversation m, sm_tlMessageId m)"

definition schedWf :: "'j schedDb \<Rightarrow> bool" where
  "schedWf db \<longleftrightarrow> distinct (map sm_id (sd_messages db)) \<and> map ss_messageId (sd_states db) = map sm_id (sd_messages db) \<and>
     (\<forall>m\<in>set (sd_messages db). sm_id m < sd_nextId db) \<and> distinct (map messageKey (sd_messages db)) \<and>
     (\<forall>s\<in>set (sd_states db). ss_status s = Sending \<longrightarrow> ss_leaseUntil s \<noteq> None)"

definition stateOf :: "int \<Rightarrow> 'j schedDb \<Rightarrow> schedState option" where
  "stateOf i db = find (\<lambda>s. ss_messageId s = i) (sd_states db)"

lemma schedWfD:
  assumes "schedWf db"
  shows "distinct (map sm_id (sd_messages db))" "distinct (map ss_messageId (sd_states db))"
    "map ss_messageId (sd_states db) = map sm_id (sd_messages db)" "distinct (map messageKey (sd_messages db))"
  using assms by (simp_all add: schedWf_def)

lemma find_distinct: "distinct (map f xs) \<Longrightarrow> find (\<lambda>x. f x = k) xs = Some x \<longleftrightarrow> x \<in> set xs \<and> f x = k"
  by (induction xs) (auto simp: image_iff)

lemma stateOf_iff: "schedWf db \<Longrightarrow> stateOf i db = Some s \<longleftrightarrow> s \<in> set (sd_states db) \<and> ss_messageId s = i"
  by (simp add: stateOf_def find_distinct schedWfD)

lemma find_map_key: "(\<And>x. f (g x) = f x) \<Longrightarrow> find (\<lambda>x. f x = k) (map g xs) = map_option g (find (\<lambda>x. f x = k) xs)"
  by (induction xs) auto

lemma stateOf_setStates:
  assumes "\<And>s. ss_messageId (f s) = ss_messageId s"
  shows "stateOf i (snd (setStates P f db)) = map_option (\<lambda>s. if P s then f s else s) (stateOf i db)"
  using assms by (simp add: stateOf_def setStates_def find_map_key)

lemma setStates_wf:
  assumes "schedWf db" "\<And>s. ss_messageId (f s) = ss_messageId s"
    and "\<And>s. ss_status (f s) = Sending \<Longrightarrow> ss_leaseUntil (f s) \<noteq> None"
  shows "schedWf (snd (setStates P f db))"
proof -
  have "ss_messageId \<circ> (\<lambda>s. if P s then f s else s) = ss_messageId" using assms(2) by (auto simp: fun_eq_iff)
  then show ?thesis using assms by (auto simp: schedWf_def setStates_def)
qed

lemma setStates_count: "0 < fst (setStates P f db) \<longleftrightarrow> (\<exists>s\<in>set (sd_states db). P s)"
  by (auto simp: setStates_def filter_empty_conv)

lemma claim_iff:
  assumes "schedWf db"
  shows "fst (claimUnlocked i owner now leaseMs b db) \<longleftrightarrow> (\<exists>s. stateOf i db = Some s \<and> claimable b now s)"
  using setStates_count [of "\<lambda>s. ss_messageId s = i \<and> claimable b now s" _ db] stateOf_iff [OF assms]
  by (auto simp: claimUnlocked_def split_beta)

lemma claim_state:
  "stateOf j (snd (claimUnlocked i owner now leaseMs b db)) =
     map_option (\<lambda>s. if ss_messageId s = i \<and> claimable b now s
       then s\<lparr>ss_status := Sending, ss_leaseOwner := Some owner, ss_leaseUntil := Some (now + ceilSeconds leaseMs)\<rparr> else s) (stateOf j db)"
  by (simp add: claimUnlocked_def split_beta stateOf_setStates)

section \<open>Operations\<close>

datatype 'j schedOp =
    CreateOp string string string int string "'j list option" "int option" int string
  | ClaimOp int string int int bool
  | SentOp int "int option"
  | ReleaseOp int schedStatus "string option"
  | RescheduleOp int nat int schedStatus "string option"
  | CancelOp string string int
  | RequeueOp int

fun runOp :: "'j schedOp \<Rightarrow> 'j schedDb \<Rightarrow> 'j schedDb" where
  "runOp (CreateOp s c k i t e r due rnd) db = (case schedCreate s c k i t e r due rnd db of None \<Rightarrow> db | Some (_, db') \<Rightarrow> db')"
| "runOp (ClaimOp i owner now leaseMs b) db = snd (claimUnlocked i owner now leaseMs b db)"
| "runOp (SentOp i sentId) db = markSent i sentId db"
| "runOp (ReleaseOp i status err) db = schedRelease i status err db"
| "runOp (RescheduleOp i n at status err) db = schedReschedule i n at status err db"
| "runOp (CancelOp s c i) db = snd (schedCancel s c i db)"
| "runOp (RequeueOp now) db = snd (requeueExpired now db)"

text \<open>A release or a new attempt puts a row back, it does not claim it.\<close>

fun plainSchedOp :: "'j schedOp \<Rightarrow> bool" where
  "plainSchedOp (ReleaseOp _ status _) \<longleftrightarrow> status \<noteq> Sending"
| "plainSchedOp (RescheduleOp _ _ _ status _) \<longleftrightarrow> status \<noteq> Sending"
| "plainSchedOp _ \<longleftrightarrow> True"

lemma schedCancel_eq:
  "snd (schedCancel s c i db) = (case find (\<lambda>m. messageKey m = (s, c, i)) (sd_messages db) of None \<Rightarrow> db
     | Some m \<Rightarrow> snd (setStates (\<lambda>x. ss_messageId x = sm_id m \<and> (ss_status x = Pending \<or> ss_status x = Sending \<or> ss_status x = Failed))
         (\<lambda>x. x\<lparr>ss_status := Cancelled, ss_leaseOwner := None, ss_leaseUntil := None\<rparr>) db))"
  by (simp add: schedCancel_def messageKey_def split_beta split: option.split)

lemma runOp_wf: "schedWf db \<Longrightarrow> plainSchedOp op \<Longrightarrow> schedWf (runOp op db)"
proof (induction op db rule: runOp.induct)
  case (1 s c k i t e r due rnd db)
  then show ?case
    by (auto simp: schedCreate_def Let_def schedWf_def messageKey_def split: option.split)
next
  case (6 s c i db)
  then show ?case by (auto simp del: runOp.simps(6) simp: runOp.simps(6) schedCancel_eq intro: setStates_wf split: option.split)
qed (auto simp: claimUnlocked_def markSent_def schedRelease_def schedReschedule_def requeueExpired_def split_beta intro: setStates_wf)

fun runOps :: "'j schedOp list \<Rightarrow> 'j schedDb \<Rightarrow> 'j schedDb" where
  "runOps [] db = db"
| "runOps (op # ops) db = runOps ops (runOp op db)"

text \<open>Operations that neither finish the message \<open>m\<close> nor happen after \<open>deadline\<close>.\<close>

fun sparesMessage :: "'j schedRow \<Rightarrow> int \<Rightarrow> 'j schedOp \<Rightarrow> bool" where
  "sparesMessage m deadline (ClaimOp _ _ now _ _) \<longleftrightarrow> now \<le> deadline"
| "sparesMessage m deadline (RequeueOp now) \<longleftrightarrow> now \<le> deadline"
| "sparesMessage m deadline (SentOp i _) \<longleftrightarrow> i \<noteq> sm_id m"
| "sparesMessage m deadline (ReleaseOp i status _) \<longleftrightarrow> i \<noteq> sm_id m \<and> status \<noteq> Sending"
| "sparesMessage m deadline (RescheduleOp i _ _ status _) \<longleftrightarrow> i \<noteq> sm_id m \<and> status \<noteq> Sending"
| "sparesMessage m deadline (CancelOp s c i) \<longleftrightarrow> (s, c, i) \<noteq> messageKey m"
| "sparesMessage m deadline (CreateOp _ _ _ _ _ _ _ _ _) \<longleftrightarrow> True"

lemma spares_plain: "sparesMessage m deadline op \<Longrightarrow> plainSchedOp op"
  by (cases op) auto

lemma runOp_messages: "m \<in> set (sd_messages db) \<Longrightarrow> m \<in> set (sd_messages (runOp op db))"
  by (cases op) (auto simp: schedCreate_def Let_def claimUnlocked_def markSent_def schedRelease_def schedReschedule_def
      requeueExpired_def schedCancel_eq setStates_def split_beta split: option.split)

lemma stateOf_create:
  assumes "schedWf db" "stateOf i db = Some x"
  shows "stateOf i (runOp (CreateOp s c k j t e r due rnd) db) = Some x"
proof -
  have "find P (xs @ ys) = Some x" if "find P xs = Some x" for P and xs ys :: "schedState list"
    using that by (induction xs) (auto split: if_splits)
  then show ?thesis using assms(2) by (auto simp: schedCreate_def Let_def stateOf_def split: option.split)
qed

text \<open>A row that no one may claim before the deadline: under a lease, or finished.\<close>

definition heldUntil :: "int \<Rightarrow> schedState \<Rightarrow> bool" where
  "heldUntil deadline s \<longleftrightarrow> ss_status s = Sending \<and> ss_leaseUntil s = Some deadline"

lemma held_not_claimable: "heldUntil deadline s \<Longrightarrow> now \<le> deadline \<Longrightarrow> \<not> claimable b now s"
  by (auto simp: heldUntil_def claimable_def leaseExpired_def)

lemma held_step:
  assumes wf: "schedWf db" and m: "m \<in> set (sd_messages db)" and s: "stateOf (sm_id m) db = Some s"
    and held: "heldUntil deadline s" and op: "sparesMessage m deadline op"
  shows "stateOf (sm_id m) (runOp op db) = Some s"
proof -
  have id: "ss_messageId s = sm_id m" using s stateOf_iff [OF wf] by blast
  show ?thesis
  proof (cases op)
    case (CreateOp s' c k i t e r due rnd)
    then show ?thesis using stateOf_create [OF wf s] by blast
  next
    case (ClaimOp i owner now leaseMs b)
    then show ?thesis using held_not_claimable [OF held, of now b] op by (simp add: claim_state s)
  next
    case (RequeueOp now)
    then show ?thesis using held op by (simp add: requeueExpired_def stateOf_setStates s leaseExpired_def heldUntil_def)
  next
    case (CancelOp s' c i)
    show ?thesis
    proof (cases "find (\<lambda>x. messageKey x = (s', c, i)) (sd_messages db)")
      case None
      then show ?thesis using CancelOp s by (simp add: schedCancel_eq)
    next
      case (Some x)
      then have "x \<in> set (sd_messages db)" "messageKey x = (s', c, i)"
        using find_distinct [OF schedWfD(4) [OF wf]] by blast+
      then have "sm_id x \<noteq> sm_id m" using op CancelOp m schedWfD(1) [OF wf] by (auto simp: distinct_map inj_on_def)
      then show ?thesis using CancelOp Some id by (simp add: schedCancel_eq stateOf_setStates s)
    qed
  qed (use op s id in \<open>auto simp: markSent_def schedRelease_def schedReschedule_def stateOf_setStates\<close>)
qed

lemma held_steps:
  "schedWf db \<Longrightarrow> m \<in> set (sd_messages db) \<Longrightarrow> stateOf (sm_id m) db = Some s \<Longrightarrow> heldUntil deadline s \<Longrightarrow>
   list_all (sparesMessage m deadline) ops \<Longrightarrow> schedWf (runOps ops db) \<and> stateOf (sm_id m) (runOps ops db) = Some s"
proof (induction ops arbitrary: db)
  case (Cons op ops)
  from Cons.prems have "schedWf (runOp op db)" "m \<in> set (sd_messages (runOp op db))" "stateOf (sm_id m) (runOp op db) = Some s"
    using runOp_wf spares_plain runOp_messages held_step by (fastforce, fastforce, fastforce)
  with Cons.IH Cons.prems(4,5) show ?case by simp
qed simp

section \<open>Due rows\<close>

lemma join_row:
  assumes "r \<in> set (joinRows states db)"
  shows "sc_state r \<in> set states \<and> sc_row r \<in> set (sd_messages db) \<and> sm_id (sc_row r) = ss_messageId (sc_state r)"
  using assms by (induction states) (auto simp: joinRows_def map_filter_simps find_Some_iff split: option.splits)

lemma join_ids:
  assumes "schedWf db" "set states \<subseteq> set (sd_states db)"
  shows "map (\<lambda>r. sm_id (sc_row r)) (joinRows states db) = map ss_messageId states" "map sc_state (joinRows states db) = states"
proof -
  have "\<exists>m. find (\<lambda>m. sm_id m = ss_messageId s) (sd_messages db) = Some m \<and> sm_id m = ss_messageId s" if "s \<in> set states" for s
  proof -
    have "ss_messageId s \<in> set (map sm_id (sd_messages db))"
      unfolding schedWfD(3) [OF assms(1), symmetric] using that assms(2) by auto
    then obtain m where "m \<in> set (sd_messages db)" "sm_id m = ss_messageId s" by auto
    then show ?thesis using find_distinct [OF schedWfD(1) [OF assms(1)]] by blast
  qed
  then show "map (\<lambda>r. sm_id (sc_row r)) (joinRows states db) = map ss_messageId states" "map sc_state (joinRows states db) = states"
    by (induction states) (force simp: joinRows_def map_filter_simps)+
qed

lemma pendingRows_spec:
  assumes "schedWf db"
  shows "distinct (map (\<lambda>r. sm_id (sc_row r)) (pendingRows db))"
    and "map sc_state (pendingRows db) = filter (\<lambda>s. ss_status s = Pending) (sd_states db)"
    and "r \<in> set (pendingRows db) \<Longrightarrow> sc_state r \<in> set (sd_states db) \<and> ss_status (sc_state r) = Pending \<and>
      sm_id (sc_row r) = ss_messageId (sc_state r)"
proof -
  let ?f = "filter (\<lambda>s. ss_status s = Pending) (sd_states db)"
  have sub: "set ?f \<subseteq> set (sd_states db)" by auto
  show "distinct (map (\<lambda>r. sm_id (sc_row r)) (pendingRows db))" "map sc_state (pendingRows db) = ?f"
    using join_ids [OF assms sub] schedWfD(2) [OF assms] by (simp_all add: pendingRows_def distinct_map_filter)
  show "sc_state r \<in> set (sd_states db) \<and> ss_status (sc_state r) = Pending \<and> sm_id (sc_row r) = ss_messageId (sc_state r)"
    if "r \<in> set (pendingRows db)"
    using join_row [OF that [unfolded pendingRows_def]] by auto
qed

lemma due_spec:
  assumes "schedWf db"
  shows "distinct (map (\<lambda>r. sm_id (sc_row r)) (schedDue now n db))" "length (schedDue now n db) \<le> n"
    and "r \<in> set (schedDue now n db) \<Longrightarrow> r \<in> set (pendingRows db) \<and> nextAttempt r \<le> now"
    and "length (schedDue now n db) < n \<Longrightarrow> r \<in> set (pendingRows db) \<Longrightarrow> nextAttempt r \<le> now \<Longrightarrow> r \<in> set (schedDue now n db)"
proof -
  let ?f = "filter (\<lambda>r. nextAttempt r \<le> now) (pendingRows db)"
  have "distinct (map (\<lambda>r. sm_id (sc_row r)) (sort_key nextAttempt ?f))"
    using pendingRows_spec(1) [OF assms] by (simp add: distinct_map inj_on_def)
  then show "distinct (map (\<lambda>r. sm_id (sc_row r)) (schedDue now n db))"
    unfolding schedDue_def take_map [symmetric] by (rule distinct_take)
  show "length (schedDue now n db) \<le> n" by (simp add: schedDue_def)
  show "r \<in> set (schedDue now n db) \<Longrightarrow> r \<in> set (pendingRows db) \<and> nextAttempt r \<le> now"
    by (auto simp: schedDue_def dest: in_set_takeD)
  show "length (schedDue now n db) < n \<Longrightarrow> r \<in> set (pendingRows db) \<Longrightarrow> nextAttempt r \<le> now \<Longrightarrow> r \<in> set (schedDue now n db)"
    by (auto simp: schedDue_def)
qed

section \<open>A sweep\<close>

text \<open>A sender during whose work nothing else happens.\<close>

definition quiet :: "('j scheduled \<Rightarrow> string + int option) \<Rightarrow> 'j sender" where
  "quiet outcome r d = (outcome r, d)"

text \<open>What one attempt makes of a row.\<close>

definition serve :: "(string + int option) \<Rightarrow> int \<Rightarrow> schedState \<Rightarrow> schedState" where
  "serve result now s = (case result of
     Inr sentId \<Rightarrow> s\<lparr>ss_status := Sent, ss_sentTlMessageId := sentId, ss_leaseOwner := None, ss_leaseUntil := None, ss_lastError := None\<rparr>
   | Inl err \<Rightarrow> s\<lparr>ss_status := if parked (ss_attempts s + 1) then Failed else Pending, ss_attempts := ss_attempts s + 1,
       ss_nextAttemptAt := if parked (ss_attempts s + 1) then now else retryAt (ss_attempts s + 1) now,
       ss_leaseOwner := None, ss_leaseUntil := None, ss_lastError := Some err\<rparr>)"

definition serveRows :: "('j scheduled \<Rightarrow> string + int option) \<Rightarrow> int \<Rightarrow> 'j scheduled list \<Rightarrow> schedState \<Rightarrow> schedState" where
  "serveRows outcome now rows s =
     (case find (\<lambda>r. sm_id (sc_row r) = ss_messageId s) rows of None \<Rightarrow> s | Some r \<Rightarrow> serve (outcome r) now s)"

lemma serve_id [simp]: "ss_messageId (serve result now s) = ss_messageId s" "ss_messageId (serveRows outcome now rows s) = ss_messageId s"
  by (simp_all add: serve_def serveRows_def split: sum.split option.split)

lemma serve_status: "ss_status (serve result now s) \<noteq> Sending"
  by (simp add: serve_def split: sum.split)

lemma serve_wf:
  assumes "schedWf db"
  shows "schedWf (db\<lparr>sd_states := map (serveRows outcome now rows) (sd_states db)\<rparr>)"
proof -
  have "ss_messageId \<circ> serveRows outcome now rows = ss_messageId" by (simp add: fun_eq_iff)
  moreover have "ss_status (serveRows outcome now rows s) = Sending \<Longrightarrow> serveRows outcome now rows s = s" for s
    using serve_status by (auto simp: serveRows_def split: option.splits)
  ultimately show ?thesis using assms unfolding schedWf_def by (auto simp: image_iff) (metis option.distinct(1))
qed

lemma dispatch_quiet:
  assumes wf: "schedWf (dp_db d)" and s: "sc_state r \<in> set (sd_states (dp_db d))" and i: "sm_id (sc_row r) = ss_messageId (sc_state r)"
    and p: "ss_status (sc_state r) = Pending" "ss_nextAttemptAt (sc_state r) \<le> now"
  shows "dispatchMessage (quiet outcome) now r d =
    d\<lparr>dp_db := (dp_db d)\<lparr>sd_states := map (serveRows outcome now [r]) (sd_states (dp_db d))\<rparr>\<rparr>"
proof -
  let ?i = "sm_id (sc_row r)" and ?states = "sd_states (dp_db d)"
  have only: "x = sc_state r" if "x \<in> set ?states" "ss_messageId x = ?i" for x
    using that s i schedWfD(2) [OF wf] by (auto simp: distinct_map inj_on_def)
  have c: "claimable False now (sc_state r)" using p by (simp add: claimable_def)
  let ?f = "\<lambda>s. if ss_messageId s = ?i \<and> claimable False now s
    then s\<lparr>ss_status := Sending, ss_leaseOwner := Some (dp_owner d), ss_leaseUntil := Some (now + ceilSeconds (dp_leaseMs d))\<rparr> else s"
  have "fst (claim ?i (dp_owner d) now (dp_leaseMs d) (dp_db d))"
    using s i c by (auto simp: claim_def claim_iff [OF wf] stateOf_iff [OF wf])
  then have claim: "claim ?i (dp_owner d) now (dp_leaseMs d) (dp_db d) = (True, (dp_db d)\<lparr>sd_states := map ?f ?states\<rparr>)"
    by (simp add: claim_def claimUnlocked_def setStates_def)
  have "map (\<lambda>s. if ss_messageId s = ?i then g s else s) (map ?f ?states) = map (serveRows outcome now [r]) ?states"
    if "serve (outcome r) now (sc_state r) = g (?f (sc_state r))" for g
    unfolding map_map o_def
  proof (intro map_cong refl)
    fix x assume x: "x \<in> set ?states"
    show "(if ss_messageId (?f x) = ?i then g (?f x) else ?f x) = serveRows outcome now [r] x"
    proof (cases "ss_messageId x = ?i")
      case True
      with only [OF x] have "x = sc_state r" by blast
      then show ?thesis using that i by (simp add: serveRows_def)
    qed (simp add: serveRows_def)
  qed
  note eq = this
  show ?thesis
  proof (cases "outcome r")
    case (Inl e)
    let ?a = "Suc (ss_attempts (sc_state r))"
    have "map (\<lambda>s. if ss_messageId s = ?i then s\<lparr>ss_status := if parked ?a then Failed else Pending, ss_attempts := ?a,
        ss_nextAttemptAt := if parked ?a then now else retryAt ?a now, ss_leaseOwner := None, ss_leaseUntil := None,
        ss_lastError := Some e\<rparr> else s) (map ?f ?states) = map (serveRows outcome now [r]) ?states"
      by (rule eq) (simp add: serve_def Inl i c)
    then show ?thesis
      unfolding dispatchMessage_def claim by (simp add: quiet_def Inl Let_def schedReschedule_def setStates_def split del: if_split del: map_map map_eq_conv)
  next
    case (Inr x)
    have "map (\<lambda>s. if ss_messageId s = ?i then s\<lparr>ss_status := Sent, ss_sentTlMessageId := x, ss_leaseOwner := None,
        ss_leaseUntil := None, ss_lastError := None\<rparr> else s) (map ?f ?states) = map (serveRows outcome now [r]) ?states"
      by (rule eq) (simp add: serve_def Inr i c)
    then show ?thesis
      unfolding dispatchMessage_def claim by (simp add: quiet_def Inr markSent_def setStates_def split del: if_split del: map_map map_eq_conv)
  qed
qed

lemma dispatchAll_quiet:
  assumes "schedWf (dp_db d)" "\<not> dp_stopped d" "distinct (map (\<lambda>r. sm_id (sc_row r)) rows)"
    and "\<And>r. r \<in> set rows \<Longrightarrow> sc_state r \<in> set (sd_states (dp_db d)) \<and> sm_id (sc_row r) = ss_messageId (sc_state r) \<and>
      ss_status (sc_state r) = Pending \<and> ss_nextAttemptAt (sc_state r) \<le> now"
  shows "dispatchAll (quiet outcome) now rows d =
    d\<lparr>dp_db := (dp_db d)\<lparr>sd_states := map (serveRows outcome now rows) (sd_states (dp_db d))\<rparr>\<rparr>"
  using assms
proof (induction rows arbitrary: d)
  case Nil
  have "serveRows outcome now [] = id" by (simp add: serveRows_def fun_eq_iff)
  then show ?case by simp
next
  case (Cons r rows)
  let ?d = "d\<lparr>dp_db := (dp_db d)\<lparr>sd_states := map (serveRows outcome now [r]) (sd_states (dp_db d))\<rparr>\<rparr>"
  have r: "dispatchMessage (quiet outcome) now r d = ?d" using Cons.prems by (intro dispatch_quiet) auto
  have keep: "serveRows outcome now [r] s = s" if "ss_messageId s \<noteq> sm_id (sc_row r)" for s
    using that by (simp add: serveRows_def)
  have "sc_state q \<in> set (sd_states (dp_db ?d))" if "q \<in> set rows" for q
  proof -
    have "sc_state q \<in> set (sd_states (dp_db d))" "ss_messageId (sc_state q) \<noteq> sm_id (sc_row r)"
      using Cons.prems(3,4) that by (auto simp: image_iff)
    with keep show ?thesis by (force simp: image_iff)
  qed
  then have IH: "dispatchAll (quiet outcome) now rows ?d =
      ?d\<lparr>dp_db := (dp_db ?d)\<lparr>sd_states := map (serveRows outcome now rows) (sd_states (dp_db ?d))\<rparr>\<rparr>"
    using Cons.prems serve_wf [OF Cons.prems(1)] by (intro Cons.IH) auto
  have "serveRows outcome now rows (serveRows outcome now [r] s) = serveRows outcome now (r # rows) s" for s
  proof (cases "ss_messageId s = sm_id (sc_row r)")
    case True
    then have "find (\<lambda>q. sm_id (sc_row q) = ss_messageId s) rows = None" using Cons.prems(3) by (auto simp: find_None_iff image_iff)
    then show ?thesis using True by (simp add: serveRows_def)
  qed (simp add: serveRows_def)
  then have "map (serveRows outcome now rows) (map (serveRows outcome now [r]) states) = map (serveRows outcome now (r # rows)) states" for states
    by simp
  then show ?case using Cons.prems(2) r IH by simp
qed

lemma rescan_db [simp]: "dp_db (rescan t d) = dp_db d" "dp_stopped (rescan t d) = dp_stopped d"
  by (simp_all add: rescan_def clearTimer_def arm_def Let_def split: option.split)

lemma sweep_quiet:
  assumes "schedWf (dp_db d)" "\<not> dp_stopped d"
  shows "dp_db (sweep (quiet outcome) nowMs laterMs d) = (dp_db d)\<lparr>sd_states :=
      map (serveRows outcome (dueNow nowMs) (schedDue (dueNow nowMs) SCHEDULED_MESSAGE_BATCH (dp_db d))) (sd_states (dp_db d))\<rparr>"
    and "\<not> dp_stopped (sweep (quiet outcome) nowMs laterMs d)"
proof -
  let ?due = "schedDue (dueNow nowMs) SCHEDULED_MESSAGE_BATCH (dp_db d)"
  have "dispatchAll (quiet outcome) (dueNow nowMs) ?due (clearTimer d) = (clearTimer d)\<lparr>dp_db := (dp_db (clearTimer d))\<lparr>sd_states :=
      map (serveRows outcome (dueNow nowMs) ?due) (sd_states (dp_db (clearTimer d)))\<rparr>\<rparr>"
    using assms due_spec(1,3) [OF assms(1)] pendingRows_spec(3) [OF assms(1)]
    by (intro dispatchAll_quiet) (auto simp: clearTimer_def nextAttempt_def)
  then show "dp_db (sweep (quiet outcome) nowMs laterMs d) = (dp_db d)\<lparr>sd_states :=
      map (serveRows outcome (dueNow nowMs) ?due) (sd_states (dp_db d))\<rparr>" "\<not> dp_stopped (sweep (quiet outcome) nowMs laterMs d)"
    using assms(2) by (simp_all add: sweep_def clearTimer_def)
qed

section \<open>Attempts\<close>

fun sweeps :: "'j sender \<Rightarrow> int list \<Rightarrow> 'j dispatcher \<Rightarrow> 'j dispatcher" where
  "sweeps send [] d = d"
| "sweeps send (t # ts) d = sweeps send ts (sweep send t t d)"

definition isServed :: "int \<Rightarrow> int \<Rightarrow> 'j dispatcher \<Rightarrow> bool" where
  "isServed i nowMs d \<longleftrightarrow> i \<in> (\<lambda>r. sm_id (sc_row r)) ` set (schedDue (dueNow nowMs) SCHEDULED_MESSAGE_BATCH (dp_db d))"

fun timesServed :: "int \<Rightarrow> 'j sender \<Rightarrow> int list \<Rightarrow> 'j dispatcher \<Rightarrow> nat" where
  "timesServed i send [] d = 0"
| "timesServed i send (t # ts) d = (if isServed i t d then 1 else 0) + timesServed i send ts (sweep send t t d)"

definition tried :: "schedState \<Rightarrow> bool" where
  "tried s \<longleftrightarrow> ss_status s = Pending \<and> ss_attempts s \<le> 6 \<or> ss_status s = Failed \<and> ss_attempts s = 7"

lemma serve_tried: "tried s \<Longrightarrow> ss_status s = Pending \<Longrightarrow> tried (serve (Inl e) now s) \<and> ss_attempts (serve (Inl e) now s) = ss_attempts s + 1"
  by (auto simp: tried_def serve_def parked_def SCHEDULED_MESSAGE_RETRY_MS_def)

lemma sweep_state:
  assumes wf: "schedWf (dp_db d)" and run: "\<not> dp_stopped d" and s: "stateOf i (dp_db d) = Some s"
    and t: "tried s" and o: "\<And>r. sm_id (sc_row r) = i \<Longrightarrow> \<exists>e. outcome r = Inl e"
  shows "\<exists>s'. stateOf i (dp_db (sweep (quiet outcome) nowMs laterMs d)) = Some s' \<and> tried s' \<and>
    ss_attempts s' = ss_attempts s + (if isServed i nowMs d then 1 else 0)"
proof -
  let ?due = "schedDue (dueNow nowMs) SCHEDULED_MESSAGE_BATCH (dp_db d)"
  let ?s' = "serveRows outcome (dueNow nowMs) ?due s"
  have id: "ss_messageId s = i" using s stateOf_iff [OF wf] by blast
  have "stateOf i (dp_db (sweep (quiet outcome) nowMs laterMs d)) = Some ?s'"
    using s by (simp add: sweep_quiet [OF wf run] stateOf_def find_map_key)
  moreover have "tried ?s' \<and> ss_attempts ?s' = ss_attempts s + (if isServed i nowMs d then 1 else 0)"
  proof (cases "find (\<lambda>r. sm_id (sc_row r) = i) ?due")
    case None
    then have "?s' = s" "\<not> isServed i nowMs d" using id by (simp add: serveRows_def, auto simp: isServed_def find_None_iff)
    then show ?thesis using t by simp
  next
    case (Some r)
    then have r: "r \<in> set ?due" "sm_id (sc_row r) = i" by (auto simp: find_Some_iff)
    then obtain e where "outcome r = Inl e" using o by blast
    moreover have "sc_state r = s" "ss_status (sc_state r) = Pending"
      using pendingRows_spec(3) [OF wf] due_spec(3) [OF wf r(1)] r(2) s stateOf_iff [OF wf] by (metis option.inject)+
    moreover have "isServed i nowMs d" using r by (auto simp: isServed_def)
    ultimately show ?thesis using Some id serve_tried [OF t] by (simp add: serveRows_def)
  qed
  ultimately show ?thesis by blast
qed

lemma sweep_wf: "schedWf (dp_db d) \<Longrightarrow> \<not> dp_stopped d \<Longrightarrow> schedWf (dp_db (sweep (quiet outcome) nowMs laterMs d))"
  by (simp add: sweep_quiet serve_wf)

lemma sweeps_state:
  "schedWf (dp_db d) \<Longrightarrow> \<not> dp_stopped d \<Longrightarrow> stateOf i (dp_db d) = Some s \<Longrightarrow> tried s \<Longrightarrow>
   (\<And>r. sm_id (sc_row r) = i \<Longrightarrow> \<exists>e. outcome r = Inl e) \<Longrightarrow>
   \<exists>s'. stateOf i (dp_db (sweeps (quiet outcome) ts d)) = Some s' \<and> tried s' \<and>
     ss_attempts s' = ss_attempts s + timesServed i (quiet outcome) ts d"
proof (induction ts arbitrary: d s)
  case (Cons t ts)
  obtain s1 where s1: "stateOf i (dp_db (sweep (quiet outcome) t t d)) = Some s1" "tried s1"
    "ss_attempts s1 = ss_attempts s + (if isServed i t d then 1 else 0)"
    using sweep_state [OF Cons.prems(1-4), of outcome t t] Cons.prems(5) by blast
  from Cons.IH [OF sweep_wf [OF Cons.prems(1,2)] sweep_quiet(2) [OF Cons.prems(1,2)] s1(1,2)] Cons.prems(5)
  obtain s' where "stateOf i (dp_db (sweeps (quiet outcome) ts (sweep (quiet outcome) t t d))) = Some s'" "tried s'"
    "ss_attempts s' = ss_attempts s1 + timesServed i (quiet outcome) ts (sweep (quiet outcome) t t d)" by blast
  with s1(3) show ?case by simp
qed simp

section \<open>Timers\<close>

definition timerOk :: "int \<Rightarrow> 'j dispatcher \<Rightarrow> bool" where
  "timerOk nowMs d \<longleftrightarrow> (case dp_timer d of None \<Rightarrow> dp_armedAt d = None
     | Some t \<Rightarrow> (\<exists>a. dp_armedAt d = Some a \<and> timerAt t \<le> max nowMs (1000 * a)))"

lemma timerOk_later: "timerOk t d \<Longrightarrow> t \<le> t' \<Longrightarrow> timerOk t' d"
  by (auto simp: timerOk_def split: option.splits)

lemma nextPending_least: "nextPending db = Some r \<Longrightarrow> q \<in> set (pendingRows db) \<Longrightarrow> nextAttempt r \<le> nextAttempt q"
proof -
  assume n: "nextPending db = Some r" and q: "q \<in> set (pendingRows db)"
  then obtain rs where rs: "sort_key nextAttempt (pendingRows db) = r # rs" by (auto simp: nextPending_def split: list.splits)
  have "sorted (map nextAttempt (r # rs))" "q \<in> set (r # rs)" unfolding rs [symmetric] using q by simp_all
  then show ?thesis by auto
qed

lemma nextPending_None: "nextPending db = None \<longleftrightarrow> pendingRows db = []"
proof (cases "sort_key nextAttempt (pendingRows db)")
  case Nil
  then have "set (pendingRows db) = {}" by (metis set_empty set_sort)
  then show ?thesis by (simp add: nextPending_def)
next
  case (Cons r rs)
  then have "pendingRows db \<noteq> []" by force
  then show ?thesis using Cons by (simp add: nextPending_def)
qed

lemma rescan_timer:
  assumes "timerOk nowMs d" "\<not> dp_stopped d"
  shows "timerOk nowMs (rescan nowMs d)"
    and "q \<in> set (pendingRows (dp_db d)) \<Longrightarrow> \<exists>t. dp_timer (rescan nowMs d) = Some t \<and> timerAt t \<le> max nowMs (1000 * nextAttempt q)"
    and "pendingRows (dp_db d) = [] \<Longrightarrow> dp_timer (rescan nowMs d) = None"
proof -
  have "timerOk nowMs (rescan nowMs d) \<and>
    (\<forall>q\<in>set (pendingRows (dp_db d)). \<exists>t. dp_timer (rescan nowMs d) = Some t \<and> timerAt t \<le> max nowMs (1000 * nextAttempt q))"
  proof (cases "nextPending (dp_db d)")
    case None
    then have "rescan nowMs d = clearTimer d" "pendingRows (dp_db d) = []"
      using assms(2) by (simp add: rescan_def, simp add: nextPending_None)
    then show ?thesis by (simp add: clearTimer_def timerOk_def)
  next
    case (Some r)
    show ?thesis
    proof (cases "dp_timer d \<noteq> None \<and> (case dp_armedAt d of None \<Rightarrow> False | Some a \<Rightarrow> a \<le> nextAttempt r)")
      case True
      then obtain t a where ta: "dp_timer d = Some t" "dp_armedAt d = Some a" "a \<le> nextAttempt r" "timerAt t \<le> max nowMs (1000 * a)"
        using assms(1) by (auto simp: timerOk_def split: option.splits)
      have "timerAt t \<le> max nowMs (1000 * nextAttempt q)" if "q \<in> set (pendingRows (dp_db d))" for q
        using nextPending_least [OF Some that] ta(3,4) by linarith
      moreover have "rescan nowMs d = d" using True Some assms(2) by (simp add: rescan_def)
      ultimately show ?thesis using assms(1) ta(1) by simp
    next
      case False
      then have eq: "rescan nowMs d = arm nowMs r d" using Some assms(2) by (auto simp: rescan_def)
      obtain t where t: "dp_timer (arm nowMs r d) = Some t" "dp_armedAt (arm nowMs r d) = Some (nextAttempt r)"
        "timerAt t \<le> max nowMs (1000 * nextAttempt r)"
        by (cases "dp_maxDelayMs d < nextAttempt r * 1000 - nowMs") (auto simp: arm_def Let_def)
      have "timerAt t \<le> max nowMs (1000 * nextAttempt q)" if "q \<in> set (pendingRows (dp_db d))" for q
        using nextPending_least [OF Some that] t(3) by linarith
      then show ?thesis unfolding eq timerOk_def using t by simp
    qed
  qed
  then show "timerOk nowMs (rescan nowMs d)"
    "q \<in> set (pendingRows (dp_db d)) \<Longrightarrow> \<exists>t. dp_timer (rescan nowMs d) = Some t \<and> timerAt t \<le> max nowMs (1000 * nextAttempt q)"
    by blast+
  show "pendingRows (dp_db d) = [] \<Longrightarrow> dp_timer (rescan nowMs d) = None"
    using assms(2) by (simp add: rescan_def nextPending_def clearTimer_def)
qed

section \<open>Properties\<close>


text \<open>
  C33. A sweep serves the due rows, each once. It takes at most 50 rows, only pending ones whose time has come,
  no message twice, and all of them when there are fewer than 50; each is marked sent or put back according to
  its outcome, and every other row is left as it is.
\<close>

theorem sweep_serves_due_rows:
  assumes "schedWf (dp_db d)" and "\<not> dp_stopped d"
  shows "(let due = schedDue (dueNow nowMs) SCHEDULED_MESSAGE_BATCH (dp_db d);
              db' = dp_db (sweep (quiet outcome) nowMs laterMs d)
     in schedWf db' \<and> sd_messages db' = sd_messages (dp_db d) \<and>
        sd_states db' = map (serveRows outcome (dueNow nowMs) due) (sd_states (dp_db d)) \<and>
        length due \<le> 50 \<and> distinct (map (\<lambda>r. sm_id (sc_row r)) due) \<and>
        (\<forall>r\<in>set due. r \<in> set (pendingRows (dp_db d)) \<and> nextAttempt r \<le> dueNow nowMs) \<and>
        (length due < 50 \<longrightarrow> (\<forall>r\<in>set (pendingRows (dp_db d)). nextAttempt r \<le> dueNow nowMs \<longrightarrow> r \<in> set due)))"
proof -
  have n: "SCHEDULED_MESSAGE_BATCH = 50" by (simp add: SCHEDULED_MESSAGE_BATCH_def)
  show ?thesis
    unfolding Let_def sweep_quiet(1) [OF assms]
    using due_spec [OF assms(1), where now = "dueNow nowMs" and n = 50] serve_wf [OF assms(1)] by (simp add: n)
qed

text \<open>
  C34. Retries end. A new message whose every attempt fails counts one attempt per sweep that served it, stays
  pending through the sixth, and is parked as failed with the seventh, after which no sweep serves it.
\<close>

theorem retries_end:
  assumes "schedWf (dp_db d)" and "\<not> dp_stopped d" and "stateOf i (dp_db d) = Some s"
    and "ss_status s = Pending" and "ss_attempts s = 0" and "\<forall>r. sm_id (sc_row r) = i \<longrightarrow> (\<exists>e. outcome r = Inl e)"
  shows "timesServed i (quiet outcome) clocks d \<le> 7 \<and>
    (\<exists>s'. stateOf i (dp_db (sweeps (quiet outcome) clocks d)) = Some s' \<and>
      ss_attempts s' = timesServed i (quiet outcome) clocks d \<and>
      ss_status s' = (if timesServed i (quiet outcome) clocks d = 7 then Failed else Pending))"
proof -
  have "tried s" using assms(4,5) by (simp add: tried_def)
  from sweeps_state [OF assms(1-3) this, of outcome clocks] assms(5,6)
  show ?thesis by (auto simp: tried_def)
qed


section \<open>Instances\<close>

definition demoSched :: "unit schedDb" where
  "demoSched = runOps [CreateOp ''s'' ''c'' ''direct'' 1 ''one'' None None 100 ''r1'',
     CreateOp ''s'' ''c'' ''direct'' 2 ''two'' None None 200 ''r2''] \<lparr>sd_messages = [], sd_states = [], sd_nextId = 1\<rparr>"

lemma demoSched_wf: "schedWf demoSched"
  unfolding demoSched_def runOps.simps by (intro runOp_wf) (simp_all add: schedWf_def)

definition demoDispatcher :: "unit dispatcher" where
  "demoDispatcher = newDispatcher demoSched ''self''"

lemma demoDispatcher_ok:
  "schedWf (dp_db demoDispatcher)" "\<not> dp_stopped demoDispatcher" "timerOk t demoDispatcher"
  by (simp_all add: demoDispatcher_def newDispatcher_def demoSched_wf timerOk_def)


definition demoOutcome :: "unit scheduled \<Rightarrow> string + int option" where
  "demoOutcome r = (if sm_id (sc_row r) = 1 then Inl ''offline'' else Inr (Some 900))"

lemma sweep_serves_due_rows_witness:
  "map ss_status (sd_states (dp_db (sweep (quiet demoOutcome) 200000 200000 demoDispatcher))) = [Pending, Sent] \<and>
   distinct (map (\<lambda>r. sm_id (sc_row r)) (schedDue (dueNow 200000) SCHEDULED_MESSAGE_BATCH (dp_db demoDispatcher)))"
proof -
  from sweep_serves_due_rows [OF demoDispatcher_ok(1,2), of 200000 demoOutcome 200000]
  have "distinct (map (\<lambda>r. sm_id (sc_row r)) (schedDue (dueNow 200000) SCHEDULED_MESSAGE_BATCH (dp_db demoDispatcher)))"
    by (simp add: Let_def)
  moreover have "map ss_status (sd_states (dp_db (sweep (quiet demoOutcome) 200000 200000 demoDispatcher))) = [Pending, Sent]"
    by code_simp
  ultimately show ?thesis by blast
qed

lemma retries_end_witness:
  "timesServed 1 (quiet demoOutcome) [100000, 100000, 130000] demoDispatcher = 2 \<and>
   (\<exists>s'. stateOf 1 (dp_db (sweeps (quiet demoOutcome) [100000, 100000, 130000] demoDispatcher)) = Some s' \<and>
     ss_attempts s' = 2 \<and> ss_status s' = Pending)"
proof -
  have "map_option ss_status (stateOf 1 (dp_db demoDispatcher)) = Some Pending" "map_option ss_attempts (stateOf 1 (dp_db demoDispatcher)) = Some 0"
    by code_simp+
  then obtain s where s: "stateOf 1 (dp_db demoDispatcher) = Some s" "ss_status s = Pending" "ss_attempts s = 0" by auto
  have o: "\<forall>r. sm_id (sc_row r) = 1 \<longrightarrow> (\<exists>e. demoOutcome r = Inl e)" by (simp add: demoOutcome_def)
  have n: "timesServed 1 (quiet demoOutcome) [100000, 100000, 130000] demoDispatcher = 2" by code_simp
  from retries_end [OF demoDispatcher_ok(1,2) s o, of "[100000, 100000, 130000]"] n show ?thesis by auto
qed


section \<open>What the code does not promise\<close>

text \<open>A message that is cancelled while a failing attempt to send it runs is pending again afterwards,
  although the cancellation was confirmed.\<close>

definition cancelWhileSending :: "unit sender" where
  "cancelWhileSending r d = (Inl ''offline'', d\<lparr>dp_db := snd (schedCancel ''s'' ''c'' (sm_tlMessageId (sc_row r)) (dp_db d))\<rparr>)"

lemma cancel_lost_when_sending_fails:
  "fst (schedCancel ''s'' ''c'' 1 (snd (claim 1 ''self'' 100 60000 demoSched)))"
  "map ss_status (sd_states (dp_db (sweep cancelWhileSending 100000 100000 demoDispatcher))) = [Pending, Pending]"
  by code_simp+

text \<open>A row whose lease has run out is not taken over by a sweep, only by \<open>start\<close> or by sending it at once.\<close>

lemma expired_row_not_served:
  assumes "schedWf (dp_db d)" "\<not> dp_stopped d" "stateOf i (dp_db d) = Some s" "ss_status s = Sending"
  shows "stateOf i (dp_db (sweep (quiet outcome) nowMs laterMs d)) = Some s"
proof -
  let ?due = "schedDue (dueNow nowMs) SCHEDULED_MESSAGE_BATCH (dp_db d)"
  have id: "ss_messageId s = i" using assms(3) stateOf_iff [OF assms(1)] by blast
  have "find (\<lambda>r. sm_id (sc_row r) = i) ?due = None"
  proof (rule ccontr)
    assume "find (\<lambda>r. sm_id (sc_row r) = i) ?due \<noteq> None"
    then obtain r where r: "r \<in> set ?due" "sm_id (sc_row r) = i" by (auto simp: find_None_iff)
    then have "sc_state r = s" "ss_status (sc_state r) = Pending"
      using pendingRows_spec(3) [OF assms(1)] due_spec(3) [OF assms(1) r(1)] assms(3) stateOf_iff [OF assms(1)]
      by (metis option.inject)+
    then show False using assms(4) by simp
  qed
  then have "serveRows outcome (dueNow nowMs) ?due s = s" using id by (simp add: serveRows_def)
  moreover have "stateOf i (dp_db (sweep (quiet outcome) nowMs laterMs d)) = Some (serveRows outcome (dueNow nowMs) ?due s)"
    using assms(3) by (simp add: sweep_quiet [OF assms(1,2)] stateOf_def find_map_key)
  ultimately show ?thesis by simp
qed

end
