(* ===== verification/Uploads.thy ===== *)
theory Uploads
  imports Js_Map
begin

text \<open>
  File uploads (\<open>packages/bridge/src/upload-manager.ts\<close>): parts saved to a directory and opened as one file,
  and prepared uploads, whose parts arrive in any order and are handed to a platform's sink in order while the
  declared hashes are checked.

  A prepared upload is an object of a heap, as jobs hold on to it while the map forgets it. The chain of
  promises \<open>tail\<close> runs its jobs one after another; \<open>savePart\<close> puts a job in the chain and \<open>savePreparedPart\<close>
  is the job. At each call of the sink the job waits: what the rest of the program does meanwhile is in the
  state that the call returns; the other operations are single steps. The sink's own state is what has been called on it, \<open>sinkLog\<close>. A digest that is
  updated piece by piece is a function of the bytes given to it, and may be read once (\<open>pu_digested\<close>); the digests
  are arguments. Once a job has failed, the chain answers every later one with the same error. Parts are
  integers; \<open>path.join\<close> of the root, the digest of the session and the digest of the file is the pair of the
  digests. Errors of the file system are left out.
\<close>

section \<open>State\<close>

definition FILE_10M_BYTES :: int where "FILE_10M_BYTES = 10 * 1024 * 1024"
definition MAX_PREPARED_OUT_OF_ORDER_PARTS :: nat where "MAX_PREPARED_OUT_OF_ORDER_PARTS = 32"
definition MAX_PREPARED_OUT_OF_ORDER_BYTES :: int where "MAX_PREPARED_OUT_OF_ORDER_BYTES = 16 * 1024 * 1024"

datatype uploadError =
    PartInvalid
  | PartsInvalid
  | PartMissing nat
  | PartChanged int
  | WindowExceeded
  | SizeExceeded int
  | SizeMismatch
  | HashMismatch string
  | DigestFinalized
  | SinkFailed string

record sinkLog =
  sk_written :: "bytes list"
  sk_completed :: bool
  sk_aborted :: bool

datatype 'm uploadSource = MediaSource 'm | DirectorySource nat "string list"

record 'm uploadedFile =
  uf_ref :: nat
  uf_session :: string
  uf_fileId :: string
  uf_source :: "'m uploadSource"
  uf_native :: bool

record 'm stagedMedia =
  sg_media :: 'm
  sg_upload :: "'m uploadedFile"
  sg_timestamp :: int
  sg_updatedAt :: int

record uploadHashes =
  uh_size :: int
  uh_md5 :: string
  uh_sha1 :: string
  uh_file10MMd5 :: string

record 'm preparedUpload =
  pu_session :: string
  pu_fileId :: string
  pu_media :: 'm
  pu_hashes :: uploadHashes
  pu_parts :: "(int, bytes) jsmap"
  pu_bufferedBytes :: int
  pu_nextPart :: int
  pu_receivedBytes :: int
  pu_md5 :: bytes
  pu_sha1 :: bytes
  pu_file10MMd5 :: bytes
  pu_file10MBytes :: int
  pu_digested :: bool
  pu_updatedAt :: int
  pu_failed :: "uploadError option"
  pu_sink :: sinkLog

record uploadDir =
  di_parts :: "(string, bytes) jsmap"
  di_mtime :: int

record 'm uploads =
  um_staged :: "(string, 'm stagedMedia) jsmap"
  um_prepared :: "(string, nat) jsmap"
  um_heap :: "(nat, 'm preparedUpload) jsmap"
  um_dirs :: "(string \<times> string, uploadDir) jsmap"
  um_nextRef :: nat

definition newUploads :: "'m uploads" where
  "newUploads = \<lparr>um_staged = [], um_prepared = [], um_heap = [], um_dirs = [], um_nextRef = 0\<rparr>"

definition stageKey :: "string \<Rightarrow> string \<Rightarrow> string" where
  "stageKey session fileId = session @ CHR 0x00 # fileId"

definition partName :: "nat \<Rightarrow> string" where
  "partName part = (let s = decString part in replicate (10 - length s) CHR ''0'' @ s)"

definition directoryOf :: "(string \<Rightarrow> string) \<Rightarrow> string \<Rightarrow> string \<Rightarrow> string \<times> string" where
  "directoryOf digest session fileId = (digest session, digest fileId)"

text \<open>The end of a job: what others have done to the object meanwhile (a new time, an abort) stays.\<close>

definition putObject :: "nat \<Rightarrow> 'm preparedUpload \<Rightarrow> 'm uploads \<Rightarrow> 'm uploads" where
  "putObject i p m = m\<lparr>um_heap := js_set i
     (case js_get (um_heap m) i of None \<Rightarrow> p
      | Some q \<Rightarrow> p\<lparr>pu_updatedAt := pu_updatedAt q,
                  pu_sink := (pu_sink p)\<lparr>sk_aborted := sk_aborted (pu_sink p) \<or> sk_aborted (pu_sink q)\<rparr>\<rparr>) (um_heap m)\<rparr>"

section \<open>Parts in a directory\<close>

datatype savedPart = SaveFailed uploadError | PartSaved | PartQueued nat | PartIgnored

text \<open>A directory's time is that of its last new entry; writing to a file it already has does not change it.\<close>

definition writtenMtime :: "int \<Rightarrow> string \<Rightarrow> uploadDir option \<Rightarrow> int" where
  "writtenMtime now name dir =
     (case dir of None \<Rightarrow> now | Some d \<Rightarrow> if js_has (di_parts d) name then di_mtime d else now)"

definition upSavePart :: "(string \<Rightarrow> string) \<Rightarrow> int \<Rightarrow> string \<Rightarrow> string \<Rightarrow> int \<Rightarrow> bytes \<Rightarrow> 'm uploads \<Rightarrow> savedPart \<times> 'm uploads" where
  "upSavePart digest now session fileId part bytes m =
     (if \<not> isSafeInteger part \<or> part < 0 then (SaveFailed PartInvalid, m)
      else
        (let key = stageKey session fileId
         in case js_get (um_prepared m) key of
              Some i \<Rightarrow>
                (PartQueued i,
                 (case js_get (um_heap m) i of None \<Rightarrow> m
                  | Some p \<Rightarrow> m\<lparr>um_heap := js_set i (p\<lparr>pu_updatedAt := now\<rparr>) (um_heap m)\<rparr>))
            | None \<Rightarrow>
                if (case js_get (um_staged m) key of None \<Rightarrow> False | Some s \<Rightarrow> uf_native (sg_upload s)) then (PartIgnored, m)
                else
                  (let dir = directoryOf digest session fileId;
                       old = (case js_get (um_dirs m) dir of None \<Rightarrow> [] | Some d \<Rightarrow> di_parts d)
                   in (PartSaved, m\<lparr>um_dirs := js_set dir \<lparr>di_parts = js_set (partName (nat part)) bytes old,
                         di_mtime = writtenMtime now (partName (nat part)) (js_get (um_dirs m) dir)\<rparr> (um_dirs m)\<rparr>))))"

definition upOpen :: "(string \<Rightarrow> string) \<Rightarrow> string \<Rightarrow> string \<Rightarrow> int \<Rightarrow> 'm uploads \<Rightarrow> (uploadError + 'm uploadedFile) \<times> 'm uploads" where
  "upOpen digest session fileId parts m =
     (if \<not> isSafeInteger parts \<or> parts \<le> 0 then (Inl PartsInvalid, m)
      else
        (let entries = (case js_get (um_dirs m) (directoryOf digest session fileId) of None \<Rightarrow> [] | Some d \<Rightarrow> di_parts d)
         in case find (\<lambda>i. \<not> js_has entries (partName i)) [0..<nat parts] of
              Some i \<Rightarrow> (Inl (PartMissing i), m)
            | None \<Rightarrow>
                (let names = map partName [0..<nat parts];
                     size' = sum_list (map (\<lambda>name. length (the (js_get entries name))) names)
                 in (Inr \<lparr>uf_ref = um_nextRef m, uf_session = session, uf_fileId = fileId,
                          uf_source = DirectorySource size' names, uf_native = False\<rparr>,
                     m\<lparr>um_nextRef := um_nextRef m + 1\<rparr>))))"

text \<open>Reading the source of an opened file; \<open>None\<close> when a part has been deleted meanwhile.\<close>

definition streamDirectory :: "(string \<Rightarrow> string) \<Rightarrow> 'm uploadedFile \<Rightarrow> string list \<Rightarrow> 'm uploads \<Rightarrow> bytes option" where
  "streamDirectory digest file names m =
     (case js_get (um_dirs m) (directoryOf digest (uf_session file) (uf_fileId file)) of None \<Rightarrow> None
      | Some d \<Rightarrow> if \<forall>name\<in>set names. js_has (di_parts d) name
                  then Some (concat (map (\<lambda>name. the (js_get (di_parts d) name)) names)) else None)"

definition removeDirectory :: "(string \<Rightarrow> string) \<Rightarrow> string \<Rightarrow> string \<Rightarrow> 'm uploads \<Rightarrow> 'm uploads" where
  "removeDirectory digest session fileId m = m\<lparr>um_dirs := js_delete (directoryOf digest session fileId) (um_dirs m)\<rparr>"

definition abortSink :: "'m preparedUpload \<Rightarrow> 'm preparedUpload" where
  "abortSink p = p\<lparr>pu_sink := (pu_sink p)\<lparr>sk_aborted := True\<rparr>\<rparr>"

definition abortObject :: "nat \<Rightarrow> 'm uploads \<Rightarrow> 'm uploads" where
  "abortObject i m = (case js_get (um_heap m) i of None \<Rightarrow> m
     | Some p \<Rightarrow> m\<lparr>um_heap := js_set i (abortSink p) (um_heap m)\<rparr>)"

text \<open>\<open>abortFails\<close>: the sink's \<open>abort\<close> throws, which ends the operation.\<close>

definition upRemove :: "(string \<Rightarrow> string) \<Rightarrow> bool \<Rightarrow> string \<Rightarrow> string \<Rightarrow> 'm uploads \<Rightarrow> bool \<times> 'm uploads" where
  "upRemove digest abortFails session fileId m =
     (let key = stageKey session fileId;
          m1 = m\<lparr>um_staged := js_delete key (um_staged m)\<rparr>
      in case js_get (um_prepared m) key of
           None \<Rightarrow> (True, removeDirectory digest session fileId m1)
         | Some i \<Rightarrow>
             (let m2 = abortObject i (m1\<lparr>um_prepared := js_delete key (um_prepared m1)\<rparr>)
              in if abortFails then (False, m2) else (True, removeDirectory digest session fileId m2)))"

section \<open>Staged media\<close>

definition upStage :: "'m stagedMedia \<Rightarrow> 'm uploads \<Rightarrow> 'm uploads" where
  "upStage s m = m\<lparr>um_staged := js_set (stageKey (uf_session (sg_upload s)) (uf_fileId (sg_upload s))) s (um_staged m)\<rparr>"

definition stagePrepared :: "int \<Rightarrow> string \<Rightarrow> string \<Rightarrow> 'm \<Rightarrow> 'm uploads \<Rightarrow> 'm uploads" where
  "stagePrepared now session fileId media m =
     upStage \<lparr>sg_media = media,
        sg_upload = \<lparr>uf_ref = um_nextRef m, uf_session = session, uf_fileId = fileId, uf_source = MediaSource media, uf_native = True\<rparr>,
        sg_timestamp = now div 1000, sg_updatedAt = now\<rparr> (m\<lparr>um_nextRef := um_nextRef m + 1\<rparr>)"

definition getStaged :: "string \<Rightarrow> string \<Rightarrow> 'm uploads \<Rightarrow> 'm stagedMedia option" where
  "getStaged session fileId m = js_get (um_staged m) (stageKey session fileId)"

text \<open>\<open>uf_ref\<close> is the identity of the object that \<open>===\<close> compares.\<close>

definition upComplete :: "(string \<Rightarrow> string) \<Rightarrow> 'm uploadedFile \<Rightarrow> 'm uploads \<Rightarrow> 'm uploads" where
  "upComplete digest file m =
     (let key = stageKey (uf_session file) (uf_fileId file);
          m1 = (case js_get (um_staged m) key of None \<Rightarrow> m
                | Some s \<Rightarrow> if uf_ref (sg_upload s) = uf_ref file then m\<lparr>um_staged := js_delete key (um_staged m)\<rparr> else m)
      in if uf_native file then m1 else removeDirectory digest (uf_session file) (uf_fileId file) m1)"

section \<open>Prepared uploads\<close>

datatype prepareResult = UploadReady | UploadStream

definition newPrepared :: "int \<Rightarrow> string \<Rightarrow> string \<Rightarrow> uploadHashes \<Rightarrow> 'm \<Rightarrow> 'm preparedUpload" where
  "newPrepared now session fileId hashes media = \<lparr>pu_session = session, pu_fileId = fileId, pu_media = media, pu_hashes = hashes,
     pu_parts = [], pu_bufferedBytes = 0, pu_nextPart = 0, pu_receivedBytes = 0, pu_md5 = [], pu_sha1 = [], pu_file10MMd5 = [],
     pu_file10MBytes = 0, pu_digested = False, pu_updatedAt = now, pu_failed = None, pu_sink = \<lparr>sk_written = [], sk_completed = False, sk_aborted = False\<rparr>\<rparr>"

text \<open>\<open>hasSink\<close>: the platform gave a sink; \<open>sourceSize\<close>: the size of the media's source, if known.\<close>

definition upPrepare ::
  "(string \<Rightarrow> string) \<Rightarrow> int \<Rightarrow> string \<Rightarrow> string \<Rightarrow> uploadHashes \<Rightarrow> 'm \<Rightarrow> int option \<Rightarrow> bool \<Rightarrow> bool \<Rightarrow> 'm uploads \<Rightarrow>
   (uploadError + prepareResult) \<times> 'm uploads" where
  "upPrepare digest now session fileId hashes media sourceSize hasSink abortFails m =
     (let key = stageKey session fileId;
          m1 = (case js_get (um_prepared m) key of None \<Rightarrow> m | Some i \<Rightarrow> abortObject i m)
      in if js_get (um_prepared m) key \<noteq> None \<and> abortFails then (Inl (SinkFailed ''abort''), m1)
         else
           (let m2 = removeDirectory digest session fileId
                  (m1\<lparr>um_prepared := js_delete key (um_prepared m1), um_staged := js_delete key (um_staged m1)\<rparr>)
            in if \<not> hasSink then (Inr UploadReady, stagePrepared now session fileId media m2)
               else if sourceSize \<noteq> None \<and> sourceSize \<noteq> Some (uh_size hashes) then (Inl SizeMismatch, m2)
               else (Inr UploadStream,
                     m2\<lparr>um_heap := js_set (um_nextRef m2) (newPrepared now session fileId hashes media) (um_heap m2),
                        um_prepared := js_set key (um_nextRef m2) (um_prepared m2), um_nextRef := um_nextRef m2 + 1\<rparr>)))"

definition lowerCase :: "string \<Rightarrow> string" where
  "lowerCase s = map (\<lambda>c. if 65 \<le> (of_char c :: nat) \<and> (of_char c :: nat) \<le> 90 then char_of (of_char c + 32 :: nat) else c) s"

definition verifyPreparedHashes :: "(bytes \<Rightarrow> string) \<Rightarrow> (bytes \<Rightarrow> string) \<Rightarrow> 'm preparedUpload \<Rightarrow> uploadError option" where
  "verifyPreparedHashes md5 sha1 p =
     (if md5 (pu_md5 p) \<noteq> lowerCase (uh_md5 (pu_hashes p)) then Some (HashMismatch ''md5'')
      else if sha1 (pu_sha1 p) \<noteq> lowerCase (uh_sha1 (pu_hashes p)) then Some (HashMismatch ''sha1'')
      else if md5 (pu_file10MMd5 p) \<noteq> lowerCase (uh_file10MMd5 (pu_hashes p)) then Some (HashMismatch ''file10MMd5'')
      else None)"

text \<open>The sink: an error text when the call throws, and the state of the program afterwards.\<close>

record 'm sinkEnv =
  se_write :: "bytes \<Rightarrow> 'm uploads \<Rightarrow> string option \<times> 'm uploads"
  se_complete :: "'m uploads \<Rightarrow> string option \<times> 'm uploads"

text \<open>One turn of the loop up to the call of the sink.\<close>

definition removePart :: "bytes \<Rightarrow> 'm preparedUpload \<Rightarrow> 'm preparedUpload" where
  "removePart chunk p = p\<lparr>pu_parts := js_delete (pu_nextPart p) (pu_parts p), pu_nextPart := pu_nextPart p + 1,
     pu_bufferedBytes := pu_bufferedBytes p - int (length chunk), pu_receivedBytes := pu_receivedBytes p + int (length chunk)\<rparr>"

definition updateDigests :: "bytes \<Rightarrow> 'm preparedUpload \<Rightarrow> 'm preparedUpload" where
  "updateDigests chunk p =
     (let n = min (FILE_10M_BYTES - pu_file10MBytes p) (int (length chunk));
          p1 = p\<lparr>pu_md5 := pu_md5 p @ chunk, pu_sha1 := pu_sha1 p @ chunk\<rparr>
      in if pu_file10MBytes p < FILE_10M_BYTES
         then p1\<lparr>pu_file10MMd5 := pu_file10MMd5 p @ take (nat n) chunk, pu_file10MBytes := pu_file10MBytes p + n\<rparr>
         else p1)"

definition writtenTo :: "bytes \<Rightarrow> 'm preparedUpload \<Rightarrow> 'm preparedUpload" where
  "writtenTo chunk p = p\<lparr>pu_sink := (pu_sink p)\<lparr>sk_written := sk_written (pu_sink p) @ [chunk]\<rparr>\<rparr>"

definition completedSink :: "'m preparedUpload \<Rightarrow> 'm preparedUpload" where
  "completedSink p = p\<lparr>pu_sink := (pu_sink p)\<lparr>sk_completed := True\<rparr>\<rparr>"

definition forget :: "nat \<Rightarrow> 'm preparedUpload \<Rightarrow> 'm uploads \<Rightarrow> 'm uploads" where
  "forget i p m =
     (if js_get (um_prepared m) (stageKey (pu_session p) (pu_fileId p)) = Some i
      then m\<lparr>um_prepared := js_delete (stageKey (pu_session p) (pu_fileId p)) (um_prepared m)\<rparr> else m)"

definition finishPrepared :: "int \<Rightarrow> nat \<Rightarrow> 'm preparedUpload \<Rightarrow> 'm uploads \<Rightarrow> 'm uploads" where
  "finishPrepared now i p m = stagePrepared now (pu_session p) (pu_fileId p) (pu_media p) (forget i p m)"

lemma js_delete_less: "js_get m k = Some v \<Longrightarrow> length (js_delete k m) < length m"
  by (simp add: delete_eq_filter) (metis (mono_tags, lifting) fst_conv length_filter_less map_of_SomeD)

function drainPrepared ::
  "(bytes \<Rightarrow> string) \<Rightarrow> (bytes \<Rightarrow> string) \<Rightarrow> 'm sinkEnv \<Rightarrow> int \<Rightarrow> nat \<Rightarrow> 'm preparedUpload \<Rightarrow> 'm uploads \<Rightarrow>
   uploadError option \<times> 'm preparedUpload \<times> 'm uploads" where
  "drainPrepared md5 sha1 env now i p m =
     (case js_get (pu_parts p) (pu_nextPart p) of None \<Rightarrow> (None, p, m)
      | Some chunk \<Rightarrow>
          if uh_size (pu_hashes p) < pu_receivedBytes p + int (length chunk) then (Some (SizeExceeded (uh_size (pu_hashes p))), p, m)
          else
            (let p1 = removePart chunk p; p2 = updateDigests chunk p1; p3 = writtenTo chunk p2
             in if pu_digested p then (Some DigestFinalized, p1, m)
                else case se_write env chunk m of
                  (Some err, m1) \<Rightarrow> (Some (SinkFailed err), p2, m1)
                | (None, m1) \<Rightarrow>
                    if pu_receivedBytes p3 \<noteq> uh_size (pu_hashes p3) then drainPrepared md5 sha1 env now i p3 m1
                    else
                      (let p4 = p3\<lparr>pu_digested := True\<rparr>
                       in case verifyPreparedHashes md5 sha1 p4 of
                            Some err \<Rightarrow> (Some err, p4, m1)
                          | None \<Rightarrow>
                              (case se_complete env m1 of
                                 (Some err, m2) \<Rightarrow> (Some (SinkFailed err), p4, m2)
                               | (None, m2) \<Rightarrow> (None, completedSink p4, finishPrepared now i p4 m2)))))"
  by pat_completeness auto
termination
  by (relation "measure (\<lambda>(md5, sha1, env, now, i, p, m). length (pu_parts p))")
    (auto simp: removePart_def updateDigests_def writtenTo_def Let_def intro: js_delete_less)

declare drainPrepared.simps [simp del]

text \<open>The body of a job and its \<open>catch\<close>: the first error of an upload is its last.\<close>

definition acceptPart ::
  "(bytes \<Rightarrow> string) \<Rightarrow> (bytes \<Rightarrow> string) \<Rightarrow> 'm sinkEnv \<Rightarrow> int \<Rightarrow> nat \<Rightarrow> int \<Rightarrow> bytes \<Rightarrow> 'm preparedUpload \<Rightarrow> 'm uploads \<Rightarrow>
   uploadError option \<times> 'm preparedUpload \<times> 'm uploads" where
  "acceptPart md5 sha1 env now i part value p m =
     (case pu_failed p of Some err \<Rightarrow> (Some err, p, m)
      | None \<Rightarrow>
          if part < pu_nextPart p then (None, p, m)
          else case js_get (pu_parts p) part of
            Some duplicate \<Rightarrow> (if duplicate \<noteq> value then Some (PartChanged part) else None, p, m)
          | None \<Rightarrow>
              if part \<noteq> pu_nextPart p \<and>
                 (MAX_PREPARED_OUT_OF_ORDER_PARTS \<le> length (pu_parts p) \<or>
                  MAX_PREPARED_OUT_OF_ORDER_BYTES < pu_bufferedBytes p + int (length value))
              then (Some WindowExceeded, p, m)
              else drainPrepared md5 sha1 env now i
                     (p\<lparr>pu_parts := js_set part value (pu_parts p), pu_bufferedBytes := pu_bufferedBytes p + int (length value)\<rparr>) m)"

definition failPrepared :: "uploadError \<Rightarrow> nat \<Rightarrow> 'm preparedUpload \<Rightarrow> 'm uploads \<Rightarrow> 'm preparedUpload \<times> 'm uploads" where
  "failPrepared err i p m =
     (if pu_failed p \<noteq> None then (p, m) else (abortSink (p\<lparr>pu_failed := Some err\<rparr>), forget i p m))"

definition savePreparedPart ::
  "(bytes \<Rightarrow> string) \<Rightarrow> (bytes \<Rightarrow> string) \<Rightarrow> 'm sinkEnv \<Rightarrow> int \<Rightarrow> nat \<Rightarrow> int \<Rightarrow> bytes \<Rightarrow> 'm uploads \<Rightarrow> uploadError option \<times> 'm uploads" where
  "savePreparedPart md5 sha1 env now i part value m =
     (case js_get (um_heap m) i of None \<Rightarrow> (None, m)
      | Some p \<Rightarrow>
          (case acceptPart md5 sha1 env now i part value p m of
             (None, p1, m1) \<Rightarrow> (None, putObject i p1 m1)
           | (Some err, p1, m1) \<Rightarrow> (case failPrepared err i p1 m1 of (p2, m2) \<Rightarrow> (Some err, putObject i p2 m2))))"

section \<open>Sweeping\<close>

definition sweepStaged :: "int \<Rightarrow> (string \<Rightarrow> string \<Rightarrow> bool) \<Rightarrow> 'm uploads \<Rightarrow> nat \<times> 'm uploads" where
  "sweepStaged cutoff keep m =
     (let stale = filter (\<lambda>(key, s). sg_updatedAt s < cutoff \<and> \<not> keep (uf_session (sg_upload s)) (uf_fileId (sg_upload s))) (um_staged m)
      in (length stale, m\<lparr>um_staged := foldl (\<lambda>ss (key, _). js_delete key ss) (um_staged m) stale\<rparr>))"

definition stalePrepared :: "int \<Rightarrow> (string \<Rightarrow> string \<Rightarrow> bool) \<Rightarrow> 'm uploads \<Rightarrow> string \<times> nat \<Rightarrow> bool" where
  "stalePrepared cutoff keep m e =
     (case js_get (um_heap m) (snd e) of None \<Rightarrow> False
      | Some p \<Rightarrow> pu_updatedAt p < cutoff \<and> \<not> keep (pu_session p) (pu_fileId p))"

definition sweepPrepared :: "int \<Rightarrow> (string \<Rightarrow> string \<Rightarrow> bool) \<Rightarrow> 'm uploads \<Rightarrow> nat \<times> 'm uploads" where
  "sweepPrepared cutoff keep m =
     (let stale = filter (stalePrepared cutoff keep m) (um_prepared m)
      in (length stale, foldl (\<lambda>m (key, i). abortObject i (m\<lparr>um_prepared := js_delete key (um_prepared m)\<rparr>)) m stale))"

definition splitKey :: "string \<Rightarrow> string \<times> string" where
  "splitKey key = (takeWhile (\<lambda>c. c \<noteq> CHR 0x00) key, drop 1 (dropWhile (\<lambda>c. c \<noteq> CHR 0x00) key))"

definition liveDirectories :: "(string \<Rightarrow> string) \<Rightarrow> 'm uploads \<Rightarrow> (string \<times> string) list" where
  "liveDirectories digest m = map (\<lambda>key. directoryOf digest (fst (splitKey key)) (snd (splitKey key)))
     (js_keys (um_staged m) @ js_keys (um_prepared m))"

definition sweepDirectories :: "(string \<Rightarrow> string) \<Rightarrow> int \<Rightarrow> 'm uploads \<Rightarrow> nat \<times> 'm uploads" where
  "sweepDirectories digest cutoff m =
     (let stale = filter (\<lambda>(dir, d). dir \<notin> set (liveDirectories digest m) \<and> di_mtime d < cutoff) (um_dirs m)
      in (length stale, m\<lparr>um_dirs := foldl (\<lambda>ds (dir, _). js_delete dir ds) (um_dirs m) stale\<rparr>))"

text \<open>\<open>None\<close>: the range error of a negative \<open>maxIdleMs\<close>.\<close>

definition upSweep ::
  "(string \<Rightarrow> string) \<Rightarrow> int \<Rightarrow> int \<Rightarrow> (string \<Rightarrow> string \<Rightarrow> bool) \<Rightarrow> 'm uploads \<Rightarrow> ((nat \<times> nat \<times> nat) \<times> 'm uploads) option" where
  "upSweep digest maxIdleMs now keep m =
     (if maxIdleMs < 0 then None
      else case sweepStaged (now - maxIdleMs) keep m of (staged, m1) \<Rightarrow>
           (case sweepPrepared (now - maxIdleMs) keep m1 of (prepared, m2) \<Rightarrow>
           (case sweepDirectories digest (now - maxIdleMs) m2 of (dirs, m3) \<Rightarrow>
             Some ((staged, prepared, dirs), m3))))"

end
