(* ===== verification/Uploads_Safety.thy ===== *)
theory Uploads_Safety
  imports Uploads
begin

text \<open>
  Uploads: what a sink gets is the declared file, whatever the order, repetition and interleaving of the parts;
  the window of waiting parts is bounded; parts in any order are staged; parts saved to a directory read back.
\<close>

section \<open>Runs\<close>

text \<open>
  What happens from outside: parts that arrive for a prepared upload, media the platform holds already, media
  staged by a handler. A step of the manager happens while the jobs of the uploads in \<open>B\<close> wait at their sinks;
  a job's own waits are filled by such runs, in which the chain of promises allows no other job of its upload.
\<close>

datatype 'm upEvent = PartEvent nat int bytes | ReadyEvent string string 'm | StagedEvent "'m stagedMedia"

inductive upload_steps ::
  "(string \<Rightarrow> string) \<Rightarrow> (bytes \<Rightarrow> string) \<Rightarrow> (bytes \<Rightarrow> string) \<Rightarrow> 'm upEvent set \<Rightarrow> nat set \<Rightarrow> 'm uploads \<Rightarrow> 'm uploads \<Rightarrow> bool"
  for digest md5 sha1 S where
  us_refl: "upload_steps digest md5 sha1 S B m m"
| us_prepare: "upload_steps digest md5 sha1 S B m0 m \<Longrightarrow> hasSink \<or> ReadyEvent session fileId media \<in> S \<Longrightarrow>
    upload_steps digest md5 sha1 S B m0 (snd (upPrepare digest now session fileId hashes media sourceSize hasSink abortFails m))"
| us_save: "upload_steps digest md5 sha1 S B m0 m \<Longrightarrow>
    upload_steps digest md5 sha1 S B m0 (snd (upSavePart digest now session fileId part b m))"
| us_job: "upload_steps digest md5 sha1 S B m0 m \<Longrightarrow> i \<notin> B \<Longrightarrow> PartEvent i part value \<in> S \<Longrightarrow>
    (\<And>b m1. upload_steps digest md5 sha1 S (insert i B) m1 (snd (se_write env b m1))) \<Longrightarrow>
    (\<And>m1. upload_steps digest md5 sha1 S (insert i B) m1 (snd (se_complete env m1))) \<Longrightarrow>
    upload_steps digest md5 sha1 S B m0 (snd (savePreparedPart md5 sha1 env now i part value m))"
| us_remove: "upload_steps digest md5 sha1 S B m0 m \<Longrightarrow>
    upload_steps digest md5 sha1 S B m0 (snd (upRemove digest abortFails session fileId m))"
| us_stage: "upload_steps digest md5 sha1 S B m0 m \<Longrightarrow> StagedEvent s \<in> S \<Longrightarrow> upload_steps digest md5 sha1 S B m0 (upStage s m)"
| us_open: "upload_steps digest md5 sha1 S B m0 m \<Longrightarrow>
    upload_steps digest md5 sha1 S B m0 (snd (upOpen digest session fileId parts m))"
| us_complete: "upload_steps digest md5 sha1 S B m0 m \<Longrightarrow> upload_steps digest md5 sha1 S B m0 (upComplete digest file m)"
| us_sweep: "upload_steps digest md5 sha1 S B m0 m \<Longrightarrow> upSweep digest maxIdleMs now keep m = Some (counts, m1) \<Longrightarrow>
    upload_steps digest md5 sha1 S B m0 m1"

section \<open>The invariant\<close>

abbreviation writtenParts :: "'m preparedUpload \<Rightarrow> bytes list" where
  "writtenParts p \<equiv> sk_written (pu_sink p)"

abbreviation writtenBytes :: "'m preparedUpload \<Rightarrow> bytes" where
  "writtenBytes p \<equiv> concat (writtenParts p)"

definition declaredFile :: "(bytes \<Rightarrow> string) \<Rightarrow> (bytes \<Rightarrow> string) \<Rightarrow> uploadHashes \<Rightarrow> bytes \<Rightarrow> bool" where
  "declaredFile md5 sha1 h b \<longleftrightarrow> int (length b) = uh_size h \<and> md5 b = lowerCase (uh_md5 h) \<and> sha1 b = lowerCase (uh_sha1 h) \<and>
     md5 (take (nat FILE_10M_BYTES) b) = lowerCase (uh_file10MMd5 h)"

definition writtenOk ::
  "(bytes \<Rightarrow> string) \<Rightarrow> (bytes \<Rightarrow> string) \<Rightarrow> 'm upEvent set \<Rightarrow> nat \<Rightarrow> 'm preparedUpload \<Rightarrow> bool" where
  "writtenOk md5 sha1 S i p \<longleftrightarrow>
     (\<forall>k<length (writtenParts p). PartEvent i (int k) (writtenParts p ! k) \<in> S) \<and>
     (\<forall>k b. js_get (pu_parts p) k = Some b \<longrightarrow> PartEvent i k b \<in> S) \<and>
     int (length (writtenBytes p)) \<le> max 0 (uh_size (pu_hashes p)) \<and>
     (sk_completed (pu_sink p) \<longrightarrow> declaredFile md5 sha1 (pu_hashes p) (writtenBytes p))"

definition countersOk :: "'m preparedUpload \<Rightarrow> bool" where
  "countersOk p \<longleftrightarrow> js_inv (pu_parts p) \<and> pu_nextPart p = int (length (writtenParts p)) \<and>
     pu_receivedBytes p = int (length (writtenBytes p)) \<and>
     pu_bufferedBytes p = sum_list (map (\<lambda>e. int (length (snd e))) (pu_parts p)) \<and>
     pu_md5 p = writtenBytes p \<and> pu_sha1 p = writtenBytes p \<and>
     pu_file10MMd5 p = take (nat FILE_10M_BYTES) (writtenBytes p) \<and>
     pu_file10MBytes p = min FILE_10M_BYTES (pu_receivedBytes p) \<and>
     (pu_digested p \<longleftrightarrow> sk_completed (pu_sink p))"

definition windowOk :: "'m preparedUpload \<Rightarrow> bool" where
  "windowOk p \<longleftrightarrow> length (pu_parts p) \<le> MAX_PREPARED_OUT_OF_ORDER_PARTS \<and> pu_bufferedBytes p \<le> MAX_PREPARED_OUT_OF_ORDER_BYTES"

definition uploadOk ::
  "(bytes \<Rightarrow> string) \<Rightarrow> (bytes \<Rightarrow> string) \<Rightarrow> 'm upEvent set \<Rightarrow> nat \<Rightarrow> 'm preparedUpload \<Rightarrow> bool" where
  "uploadOk md5 sha1 S i p \<longleftrightarrow> writtenOk md5 sha1 S i p \<and> (pu_failed p = None \<longrightarrow> countersOk p \<and> windowOk p)"

definition justified :: "'m upEvent set \<Rightarrow> (nat, 'm preparedUpload) jsmap \<Rightarrow> 'm stagedMedia \<Rightarrow> bool" where
  "justified S heap s \<longleftrightarrow> StagedEvent s \<in> S \<or>
     ReadyEvent (uf_session (sg_upload s)) (uf_fileId (sg_upload s)) (sg_media s) \<in> S \<or>
     (\<exists>i p. js_get heap i = Some p \<and> sk_completed (pu_sink p) \<and> pu_session p = uf_session (sg_upload s) \<and>
        pu_fileId p = uf_fileId (sg_upload s) \<and> pu_media p = sg_media s)"

definition uploadsOk ::
  "(bytes \<Rightarrow> string) \<Rightarrow> (bytes \<Rightarrow> string) \<Rightarrow> 'm upEvent set \<Rightarrow> 'm uploads \<Rightarrow> bool" where
  "uploadsOk md5 sha1 S m \<longleftrightarrow>
     (\<forall>i p. js_get (um_heap m) i = Some p \<longrightarrow> i < um_nextRef m \<and> uploadOk md5 sha1 S i p) \<and>
     (\<forall>key s. js_get (um_staged m) key = Some s \<longrightarrow> uf_native (sg_upload s) \<longrightarrow> justified S (um_heap m) s)"

text \<open>What others may do to an upload whose job waits: a new time, an abort of its sink.\<close>

definition sameUpload :: "'m preparedUpload \<Rightarrow> 'm preparedUpload \<Rightarrow> bool" where
  "sameUpload p q \<longleftrightarrow> q = p\<lparr>pu_updatedAt := pu_updatedAt q, pu_sink := (pu_sink p)\<lparr>sk_aborted := sk_aborted (pu_sink q)\<rparr>\<rparr>"

definition sameObject :: "'m uploads \<Rightarrow> 'm uploads \<Rightarrow> nat \<Rightarrow> bool" where
  "sameObject m m' i \<longleftrightarrow> (\<forall>p. js_get (um_heap m) i = Some p \<longrightarrow> (\<exists>q. js_get (um_heap m') i = Some q \<and> sameUpload p q))"

definition keeps ::
  "(bytes \<Rightarrow> string) \<Rightarrow> (bytes \<Rightarrow> string) \<Rightarrow> 'm upEvent set \<Rightarrow> nat set \<Rightarrow> 'm uploads \<Rightarrow> 'm uploads \<Rightarrow> bool" where
  "keeps md5 sha1 S B m m' \<longleftrightarrow> (uploadsOk md5 sha1 S m \<longrightarrow> uploadsOk md5 sha1 S m' \<and> (\<forall>i\<in>B. sameObject m m' i))"

lemma sameUpload_refl [simp]: "sameUpload p p"
  by (simp add: sameUpload_def)

lemma sameUpload_trans: "sameUpload p q \<Longrightarrow> sameUpload q r \<Longrightarrow> sameUpload p r"
  unfolding sameUpload_def by (cases p; cases q; cases r; cases "pu_sink p"; cases "pu_sink q"; cases "pu_sink r") simp

lemma sameObject_refl [simp]: "sameObject m m i"
  by (simp add: sameObject_def)

lemma sameObject_trans: "sameObject m m1 i \<Longrightarrow> sameObject m1 m2 i \<Longrightarrow> sameObject m m2 i"
  unfolding sameObject_def using sameUpload_trans by metis

lemma keeps_refl [simp]: "keeps md5 sha1 S B m m"
  by (simp add: keeps_def)

lemma keeps_trans: "keeps md5 sha1 S B m m1 \<Longrightarrow> keeps md5 sha1 S B m1 m2 \<Longrightarrow> keeps md5 sha1 S B m m2"
  unfolding keeps_def using sameObject_trans by blast

lemma keeps_mono: "keeps md5 sha1 S B m m1 \<Longrightarrow> C \<subseteq> B \<Longrightarrow> keeps md5 sha1 S C m m1"
  unfolding keeps_def by blast

lemma sameUpload_ok: "sameUpload p q \<Longrightarrow> uploadOk md5 sha1 S i q \<longleftrightarrow> uploadOk md5 sha1 S i p"
  by (cases p; cases q; cases "pu_sink p"; cases "pu_sink q")
    (simp add: sameUpload_def uploadOk_def writtenOk_def countersOk_def windowOk_def)

lemma sameUpload_fields:
  "sameUpload p q \<Longrightarrow> pu_session q = pu_session p \<and> pu_fileId q = pu_fileId p \<and> pu_media q = pu_media p \<and>
     sk_completed (pu_sink q) = sk_completed (pu_sink p)"
  by (cases p; cases q; cases "pu_sink p"; cases "pu_sink q") (simp add: sameUpload_def)

section \<open>One job\<close>

lemma sum_delete:
  assumes "js_inv m" "js_get m k = Some b"
  shows "sum_list (map (\<lambda>e. f (snd e)) (js_delete k m)) = sum_list (map (\<lambda>e. f (snd e)) m) - (f b :: int)"
  using assms
proof (induction m)
  case (Cons e m)
  show ?case
  proof (cases "fst e = k")
    case True
    with Cons.prems have "js_delete k m = m" by (cases e) (force simp: js_inv_Cons delete_eq_filter filter_id_conv)
    with True Cons.prems show ?thesis by (cases e) simp
  next
    case False
    with Cons show ?thesis by (cases e) (simp add: js_inv_Cons)
  qed
qed simp

definition nextState :: "bytes \<Rightarrow> 'm preparedUpload \<Rightarrow> 'm preparedUpload" where
  "nextState chunk p = writtenTo chunk (updateDigests chunk (removePart chunk p))"

lemmas turn_defs = nextState_def writtenTo_def updateDigests_def removePart_def Let_def

lemma turn_parts:
  "pu_parts (removePart chunk p) = js_delete (pu_nextPart p) (pu_parts p)"
  "pu_parts (updateDigests chunk p) = pu_parts p" "pu_parts (writtenTo chunk p) = pu_parts p"
  "pu_sink (removePart chunk p) = pu_sink p" "pu_sink (updateDigests chunk p) = pu_sink p"
  "pu_hashes (removePart chunk p) = pu_hashes p" "pu_hashes (updateDigests chunk p) = pu_hashes p" "pu_hashes (writtenTo chunk p) = pu_hashes p"
  by (simp_all add: turn_defs)

lemma turn_written:
  assumes "writtenOk md5 sha1 S i p"
  shows "writtenOk md5 sha1 S i (removePart chunk p)" "writtenOk md5 sha1 S i (updateDigests chunk (removePart chunk p))"
  using assms by (simp_all add: writtenOk_def turn_parts delete_conv')

lemma turn_next:
  assumes w: "writtenOk md5 sha1 S i p" and c: "countersOk p" and chunk: "js_get (pu_parts p) (pu_nextPart p) = Some chunk"
    and size: "pu_receivedBytes p + int (length chunk) \<le> uh_size (pu_hashes p)" and d: "\<not> pu_digested p"
  shows "writtenOk md5 sha1 S i (nextState chunk p)"
proof -
  have "PartEvent i (int (length (writtenParts p))) chunk \<in> S" using w c chunk by (simp add: writtenOk_def countersOk_def)
  moreover have "\<not> sk_completed (pu_sink p)" using c d by (simp add: countersOk_def)
  moreover have "int (length (writtenBytes p)) + int (length chunk) \<le> uh_size (pu_hashes p)" using c size by (simp add: countersOk_def)
  ultimately show ?thesis
    using w by (auto simp: writtenOk_def nextState_def turn_parts delete_conv' writtenTo_def nth_append less_Suc_eq)
qed

lemma turn_counters:
  assumes c: "countersOk p" and chunk: "js_get (pu_parts p) (pu_nextPart p) = Some chunk"
  shows "countersOk (nextState chunk p)"
    and "length (pu_parts (nextState chunk p)) < length (pu_parts p)"
    and "pu_bufferedBytes (nextState chunk p) = pu_bufferedBytes p - int (length chunk)"
proof -
  show "length (pu_parts (nextState chunk p)) < length (pu_parts p)"
    using js_delete_less [OF chunk] by (simp add: nextState_def turn_parts)
  show "pu_bufferedBytes (nextState chunk p) = pu_bufferedBytes p - int (length chunk)" by (simp add: turn_defs)
  have inv: "js_inv (pu_parts p)" using c by (simp add: countersOk_def)
  let ?w = "writtenBytes p"
  have "take (nat FILE_10M_BYTES) (?w @ chunk) = take (nat FILE_10M_BYTES) ?w @
      (if int (length ?w) < FILE_10M_BYTES then take (nat (min (FILE_10M_BYTES - int (length ?w)) (int (length chunk)))) chunk else [])"
  proof (cases "int (length ?w) < FILE_10M_BYTES")
    case True
    then have "nat (min (FILE_10M_BYTES - int (length ?w)) (int (length chunk))) = min (nat FILE_10M_BYTES - length ?w) (length chunk)" by simp
    with True show ?thesis by (simp add: min_def)
  qed simp
  with c show "countersOk (nextState chunk p)"
    using sum_delete [OF inv chunk, of "\<lambda>b. int (length b)"]
    by (auto simp: countersOk_def turn_defs FILE_10M_BYTES_def split: if_splits)
qed

text \<open>What a run of the loop makes of the upload, and of the rest of the program: others' steps, then the staging.\<close>

definition drained ::
  "(bytes \<Rightarrow> string) \<Rightarrow> (bytes \<Rightarrow> string) \<Rightarrow> 'm upEvent set \<Rightarrow> nat set \<Rightarrow> int \<Rightarrow> nat \<Rightarrow> 'm preparedUpload \<Rightarrow> 'm uploads \<Rightarrow>
   uploadError option \<times> 'm preparedUpload \<times> 'm uploads \<Rightarrow> bool" where
  "drained md5 sha1 S B now i p m res \<longleftrightarrow> (case res of (e, p', m') \<Rightarrow>
     writtenOk md5 sha1 S i p' \<and> pu_failed p' = None \<and> pu_session p' = pu_session p \<and> pu_fileId p' = pu_fileId p \<and> pu_media p' = pu_media p \<and>
     (sk_completed (pu_sink p) \<longrightarrow> sk_completed (pu_sink p')) \<and>
     (e = None \<longrightarrow> countersOk p' \<and> length (pu_parts p') \<le> length (pu_parts p) \<and> pu_bufferedBytes p' \<le> pu_bufferedBytes p \<and>
        (\<forall>chunk. js_get (pu_parts p) (pu_nextPart p) = Some chunk \<longrightarrow> length (pu_parts p') < length (pu_parts p) \<and>
           pu_bufferedBytes p' \<le> pu_bufferedBytes p - int (length chunk))) \<and>
     (\<exists>m2. keeps md5 sha1 S B m m2 \<and> (m' = m2 \<or> e = None \<and> sk_completed (pu_sink p') \<and> m' = finishPrepared now i p' m2)))"

lemma verified:
  assumes "countersOk p" "verifyPreparedHashes md5 sha1 p = None" "pu_receivedBytes p = uh_size (pu_hashes p)"
  shows "declaredFile md5 sha1 (pu_hashes p) (writtenBytes p)"
  using assms by (auto simp: verifyPreparedHashes_def countersOk_def declaredFile_def split: if_splits)

lemma verify_digested [simp]: "verifyPreparedHashes md5 sha1 (p\<lparr>pu_digested := b\<rparr>) = verifyPreparedHashes md5 sha1 p"
  by (simp add: verifyPreparedHashes_def)

lemma turn_fields:
  "pu_session (nextState chunk p) = pu_session p" "pu_fileId (nextState chunk p) = pu_fileId p" "pu_media (nextState chunk p) = pu_media p"
  "pu_failed (nextState chunk p) = pu_failed p" "sk_completed (pu_sink (nextState chunk p)) = sk_completed (pu_sink p)"
  "pu_digested (nextState chunk p) = pu_digested p"
  by (simp_all add: turn_defs)

lemma drained_turn:
  assumes "drained md5 sha1 S B now i (nextState chunk p) m1 res" "keeps md5 sha1 S B m m1"
    and "js_get (pu_parts p) (pu_nextPart p) = Some chunk" "length (pu_parts (nextState chunk p)) < length (pu_parts p)"
    and "pu_bufferedBytes (nextState chunk p) = pu_bufferedBytes p - int (length chunk)"
  shows "drained md5 sha1 S B now i p m res"
proof -
  obtain e p' m' where res: "res = (e, p', m')" by (cases res) auto
  then obtain m2 where "keeps md5 sha1 S B m1 m2" "m' = m2 \<or> e = None \<and> sk_completed (pu_sink p') \<and> m' = finishPrepared now i p' m2"
    using assms(1) unfolding drained_def by blast
  moreover from this(1) have "keeps md5 sha1 S B m m2" by (rule keeps_trans [OF assms(2)])
  ultimately show ?thesis using assms(1,3-5) by (auto simp: drained_def res turn_fields intro!: exI [of _ m2])
qed

lemma drain_drained:
  assumes "writtenOk md5 sha1 S i p" "countersOk p" "pu_failed p = None"
    and "\<And>b m. keeps md5 sha1 S B m (snd (se_write env b m))" "\<And>m. keeps md5 sha1 S B m (snd (se_complete env m))"
  shows "drained md5 sha1 S B now i p m (drainPrepared md5 sha1 env now i p m)"
  using assms
proof (induction "length (pu_parts p)" arbitrary: p m rule: less_induct)
  case less
  note w = less.prems(1) and c = less.prems(2) and f = less.prems(3)
  show ?case
  proof (cases "js_get (pu_parts p) (pu_nextPart p)")
    case None
    then show ?thesis
      using w c f by (subst drainPrepared.simps) (auto simp: drained_def intro: exI [of _ m])
  next
    case (Some chunk)
    let ?q = "nextState chunk p"
    show ?thesis
    proof (cases "uh_size (pu_hashes p) < pu_receivedBytes p + int (length chunk) \<or> pu_digested p")
      case True
      then show ?thesis
        using Some w f turn_written(1) [OF w, of chunk]
        by (subst drainPrepared.simps) (auto simp: drained_def Let_def removePart_def intro: exI [of _ m])
    next
      case False
      then have size: "pu_receivedBytes p + int (length chunk) \<le> uh_size (pu_hashes p)" "\<not> pu_digested p" by auto
      note q = turn_next [OF w c Some size] and qc = turn_counters [OF c Some]
      obtain r m1 where r: "se_write env chunk m = (r, m1)" by fastforce
      then have m1: "keeps md5 sha1 S B m m1" using less.prems(4) [of m chunk] by simp
      have eq: "drainPrepared md5 sha1 env now i p m = (case r of
          Some err \<Rightarrow> (Some (SinkFailed err), updateDigests chunk (removePart chunk p), m1)
        | None \<Rightarrow> if pu_receivedBytes ?q \<noteq> uh_size (pu_hashes ?q) then drainPrepared md5 sha1 env now i ?q m1
          else (case verifyPreparedHashes md5 sha1 (?q\<lparr>pu_digested := True\<rparr>) of
              Some err \<Rightarrow> (Some err, ?q\<lparr>pu_digested := True\<rparr>, m1)
            | None \<Rightarrow> (case se_complete env m1 of
                (Some err, m2) \<Rightarrow> (Some (SinkFailed err), ?q\<lparr>pu_digested := True\<rparr>, m2)
              | (None, m2) \<Rightarrow> (None, completedSink (?q\<lparr>pu_digested := True\<rparr>), finishPrepared now i (?q\<lparr>pu_digested := True\<rparr>) m2))))"
        using Some size r unfolding nextState_def by (subst drainPrepared.simps, unfold Let_def) simp
      show ?thesis
      proof (cases r)
        case (Some err)
        then show ?thesis
          unfolding eq using turn_written(2) [OF w, of chunk] f m1
          by (auto simp: drained_def turn_defs intro!: exI [of _ m1])
      next
        case None
        show ?thesis
        proof (cases "pu_receivedBytes ?q = uh_size (pu_hashes ?q)")
          case False
          have "drained md5 sha1 S B now i ?q m1 (drainPrepared md5 sha1 env now i ?q m1)"
            using less.hyps [OF qc(2) q qc(1)] f less.prems(4,5) by (simp add: turn_fields)
          from drained_turn [OF this m1 \<open>js_get (pu_parts p) (pu_nextPart p) = Some chunk\<close> qc(2,3)]
          show ?thesis unfolding eq using None False by simp
        next
          case True
          let ?r = "?q\<lparr>pu_digested := True\<rparr>"
          obtain r2 m2 where r2: "se_complete env m1 = (r2, m2)" by fastforce
          then have m2: "keeps md5 sha1 S B m m2" using less.prems(5) [of m1] keeps_trans [OF m1] by simp
          have rw: "writtenOk md5 sha1 S i ?r" using q by (simp add: writtenOk_def)
          have "\<not> sk_completed (pu_sink p)" using c size(2) by (simp add: countersOk_def)
          show ?thesis
          proof (cases "verifyPreparedHashes md5 sha1 ?r")
            case (Some err)
            then show ?thesis
              unfolding eq using None True rw f m1 by (auto simp: drained_def turn_fields intro!: exI [of _ m1])
          next
            case ok: None
            show ?thesis
            proof (cases r2)
              case (Some err)
              then show ?thesis
                unfolding eq using None True ok r2 rw f m2 by (auto simp: drained_def turn_fields intro!: exI [of _ m2])
            next
              case None2: None
              let ?c = "completedSink ?r"
              have "declaredFile md5 sha1 (pu_hashes ?q) (writtenBytes ?q)"
                using verified [of ?q md5 sha1] qc(1) ok True by simp
              then have "writtenOk md5 sha1 S i ?c" "countersOk ?c"
                using q qc(1) by (simp_all add: writtenOk_def countersOk_def completedSink_def)
              moreover have "finishPrepared now i ?r m2 = finishPrepared now i ?c m2"
                by (simp add: finishPrepared_def forget_def completedSink_def)
              ultimately show ?thesis
                unfolding eq using None True ok r2 None2 f m2 qc(2,3) \<open>js_get (pu_parts p) (pu_nextPart p) = Some chunk\<close>
                by (auto simp: drained_def turn_fields completedSink_def intro!: exI [of _ m2])
            qed
          qed
        qed
      qed
    qed
  qed
qed

lemma js_length_set: "length (js_set k v m) \<le> Suc (length m)" and js_length_set_new: "js_get m k = None \<Longrightarrow> length (js_set k v m) = Suc (length m)"
proof -
  have "length (js_keys (js_set k v m)) \<le> Suc (length (js_keys m))" by (simp add: js_keys_set)
  then show "length (js_set k v m) \<le> Suc (length m)" by simp
  assume "js_get m k = None"
  then have "length (js_keys (js_set k v m)) = Suc (length (js_keys m))" unfolding js_keys_set by (simp add: map_of_eq_None_iff)
  then show "length (js_set k v m) = Suc (length m)" by simp
qed

lemma accept_ok:
  assumes ok: "uploadOk md5 sha1 S i p" and ev: "PartEvent i part value \<in> S"
    and env: "\<And>b m. keeps md5 sha1 S B m (snd (se_write env b m))" "\<And>m. keeps md5 sha1 S B m (snd (se_complete env m))"
    and res: "acceptPart md5 sha1 env now i part value p m = (e, p', m')"
  shows "writtenOk md5 sha1 S i p'" "e = None \<Longrightarrow> uploadOk md5 sha1 S i p'" "pu_failed p' = pu_failed p"
    "pu_session p' = pu_session p \<and> pu_fileId p' = pu_fileId p \<and> pu_media p' = pu_media p"
    "sk_completed (pu_sink p) \<longrightarrow> sk_completed (pu_sink p')"
    "\<exists>m2. keeps md5 sha1 S B m m2 \<and> (m' = m2 \<or> e = None \<and> sk_completed (pu_sink p') \<and> m' = finishPrepared now i p' m2)"
proof -
  let ?p = "p\<lparr>pu_parts := js_set part value (pu_parts p), pu_bufferedBytes := pu_bufferedBytes p + int (length value)\<rparr>"
  let ?goal = "writtenOk md5 sha1 S i p' \<and> (e = None \<longrightarrow> uploadOk md5 sha1 S i p') \<and> pu_failed p' = pu_failed p \<and>
    (pu_session p' = pu_session p \<and> pu_fileId p' = pu_fileId p \<and> pu_media p' = pu_media p) \<and>
    (sk_completed (pu_sink p) \<longrightarrow> sk_completed (pu_sink p')) \<and>
    (\<exists>m2. keeps md5 sha1 S B m m2 \<and> (m' = m2 \<or> e = None \<and> sk_completed (pu_sink p') \<and> m' = finishPrepared now i p' m2))"
  have w: "writtenOk md5 sha1 S i p" using ok by (simp add: uploadOk_def)
  have ?goal
  proof (cases "pu_failed p \<noteq> None \<or> part < pu_nextPart p \<or> js_get (pu_parts p) part \<noteq> None \<or>
      part \<noteq> pu_nextPart p \<and> (MAX_PREPARED_OUT_OF_ORDER_PARTS \<le> length (pu_parts p) \<or>
        MAX_PREPARED_OUT_OF_ORDER_BYTES < pu_bufferedBytes p + int (length value))")
    case True
    then have "p' = p \<and> m' = m" using res by (auto simp: acceptPart_def split: option.splits if_splits)
    then show ?thesis using w ok by (auto intro: exI [of _ m])
  next
    case False
    then have f: "pu_failed p = None" and new: "js_get (pu_parts p) part = None" by auto
    have c: "countersOk p" "windowOk p" using ok f by (auto simp: uploadOk_def)
    have "js_set part value (pu_parts p) = pu_parts p @ [(part, value)]"
      using new by (simp add: js_set_new map_of_eq_None_iff)
    then have c': "countersOk ?p" and len: "length (pu_parts ?p) = Suc (length (pu_parts p))"
      using c(1) by (simp_all add: countersOk_def js_inv_def) (use new in \<open>simp add: map_of_eq_None_iff\<close>)
    have w': "writtenOk md5 sha1 S i ?p" using w ev by (simp add: writtenOk_def update_conv')
    have "drainPrepared md5 sha1 env now i ?p m = (e, p', m')"
      using f False res by (auto simp: acceptPart_def split: if_splits)
    then have "drained md5 sha1 S B now i ?p m (e, p', m')"
      using drain_drained [OF w' c' _ env, where now = now and m = m] f by simp
    note d = this [unfolded drained_def]
    have "windowOk p'" if "e = None"
    proof (cases "part = pu_nextPart p")
      case True
      then show ?thesis using d that c(2) len by (simp add: windowOk_def update_conv')
    next
      case noteq: False
      then have "length (pu_parts ?p) \<le> MAX_PREPARED_OUT_OF_ORDER_PARTS" "pu_bufferedBytes ?p \<le> MAX_PREPARED_OUT_OF_ORDER_BYTES"
        using False len by auto
      then show ?thesis using d that by (auto simp: windowOk_def)
    qed
    with d f show ?thesis by (auto simp: uploadOk_def)
  qed
  then show "writtenOk md5 sha1 S i p'" "e = None \<Longrightarrow> uploadOk md5 sha1 S i p'" "pu_failed p' = pu_failed p"
    "pu_session p' = pu_session p \<and> pu_fileId p' = pu_fileId p \<and> pu_media p' = pu_media p"
    "sk_completed (pu_sink p) \<longrightarrow> sk_completed (pu_sink p')"
    "\<exists>m2. keeps md5 sha1 S B m m2 \<and> (m' = m2 \<or> e = None \<and> sk_completed (pu_sink p') \<and> m' = finishPrepared now i p' m2)"
    by blast+
qed

section \<open>Steps keep the invariant\<close>

text \<open>Steps that only abort sinks, refresh times and forget.\<close>

definition gentle :: "'m uploads \<Rightarrow> 'm uploads \<Rightarrow> bool" where
  "gentle m m' \<longleftrightarrow> um_nextRef m' = um_nextRef m \<and> (\<forall>i. rel_option sameUpload (js_get (um_heap m) i) (js_get (um_heap m') i)) \<and>
     (\<forall>key s. js_get (um_staged m') key = Some s \<longrightarrow> js_get (um_staged m) key = Some s)"

lemma gentle_refl [simp]: "gentle m m"
  by (simp add: gentle_def option.rel_refl)

lemma sameUpload_transp: "transp sameUpload"
  by (rule transpI) (rule sameUpload_trans)

lemma gentle_trans: "gentle m m1 \<Longrightarrow> gentle m1 m2 \<Longrightarrow> gentle m m2"
  unfolding gentle_def by (blast intro: transpD [OF option.rel_transp [OF sameUpload_transp]] trans)

lemma justified_later:
  assumes "justified S h s"
    and "\<And>i p. js_get h i = Some p \<Longrightarrow> sk_completed (pu_sink p) \<Longrightarrow> \<exists>q. js_get h' i = Some q \<and> sk_completed (pu_sink q) \<and>
      pu_session q = pu_session p \<and> pu_fileId q = pu_fileId p \<and> pu_media q = pu_media p"
  shows "justified S h' s"
  using assms(1) unfolding justified_def by (metis assms(2))

lemma gentle_keeps:
  assumes g: "gentle m m'"
  shows "keeps md5 sha1 S B m m'"
  unfolding keeps_def
proof (intro impI conjI ballI)
  assume ok: "uploadsOk md5 sha1 S m"
  have to: "\<exists>q. js_get (um_heap m') i = Some q \<and> sameUpload p q" if "js_get (um_heap m) i = Some p" for i p
    using g that unfolding gentle_def by (metis option_rel_Some1)
  have from': "\<exists>p. js_get (um_heap m) i = Some p \<and> sameUpload p q" if "js_get (um_heap m') i = Some q" for i q
    using g that unfolding gentle_def by (metis option_rel_Some2)
  show "sameObject m m' i" for i using to by (simp add: sameObject_def)
  show "uploadsOk md5 sha1 S m'"
    unfolding uploadsOk_def
  proof (intro conjI allI impI)
    fix i q assume q: "js_get (um_heap m') i = Some q"
    from from' [OF q] obtain p where "js_get (um_heap m) i = Some p" "sameUpload p q" by blast
    then show "i < um_nextRef m'" "uploadOk md5 sha1 S i q"
      using ok g by (auto simp: uploadsOk_def gentle_def sameUpload_ok)
  next
    fix key s assume "js_get (um_staged m') key = Some s" "uf_native (sg_upload s)"
    then have "justified S (um_heap m) s" using g ok unfolding gentle_def uploadsOk_def by blast
    then show "justified S (um_heap m') s"
    proof (rule justified_later)
      fix i p assume "js_get (um_heap m) i = Some p" and done': "sk_completed (pu_sink p)"
      from to [OF this(1)] obtain q where q: "js_get (um_heap m') i = Some q" "sameUpload p q" by blast
      with done' sameUpload_fields [OF q(2)] show "\<exists>q. js_get (um_heap m') i = Some q \<and> sk_completed (pu_sink q) \<and>
          pu_session q = pu_session p \<and> pu_fileId q = pu_fileId p \<and> pu_media q = pu_media p" by auto
    qed
  qed
qed

lemma gentle_prepared [simp]: "gentle m (m\<lparr>um_prepared := x\<rparr>)" "gentle m (m\<lparr>um_dirs := y\<rparr>)"
  by (simp_all add: gentle_def option.rel_refl)

lemma gentle_unstage [simp]: "gentle m (m\<lparr>um_staged := js_delete key (um_staged m)\<rparr>)"
  by (simp add: gentle_def option.rel_refl delete_conv')

lemma gentle_object:
  assumes "\<And>p. js_get (um_heap m) i = Some p \<Longrightarrow> sameUpload p q"
  shows "js_get (um_heap m) i \<noteq> None \<Longrightarrow> gentle m (m\<lparr>um_heap := js_set i q (um_heap m)\<rparr>)"
  using assms by (auto simp: gentle_def update_conv' option.rel_refl)

lemma gentle_abort [simp]: "gentle m (abortObject i m)"
  by (auto simp: abortObject_def abortSink_def sameUpload_def intro!: gentle_object split: option.split)

lemma gentle_removeDirectory [simp]: "gentle m (removeDirectory digest session fileId m)"
  by (simp add: removeDirectory_def)

lemma gentle_forget [simp]: "gentle m (forget i p m)"
  by (simp add: forget_def)

lemma gentle_savePart: "gentle m (snd (upSavePart digest now session fileId part b m))"
  by (auto simp: upSavePart_def Let_def sameUpload_def intro!: gentle_object split: option.split)

lemma gentle_remove: "gentle m (snd (upRemove digest abortFails session fileId m))"
  unfolding upRemove_def Let_def
  by (auto split: option.split intro: gentle_trans [OF gentle_unstage gentle_removeDirectory]
      gentle_trans [OF gentle_unstage gentle_trans [OF gentle_prepared(1) gentle_abort]]
      gentle_trans [OF gentle_unstage gentle_trans [OF gentle_prepared(1) gentle_trans [OF gentle_abort gentle_removeDirectory]]])

lemma gentle_complete: "gentle m (upComplete digest file m)"
  unfolding upComplete_def Let_def
  by (auto split: option.split intro: gentle_trans [OF gentle_unstage gentle_removeDirectory])

lemma gentle_sweep:
  assumes "upSweep digest maxIdleMs now keep m = Some (counts, m')"
  shows "gentle m m'"
proof -
  have 1: "gentle m (m\<lparr>um_staged := foldl (\<lambda>ss (key, _). js_delete key ss) (um_staged m) stale\<rparr>)" for m :: "'a uploads" and stale
  proof (induction stale arbitrary: m)
    case (Cons e stale)
    from Cons [of "m\<lparr>um_staged := js_delete (fst e) (um_staged m)\<rparr>"] show ?case
      by (auto simp: split_beta intro: gentle_trans [OF gentle_unstage])
  qed simp
  have 2: "gentle m (foldl (\<lambda>m (key, i). abortObject i (m\<lparr>um_prepared := js_delete key (um_prepared m)\<rparr>)) m stale)"
    for m :: "'a uploads" and stale
  proof (induction stale arbitrary: m)
    case (Cons e stale)
    from Cons show ?case
      by (auto simp: split_beta intro: gentle_trans [OF gentle_trans [OF gentle_prepared(1) gentle_abort]])
  qed simp
  show ?thesis
    using assms 1 2 unfolding upSweep_def sweepStaged_def sweepPrepared_def sweepDirectories_def Let_def
    by (auto split: if_splits prod.splits intro: gentle_trans [OF gentle_trans [OF 1 2] gentle_prepared(2)])
qed

lemma uploadsOk_same:
  assumes "uploadsOk md5 sha1 S m" "um_heap m' = um_heap m" "um_nextRef m \<le> um_nextRef m'"
    and "\<And>key s. js_get (um_staged m') key = Some s \<Longrightarrow> js_get (um_staged m) key = Some s \<or> (uf_native (sg_upload s) \<longrightarrow> justified S (um_heap m) s)"
  shows "uploadsOk md5 sha1 S m'"
  using assms unfolding uploadsOk_def by (metis order_less_le_trans)

lemma keeps_stage:
  assumes "\<And>h. justified S h s \<or> \<not> uf_native (sg_upload s)"
  shows "keeps md5 sha1 S B m (upStage s m)"
  unfolding keeps_def
proof (intro impI conjI ballI)
  assume "uploadsOk md5 sha1 S m"
  then show "uploadsOk md5 sha1 S (upStage s m)"
    by (rule uploadsOk_same) (use assms in \<open>auto simp: upStage_def update_conv' split: if_splits\<close>)
qed (simp add: sameObject_def upStage_def)

lemma stagePrepared_eq:
  "um_heap (stagePrepared now session fileId media m) = um_heap m"
  "um_nextRef (stagePrepared now session fileId media m) = um_nextRef m + 1"
  "js_get (um_staged (stagePrepared now session fileId media m)) = (js_get (um_staged m))(stageKey session fileId \<mapsto>
     \<lparr>sg_media = media, sg_upload = \<lparr>uf_ref = um_nextRef m, uf_session = session, uf_fileId = fileId, uf_source = MediaSource media, uf_native = True\<rparr>,
      sg_timestamp = now div 1000, sg_updatedAt = now\<rparr>)"
  by (simp_all add: stagePrepared_def upStage_def update_conv')

lemma keeps_ready:
  assumes "ReadyEvent session fileId media \<in> S"
  shows "keeps md5 sha1 S B m (stagePrepared now session fileId media m)"
  unfolding keeps_def
proof (intro impI conjI ballI)
  assume "uploadsOk md5 sha1 S m"
  then show "uploadsOk md5 sha1 S (stagePrepared now session fileId media m)"
    by (rule uploadsOk_same) (use assms in \<open>auto simp: stagePrepared_eq justified_def split: if_splits\<close>)
qed (simp add: sameObject_def stagePrepared_eq)

lemma newPrepared_ok: "uploadOk md5 sha1 S i (newPrepared now session fileId hashes media)"
  by (simp add: uploadOk_def writtenOk_def countersOk_def windowOk_def newPrepared_def FILE_10M_BYTES_def
      MAX_PREPARED_OUT_OF_ORDER_BYTES_def)

lemma keeps_new:
  "keeps md5 sha1 S B m (m\<lparr>um_heap := js_set (um_nextRef m) (newPrepared now session fileId hashes media) (um_heap m),
     um_prepared := x, um_nextRef := um_nextRef m + 1\<rparr>)" (is "keeps _ _ _ _ _ ?m")
  unfolding keeps_def
proof (intro impI conjI ballI)
  assume ok: "uploadsOk md5 sha1 S m"
  then have fresh: "js_get (um_heap m) (um_nextRef m) = None"
    unfolding uploadsOk_def by (metis nless_le not_Some_eq)
  then show "sameObject m ?m i" for i by (auto simp: sameObject_def update_conv')
  show "uploadsOk md5 sha1 S ?m"
    unfolding uploadsOk_def
  proof (intro conjI allI impI)
    fix i p assume "js_get (um_heap ?m) i = Some p"
    then show "i < um_nextRef ?m" "uploadOk md5 sha1 S i p"
      using ok newPrepared_ok by (auto simp: uploadsOk_def update_conv' less_SucI split: if_splits)
  next
    fix key s assume "js_get (um_staged ?m) key = Some s" "uf_native (sg_upload s)"
    then have "justified S (um_heap m) s" using ok by (simp add: uploadsOk_def)
    then show "justified S (um_heap ?m) s" by (rule justified_later) (use fresh in \<open>auto simp: update_conv'\<close>)
  qed
qed

lemma keeps_prepare:
  assumes "hasSink \<or> ReadyEvent session fileId media \<in> S"
  shows "keeps md5 sha1 S B m (snd (upPrepare digest now session fileId hashes media sourceSize hasSink abortFails m))"
proof -
  let ?key = "stageKey session fileId"
  define m1 where "m1 = (case js_get (um_prepared m) ?key of None \<Rightarrow> m | Some i \<Rightarrow> abortObject i m)"
  define m2 where "m2 = removeDirectory digest session fileId
    (m1\<lparr>um_prepared := js_delete ?key (um_prepared m1), um_staged := js_delete ?key (um_staged m1)\<rparr>)"
  have g1: "gentle m m1" by (simp add: m1_def split: option.split)
  have "gentle m1 (m1\<lparr>um_prepared := js_delete ?key (um_prepared m1)\<rparr>)" by simp
  from gentle_trans [OF this gentle_unstage [of _ ?key]] have "gentle m1 m2"
    unfolding m2_def by (intro gentle_trans [OF _ gentle_removeDirectory]) simp
  then have g2: "gentle m m2" using g1 gentle_trans by blast
  have eq: "snd (upPrepare digest now session fileId hashes media sourceSize hasSink abortFails m) =
      (if js_get (um_prepared m) ?key \<noteq> None \<and> abortFails then m1
       else if \<not> hasSink then stagePrepared now session fileId media m2
       else if sourceSize \<noteq> None \<and> sourceSize \<noteq> Some (uh_size hashes) then m2
       else m2\<lparr>um_heap := js_set (um_nextRef m2) (newPrepared now session fileId hashes media) (um_heap m2),
               um_prepared := js_set ?key (um_nextRef m2) (um_prepared m2), um_nextRef := um_nextRef m2 + 1\<rparr>)"
    unfolding upPrepare_def Let_def m2_def m1_def by simp
  show ?thesis
    unfolding eq using gentle_keeps [OF g1] gentle_keeps [OF g2] keeps_trans [OF gentle_keeps [OF g2] keeps_ready]
      keeps_trans [OF gentle_keeps [OF g2] keeps_new] assms by auto
qed

section \<open>A job keeps the invariant\<close>

lemma put_get:
  "js_get (um_heap (putObject i p m)) j = (if j = i then Some (case js_get (um_heap m) i of None \<Rightarrow> p
      | Some q \<Rightarrow> p\<lparr>pu_updatedAt := pu_updatedAt q, pu_sink := (pu_sink p)\<lparr>sk_aborted := sk_aborted (pu_sink p) \<or> sk_aborted (pu_sink q)\<rparr>\<rparr>)
    else js_get (um_heap m) j)"
  by (simp add: putObject_def update_conv')

lemma put_keeps:
  assumes ok: "uploadsOk md5 sha1 S m" and p: "js_get (um_heap m) i = Some p" and p': "uploadOk md5 sha1 S i p'"
    and fields': "pu_session p' = pu_session p \<and> pu_fileId p' = pu_fileId p \<and> pu_media p' = pu_media p"
    and later: "sk_completed (pu_sink p) \<longrightarrow> sk_completed (pu_sink p')"
    and staged: "um_nextRef m \<le> um_nextRef m'" "um_heap m' = um_heap m"
      "\<And>key s. js_get (um_staged m') key = Some s \<Longrightarrow> js_get (um_staged m) key = Some s \<or>
        (sk_completed (pu_sink p') \<and> pu_session p' = uf_session (sg_upload s) \<and> pu_fileId p' = uf_fileId (sg_upload s) \<and> pu_media p' = sg_media s)"
  shows "uploadsOk md5 sha1 S (putObject i p' m') \<and> (\<forall>j. j \<noteq> i \<longrightarrow> sameObject m (putObject i p' m') j)"
proof (intro conjI allI impI)
  let ?q = "p'\<lparr>pu_updatedAt := pu_updatedAt p, pu_sink := (pu_sink p')\<lparr>sk_aborted := sk_aborted (pu_sink p') \<or> sk_aborted (pu_sink p)\<rparr>\<rparr>"
  have same: "sameUpload p' ?q" by (simp add: sameUpload_def)
  have get: "js_get (um_heap (putObject i p' m')) j = (if j = i then Some ?q else js_get (um_heap m) j)" for j
    using p staged(2) by (simp add: put_get)
  show "j \<noteq> i \<Longrightarrow> sameObject m (putObject i p' m') j" for j by (simp add: sameObject_def get)
  show "uploadsOk md5 sha1 S (putObject i p' m')"
    unfolding uploadsOk_def
  proof (intro conjI allI impI)
    fix j q assume q: "js_get (um_heap (putObject i p' m')) j = Some q"
    have "j < um_nextRef m" using q ok p by (auto simp: get uploadsOk_def split: if_splits)
    then show "j < um_nextRef (putObject i p' m')" using staged(1) by (simp add: putObject_def)
    show "uploadOk md5 sha1 S j q" using q ok p' sameUpload_ok [OF same] by (auto simp: get uploadsOk_def split: if_splits)
  next
    fix key s assume s: "js_get (um_staged (putObject i p' m')) key = Some s" "uf_native (sg_upload s)"
    from s(1) have "js_get (um_staged m') key = Some s" by (simp add: putObject_def)
    from staged(3) [OF this] show "justified S (um_heap (putObject i p' m')) s"
    proof
      assume "js_get (um_staged m) key = Some s"
      then have "justified S (um_heap m) s" using ok s(2) by (simp add: uploadsOk_def)
      then show ?thesis by (rule justified_later) (use p fields' later in \<open>auto simp: get\<close>)
    next
      assume "sk_completed (pu_sink p') \<and> pu_session p' = uf_session (sg_upload s) \<and> pu_fileId p' = uf_fileId (sg_upload s) \<and> pu_media p' = sg_media s"
      then show ?thesis unfolding justified_def by (intro disjI2 exI [of _ i] exI [of _ ?q]) (simp add: get)
    qed
  qed
qed

lemma finish_eq:
  "um_heap (finishPrepared now i p m) = um_heap m" "um_nextRef m \<le> um_nextRef (finishPrepared now i p m)"
  "js_get (um_staged (finishPrepared now i p m)) key = Some s \<Longrightarrow> js_get (um_staged m) key = Some s \<or>
     (pu_session p = uf_session (sg_upload s) \<and> pu_fileId p = uf_fileId (sg_upload s) \<and> pu_media p = sg_media s)"
  by (auto simp: finishPrepared_def stagePrepared_eq forget_def split: if_splits)

lemma job_keeps:
  assumes i: "i \<notin> B" and ev: "PartEvent i part value \<in> S"
    and env: "\<And>b m. keeps md5 sha1 S (insert i B) m (snd (se_write env b m))" "\<And>m. keeps md5 sha1 S (insert i B) m (snd (se_complete env m))"
  shows "keeps md5 sha1 S B m (snd (savePreparedPart md5 sha1 env now i part value m))"
proof (cases "js_get (um_heap m) i")
  case None
  then show ?thesis by (simp add: savePreparedPart_def)
next
  case (Some p)
  obtain e p' m' where res: "acceptPart md5 sha1 env now i part value p m = (e, p', m')" by (metis prod_cases3)
  show ?thesis
    unfolding keeps_def
  proof (intro impI)
    assume ok: "uploadsOk md5 sha1 S m"
    then have p: "uploadOk md5 sha1 S i p" using Some by (simp add: uploadsOk_def)
    note a = accept_ok [OF p ev env res]
    obtain m2 where m2: "keeps md5 sha1 S (insert i B) m m2"
      and m': "m' = m2 \<or> e = None \<and> sk_completed (pu_sink p') \<and> m' = finishPrepared now i p' m2" using a(6) by blast
    have ok2: "uploadsOk md5 sha1 S m2" and same: "\<And>j. j \<in> insert i B \<Longrightarrow> sameObject m m2 j"
      using m2 ok by (auto simp: keeps_def)
    from same [of i] Some obtain q where q: "js_get (um_heap m2) i = Some q" "sameUpload p q" by (auto simp: sameObject_def)
    define p2 m3 where "p2 = (case e of None \<Rightarrow> p' | Some err \<Rightarrow> fst (failPrepared err i p' m'))"
      and "m3 = (case e of None \<Rightarrow> m' | Some err \<Rightarrow> snd (failPrepared err i p' m'))"
    have eq: "snd (savePreparedPart md5 sha1 env now i part value m) = putObject i p2 m3"
      by (simp add: savePreparedPart_def Some res p2_def m3_def split: option.split prod.split)
    have p2: "uploadOk md5 sha1 S i p2"
    proof (cases "e = None \<or> pu_failed p' \<noteq> None")
      case True
      then show ?thesis using a(1,2) p by (auto simp: p2_def failPrepared_def uploadOk_def split: option.split)
    next
      case False
      then show ?thesis using a(1) by (auto simp: p2_def failPrepared_def uploadOk_def writtenOk_def abortSink_def)
    qed
    have "pu_session p2 = pu_session p' \<and> pu_fileId p2 = pu_fileId p' \<and> pu_media p2 = pu_media p' \<and>
        sk_completed (pu_sink p2) = sk_completed (pu_sink p')"
      by (simp add: p2_def failPrepared_def abortSink_def split: option.split)
    then have f: "pu_session p2 = pu_session q \<and> pu_fileId p2 = pu_fileId q \<and> pu_media p2 = pu_media q"
        "sk_completed (pu_sink q) \<longrightarrow> sk_completed (pu_sink p2)" "e = None \<longrightarrow> p2 = p'"
      using a(4,5) sameUpload_fields [OF q(2)] by (auto simp: p2_def)
    have m3: "m3 = m2 \<or> m3 = forget i p' m2 \<or> sk_completed (pu_sink p2) \<and> m3 = finishPrepared now i p2 m2"
      using m' f(3) by (auto simp: m3_def failPrepared_def split: option.split)
    have "um_nextRef m2 \<le> um_nextRef m3" "um_heap m3 = um_heap m2"
      "\<And>key s. js_get (um_staged m3) key = Some s \<Longrightarrow> js_get (um_staged m2) key = Some s \<or>
        (sk_completed (pu_sink p2) \<and> pu_session p2 = uf_session (sg_upload s) \<and> pu_fileId p2 = uf_fileId (sg_upload s) \<and> pu_media p2 = sg_media s)"
      using m3 finish_eq(3) [of now i p2 m2] by (auto simp: finish_eq(1,2) forget_def split: if_splits)
    from put_keeps [OF ok2 q(1) p2 f(1,2) this] i
    show "uploadsOk md5 sha1 S (snd (savePreparedPart md5 sha1 env now i part value m)) \<and>
        (\<forall>j\<in>B. sameObject m (snd (savePreparedPart md5 sha1 env now i part value m)) j)"
      unfolding eq using same sameObject_trans by (metis insertCI)
  qed
qed

lemma steps_keep: "upload_steps digest md5 sha1 S B m m' \<Longrightarrow> keeps md5 sha1 S B m m'"
proof (induction rule: upload_steps.induct)
  case us_prepare
  then show ?case by (metis keeps_trans keeps_prepare)
next
  case us_job
  then show ?case by (metis keeps_trans job_keeps)
next
  case (us_stage B m0 m s)
  have "keeps md5 sha1 S B m (upStage s m)" by (rule keeps_stage) (simp add: justified_def us_stage)
  with us_stage show ?case by (metis keeps_trans)
next
  case (us_open B m0 m session fileId parts)
  have "keeps md5 sha1 S B m (snd (upOpen digest session fileId parts m))"
    unfolding keeps_def
    by (auto simp: upOpen_def Let_def sameObject_def intro: uploadsOk_same split: option.split)
  with us_open show ?case by (metis keeps_trans)
qed (auto intro: keeps_trans gentle_keeps gentle_savePart gentle_remove gentle_complete gentle_sweep)

lemma reachable_uploads:
  assumes "upload_steps digest md5 sha1 S {} newUploads m"
  shows "uploadsOk md5 sha1 S m"
  using steps_keep [OF assms] by (simp add: keeps_def uploadsOk_def newUploads_def)

section \<open>Properties\<close>

text \<open>
  C36. A sink gets the declared file. Whatever parts arrive for a prepared upload, in any order, repeated, changed or
  too many, and whatever the rest of the program does while its sink is called: the chunks written to the sink are
  parts \<open>0, 1, 2, ...\<close> in order, each with bytes that arrived for that part, and never more bytes than declared; the
  sink is completed only when they are exactly the declared file, in size and in all three hashes.
\<close>

theorem sink_gets_declared_file:
  assumes "upload_steps digest md5 sha1 S {} newUploads m" and "js_get (um_heap m) i = Some p"
  shows "(\<forall>k<length (sk_written (pu_sink p)). PartEvent i (int k) (sk_written (pu_sink p) ! k) \<in> S) \<and>
    int (length (concat (sk_written (pu_sink p)))) \<le> max 0 (uh_size (pu_hashes p)) \<and>
    (sk_completed (pu_sink p) \<longrightarrow> declaredFile md5 sha1 (pu_hashes p) (concat (sk_written (pu_sink p))))"
  using reachable_uploads [OF assms(1)] assms(2) by (simp add: uploadsOk_def uploadOk_def writtenOk_def)

text \<open>
  C37. What is staged without a file is verified. Media staged as uploaded to the platform is media that the platform
  said it has, or that a handler staged, or the media of an upload of the same session and file whose sink was
  completed after it had got exactly the declared file.
\<close>

theorem staged_upload_is_verified:
  assumes "upload_steps digest md5 sha1 S {} newUploads m" and "getStaged session fileId m = Some s" and "uf_native (sg_upload s)"
  shows "StagedEvent s \<in> S \<or> ReadyEvent (uf_session (sg_upload s)) (uf_fileId (sg_upload s)) (sg_media s) \<in> S \<or>
    (\<exists>i p. js_get (um_heap m) i = Some p \<and> pu_session p = uf_session (sg_upload s) \<and> pu_fileId p = uf_fileId (sg_upload s) \<and>
       pu_media p = sg_media s \<and> sk_completed (pu_sink p) \<and> declaredFile md5 sha1 (pu_hashes p) (concat (sk_written (pu_sink p))))"
proof -
  have ok: "uploadsOk md5 sha1 S m" by (rule reachable_uploads [OF assms(1)])
  then have "justified S (um_heap m) s" using assms(2,3) by (simp add: uploadsOk_def getStaged_def)
  with ok show ?thesis unfolding justified_def uploadsOk_def uploadOk_def writtenOk_def by metis
qed

text \<open>
  C38. Waiting parts are bounded. A prepared upload that has not failed keeps at most 32 parts and 16 MiB in memory
  between its jobs, in a map without duplicates; its counters are exact: the next part is the number of chunks
  written, the received bytes are those written, the buffered bytes those of the parts that wait, and the digest of the first
  10 MiB has been given exactly these.
\<close>

theorem upload_window_bounded:
  assumes "upload_steps digest md5 sha1 S {} newUploads m" and "js_get (um_heap m) i = Some p" and "pu_failed p = None"
  shows "length (pu_parts p) \<le> 32 \<and> pu_bufferedBytes p \<le> 16 * 1024 * 1024 \<and> distinct (js_keys (pu_parts p)) \<and>
    pu_nextPart p = int (length (sk_written (pu_sink p))) \<and>
    pu_receivedBytes p = int (length (concat (sk_written (pu_sink p)))) \<and>
    pu_bufferedBytes p = (\<Sum>e\<leftarrow>pu_parts p. int (length (snd e))) \<and>
    pu_file10MMd5 p = take (10 * 1024 * 1024) (concat (sk_written (pu_sink p)))"
proof -
  have "uploadOk md5 sha1 S i p" using reachable_uploads [OF assms(1)] assms(2) by (simp add: uploadsOk_def)
  then show ?thesis
    using assms(3) by (simp add: uploadOk_def countersOk_def windowOk_def js_inv_def FILE_10M_BYTES_def
        MAX_PREPARED_OUT_OF_ORDER_PARTS_def MAX_PREPARED_OUT_OF_ORDER_BYTES_def)
qed

section \<open>A run\<close>

definition acceptingSink :: "'m sinkEnv" where
  "acceptingSink = \<lparr>se_write = (\<lambda>b m. (None, m)), se_complete = (\<lambda>m. (None, m))\<rparr>"

definition demoHashes :: uploadHashes where
  "demoHashes = \<lparr>uh_size = 3, uh_md5 = ''0102FF'', uh_sha1 = ''0102ff'', uh_file10MMd5 = ''0102fF''\<rparr>"

definition demoPrepared :: "unit uploads" where
  "demoPrepared = snd (upPrepare id 1000 ''s'' ''f'' demoHashes () (Some 3) True False newUploads)"

definition demoHalf :: "unit uploads" where
  "demoHalf = snd (savePreparedPart toHex toHex acceptingSink 2000 0 1 [255] demoPrepared)"

definition demoStaged :: "unit uploads" where
  "demoStaged = snd (savePreparedPart toHex toHex acceptingSink 3000 0 0 [1, 2] demoHalf)"

definition demoEvents :: "unit upEvent set" where
  "demoEvents = {PartEvent 0 0 [1, 2], PartEvent 0 1 [255]}"

lemma demo_steps:
  "upload_steps id toHex toHex demoEvents {} newUploads demoHalf" "upload_steps id toHex toHex demoEvents {} newUploads demoStaged"
proof -
  show half: "upload_steps id toHex toHex demoEvents {} newUploads demoHalf"
    unfolding demoHalf_def demoPrepared_def
    by (intro us_job us_prepare us_refl) (auto simp: demoEvents_def acceptingSink_def intro: us_refl)
  then show "upload_steps id toHex toHex demoEvents {} newUploads demoStaged"
    unfolding demoStaged_def by (rule us_job) (auto simp: demoEvents_def acceptingSink_def intro: us_refl)
qed

definition demoUpload :: "unit preparedUpload" where
  "demoUpload = (newPrepared 1000 ''s'' ''f'' demoHashes ())\<lparr>pu_nextPart := 2, pu_receivedBytes := 3, pu_md5 := [1, 2, 255], pu_sha1 := [1, 2, 255],
     pu_file10MMd5 := [1, 2, 255], pu_file10MBytes := 3, pu_digested := True,
     pu_sink := \<lparr>sk_written = [[1, 2], [255]], sk_completed = True, sk_aborted = False\<rparr>\<rparr>"

lemma demo_get: "js_get (um_heap demoStaged) 0 = Some demoUpload"
  by code_simp

lemma demo_half: "js_get (um_heap demoHalf) 0 = Some ((newPrepared 1000 ''s'' ''f'' demoHashes ())\<lparr>pu_parts := [(1, [255])], pu_bufferedBytes := 1\<rparr>)"
  by code_simp

lemma demo_staged: "getStaged ''s'' ''f'' demoStaged = Some \<lparr>sg_media = (),
    sg_upload = \<lparr>uf_ref = 1, uf_session = ''s'', uf_fileId = ''f'', uf_source = MediaSource (), uf_native = True\<rparr>, sg_timestamp = 3, sg_updatedAt = 3000\<rparr>"
  by code_simp

lemma sink_gets_declared_file_witness: "declaredFile toHex toHex demoHashes [1, 2, 255]"
  using sink_gets_declared_file [OF demo_steps(2) demo_get] by (simp add: demoUpload_def newPrepared_def)

lemma staged_upload_is_verified_witness:
  "\<exists>i p. js_get (um_heap demoStaged) i = Some p \<and> sk_completed (pu_sink p) \<and> pu_session p = ''s''"
  using staged_upload_is_verified [OF demo_steps(2) demo_staged] by (auto simp: demoEvents_def)

lemma upload_window_bounded_witness:
  "length [(1 :: int, [255 :: byte])] \<le> 32 \<and> (1 :: int) = (\<Sum>e\<leftarrow>[(1 :: int, [255 :: byte])]. int (length (snd e)))"
  using upload_window_bounded [OF demo_steps(1) demo_half] by (simp add: newPrepared_def)

text \<open>
  An upload that is removed while its sink is called still finishes: its media is staged after the removal, and its
  sink completed although it was aborted.
\<close>

definition removingSink :: "'m sinkEnv" where
  "removingSink = \<lparr>se_write = (\<lambda>b m. (None, snd (upRemove id False ''s'' ''f'' m))), se_complete = (\<lambda>m. (None, m))\<rparr>"

lemma removed_upload_is_staged:
  "getStaged ''s'' ''f'' (snd (savePreparedPart toHex toHex removingSink 3000 0 0 [1, 2] demoHalf)) \<noteq> None \<and>
   map_option pu_sink (js_get (um_heap (snd (savePreparedPart toHex toHex removingSink 3000 0 0 [1, 2] demoHalf))) 0) =
     Some \<lparr>sk_written = [[1, 2], [255]], sk_completed = True, sk_aborted = True\<rparr>"
  by code_simp

end
