(* ===== verification/Uploads_Completion.thy ===== *)
theory Uploads_Completion
  imports Uploads_Safety
begin

text \<open>
  Uploads that come to an end: the parts of a file, in any order within the window and repeated at will, are
  staged; parts saved to a directory read back as the file, and a missing one is reported.
\<close>

section \<open>Parts of a prepared file\<close>

definition sendPart ::
  "(string \<Rightarrow> string) \<Rightarrow> (bytes \<Rightarrow> string) \<Rightarrow> (bytes \<Rightarrow> string) \<Rightarrow> 'm sinkEnv \<Rightarrow> string \<Rightarrow> string \<Rightarrow> bytes list \<Rightarrow> int \<times> nat \<Rightarrow> 'm uploads \<Rightarrow> 'm uploads" where
  "sendPart digest md5 sha1 env session fileId chunks e m =
     (case upSavePart digest (fst e) session fileId (int (snd e)) (chunks ! snd e) m of
        (PartQueued i, m1) \<Rightarrow> snd (savePreparedPart md5 sha1 env (fst e) i (int (snd e)) (chunks ! snd e) m1)
      | (_, m1) \<Rightarrow> m1)"

text \<open>The first part that has not been sent, and orders in which no part is more than 32 ahead of it.\<close>

definition firstMissing :: "nat list \<Rightarrow> nat" where
  "firstMissing seen = length (takeWhile (\<lambda>k. k \<in> set seen) [0..<Suc (length seen)])"

fun inWindow :: "nat list \<Rightarrow> nat list \<Rightarrow> bool" where
  "inWindow seen [] \<longleftrightarrow> True"
| "inWindow seen (k # ks) \<longleftrightarrow> k \<le> firstMissing seen + 32 \<and> inWindow (k # seen) ks"

lemma firstMissing: "firstMissing seen \<notin> set seen" "k < firstMissing seen \<Longrightarrow> k \<in> set seen"
proof -
  let ?xs = "[0..<Suc (length seen)]"
  have "\<not> {0..length seen} \<subseteq> set seen"
    using card_mono [of "set seen" "{0..length seen}"] card_length [of seen] by auto
  then obtain k0 where "k0 \<le> length seen" "k0 \<notin> set seen" by (meson atLeastAtMost_iff subsetI)
  then have "\<exists>k\<in>set ?xs. k \<notin> set seen" by (intro bexI [of _ k0]) auto
  then have less: "firstMissing seen < length ?xs"
    unfolding firstMissing_def
    by (metis length_takeWhile_le nat_less_le takeWhile_eq_all_conv takeWhile_eq_take take_all_iff order_refl)
  then have "?xs ! firstMissing seen \<notin> set seen"
    using nth_length_takeWhile [of "\<lambda>k. k \<in> set seen" ?xs] by (simp add: firstMissing_def)
  then show "firstMissing seen \<notin> set seen" using less by (simp del: upt_Suc)
  assume k: "k < firstMissing seen"
  then have "takeWhile (\<lambda>k. k \<in> set seen) ?xs ! k \<in> set seen"
    unfolding firstMissing_def by (metis nth_mem set_takeWhileD)
  moreover have "takeWhile (\<lambda>k. k \<in> set seen) ?xs ! k = ?xs ! k"
    using k unfolding firstMissing_def by (rule takeWhile_nth)
  ultimately show "k \<in> set seen" using k less by (simp del: upt_Suc)
qed

lemma firstMissing_unique: "n \<notin> set seen \<Longrightarrow> (\<And>k. k < n \<Longrightarrow> k \<in> set seen) \<Longrightarrow> firstMissing seen = n"
  using firstMissing by (metis linorder_neqE_nat)

definition waiting :: "bytes list \<Rightarrow> nat set \<Rightarrow> nat \<Rightarrow> int \<Rightarrow> bytes option" where
  "waiting chunks A n k = (if 0 \<le> k \<and> nat k \<in> A \<and> n \<le> nat k then Some (chunks ! nat k) else None)"

text \<open>The upload of a file of which the first \<open>n\<close> chunks are written and later ones, those in \<open>A\<close>, wait.\<close>

definition uploading :: "bytes list \<Rightarrow> uploadHashes \<Rightarrow> string \<Rightarrow> string \<Rightarrow> 'm \<Rightarrow> nat set \<Rightarrow> nat \<Rightarrow> 'm preparedUpload \<Rightarrow> bool" where
  "uploading chunks h session fileId media A n p \<longleftrightarrow> countersOk p \<and> pu_failed p = None \<and> writtenParts p = take n chunks \<and>
     n \<le> length chunks \<and> (sk_completed (pu_sink p) \<longleftrightarrow> n = length chunks) \<and> pu_hashes p = h \<and> pu_session p = session \<and>
     pu_fileId p = fileId \<and> pu_media p = media \<and> js_get (pu_parts p) = waiting chunks A n"

lemma accepting: "se_write acceptingSink b m = (None, m)" "se_complete acceptingSink m = (None, m)"
  by (simp_all add: acceptingSink_def)

lemma drain_file:
  assumes whole: "\<And>c. c \<in> set chunks \<Longrightarrow> c \<noteq> []" "declaredFile md5 sha1 h (concat chunks)"
    and p: "uploading chunks h session fileId media A n p" "n < length chunks" "A \<subseteq> {..<length chunks}"
    and next': "n' \<notin> A" "\<And>k. n \<le> k \<Longrightarrow> k < n' \<Longrightarrow> k \<in> A" "n \<le> n'"
  shows "\<exists>p'. drainPrepared md5 sha1 acceptingSink now i p m =
      (None, p', if n' = length chunks then finishPrepared now i p' m else m) \<and> uploading chunks h session fileId media A n' p'"
  using p next'
proof (induction "n' - n" arbitrary: n p)
  case 0
  then have "n' = n" by simp
  with 0 have "js_get (pu_parts p) (pu_nextPart p) = None"
    by (simp add: uploading_def countersOk_def waiting_def)
  then show ?case using 0 \<open>n' = n\<close> by (subst drainPrepared.simps) auto
next
  case (Suc d)
  note u = Suc.prems(1) [unfolded uploading_def]
  have "n < n'" using Suc.hyps(2) by simp
  then have nA: "n \<in> A" using Suc.prems(5) by blast
  have c: "countersOk p" using u by blast
  have nx: "pu_nextPart p = int n" "pu_receivedBytes p = int (length (concat (take n chunks)))" "\<not> pu_digested p"
    using u Suc.prems(2) by (simp_all add: countersOk_def min_absorb2)
  have get: "js_get (pu_parts p) (pu_nextPart p) = Some (chunks ! n)" using u nA by (simp add: nx waiting_def)
  have split: "take (Suc n) chunks = take n chunks @ [chunks ! n]" using Suc.prems(2) by (simp add: take_Suc_conv_app_nth)
  have len: "length (concat (take (Suc n) chunks)) + length (concat (drop (Suc n) chunks)) = length (concat chunks)"
    by (metis append_take_drop_id concat_append length_append)
  have size: "uh_size h = int (length (concat chunks))" using whole(2) by (simp add: declaredFile_def)
  let ?q = "nextState (chunks ! n) p"
  have q: "pu_receivedBytes ?q = int (length (concat (take (Suc n) chunks)))" "pu_hashes ?q = h"
    using nx u by (simp_all add: turn_defs split)
  have all: "pu_receivedBytes ?q = uh_size h \<longleftrightarrow> Suc n = length chunks"
  proof -
    have "concat (drop (Suc n) chunks) = [] \<longleftrightarrow> Suc n = length chunks"
      using whole(1) Suc.prems(2) in_set_dropD [of "hd (drop (Suc n) chunks)" "Suc n" chunks]
      by (cases "drop (Suc n) chunks") auto
    then have "length (concat (drop (Suc n) chunks)) = 0 \<longleftrightarrow> Suc n = length chunks" by (simp only: length_0_conv)
    moreover have "length (concat (take (Suc n) chunks)) = length (concat chunks) \<longleftrightarrow> length (concat (drop (Suc n) chunks)) = 0"
      using len by linarith
    ultimately show ?thesis unfolding q size of_nat_eq_iff by blast
  qed
  have parts: "js_get (pu_parts ?q) = waiting chunks A (Suc n)"
    using u by (auto simp: nextState_def turn_parts delete_conv' nx waiting_def fun_eq_iff)
  have written: "writtenParts ?q = take (Suc n) chunks" using u by (simp add: turn_defs split)
  have fits: "\<not> uh_size (pu_hashes p) < pu_receivedBytes p + int (length (chunks ! n))"
    using len u by (simp add: size nx(2) split)
  have step: "drainPrepared md5 sha1 acceptingSink now i p m =
      (if pu_receivedBytes ?q \<noteq> uh_size (pu_hashes ?q) then drainPrepared md5 sha1 acceptingSink now i ?q m
       else case verifyPreparedHashes md5 sha1 (?q\<lparr>pu_digested := True\<rparr>) of
         Some err \<Rightarrow> (Some err, ?q\<lparr>pu_digested := True\<rparr>, m)
       | None \<Rightarrow> (None, completedSink (?q\<lparr>pu_digested := True\<rparr>), finishPrepared now i (?q\<lparr>pu_digested := True\<rparr>) m))"
    using get fits nx(3) unfolding nextState_def
    by (subst drainPrepared.simps, unfold Let_def accepting prod.case option.case) simp
  show ?case
  proof (cases "Suc n = length chunks")
    case False
    have "uploading chunks h session fileId media A (Suc n) ?q"
      using u turn_counters(1) [OF c get] parts written False Suc.prems(2) q(2)
      by (simp add: uploading_def turn_fields)
    moreover have "Suc n < length chunks" using False Suc.prems(2) by simp
    ultimately show ?thesis
      using Suc.hyps(1) [of "Suc n" ?q] Suc.hyps(2) Suc.prems(3-5) \<open>n < n'\<close> all False q(2) unfolding step by simp
  next
    case True
    have n': "n' = length chunks"
    proof (rule antisym)
      show "length chunks \<le> n'" using True \<open>n < n'\<close> by simp
      have False if "length chunks < n'"
        using Suc.prems(3) Suc.prems(5) [of "length chunks"] that Suc.prems(2) by auto
      then show "n' \<le> length chunks" by (meson not_le)
    qed
    let ?c = "completedSink (?q\<lparr>pu_digested := True\<rparr>)"
    have "countersOk ?q" by (rule turn_counters(1) [OF c get])
    then have "verifyPreparedHashes md5 sha1 ?q = None" and cc: "countersOk ?c"
      using whole(2) written True q(2) by (simp_all add: verifyPreparedHashes_def countersOk_def declaredFile_def completedSink_def)
    moreover have "finishPrepared now i (?q\<lparr>pu_digested := True\<rparr>) m = finishPrepared now i ?c m"
      by (simp add: finishPrepared_def forget_def completedSink_def)
    ultimately have "drainPrepared md5 sha1 acceptingSink now i p m = (None, ?c, finishPrepared now i ?c m)"
      using all True q(2) unfolding step by simp
    moreover have "uploading chunks h session fileId media A n' ?c"
      using u cc parts written True q(2) \<open>n' = length chunks\<close> by (simp add: uploading_def turn_fields completedSink_def)
    ultimately show ?thesis using \<open>n' = length chunks\<close> by auto
  qed
qed

section \<open>The manager while a file is sent\<close>

text \<open>Telegram's largest part: 32 of them fill the 16 MiB that may wait.\<close>

definition telegramParts :: "bytes list \<Rightarrow> bool" where
  "telegramParts chunks \<longleftrightarrow> chunks \<noteq> [] \<and> (\<forall>c\<in>set chunks. c \<noteq> [] \<and> length c \<le> 512 * 1024) \<and> int (length chunks) \<le> 2 ^ 53"

definition sending :: "bytes list \<Rightarrow> uploadHashes \<Rightarrow> string \<Rightarrow> string \<Rightarrow> 'm \<Rightarrow> nat \<Rightarrow> nat list \<Rightarrow> 'm uploads \<Rightarrow> bool" where
  "sending chunks h session fileId media i seen m \<longleftrightarrow>
     (\<exists>p. js_get (um_heap m) i = Some p \<and> uploading chunks h session fileId media (set seen) (firstMissing seen) p) \<and>
     (if firstMissing seen = length chunks
      then js_get (um_prepared m) (stageKey session fileId) = None \<and>
        (\<exists>s. getStaged session fileId m = Some s \<and> sg_media s = media \<and> uf_native (sg_upload s))
      else js_get (um_prepared m) (stageKey session fileId) = Some i)"

lemma waiting_bounds:
  assumes p: "uploading chunks h session fileId media (set seen) (firstMissing seen) p"
    and parts: "telegramParts chunks" and seen: "\<And>j. j \<in> set seen \<Longrightarrow> j \<le> firstMissing seen + 32 \<and> j < length chunks"
    and k: "k \<notin> set seen" "k \<noteq> firstMissing seen" "firstMissing seen \<le> k" "k \<le> firstMissing seen + 32"
  shows "length (pu_parts p) \<le> 31" "pu_bufferedBytes p \<le> 31 * 524288"
proof -
  let ?n = "firstMissing seen"
  have c: "countersOk p" and get: "js_get (pu_parts p) = waiting chunks (set seen) ?n" using p by (auto simp: uploading_def)
  have inv: "distinct (js_keys (pu_parts p))" using c by (simp add: countersOk_def js_inv_def)
  have "j \<in> int ` ({?n<..?n + 32} - {k})" if "j \<in> set (js_keys (pu_parts p))" for j
  proof -
    have "js_get (pu_parts p) j \<noteq> None" using that by (simp add: map_of_eq_None_iff)
    then have j: "0 \<le> j" "nat j \<in> set seen" "?n \<le> nat j" by (auto simp: get waiting_def split: if_splits)
    moreover have "nat j \<noteq> ?n" using j(2) firstMissing(1) by metis
    ultimately have "nat j \<in> {?n<..?n + 32} - {k}" using seen [OF j(2)] k(1) by auto
    then show ?thesis using j(1) by (metis image_eqI int_nat_eq)
  qed
  then have "set (js_keys (pu_parts p)) \<subseteq> int ` ({?n<..?n + 32} - {k})" by blast
  from card_mono [OF _ this] have "card (set (js_keys (pu_parts p))) \<le> card ({?n<..?n + 32} - {k})"
    by (simp add: card_image)
  also have "\<dots> = 31" using k by (simp add: card_Diff_singleton)
  finally show len: "length (pu_parts p) \<le> 31" using distinct_card [OF inv] by simp
  have "int (length (snd e)) \<le> 524288" if "e \<in> set (pu_parts p)" for e
  proof -
    have "js_get (pu_parts p) (fst e) = Some (snd e)" using that inv by simp
    then have "nat (fst e) \<in> set seen" "snd e = chunks ! nat (fst e)" by (auto simp: get waiting_def split: if_splits)
    then show ?thesis using seen [of "nat (fst e)"] parts nth_mem [of "nat (fst e)" chunks] unfolding telegramParts_def by fastforce
  qed
  then have "pu_bufferedBytes p \<le> int (length (pu_parts p)) * 524288"
    using c sum_list_mono [of "pu_parts p" "\<lambda>e. int (length (snd e))" "\<lambda>e. 524288"]
    by (simp add: countersOk_def sum_list_triv)
  moreover have "int (length (pu_parts p)) * 524288 \<le> 31 * 524288" using len by simp
  ultimately show "pu_bufferedBytes p \<le> 31 * 524288" by linarith
qed

lemma firstMissing_mono: "set seen \<subseteq> set seen' \<Longrightarrow> firstMissing seen \<le> firstMissing seen'"
  using firstMissing by (metis linorder_not_less subset_iff)

lemma accept_file:
  assumes whole: "declaredFile md5 sha1 h (concat chunks)" "telegramParts chunks"
    and p: "uploading chunks h session fileId media (set seen) (firstMissing seen) p" "firstMissing seen < length chunks"
    and seen: "\<And>j. j \<in> set seen \<Longrightarrow> j \<le> firstMissing seen + 32 \<and> j < length chunks"
    and k: "k < length chunks" "k \<le> firstMissing seen + 32"
  shows "\<exists>p'. acceptPart md5 sha1 acceptingSink now i (int k) (chunks ! k) p m =
      (None, p', if firstMissing (k # seen) = length chunks then finishPrepared now i p' m else m) \<and>
      uploading chunks h session fileId media (set (k # seen)) (firstMissing (k # seen)) p'"
proof -
  let ?n = "firstMissing seen" and ?n' = "firstMissing (k # seen)"
  note u = p(1) [unfolded uploading_def]
  have c: "countersOk p" and f: "pu_failed p = None" and get: "js_get (pu_parts p) = waiting chunks (set seen) ?n"
    and nx: "pu_nextPart p = int ?n" using u p(2) by (auto simp: countersOk_def min_absorb2)
  show ?thesis
  proof (cases "k \<in> set seen")
    case True
    then have same: "set (k # seen) = set seen" by auto
    then have "?n' = ?n" by (intro firstMissing_unique) (use firstMissing in \<open>auto simp del: set_simps\<close>)
    moreover have "acceptPart md5 sha1 acceptingSink now i (int k) (chunks ! k) p m = (None, p, m)"
      using True f by (auto simp: acceptPart_def nx get waiting_def)
    ultimately show ?thesis using p same by simp
  next
    case new: False
    then have ge: "?n \<le> k" using firstMissing(2) [of k seen] by (meson linorder_not_less)
    let ?p = "p\<lparr>pu_parts := js_set (int k) (chunks ! k) (pu_parts p), pu_bufferedBytes := pu_bufferedBytes p + int (length (chunks ! k))\<rparr>"
    have none: "js_get (pu_parts p) (int k) = None" using new by (simp add: get waiting_def)
    have len: "int (length (chunks ! k)) \<le> 524288" using whole(2) k(1) by (auto simp: telegramParts_def)
    have room: "\<not> (int k \<noteq> pu_nextPart p \<and> (MAX_PREPARED_OUT_OF_ORDER_PARTS \<le> length (pu_parts p) \<or>
        MAX_PREPARED_OUT_OF_ORDER_BYTES < pu_bufferedBytes p + int (length (chunks ! k))))"
      using waiting_bounds [OF p(1) whole(2) seen new _ ge k(2)] len
      by (auto simp: nx MAX_PREPARED_OUT_OF_ORDER_PARTS_def MAX_PREPARED_OUT_OF_ORDER_BYTES_def)
    have "acceptPart md5 sha1 acceptingSink now i (int k) (chunks ! k) p m = drainPrepared md5 sha1 acceptingSink now i ?p m"
      using f none room ge by (cases "k = ?n") (auto simp: acceptPart_def nx)
    moreover have "uploading chunks h session fileId media (set (k # seen)) ?n ?p"
    proof -
      have "js_set (int k) (chunks ! k) (pu_parts p) = pu_parts p @ [(int k, chunks ! k)]"
        using none by (simp add: js_set_new map_of_eq_None_iff)
      then have "countersOk ?p" using c none by (simp add: countersOk_def js_inv_def map_of_eq_None_iff)
      moreover have "js_get (pu_parts ?p) = waiting chunks (set (k # seen)) ?n"
        using ge by (auto simp: update_conv' get waiting_def fun_eq_iff)
      ultimately show ?thesis using u by (simp add: uploading_def)
    qed
    moreover have "set (k # seen) \<subseteq> {..<length chunks}" using seen k(1) by auto
    moreover have "?n' \<notin> set (k # seen)" "\<And>j. j < ?n' \<Longrightarrow> j \<in> set (k # seen)" using firstMissing by blast+
    moreover have "?n \<le> ?n'" by (rule firstMissing_mono) auto
    moreover have "\<And>c. c \<in> set chunks \<Longrightarrow> c \<noteq> []" using whole(2) by (auto simp: telegramParts_def)
    ultimately show ?thesis
      using drain_file [OF _ whole(1), of session fileId media "set (k # seen)" ?n ?p ?n' now i m] p(2) by simp
  qed
qed

lemma uploading_later:
  "uploading chunks h session fileId media A n (p\<lparr>pu_updatedAt := t\<rparr>) \<longleftrightarrow> uploading chunks h session fileId media A n p"
  "uploading chunks h session fileId media A n (p\<lparr>pu_updatedAt := t, pu_sink := (pu_sink p)\<lparr>sk_aborted := b\<rparr>\<rparr>) \<longleftrightarrow>
     uploading chunks h session fileId media A n p"
  by (simp_all add: uploading_def countersOk_def)

lemma send_step:
  assumes whole: "declaredFile md5 sha1 h (concat chunks)" "telegramParts chunks"
    and m: "sending chunks h session fileId media i seen m"
    and seen: "\<And>j. j \<in> set seen \<Longrightarrow> j \<le> firstMissing seen + 32 \<and> j < length chunks"
    and k: "snd e < length chunks" "snd e \<le> firstMissing seen + 32"
  shows "sending chunks h session fileId media i (snd e # seen) (sendPart digest md5 sha1 acceptingSink session fileId chunks e m)"
proof -
  let ?key = "stageKey session fileId" and ?n = "firstMissing seen" and ?n' = "firstMissing (snd e # seen)"
  obtain p where p: "js_get (um_heap m) i = Some p" "uploading chunks h session fileId media (set seen) ?n p"
    using m by (auto simp: sending_def)
  have safe: "isSafeInteger (int (snd e)) \<and> \<not> int (snd e) < 0"
    using k(1) whole(2) by (simp add: telegramParts_def isSafeInteger_def)
  have le: "?n \<le> ?n'" by (rule firstMissing_mono) auto
  show ?thesis
  proof (cases "?n = length chunks")
    case True
    have "?n' = ?n" using seen k(1) True firstMissing(2) [of _ seen]
      by (intro firstMissing_unique) auto
    moreover have "waiting chunks (set (snd e # seen)) ?n = waiting chunks (set seen) ?n"
      using True seen k(1) by (auto simp: waiting_def fun_eq_iff)
    moreover obtain s where s: "js_get (um_prepared m) ?key = None" "getStaged session fileId m = Some s" "sg_media s = media" "uf_native (sg_upload s)"
      using m True by (auto simp: sending_def)
    moreover have "sendPart digest md5 sha1 acceptingSink session fileId chunks e m = m"
      using safe s by (simp add: sendPart_def upSavePart_def getStaged_def)
    ultimately show ?thesis using p True by (auto simp: sending_def uploading_def)
  next
    case False
    then have prepared: "js_get (um_prepared m) ?key = Some i" using m by (simp add: sending_def)
    have less: "?n < length chunks" using p(2) False by (simp add: uploading_def)
    define m1 where "m1 = m\<lparr>um_heap := js_set i (p\<lparr>pu_updatedAt := fst e\<rparr>) (um_heap m)\<rparr>"
    define p1 where "p1 = p\<lparr>pu_updatedAt := fst e\<rparr>"
    have "uploading chunks h session fileId media (set seen) ?n p1" using p(2) by (simp add: p1_def uploading_later)
    from accept_file [OF whole this less seen k] obtain p' where
      res: "acceptPart md5 sha1 acceptingSink (fst e) i (int (snd e)) (chunks ! snd e) p1 m1 =
        (None, p', if ?n' = length chunks then finishPrepared (fst e) i p' m1 else m1)" and
      p': "uploading chunks h session fileId media (set (snd e # seen)) ?n' p'" by blast
    define m2 where "m2 = (if ?n' = length chunks then finishPrepared (fst e) i p' m1 else m1)"
    have heap: "js_get (um_heap m1) i = Some p1" by (simp add: m1_def p1_def update_conv')
    have send: "sendPart digest md5 sha1 acceptingSink session fileId chunks e m = putObject i p' m2"
      using safe prepared p(1) res heap by (simp add: sendPart_def upSavePart_def savePreparedPart_def m1_def [symmetric] m2_def)
    have "uploading chunks h session fileId media (set (snd e # seen)) ?n' (the (js_get (um_heap (putObject i p' m2)) i))"
      using p' by (simp add: put_get uploading_later split: option.split)
    moreover have "um_prepared (putObject i p' m2) = um_prepared m2" "um_staged (putObject i p' m2) = um_staged m2"
      by (simp_all add: putObject_def)
    moreover have "pu_session p' = session" "pu_fileId p' = fileId" "pu_media p' = media" using p' by (auto simp: uploading_def)
    moreover have "um_prepared m1 = um_prepared m" by (simp add: m1_def)
    ultimately show ?thesis
      unfolding send using prepared
      by (auto simp: sending_def put_get m2_def getStaged_def finishPrepared_def stagePrepared_eq stagePrepared_def upStage_def forget_def
          update_conv' delete_conv')
  qed
qed

lemma send_all:
  assumes whole: "declaredFile md5 sha1 h (concat chunks)" "telegramParts chunks"
  shows "sending chunks h session fileId media i seen m \<Longrightarrow> inWindow seen (map snd order) \<Longrightarrow>
    (\<And>j. j \<in> set seen \<Longrightarrow> j \<le> firstMissing seen + 32 \<and> j < length chunks) \<Longrightarrow> set (map snd order) \<subseteq> {..<length chunks} \<Longrightarrow>
    sending chunks h session fileId media i (rev (map snd order) @ seen)
      (foldl (\<lambda>m e. sendPart digest md5 sha1 acceptingSink session fileId chunks e m) m order)"
proof (induction order arbitrary: seen m)
  case (Cons e order)
  have le: "firstMissing seen \<le> firstMissing (snd e # seen)" by (rule firstMissing_mono) auto
  have "sending chunks h session fileId media i (snd e # seen) (sendPart digest md5 sha1 acceptingSink session fileId chunks e m)"
    using Cons.prems by (intro send_step [OF whole]) auto
  from Cons.IH [OF this] show ?case using Cons.prems le by fastforce
qed simp

lemma prepared_stream:
  assumes "upPrepare digest now session fileId hashes media sourceSize hasSink abortFails m = (Inr UploadStream, m0)"
  shows "js_get (um_heap m0) (um_nextRef m0 - 1) = Some (newPrepared now session fileId hashes media) \<and>
    js_get (um_prepared m0) (stageKey session fileId) = Some (um_nextRef m0 - 1)"
  using assms by (auto simp: upPrepare_def Let_def update_conv' split: if_splits)

lemma sending_start:
  assumes "chunks \<noteq> []" "js_get (um_heap m) i = Some (newPrepared now session fileId hashes media)"
    and "js_get (um_prepared m) (stageKey session fileId) = Some i"
  shows "sending chunks hashes session fileId media i [] m"
proof -
  have "firstMissing [] = 0" by (rule firstMissing_unique) auto
  moreover have "uploading chunks hashes session fileId media {} 0 (newPrepared now session fileId hashes media)"
    using assms(1) by (auto simp: uploading_def newPrepared_def countersOk_def waiting_def FILE_10M_BYTES_def fun_eq_iff)
  ultimately show ?thesis using assms by (simp add: sending_def)
qed

section \<open>Saved parts\<close>

definition digitsValue :: "string \<Rightarrow> nat" where
  "digitsValue s = foldl (\<lambda>a c. 10 * a + (of_char c - 48)) 0 s"

lemma digitsValue_decString: "digitsValue (decString n) = n"
proof (induction n rule: decString.induct)
  case (1 n)
  show ?case
  proof (cases "n < 10")
    case True
    then show ?thesis by (simp add: decString.simps [of n] digitsValue_def)
  next
    case False
    then have "digitsValue (decString n) = 10 * digitsValue (decString (n div 10)) + n mod 10"
      by (subst decString.simps) (simp add: digitsValue_def)
    then show ?thesis using 1 [OF False] by simp
  qed
qed

lemma digitsValue_pad: "digitsValue (replicate k CHR ''0'' @ s) = digitsValue s"
  by (induction k) (simp_all add: digitsValue_def)

lemma partName_inj: "partName a = partName b \<longleftrightarrow> a = b"
  by (metis partName_def digitsValue_decString digitsValue_pad)

text \<open>The parts that have been saved for a file: the last bytes for each.\<close>

definition savedPartOf :: "string \<Rightarrow> string \<Rightarrow> (int \<times> string \<times> string \<times> nat \<times> bytes) list \<Rightarrow> nat \<Rightarrow> bytes option" where
  "savedPartOf session fileId saves k =
     map_of (rev (List.map_filter (\<lambda>(now, s, f, part, b). if s = session \<and> f = fileId then Some (part, b) else None) saves)) k"

definition saveAll :: "(string \<Rightarrow> string) \<Rightarrow> (int \<times> string \<times> string \<times> nat \<times> bytes) list \<Rightarrow> 'm uploads \<Rightarrow> 'm uploads" where
  "saveAll digest saves m = foldl (\<lambda>m (now, s, f, part, b). snd (upSavePart digest now s f (int part) b m)) m saves"

definition directoryParts :: "(string \<Rightarrow> string) \<Rightarrow> string \<Rightarrow> string \<Rightarrow> 'm uploads \<Rightarrow> (string, bytes) jsmap" where
  "directoryParts digest session fileId m =
     (case js_get (um_dirs m) (directoryOf digest session fileId) of None \<Rightarrow> [] | Some d \<Rightarrow> di_parts d)"

definition toDirectory :: "string \<Rightarrow> string \<Rightarrow> 'm uploads \<Rightarrow> bool" where
  "toDirectory session fileId m \<longleftrightarrow> js_get (um_prepared m) (stageKey session fileId) = None \<and>
     (case getStaged session fileId m of None \<Rightarrow> True | Some s \<Rightarrow> \<not> uf_native (sg_upload s))"

lemma save_keeps_maps:
  "um_prepared (snd (upSavePart digest now s f part b m)) = um_prepared m"
  "um_staged (snd (upSavePart digest now s f part b m)) = um_staged m"
  by (simp_all add: upSavePart_def Let_def split: option.split)

lemma save_directory:
  assumes "toDirectory session fileId m" "int part \<le> 2 ^ 53 - 1"
    and "directoryOf digest s f = directoryOf digest session fileId \<longrightarrow> s = session \<and> f = fileId"
  shows "js_get (directoryParts digest session fileId (snd (upSavePart digest now s f (int part) b m))) (partName k) =
    (if s = session \<and> f = fileId \<and> part = k then Some b else js_get (directoryParts digest session fileId m) (partName k))"
proof (cases "s = session \<and> f = fileId")
  case True
  then show ?thesis
    using assms(1,2)
    by (auto simp: upSavePart_def Let_def toDirectory_def getStaged_def isSafeInteger_def directoryParts_def update_conv' partName_inj
        split: option.splits)
next
  case False
  then have ne: "directoryOf digest session fileId \<noteq> directoryOf digest s f" using assms(3) by metis
  then have "js_get (um_dirs (snd (upSavePart digest now s f (int part) b m))) (directoryOf digest session fileId) =
      js_get (um_dirs m) (directoryOf digest session fileId)"
    unfolding upSavePart_def Let_def by (simp add: update_conv' split: option.split)
  then show ?thesis using False by (auto simp: directoryParts_def)
qed

lemma saveAll_parts:
  assumes "toDirectory session fileId m" "\<forall>(now, s, f, part, b)\<in>set saves. int part \<le> 2 ^ 53 - 1 \<and>
      (directoryOf digest s f = directoryOf digest session fileId \<longrightarrow> s = session \<and> f = fileId)"
  shows "toDirectory session fileId (saveAll digest saves m) \<and>
    js_get (directoryParts digest session fileId (saveAll digest saves m)) (partName k) =
      (case savedPartOf session fileId saves k of None \<Rightarrow> js_get (directoryParts digest session fileId m) (partName k) | Some b \<Rightarrow> Some b)"
  using assms(2)
proof (induction saves rule: rev_induct)
  case Nil
  then show ?case using assms(1) by (simp add: saveAll_def savedPartOf_def List.map_filter_def)
next
  case (snoc e saves)
  obtain now s f part b where e: "e = (now, s, f, part, b)" by (metis prod_cases5)
  let ?m = "saveAll digest saves m"
  have IH: "toDirectory session fileId ?m" "js_get (directoryParts digest session fileId ?m) (partName k) =
      (case savedPartOf session fileId saves k of None \<Rightarrow> js_get (directoryParts digest session fileId m) (partName k) | Some b \<Rightarrow> Some b)"
    using snoc by auto
  have step: "saveAll digest (saves @ [e]) m = snd (upSavePart digest now s f (int part) b ?m)" by (simp add: saveAll_def e)
  have saved: "savedPartOf session fileId (saves @ [e]) k =
      (if s = session \<and> f = fileId \<and> part = k then Some b else savedPartOf session fileId saves k)"
    by (auto simp: savedPartOf_def List.map_filter_def e)
  have "toDirectory session fileId (saveAll digest (saves @ [e]) m)"
    using IH(1) by (simp add: step toDirectory_def save_keeps_maps getStaged_def)
  moreover have "js_get (directoryParts digest session fileId (saveAll digest (saves @ [e]) m)) (partName k) =
      (if s = session \<and> f = fileId \<and> part = k then Some b else js_get (directoryParts digest session fileId ?m) (partName k))"
    unfolding step using snoc.prems e by (intro save_directory [OF IH(1)]) auto
  ultimately show ?case unfolding saved using IH(2) by simp
qed

section \<open>Properties\<close>

text \<open>
  C39. Parts in any order are staged. The parts of the declared file, of at most 512 KiB each, sent in any order in
  which none is more than 32 ahead of the first one missing, repeated at will, to a platform that accepts them: the
  sink gets the parts in order and is completed, the upload has not failed and is forgotten, and its media is staged.
\<close>

theorem parts_in_any_order_staged:
  assumes "upPrepare digest now session fileId hashes media sourceSize True abortFails m = (Inr UploadStream, m0)"
    and "declaredFile md5 sha1 hashes (concat chunks)" and "telegramParts chunks"
    and "set (map snd order) = {..<length chunks}" and "inWindow [] (map snd order)"
  shows "(let m1 = foldl (\<lambda>m e. sendPart digest md5 sha1 acceptingSink session fileId chunks e m) m0 order
     in (\<exists>s. getStaged session fileId m1 = Some s \<and> sg_media s = media \<and> uf_native (sg_upload s)) \<and>
        js_get (um_prepared m1) (stageKey session fileId) = None \<and>
        (\<exists>p. js_get (um_heap m1) (um_nextRef m0 - 1) = Some p \<and> pu_failed p = None \<and>
           sk_written (pu_sink p) = chunks \<and> sk_completed (pu_sink p)))"
proof -
  let ?m1 = "foldl (\<lambda>m e. sendPart digest md5 sha1 acceptingSink session fileId chunks e m) m0 order"
  have "sending chunks hashes session fileId media (um_nextRef m0 - 1) [] m0"
    using prepared_stream [OF assms(1)] assms(3) by (intro sending_start) (auto simp: telegramParts_def)
  then have end': "sending chunks hashes session fileId media (um_nextRef m0 - 1) (rev (map snd order)) ?m1"
    using send_all [OF assms(2,3), where seen = "[]" and order = order] assms(4,5) by simp
  have "firstMissing (rev (map snd order)) = length chunks"
    using assms(4) by (intro firstMissing_unique) auto
  with end' show ?thesis by (auto simp: sending_def uploading_def Let_def)
qed

text \<open>
  C40. Saved parts read back. After any saves of parts of this and other files, opening the file with \<open>n\<close> parts
  succeeds exactly when each of them has been saved; its source then has the size of, and reads as, the last bytes
  saved for each part, in order. Otherwise the error names the first part that is missing.
\<close>

theorem saved_parts_read_back:
  assumes "toDirectory session fileId m" and "js_get (um_dirs m) (directoryOf digest session fileId) = None"
    and "\<forall>(now, s, f, part, b)\<in>set saves. int part \<le> 2 ^ 53 - 1 \<and>
      (directoryOf digest s f = directoryOf digest session fileId \<longrightarrow> s = session \<and> f = fileId)"
    and "0 < n" and "int n \<le> 2 ^ 53 - 1"
  shows "(let m1 = saveAll digest saves m; saved = savedPartOf session fileId saves;
              file = concat (map (\<lambda>k. the (saved k)) [0..<n])
     in (\<forall>k<n. saved k \<noteq> None) \<and>
          (\<exists>u names m2. upOpen digest session fileId (int n) m1 = (Inr u, m2) \<and> uf_source u = DirectorySource (length file) names \<and>
             streamDirectory digest u names m2 = Some file) \<or>
        (\<exists>k<n. saved k = None \<and> (\<forall>j<k. saved j \<noteq> None) \<and> upOpen digest session fileId (int n) m1 = (Inl (PartMissing k), m1)))"
proof -
  let ?m1 = "saveAll digest saves m" and ?saved = "savedPartOf session fileId saves"
  let ?parts = "directoryParts digest session fileId ?m1"
  have get: "js_get ?parts (partName k) = ?saved k" for k
    using saveAll_parts [OF assms(1,3), of k] assms(2) by (simp add: directoryParts_def split: option.splits)
  have opened: "upOpen digest session fileId (int n) ?m1 =
      (case find (\<lambda>i. \<not> js_has ?parts (partName i)) [0..<n] of Some i \<Rightarrow> (Inl (PartMissing i), ?m1)
       | None \<Rightarrow> (Inr \<lparr>uf_ref = um_nextRef ?m1, uf_session = session, uf_fileId = fileId, uf_source = DirectorySource
            (sum_list (map (\<lambda>name. length (the (js_get ?parts name))) (map partName [0..<n]))) (map partName [0..<n]), uf_native = False\<rparr>,
          ?m1\<lparr>um_nextRef := um_nextRef ?m1 + 1\<rparr>))"
    using assms(4,5) unfolding upOpen_def Let_def directoryParts_def nat_int by (simp add: isSafeInteger_def)
  show ?thesis
  proof (cases "find (\<lambda>i. \<not> js_has ?parts (partName i)) [0..<n]")
    case (Some i)
    then have "i < n" "\<not> js_has ?parts (partName i)" "\<forall>j<i. js_has ?parts (partName j)" by (auto simp: find_Some_iff)
    then show ?thesis unfolding Let_def opened Some using get by auto
  next
    case None
    then have all: "\<forall>k<n. ?saved k \<noteq> None" by (auto simp: find_None_iff get)
    have "map (\<lambda>name. the (js_get ?parts name)) (map partName [0..<n]) = map (\<lambda>k. the (?saved k)) [0..<n]" by (simp add: get)
    moreover have "js_get (um_dirs ?m1) (directoryOf digest session fileId) \<noteq> None"
    proof
      assume "js_get (um_dirs ?m1) (directoryOf digest session fileId) = None"
      then have "js_get ?parts (partName 0) = None" by (simp add: directoryParts_def)
      with all assms(4) get show False by auto
    qed
    ultimately show ?thesis
      unfolding Let_def opened None using all get
      by (auto simp: streamDirectory_def directoryParts_def length_concat o_def map_eq_conv)
  qed
qed

section \<open>Witnesses\<close>

definition demoOrder :: "(int \<times> nat) list" where
  "demoOrder = [(2000, 1), (2500, 1), (3000, 0), (4000, 1)]"

lemma demo_prepare: "upPrepare id 1000 ''s'' ''f'' demoHashes () (Some 3) True False newUploads = (Inr UploadStream, demoPrepared)"
  unfolding demoPrepared_def by (simp add: upPrepare_def Let_def newUploads_def demoHashes_def)

lemma parts_in_any_order_staged_witness:
  "getStaged ''s'' ''f'' (foldl (\<lambda>m e. sendPart id toHex toHex acceptingSink ''s'' ''f'' [[1, 2], [255]] e m) demoPrepared demoOrder) \<noteq> None"
proof -
  have "toHex [1, 2, 255] = ''0102ff''" "lowerCase ''0102FF'' = ''0102ff''" "lowerCase ''0102ff'' = ''0102ff''" "lowerCase ''0102fF'' = ''0102ff''"
    by code_simp+
  then have "declaredFile toHex toHex demoHashes (concat [[1, 2], [255]])"
    unfolding declaredFile_def by (simp add: demoHashes_def FILE_10M_BYTES_def del: toHex_simps)
  moreover have "telegramParts [[1, 2], [255]]" by (simp add: telegramParts_def)
  moreover have "set (map snd demoOrder) = {..<length [[1, 2], [255 :: byte]]}" by (auto simp: demoOrder_def)
  moreover have "inWindow [] (map snd demoOrder)" by code_simp
  ultimately show ?thesis using parts_in_any_order_staged [OF demo_prepare] unfolding Let_def by blast
qed

definition demoSaves :: "(int \<times> string \<times> string \<times> nat \<times> bytes) list" where
  "demoSaves = [(1, ''s'', ''f'', 1, [3]), (2, ''s'', ''g'', 0, [9]), (3, ''s'', ''f'', 0, [1, 2]), (4, ''s'', ''f'', 1, [4])]"

lemma saved_parts_read_back_witness:
  "\<exists>u names m2. upOpen id ''s'' ''f'' 2 (saveAll id demoSaves (newUploads :: unit uploads)) = (Inr u, m2) \<and>
     uf_source u = DirectorySource 3 names \<and> streamDirectory id u names m2 = Some [1, 2, 4]"
proof -
  let ?m = "newUploads :: unit uploads" and ?saved = "savedPartOf ''s'' ''f'' demoSaves"
  have dir: "toDirectory ''s'' ''f'' ?m" "js_get (um_dirs ?m) (directoryOf id ''s'' ''f'') = None"
    by (simp_all add: toDirectory_def newUploads_def getStaged_def)
  have others: "\<forall>(now, s, f, part, b)\<in>set demoSaves. int part \<le> 2 ^ 53 - 1 \<and>
      (directoryOf id s f = directoryOf id ''s'' ''f'' \<longrightarrow> s = ''s'' \<and> f = ''f'')"
    by (simp add: demoSaves_def directoryOf_def)
  have saved: "?saved 0 = Some [1, 2]" "?saved 1 = Some [4]" by code_simp+
  have "[0..<2] = [0, 1 :: nat]" by (simp add: upt_rec)
  then have file': "concat (map (\<lambda>k. the (?saved k)) [0..<2]) = [1, 2, 4]" using saved by simp
  have "\<not> (\<exists>k<2. ?saved k = None \<and> P k)" for P using saved by (auto simp: less_2_cases_iff)
  with saved_parts_read_back [OF dir others, of 2] show ?thesis unfolding Let_def file' by auto
qed

end
