(* ===== verification/Spec2Isabelle.thy ===== *)
theory Spec2Isabelle
  imports Prelude Js_Map Message_Id Server_Auth_Key Rpc_Request Session_Messages Session_Messages_Safety Temp_Key_Binding Rpc_Registry Rpc_Registry_Safety
    Server_Connection Server_Connection_Safety Session_Flow Session_Flow_Safety
    Transport_Codec Transport_Codec_Safety Auth_Key_Store Auth_Key_Store_Safety File_Key_Store_Safety
    Sequence_Coverage Sha1_State Login_Tokens Login_Tokens_Safety
    Voice_Calls Voice_Calls_Safety Voice_Calls_Lifecycle Voice_Calls_Claims
    Update_Store Update_Store_Memory Update_Store_Database Update_Store_Safety
    Update_Sequence Update_Difference Update_Sequence_Safety Update_Difference_Safety
    Scheduled_Messages Scheduled_Messages_Safety Uploads Uploads_Safety Uploads_Completion
begin

text \<open>
  Crossgram is a server that speaks Telegram's MTProto to ordinary Telegram clients and forwards
  what they do to other messengers. The program is a set of TypeScript packages:

  \<^item> \<open>packages/mtproto\<close> terminates the client connections: transport framing, the
    authorization keys, sessions, RPC dispatch;
  \<^item> \<open>packages/bridge\<close> implements the RPC methods over an account of some platform: dialogs,
    messages, logins, voice calls, updates;
  \<^item> \<open>packages/update-store\<close> and its two backends keep the log of updates a client can ask for
    again;
  \<^item> \<open>packages/history-backfill\<close> and \<open>packages/platform-*\<close> talk to the platforms.

  This development models the parts in which the state, the ordering and the limits of the server
  are decided, as executable definitions named as in the code, and proves what makes them
  correct. Paths below are relative to \<open>src/packages\<close>.

  \<^bold>\<open>How the parts meet.\<close> Bytes from a socket enter the decode loop (\<open>Transport_Codec\<close>), whose
  frames enter the frame queue of a session (\<open>Session_Flow\<close>); a frame is decrypted with an
  authorization key (\<open>Server_Auth_Key\<close>, kept by \<open>Auth_Key_Store\<close>) and becomes messages, which
  are acknowledged and answered by the session (\<open>Session_Messages\<close>); an RPC is unwrapped and
  fingerprinted (\<open>Rpc_Request\<close>), joins or starts an execution in the shared registry
  (\<open>Rpc_Registry\<close>) and waits for a slot (\<open>Session_Flow\<close>); a temporary key becomes usable for
  it through \<open>Temp_Key_Binding\<close>. Answers get their ids from
  \<open>Message_Id\<close> and leave through the send queue of the connection (\<open>Server_Connection\<close>).
  The bridge's methods use the login tokens, the voice call registry, the uploads, the scheduled
  messages and the update log, whose rows \<open>Update_Sequence\<close> numbers and \<open>Update_Difference\<close> hands out.

  \<^bold>\<open>Shared theories.\<close>

  \<^item> \<open>Prelude\<close>: bytes, 64-bit ids, hexadecimal and decimal text with injectivity, generic
    list facts.
  \<^item> \<open>Js_Map\<close>: the JavaScript \<open>Map\<close> in insertion order, its contract as the locale
    \<open>ordered_map\<close>, and the loop that evicts the oldest entries.

  \<^bold>\<open>mtproto.\<close>

  \<^item> \<open>Message_Id\<close> (\<open>mtproto/src/session/message-id.ts\<close>): the id generator \<open>msgIdGen\<close>. Issued
    ids are strictly increasing and 1 modulo 4.
  \<^item> \<open>Transport_Codec\<close>, \<open>Transport_Codec_Safety\<close> (\<open>mtproto/src/transport/server-obfuscation.ts\<close>,
    \<open>receive-buffer.ts\<close>, the receiving half of \<open>server-connection.ts\<close>): framings, obfuscation,
    detection and the decode loop. The frames do not depend on how the network cuts the stream;
    encoding and decoding are inverse. The decode loop is a recursion on the buffer length.
  \<^item> \<open>Server_Connection\<close>, \<open>Server_Connection_Safety\<close> (\<open>mtproto/src/transport/server-connection.ts\<close>):
    send queue, asynchronous encoding, completions with their timer, closing, pausing; a step
    relation interleaves them. Frames leave in order; completions are called exactly once.
  \<^item> \<open>Session_Flow\<close>, \<open>Session_Flow_Safety\<close> (\<open>mtproto/src/session/server-session.ts\<close>): frame
    queue, drain loop, RPC slots, read pausing. Limits, order, fairness, no lost resume. The drain
    loop is cut at its \<open>await\<close>; each of its runs up to there is one step.
  \<^item> \<open>Rpc_Registry\<close>, \<open>Rpc_Registry_Safety\<close> (same file): dependencies and replays shared by the
    connections of one key. Counters are exact in every interleaving of the callbacks, a running
    request is never started twice, memory is bounded.
  \<^item> \<open>Server_Auth_Key\<close> (\<open>mtproto/src/session/server-auth-key.ts\<close>): message encryption and the
    checks of decryption. The frames delivered are exactly those a holder of the key has sealed.
  \<^item> \<open>Temp_Key_Binding\<close> (\<open>server-session.ts\<close>): \<open>auth.bindTempAuthKey\<close> with the verification of its
    inner message. The session takes the permanent identity only with a proof by the permanent key.
  \<^item> \<open>Rpc_Request\<close> (\<open>mtproto/src/rpc/protocol.ts\<close>, \<open>server-session.ts\<close>): unwrapping a request,
    and the text its fingerprint is the digest of. The text determines the request when no string
    holds a semicolon; the lemma \<open>fingerprint_collision\<close> shows why that is needed.
  \<^item> \<open>Session_Messages\<close>, \<open>Session_Messages_Safety\<close> (\<open>server-session.ts\<close>): acknowledgements, the
    table of completed messages, \<open>invokeAfterMsg\<close> dependencies, service messages, layer negotiation
    with the updates that wait for it, the login token of a session. A step relation interleaves the
    operations and the microtasks: acknowledgements are neither lost nor repeated, updates arrive in
    order. The lemma \<open>invoke_after_cycle\<close> shows two calls that wait for each other.
  \<^item> \<open>Auth_Key_Store\<close>, \<open>Auth_Key_Store_Safety\<close>, \<open>File_Key_Store_Safety\<close>
    (\<open>mtproto/src/session/auth-key-store.ts\<close>): memory and file store, with a failure at any
    file-system call, torn journals and restarts. A revoked key stays dead; the files hold what
    the memory holds. The contract is the locale \<open>revocable_store\<close>.

  \<^bold>\<open>bridge, update store, others.\<close>

  \<^item> \<open>Login_Tokens\<close>, \<open>Login_Tokens_Safety\<close> (\<open>bridge/src/login-token.ts\<close>, \<open>auth-transfer.ts\<close>): QR
    login tokens and transfer tickets. Who can claim an identity, once.
  \<^item> \<open>Voice_Calls\<close>, \<open>Voice_Calls_Safety\<close>, \<open>Voice_Calls_Lifecycle\<close>, \<open>Voice_Calls_Claims\<close>
    (\<open>bridge/src/voice/call-registry.ts\<close>): one-to-one calls. Every operation refines an abstract
    machine of moves; life cycle, key exchange, limits, retries and expiry follow from it.
  \<^item> \<open>Update_Store\<close>, \<open>Update_Store_Memory\<close>, \<open>Update_Store_Database\<close>, \<open>Update_Store_Safety\<close>
    (\<open>update-store/src/index.ts\<close>, \<open>update-store-memory\<close>, \<open>update-store-database\<close>): the log of
    updates, its abstract specification, the contract \<open>update_store\<close> and both backends under it.
  \<^item> \<open>Update_Sequence\<close>, \<open>Update_Sequence_Safety\<close> (\<open>bridge/src/message-store.ts\<close>): the pts counters of
    accounts and channels, the reservation of a row, its payload, claim and release. A step relation over
    any log that keeps the contract \<open>keyed_update_store\<close> shows the intervals of a scope disjoint and an event
    numbered once.
  \<^item> \<open>Update_Difference\<close>, \<open>Update_Difference_Safety\<close> (\<open>bridge/src/update-manager.ts\<close>):
    \<open>updates.getDifference\<close> and \<open>getChannelDifference\<close> with their handling of unfinished and abandoned
    reservations. What a client is moved past it has got. The lemma \<open>mention_read_hides_gap\<close> shows a row
    that gets past the check.
  \<^item> \<open>Scheduled_Messages\<close>, \<open>Scheduled_Messages_Safety\<close> (\<open>bridge/src/scheduled-messages.ts\<close>): the tables,
    claims with leases, retries, the dispatcher and its timer. A claim is exclusive, a sweep serves exactly
    the due rows, retries end, pending rows have a timer. A sender may change everything while it runs; the
    lemma \<open>cancel_lost_when_sending_fails\<close> shows what that does to a cancellation.
  \<^item> \<open>Uploads\<close>, \<open>Uploads_Safety\<close>, \<open>Uploads_Completion\<close> (\<open>bridge/src/upload-manager.ts\<close>): parts in
    directories and uploads handed to a platform's sink. The jobs of one upload follow each other; while one
    waits at the sink any other operation may run, jobs of other uploads included, which the relation
    \<open>upload_steps\<close> expresses by runs inside a run. A sink gets exactly the declared file; parts in any
    order arrive; saved parts read back.
  \<^item> \<open>Sequence_Coverage\<close> (\<open>history-backfill/src/coverage.ts\<close>): interval sets; they represent
    exactly the numbers added, and the gap search makes progress until nothing is missing.
  \<^item> \<open>Sha1_State\<close> (\<open>platform-crossgram/src/sha1-state.ts\<close>): incremental SHA-1 against FIPS 180-4.

  \<^bold>\<open>Conventions.\<close> Time is an argument of the operation that reads it. Random bytes, digests,
  ciphers, the TL serializer of the mtcute packages, the database and the platforms are arguments;
  what is assumed of them stands as a named hypothesis of the property, with an instance in its
  witness. A JavaScript promise is a number or a pending entry, and the code after an \<open>await\<close> is
  an operation of its own, so that theorems range over all interleavings. A method that throws
  returns a value of a sum or option type. Logging and debug capture have no model.

  \<^bold>\<open>Bounds and fuel.\<close> No definition uses fuel: loops are structural, or \<open>function\<close>s
  with a measure (bytes left, entries above the limit, nesting). The limits of the code are
  definitions with their names.

  \<^bold>\<open>Not modelled.\<close> In \<open>server-session.ts\<close>: the envelopes around messages (containers and
  compression, whose objects \<open>processDecryptedMessage\<close> gets one by one), the plaintext handshake and
  the resumption of stored keys, the after-response tasks. The key exchange (\<open>server-authorization.ts\<close>) is arithmetic of a package on
  random numbers. Of \<open>message-store.ts\<close>, \<open>update-manager.ts\<close> and \<open>dialogs.ts\<close> only what is named above: the
  rest of the dialog, message and sticker modules of the bridge and the platform adapters
  translate between the data models of foreign services: their behaviour is fixed by those
  services and by a database, and they keep little state of their own. The dashboards
  (\<open>client/\<close> directories, \<open>cordis-webui-react\<close>) are user interface; \<open>generated-*\<close> files are
  generated; the voice worker and the call shim are in other languages.
\<close>

end
